(* ===== verification/Prelude.thy ===== *)
theory Prelude
  imports Main "HOL-Library.Monad_Syntax"
begin

text \<open>
  Shared vocabulary of the development. Addresses of heap objects are natural numbers, a C pointer
  is an optional address (\<open>None\<close> is \<open>NULL\<close>), and a computation of type \<open>'a option\<close> is \<open>None\<close>
  exactly where the C program has no defined behaviour: a \<open>NULL\<close> or dangling dereference, a failed
  \<open>assert\<close>, a signed overflow, or a loop over a cyclic structure that never ends. Results that the
  program reports to its caller (error codes, \<open>NULL\<close> results, exits) are ordinary values of the
  result types of each component, never \<open>None\<close>.
\<close>

type_synonym addr = nat
type_synonym ptr = "nat option"

named_theorems heap_simps \<open>rewriting of reads after updates of the queue store\<close>
named_theorems op_defs \<open>definitions of the scheduler operations\<close>
named_theorems spec_defs \<open>definitions of the abstract scheduler operations\<close>

section \<open>Machine integers\<close>

text \<open>The range of C's \<open>int\<close>; signed arithmetic outside it is undefined.\<close>

definition INT_MAX :: int where
  "INT_MAX = 2147483647"

definition ENOSYS :: int where
  "ENOSYS = 38"

definition ENOMEM :: int where
  "ENOMEM = 12"

definition INT_MIN :: int where
  "INT_MIN = - 2147483648"

definition int_range :: "int \<Rightarrow> bool" where
  "int_range n \<longleftrightarrow> INT_MIN \<le> n \<and> n \<le> INT_MAX"

definition checked_int :: "int \<Rightarrow> int option" where
  "checked_int n = (if int_range n then Some n else None)"

lemma checked_int_Some [simp]: "checked_int n = Some m \<longleftrightarrow> int_range n \<and> m = n"
  by (auto simp: checked_int_def)

lemma checked_int_in_range [simp]: "int_range n \<Longrightarrow> checked_int n = Some n"
  by (simp add: checked_int_def)

section \<open>Lists and options\<close>

lemma bind_SomeE:
  assumes "Option.bind m f = Some y"
  obtains x where "m = Some x" and "f x = Some y"
  using assms by (auto simp: bind_eq_Some_conv)

lemma distinct_snoc [simp]: "distinct (xs @ [x]) \<longleftrightarrow> x \<notin> set xs \<and> distinct xs"
  by auto

lemma remove1_notin [simp]: "x \<notin> set xs \<Longrightarrow> remove1 x xs = xs"
  by (rule remove1_idem)

lemma set_remove1_distinct [simp]: "distinct xs \<Longrightarrow> set (remove1 x xs) = set xs - {x}"
  by (rule set_remove1_eq)

end
