(* ===== verification/C_Lib.thy ===== *)
theory C_Lib
  imports Prelude
begin

text \<open>
  The functions of the C library that several programs use: decimal numbers (\<open>atoi\<close>, the conversions
  \<open>%d\<close> of \<open>printf\<close> and \<open>scanf\<close>), \<open>strtok\<close>, and C's remainder. Strings are the characters before the
  terminating \<open>NUL\<close>.
\<close>

section \<open>Decimal numbers\<close>

definition isdigit :: "char \<Rightarrow> bool" where
  "isdigit c \<longleftrightarrow> 48 \<le> (of_char c :: int) \<and> (of_char c :: int) \<le> 57"

fun digits :: "string \<Rightarrow> int \<Rightarrow> int" where
  "digits [] n = n"
| "digits (c # cs) n = (if isdigit c then digits cs (10 * n + (of_char c - 48)) else n)"

definition isspace :: "char \<Rightarrow> bool" where
  "isspace c \<longleftrightarrow> c \<in> set [CHR '' '', CHR 0x09, CHR 0x0A, CHR 0x0B, CHR 0x0C, CHR 0x0D]"

text \<open>\<open>atoi\<close> is undefined when the number is no \<open>int\<close>.\<close>

definition atoi :: "string \<Rightarrow> int option" where
  "atoi s = (case dropWhile isspace s of
       [] \<Rightarrow> Some 0
     | c # cs \<Rightarrow> checked_int (if c = CHR ''-'' then - digits cs 0
                              else if c = CHR ''+'' then digits cs 0 else digits (c # cs) 0))"

definition digit_char :: "nat \<Rightarrow> char" where
  "digit_char n = char_of (48 + n)"

text \<open>The decimal digits of a number, and of an integer with its sign (\<open>%d\<close>).\<close>

fun dec :: "nat \<Rightarrow> string" where
  "dec n = (if n < 10 then [digit_char n] else dec (n div 10) @ [digit_char (n mod 10)])"

definition show_int :: "int \<Rightarrow> string" where
  "show_int n = (if n < 0 then CHR ''-'' # dec (nat (- n)) else dec (nat n))"

declare dec.simps [simp del]

lemma of_char_int: "(of_char c :: int) = int (of_char c)"
  by (simp add: of_nat_of_char)

lemma digit_char_of: "n < 10 \<Longrightarrow> (of_char (digit_char n) :: int) = 48 + int n"
  by (simp add: digit_char_def of_char_int)

lemma isdigit_digit_char: "n < 10 \<Longrightarrow> isdigit (digit_char n)"
  by (simp add: isdigit_def digit_char_of)

lemma dec_isdigit: "c \<in> set (dec n) \<Longrightarrow> isdigit c"
proof (induction n rule: dec.induct)
  case (1 n)
  then show ?case by (cases "n < 10") (auto simp: dec.simps [of n] isdigit_digit_char)
qed

lemma dec_nonempty [simp]: "dec n \<noteq> []"
  by (subst dec.simps) simp

lemma digits_append: "\<forall>c \<in> set xs. isdigit c \<Longrightarrow> digits (xs @ ys) n = digits ys (digits xs n)"
  by (induction xs arbitrary: n) auto

lemma digits_dec: "digits (dec n) 0 = int n"
proof (induction n rule: dec.induct)
  case (1 n)
  show ?case
  proof (cases "n < 10")
    case True
    then show ?thesis by (simp add: dec.simps [of n] isdigit_digit_char digit_char_of)
  next
    case False
    have "digits (dec n) 0 = digits [digit_char (n mod 10)] (int (n div 10))"
      using False 1 by (simp add: dec.simps [of n] digits_append dec_isdigit)
    also have "\<dots> = 10 * int (n div 10) + int (n mod 10)" by (simp add: isdigit_digit_char digit_char_of)
    also have "\<dots> = int (10 * (n div 10) + n mod 10)" by linarith
    also have "\<dots> = int n" by (simp only: mult_div_mod_eq)
    finally show ?thesis .
  qed
qed

text \<open>Reading a number stops at the first character that is no digit.\<close>

lemma digits_stop: "rest = [] \<or> \<not> isdigit (hd rest) \<Longrightarrow> digits rest n = n"
  by (cases rest) auto

lemma digits_dec_append:
  "rest = [] \<or> \<not> isdigit (hd rest) \<Longrightarrow> digits (dec n @ rest) 0 = int n"
  by (simp add: digits_append dec_isdigit digits_dec digits_stop)

lemma length_dec: "n < 10 ^ k \<Longrightarrow> 0 < k \<Longrightarrow> length (dec n) \<le> k"
proof (induction n arbitrary: k rule: dec.induct)
  case (1 n)
  show ?case
  proof (cases "n < 10")
    case True
    then show ?thesis using 1 by (simp add: dec.simps [of n])
  next
    case False
    then obtain j where j: "k = Suc j" "0 < j" using 1(2) by (cases k; cases "k - 1") auto
    then have "n div 10 < 10 ^ j" using 1(2) by (simp add: less_mult_imp_div_less mult.commute)
    then show ?thesis using 1(1) [OF False] j False by (simp add: dec.simps [of n])
  qed
qed

lemma isdigit_not:
  "\<not> isdigit (CHR '':'')" "\<not> isdigit (CHR '','')" "\<not> isdigit (CHR 0x0A)" "\<not> isdigit (CHR ''-'')"
  "\<not> isdigit (CHR ''+'')" "\<not> isdigit (CHR 0x00)"
  by (simp_all add: isdigit_def)

lemma isdigit_not_space: "isdigit c \<Longrightarrow> \<not> isspace c"
  by (auto simp: isdigit_def isspace_def)

lemma show_int_nat: "0 \<le> n \<Longrightarrow> show_int n = dec (nat n)"
  by (simp add: show_int_def)

lemma atoi_show_int:
  assumes "int_range n"
  shows "atoi (show_int n) = Some n"
proof (cases "n < 0")
  case True
  then show ?thesis using assms by (simp add: show_int_def atoi_def isspace_def digits_dec)
next
  case False
  obtain c cs where c: "dec (nat n) = c # cs" by (cases "dec (nat n)") auto
  then have d: "isdigit c" using dec_isdigit [of c "nat n"] by simp
  then have "c \<noteq> CHR ''-''" "c \<noteq> CHR ''+''" using isdigit_not by auto
  then show ?thesis
    using False c assms isdigit_not_space [OF d] digits_dec [of "nat n"] by (simp add: show_int_def atoi_def)
qed

section \<open>Tokens\<close>

text \<open>\<open>strtok\<close> with one delimiter: the non-empty pieces between delimiters.\<close>

fun split_on :: "char \<Rightarrow> string \<Rightarrow> string list" where
  "split_on d [] = [[]]"
| "split_on d (c # cs) = (if c = d then [] # split_on d cs
     else (case split_on d cs of [] \<Rightarrow> [[c]] | x # xs \<Rightarrow> (c # x) # xs))"

definition strtok :: "char \<Rightarrow> string \<Rightarrow> string list" where
  "strtok d s = filter (\<lambda>t. t \<noteq> []) (split_on d s)"

lemma split_on_nonempty [simp]: "split_on d s \<noteq> []"
  by (induction s) (auto split: list.split)

lemma split_on_piece: "d \<notin> set x \<Longrightarrow> split_on d (x @ d # s) = x # split_on d s"
  by (induction x) auto

lemma split_on_last: "d \<notin> set x \<Longrightarrow> split_on d x = [x]"
  by (induction x) auto

lemma strtok_piece: "d \<notin> set x \<Longrightarrow> x \<noteq> [] \<Longrightarrow> strtok d (x @ d # s) = x # strtok d s"
  by (simp add: strtok_def split_on_piece)

lemma strtok_last: "d \<notin> set x \<Longrightarrow> x \<noteq> [] \<Longrightarrow> strtok d x = [x]"
  by (simp add: strtok_def split_on_last)

lemma strtok_Nil [simp]: "strtok d [] = []"
  by (simp add: strtok_def)

lemma strtok_concat:
  "\<forall>x \<in> set xs. d \<notin> set x \<and> x \<noteq> [] \<Longrightarrow> strtok d (concat (map (\<lambda>x. x @ [d]) xs)) = xs"
  by (induction xs) (auto simp: strtok_piece)

lemma strtok_tokens: "x \<in> set (strtok d s) \<Longrightarrow> d \<notin> set x \<and> x \<noteq> []"
proof -
  have "\<forall>x \<in> set (split_on d s). d \<notin> set x"
    by (induction s) (auto split: list.split)
  then show "x \<in> set (strtok d s) \<Longrightarrow> d \<notin> set x \<and> x \<noteq> []" by (auto simp: strtok_def)
qed

text \<open>Cutting a text: between two characters of a token the cut makes two tokens of one, elsewhere it changes nothing.\<close>

lemma split_on_append: "split_on d (a @ b) = butlast (split_on d a) @ (last (split_on d a) @ hd (split_on d b)) # tl (split_on d b)"
proof (induction a)
  case Nil
  then show ?case by (cases "split_on d b") (use split_on_nonempty [of d b] in auto)
next
  case (Cons c a)
  then show ?case by (cases "split_on d a") (use split_on_nonempty [of d a] in auto)
qed

lemma split_on_single: "split_on d a = [[]] \<longleftrightarrow> a = []"
  by (cases a) (auto split: list.split)

lemma split_on_ends:
  "a \<noteq> [] \<Longrightarrow> last (split_on d a) = [] \<longleftrightarrow> last a = d" "b \<noteq> [] \<Longrightarrow> hd (split_on d b) = [] \<longleftrightarrow> hd b = d"
proof -
  show "a \<noteq> [] \<Longrightarrow> last (split_on d a) = [] \<longleftrightarrow> last a = d"
  proof (induction a)
    case (Cons c a)
    then show ?case using split_on_nonempty [of d a] split_on_single [of d a] by (cases "split_on d a"; cases "a = []") auto
  qed simp
  show "b \<noteq> [] \<Longrightarrow> hd (split_on d b) = [] \<longleftrightarrow> hd b = d"
    by (cases b) (auto split: list.split)
qed

lemma strtok_cut:
  assumes "a \<noteq> []" and "b \<noteq> []"
  shows "last a = d \<or> hd b = d \<Longrightarrow> strtok d (a @ b) = strtok d a @ strtok d b"
    and "\<not> (last a = d \<or> hd b = d) \<Longrightarrow> Suc (length (strtok d (a @ b))) = length (strtok d a) + length (strtok d b)"
proof -
  let ?F = "filter (\<lambda>t :: string. t \<noteq> [])" and ?A = "split_on d a" and ?B = "split_on d b"
  have ab: "strtok d (a @ b) = ?F (butlast ?A) @ ?F [last ?A @ hd ?B] @ ?F (tl ?B)"
    unfolding strtok_def split_on_append by simp
  have "?A = butlast ?A @ [last ?A]" "?B = [hd ?B] @ tl ?B" by simp_all
  then have a: "strtok d a = ?F (butlast ?A) @ ?F [last ?A]" and b: "strtok d b = ?F [hd ?B] @ ?F (tl ?B)"
    unfolding strtok_def by (metis filter_append)+
  note e = split_on_ends(1) [OF assms(1), of d] split_on_ends(2) [OF assms(2), of d]
  show "last a = d \<or> hd b = d \<Longrightarrow> strtok d (a @ b) = strtok d a @ strtok d b" unfolding ab a b using e by auto
  show "\<not> (last a = d \<or> hd b = d) \<Longrightarrow> Suc (length (strtok d (a @ b))) = length (strtok d a) + length (strtok d b)"
    unfolding ab a b using e by simp
qed

section \<open>Remainder\<close>

text \<open>C's \<open>%\<close> rounds the quotient towards zero; it is undefined for a zero divisor and where the quotient overflows.\<close>

definition c_rem :: "int \<Rightarrow> int \<Rightarrow> int option" where
  "c_rem a b = (if b = 0 \<or> (a = INT_MIN \<and> b = - 1) then None else Some (sgn a * (\<bar>a\<bar> mod \<bar>b\<bar>)))"

end
