(* ===== verification/Thread_Queue.thy ===== *)
theory Thread_Queue
  imports Prelude
begin

text \<open>
  The FIFO queue of \<open>hw1/queue.h\<close>: singly linked \<open>ThreadNode\<close> cells with a head and a tail pointer,
  kept in an explicit store, because every queue of the thread library shares one heap and the code
  relies on the cells of different queues never overlapping. The first half translates the C
  functions; the second half relates a well-formed store to the list of threads each queue holds,
  and proves each operation against that view. The locale \<open>queue_store\<close> is the contract the
  scheduler uses.
\<close>

section \<open>Data\<close>

record thread_node =
  tn_thread :: ptr
  tn_next :: ptr

record queue =
  q_head :: ptr
  q_tail :: ptr
  q_name :: string

text \<open>
  The store: allocated cells, allocated queue structures, and the next unused address. \<open>malloc\<close>
  returns \<open>brk\<close> and never fails; addresses are not reused after \<open>free\<close>.
\<close>

record store =
  nodes :: "addr \<rightharpoonup> thread_node"
  queues :: "addr \<rightharpoonup> queue"
  brk :: nat

definition empty_store :: store where
  "empty_store = \<lparr>nodes = Map.empty, queues = Map.empty, brk = 0\<rparr>"

text \<open>Space for an object that is neither a cell nor a queue (a thread or a semaphore).\<close>

definition malloc :: "store \<Rightarrow> addr \<times> store" where
  "malloc h = (brk h, h\<lparr>brk := Suc (brk h)\<rparr>)"

section \<open>Operations\<close>

definition make_queue :: "string \<Rightarrow> store \<Rightarrow> addr \<times> store" where
  "make_queue name h =
     (brk h, h\<lparr>queues := (queues h)(brk h \<mapsto> \<lparr>q_head = None, q_tail = None, q_name = name\<rparr>),
               brk := Suc (brk h)\<rparr>)"

text \<open>
  Loops over \<open>node->next\<close> spend one unit of fuel per cell. The initial fuel is \<open>brk\<close>, the number of
  addresses handed out so far: a walk of more cells than that has met a cycle, and the C loop would
  never end.
\<close>

fun size_loop :: "nat \<Rightarrow> store \<Rightarrow> ptr \<Rightarrow> nat \<Rightarrow> nat option" where
  "size_loop fuel h None sz = Some sz"
| "size_loop 0 h (Some a) sz = None"
| "size_loop (Suc fuel) h (Some a) sz =
     do { n \<leftarrow> nodes h a; size_loop fuel h (tn_next n) (Suc sz) }"

definition size_queue :: "addr \<Rightarrow> store \<Rightarrow> nat option" where
  "size_queue q h = do { r \<leftarrow> queues h q; size_loop (brk h) h (q_head r) 0 }"

definition is_empty :: "addr \<Rightarrow> store \<Rightarrow> bool option" where
  "is_empty q h = do { r \<leftarrow> queues h q; Some (q_head r = None \<and> q_tail r = None) }"

definition dequeue :: "addr \<Rightarrow> store \<Rightarrow> (ptr \<times> store) option" where
  "dequeue q h = do {
     r \<leftarrow> queues h q;
     case q_head r of
       None \<Rightarrow> Some (None, h)
     | Some temp \<Rightarrow>
         if q_tail r = None then None
         else do {
           n \<leftarrow> nodes h temp;
           let r' = (if q_head r = q_tail r then r\<lparr>q_head := None, q_tail := None\<rparr>
                     else r\<lparr>q_head := tn_next n\<rparr>);
           Some (tn_thread n, h\<lparr>nodes := (nodes h)(temp := None), queues := (queues h)(q \<mapsto> r')\<rparr>)
         } }"

definition enqueue :: "addr \<Rightarrow> ptr \<Rightarrow> store \<Rightarrow> store option" where
  "enqueue q thread h = do {
     r \<leftarrow> queues h q;
     let node = brk h;
     let h1 = h\<lparr>nodes := (nodes h)(node \<mapsto> \<lparr>tn_thread = thread, tn_next = None\<rparr>), brk := Suc node\<rparr>;
     if q_head r = None \<and> q_tail r = None
     then Some (h1\<lparr>queues := (queues h1)(q \<mapsto> r\<lparr>q_head := Some node, q_tail := Some node\<rparr>)\<rparr>)
     else if q_head r = None \<or> q_tail r = None then None
     else do {
       t \<leftarrow> q_tail r;
       n \<leftarrow> nodes h1 t;
       Some (h1\<lparr>nodes := (nodes h1)(t \<mapsto> n\<lparr>tn_next := Some node\<rparr>),
                queues := (queues h1)(q \<mapsto> r\<lparr>q_tail := Some node\<rparr>)\<rparr>)
     } }"

fun free_queue_loop :: "nat \<Rightarrow> addr \<Rightarrow> store \<Rightarrow> store option" where
  "free_queue_loop fuel q h = do {
     r \<leftarrow> queues h q;
     case q_head r of
       None \<Rightarrow> Some h
     | Some a \<Rightarrow>
         (case fuel of
            0 \<Rightarrow> None
          | Suc k \<Rightarrow> do { (t, h') \<leftarrow> dequeue q h; free_queue_loop k q h' }) }"

definition free_queue :: "addr \<Rightarrow> store \<Rightarrow> store option" where
  "free_queue q h = do {
     h' \<leftarrow> free_queue_loop (brk h) q h;
     Some (h'\<lparr>queues := (queues h')(q := None)\<rparr>) }"

fun contains_loop :: "nat \<Rightarrow> store \<Rightarrow> ptr \<Rightarrow> ptr \<Rightarrow> bool option" where
  "contains_loop fuel h None thread = Some False"
| "contains_loop 0 h (Some a) thread = None"
| "contains_loop (Suc fuel) h (Some a) thread = do {
     n \<leftarrow> nodes h a;
     if tn_thread n = thread then Some True else contains_loop fuel h (tn_next n) thread }"

definition contains :: "addr \<Rightarrow> ptr \<Rightarrow> store \<Rightarrow> bool option" where
  "contains q thread h = do { r \<leftarrow> queues h q; contains_loop (brk h) h (q_head r) thread }"

text \<open>The body of the \<open>if\<close> in \<open>remove_node\<close>: unlink cell \<open>node\<close>, with \<open>last\<close> the cell visited before it.\<close>

definition unlink_node :: "addr \<Rightarrow> ptr \<Rightarrow> addr \<Rightarrow> store \<Rightarrow> store option" where
  "unlink_node q lst node h = do {
     r \<leftarrow> queues h q;
     n \<leftarrow> nodes h node;
     if q_head r = Some node \<and> q_tail r = Some node
     then Some (h\<lparr>queues := (queues h)(q \<mapsto> r\<lparr>q_head := None, q_tail := None\<rparr>)\<rparr>)
     else if q_tail r = Some node
     then do {
       l \<leftarrow> lst;
       m \<leftarrow> nodes h l;
       Some (h\<lparr>nodes := (nodes h)(l \<mapsto> m\<lparr>tn_next := None\<rparr>),
               queues := (queues h)(q \<mapsto> r\<lparr>q_tail := lst\<rparr>)\<rparr>) }
     else if q_head r = Some node
     then Some (h\<lparr>queues := (queues h)(q \<mapsto> r\<lparr>q_head := tn_next n\<rparr>)\<rparr>)
     else do {
       l \<leftarrow> lst;
       m \<leftarrow> nodes h l;
       Some (h\<lparr>nodes := (nodes h)(l \<mapsto> m\<lparr>tn_next := tn_next n\<rparr>)\<rparr>) } }"

text \<open>
  The loop of \<open>remove_node\<close> does not stop at the first match, does not free the cell it unlinks, and
  sets \<open>last\<close> to the current cell even when that cell has just been unlinked.
\<close>

fun remove_loop :: "nat \<Rightarrow> addr \<Rightarrow> ptr \<Rightarrow> ptr \<Rightarrow> ptr \<Rightarrow> store \<Rightarrow> store option" where
  "remove_loop fuel q thread lst None h = Some h"
| "remove_loop 0 q thread lst (Some a) h = None"
| "remove_loop (Suc fuel) q thread lst (Some a) h = do {
     n \<leftarrow> nodes h a;
     h' \<leftarrow> (if tn_thread n = thread then unlink_node q lst a h else Some h);
     n' \<leftarrow> nodes h' a;
     remove_loop fuel q thread (Some a) (tn_next n') h' }"

definition remove_node :: "addr \<Rightarrow> ptr \<Rightarrow> store \<Rightarrow> store option" where
  "remove_node q thread h = do {
     r \<leftarrow> queues h q;
     remove_loop (brk h) q thread None (q_head r) h }"

declare free_queue_loop.simps [simp del]


section \<open>Segments of cells\<close>

fun seg :: "(addr \<rightharpoonup> thread_node) \<Rightarrow> ptr \<Rightarrow> addr list \<Rightarrow> ptr \<Rightarrow> bool" where
  "seg nd p [] q \<longleftrightarrow> p = q"
| "seg nd p (a # as) q \<longleftrightarrow> p = Some a \<and> (\<exists>n. nd a = Some n \<and> seg nd (tn_next n) as q)"

lemma seg_None [simp]: "seg nd None as q \<longleftrightarrow> as = [] \<and> q = None"
  by (cases as) auto

lemma seg_append [simp]: "seg nd p (as @ bs) q \<longleftrightarrow> (\<exists>m. seg nd p as m \<and> seg nd m bs q)"
  by (induction as arbitrary: p) auto

lemma seg_upd [simp]: "a \<notin> set as \<Longrightarrow> seg (nd(a := v)) p as q \<longleftrightarrow> seg nd p as q"
  by (induction as arbitrary: p) auto

lemma seg_dom: "seg nd p as q \<Longrightarrow> set as \<subseteq> dom nd"
  by (induction as arbitrary: p) auto

lemma seg_det: "seg nd p as None \<Longrightarrow> seg nd p bs None \<Longrightarrow> as = bs"
proof (induction as arbitrary: p bs)
  case Nil
  then show ?case by (cases bs) auto
next
  case (Cons a as)
  then show ?case by (cases bs) auto
qed

lemma seg_distinct: "seg nd p as None \<Longrightarrow> distinct as"
proof (induction as arbitrary: p)
  case Nil
  then show ?case by simp
next
  case (Cons a as)
  then obtain n where n: "nd a = Some n" "seg nd (tn_next n) as None" by auto
  have "a \<notin> set as"
  proof
    assume "a \<in> set as"
    then obtain xs ys where as: "as = xs @ a # ys" by (auto simp: in_set_conv_decomp)
    with n have "seg nd (tn_next n) ys None" by auto
    with n(2) as have "as = ys" by (blast intro: seg_det)
    with as show False by simp
  qed
  with Cons n show ?case by auto
qed

text \<open>The last cell of a nonempty segment points at the segment's end.\<close>

lemma seg_last_next:
  "seg nd p as q \<Longrightarrow> as \<noteq> [] \<Longrightarrow> \<exists>n. nd (last as) = Some n \<and> tn_next n = q"
  by (induction as arbitrary: p) auto

text \<open>Redirecting the last cell of a segment moves its end.\<close>

lemma seg_redirect:
  assumes "seg nd p as q" and "as \<noteq> []" and "distinct as" and "nd (last as) = Some n"
  shows "seg (nd(last as \<mapsto> n\<lparr>tn_next := q'\<rparr>)) p as q'"
proof -
  obtain bs b where as: "as = bs @ [b]"
    using \<open>as \<noteq> []\<close> by (cases as rule: rev_cases) auto
  with assms show ?thesis by auto
qed

section \<open>The view of a store\<close>

fun walk :: "nat \<Rightarrow> (addr \<rightharpoonup> thread_node) \<Rightarrow> ptr \<Rightarrow> addr list" where
  "walk 0 nd p = []"
| "walk (Suc k) nd None = []"
| "walk (Suc k) nd (Some a) = (case nd a of None \<Rightarrow> [] | Some n \<Rightarrow> a # walk k nd (tn_next n))"

definition cells :: "store \<Rightarrow> addr \<Rightarrow> addr list" where
  "cells h q = (case queues h q of None \<Rightarrow> [] | Some r \<Rightarrow> walk (brk h) (nodes h) (q_head r))"

definition thread_at :: "store \<Rightarrow> addr \<Rightarrow> ptr" where
  "thread_at h a = (case nodes h a of None \<Rightarrow> None | Some n \<Rightarrow> tn_thread n)"

text \<open>The threads a queue holds, from head to tail.\<close>

definition view :: "store \<Rightarrow> addr \<Rightarrow> ptr list" where
  "view h q = map (thread_at h) (cells h q)"

definition tail_of :: "addr list \<Rightarrow> ptr" where
  "tail_of as = (if as = [] then None else Some (last as))"

definition wf_queue :: "store \<Rightarrow> addr \<Rightarrow> queue \<Rightarrow> addr list \<Rightarrow> bool" where
  "wf_queue h q r as \<longleftrightarrow> seg (nodes h) (q_head r) as None \<and> q_tail r = tail_of as"

definition bounded :: "store \<Rightarrow> bool" where
  "bounded h \<longleftrightarrow> (\<forall>a n. nodes h a = Some n \<longrightarrow> a < brk h) \<and> (\<forall>q r. queues h q = Some r \<longrightarrow> q < brk h)"

text \<open>
  The well-formed stores: every queue is a chain of cells that ends at its tail pointer, and no cell
  belongs to two queues.
\<close>

definition store_ok :: "store \<Rightarrow> bool" where
  "store_ok h \<longleftrightarrow> bounded h
     \<and> (\<forall>q r. queues h q = Some r \<longrightarrow> wf_queue h q r (cells h q))
     \<and> (\<forall>q \<in> dom (queues h). \<forall>q' \<in> dom (queues h). q \<noteq> q' \<longrightarrow> set (cells h q) \<inter> set (cells h q') = {})"

lemma walk_seg: "seg nd p as None \<Longrightarrow> length as \<le> k \<Longrightarrow> walk k nd p = as"
proof (induction as arbitrary: p k)
  case Nil
  then show ?case by (cases k) auto
next
  case (Cons a as)
  then show ?case by (cases k) auto
qed

lemma seg_length:
  assumes "seg nd p as None" and "\<forall>a \<in> dom nd. a < b"
  shows "length as \<le> b"
proof -
  have "distinct as" using assms(1) by (rule seg_distinct)
  moreover have "set as \<subseteq> {..<b}" using seg_dom [OF assms(1)] assms(2) by auto
  ultimately show ?thesis
    by (metis card_lessThan card_mono distinct_card finite_lessThan)
qed

lemma wf_queue_length: "bounded h \<Longrightarrow> wf_queue h q r as \<Longrightarrow> length as \<le> brk h"
  by (auto simp: bounded_def wf_queue_def intro: seg_length)

lemma cells_eq:
  "bounded h \<Longrightarrow> queues h q = Some r \<Longrightarrow> wf_queue h q r as \<Longrightarrow> cells h q = as"
  using wf_queue_length by (auto simp: cells_def wf_queue_def intro: walk_seg)

text \<open>
  How every operation is proved: name the cells of each queue afterwards, show they are chains with
  the right tails and do not overlap.
\<close>

lemma store_okI:
  assumes "bounded h"
    and wf: "\<And>q r. queues h q = Some r \<Longrightarrow> wf_queue h q r (cs q)"
    and disj: "\<And>q q' a. queues h q \<noteq> None \<Longrightarrow> queues h q' \<noteq> None \<Longrightarrow> q \<noteq> q' \<Longrightarrow>
           a \<in> set (cs q) \<Longrightarrow> a \<notin> set (cs q')"
    and out: "\<And>q. queues h q = None \<Longrightarrow> cs q = []"
  shows "store_ok h \<and> cells h = cs"
proof -
  have eq: "cells h = cs"
  proof
    fix q
    show "cells h q = cs q"
    proof (cases "queues h q")
      case None
      then show ?thesis by (simp add: cells_def out)
    next
      case (Some r)
      then show ?thesis by (intro cells_eq [OF assms(1)] wf)
    qed
  qed
  then show ?thesis using assms(1) wf disj unfolding store_ok_def by fastforce
qed

lemma store_okD:
  assumes "store_ok h" and "queues h q = Some r"
  shows "seg (nodes h) (q_head r) (cells h q) None" and "q_tail r = tail_of (cells h q)"
    and "distinct (cells h q)" and "set (cells h q) \<subseteq> dom (nodes h)" and "length (cells h q) \<le> brk h"
proof -
  have w: "wf_queue h q r (cells h q)" and b: "bounded h"
    using assms by (auto simp: store_ok_def)
  then show s: "seg (nodes h) (q_head r) (cells h q) None" and "q_tail r = tail_of (cells h q)"
    by (auto simp: wf_queue_def)
  from s show "distinct (cells h q)" by (rule seg_distinct)
  from s show "set (cells h q) \<subseteq> dom (nodes h)" by (rule seg_dom)
  from b w show "length (cells h q) \<le> brk h" by (rule wf_queue_length)
qed

lemma store_ok_disjoint:
  "store_ok h \<Longrightarrow> queues h q = Some r \<Longrightarrow> queues h q' = Some r' \<Longrightarrow> q \<noteq> q' \<Longrightarrow>
     a \<in> set (cells h q) \<Longrightarrow> a \<notin> set (cells h q')"
  by (fastforce simp: store_ok_def)

lemma store_ok_bounded: "store_ok h \<Longrightarrow> bounded h"
  by (simp add: store_ok_def)

lemma brk_fresh [simp]:
  "bounded h \<Longrightarrow> nodes h (brk h) = None" "bounded h \<Longrightarrow> queues h (brk h) = None"
  by (auto simp: bounded_def intro: ccontr)

lemma brk_not_cell:
  assumes "store_ok h" and "q \<in> dom (queues h)"
  shows "brk h \<notin> set (cells h q)"
  using assms store_okD(4) [OF assms(1)] brk_fresh(1) [OF store_ok_bounded [OF assms(1)]]
  by (auto dest!: domD) (metis domIff subsetD)

lemma tail_of_simps [simp]:
  "tail_of [] = None" "tail_of (as @ [a]) = Some a" "tail_of (a # b # as) = tail_of (b # as)"
  "tail_of as = None \<longleftrightarrow> as = []"
  by (auto simp: tail_of_def)


lemma cells_outside [simp]: "queues h q = None \<Longrightarrow> cells h q = []"
  by (simp add: cells_def)

lemma view_outside [simp]: "queues h q = None \<Longrightarrow> view h q = []"
  by (simp add: view_def)

lemma cells_Nil_iff:
  assumes "store_ok h" and "queues h q = Some r"
  shows "cells h q = [] \<longleftrightarrow> q_head r = None"
  using store_okD(1) [OF assms] by (cases "cells h q") auto

section \<open>Correctness of the operations\<close>

text \<open>
  Each lemma says that the operation is defined, that the store stays well formed, and which cells
  each queue has afterwards; queues other than the one operated on keep theirs.
\<close>

lemma malloc_cells:
  assumes ok: "store_ok h"
  shows "store_ok (h\<lparr>brk := Suc (brk h)\<rparr>) \<and> cells (h\<lparr>brk := Suc (brk h)\<rparr>) = cells h"
proof (rule store_okI)
  show "bounded (h\<lparr>brk := Suc (brk h)\<rparr>)"
    using store_ok_bounded [OF ok] by (auto simp: bounded_def less_Suc_eq)
qed (use store_okD(1,2) [OF ok] store_ok_disjoint [OF ok] in \<open>auto simp: wf_queue_def\<close>)

lemma malloc_view: "store_ok h \<Longrightarrow> view (h\<lparr>brk := Suc (brk h)\<rparr>) = view h"
  using malloc_cells [of h] by (auto simp: view_def thread_at_def fun_eq_iff)

lemma empty_store_ok: "store_ok empty_store"
  by (auto simp: store_ok_def bounded_def empty_store_def)

lemma make_queue_cells:
  assumes ok: "store_ok h" and m: "make_queue name h = (q, h')"
  shows "store_ok h' \<and> cells h' = cells h" and "q = brk h" and "brk h' = Suc (brk h)"
    and "queues h' = (queues h)(q \<mapsto> \<lparr>q_head = None, q_tail = None, q_name = name\<rparr>)"
    and "nodes h' = nodes h"
proof -
  from m show "q = brk h" and "brk h' = Suc (brk h)" and nd: "nodes h' = nodes h"
    and qs: "queues h' = (queues h)(q \<mapsto> \<lparr>q_head = None, q_tail = None, q_name = name\<rparr>)"
    by (auto simp: make_queue_def)
  note b = store_ok_bounded [OF ok]
  have fresh: "cells h q = []" using b \<open>q = brk h\<close> by simp
  show "store_ok h' \<and> cells h' = cells h"
  proof (rule store_okI)
    show "bounded h'" using b m by (auto simp: make_queue_def bounded_def less_Suc_eq split: if_splits)
    show "wf_queue h' p r (cells h p)" if "queues h' p = Some r" for p r
      using that fresh store_okD(1,2) [OF ok, of p r]
      by (auto simp: qs nd wf_queue_def split: if_splits)
    show "a \<notin> set (cells h p')"
      if "queues h' p \<noteq> None" "queues h' p' \<noteq> None" "p \<noteq> p'" "a \<in> set (cells h p)" for p p' a
      using that fresh store_ok_disjoint [OF ok, of p _ p' _ a]
      by (cases "p = q"; cases "p' = q") (auto simp: qs)
    show "cells h p = []" if "queues h' p = None" for p
      using that by (auto simp: qs split: if_splits)
  qed
qed

lemma seg_cong: "(\<And>a. a \<in> set as \<Longrightarrow> nd a = nd' a) \<Longrightarrow> seg nd p as q = seg nd' p as q"
  by (induction as arbitrary: p) auto

text \<open>An update of one queue: its cells change to \<open>as\<close>, the cells of every other queue are untouched.\<close>

lemma store_ok_upd:
  assumes ok: "store_ok h" and "bounded h'" and r: "queues h q = Some r"
    and qs: "queues h' = (queues h)(q \<mapsto> r')" and wf: "wf_queue h' q r' as"
    and frame: "\<And>p a. p \<noteq> q \<Longrightarrow> a \<in> set (cells h p) \<Longrightarrow> nodes h' a = nodes h a \<and> a \<notin> set as"
  shows "store_ok h' \<and> cells h' = (cells h)(q := as)"
proof (rule store_okI)
  show "bounded h'" by (rule assms)
  show "wf_queue h' p s (((cells h)(q := as)) p)" if "queues h' p = Some s" for p s
  proof (cases "p = q")
    case True
    with that wf show ?thesis by (simp add: qs)
  next
    case False
    with that have p: "queues h p = Some s" by (simp add: qs)
    have "seg (nodes h') x (cells h p) y = seg (nodes h) x (cells h p) y" for x y
      using frame [OF False] by (intro seg_cong) blast
    with False store_okD(1,2) [OF ok p] show ?thesis by (simp add: wf_queue_def)
  qed
  show "a \<notin> set (((cells h)(q := as)) p')"
    if "queues h' p \<noteq> None" "queues h' p' \<noteq> None" "p \<noteq> p'" "a \<in> set (((cells h)(q := as)) p)" for p p' a
    using that frame [of p a] frame [of p' a] store_ok_disjoint [OF ok, of p _ p' _ a]
    by (auto simp: qs split: if_splits)
  show "((cells h)(q := as)) p = []" if "queues h' p = None" for p
    using that by (auto simp: qs split: if_splits)
qed

lemma other_cells:
  assumes "store_ok h" and "queues h q = Some r" and "p \<noteq> q" and "a \<in> set (cells h p)"
  shows "a \<notin> set (cells h q)" and "a \<noteq> brk h"
proof -
  obtain s where p: "queues h p = Some s" using assms(4) by (cases "queues h p") auto
  with assms show "a \<notin> set (cells h q)" by (blast dest: store_ok_disjoint)
  from p assms(4) show "a \<noteq> brk h" using brk_not_cell [OF assms(1), of p] by auto
qed

lemma enqueue_defined:
  assumes ok: "store_ok h" and r: "queues h q = Some r"
  shows "\<exists>h' r' nd. enqueue q t h = Some h' \<and> brk h' = Suc (brk h)
    \<and> queues h' = (queues h)(q \<mapsto> r') \<and> nodes h' = nd(brk h \<mapsto> \<lparr>tn_thread = t, tn_next = None\<rparr>)
    \<and> q_tail r' = Some (brk h) \<and> seg nd (q_head r') (cells h q) (Some (brk h))
    \<and> (\<forall>a. a \<notin> set (cells h q) \<longrightarrow> nd a = nodes h a)
    \<and> (\<forall>a. map_option tn_thread (nd a) = map_option tn_thread (nodes h a))"
proof (cases "cells h q = []")
  case True
  with store_okD(1,2) [OF ok r] have "q_head r = None" and "q_tail r = None" by auto
  with r True show ?thesis
    by (auto simp: enqueue_def Let_def intro!: exI [of _ "r\<lparr>q_head := Some (brk h), q_tail := Some (brk h)\<rparr>"]
        exI [of _ "nodes h"])
next
  case False
  let ?l = "last (cells h q)"
  note s = store_okD(1) [OF ok r]
  have t: "q_tail r = Some ?l" using store_okD(2) [OF ok r] False by (simp add: tail_of_def)
  have hd: "q_head r \<noteq> None" using cells_Nil_iff [OF ok r] False by simp
  obtain n where n: "nodes h ?l = Some n" using seg_last_next [OF s False] by auto
  have ne: "?l \<noteq> brk h" using n brk_fresh(1) [OF store_ok_bounded [OF ok]] by auto
  let ?nd = "(nodes h)(?l \<mapsto> n\<lparr>tn_next := Some (brk h)\<rparr>)"
  have "seg ?nd (q_head r) (cells h q) (Some (brk h))"
    using seg_redirect [OF s False store_okD(3) [OF ok r] n] .
  with r t hd n ne False show ?thesis
    by (auto simp: enqueue_def Let_def fun_upd_twist
        intro!: exI [of _ "r\<lparr>q_tail := Some (brk h)\<rparr>"] exI [of _ ?nd])
qed

lemma enqueue_cells:
  assumes ok: "store_ok h" and r: "queues h q = Some r"
  shows "\<exists>h'. enqueue q t h = Some h' \<and> store_ok h' \<and> dom (queues h') = dom (queues h)
    \<and> brk h' = Suc (brk h) \<and> cells h' = (cells h)(q := cells h q @ [brk h])
    \<and> thread_at h' = (thread_at h)(brk h := t)"
proof -
  obtain h' r' nd where e: "enqueue q t h = Some h'" and b: "brk h' = Suc (brk h)"
    and qs: "queues h' = (queues h)(q \<mapsto> r')"
    and nd: "nodes h' = nd(brk h \<mapsto> \<lparr>tn_thread = t, tn_next = None\<rparr>)"
    and tl: "q_tail r' = Some (brk h)" and sg: "seg nd (q_head r') (cells h q) (Some (brk h))"
    and fr: "\<And>a. a \<notin> set (cells h q) \<Longrightarrow> nd a = nodes h a"
    and th: "\<And>a. map_option tn_thread (nd a) = map_option tn_thread (nodes h a)"
    using enqueue_defined [OF ok r, of t] by blast
  have dm: "a \<in> dom nd \<longleftrightarrow> a \<in> dom (nodes h)" for a
    using th [of a] by (cases "nd a"; cases "nodes h a") auto
  have nb: "brk h \<notin> set (cells h q)" using brk_not_cell [OF ok, of q] r by auto
  have "store_ok h' \<and> cells h' = (cells h)(q := cells h q @ [brk h])"
  proof (rule store_ok_upd [OF ok _ r qs])
    show "bounded h'" using store_ok_bounded [OF ok] r dm
      by (auto simp: bounded_def qs nd b less_Suc_eq dom_def split: if_splits)
    show "wf_queue h' q r' (cells h q @ [brk h])" using tl sg nb by (auto simp: nd wf_queue_def)
    show "nodes h' a = nodes h a \<and> a \<notin> set (cells h q @ [brk h])"
      if "p \<noteq> q" "a \<in> set (cells h p)" for p a
      using other_cells [OF ok r that] fr by (auto simp: nd)
  qed
  moreover have "thread_at h' = (thread_at h)(brk h := t)"
  proof
    fix a
    show "thread_at h' a = ((thread_at h)(brk h := t)) a"
      using th [of a] by (auto simp: thread_at_def nd split: option.splits)
  qed
  moreover have "dom (queues h') = dom (queues h)" using r by (auto simp: qs)
  ultimately show ?thesis using e b by blast
qed


lemma dequeue_empty:
  assumes "store_ok h" and "queues h q = Some r" and "cells h q = []"
  shows "dequeue q h = Some (None, h)"
  using assms cells_Nil_iff [OF assms(1,2)] by (simp add: dequeue_def)

lemma dequeue_cells:
  assumes ok: "store_ok h" and r: "queues h q = Some r" and c: "cells h q = a # as"
  shows "\<exists>h'. dequeue q h = Some (thread_at h a, h') \<and> store_ok h' \<and> dom (queues h') = dom (queues h)
    \<and> brk h' = brk h \<and> cells h' = (cells h)(q := as) \<and> nodes h' = (nodes h)(a := None)"
proof -
  note s = store_okD(1,2) [OF ok r, unfolded c]
  from s obtain n where hd: "q_head r = Some a" and n: "nodes h a = Some n"
    and rest: "seg (nodes h) (tn_next n) as None" by auto
  have na: "a \<notin> set as" using store_okD(3) [OF ok r] c by simp
  let ?r = "if q_head r = q_tail r then r\<lparr>q_head := None, q_tail := None\<rparr> else r\<lparr>q_head := tn_next n\<rparr>"
  let ?h = "h\<lparr>nodes := (nodes h)(a := None), queues := (queues h)(q \<mapsto> ?r)\<rparr>"
  have single: "q_head r = q_tail r \<longleftrightarrow> as = []"
    using s(2) hd na by (cases as) (auto simp: tail_of_def split: if_splits)
  have "dequeue q h = Some (thread_at h a, ?h)"
    using r hd n s(2) by (auto simp: dequeue_def thread_at_def tail_of_def)
  moreover have "store_ok ?h \<and> cells ?h = (cells h)(q := as)"
  proof (rule store_ok_upd [OF ok _ r])
    show "bounded ?h" using store_ok_bounded [OF ok] r by (auto simp: bounded_def split: if_splits)
    show "queues ?h = (queues h)(q \<mapsto> ?r)" by simp
    show "wf_queue ?h q ?r as" using s(2) rest na hd single by (cases as) (auto simp: wf_queue_def)
    show "nodes ?h x = nodes h x \<and> x \<notin> set as" if "p \<noteq> q" "x \<in> set (cells h p)" for p x
      using other_cells [OF ok r that] by (auto simp: c)
  qed
  moreover have "dom (queues ?h) = dom (queues h)" using r by auto
  ultimately show ?thesis by auto
qed

lemma size_loop_seg:
  "seg (nodes h) p as None \<Longrightarrow> length as \<le> fuel \<Longrightarrow> size_loop fuel h p sz = Some (sz + length as)"
proof (induction as arbitrary: p fuel sz)
  case Nil
  then show ?case by simp
next
  case (Cons a as)
  then show ?case by (cases fuel) auto
qed

lemma contains_loop_seg:
  "seg (nodes h) p as None \<Longrightarrow> length as \<le> fuel \<Longrightarrow>
     contains_loop fuel h p t = Some (t \<in> thread_at h ` set as)"
proof (induction as arbitrary: p fuel)
  case Nil
  then show ?case by simp
next
  case (Cons a as)
  then obtain k n where "fuel = Suc k" and "nodes h a = Some n" by (cases fuel) auto
  with Cons show ?case by (auto simp: thread_at_def)
qed

lemma size_queue_view:
  assumes "store_ok h" and "queues h q = Some r"
  shows "size_queue q h = Some (length (view h q))"
  using assms size_loop_seg [OF store_okD(1,5) [OF assms]] by (simp add: size_queue_def view_def)

lemma contains_view:
  assumes "store_ok h" and "queues h q = Some r"
  shows "contains q t h = Some (t \<in> set (view h q))"
  using assms contains_loop_seg [OF store_okD(1,5) [OF assms]] by (simp add: contains_def view_def)

lemma is_empty_view:
  assumes "store_ok h" and "queues h q = Some r"
  shows "is_empty q h = Some (view h q = [])"
  using assms store_okD(2) [OF assms] cells_Nil_iff [OF assms] by (auto simp: is_empty_def view_def)

text \<open>Views from cells: a step that changes the cells of \<open>q\<close> only.\<close>

lemma view_upd:
  assumes "cells h' = (cells h)(q := as)"
    and "\<And>a p. p \<noteq> q \<Longrightarrow> a \<in> set (cells h p) \<Longrightarrow> thread_at h' a = thread_at h a"
    and "map (thread_at h') as = ts"
  shows "view h' = (view h)(q := ts)"
  using assms by (auto simp: view_def fun_eq_iff)

lemma enqueue_view:
  assumes ok: "store_ok h" and r: "queues h q = Some r"
  shows "\<exists>h'. enqueue q t h = Some h' \<and> store_ok h' \<and> dom (queues h') = dom (queues h)
    \<and> view h' = (view h)(q := view h q @ [t]) \<and> brk h \<le> brk h'"
proof -
  from enqueue_cells [OF assms, of t] obtain h' where e: "enqueue q t h = Some h'" "store_ok h'"
    "dom (queues h') = dom (queues h)" "brk h' = Suc (brk h)"
    and c: "cells h' = (cells h)(q := cells h q @ [brk h])"
    and th: "thread_at h' = (thread_at h)(brk h := t)" by blast
  have nb: "brk h \<notin> set (cells h p)" for p
    using brk_not_cell [OF ok, of p] by (cases "queues h p") auto
  have "view h' = (view h)(q := view h q @ [t])"
  proof (rule view_upd [OF c])
    show "thread_at h' a = thread_at h a" if "a \<in> set (cells h p)" for a p
      using that nb by (auto simp: th)
    show "map (thread_at h') (cells h q @ [brk h]) = view h q @ [t]"
      using nb by (auto simp: th view_def)
  qed
  with e show ?thesis by auto
qed

lemma dequeue_view:
  assumes ok: "store_ok h" and r: "queues h q = Some r" and v: "view h q = t # ts"
  shows "\<exists>h'. dequeue q h = Some (t, h') \<and> store_ok h' \<and> dom (queues h') = dom (queues h)
    \<and> view h' = (view h)(q := ts) \<and> brk h' = brk h"
proof -
  from v obtain a as where c: "cells h q = a # as" and t: "t = thread_at h a"
    and ts: "ts = map (thread_at h) as" by (auto simp: view_def)
  from dequeue_cells [OF ok r c] obtain h' where d: "dequeue q h = Some (t, h')" "store_ok h'"
    "dom (queues h') = dom (queues h)" "brk h' = brk h"
    and cs: "cells h' = (cells h)(q := as)" and nd: "nodes h' = (nodes h)(a := None)"
    by (auto simp: t)
  have th: "x \<noteq> a \<Longrightarrow> thread_at h' x = thread_at h x" for x by (simp add: thread_at_def nd)
  have "view h' = (view h)(q := ts)"
  proof (rule view_upd [OF cs])
    fix x p
    assume p: "p \<noteq> q" "x \<in> set (cells h p)"
    then obtain s where "queues h p = Some s" by (cases "queues h p") auto
    with p c store_ok_disjoint [OF ok _ r, of p s x] show "thread_at h' x = thread_at h x"
      by (intro th) auto
  next
    show "map (thread_at h') as = ts"
      using store_okD(3) [OF ok r] c by (auto simp: ts intro!: th)
  qed
  with d show ?thesis by blast
qed


lemma remove_loop_skip:
  "seg (nodes h) p as m \<Longrightarrow> t \<notin> thread_at h ` set as \<Longrightarrow>
     remove_loop (length as + fuel) q t lst p h
     = remove_loop fuel q t (if as = [] then lst else Some (last as)) m h"
  by (induction as arbitrary: p lst) (auto simp: thread_at_def)

lemma remove_loop_none:
  assumes "seg (nodes h) p as None" and "t \<notin> thread_at h ` set as" and "length as \<le> fuel"
  shows "remove_loop fuel q t lst p h = Some h"
proof -
  from assms(3) obtain k where "fuel = length as + k" using le_Suc_ex by blast
  with remove_loop_skip [OF assms(1,2), of k] show ?thesis by simp
qed

lemma unlink_defined:
  assumes ok: "store_ok h" and r: "queues h q = Some r" and c: "cells h q = pre @ a # post"
  shows "\<exists>h' r'. unlink_node q (tail_of pre) a h = Some h' \<and> queues h' = (queues h)(q \<mapsto> r')
    \<and> brk h' = brk h \<and> wf_queue h' q r' (pre @ post) \<and> thread_at h' = thread_at h
    \<and> dom (nodes h') = dom (nodes h) \<and> (\<forall>x. x \<notin> set pre \<longrightarrow> nodes h' x = nodes h x)"
proof -
  have s: "seg (nodes h) (q_head r) (pre @ a # post) None" and tl: "q_tail r = tail_of (pre @ a # post)"
    and d: "distinct (pre @ a # post)"
    using store_okD(1-3) [OF ok r] by (simp_all add: c)
  from s obtain n where pre: "seg (nodes h) (q_head r) pre (Some a)" and n: "nodes h a = Some n"
    and post: "seg (nodes h) (tn_next n) post None" by auto
  have hd_iff: "q_head r = Some a \<longleftrightarrow> pre = []" using pre d by (cases pre) auto
  have tl_iff: "q_tail r = Some a \<longleftrightarrow> post = []" using tl d by (auto simp: tail_of_def)
  show ?thesis
  proof (cases "pre = []")
    case True
    then show ?thesis using r n tl d post hd_iff tl_iff
      by (cases post) (auto simp: unlink_node_def wf_queue_def tail_of_def thread_at_def fun_eq_iff)
  next
    case False
    let ?l = "last pre"
    obtain m where m: "nodes h ?l = Some m" using seg_last_next [OF pre False] by auto
    have dp: "distinct pre" using d by simp
    have rd: "seg ((nodes h)(?l \<mapsto> m\<lparr>tn_next := tn_next n\<rparr>)) (q_head r) pre (tn_next n)"
      using seg_redirect [OF pre False dp m] .
    have "?l \<notin> set post" using d last_in_set [OF False] by (auto simp: disjoint_iff)
    then have sg: "seg ((nodes h)(?l \<mapsto> m\<lparr>tn_next := tn_next n\<rparr>)) (q_head r) (pre @ post) None"
      using rd post by auto
    have nx: "post = [] \<Longrightarrow> tn_next n = None" using post by simp
    have dm: "dom ((nodes h)(?l \<mapsto> v)) = dom (nodes h)" for v using m by auto
    show ?thesis
      using r n m tl sg nx hd_iff tl_iff False dm
      by (cases post) (auto simp: unlink_node_def wf_queue_def tail_of_def thread_at_def fun_eq_iff)
  qed
qed

lemma remove_node_view:
  assumes ok: "store_ok h" and r: "queues h q = Some r" and dv: "distinct (view h q)"
  shows "\<exists>h'. remove_node q t h = Some h' \<and> store_ok h' \<and> dom (queues h') = dom (queues h)
    \<and> view h' = (view h)(q := remove1 t (view h q)) \<and> brk h' = brk h"
proof (cases "t \<in> set (view h q)")
  case False
  then have "remove_node q t h = Some h"
    using r remove_loop_none [OF store_okD(1) [OF ok r] _ store_okD(5) [OF ok r]]
    by (simp add: remove_node_def view_def)
  with False ok show ?thesis by auto
next
  case True
  then obtain pre a post where c: "cells h q = pre @ a # post" and t: "thread_at h a = t"
    by (auto simp: view_def in_set_conv_decomp)
  then have npre: "t \<notin> thread_at h ` set pre" and npost: "t \<notin> thread_at h ` set post"
    using dv by (auto simp: view_def)
  obtain h' r' where u: "unlink_node q (tail_of pre) a h = Some h'"
    and qs: "queues h' = (queues h)(q \<mapsto> r')" and b: "brk h' = brk h"
    and wf: "wf_queue h' q r' (pre @ post)" and th: "thread_at h' = thread_at h"
    and dm: "dom (nodes h') = dom (nodes h)"
    and fr: "\<And>x. x \<notin> set pre \<Longrightarrow> nodes h' x = nodes h x"
    using unlink_defined [OF ok r c] by blast
  from store_okD(1,3) [OF ok r] c obtain n where pre: "seg (nodes h) (q_head r) pre (Some a)"
    and n: "nodes h a = Some n" and post: "seg (nodes h) (tn_next n) post None"
    and d: "distinct (pre @ a # post)" by auto
  from store_okD(5) [OF ok r] c obtain k where k: "brk h = length pre + Suc (length post + k)"
    by (metis add_Suc_right add_Suc_shift le_Suc_ex length_Cons length_append add.assoc)
  have post': "seg (nodes h') (tn_next n) post None"
    using post d fr by (subst seg_cong [of post _ "nodes h"]) auto
  have lst: "(if pre = [] then None else Some (last pre)) = tail_of pre"
    by (simp add: tail_of_def)
  have "remove_node q t h = remove_loop (Suc (length post + k)) q t (tail_of pre) (Some a) h"
    using r remove_loop_skip [OF pre npre, of "Suc (length post + k)" q None]
    by (simp add: remove_node_def k lst del: remove_loop.simps)
  also have "\<dots> = remove_loop (length post + k) q t (Some a) (tn_next n) h'"
    using n t d u fr [of a] by (auto simp: thread_at_def)
  also have "\<dots> = Some h'"
    using npost th by (intro remove_loop_none [OF post']) auto
  finally have rm: "remove_node q t h = Some h'" .
  have "store_ok h' \<and> cells h' = (cells h)(q := pre @ post)"
  proof (rule store_ok_upd [OF ok _ r qs wf])
    show "bounded h'" using store_ok_bounded [OF ok] r dm b by (auto simp: bounded_def qs split: if_splits)
    show "nodes h' x = nodes h x \<and> x \<notin> set (pre @ post)" if "p \<noteq> q" "x \<in> set (cells h p)" for p x
      using other_cells(1) [OF ok r that] fr by (auto simp: c)
  qed
  moreover from this have "view h' = (view h)(q := remove1 t (view h q))"
    using npre t by (auto simp: view_def th c fun_eq_iff remove1_append)
  moreover have "dom (queues h') = dom (queues h)" using r by (auto simp: qs)
  ultimately show ?thesis using rm b by blast
qed

lemma free_queue_loop_view:
  assumes "store_ok h" and "queues h q = Some r" and "length (view h q) \<le> fuel"
  shows "\<exists>h'. free_queue_loop fuel q h = Some h' \<and> store_ok h' \<and> dom (queues h') = dom (queues h)
    \<and> view h' = (view h)(q := []) \<and> brk h' = brk h"
  using assms
proof (induction fuel arbitrary: h r)
  case 0
  then have "q_head r = None" and "view h q = []"
    using cells_Nil_iff [of h q r] by (auto simp: view_def)
  with 0 show ?case by (auto simp: free_queue_loop.simps fun_upd_idem)
next
  case (Suc fuel)
  show ?case
  proof (cases "view h q")
    case Nil
    then have "q_head r = None" using Suc.prems cells_Nil_iff [of h q r] by (auto simp: view_def)
    with Suc.prems Nil show ?thesis by (auto simp: free_queue_loop.simps fun_upd_idem)
  next
    case (Cons t ts)
    then obtain a where hd: "q_head r = Some a"
      using Suc.prems cells_Nil_iff [of h q r] by (auto simp: view_def)
    from dequeue_view [OF Suc.prems(1,2) Cons] obtain h1 where h1: "dequeue q h = Some (t, h1)"
      "store_ok h1" "dom (queues h1) = dom (queues h)" "view h1 = (view h)(q := ts)" "brk h1 = brk h"
      by blast
    then obtain r1 where "queues h1 q = Some r1" using Suc.prems(2) by blast
    with Suc.IH [of h1 r1] h1 Suc.prems Cons hd show ?thesis
      by (auto simp: free_queue_loop.simps [of _ _ h] fun_eq_iff)
  qed
qed

lemma free_queue_view:
  assumes ok: "store_ok h" and r: "queues h q = Some r"
  shows "\<exists>h'. free_queue q h = Some h' \<and> store_ok h' \<and> dom (queues h') = dom (queues h) - {q}
    \<and> view h' = (view h)(q := []) \<and> brk h' = brk h"
proof -
  have "length (view h q) \<le> brk h" using store_okD(5) [OF assms] by (simp add: view_def)
  from free_queue_loop_view [OF assms this] obtain h1 where h1: "free_queue_loop (brk h) q h = Some h1"
    "store_ok h1" "dom (queues h1) = dom (queues h)" "view h1 = (view h)(q := [])" "brk h1 = brk h"
    by blast
  let ?h = "h1\<lparr>queues := (queues h1)(q := None)\<rparr>"
  have e: "cells h1 q = []" using h1(4) by (simp add: view_def fun_eq_iff) (metis map_is_Nil_conv)
  have "store_ok ?h \<and> cells ?h = cells h1"
  proof (rule store_okI)
    show "bounded ?h" using store_ok_bounded [OF h1(2)] by (auto simp: bounded_def split: if_splits)
    show "wf_queue ?h p s (cells h1 p)" if "queues ?h p = Some s" for p s
      using that store_okD(1,2) [OF h1(2)] by (auto simp: wf_queue_def split: if_splits)
    show "a \<notin> set (cells h1 p')"
      if "queues ?h p \<noteq> None" "queues ?h p' \<noteq> None" "p \<noteq> p'" "a \<in> set (cells h1 p)" for p p' a
      using that store_ok_disjoint [OF h1(2), of p _ p' _ a] by (auto split: if_splits)
    show "cells h1 p = []" if "queues ?h p = None" for p
      using that e by (auto split: if_splits)
  qed
  moreover from this have "view ?h = view h1"
    by (auto simp: view_def thread_at_def fun_eq_iff)
  ultimately show ?thesis using h1 by (auto simp: free_queue_def)
qed


section \<open>The contract of the queues\<close>

text \<open>
  What the scheduler relies on, over an abstract view of the threads each queue holds: every
  operation on a live queue is defined, changes the view of that queue only, in the way a FIFO queue
  should, and keeps the store well formed.
\<close>

locale queue_store =
  fixes ok :: "'h \<Rightarrow> bool"
    and live :: "'h \<Rightarrow> 'q set"
    and mark :: "'h \<Rightarrow> nat"
    and vw :: "'h \<Rightarrow> 'q \<Rightarrow> 't list"
    and al :: "'h \<Rightarrow> nat \<times> 'h"
    and mk :: "string \<Rightarrow> 'h \<Rightarrow> 'q \<times> 'h"
    and enq :: "'q \<Rightarrow> 't \<Rightarrow> 'h \<Rightarrow> 'h option"
    and deq :: "'q \<Rightarrow> 'h \<Rightarrow> ('t option \<times> 'h) option"
    and emp :: "'q \<Rightarrow> 'h \<Rightarrow> bool option"
    and has :: "'q \<Rightarrow> 't \<Rightarrow> 'h \<Rightarrow> bool option"
    and rm :: "'q \<Rightarrow> 't \<Rightarrow> 'h \<Rightarrow> 'h option"
    and fr :: "'q \<Rightarrow> 'h \<Rightarrow> 'h option"
  assumes al_law: "ok h \<Longrightarrow> al h = (a, h') \<Longrightarrow>
        ok h' \<and> live h' = live h \<and> vw h' = vw h \<and> mark h \<le> a \<and> a < mark h'"
    and mk_law: "ok h \<Longrightarrow> mk nm h = (q, h') \<Longrightarrow>
        ok h' \<and> q \<notin> live h \<and> live h' = insert q (live h) \<and> vw h' = vw h \<and> vw h q = [] \<and> mark h \<le> mark h'"
    and enq_law: "ok h \<Longrightarrow> q \<in> live h \<Longrightarrow>
        \<exists>h'. enq q t h = Some h' \<and> ok h' \<and> live h' = live h \<and> vw h' = (vw h)(q := vw h q @ [t]) \<and> mark h \<le> mark h'"
    and deq_empty_law: "ok h \<Longrightarrow> q \<in> live h \<Longrightarrow> vw h q = [] \<Longrightarrow> deq q h = Some (None, h)"
    and deq_law: "ok h \<Longrightarrow> q \<in> live h \<Longrightarrow> vw h q = t # ts \<Longrightarrow>
        \<exists>h'. deq q h = Some (Some t, h') \<and> ok h' \<and> live h' = live h \<and> vw h' = (vw h)(q := ts) \<and> mark h \<le> mark h'"
    and emp_law: "ok h \<Longrightarrow> q \<in> live h \<Longrightarrow> emp q h = Some (vw h q = [])"
    and has_law: "ok h \<Longrightarrow> q \<in> live h \<Longrightarrow> has q t h = Some (t \<in> set (vw h q))"
    and rm_law: "ok h \<Longrightarrow> q \<in> live h \<Longrightarrow> distinct (vw h q) \<Longrightarrow>
        \<exists>h'. rm q t h = Some h' \<and> ok h' \<and> live h' = live h \<and> vw h' = (vw h)(q := remove1 t (vw h q))
          \<and> mark h \<le> mark h'"
    and fr_law: "ok h \<Longrightarrow> q \<in> live h \<Longrightarrow>
        \<exists>h'. fr q h = Some h' \<and> ok h' \<and> live h' = live h - {q} \<and> vw h' = (vw h)(q := []) \<and> mark h \<le> mark h'"
begin

text \<open>Enqueueing a list of threads, and dequeueing a number of them.\<close>

primrec enq_all :: "'q \<Rightarrow> 't list \<Rightarrow> 'h \<Rightarrow> 'h option" where
  "enq_all q [] h = Some h"
| "enq_all q (t # ts) h = do { h' \<leftarrow> enq q t h; enq_all q ts h' }"

primrec deq_all :: "nat \<Rightarrow> 'q \<Rightarrow> 'h \<Rightarrow> ('t option list \<times> 'h) option" where
  "deq_all 0 q h = Some ([], h)"
| "deq_all (Suc n) q h = do { (t, h1) \<leftarrow> deq q h; (ts, h2) \<leftarrow> deq_all n q h1; Some (t # ts, h2) }"

lemma enq_all_view:
  "ok h \<Longrightarrow> q \<in> live h \<Longrightarrow>
     \<exists>h'. enq_all q ts h = Some h' \<and> ok h' \<and> live h' = live h \<and> vw h' = (vw h)(q := vw h q @ ts)"
proof (induction ts arbitrary: h)
  case Nil
  then show ?case by (simp add: fun_upd_idem)
next
  case (Cons t ts)
  from enq_law [OF Cons.prems, of t] obtain h1 where h1: "enq q t h = Some h1" "ok h1"
    "live h1 = live h" "vw h1 = (vw h)(q := vw h q @ [t])" by blast
  with Cons.IH [of h1] Cons.prems show ?case by (auto simp: fun_eq_iff)
qed

lemma deq_all_view:
  "ok h \<Longrightarrow> q \<in> live h \<Longrightarrow> vw h q = ts @ us \<Longrightarrow>
     \<exists>h'. deq_all (length ts) q h = Some (map Some ts, h') \<and> ok h' \<and> live h' = live h
       \<and> vw h' = (vw h)(q := us)"
proof (induction ts arbitrary: h)
  case Nil
  then show ?case by (auto simp: fun_upd_idem)
next
  case (Cons t ts)
  from deq_law [of h q t "ts @ us"] Cons.prems obtain h1 where h1: "deq q h = Some (Some t, h1)" "ok h1"
    "live h1 = live h" "vw h1 = (vw h)(q := ts @ us)" by auto
  with Cons.IH [of h1] Cons.prems show ?case by (auto simp: fun_eq_iff)
qed

text \<open>First in, first out: what is put on an empty queue comes off in the same order.\<close>

lemma fifo:
  assumes "ok h" and "q \<in> live h" and "vw h q = []"
  shows "\<exists>h1 h2. enq_all q ts h = Some h1 \<and> deq_all (length ts) q h1 = Some (map Some ts, h2)
    \<and> ok h2 \<and> vw h2 = vw h"
proof -
  from enq_all_view [OF assms(1,2), of ts] obtain h1 where h1: "enq_all q ts h = Some h1" "ok h1"
    "live h1 = live h" "vw h1 = (vw h)(q := ts)" using assms(3) by auto
  with deq_all_view [of h1 q ts "[]"] assms show ?thesis by (auto simp: fun_upd_idem)
qed

end

text \<open>
  The store of \<open>queue.h\<close> meets the contract. Threads are queued by non-null pointers, so the view of
  the contract drops the option; \<open>thread_view_ok\<close> says that no queue holds a null pointer.
\<close>

definition thread_view_ok :: "store \<Rightarrow> bool" where
  "thread_view_ok h \<longleftrightarrow> store_ok h \<and> (\<forall>q. None \<notin> set (view h q))"

definition threads_of :: "store \<Rightarrow> addr \<Rightarrow> addr list" where
  "threads_of h q = map the (view h q)"

abbreviation live_queues :: "store \<Rightarrow> addr set" where
  "live_queues h \<equiv> dom (queues h)"

lemma view_threads_of: "thread_view_ok h \<Longrightarrow> view h q = map Some (threads_of h q)"
  by (auto simp: threads_of_def thread_view_ok_def intro!: map_idI [symmetric]) (metis option.collapse)

lemma threads_of_upd:
  "view h' = (view h)(q := map Some ts) \<Longrightarrow> threads_of h' = (threads_of h)(q := ts)"
  by (auto simp: threads_of_def fun_eq_iff)

lemma thread_view_ok_upd:
  "thread_view_ok h \<Longrightarrow> store_ok h' \<Longrightarrow> view h' = (view h)(q := map Some ts) \<Longrightarrow> thread_view_ok h'"
  by (auto simp: thread_view_ok_def)

lemma map_Some_remove1: "map Some (remove1 t ts) = remove1 (Some t) (map Some ts)"
  by (induction ts) auto

interpretation tq: queue_store thread_view_ok live_queues brk threads_of malloc make_queue
  "\<lambda>q t. enqueue q (Some t)" dequeue is_empty "\<lambda>q t. contains q (Some t)"
  "\<lambda>q t. remove_node q (Some t)" free_queue
proof (unfold_locales, goal_cases)
  case (1 h a h')
  then show ?case using malloc_cells [of h] malloc_view [of h]
    by (auto simp: malloc_def thread_view_ok_def threads_of_def fun_eq_iff)
next
  case (2 h nm q h')
  then show ?case
    using make_queue_cells [of h nm q h'] brk_fresh(2) [OF store_ok_bounded, of h]
    by (auto simp: thread_view_ok_def threads_of_def view_def thread_at_def fun_eq_iff)
next
  case (3 h q t)
  then obtain r where "queues h q = Some r" by auto
  from enqueue_view [OF _ this, of "Some t"] 3 obtain h' where "enqueue q (Some t) h = Some h'"
    "store_ok h'" "dom (queues h') = dom (queues h)" "view h' = (view h)(q := map Some (threads_of h q @ [t]))"
    "brk h \<le> brk h'"
    by (auto simp: view_threads_of thread_view_ok_def)
  with 3 show ?case by (metis thread_view_ok_upd threads_of_upd)
next
  case (4 h q)
  then show ?case by (auto simp: thread_view_ok_def threads_of_def view_def intro: dequeue_empty)
next
  case (5 h q t ts)
  then obtain r where "queues h q = Some r" by auto
  from dequeue_view [OF _ this, of "Some t" "map Some ts"] 5 obtain h' where "dequeue q h = Some (Some t, h')"
    "store_ok h'" "dom (queues h') = dom (queues h)" "view h' = (view h)(q := map Some ts)" "brk h \<le> brk h'"
    by (auto simp: view_threads_of thread_view_ok_def)
  with 5 show ?case by (auto intro: thread_view_ok_upd dest: threads_of_upd)
next
  case (6 h q)
  then show ?case by (auto simp: is_empty_view thread_view_ok_def threads_of_def)
next
  case (7 h q t)
  then show ?case by (auto simp: contains_view thread_view_ok_def view_threads_of)
next
  case (8 h q t)
  then obtain r where "queues h q = Some r" by auto
  from remove_node_view [OF _ this, of "Some t"] 8 obtain h' where "remove_node q (Some t) h = Some h'"
    "store_ok h'" "dom (queues h') = dom (queues h)"
    "view h' = (view h)(q := map Some (remove1 t (threads_of h q)))" "brk h \<le> brk h'"
    by (auto simp: view_threads_of thread_view_ok_def distinct_map map_Some_remove1)
  with 8 show ?case by (auto intro: thread_view_ok_upd dest: threads_of_upd)
next
  case (9 h q)
  then obtain r where "queues h q = Some r" by auto
  from free_queue_view [OF _ this] 9 obtain h' where "free_queue q h = Some h'"
    "store_ok h'" "dom (queues h') = dom (queues h) - {q}" "view h' = (view h)(q := map Some [])" "brk h \<le> brk h'"
    by (auto simp: thread_view_ok_def)
  with 9 show ?case by (metis thread_view_ok_upd threads_of_upd)
qed

section \<open>Properties of the queue\<close>

text \<open>The store with one empty queue, for concrete instances.\<close>

definition one_queue :: store where
  "one_queue = snd (make_queue ''q'' empty_store)"

lemma one_queue_ok [simp]: "thread_view_ok one_queue" "queues one_queue 0 \<noteq> None" "threads_of one_queue 0 = []"
proof -
  have "thread_view_ok empty_store"
    using empty_store_ok by (auto simp: thread_view_ok_def view_def cells_def empty_store_def)
  moreover have "make_queue ''q'' empty_store = (0, one_queue)"
    by (simp add: one_queue_def make_queue_def empty_store_def)
  ultimately have "thread_view_ok one_queue \<and> live_queues one_queue = insert 0 (live_queues empty_store)
      \<and> threads_of one_queue = threads_of empty_store \<and> threads_of empty_store 0 = []"
    using tq.mk_law [of empty_store "''q''" 0 one_queue] by auto
  then show "thread_view_ok one_queue" "queues one_queue 0 \<noteq> None" "threads_of one_queue 0 = []" by auto
qed

text \<open>
  The linked queue is a FIFO queue. Any list of threads enqueued on an empty queue of a
  well-formed store is dequeued in the same order, and the store is well formed again with every
  queue as it was.
\<close>

theorem queue_fifo:
  assumes "thread_view_ok h" and "queues h q \<noteq> None" and "threads_of h q = []"
  shows "\<exists>h1 h2. tq.enq_all q ts h = Some h1 \<and> tq.deq_all (length ts) q h1 = Some (map Some ts, h2)
    \<and> thread_view_ok h2 \<and> threads_of h2 = threads_of h"
  using tq.fifo [of h q ts] assms by auto

theorem queue_fifo_witness:
  "\<exists>h1 h2. tq.enq_all 0 [5, 3, 5] one_queue = Some h1 \<and> tq.deq_all 3 0 h1 = Some ([Some 5, Some 3, Some 5], h2)
    \<and> thread_view_ok h2 \<and> threads_of h2 = threads_of one_queue"
  using queue_fifo [of one_queue 0 "[5, 3, 5]"] by (simp add: numeral_3_eq_3)

text \<open>
  \<open>remove_node\<close> on a queue without duplicates removes exactly the given thread, keeps
  the order of the others and leaves every other queue alone.
\<close>

theorem remove_node_removes:
  assumes "thread_view_ok h" and "queues h q \<noteq> None" and "distinct (threads_of h q)"
  shows "\<exists>h'. remove_node q (Some t) h = Some h' \<and> thread_view_ok h'
    \<and> threads_of h' = (threads_of h)(q := remove1 t (threads_of h q))"
  using tq.rm_law [of h q t] assms by auto

theorem remove_node_removes_witness:
  "\<exists>h h'. tq.enq_all 0 [7, 8, 9] one_queue = Some h \<and> remove_node 0 (Some 8) h = Some h'
     \<and> threads_of h' 0 = [7, 9]"
proof -
  have "0 \<in> live_queues one_queue" using one_queue_ok(2) by blast
  then obtain h where h: "tq.enq_all 0 [7, 8, 9] one_queue = Some h" "thread_view_ok h"
    "live_queues h = live_queues one_queue" "threads_of h = (threads_of one_queue)(0 := [7, 8, 9])"
    using tq.enq_all_view [OF one_queue_ok(1), of 0 "[7, 8, 9]"] by auto
  have "queues h 0 \<noteq> None" using h(3) one_queue_ok(2) by blast
  then show ?thesis using remove_node_removes [OF h(2), of 0 8] h(1,4) by auto
qed

text \<open>
  With a thread queued twice in a row, \<open>remove_node\<close> breaks the queue: it unlinks the
  first of the two cells, then uses that dead cell as predecessor of the second, so that the tail
  pointer names a cell that is no longer reachable from the head.
\<close>

theorem remove_node_adjacent_duplicates:
  "\<exists>h h'. tq.enq_all 0 [7, 8, 8] one_queue = Some h \<and> remove_node 0 (Some 8) h = Some h'
     \<and> map_option q_tail (queues h' 0) = Some (Some 2) \<and> 2 \<notin> set (cells h' 0) \<and> \<not> store_ok h'"
proof -
  define h where "h = the (enqueue 0 (Some 8) (the (enqueue 0 (Some 8) (the (enqueue 0 (Some 7) one_queue)))))"
  define h' where "h' = the (remove_node 0 (Some 8) h)"
  have e: "tq.enq_all 0 [7, 8, 8] one_queue = Some h"
    by (simp add: h_def one_queue_def make_queue_def empty_store_def enqueue_def)
  have r: "remove_node 0 (Some 8) h = Some h'"
    by (simp add: h'_def h_def one_queue_def make_queue_def empty_store_def enqueue_def
        remove_node_def unlink_node_def numeral_eq_Suc)
  have t: "map_option q_tail (queues h' 0) = Some (Some 2)"
    and c: "cells h' 0 = [1, 3]"
    by (simp_all add: h'_def h_def one_queue_def make_queue_def empty_store_def enqueue_def
        remove_node_def unlink_node_def cells_def numeral_eq_Suc)
  obtain r0 where r0: "queues h' 0 = Some r0" "q_tail r0 = Some 2" using t by auto
  have "\<not> store_ok h'"
    using store_okD(2) [of h' 0 r0] r0 c by (auto simp: tail_of_def)
  then show ?thesis using e r t c by auto
qed

end
