(* ===== verification/Thread_Sched.thy ===== *)
theory Thread_Sched
  imports Thread_Queue
begin

text \<open>
  The non-preemptive user-level thread library of \<open>hw1/mythread.c\<close>. A library call is a step of the
  thread that is running: it either returns to its caller, or saves the caller and switches to
  another thread, or finds no thread to run and resumes the Unix process (\<open>setcontext(&init_context)\<close>).
  The saved machine contexts themselves are not represented; which thread runs next is
  \<open>current_thread\<close>. The concrete state keeps every queue in the store of \<open>Thread_Queue\<close>.
\<close>

section \<open>Data\<close>

record thread =
  th_start :: nat
  th_args :: nat
  uc_link :: ptr
  parent :: ptr
  children :: addr
  waiting_for :: ptr

record semaphore =
  sem_count :: int
  wait_queue :: addr

record sched =
  hp :: store
  threads :: "addr \<rightharpoonup> thread"
  sems :: "addr \<rightharpoonup> semaphore"
  ready_queue :: addr
  blocked_queue :: addr
  current_thread :: ptr

text \<open>
  How a library call leaves the running thread: it returns a value, it switches to the thread now in
  \<open>current_thread\<close> (the call of the saved thread returns, with value 0 for \<open>MyThreadJoin\<close>, when that
  thread is next scheduled), or the process context is resumed.
\<close>

datatype outcome = Ret int sched | Switch sched | Quit sched

section \<open>Threads\<close>

definition make_thread :: "nat \<Rightarrow> nat \<Rightarrow> ptr \<Rightarrow> sched \<Rightarrow> addr \<times> sched" where
  "make_thread start_funct args link s =
     (let (t, h1) = malloc (hp s);
          (q, h2) = make_queue ''children'' h1
      in (t, s\<lparr>hp := h2,
               threads := (threads s)(t \<mapsto> \<lparr>th_start = start_funct, th_args = args, uc_link = link,
                                            parent = None, children = q, waiting_for = None\<rparr>)\<rparr>))"

definition free_thread :: "addr \<Rightarrow> sched \<Rightarrow> sched option" where
  "free_thread t s = do {
     th \<leftarrow> threads s t;
     h \<leftarrow> free_queue (children th) (hp s);
     Some (s\<lparr>hp := h, threads := (threads s)(t := None)\<rparr>) }"

text \<open>\<open>None\<close> as the thread: the ready queue was empty, both queues are freed and the process resumes.\<close>

definition get_next_thread :: "sched \<Rightarrow> (ptr \<times> sched) option" where
  "get_next_thread s = do {
     (nx, h) \<leftarrow> dequeue (ready_queue s) (hp s);
     case nx of
       Some t \<Rightarrow> Some (Some t, s\<lparr>hp := h\<rparr>)
     | None \<Rightarrow> do {
         h1 \<leftarrow> free_queue (ready_queue s) h;
         h2 \<leftarrow> free_queue (blocked_queue s) h1;
         Some (None, s\<lparr>hp := h2\<rparr>) } }"

text \<open>The common end of the blocking calls: \<open>current_thread = get_next_thread(); swapcontext(...)\<close>.\<close>

definition switch_next :: "sched \<Rightarrow> outcome option" where
  "switch_next s = do {
     (nx, s1) \<leftarrow> get_next_thread s;
     case nx of
       None \<Rightarrow> Some (Quit s1)
     | Some t \<Rightarrow> do {
         _ \<leftarrow> threads s1 t;
         Some (Switch (s1\<lparr>current_thread := Some t\<rparr>)) } }"

definition MyThreadCreate :: "nat \<Rightarrow> nat \<Rightarrow> sched \<Rightarrow> (addr \<times> sched) option" where
  "MyThreadCreate start_funct args s = do {
     cur \<leftarrow> current_thread s;
     ct \<leftarrow> threads s cur;
     let (t, s1) = make_thread start_funct args (Some cur) s;
     th \<leftarrow> threads s1 t;
     let s2 = s1\<lparr>threads := (threads s1)(t \<mapsto> th\<lparr>parent := Some cur\<rparr>)\<rparr>;
     h1 \<leftarrow> enqueue (children ct) (Some t) (hp s2);
     h2 \<leftarrow> enqueue (ready_queue s2) (Some t) h1;
     Some (t, s2\<lparr>hp := h2\<rparr>) }"

definition MyThreadYield :: "sched \<Rightarrow> outcome option" where
  "MyThreadYield s = do {
     cur \<leftarrow> current_thread s;
     _ \<leftarrow> threads s cur;
     h \<leftarrow> enqueue (ready_queue s) (Some cur) (hp s);
     switch_next (s\<lparr>hp := h\<rparr>) }"

text \<open>The \<open>assert\<close> of the source is an assignment, \<open>t->parent = current_thread\<close>.\<close>

definition MyThreadJoin :: "addr \<Rightarrow> sched \<Rightarrow> outcome option" where
  "MyThreadJoin t s = do {
     cur \<leftarrow> current_thread s;
     ct \<leftarrow> threads s cur;
     b \<leftarrow> contains (children ct) (Some t) (hp s);
     if \<not> b then Some (Ret (- 1) s)
     else do {
       tt \<leftarrow> threads s t;
       let s1 = s\<lparr>threads := (threads s)(t \<mapsto> tt\<lparr>parent := Some cur\<rparr>)\<rparr>;
       ct1 \<leftarrow> threads s1 cur;
       let s2 = s1\<lparr>threads := (threads s1)(cur \<mapsto> ct1\<lparr>waiting_for := Some t\<rparr>)\<rparr>;
       h \<leftarrow> enqueue (blocked_queue s2) (Some cur) (hp s2);
       switch_next (s2\<lparr>hp := h\<rparr>) } }"

definition MyThreadJoinAll :: "sched \<Rightarrow> outcome option" where
  "MyThreadJoinAll s = do {
     cur \<leftarrow> current_thread s;
     ct \<leftarrow> threads s cur;
     e \<leftarrow> is_empty (children ct) (hp s);
     if e then Some (Ret 0 s)
     else do {
       h \<leftarrow> enqueue (blocked_queue s) (Some cur) (hp s);
       switch_next (s\<lparr>hp := h\<rparr>) } }"

text \<open>The two parts of \<open>MyThreadExit\<close> before it switches: leave the parent's children, unblock the parent.\<close>

definition leave_parent :: "addr \<Rightarrow> thread \<Rightarrow> sched \<Rightarrow> sched option" where
  "leave_parent cur ct s = (case parent ct of
       None \<Rightarrow> Some s
     | Some p \<Rightarrow> do {
         pt \<leftarrow> threads s p;
         h \<leftarrow> remove_node (children pt) (Some cur) (hp s);
         Some (s\<lparr>hp := h\<rparr>) })"

definition unblock_parent :: "addr \<Rightarrow> thread \<Rightarrow> sched \<Rightarrow> sched option" where
  "unblock_parent cur ct s = do {
     b \<leftarrow> contains (blocked_queue s) (parent ct) (hp s);
     if \<not> b then Some s
     else do {
       p \<leftarrow> parent ct;
       pt \<leftarrow> threads s p;
       e \<leftarrow> is_empty (children pt) (hp s);
       if e \<or> waiting_for pt = Some cur
       then do {
         h1 \<leftarrow> remove_node (blocked_queue s) (Some p) (hp s);
         h2 \<leftarrow> enqueue (ready_queue s) (Some p) h1;
         Some (s\<lparr>hp := h2, threads := (threads s)(p \<mapsto> pt\<lparr>waiting_for := None\<rparr>)\<rparr>) }
       else Some s } }"

definition MyThreadExit :: "sched \<Rightarrow> outcome option" where
  "MyThreadExit s = do {
     cur \<leftarrow> current_thread s;
     ct \<leftarrow> threads s cur;
     s1 \<leftarrow> leave_parent cur ct s;
     s2 \<leftarrow> unblock_parent cur ct s1;
     switch_next s2 }"

section \<open>Semaphores\<close>

text \<open>A negative initial value gives a \<open>NULL\<close> handle.\<close>

definition MySemaphoreInit :: "int \<Rightarrow> sched \<Rightarrow> ptr \<times> sched" where
  "MySemaphoreInit initialValue s =
     (if initialValue < 0 then (None, s)
      else let (a, h1) = malloc (hp s);
               (q, h2) = make_queue ''wait_queue'' h1
           in (Some a, s\<lparr>hp := h2, sems := (sems s)(a \<mapsto> \<lparr>sem_count = initialValue, wait_queue = q\<rparr>)\<rparr>))"

definition MySemaphoreSignal :: "addr \<Rightarrow> sched \<Rightarrow> outcome option" where
  "MySemaphoreSignal sem s = do {
     m \<leftarrow> sems s sem;
     c \<leftarrow> checked_int (sem_count m + 1);
     let s1 = s\<lparr>sems := (sems s)(sem \<mapsto> m\<lparr>sem_count := c\<rparr>)\<rparr>;
     if c \<le> 0
     then do {
       (t, h1) \<leftarrow> dequeue (wait_queue m) (hp s1);
       h2 \<leftarrow> enqueue (ready_queue s1) t h1;
       Some (Ret 0 (s1\<lparr>hp := h2\<rparr>)) }
     else Some (Ret 0 s1) }"

definition MySemaphoreWait :: "addr \<Rightarrow> sched \<Rightarrow> outcome option" where
  "MySemaphoreWait sem s = do {
     m \<leftarrow> sems s sem;
     c \<leftarrow> checked_int (sem_count m - 1);
     let s1 = s\<lparr>sems := (sems s)(sem \<mapsto> m\<lparr>sem_count := c\<rparr>)\<rparr>;
     if c < 0
     then do {
       cur \<leftarrow> current_thread s1;
       _ \<leftarrow> threads s1 cur;
       h \<leftarrow> enqueue (wait_queue m) (Some cur) (hp s1);
       switch_next (s1\<lparr>hp := h\<rparr>) }
     else Some (Ret 0 s1) }"

definition MySemaphoreDestroy :: "addr \<Rightarrow> sched \<Rightarrow> outcome option" where
  "MySemaphoreDestroy sem s = do {
     m \<leftarrow> sems s sem;
     e \<leftarrow> is_empty (wait_queue m) (hp s);
     if e then do {
       h \<leftarrow> free_queue (wait_queue m) (hp s);
       Some (Ret 0 (s\<lparr>hp := h, sems := (sems s)(sem := None)\<rparr>)) }
     else Some (Ret (- 1) s) }"

section \<open>The Unix process\<close>

text \<open>The process before \<open>MyThreadInit\<close>; it may have created semaphores already.\<close>

definition boot :: sched where
  "boot = \<lparr>hp = empty_store, threads = Map.empty, sems = Map.empty,
           ready_queue = 0, blocked_queue = 0, current_thread = None\<rparr>"

definition MyThreadInit :: "nat \<Rightarrow> nat \<Rightarrow> sched \<Rightarrow> sched" where
  "MyThreadInit start_funct args s =
     (let (rq, h1) = make_queue ''ready_queue'' (hp s);
          (bq, h2) = make_queue ''blocked_queue'' h1;
          (t, s1) = make_thread start_funct args None (s\<lparr>hp := h2, ready_queue := rq, blocked_queue := bq\<rparr>)
      in s1\<lparr>current_thread := Some t\<rparr>)"

section \<open>Runs\<close>

text \<open>A library call by the running thread.\<close>

datatype call = Create nat nat | Yield | Join addr | JoinAll | Exit
  | SemInit int | Signal addr | Wait addr | Destroy addr

definition ptr_value :: "ptr \<Rightarrow> int" where
  "ptr_value p = (case p of None \<Rightarrow> 0 | Some a \<Rightarrow> int a + 1)"

fun exec_call :: "call \<Rightarrow> sched \<Rightarrow> outcome option" where
  "exec_call (Create f a) s = do { (t, s') \<leftarrow> MyThreadCreate f a s; Some (Ret (ptr_value (Some t)) s') }"
| "exec_call Yield s = MyThreadYield s"
| "exec_call (Join t) s = MyThreadJoin t s"
| "exec_call JoinAll s = MyThreadJoinAll s"
| "exec_call Exit s = MyThreadExit s"
| "exec_call (SemInit v) s = (let (p, s') = MySemaphoreInit v s in Some (Ret (ptr_value p) s'))"
| "exec_call (Signal m) s = MySemaphoreSignal m s"
| "exec_call (Wait m) s = MySemaphoreWait m s"
| "exec_call (Destroy m) s = MySemaphoreDestroy m s"

text \<open>
  What a client must respect: semaphore calls name a semaphore that exists, and a counter is not
  driven out of the range of \<open>int\<close>.
\<close>

fun call_ok :: "sched \<Rightarrow> call \<Rightarrow> bool" where
  "call_ok s (Signal m) = (case sems s m of None \<Rightarrow> False | Some x \<Rightarrow> int_range (sem_count x + 1))"
| "call_ok s (Wait m) = (case sems s m of None \<Rightarrow> False | Some x \<Rightarrow> int_range (sem_count x - 1))"
| "call_ok s (Destroy m) = (sems s m \<noteq> None)"
| "call_ok s c = True"

fun make_sems :: "int list \<Rightarrow> sched \<Rightarrow> sched" where
  "make_sems [] s = s"
| "make_sems (v # vs) s = make_sems vs (snd (MySemaphoreInit v s))"

text \<open>The states in which some thread runs: after \<open>MyThreadInit\<close>, and after any call that does not end the run.\<close>

inductive reachable :: "sched \<Rightarrow> bool" where
  start: "reachable (MyThreadInit f a (make_sems vs boot))"
| ret: "reachable s \<Longrightarrow> exec_call c s = Some (Ret v s') \<Longrightarrow> reachable s'"
| switch: "reachable s \<Longrightarrow> exec_call c s = Some (Switch s') \<Longrightarrow> reachable s'"

lemmas [op_defs] = make_thread_def get_next_thread_def switch_next_def MyThreadCreate_def
  MyThreadYield_def MyThreadJoin_def MyThreadJoinAll_def leave_parent_def unblock_parent_def
  MyThreadExit_def MySemaphoreInit_def
  MySemaphoreSignal_def MySemaphoreWait_def MySemaphoreDestroy_def

section \<open>The abstract machine\<close>

text \<open>
  What the library promises, without a heap: lists of threads by role, the parent of each thread and
  what it waits for, and the semaphore counters. The abstract operations are pure functions; a new
  thread or semaphore takes an unused identifier.
\<close>

datatype role = Ready | Blocked | Kids addr | Waits addr

record amach =
  a_q :: "role \<Rightarrow> addr list"
  a_par :: "addr \<rightharpoonup> ptr"
  a_wf :: "addr \<rightharpoonup> ptr"
  a_cnt :: "addr \<rightharpoonup> int"
  a_cur :: ptr

datatype aoutcome = ARet int amach | ASwitch amach | AQuit amach

abbreviation put :: "role \<Rightarrow> addr \<Rightarrow> amach \<Rightarrow> amach" where
  "put r t m \<equiv> m\<lparr>a_q := (a_q m)(r := a_q m r @ [t])\<rparr>"

abbreviation take_out :: "role \<Rightarrow> addr \<Rightarrow> amach \<Rightarrow> amach" where
  "take_out r t m \<equiv> m\<lparr>a_q := (a_q m)(r := remove1 t (a_q m r))\<rparr>"

definition a_switch :: "amach \<Rightarrow> aoutcome" where
  "a_switch m = (case a_q m Ready of
       [] \<Rightarrow> AQuit (m\<lparr>a_q := (a_q m)(Blocked := [])\<rparr>)
     | t # ts \<Rightarrow> ASwitch (m\<lparr>a_q := (a_q m)(Ready := ts), a_cur := Some t\<rparr>))"

definition a_create :: "addr \<Rightarrow> addr \<Rightarrow> amach \<Rightarrow> amach" where
  "a_create t cur m = put Ready t (put (Kids cur) t
     (m\<lparr>a_par := (a_par m)(t \<mapsto> Some cur), a_wf := (a_wf m)(t \<mapsto> None)\<rparr>))"

definition a_yield :: "addr \<Rightarrow> amach \<Rightarrow> aoutcome" where
  "a_yield cur m = a_switch (put Ready cur m)"

definition a_join :: "addr \<Rightarrow> addr \<Rightarrow> amach \<Rightarrow> aoutcome" where
  "a_join t cur m =
     (if t \<notin> set (a_q m (Kids cur)) then ARet (- 1) m
      else a_switch (put Blocked cur (m\<lparr>a_wf := (a_wf m)(cur \<mapsto> Some t)\<rparr>)))"

definition a_join_all :: "addr \<Rightarrow> amach \<Rightarrow> aoutcome" where
  "a_join_all cur m =
     (if a_q m (Kids cur) = [] then ARet 0 m else a_switch (put Blocked cur m))"

definition a_leave :: "addr \<Rightarrow> amach \<Rightarrow> amach" where
  "a_leave cur m = (case a_par m cur of
       Some (Some p) \<Rightarrow> take_out (Kids p) cur m
     | _ \<Rightarrow> m)"

definition a_wake :: "addr \<Rightarrow> amach \<Rightarrow> amach" where
  "a_wake cur m = (case a_par m cur of
       Some (Some p) \<Rightarrow>
         (if p \<in> set (a_q m Blocked) \<and> (a_q m (Kids p) = [] \<or> a_wf m p = Some (Some cur))
          then put Ready p (take_out Blocked p (m\<lparr>a_wf := (a_wf m)(p \<mapsto> None)\<rparr>))
          else m)
     | _ \<Rightarrow> m)"

definition a_exit :: "addr \<Rightarrow> amach \<Rightarrow> aoutcome" where
  "a_exit cur m = a_switch (a_wake cur (a_leave cur m))"

definition a_sem_init :: "addr \<Rightarrow> int \<Rightarrow> amach \<Rightarrow> amach" where
  "a_sem_init x v m = m\<lparr>a_cnt := (a_cnt m)(x \<mapsto> v)\<rparr>"

definition a_signal :: "addr \<Rightarrow> int \<Rightarrow> amach \<Rightarrow> aoutcome" where
  "a_signal x n m =
     (let m1 = m\<lparr>a_cnt := (a_cnt m)(x \<mapsto> n + 1)\<rparr>
      in case a_q m (Waits x) of
           t # ts \<Rightarrow> (if n + 1 \<le> 0 then ARet 0 (put Ready t (m1\<lparr>a_q := (a_q m1)(Waits x := ts)\<rparr>)) else ARet 0 m1)
         | [] \<Rightarrow> ARet 0 m1)"

definition a_wait :: "addr \<Rightarrow> int \<Rightarrow> addr \<Rightarrow> amach \<Rightarrow> aoutcome" where
  "a_wait x n cur m =
     (let m1 = m\<lparr>a_cnt := (a_cnt m)(x \<mapsto> n - 1)\<rparr>
      in if n - 1 < 0 then a_switch (put (Waits x) cur m1) else ARet 0 m1)"

definition a_destroy :: "addr \<Rightarrow> amach \<Rightarrow> aoutcome" where
  "a_destroy x m = (if a_q m (Waits x) = [] then ARet 0 (m\<lparr>a_cnt := (a_cnt m)(x := None)\<rparr>) else ARet (- 1) m)"

lemmas [spec_defs] = a_switch_def a_create_def a_yield_def a_join_def a_join_all_def a_leave_def
  a_wake_def a_exit_def a_sem_init_def a_signal_def a_wait_def a_destroy_def

end
