(* ===== verification/Thread_Inv.thy ===== *)
theory Thread_Inv
  imports Thread_Sched
begin

text \<open>
  The invariant of the abstract machine of \<open>Thread_Sched\<close>, in three parts, each kept by every abstract
  call: where the threads are (\<open>inv_place\<close>), what the semaphore counters mean (\<open>inv_sem\<close>), and why a
  thread is blocked (\<open>inv_block\<close>). The parameter \<open>c\<close> is the running thread, \<open>None\<close> between the moment
  a call gives up the processor and the moment the next thread is taken from the ready queue.
\<close>

section \<open>The parts of the invariant\<close>

text \<open>The roles in which a thread waits for the processor or for an event.\<close>

fun waiting_role :: "role \<Rightarrow> bool" where
  "waiting_role (Kids t) = False"
| "waiting_role _ = True"

text \<open>A thread that has not exited.\<close>

definition alive :: "ptr \<Rightarrow> amach \<Rightarrow> addr \<Rightarrow> bool" where
  "alive c m t \<longleftrightarrow> c = Some t \<or> (\<exists>r. waiting_role r \<and> t \<in> set (a_q m r))"

text \<open>
  Every live thread is in exactly one place, once; a thread's \<open>children\<close> queue holds exactly its live
  children.
\<close>

definition inv_place :: "ptr \<Rightarrow> amach \<Rightarrow> bool" where
  "inv_place c m \<longleftrightarrow>
     (\<forall>r. distinct (a_q m r))
     \<and> (\<forall>r t. c = Some t \<longrightarrow> waiting_role r \<longrightarrow> t \<notin> set (a_q m r))
     \<and> (\<forall>r r' t. waiting_role r \<longrightarrow> waiting_role r' \<longrightarrow> t \<in> set (a_q m r) \<longrightarrow> t \<in> set (a_q m r') \<longrightarrow> r = r')
     \<and> (\<forall>t. alive c m t \<longrightarrow> a_par m t \<noteq> None)
     \<and> (\<forall>p t. t \<in> set (a_q m (Kids p)) \<longleftrightarrow> alive c m t \<and> a_par m t = Some (Some p))
     \<and> (\<forall>t p. a_par m t = Some (Some p) \<longrightarrow> a_par m p \<noteq> None)
     \<and> (\<forall>t. a_wf m t = None \<longleftrightarrow> a_par m t = None)"

text \<open>A negative counter counts the waiting threads; otherwise nobody waits.\<close>

definition inv_sem :: "amach \<Rightarrow> bool" where
  "inv_sem m \<longleftrightarrow> (\<forall>x. int (length (a_q m (Waits x))) = (case a_cnt m x of None \<Rightarrow> 0 | Some n \<Rightarrow> max 0 (- n)))"

text \<open>
  A blocked thread waits for a live child, or for all of its live children, of which there is at
  least one; a thread that is not blocked waits for no child.
\<close>

definition block_reason :: "amach \<Rightarrow> addr \<Rightarrow> bool" where
  "block_reason m t = (case a_wf m t of Some (Some k) \<Rightarrow> k \<in> set (a_q m (Kids t)) | _ \<Rightarrow> a_q m (Kids t) \<noteq> [])"

definition inv_block :: "ptr \<Rightarrow> amach \<Rightarrow> bool" where
  "inv_block c m \<longleftrightarrow>
     (\<forall>t \<in> set (a_q m Blocked). block_reason m t)
     \<and> (\<forall>t. alive c m t \<longrightarrow> t \<notin> set (a_q m Blocked) \<longrightarrow> a_wf m t = Some None)"

definition inv_for :: "ptr \<Rightarrow> amach \<Rightarrow> bool" where
  "inv_for c m \<longleftrightarrow> inv_place c m \<and> inv_sem m \<and> inv_block c m"

definition am_inv :: "amach \<Rightarrow> bool" where
  "am_inv m \<longleftrightarrow> a_cur m \<noteq> None \<and> inv_for (a_cur m) m"

section \<open>Where threads are\<close>

lemma waiting_role_simps [simp]: "waiting_role r \<Longrightarrow> r \<noteq> Kids t" "waiting_role r \<Longrightarrow> Kids t \<noteq> r"
  by auto

lemma alive_put [simp]: "waiting_role r \<Longrightarrow> alive None (put r t m) = alive (Some t) m"
  by (auto simp: alive_def fun_eq_iff)

lemma alive_cong: "(\<And>r. waiting_role r \<Longrightarrow> set (a_q m r) = set (a_q m' r)) \<Longrightarrow> alive c m = alive c m'"
  by (auto simp: alive_def fun_eq_iff)

lemma alive_update [simp]:
  "alive c (m\<lparr>a_cur := x\<rparr>) = alive c m" "alive c (m\<lparr>a_cnt := y\<rparr>) = alive c m"
  "alive c (m\<lparr>a_wf := w\<rparr>) = alive c m" "alive c (m\<lparr>a_par := p\<rparr>) = alive c m"
  by (simp_all add: alive_def fun_eq_iff)

lemma place_distinct: "inv_place c m \<Longrightarrow> distinct (a_q m r)"
  and place_cur: "inv_place c m \<Longrightarrow> c = Some t \<Longrightarrow> waiting_role r \<Longrightarrow> t \<notin> set (a_q m r)"
  and place_unique: "inv_place c m \<Longrightarrow> waiting_role r \<Longrightarrow> waiting_role r' \<Longrightarrow> t \<in> set (a_q m r) \<Longrightarrow>
      t \<in> set (a_q m r') \<Longrightarrow> r = r'"
  and place_known: "inv_place c m \<Longrightarrow> alive c m t \<Longrightarrow> \<exists>p. a_par m t = Some p"
  and place_kids: "inv_place c m \<Longrightarrow> t \<in> set (a_q m (Kids p)) \<longleftrightarrow> alive c m t \<and> a_par m t = Some (Some p)"
  and place_parent: "inv_place c m \<Longrightarrow> a_par m t = Some (Some p) \<Longrightarrow> \<exists>pp. a_par m p = Some pp"
  and place_wf: "inv_place c m \<Longrightarrow> a_wf m t = None \<longleftrightarrow> a_par m t = None"
  unfolding inv_place_def by blast+

lemma inv_placeI:
  assumes "\<And>r. distinct (a_q m r)"
    and "\<And>r t. c = Some t \<Longrightarrow> waiting_role r \<Longrightarrow> t \<notin> set (a_q m r)"
    and "\<And>r r' t. waiting_role r \<Longrightarrow> waiting_role r' \<Longrightarrow> t \<in> set (a_q m r) \<Longrightarrow> t \<in> set (a_q m r') \<Longrightarrow> r = r'"
    and "\<And>t. alive c m t \<Longrightarrow> a_par m t \<noteq> None"
    and "\<And>p t. t \<in> set (a_q m (Kids p)) \<longleftrightarrow> alive c m t \<and> a_par m t = Some (Some p)"
    and "\<And>t p. a_par m t = Some (Some p) \<Longrightarrow> a_par m p \<noteq> None"
    and "\<And>t. a_wf m t = None \<longleftrightarrow> a_par m t = None"
  shows "inv_place c m"
  using assms unfolding inv_place_def by blast

lemma alive_pop:
  assumes "waiting_role r" and "a_q m r = t # ts"
  shows "alive (Some t) (m\<lparr>a_q := (a_q m)(r := ts)\<rparr>) = alive None m"
proof
  fix x
  have "x \<in> set (((a_q m)(r := ts)) ra) \<longleftrightarrow> x \<in> set (a_q m ra)" if "x \<noteq> t" for ra
    using that assms by auto
  then show "alive (Some t) (m\<lparr>a_q := (a_q m)(r := ts)\<rparr>) x = alive None m x"
    using assms unfolding alive_def by (cases "x = t") force+
qed

lemma inv_place_put:
  assumes i: "inv_place (Some t) m" and r: "waiting_role r"
  shows "inv_place None (put r t m)"
proof (rule inv_placeI)
  have mem: "u \<in> set (a_q (put r t m) x) \<Longrightarrow> u \<in> set (a_q m x) \<or> (x = r \<and> u = t)" for u x
    by (auto split: if_splits)
  show "x = y" if "waiting_role x" "waiting_role y" "u \<in> set (a_q (put r t m) x)"
    "u \<in> set (a_q (put r t m) y)" for x y u
    using mem [OF that(3)] mem [OF that(4)] that(1,2) r place_cur [OF i] place_unique [OF i] by blast
  show "distinct (a_q (put r t m) x)" for x
    using place_distinct [OF i] place_cur [OF i refl r] by simp
  show "u \<in> set (a_q (put r t m) (Kids p)) \<longleftrightarrow> alive None (put r t m) u \<and> a_par (put r t m) u = Some (Some p)" for u p
    unfolding alive_put [OF r] using r place_kids [OF i, of u p] by auto
  show "a_par (put r t m) u \<noteq> None" if "alive None (put r t m) u" for u
    using that place_known [OF i, of u] unfolding alive_put [OF r] by simp
qed (use place_parent [OF i] place_wf [OF i] in auto)

lemma alive_move:
  assumes "waiting_role r" and "waiting_role r'" and "r \<noteq> r'" and "t \<in> set (a_q m r)"
    and "distinct (a_q m r)"
  shows "alive c (put r' t (take_out r t m)) = alive c m"
proof
  fix x
  have "x \<in> set (a_q (put r' t (take_out r t m)) ra) \<longleftrightarrow> x \<in> set (a_q m ra)" if "x \<noteq> t" for ra
    using that assms by auto
  moreover have "t \<in> set (a_q (put r' t (take_out r t m)) r')" by simp
  ultimately show "alive c (put r' t (take_out r t m)) x = alive c m x"
    using assms unfolding alive_def by (cases "x = t") blast+
qed

lemma inv_place_move:
  assumes i: "inv_place c m" and r: "waiting_role r" "waiting_role r'" "r \<noteq> r'" "t \<in> set (a_q m r)"
  shows "inv_place c (put r' t (take_out r t m))"
proof -
  let ?m = "put r' t (take_out r t m)"
  have a: "alive c ?m = alive c m" using r place_distinct [OF i] by (intro alive_move)
  have mem: "u \<in> set (a_q ?m x) \<Longrightarrow> (u \<in> set (a_q m x) \<and> (u = t \<longrightarrow> x \<noteq> r)) \<or> (x = r' \<and> u = t)" for u x
    using r place_distinct [OF i] by (auto split: if_splits)
  have nt: "t \<notin> set (a_q m x)" if "waiting_role x" "x \<noteq> r" for x
    using place_unique [OF i that(1) r(1) _ r(4)] that(2) by blast
  show ?thesis
  proof (rule inv_placeI, unfold a)
    show "x = y" if "waiting_role x" "waiting_role y" "u \<in> set (a_q ?m x)" "u \<in> set (a_q ?m y)" for x y u
      using mem [OF that(3)] mem [OF that(4)] that(1,2) r nt place_unique [OF i] by blast
    show "u \<notin> set (a_q ?m x)" if "c = Some u" "waiting_role x" for x u
      using mem [of u x] that r place_cur [OF i] by blast
    show "distinct (a_q ?m x)" for x using r place_distinct [OF i] nt [OF r(2)] by auto
    show "u \<in> set (a_q ?m (Kids p)) \<longleftrightarrow> alive c m u \<and> a_par ?m u = Some (Some p)" for u p
      using r place_kids [OF i, of u p] by simp
  qed (use place_known [OF i] place_parent [OF i] place_wf [OF i] in auto)
qed

lemma inv_place_pop:
  assumes i: "inv_place None m" and r: "waiting_role r" "a_q m r = t # ts"
  shows "inv_place (Some t) (m\<lparr>a_q := (a_q m)(r := ts)\<rparr>)"
proof -
  let ?m = "m\<lparr>a_q := (a_q m)(r := ts)\<rparr>"
  have d: "distinct (t # ts)" using place_distinct [OF i, of r] r by simp
  have a: "alive (Some t) ?m = alive None m" using r by (rule alive_pop)
  have mem: "u \<in> set (a_q ?m x) \<Longrightarrow> u \<in> set (a_q m x)" for u x using r by (auto split: if_splits)
  have t: "t \<in> set (a_q m r)" using r by simp
  show ?thesis
  proof (rule inv_placeI, unfold a)
    show "x = y" if "waiting_role x" "waiting_role y" "u \<in> set (a_q ?m x)" "u \<in> set (a_q ?m y)" for x y u
      using mem [OF that(3)] mem [OF that(4)] that(1,2) place_unique [OF i] by blast
    show "u \<notin> set (a_q ?m x)" if "Some t = Some u" "waiting_role x" for x u
    proof
      assume "u \<in> set (a_q ?m x)"
      then have "x = r" using mem [of u x] that t r(1) place_unique [OF i] by blast
      with \<open>u \<in> set (a_q ?m x)\<close> that(1) d show False by simp
    qed
    show "distinct (a_q ?m x)" for x using place_distinct [OF i] d by simp
    show "u \<in> set (a_q ?m (Kids p)) \<longleftrightarrow> alive None m u \<and> a_par ?m u = Some (Some p)" for u p
      using r place_kids [OF i, of u p] by simp
  qed (use place_known [OF i] place_parent [OF i] place_wf [OF i] in auto)
qed

lemma inv_place_fields:
  "inv_place c m \<Longrightarrow> a_q m' = a_q m \<Longrightarrow> a_par m' = a_par m \<Longrightarrow>
     (\<And>t. a_wf m' t = None \<longleftrightarrow> a_wf m t = None) \<Longrightarrow> inv_place c m'"
  unfolding inv_place_def alive_def by simp


lemma inv_place_leave:
  assumes i: "inv_place (Some t) m"
  shows "inv_place None (a_leave t m)"
proof -
  have a: "alive None m x \<longleftrightarrow> alive (Some t) m x \<and> x \<noteq> t" for x
    using place_cur [OF i] by (auto simp: alive_def)
  have al: "alive None (a_leave t m) = alive None m"
    by (rule alive_cong) (auto simp: a_leave_def split: option.splits)
  have q: "waiting_role r \<Longrightarrow> a_q (a_leave t m) r = a_q m r" for r
    by (auto simp: a_leave_def split: option.splits)
  have f: "a_par (a_leave t m) = a_par m" "a_wf (a_leave t m) = a_wf m"
    by (auto simp: a_leave_def split: option.splits)
  have k: "u \<in> set (a_q (a_leave t m) (Kids p)) \<longleftrightarrow> u \<in> set (a_q m (Kids p)) \<and> u \<noteq> t" for u p
    using place_distinct [OF i] place_kids [OF i, of t] by (auto simp: a_leave_def split: option.splits)
  show ?thesis
  proof (rule inv_placeI, unfold al a f)
    show "distinct (a_q (a_leave t m) x)" for x
      using place_distinct [OF i] by (auto simp: a_leave_def split: option.splits)
    show "x = y" if "waiting_role x" "waiting_role y" "u \<in> set (a_q (a_leave t m) x)"
      "u \<in> set (a_q (a_leave t m) y)" for x y u
      using that place_unique [OF i, of x y u] by (simp add: q)
    show "u \<in> set (a_q (a_leave t m) (Kids p)) \<longleftrightarrow> (alive (Some t) m u \<and> u \<noteq> t) \<and> a_par m u = Some (Some p)" for u p
      unfolding k using place_kids [OF i, of u p] by blast
  qed (use place_known [OF i] place_parent [OF i] place_wf [OF i] in auto)
qed

lemma alive_create: "alive (Some c) (a_create t c m) x \<longleftrightarrow> alive (Some c) m x \<or> x = t"
proof -
  have "x \<in> set (a_q (a_create t c m) r) \<longleftrightarrow> x \<in> set (a_q m r) \<or> (r = Ready \<and> x = t)" if "waiting_role r" for r
    using that by (auto simp: a_create_def)
  moreover have "waiting_role Ready" by simp
  ultimately show ?thesis unfolding alive_def by blast
qed

lemma inv_place_create:
  assumes i: "inv_place (Some c) m" and t: "a_par m t = None"
  shows "inv_place (Some c) (a_create t c m)"
proof -
  have na: "\<not> alive (Some c) m t" using place_known [OF i, of t] t by auto
  then have nr: "waiting_role r \<Longrightarrow> t \<notin> set (a_q m r)" for r by (auto simp: alive_def)
  have nk: "t \<notin> set (a_q m (Kids p))" for p using na place_kids [OF i] by blast
  have nc: "t \<noteq> c" using na by (auto simp: alive_def)
  have mem: "u \<in> set (a_q (a_create t c m) x) \<longleftrightarrow> u \<in> set (a_q m x) \<or> (u = t \<and> (x = Ready \<or> x = Kids c))" for u x
    by (auto simp: a_create_def)
  have f: "a_par (a_create t c m) = (a_par m)(t \<mapsto> Some c)" "a_wf (a_create t c m) = (a_wf m)(t \<mapsto> None)"
    by (simp_all add: a_create_def)
  have pc: "\<exists>p. a_par m c = Some p" using place_known [OF i, of c] by (simp add: alive_def)
  show ?thesis
  proof (rule inv_placeI, unfold mem alive_create f)
    show "distinct (a_q (a_create t c m) x)" for x
      using place_distinct [OF i] nr [of Ready] nk by (auto simp: a_create_def)
    show "x = y" if "waiting_role x" "waiting_role y"
      "u \<in> set (a_q m x) \<or> u = t \<and> (x = Ready \<or> x = Kids c)"
      "u \<in> set (a_q m y) \<or> u = t \<and> (y = Ready \<or> y = Kids c)" for x y u
      using that nr place_unique [OF i, of x y u] by auto
    show "\<not> (u \<in> set (a_q m x) \<or> u = t \<and> (x = Ready \<or> x = Kids c))" if "Some c = Some u" "waiting_role x" for x u
      using that place_cur [OF i, of u x] nc by auto
    show "u \<in> set (a_q m (Kids p)) \<or> u = t \<and> (Kids p = Ready \<or> Kids p = Kids c) \<longleftrightarrow>
        (alive (Some c) m u \<or> u = t) \<and> ((a_par m)(t \<mapsto> Some c)) u = Some (Some p)" for u p
      using nk na place_kids [OF i, of u p] by auto
    show "((a_par m)(t \<mapsto> Some c)) p \<noteq> None" if "((a_par m)(t \<mapsto> Some c)) u = Some (Some p)" for u p
      using that pc place_parent [OF i, of u p] by (auto split: if_splits)
  qed (use place_known [OF i] place_wf [OF i] in auto)
qed

section \<open>Semaphores and blocked threads\<close>

lemma inv_sem_cong:
  "inv_sem m \<Longrightarrow> a_cnt m' = a_cnt m \<Longrightarrow> (\<And>x. length (a_q m' (Waits x)) = length (a_q m (Waits x))) \<Longrightarrow> inv_sem m'"
  by (simp add: inv_sem_def)

lemma block_reason_cong:
  "a_wf m' x = a_wf m x \<Longrightarrow> a_q m' (Kids x) = a_q m (Kids x) \<Longrightarrow> block_reason m' x = block_reason m x"
  by (simp add: block_reason_def split: option.split)

lemma inv_block_cong:
  assumes "inv_block c m" and "set (a_q m' Blocked) = set (a_q m Blocked)" and "a_wf m' = a_wf m"
    and "\<And>t. a_q m' (Kids t) = a_q m (Kids t)" and "\<And>t. alive c' m' t = alive c m t"
  shows "inv_block c' m'"
proof -
  have "block_reason m' t = block_reason m t" for t
    using assms(3,4) by (intro block_reason_cong) simp_all
  then show ?thesis using assms by (auto simp: inv_block_def)
qed

lemma inv_blockD:
  "inv_block c m \<Longrightarrow> t \<in> set (a_q m Blocked) \<Longrightarrow> block_reason m t"
  "inv_block c m \<Longrightarrow> alive c m t \<Longrightarrow> t \<notin> set (a_q m Blocked) \<Longrightarrow> a_wf m t = Some None"
  by (auto simp: inv_block_def)

section \<open>Every abstract call keeps the invariant\<close>

text \<open>Taking the next thread from the ready queue.\<close>

lemma a_switch_inv:
  assumes i: "inv_for None m" and e: "a_switch m = ASwitch m'"
  shows "am_inv m'"
proof -
  from e obtain t ts where r: "a_q m Ready = t # ts"
    and m': "m' = m\<lparr>a_q := (a_q m)(Ready := ts), a_cur := Some t\<rparr>"
    by (auto simp: a_switch_def split: list.splits)
  let ?m = "m\<lparr>a_q := (a_q m)(Ready := ts)\<rparr>"
  have p: "inv_place (Some t) ?m" using i r by (intro inv_place_pop) (auto simp: inv_for_def)
  have al: "alive (Some t) m' x = alive None m x" for x
    using alive_pop [OF _ r] by (simp add: m')
  have "inv_place (Some t) m'" using p by (rule inv_place_fields) (simp_all add: m')
  moreover have "inv_sem m'" using i by (rule_tac inv_sem_cong [of m]) (simp_all add: inv_for_def m')
  moreover have "inv_block (Some t) m'"
    using i al by (rule_tac inv_block_cong [of None m]) (auto simp: inv_for_def m')
  ultimately show ?thesis by (simp add: am_inv_def inv_for_def m')
qed

lemma a_yield_inv:
  assumes "inv_for (Some t) m"
  shows "inv_for None (put Ready t m)"
proof -
  have "inv_place None (put Ready t m)" using assms by (intro inv_place_put) (auto simp: inv_for_def)
  moreover have "inv_sem (put Ready t m)" using assms by (rule_tac inv_sem_cong [of m]) (auto simp: inv_for_def)
  moreover have "inv_block None (put Ready t m)"
    using assms by (rule_tac inv_block_cong [of "Some t" m]) (auto simp: inv_for_def)
  ultimately show ?thesis by (simp add: inv_for_def)
qed

lemma inv_block_put_blocked:
  assumes p: "inv_place (Some t) m" and b: "inv_block (Some t) m"
    and w: "\<And>x. x \<noteq> t \<Longrightarrow> a_wf m' x = a_wf m x" and q: "a_q m' = (a_q m)(Blocked := a_q m Blocked @ [t])"
    and reason: "block_reason m' t"
  shows "inv_block None m'"
proof -
  have "alive None m' = alive None (put Blocked t m)" by (rule alive_cong) (simp add: q)
  then have al: "alive None m' x = alive (Some t) m x" for x by simp
  show ?thesis unfolding inv_block_def
  proof (intro conjI ballI allI impI)
    show "block_reason m' x" if "x \<in> set (a_q m' Blocked)" for x
      using that reason inv_blockD(1) [OF b, of x] block_reason_cong [of m' x m] w [of x]
      by (cases "x = t") (auto simp: q)
    show "a_wf m' x = Some None" if "alive None m' x" "x \<notin> set (a_q m' Blocked)" for x
      using that inv_blockD(2) [OF b, of x] w [of x] by (auto simp: al q)
  qed
qed

lemma a_join_inv:
  assumes i: "inv_for (Some t) m" and k: "k \<in> set (a_q m (Kids t))"
  shows "inv_for None (put Blocked t (m\<lparr>a_wf := (a_wf m)(t \<mapsto> Some k)\<rparr>))"
proof -
  let ?m = "m\<lparr>a_wf := (a_wf m)(t \<mapsto> Some k)\<rparr>"
  have p: "inv_place (Some t) m" and b: "inv_block (Some t) m" using i by (simp_all add: inv_for_def)
  have "a_wf m t \<noteq> None" using place_known [OF p, of t] place_wf [OF p, of t] by (auto simp: alive_def)
  then have "inv_place (Some t) ?m" using p by (intro inv_place_fields [OF p]) auto
  then have "inv_place None (put Blocked t ?m)" by (intro inv_place_put) simp_all
  moreover have "inv_sem (put Blocked t ?m)" using i by (rule_tac inv_sem_cong [of m]) (auto simp: inv_for_def)
  moreover have "inv_block None (put Blocked t ?m)"
    using k by (intro inv_block_put_blocked [OF p b]) (auto simp: block_reason_def)
  ultimately show ?thesis by (simp add: inv_for_def)
qed

lemma a_join_all_inv:
  assumes i: "inv_for (Some t) m" and k: "a_q m (Kids t) \<noteq> []"
  shows "inv_for None (put Blocked t m)"
proof -
  have p: "inv_place (Some t) m" and b: "inv_block (Some t) m" using i by (simp_all add: inv_for_def)
  have "a_wf m t = Some None" using place_cur [OF p] inv_blockD(2) [OF b, of t] by (auto simp: alive_def)
  then have "inv_block None (put Blocked t m)"
    using k by (intro inv_block_put_blocked [OF p b]) (auto simp: block_reason_def)
  moreover have "inv_sem (put Blocked t m)" using i by (rule_tac inv_sem_cong [of m]) (auto simp: inv_for_def)
  ultimately show ?thesis using p by (auto simp: inv_for_def intro: inv_place_put)
qed


text \<open>An exit: the thread leaves its parent's children, and the parent is woken if it waited for that.\<close>

lemma a_leave_frame:
  "a_cnt (a_leave t m) = a_cnt m" "a_wf (a_leave t m) = a_wf m" "a_par (a_leave t m) = a_par m"
  "waiting_role r \<Longrightarrow> a_q (a_leave t m) r = a_q m r"
  "a_par m t \<noteq> Some (Some p) \<Longrightarrow> a_q (a_leave t m) (Kids p) = a_q m (Kids p)"
  "a_par m t = Some (Some p) \<Longrightarrow> a_q (a_leave t m) (Kids p) = remove1 t (a_q m (Kids p))"
  by (auto simp: a_leave_def split: option.splits)

lemma a_leave_reason:
  assumes b: "inv_block (Some t) m" and x: "x \<in> set (a_q m Blocked)"
    and np: "a_par m t = Some (Some x) \<Longrightarrow> a_q (a_leave t m) (Kids x) \<noteq> [] \<and> a_wf m x \<noteq> Some (Some t)"
  shows "block_reason (a_leave t m) x"
proof (cases "a_par m t = Some (Some x)")
  case False
  then have "block_reason (a_leave t m) x = block_reason m x"
    by (intro block_reason_cong) (simp_all add: a_leave_frame)
  then show ?thesis using inv_blockD(1) [OF b x] by simp
next
  case True
  then show ?thesis using inv_blockD(1) [OF b x] np [OF True]
    by (auto simp: block_reason_def a_leave_frame split: option.splits)
qed

lemma alive_leave: "inv_place (Some t) m \<Longrightarrow> alive None (a_leave t m) x \<Longrightarrow> alive (Some t) m x \<and> x \<noteq> t"
  using place_cur [of "Some t" m t] by (auto simp: alive_def a_leave_frame)

lemma a_exit_inv:
  assumes i: "inv_for (Some t) m"
  shows "inv_for None (a_wake t (a_leave t m))"
proof -
  have p: "inv_place (Some t) m" and b: "inv_block (Some t) m" and sm: "inv_sem m"
    using i by (simp_all add: inv_for_def)
  let ?l = "a_leave t m"
  have pl: "inv_place None ?l" using p by (rule inv_place_leave)
  have sl: "inv_sem ?l" using sm by (rule inv_sem_cong) (simp_all add: a_leave_frame)
  have nb: "a_wf ?l x = Some None" if "alive None ?l x" "x \<notin> set (a_q ?l Blocked)" for x
    using that alive_leave [OF p] inv_blockD(2) [OF b, of x] by (simp add: a_leave_frame)
  show ?thesis
  proof (cases "\<exists>q. a_par m t = Some (Some q) \<and> q \<in> set (a_q m Blocked) \<and>
      (a_q ?l (Kids q) = [] \<or> a_wf m q = Some (Some t))")
    case False
    then have w: "a_wake t ?l = ?l"
      by (auto simp: a_wake_def a_leave_frame split: option.splits)
    have "block_reason ?l x" if "x \<in> set (a_q ?l Blocked)" for x
      using that False by (intro a_leave_reason [OF b]) (auto simp: a_leave_frame)
    then have "inv_block None ?l" using nb by (simp add: inv_block_def)
    with w pl sl show ?thesis by (simp add: inv_for_def)
  next
    case True
    then obtain q where q: "a_par m t = Some (Some q)" "q \<in> set (a_q m Blocked)"
      "a_q ?l (Kids q) = [] \<or> a_wf m q = Some (Some t)" by blast
    let ?f = "?l\<lparr>a_wf := (a_wf ?l)(q \<mapsto> None)\<rparr>"
    let ?w = "put Ready q (take_out Blocked q ?f)"
    have w: "a_wake t ?l = ?w" using q by (simp add: a_wake_def a_leave_frame)
    have qb: "q \<in> set (a_q ?f Blocked)" using q(2) by (simp add: a_leave_frame)
    have "\<exists>pp. a_par m q = Some pp" using place_parent [OF p q(1)] .
    then have "a_wf m q \<noteq> None" using place_wf [OF p, of q] by auto
    then have pf: "inv_place None ?f" by (intro inv_place_fields [OF pl]) (auto simp: a_leave_frame)
    have pw: "inv_place None ?w" using qb by (intro inv_place_move [OF pf]) simp_all
    have d: "distinct (a_q m Blocked)" by (rule place_distinct [OF p])
    have "alive None ?w = alive None ?f" using qb place_distinct [OF pf] by (intro alive_move) simp_all
    then have aw: "alive None ?w = alive None ?l" by simp
    have bw: "x \<in> set (a_q ?w Blocked) \<longleftrightarrow> x \<in> set (a_q m Blocked) \<and> x \<noteq> q" for x
      using d by (auto simp: a_leave_frame)
    have "inv_block None ?w" unfolding inv_block_def aw
    proof (intro conjI ballI allI impI)
      fix x
      assume "x \<in> set (a_q ?w Blocked)"
      then have x: "x \<in> set (a_q m Blocked)" "x \<noteq> q" using bw by auto
      then have "block_reason ?l x" using q(1) by (intro a_leave_reason [OF b]) auto
      with x(2) show "block_reason ?w x" by (subst block_reason_cong [of _ x ?l]) simp_all
    next
      fix x
      assume "alive None ?l x" "x \<notin> set (a_q ?w Blocked)"
      then show "a_wf ?w x = Some None" using nb [of x] bw by (auto simp: a_leave_frame)
    qed
    moreover have "inv_sem ?w" by (rule inv_sem_cong [OF sl]) (simp_all add: a_leave_frame)
    ultimately show ?thesis using pw w by (simp add: inv_for_def)
  qed
qed

lemma a_create_inv:
  assumes i: "inv_for (Some c) m" and t: "a_par m t = None"
  shows "inv_for (Some c) (a_create t c m)"
proof -
  have p: "inv_place (Some c) m" and b: "inv_block (Some c) m" and sm: "inv_sem m"
    using i by (simp_all add: inv_for_def)
  have na: "\<not> alive (Some c) m t" using place_known [OF p, of t] t by auto
  have nb: "t \<notin> set (a_q m Blocked)"
    using na waiting_role.simps(3) unfolding alive_def by blast
  have "inv_block (Some c) (a_create t c m)" unfolding inv_block_def alive_create
  proof (intro conjI ballI allI impI)
    fix x
    assume "x \<in> set (a_q (a_create t c m) Blocked)"
    then have "x \<in> set (a_q m Blocked)" by (simp add: a_create_def)
    with nb inv_blockD(1) [OF b, of x] show "block_reason (a_create t c m) x"
      by (auto simp: block_reason_def a_create_def split: option.splits)
  next
    fix x
    assume "alive (Some c) m x \<or> x = t" "x \<notin> set (a_q (a_create t c m) Blocked)"
    with inv_blockD(2) [OF b, of x] show "a_wf (a_create t c m) x = Some None"
      by (auto simp: a_create_def)
  qed
  moreover have "inv_sem (a_create t c m)" by (rule inv_sem_cong [OF sm]) (simp_all add: a_create_def)
  ultimately show ?thesis using inv_place_create [OF p t] by (simp add: inv_for_def)
qed

text \<open>Changing one counter and one waiting list together.\<close>

lemma inv_sem_upd:
  assumes "inv_sem m" and "a_cnt m' = (a_cnt m)(x := v)"
    and "\<And>y. y \<noteq> x \<Longrightarrow> length (a_q m' (Waits y)) = length (a_q m (Waits y))"
    and "int (length (a_q m' (Waits x))) = (case v of None \<Rightarrow> 0 | Some n \<Rightarrow> max 0 (- n))"
  shows "inv_sem m'"
  unfolding inv_sem_def
proof
  fix y
  show "int (length (a_q m' (Waits y))) = (case a_cnt m' y of None \<Rightarrow> 0 | Some n \<Rightarrow> max 0 (- n))"
    using assms by (cases "y = x") (auto simp: inv_sem_def)
qed

lemma inv_for_cnt:
  assumes "inv_for c m" and "int (length (a_q m (Waits x))) = (case v of None \<Rightarrow> 0 | Some n \<Rightarrow> max 0 (- n))"
  shows "inv_for c (m\<lparr>a_cnt := (a_cnt m)(x := v)\<rparr>)"
proof -
  let ?m = "m\<lparr>a_cnt := (a_cnt m)(x := v)\<rparr>"
  have p: "inv_place c m" and b: "inv_block c m" and sm: "inv_sem m" using assms(1) by (simp_all add: inv_for_def)
  have "inv_place c ?m" by (rule inv_place_fields [OF p]) simp_all
  moreover have "inv_block c ?m" by (rule inv_block_cong [OF b]) simp_all
  moreover have "inv_sem ?m" using assms(2) by (rule_tac inv_sem_upd [OF sm, of _ x v]) simp_all
  ultimately show ?thesis by (simp add: inv_for_def)
qed

lemma waits_length:
  "inv_for c m \<Longrightarrow> a_cnt m x = Some n \<Longrightarrow> int (length (a_q m (Waits x))) = max 0 (- n)"
  "inv_for c m \<Longrightarrow> a_cnt m x = None \<Longrightarrow> a_q m (Waits x) = []"
  by (auto simp: inv_for_def inv_sem_def dest!: spec [of _ x])

lemma a_signal_inv:
  assumes i: "inv_for (Some c) m" and n: "a_cnt m x = Some n" and e: "a_signal x n m = ARet v m'"
  shows "inv_for (Some c) m'"
proof (cases "a_q m (Waits x)")
  case Nil
  then have "n \<ge> 0" using waits_length(1) [OF i n] by simp
  with Nil e show ?thesis by (auto simp: a_signal_def Let_def intro!: inv_for_cnt [OF i])
next
  case (Cons t ts)
  have p: "inv_place (Some c) m" and b: "inv_block (Some c) m" and sm: "inv_sem m"
    using i by (simp_all add: inv_for_def)
  have len: "int (length ts) = - n - 1" and n0: "n + 1 \<le> 0" using waits_length(1) [OF i n] Cons by auto
  let ?c = "m\<lparr>a_cnt := (a_cnt m)(x \<mapsto> n + 1)\<rparr>"
  let ?m = "put Ready t (take_out (Waits x) t ?c)"
  have m': "m' = ?m" using e Cons n0 by (simp add: a_signal_def Let_def)
  have t: "t \<in> set (a_q ?c (Waits x))" using Cons by simp
  have pc: "inv_place (Some c) ?c" by (rule inv_place_fields [OF p]) simp_all
  have "inv_place (Some c) ?m" using t by (intro inv_place_move [OF pc]) simp_all
  moreover have al: "alive (Some c) ?m = alive (Some c) ?c"
    using t place_distinct [OF pc] by (intro alive_move) simp_all
  then have "alive (Some c) ?m y = alive (Some c) m y" for y by simp
  then have "inv_block (Some c) ?m" by (rule_tac inv_block_cong [OF b]) simp_all
  moreover have "inv_sem ?m"
    using len n0 Cons by (intro inv_sem_upd [OF sm, of _ x "Some (n + 1)"]) auto
  ultimately show ?thesis by (simp add: inv_for_def m')
qed

lemma a_wait_inv:
  assumes i: "inv_for (Some c) m" and n: "a_cnt m x = Some n" and "n - 1 < 0"
  shows "inv_for None (put (Waits x) c (m\<lparr>a_cnt := (a_cnt m)(x \<mapsto> n - 1)\<rparr>))"
proof -
  let ?c = "m\<lparr>a_cnt := (a_cnt m)(x \<mapsto> n - 1)\<rparr>"
  have p: "inv_place (Some c) m" and b: "inv_block (Some c) m" and sm: "inv_sem m"
    using i by (simp_all add: inv_for_def)
  have pc: "inv_place (Some c) ?c" by (rule inv_place_fields [OF p]) simp_all
  then have "inv_place None (put (Waits x) c ?c)" by (intro inv_place_put) simp_all
  moreover have "alive None (put (Waits x) c ?c) = alive (Some c) ?c" by (rule alive_put) simp
  then have "inv_block None (put (Waits x) c ?c)" by (intro inv_block_cong [OF b]) simp_all
  moreover have "inv_sem (put (Waits x) c ?c)"
    using waits_length(1) [OF i n] assms(3) by (intro inv_sem_upd [OF sm, of _ x "Some (n - 1)"]) auto
  ultimately show ?thesis by (simp add: inv_for_def)
qed

end
