(* ===== verification/Thread_Refine.thy ===== *)
theory Thread_Refine
  imports Thread_Inv
begin

text \<open>
  The thread library of \<open>hw1/mythread.c\<close> refines the abstract machine: on a well-formed state every
  call is defined (no null or dangling dereference, no failed assertion, no endless loop) and
  computes what the abstract call computes. The queue operations enter through the contract
  \<open>queue_store\<close> only.
\<close>

section \<open>Well-formed states and their abstraction\<close>

fun qaddr :: "sched \<Rightarrow> role \<Rightarrow> addr option" where
  "qaddr s Ready = Some (ready_queue s)"
| "qaddr s Blocked = Some (blocked_queue s)"
| "qaddr s (Kids t) = map_option children (threads s t)"
| "qaddr s (Waits x) = map_option wait_queue (sems s x)"

text \<open>Every role has its own live queue, and handles are addresses already handed out.\<close>

definition rep_ok :: "sched \<Rightarrow> bool" where
  "rep_ok s \<longleftrightarrow> thread_view_ok (hp s)
     \<and> (\<forall>r q. qaddr s r = Some q \<longrightarrow> q \<in> live_queues (hp s))
     \<and> (\<forall>r r' q. qaddr s r = Some q \<longrightarrow> qaddr s r' = Some q \<longrightarrow> r = r')
     \<and> (\<forall>t th. threads s t = Some th \<longrightarrow> t < brk (hp s))
     \<and> (\<forall>x m. sems s x = Some m \<longrightarrow> x < brk (hp s))"

definition abs_q :: "sched \<Rightarrow> role \<Rightarrow> addr list" where
  "abs_q s r = (case qaddr s r of None \<Rightarrow> [] | Some q \<Rightarrow> threads_of (hp s) q)"

definition abs_state :: "sched \<Rightarrow> amach" where
  "abs_state s = \<lparr>a_q = abs_q s, a_par = (\<lambda>t. map_option parent (threads s t)),
     a_wf = (\<lambda>t. map_option waiting_for (threads s t)), a_cnt = (\<lambda>x. map_option sem_count (sems s x)),
     a_cur = current_thread s\<rparr>"

fun refines :: "outcome \<Rightarrow> aoutcome \<Rightarrow> bool" where
  "refines (Ret v s) (ARet w m) \<longleftrightarrow> v = w \<and> rep_ok s \<and> abs_state s = m"
| "refines (Switch s) (ASwitch m) \<longleftrightarrow> rep_ok s \<and> abs_state s = m"
| "refines (Quit s) (AQuit m) \<longleftrightarrow> abs_state s = m"
| "refines _ _ \<longleftrightarrow> False"

lemma qaddr_frame [simp]:
  "qaddr (s\<lparr>hp := h\<rparr>) = qaddr s" "qaddr (s\<lparr>current_thread := c\<rparr>) = qaddr s"
  by (rule ext, rename_tac r, case_tac r, simp_all)+

lemma rep_ok_current [simp]: "rep_ok (s\<lparr>current_thread := c\<rparr>) = rep_ok s"
  by (simp add: rep_ok_def)

lemma abs_current [simp]: "abs_state (s\<lparr>current_thread := c\<rparr>) = (abs_state s)\<lparr>a_cur := c\<rparr>"
  by (simp add: abs_state_def abs_q_def fun_eq_iff split: option.split)

lemma abs_sel [simp]:
  "a_q (abs_state s) = abs_q s" "a_cur (abs_state s) = current_thread s"
  "a_par (abs_state s) t = map_option parent (threads s t)"
  "a_wf (abs_state s) t = map_option waiting_for (threads s t)"
  "a_cnt (abs_state s) x = map_option sem_count (sems s x)"
  by (simp_all add: abs_state_def)

section \<open>Queue operations on a role\<close>

lemma rep_okD:
  assumes "rep_ok s" and "qaddr s r = Some q"
  shows "thread_view_ok (hp s)" and "q \<in> live_queues (hp s)" and "threads_of (hp s) q = abs_q s r"
  using assms by (auto simp: rep_ok_def abs_q_def)

lemma rep_inj: "rep_ok s \<Longrightarrow> qaddr s r = Some q \<Longrightarrow> qaddr s r' = Some q \<Longrightarrow> r = r'"
  unfolding rep_ok_def by blast

text \<open>Replacing the store by one in which only the queue of role \<open>r\<close> changed.\<close>

lemma rep_store_upd:
  assumes ok: "rep_ok s" and r: "qaddr s r = Some q" and "thread_view_ok h"
    and "live_queues h = live_queues (hp s)" and "threads_of h = (threads_of (hp s))(q := ts)"
    and "brk (hp s) \<le> brk h"
  shows "rep_ok (s\<lparr>hp := h\<rparr>) \<and> abs_state (s\<lparr>hp := h\<rparr>) = (abs_state s)\<lparr>a_q := (abs_q s)(r := ts)\<rparr>"
proof
  show "rep_ok (s\<lparr>hp := h\<rparr>)" using assms by (auto simp: rep_ok_def order.strict_trans2)
  have "abs_q (s\<lparr>hp := h\<rparr>) r' = ((abs_q s)(r := ts)) r'" for r'
    using assms(1,2,5) by (auto simp: abs_q_def rep_ok_def split: option.splits)
  then show "abs_state (s\<lparr>hp := h\<rparr>) = (abs_state s)\<lparr>a_q := (abs_q s)(r := ts)\<rparr>"
    by (simp add: abs_state_def fun_eq_iff)
qed

lemma rep_enqueue:
  assumes "rep_ok s" and "qaddr s r = Some q"
  obtains h where "enqueue q (Some t) (hp s) = Some h" and "rep_ok (s\<lparr>hp := h\<rparr>)"
    and "abs_state (s\<lparr>hp := h\<rparr>) = put r t (abs_state s)"
proof -
  from tq.enq_law [OF rep_okD(1,2) [OF assms], of t] obtain h
    where h: "enqueue q (Some t) (hp s) = Some h" "thread_view_ok h" "live_queues h = live_queues (hp s)"
      "threads_of h = (threads_of (hp s))(q := abs_q s r @ [t])" "brk (hp s) \<le> brk h"
    by (auto simp: rep_okD(3) [OF assms])
  show thesis using that [OF h(1)] rep_store_upd [OF assms h(2-5)] by simp
qed

lemma rep_dequeue:
  assumes "rep_ok s" and "qaddr s r = Some q" and "abs_q s r = t # ts"
  obtains h where "dequeue q (hp s) = Some (Some t, h)" and "rep_ok (s\<lparr>hp := h\<rparr>)"
    and "abs_state (s\<lparr>hp := h\<rparr>) = (abs_state s)\<lparr>a_q := (abs_q s)(r := ts)\<rparr>"
proof -
  have "threads_of (hp s) q = t # ts" using rep_okD(3) [OF assms(1,2)] assms(3) by simp
  from tq.deq_law [OF rep_okD(1,2) [OF assms(1,2)] this] obtain h
    where h: "dequeue q (hp s) = Some (Some t, h)" "thread_view_ok h" "live_queues h = live_queues (hp s)"
      "threads_of h = (threads_of (hp s))(q := ts)" "brk (hp s) \<le> brk h" by auto
  show thesis using that [OF h(1)] rep_store_upd [OF assms(1,2) h(2-5)] by simp
qed

lemma rep_remove:
  assumes "rep_ok s" and "qaddr s r = Some q" and "distinct (abs_q s r)"
  obtains h where "remove_node q (Some t) (hp s) = Some h" and "rep_ok (s\<lparr>hp := h\<rparr>)"
    and "abs_state (s\<lparr>hp := h\<rparr>) = take_out r t (abs_state s)"
proof -
  note v = rep_okD(3) [OF assms(1,2)]
  from tq.rm_law [OF rep_okD(1,2) [OF assms(1,2)], of t] assms(3) obtain h
    where h: "remove_node q (Some t) (hp s) = Some h" "thread_view_ok h" "live_queues h = live_queues (hp s)"
      "threads_of h = (threads_of (hp s))(q := remove1 t (abs_q s r))" "brk (hp s) \<le> brk h"
    by (auto simp: v)
  show thesis using that [OF h(1)] rep_store_upd [OF assms(1,2) h(2-5)] by simp
qed

lemma rep_contains:
  "rep_ok s \<Longrightarrow> qaddr s r = Some q \<Longrightarrow> contains q (Some t) (hp s) = Some (t \<in> set (abs_q s r))"
  using tq.has_law [OF rep_okD(1,2)] by (simp add: rep_okD(3))

lemma rep_is_empty:
  "rep_ok s \<Longrightarrow> qaddr s r = Some q \<Longrightarrow> is_empty q (hp s) = Some (abs_q s r = [])"
  using tq.emp_law [OF rep_okD(1,2)] by (simp add: rep_okD(3))

text \<open>Changing the parent or the \<open>waiting_for\<close> of a thread.\<close>

lemma rep_thread_upd:
  assumes ok: "rep_ok s" and t: "threads s t = Some th" and c: "children th' = children th"
  shows "rep_ok (s\<lparr>threads := (threads s)(t \<mapsto> th')\<rparr>)
    \<and> abs_state (s\<lparr>threads := (threads s)(t \<mapsto> th')\<rparr>)
      = (abs_state s)\<lparr>a_par := (a_par (abs_state s))(t \<mapsto> parent th'),
                      a_wf := (a_wf (abs_state s))(t \<mapsto> waiting_for th')\<rparr>"
proof -
  let ?s = "s\<lparr>threads := (threads s)(t \<mapsto> th')\<rparr>"
  have q: "qaddr ?s r = qaddr s r" for r using t c by (cases r) auto
  show ?thesis using ok t by (auto simp: rep_ok_def q abs_state_def abs_q_def fun_eq_iff split: option.split)
qed

section \<open>Switching threads\<close>

lemma switch_next_refines:
  assumes ok: "rep_ok s" and valid: "\<forall>t \<in> set (abs_q s Ready). threads s t \<noteq> None"
  shows "\<exists>out. switch_next s = Some out \<and> refines out (a_switch (abs_state s))"
proof (cases "abs_q s Ready")
  case (Cons t ts)
  obtain h where h: "dequeue (ready_queue s) (hp s) = Some (Some t, h)" "rep_ok (s\<lparr>hp := h\<rparr>)"
    "abs_state (s\<lparr>hp := h\<rparr>) = (abs_state s)\<lparr>a_q := (abs_q s)(Ready := ts)\<rparr>"
    using rep_dequeue [OF ok _ Cons] by (metis qaddr.simps(1))
  moreover obtain th where "threads s t = Some th" using valid Cons by auto
  ultimately show ?thesis
    using Cons by (simp add: switch_next_def get_next_thread_def a_switch_def)
next
  case Nil
  let ?h = "hp s" and ?rq = "ready_queue s" and ?bq = "blocked_queue s"
  note R = rep_okD [OF ok qaddr.simps(1)] and B = rep_okD [OF ok qaddr.simps(2)]
  have ne: "?rq \<noteq> ?bq" using rep_inj [OF ok qaddr.simps(1), of Blocked] by auto
  have d: "dequeue ?rq ?h = Some (None, ?h)" using tq.deq_empty_law [OF R(1,2)] R(3) Nil by simp
  obtain h1 where h1: "free_queue ?rq ?h = Some h1" "thread_view_ok h1"
    "live_queues h1 = live_queues ?h - {?rq}" "threads_of h1 = (threads_of ?h)(?rq := [])"
    using tq.fr_law [OF R(1,2)] by blast
  then have "?bq \<in> live_queues h1" using B(2) ne by auto
  from tq.fr_law [OF h1(2) this] obtain h2 where h2: "free_queue ?bq h1 = Some h2"
    "threads_of h2 = (threads_of h1)(?bq := [])" by blast
  have "abs_q (s\<lparr>hp := h2\<rparr>) r = ((abs_q s)(Blocked := [])) r" for r
  proof (cases "qaddr s r")
    case None
    then show ?thesis by (auto simp: abs_q_def)
  next
    case (Some q)
    have "q = ?rq \<longleftrightarrow> r = Ready" and "q = ?bq \<longleftrightarrow> r = Blocked"
      using Some rep_inj [OF ok Some] by (metis option.inject qaddr.simps(1), metis option.inject qaddr.simps(2))
    then show ?thesis using Some Nil by (auto simp: abs_q_def h1(4) h2(2))
  qed
  then have "abs_state (s\<lparr>hp := h2\<rparr>) = (abs_state s)\<lparr>a_q := (abs_q s)(Blocked := [])\<rparr>"
    by (simp add: abs_state_def fun_eq_iff)
  with d h1(1) h2(1) Nil show ?thesis
    by (simp add: switch_next_def get_next_thread_def a_switch_def)
qed


section \<open>The calls\<close>

lemma am_invD:
  assumes "am_inv (abs_state s)"
  obtains cur ct where "current_thread s = Some cur" and "threads s cur = Some ct"
    and "inv_for (Some cur) (abs_state s)" and "inv_place (Some cur) (abs_state s)"
proof -
  from assms obtain cur where c: "current_thread s = Some cur" "inv_for (Some cur) (abs_state s)"
    by (auto simp: am_inv_def)
  then have p: "inv_place (Some cur) (abs_state s)" by (simp add: inv_for_def)
  then obtain ct where "threads s cur = Some ct"
    using place_known [OF p, of cur] by (auto simp: alive_def)
  with c p that show thesis by blast
qed

lemma rep_known:
  assumes "inv_place c (abs_state s)" and "waiting_role r"
  shows "\<forall>t \<in> set (abs_q s r). threads s t \<noteq> None"
proof
  fix t
  assume "t \<in> set (abs_q s r)"
  with assms(2) have "alive c (abs_state s) t" unfolding alive_def by auto
  then show "threads s t \<noteq> None" using place_known [OF assms(1), of t] by auto
qed

text \<open>A thread joins a queue and gives up the processor.\<close>

lemma leave_refines:
  assumes ok: "rep_ok s" and q: "qaddr s r = Some q" and p: "inv_place None (put r t (abs_state s))"
  shows "\<exists>h out. enqueue q (Some t) (hp s) = Some h \<and> switch_next (s\<lparr>hp := h\<rparr>) = Some out
    \<and> refines out (a_switch (put r t (abs_state s)))"
proof -
  obtain h where h: "enqueue q (Some t) (hp s) = Some h" "rep_ok (s\<lparr>hp := h\<rparr>)"
    "abs_state (s\<lparr>hp := h\<rparr>) = put r t (abs_state s)" using rep_enqueue [OF ok q] .
  have "\<forall>t \<in> set (abs_q (s\<lparr>hp := h\<rparr>) Ready). threads (s\<lparr>hp := h\<rparr>) t \<noteq> None"
    using p h(3) by (intro rep_known) simp_all
  from switch_next_refines [OF h(2) this] h show ?thesis by auto
qed

lemma MyThreadYield_refines:
  assumes ok: "rep_ok s" and i: "am_inv (abs_state s)" and c: "current_thread s = Some cur"
  shows "\<exists>out. MyThreadYield s = Some out \<and> refines out (a_yield cur (abs_state s))"
proof -
  obtain ct where t: "threads s cur = Some ct" and p: "inv_place (Some cur) (abs_state s)"
    using am_invD [OF i] c by (metis option.inject)
  have "inv_place None (put Ready cur (abs_state s))" using p by (intro inv_place_put) simp_all
  from leave_refines [OF ok _ this] obtain h out where
    "enqueue (ready_queue s) (Some cur) (hp s) = Some h" "switch_next (s\<lparr>hp := h\<rparr>) = Some out"
    "refines out (a_switch (put Ready cur (abs_state s)))" by (metis qaddr.simps(1))
  with c t show ?thesis by (auto simp: MyThreadYield_def a_yield_def)
qed

lemma MyThreadJoin_refines:
  assumes ok: "rep_ok s" and i: "am_inv (abs_state s)" and c: "current_thread s = Some cur"
  shows "\<exists>out. MyThreadJoin t s = Some out \<and> refines out (a_join t cur (abs_state s))"
proof -
  obtain ct where ct: "threads s cur = Some ct" and p: "inv_place (Some cur) (abs_state s)"
    and f: "inv_for (Some cur) (abs_state s)"
    using am_invD [OF i] c by (metis option.inject)
  have b: "contains (children ct) (Some t) (hp s) = Some (t \<in> set (abs_q s (Kids cur)))"
    using ct by (intro rep_contains [OF ok]) simp
  show ?thesis
  proof (cases "t \<in> set (abs_q s (Kids cur))")
    case False
    with b c ct ok show ?thesis by (auto simp: MyThreadJoin_def a_join_def)
  next
    case True
    then have "t \<in> set (a_q (abs_state s) (Kids cur))" by simp
    then obtain tt where tt: "threads s t = Some tt" "parent tt = Some cur"
      using place_kids [OF p, of t cur] by auto
    have t1: "tt\<lparr>parent := Some cur\<rparr> = tt" using tt(2) by simp
    let ?s2 = "s\<lparr>threads := (threads s)(cur \<mapsto> ct\<lparr>waiting_for := Some t\<rparr>)\<rparr>"
    have s2: "rep_ok ?s2" "abs_state ?s2 = (abs_state s)\<lparr>a_wf := (a_wf (abs_state s))(cur \<mapsto> Some t)\<rparr>"
      using rep_thread_upd [OF ok ct, of "ct\<lparr>waiting_for := Some t\<rparr>"] ct
      by (auto simp: abs_state_def fun_upd_idem)
    have "inv_place None (put Blocked cur (abs_state ?s2))"
      using a_join_inv [OF f, of t] True by (simp add: s2 inv_for_def)
    from leave_refines [OF s2(1) _ this] obtain h out where
      "enqueue (blocked_queue s) (Some cur) (hp s) = Some h" "switch_next (?s2\<lparr>hp := h\<rparr>) = Some out"
      "refines out (a_switch (put Blocked cur (abs_state ?s2)))" by fastforce
    moreover have "cur = t \<Longrightarrow> tt\<lparr>parent := Some cur, waiting_for := Some t\<rparr> = ct\<lparr>waiting_for := Some t\<rparr>"
      using ct tt t1 by auto
    then have "MyThreadJoin t s
      = do { h \<leftarrow> enqueue (blocked_queue s) (Some cur) (hp s); switch_next (?s2\<lparr>hp := h\<rparr>) }"
      using b c ct tt True t1 unfolding MyThreadJoin_def
      by (cases "cur = t"; cases tt; cases ct) (simp_all add: fun_upd_idem)
    ultimately show ?thesis using True by (simp add: s2 a_join_def)
  qed
qed

lemma MyThreadJoinAll_refines:
  assumes ok: "rep_ok s" and i: "am_inv (abs_state s)" and c: "current_thread s = Some cur"
  shows "\<exists>out. MyThreadJoinAll s = Some out \<and> refines out (a_join_all cur (abs_state s))"
proof -
  obtain ct where ct: "threads s cur = Some ct" and p: "inv_place (Some cur) (abs_state s)"
    using am_invD [OF i] c by (metis option.inject)
  have b: "is_empty (children ct) (hp s) = Some (abs_q s (Kids cur) = [])"
    using ct by (intro rep_is_empty [OF ok]) simp
  have "inv_place None (put Blocked cur (abs_state s))" using p by (intro inv_place_put) simp_all
  from leave_refines [OF ok _ this] obtain h out where
    "enqueue (blocked_queue s) (Some cur) (hp s) = Some h" "switch_next (s\<lparr>hp := h\<rparr>) = Some out"
    "refines out (a_switch (put Blocked cur (abs_state s)))" by fastforce
  with b c ct ok show ?thesis by (auto simp: MyThreadJoinAll_def a_join_all_def)
qed


lemma leave_parent_refines:
  assumes ok: "rep_ok s" and p: "inv_place (Some cur) (abs_state s)" and ct: "threads s cur = Some ct"
  shows "\<exists>s1. leave_parent cur ct s = Some s1 \<and> rep_ok s1 \<and> abs_state s1 = a_leave cur (abs_state s)
    \<and> threads s1 = threads s"
proof (cases "parent ct")
  case None
  then show ?thesis using ok ct by (simp add: a_leave_def leave_parent_def)
next
  case (Some q)
  then obtain pt where pt: "threads s q = Some pt"
    using place_parent [OF p, of cur q] ct by auto
  have "distinct (abs_q s (Kids q))" using place_distinct [OF p, of "Kids q"] by simp
  then obtain h where "remove_node (children pt) (Some cur) (hp s) = Some h" "rep_ok (s\<lparr>hp := h\<rparr>)"
    "abs_state (s\<lparr>hp := h\<rparr>) = take_out (Kids q) cur (abs_state s)"
    using rep_remove [OF ok, of "Kids q"] pt by auto
  with Some pt ct show ?thesis by (simp add: a_leave_def leave_parent_def)
qed

lemma contains_null:
  assumes ok: "rep_ok s" and r: "qaddr s r = Some q"
  shows "contains q None (hp s) = Some False"
proof -
  obtain x where x: "queues (hp s) q = Some x" using rep_okD(2) [OF assms] by auto
  have "store_ok (hp s)" and "None \<notin> set (view (hp s) q)"
    using rep_okD(1) [OF assms] by (auto simp: thread_view_ok_def)
  with contains_view [of "hp s" q x None] x show ?thesis by simp
qed

lemma unblock_parent_refines:
  assumes ok: "rep_ok s" and pl: "inv_place None (abs_state s)" and ct: "threads s cur = Some ct"
    and pk: "\<And>q. parent ct = Some q \<Longrightarrow> threads s q \<noteq> None"
  shows "\<exists>s1. unblock_parent cur ct s = Some s1 \<and> rep_ok s1 \<and> abs_state s1 = a_wake cur (abs_state s)"
proof (cases "parent ct")
  case None
  then show ?thesis
    using ok ct contains_null [OF ok, of Blocked] by (simp add: unblock_parent_def a_wake_def)
next
  case (Some q)
  then obtain pt where pt: "threads s q = Some pt" using pk by auto
  have b: "contains (blocked_queue s) (Some q) (hp s) = Some (q \<in> set (abs_q s Blocked))"
    by (rule rep_contains [OF ok]) simp
  have e: "is_empty (children pt) (hp s) = Some (abs_q s (Kids q) = [])"
    using pt by (intro rep_is_empty [OF ok]) simp
  show ?thesis
  proof (cases "q \<in> set (abs_q s Blocked) \<and> (abs_q s (Kids q) = [] \<or> waiting_for pt = Some cur)")
    case False
    then have "a_wake cur (abs_state s) = abs_state s" using Some ct pt by (auto simp: a_wake_def)
    with False Some b e pt ok show ?thesis by (auto simp: unblock_parent_def)
  next
    case True
    have "distinct (abs_q s Blocked)" using place_distinct [OF pl, of Blocked] by simp
    then obtain h2 where h2: "remove_node (blocked_queue s) (Some q) (hp s) = Some h2"
      "rep_ok (s\<lparr>hp := h2\<rparr>)" "abs_state (s\<lparr>hp := h2\<rparr>) = take_out Blocked q (abs_state s)"
      using rep_remove [OF ok, of Blocked] by auto
    obtain h3 where h3: "enqueue (ready_queue s) (Some q) h2 = Some h3" "rep_ok (s\<lparr>hp := h3\<rparr>)"
      "abs_state (s\<lparr>hp := h3\<rparr>) = put Ready q (take_out Blocked q (abs_state s))"
      using rep_enqueue [OF h2(2), of Ready "ready_queue s" q] h2(3) by auto
    let ?s1 = "s\<lparr>hp := h3, threads := (threads s)(q \<mapsto> pt\<lparr>waiting_for := None\<rparr>)\<rparr>"
    have par: "(a_par (abs_state s))(q \<mapsto> parent pt) = a_par (abs_state s)"
      using pt by (simp add: fun_upd_idem)
    have "rep_ok ?s1 \<and> abs_state ?s1 = a_wake cur (abs_state s)"
      using rep_thread_upd [OF h3(2), of q pt "pt\<lparr>waiting_for := None\<rparr>"] pt ct Some True h3(3)
      by (auto simp: a_wake_def par)
    with True Some b e pt h2(1) h3(1) show ?thesis by (auto simp: unblock_parent_def)
  qed
qed

lemma MyThreadExit_refines:
  assumes ok: "rep_ok s" and i: "am_inv (abs_state s)" and c: "current_thread s = Some cur"
  shows "\<exists>out. MyThreadExit s = Some out \<and> refines out (a_exit cur (abs_state s))"
proof -
  obtain ct where ct: "threads s cur = Some ct" and p: "inv_place (Some cur) (abs_state s)"
    and f: "inv_for (Some cur) (abs_state s)"
    using am_invD [OF i] c by (metis option.inject)
  from leave_parent_refines [OF ok p ct] obtain s1 where s1: "leave_parent cur ct s = Some s1"
    "rep_ok s1" "abs_state s1 = a_leave cur (abs_state s)" "threads s1 = threads s" by blast
  have pk: "parent ct = Some q \<Longrightarrow> threads s1 q \<noteq> None" for q
    using place_parent [OF p, of cur q] ct by (auto simp: s1(4))
  have "inv_place None (abs_state s1)" using inv_place_leave [OF p] by (simp add: s1(3))
  from unblock_parent_refines [OF s1(2) this _ pk, of cur] ct obtain s2 where
    s2: "unblock_parent cur ct s1 = Some s2" "rep_ok s2"
      "abs_state s2 = a_wake cur (a_leave cur (abs_state s))" by (auto simp: s1(3,4))
  have "inv_place None (abs_state s2)" using a_exit_inv [OF f] by (simp add: s2(3) inv_for_def)
  then have "\<forall>t \<in> set (abs_q s2 Ready). threads s2 t \<noteq> None" by (rule rep_known) simp
  from switch_next_refines [OF s2(2) this] obtain out where
    "switch_next s2 = Some out" "refines out (a_exit cur (abs_state s))"
    by (auto simp: s2(3) a_exit_def)
  with c ct s1(1) s2(1) show ?thesis by (simp add: MyThreadExit_def)
qed


text \<open>Creating a thread or a semaphore: a fresh handle and a fresh, empty queue for a new role.\<close>

lemma rep_new_role:
  assumes ok: "rep_ok s" and m: "malloc (hp s) = (a, h1)" and q: "make_queue nm h1 = (q, h2)"
    and r0: "qaddr s r0 = None" and qa: "qaddr s' = (qaddr s)(r0 \<mapsto> q)" and hp: "hp s' = h2"
    and th: "\<And>t. threads s' t \<noteq> None \<Longrightarrow> threads s t \<noteq> None \<or> t = a"
    and sm: "\<And>x. sems s' x \<noteq> None \<Longrightarrow> sems s x \<noteq> None \<or> x = a"
  shows "rep_ok s'" and "abs_q s' = abs_q s" and "brk (hp s) \<le> a"
proof -
  have v: "thread_view_ok (hp s)" using ok by (simp add: rep_ok_def)
  note h1 = tq.al_law [OF v m]
  note h2 = tq.mk_law [OF conjunct1 [OF h1] q]
  show "brk (hp s) \<le> a" using h1 by simp
  have le: "a < brk h2" "brk (hp s) \<le> brk h2" using h1 h2 by auto
  have new: "qaddr s r \<noteq> Some q" for r using h1 h2 ok by (auto simp: rep_ok_def)
  show "rep_ok s'" unfolding rep_ok_def hp qa
  proof (intro conjI allI impI)
    show "thread_view_ok h2" using h2 by simp
    show "p \<in> live_queues h2" if "((qaddr s)(r0 \<mapsto> q)) r = Some p" for r p
      using that ok h1 h2 by (auto simp: rep_ok_def split: if_splits)
    show "r = r'" if "((qaddr s)(r0 \<mapsto> q)) r = Some p" "((qaddr s)(r0 \<mapsto> q)) r' = Some p" for r r' p
      using that new rep_inj [OF ok, of r p r'] by (auto split: if_splits)
    show "t < brk h2" if "threads s' t = Some x" for t x
      using that th [of t] ok le by (fastforce simp: rep_ok_def)
    show "t < brk h2" if "sems s' t = Some x" for t x
      using that sm [of t] ok le by (fastforce simp: rep_ok_def)
  qed
  show "abs_q s' = abs_q s"
    using h1 h2 r0 by (auto simp: abs_q_def qa hp fun_eq_iff split: option.split)
qed

lemma make_thread_refines:
  assumes ok: "rep_ok s" and m: "make_thread f a l s = (t, s')"
  shows "rep_ok s'" and "threads s t = None" and "\<exists>th. threads s' = (threads s)(t \<mapsto> th)
      \<and> parent th = None \<and> waiting_for th = None"
    and "abs_state s' = (abs_state s)\<lparr>a_par := (a_par (abs_state s))(t \<mapsto> None),
                                     a_wf := (a_wf (abs_state s))(t \<mapsto> None)\<rparr>"
proof -
  obtain h1 q h2 where h: "malloc (hp s) = (t, h1)" "make_queue ''children'' h1 = (q, h2)"
    and s': "s' = s\<lparr>hp := h2, threads := (threads s)(t \<mapsto> \<lparr>th_start = f, th_args = a, uc_link = l,
                       parent = None, children = q, waiting_for = None\<rparr>)\<rparr>"
    using m by (auto simp: make_thread_def split: prod.splits)
  have "brk (hp s) \<le> t" using tq.al_law [OF _ h(1)] ok by (simp add: rep_ok_def)
  then show new: "threads s t = None" using ok by (cases "threads s t") (auto simp: rep_ok_def)
  have qa: "qaddr s' = (qaddr s)(Kids t \<mapsto> q)"
  proof
    fix r
    show "qaddr s' r = ((qaddr s)(Kids t \<mapsto> q)) r" by (cases r) (auto simp: s')
  qed
  note R = rep_new_role [OF ok h _ qa]
  show "rep_ok s'" by (rule R) (use new in \<open>auto simp: s' split: if_splits\<close>)
  have "abs_q s' = abs_q s" by (rule R) (use new in \<open>auto simp: s' split: if_splits\<close>)
  then show "abs_state s' = (abs_state s)\<lparr>a_par := (a_par (abs_state s))(t \<mapsto> None),
                                     a_wf := (a_wf (abs_state s))(t \<mapsto> None)\<rparr>"
    by (simp add: abs_state_def s' fun_eq_iff)
  show "\<exists>th. threads s' = (threads s)(t \<mapsto> th) \<and> parent th = None \<and> waiting_for th = None"
    by (simp add: s' exI [of _ "\<lparr>th_start = f, th_args = a, uc_link = l, parent = None, children = q, waiting_for = None\<rparr>"])
qed

lemma MyThreadCreate_refines:
  assumes ok: "rep_ok s" and i: "am_inv (abs_state s)" and c: "current_thread s = Some cur"
  shows "\<exists>t s'. MyThreadCreate f a s = Some (t, s') \<and> threads s t = None \<and> rep_ok s'
    \<and> abs_state s' = a_create t cur (abs_state s)"
proof -
  obtain ct where ct: "threads s cur = Some ct" using am_invD [OF i] c by (metis option.inject)
  obtain t s1 where m: "make_thread f a (Some cur) s = (t, s1)" by fastforce
  note M = make_thread_refines [OF ok m]
  then obtain th where th: "threads s1 = (threads s)(t \<mapsto> th)" "waiting_for th = None" by blast
  have ne: "t \<noteq> cur" using M(2) ct by auto
  let ?s2 = "s1\<lparr>threads := (threads s1)(t \<mapsto> th\<lparr>parent := Some cur\<rparr>)\<rparr>"
  have s2: "rep_ok ?s2" "abs_state ?s2 = (abs_state s)\<lparr>a_par := (a_par (abs_state s))(t \<mapsto> Some cur),
      a_wf := (a_wf (abs_state s))(t \<mapsto> None)\<rparr>"
    using rep_thread_upd [OF M(1), of t th "th\<lparr>parent := Some cur\<rparr>"] th M(4) by auto
  have q: "qaddr ?s2 (Kids cur) = Some (children ct)" using ct ne th by simp
  obtain h1 where h1: "enqueue (children ct) (Some t) (hp ?s2) = Some h1" "rep_ok (?s2\<lparr>hp := h1\<rparr>)"
    "abs_state (?s2\<lparr>hp := h1\<rparr>) = put (Kids cur) t (abs_state ?s2)"
    using rep_enqueue [OF s2(1) q] .
  obtain h2 where h2: "enqueue (ready_queue ?s2) (Some t) h1 = Some h2" "rep_ok (?s2\<lparr>hp := h2\<rparr>)"
    "abs_state (?s2\<lparr>hp := h2\<rparr>) = put Ready t (put (Kids cur) t (abs_state ?s2))"
    using rep_enqueue [OF h1(2), of Ready "ready_queue ?s2" t] h1(3) by auto
  have "MyThreadCreate f a s = Some (t, ?s2\<lparr>hp := h2\<rparr>)"
    using c ct m th h1(1) h2(1) by (simp add: MyThreadCreate_def)
  with h2 s2(2) M(2) show ?thesis by (auto simp: a_create_def)
qed

lemma MySemaphoreInit_refines:
  assumes ok: "rep_ok s" and m: "MySemaphoreInit v s = (p, s')"
  shows "rep_ok s'" and "p = None \<Longrightarrow> s' = s" and "current_thread s' = current_thread s"
    and "p = Some x \<Longrightarrow> 0 \<le> v \<and> sems s x = None \<and> abs_state s' = a_sem_init x v (abs_state s)"
proof -
  have "rep_ok s' \<and> (p = None \<longrightarrow> s' = s) \<and> current_thread s' = current_thread s
    \<and> (\<forall>x. p = Some x \<longrightarrow> 0 \<le> v \<and> sems s x = None \<and> abs_state s' = a_sem_init x v (abs_state s))"
  proof (cases "v < 0")
    case True
    with ok m show ?thesis by (simp add: MySemaphoreInit_def)
  next
    case False
    then obtain a h1 q h2 where h: "malloc (hp s) = (a, h1)" "make_queue ''wait_queue'' h1 = (q, h2)"
      and p: "p = Some a" and s': "s' = s\<lparr>hp := h2, sems := (sems s)(a \<mapsto> \<lparr>sem_count = v, wait_queue = q\<rparr>)\<rparr>"
      using m by (auto simp: MySemaphoreInit_def split: prod.splits)
    have "brk (hp s) \<le> a" using tq.al_law [OF _ h(1)] ok by (simp add: rep_ok_def)
    then have new: "sems s a = None" using ok by (cases "sems s a") (auto simp: rep_ok_def)
    have qa: "qaddr s' = (qaddr s)(Waits a \<mapsto> q)"
    proof
      fix r
      show "qaddr s' r = ((qaddr s)(Waits a \<mapsto> q)) r" by (cases r) (auto simp: s')
    qed
    note R = rep_new_role [OF ok h _ qa]
    have "rep_ok s'" by (rule R) (use new in \<open>auto simp: s' split: if_splits\<close>)
    moreover have "abs_q s' = abs_q s" by (rule R) (use new in \<open>auto simp: s' split: if_splits\<close>)
    ultimately show ?thesis using False p new by (auto simp: a_sem_init_def abs_state_def s' fun_eq_iff)
  qed
  then show "rep_ok s'" and "p = None \<Longrightarrow> s' = s" and "current_thread s' = current_thread s"
    and "p = Some x \<Longrightarrow> 0 \<le> v \<and> sems s x = None \<and> abs_state s' = a_sem_init x v (abs_state s)" by auto
qed


lemma rep_sem_upd:
  assumes ok: "rep_ok s" and x: "sems s x = Some m"
  shows "rep_ok (s\<lparr>sems := (sems s)(x \<mapsto> m\<lparr>sem_count := n\<rparr>)\<rparr>)
    \<and> abs_state (s\<lparr>sems := (sems s)(x \<mapsto> m\<lparr>sem_count := n\<rparr>)\<rparr>)
      = (abs_state s)\<lparr>a_cnt := (a_cnt (abs_state s))(x \<mapsto> n)\<rparr>"
proof -
  let ?s = "s\<lparr>sems := (sems s)(x \<mapsto> m\<lparr>sem_count := n\<rparr>)\<rparr>"
  have q: "qaddr ?s r = qaddr s r" for r using x by (cases r) auto
  show ?thesis using ok x by (auto simp: rep_ok_def q abs_state_def abs_q_def fun_eq_iff split: option.split)
qed

lemma MySemaphoreSignal_refines:
  assumes ok: "rep_ok s" and i: "am_inv (abs_state s)" and x: "sems s x = Some m"
    and n: "int_range (sem_count m + 1)"
  shows "\<exists>out. MySemaphoreSignal x s = Some out \<and> refines out (a_signal x (sem_count m) (abs_state s))"
proof -
  let ?n = "sem_count m + 1" and ?s1 = "s\<lparr>sems := (sems s)(x \<mapsto> m\<lparr>sem_count := sem_count m + 1\<rparr>)\<rparr>"
  have s1: "rep_ok ?s1" "abs_state ?s1 = (abs_state s)\<lparr>a_cnt := (a_cnt (abs_state s))(x \<mapsto> ?n)\<rparr>"
    using rep_sem_upd [OF ok x, of ?n] by auto
  obtain cur where f: "inv_for (Some cur) (abs_state s)" using am_invD [OF i] .
  have len: "int (length (abs_q s (Waits x))) = max 0 (- sem_count m)"
    using waits_length(1) [OF f, of x] x by simp
  show ?thesis
  proof (cases "abs_q s (Waits x)")
    case Nil
    then have "\<not> ?n \<le> 0" using len by simp
    with Nil x n s1 show ?thesis by (simp add: MySemaphoreSignal_def a_signal_def Let_def)
  next
    case (Cons t ts)
    then have le: "?n \<le> 0" using len by auto
    have q: "qaddr ?s1 (Waits x) = Some (wait_queue m)" by simp
    have w: "abs_q ?s1 (Waits x) = t # ts" using Cons s1(2) by (simp flip: abs_sel(1))
    obtain h1 where h1: "dequeue (wait_queue m) (hp ?s1) = Some (Some t, h1)" "rep_ok (?s1\<lparr>hp := h1\<rparr>)"
      "abs_state (?s1\<lparr>hp := h1\<rparr>) = (abs_state ?s1)\<lparr>a_q := (abs_q ?s1)(Waits x := ts)\<rparr>"
      using rep_dequeue [OF s1(1) q w] .
    obtain h2 where h2: "enqueue (ready_queue ?s1) (Some t) h1 = Some h2" "rep_ok (?s1\<lparr>hp := h2\<rparr>)"
      "abs_state (?s1\<lparr>hp := h2\<rparr>) = put Ready t (abs_state (?s1\<lparr>hp := h1\<rparr>))"
      using rep_enqueue [OF h1(2), of Ready "ready_queue ?s1" t] by auto
    have aq: "abs_q ?s1 = abs_q s" using s1(2) by (simp flip: abs_sel(1))
    have "MySemaphoreSignal x s = Some (Ret 0 (?s1\<lparr>hp := h2\<rparr>))"
      using x n le h1(1) h2(1) by (simp add: MySemaphoreSignal_def)
    with h2 h1(3) s1(2) Cons le aq show ?thesis by (simp add: a_signal_def Let_def)
  qed
qed

lemma MySemaphoreWait_refines:
  assumes ok: "rep_ok s" and i: "am_inv (abs_state s)" and c: "current_thread s = Some cur"
    and x: "sems s x = Some m" and n: "int_range (sem_count m - 1)"
  shows "\<exists>out. MySemaphoreWait x s = Some out \<and> refines out (a_wait x (sem_count m) cur (abs_state s))"
proof -
  let ?n = "sem_count m - 1" and ?s1 = "s\<lparr>sems := (sems s)(x \<mapsto> m\<lparr>sem_count := sem_count m - 1\<rparr>)\<rparr>"
  have s1: "rep_ok ?s1" "abs_state ?s1 = (abs_state s)\<lparr>a_cnt := (a_cnt (abs_state s))(x \<mapsto> ?n)\<rparr>"
    using rep_sem_upd [OF ok x, of ?n] by auto
  obtain ct where f: "inv_for (Some cur) (abs_state s)" and ct: "threads s cur = Some ct"
    using am_invD [OF i] c by (metis option.inject)
  show ?thesis
  proof (cases "?n < 0")
    case False
    with x n s1 show ?thesis by (simp add: MySemaphoreWait_def a_wait_def Let_def)
  next
    case True
    have "inv_place None (put (Waits x) cur (abs_state ?s1))"
      using a_wait_inv [OF f, of x "sem_count m"] x True by (simp add: s1(2) inv_for_def)
    from leave_refines [OF s1(1) _ this, of "wait_queue m"] obtain h out where
      "enqueue (wait_queue m) (Some cur) (hp s) = Some h" "switch_next (?s1\<lparr>hp := h\<rparr>) = Some out"
      "refines out (a_switch (put (Waits x) cur (abs_state ?s1)))" by auto
    with x n True c ct show ?thesis by (simp add: MySemaphoreWait_def a_wait_def Let_def s1(2))
  qed
qed

lemma MySemaphoreDestroy_refines:
  assumes ok: "rep_ok s" and x: "sems s x = Some m"
  shows "\<exists>out. MySemaphoreDestroy x s = Some out \<and> refines out (a_destroy x (abs_state s))"
proof -
  have q: "qaddr s (Waits x) = Some (wait_queue m)" using x by simp
  note e = rep_is_empty [OF ok q]
  show ?thesis
  proof (cases "abs_q s (Waits x) = []")
    case False
    with x e ok show ?thesis by (simp add: MySemaphoreDestroy_def a_destroy_def)
  next
    case True
    obtain h where h: "free_queue (wait_queue m) (hp s) = Some h" "thread_view_ok h"
      "live_queues h = live_queues (hp s) - {wait_queue m}" "threads_of h = (threads_of (hp s))(wait_queue m := [])"
      "brk (hp s) \<le> brk h"
      using tq.fr_law [OF rep_okD(1,2) [OF ok q]] by blast
    let ?s = "s\<lparr>hp := h, sems := (sems s)(x := None)\<rparr>"
    have qa: "qaddr ?s r = (if r = Waits x then None else qaddr s r)" for r by (cases r) auto
    have ne: "p \<noteq> wait_queue m" if "qaddr s r = Some p" "r \<noteq> Waits x" for r p
      using that rep_inj [OF ok q, of r] by auto
    have "rep_ok ?s" using ok h ne
      by (auto simp: rep_ok_def qa order.strict_trans2 split: if_splits)
    moreover have aq: "abs_q ?s r = abs_q s r" for r
      using True ne by (auto simp: abs_q_def qa h(4) split: option.split)
    ultimately show ?thesis using x e True h(1)
      by (auto simp: MySemaphoreDestroy_def a_destroy_def abs_state_def fun_eq_iff)
  qed
qed

section \<open>Start-up\<close>

text \<open>The process before \<open>MyThreadInit\<close>: no threads, and semaphores on which nobody waits.\<close>

definition pre_ok :: "sched \<Rightarrow> bool" where
  "pre_ok s \<longleftrightarrow> thread_view_ok (hp s) \<and> threads s = Map.empty
     \<and> (\<forall>x m. sems s x = Some m \<longrightarrow> wait_queue m \<in> live_queues (hp s) \<and> x < brk (hp s)
          \<and> 0 \<le> sem_count m \<and> threads_of (hp s) (wait_queue m) = [])
     \<and> (\<forall>x m y n. sems s x = Some m \<longrightarrow> sems s y = Some n \<longrightarrow> wait_queue m = wait_queue n \<longrightarrow> x = y)"

lemma pre_ok_boot: "pre_ok boot"
  using empty_store_ok
  by (auto simp: pre_ok_def boot_def thread_view_ok_def view_def cells_def empty_store_def)

lemma pre_ok_sem:
  assumes ok: "pre_ok s"
  shows "pre_ok (snd (MySemaphoreInit v s))"
proof (cases "v < 0")
  case True
  with ok show ?thesis by (simp add: MySemaphoreInit_def)
next
  case False
  obtain a h1 q h2 where h: "malloc (hp s) = (a, h1)" "make_queue ''wait_queue'' h1 = (q, h2)"
    by fastforce
  have v: "thread_view_ok (hp s)" using ok by (simp add: pre_ok_def)
  note h1 = tq.al_law [OF v h(1)]
  note h2 = tq.mk_law [OF conjunct1 [OF h1] h(2)]
  have old: "wait_queue m \<in> live_queues (hp s)" "x < brk (hp s)" "0 \<le> sem_count m"
    "threads_of (hp s) (wait_queue m) = []" "wait_queue m \<noteq> q" if "sems s x = Some m" for x m
    using that ok h1 h2 by (auto simp: pre_ok_def)
  let ?s = "s\<lparr>hp := h2, sems := (sems s)(a \<mapsto> \<lparr>sem_count = v, wait_queue = q\<rparr>)\<rparr>"
  have "snd (MySemaphoreInit v s) = ?s" using False h by (simp add: MySemaphoreInit_def)
  moreover have "pre_ok ?s" unfolding pre_ok_def
  proof (intro conjI allI impI)
    show "thread_view_ok (hp ?s)" and "threads ?s = Map.empty" using h2 ok by (simp_all add: pre_ok_def)
    fix x m
    assume x: "sems ?s x = Some m"
    show "wait_queue m \<in> live_queues (hp ?s)" "0 \<le> sem_count m" "threads_of (hp ?s) (wait_queue m) = []"
      using x h1 h2 old [of x m] False by (auto split: if_splits)
    show "x < brk (hp ?s)" using x h1 h2 old(2) [of x m] by (cases "x = a") auto
    show "x = y" if "sems ?s y = Some n" "wait_queue m = wait_queue n" for y n
      using x that old(5) [of x m] old(5) [of y n] ok by (auto simp: pre_ok_def split: if_splits)
  qed
  ultimately show ?thesis by simp
qed

lemma pre_ok_sems: "pre_ok s \<Longrightarrow> pre_ok (make_sems vs s)"
  by (induction vs arbitrary: s) (simp_all add: pre_ok_sem)

lemma init_ok:
  assumes ok: "pre_ok s"
  shows "rep_ok (MyThreadInit f a s) \<and> am_inv (abs_state (MyThreadInit f a s))"
proof -
  obtain rq h1 bq h2 where h: "make_queue ''ready_queue'' (hp s) = (rq, h1)"
    "make_queue ''blocked_queue'' h1 = (bq, h2)" by fastforce
  have v: "thread_view_ok (hp s)" and nt: "threads s = Map.empty" using ok by (simp_all add: pre_ok_def)
  note h1 = tq.mk_law [OF v h(1)]
  note h2 = tq.mk_law [OF conjunct1 [OF h1] h(2)]
  let ?s0 = "s\<lparr>hp := h2, ready_queue := rq, blocked_queue := bq\<rparr>"
  have live: "wait_queue m \<in> live_queues (hp s)" "x < brk (hp s)" "0 \<le> sem_count m"
    "threads_of (hp s) (wait_queue m) = []" if "sems s x = Some m" for x m
    using that ok by (auto simp: pre_ok_def)
  have qlive: "qaddr ?s0 r = Some q \<Longrightarrow> q \<in> live_queues h2 \<and> threads_of h2 q = []" for r q
    using h1 h2 live by (cases r) (auto simp: nt)
  have inj: "r = r'" if "qaddr ?s0 r = Some q" "qaddr ?s0 r' = Some q" for r r' q
  proof -
    have "rq \<noteq> bq" using h1 h2 by blast
    moreover have "wait_queue m \<noteq> rq \<and> wait_queue m \<noteq> bq" if "sems s x = Some m" for x m
      using live(1) [OF that] h1 h2 by blast
    moreover have "x = y" if "sems s x = Some m" "sems s y = Some n" "wait_queue m = wait_queue n" for x m y n
      using that ok unfolding pre_ok_def by blast
    ultimately show ?thesis using that by (cases r; cases r') (auto simp: nt)
  qed
  have r0: "rep_ok ?s0" unfolding rep_ok_def
  proof (intro conjI allI impI)
    show "thread_view_ok (hp ?s0)" using h2 by simp
    show "x < brk (hp ?s0)" if "sems ?s0 x = Some m" for x m
      using live(2) [of x m] that h1 h2 by auto
  qed (use qlive inj nt in auto)
  have q0: "abs_q ?s0 r = []" for r using qlive [of r] by (auto simp: abs_q_def split: option.split)
  obtain t s1 where m: "make_thread f a None ?s0 = (t, s1)" by fastforce
  note M = make_thread_refines [OF r0 m]
  have s: "MyThreadInit f a s = s1\<lparr>current_thread := Some t\<rparr>"
    using h m by (simp add: MyThreadInit_def)
  let ?m = "abs_state (MyThreadInit f a s)"
  have q: "a_q ?m r = []" for r using M(4) q0 by (simp add: s del: abs_sel) (simp add: abs_state_def)
  have par: "a_par ?m = [t \<mapsto> None]" and wf: "a_wf ?m = [t \<mapsto> None]" and cur: "a_cur ?m = Some t"
    and cnt: "a_cnt ?m = a_cnt (abs_state s)"
    using M(4) nt by (simp_all add: s abs_state_def del: abs_sel)
  have "inv_place (Some t) ?m" unfolding inv_place_def alive_def q par wf by auto
  moreover have "inv_block (Some t) ?m" unfolding inv_block_def alive_def q wf by auto
  moreover have "inv_sem ?m"
    unfolding inv_sem_def q cnt by (auto simp: max_def split: option.split dest!: live(3))
  ultimately show ?thesis using M(1) cur by (simp add: s am_inv_def inv_for_def del: abs_sel)
qed


section \<open>Every call of a well-formed state\<close>

text \<open>The state after an outcome is well formed, if a thread is left to run.\<close>

fun good_outcome :: "outcome \<Rightarrow> bool" where
  "good_outcome (Ret v s) \<longleftrightarrow> rep_ok s \<and> am_inv (abs_state s)"
| "good_outcome (Switch s) \<longleftrightarrow> rep_ok s \<and> am_inv (abs_state s)"
| "good_outcome (Quit s) \<longleftrightarrow> True"

lemma refines_switch_good:
  assumes "inv_for None m" and "refines out (a_switch m)"
  shows "good_outcome out"
proof (cases "a_switch m")
  case (ASwitch m')
  with a_switch_inv [OF assms(1) this] assms(2) show ?thesis by (cases out) auto
next
  case (AQuit m')
  with assms(2) show ?thesis by (cases out) auto
next
  case (ARet v m')
  then show ?thesis by (auto simp: a_switch_def split: list.splits)
qed

lemma refines_ret_good:
  assumes "refines out (ARet v m)" and "inv_for (a_cur m) m" and "a_cur m \<noteq> None"
  shows "good_outcome out"
  using assms by (cases out) (auto simp: am_inv_def)

lemma a_signal_ret: "\<exists>m'. a_signal x n m = ARet 0 m' \<and> a_cur m' = a_cur m"
  by (simp add: a_signal_def Let_def split: list.split)

lemma exec_call_good:
  assumes ok: "rep_ok s" and i: "am_inv (abs_state s)" and v: "call_ok s c"
  shows "\<exists>out. exec_call c s = Some out \<and> good_outcome out"
proof -
  obtain cur where c: "current_thread s = Some cur" and f: "inv_for (Some cur) (abs_state s)"
    using am_invD [OF i] .
  show ?thesis
  proof (cases c)
    case (Create st a)
    from MyThreadCreate_refines [OF ok i c, of st a] obtain t s' where
      t: "MyThreadCreate st a s = Some (t, s')" "threads s t = None" "rep_ok s'"
        "abs_state s' = a_create t cur (abs_state s)" by blast
    have "inv_for (Some cur) (abs_state s')" unfolding t(4) using t(2) by (intro a_create_inv [OF f]) simp
    moreover have "a_cur (abs_state s') = Some cur" unfolding t(4) by (simp add: a_create_def c)
    ultimately show ?thesis using Create t(1,3) by (simp add: am_inv_def)
  next
    case Yield
    with MyThreadYield_refines [OF ok i c] show ?thesis
      by (auto simp: a_yield_def dest: refines_switch_good [OF a_yield_inv [OF f], unfolded abs_sel])
  next
    case (Join t)
    with MyThreadJoin_refines [OF ok i c, of t] f c refines_switch_good [OF a_join_inv [OF f, of t]]
    show ?thesis by (auto simp: a_join_def split: if_splits dest: refines_ret_good)
  next
    case JoinAll
    with MyThreadJoinAll_refines [OF ok i c] f c show ?thesis
      by (auto simp: a_join_all_def split: if_splits
          dest: refines_switch_good [OF a_join_all_inv [OF f, unfolded abs_sel]] refines_ret_good)
  next
    case Exit
    with MyThreadExit_refines [OF ok i c] show ?thesis
      by (auto simp: a_exit_def dest: refines_switch_good [OF a_exit_inv [OF f], unfolded abs_sel])
  next
    case (SemInit n)
    obtain p s' where m: "MySemaphoreInit n s = (p, s')" by fastforce
    note M = MySemaphoreInit_refines [OF ok m]
    have "rep_ok s' \<and> am_inv (abs_state s')"
    proof (cases p)
      case None
      with M(2) ok i show ?thesis by simp
    next
      case (Some x)
      with M(4) have x: "0 \<le> n" "sems s x = None" "abs_state s' = a_sem_init x n (abs_state s)" by auto
      have "inv_for (Some cur) (abs_state s')"
        unfolding x(3) a_sem_init_def using x(1,2) waits_length(2) [OF f, of x]
        by (intro inv_for_cnt [OF f]) auto
      with M(1,3) c show ?thesis by (simp add: am_inv_def)
    qed
    with SemInit m show ?thesis by simp
  next
    case (Signal x)
    with v obtain m where m: "sems s x = Some m" "int_range (sem_count m + 1)"
      by (auto split: option.splits)
    from MySemaphoreSignal_refines [OF ok i m] obtain out where
      out: "MySemaphoreSignal x s = Some out" "refines out (a_signal x (sem_count m) (abs_state s))" by blast
    obtain w m' where r: "a_signal x (sem_count m) (abs_state s) = ARet w m'" and cu: "a_cur m' = Some cur"
      using a_signal_ret [of x "sem_count m" "abs_state s"] c by auto
    have "inv_for (Some cur) m'" using r m(1) by (intro a_signal_inv [OF f]) auto
    with out r cu Signal show ?thesis by (auto intro: refines_ret_good)
  next
    case (Wait x)
    with v obtain m where m: "sems s x = Some m" "int_range (sem_count m - 1)"
      by (auto split: option.splits)
    from MySemaphoreWait_refines [OF ok i c m] obtain out where
      out: "MySemaphoreWait x s = Some out" "refines out (a_wait x (sem_count m) cur (abs_state s))" by blast
    have n: "a_cnt (abs_state s) x = Some (sem_count m)" using m(1) by simp
    show ?thesis
    proof (cases "sem_count m - 1 < 0")
      case True
      with out Wait refines_switch_good [OF a_wait_inv [OF f n True]] show ?thesis
        by (auto simp: a_wait_def Let_def)
    next
      case False
      then have "inv_for (Some cur) ((abs_state s)\<lparr>a_cnt := (a_cnt (abs_state s))(x \<mapsto> sem_count m - 1)\<rparr>)"
        using waits_length(1) [OF f n] by (intro inv_for_cnt [OF f]) auto
      with out Wait False c show ?thesis
        by (auto simp: a_wait_def Let_def dest!: refines_ret_good)
    qed
  next
    case (Destroy x)
    with v obtain m where m: "sems s x = Some m" by auto
    from MySemaphoreDestroy_refines [OF ok m] obtain out where
      out: "MySemaphoreDestroy x s = Some out" "refines out (a_destroy x (abs_state s))" by blast
    have "abs_q s (Waits x) = [] \<Longrightarrow> inv_for (Some cur) ((abs_state s)\<lparr>a_cnt := (a_cnt (abs_state s))(x := None)\<rparr>)"
      by (intro inv_for_cnt [OF f]) simp
    with out Destroy f c show ?thesis
      by (auto simp: a_destroy_def split: if_splits dest!: refines_ret_good)
  qed
qed

lemma exec_call_defined_ok: "exec_call c s = Some out \<Longrightarrow> call_ok s c"
  by (cases c) (auto simp: MySemaphoreSignal_def MySemaphoreWait_def MySemaphoreDestroy_def
      bind_eq_Some_conv split: option.splits)

lemma reachable_good: "reachable s \<Longrightarrow> rep_ok s \<and> am_inv (abs_state s)"
proof (induction rule: reachable.induct)
  case (start f a vs)
  show ?case by (rule init_ok) (intro pre_ok_sems pre_ok_boot)
next
  case (ret s c v s')
  with exec_call_good [of s c] exec_call_defined_ok [OF ret.hyps(2)] show ?case by auto
next
  case (switch s c s')
  with exec_call_good [of s c] exec_call_defined_ok [OF switch.hyps(2)] show ?case by auto
qed

end
