(* ===== verification/Thread_Props.thy ===== *)
theory Thread_Props
  imports Thread_Refine
begin

text \<open>
  Properties of the thread library of \<open>hw1\<close> over its reachable states: safety of every call, the
  refinement of the abstract machine, where threads are, what blocks and wakes them, and in which
  order they run.
\<close>

section \<open>The abstract call\<close>

definition on_cur :: "(addr \<Rightarrow> amach \<Rightarrow> aoutcome) \<Rightarrow> amach \<Rightarrow> aoutcome" where
  "on_cur f m = (case a_cur m of None \<Rightarrow> AQuit m | Some cur \<Rightarrow> f cur m)"

definition count_of :: "amach \<Rightarrow> addr \<Rightarrow> int" where
  "count_of m x = (case a_cnt m x of None \<Rightarrow> 0 | Some n \<Rightarrow> n)"

text \<open>What a call promises; \<open>new\<close> is the handle of the object it creates.\<close>

fun a_call :: "call \<Rightarrow> addr \<Rightarrow> amach \<Rightarrow> aoutcome" where
  "a_call (Create f a) new m = on_cur (\<lambda>cur m. ARet (ptr_value (Some new)) (a_create new cur m)) m"
| "a_call Yield new m = on_cur a_yield m"
| "a_call (Join t) new m = on_cur (a_join t) m"
| "a_call JoinAll new m = on_cur a_join_all m"
| "a_call Exit new m = on_cur a_exit m"
| "a_call (SemInit v) new m =
     (if v < 0 then ARet (ptr_value None) m else ARet (ptr_value (Some new)) (a_sem_init new v m))"
| "a_call (Signal x) new m = a_signal x (count_of m x) m"
| "a_call (Wait x) new m = on_cur (a_wait x (count_of m x)) m"
| "a_call (Destroy x) new m = a_destroy x m"

lemma exec_call_refines:
  assumes ok: "rep_ok s" and i: "am_inv (abs_state s)" and v: "call_ok s c"
  shows "\<exists>out new. exec_call c s = Some out \<and> refines out (a_call c new (abs_state s))"
proof -
  obtain cur where c: "current_thread s = Some cur" using am_invD [OF i] .
  have cnt: "sems s x = Some m \<Longrightarrow> count_of (abs_state s) x = sem_count m" for x m
    by (simp add: count_of_def)
  show ?thesis
  proof (cases c)
    case (Create st a)
    with MyThreadCreate_refines [OF ok i c, of st a] c show ?thesis by (auto simp: on_cur_def)
  next
    case (SemInit n)
    obtain p s' where m: "MySemaphoreInit n s = (p, s')" by fastforce
    note M = MySemaphoreInit_refines [OF ok m]
    have "p = None \<longleftrightarrow> n < 0" using m by (auto simp: MySemaphoreInit_def split: if_splits prod.splits)
    with M SemInit m show ?thesis by (cases p) (auto simp: ptr_value_def)
  next
    case (Signal x)
    with v obtain m where "sems s x = Some m" "int_range (sem_count m + 1)" by (auto split: option.splits)
    with MySemaphoreSignal_refines [OF ok i] Signal show ?thesis by (simp add: cnt)
  next
    case (Wait x)
    with v obtain m where "sems s x = Some m" "int_range (sem_count m - 1)" by (auto split: option.splits)
    with MySemaphoreWait_refines [OF ok i c] Wait c show ?thesis by (simp add: cnt on_cur_def)
  next
    case (Destroy x)
    with v MySemaphoreDestroy_refines [OF ok] show ?thesis by auto
  qed (use MyThreadYield_refines [OF ok i c] MyThreadJoin_refines [OF ok i c]
      MyThreadJoinAll_refines [OF ok i c] MyThreadExit_refines [OF ok i c] c in \<open>auto simp: on_cur_def\<close>)
qed

section \<open>The ready queue over a run\<close>

text \<open>A call that returns only appends to the ready queue; one that switches takes its head.\<close>

fun ready_step :: "addr list \<Rightarrow> aoutcome \<Rightarrow> bool" where
  "ready_step ts (ARet v m) \<longleftrightarrow> (\<exists>us. a_q m Ready = ts @ us)"
| "ready_step ts (ASwitch m) \<longleftrightarrow> (\<forall>u vs. ts = u # vs \<longrightarrow> a_cur m = Some u \<and> (\<exists>us. a_q m Ready = vs @ us))"
| "ready_step ts (AQuit m) \<longleftrightarrow> ts = []"

lemma ready_step_switch: "a_q m Ready = ts @ us \<Longrightarrow> ready_step ts (a_switch m)"
  by (cases ts) (auto simp: a_switch_def split: list.split)

lemma wake_ready: "\<exists>us. a_q (a_wake t (a_leave t m)) Ready = a_q m Ready @ us"
  by (auto simp: a_wake_def a_leave_def split: option.split)

lemma a_call_ready: "a_cur m \<noteq> None \<Longrightarrow> ready_step (a_q m Ready) (a_call c new m)"
proof (cases c)
  case Exit
  assume "a_cur m \<noteq> None"
  then obtain cur where "a_cur m = Some cur" by auto
  with wake_ready [of cur m] Exit show ?thesis
    by (auto simp: on_cur_def a_exit_def intro: ready_step_switch)
qed (auto simp: on_cur_def a_create_def a_yield_def a_join_def a_join_all_def a_sem_init_def
    a_signal_def a_wait_def a_destroy_def Let_def intro!: ready_step_switch split: list.split)

text \<open>\<open>run s n s'\<close>: from \<open>s\<close> to \<open>s'\<close> by calls of which \<open>n\<close> switched threads.\<close>

inductive run :: "sched \<Rightarrow> nat \<Rightarrow> sched \<Rightarrow> bool" where
  refl: "run s 0 s"
| ret: "run s n s' \<Longrightarrow> exec_call c s' = Some (Ret v s'') \<Longrightarrow> run s n s''"
| switch: "run s n s' \<Longrightarrow> exec_call c s' = Some (Switch s'') \<Longrightarrow> run s (Suc n) s''"

lemma call_ready:
  assumes "reachable s" and e: "exec_call c s = Some out"
  shows "\<exists>ao. refines out ao \<and> ready_step (abs_q s Ready) ao"
proof -
  have g: "rep_ok s" "am_inv (abs_state s)" using reachable_good [OF assms(1)] by auto
  obtain new where "refines out (a_call c new (abs_state s))"
    using exec_call_refines [OF g exec_call_defined_ok [OF e]] e by auto
  moreover have "a_cur (abs_state s) \<noteq> None" using g(2) by (simp add: am_inv_def)
  ultimately show ?thesis using a_call_ready [of "abs_state s" c new] by auto
qed

lemma run_ready:
  assumes "run s n s'" and "reachable s" and "n \<le> length (abs_q s Ready)"
  shows "reachable s' \<and> (\<exists>us. abs_q s' Ready = drop n (abs_q s Ready) @ us)"
  using assms
proof (induction rule: run.induct)
  case (refl s)
  then show ?case by simp
next
  case (ret s n s' c v s'')
  then obtain us where r: "reachable s'" "abs_q s' Ready = drop n (abs_q s Ready) @ us" by auto
  from call_ready [OF r(1) ret.hyps(2)] obtain ao where
    "refines (Ret v s'') ao" "ready_step (abs_q s' Ready) ao" by blast
  then have "\<exists>us'. abs_q s'' Ready = drop n (abs_q s Ready) @ us'"
    using r(2) by (cases ao) auto
  with r(1) ret.hyps(2) show ?case by (auto intro: reachable.ret)
next
  case (switch s n s' c s'')
  then obtain us where r: "reachable s'" "abs_q s' Ready = drop n (abs_q s Ready) @ us" by auto
  have "drop n (abs_q s Ready) = abs_q s Ready ! n # drop (Suc n) (abs_q s Ready)"
    using switch.prems(2) by (simp add: Cons_nth_drop_Suc)
  moreover from call_ready [OF r(1) switch.hyps(2)] obtain ao where
    "refines (Switch s'') ao" "ready_step (abs_q s' Ready) ao" by blast
  ultimately have "\<exists>us'. abs_q s'' Ready = drop (Suc n) (abs_q s Ready) @ us'"
    using r(2) by (cases ao) auto
  with r(1) switch.hyps(2) show ?case by (auto intro: reachable.switch)
qed

section \<open>Concrete runs for witnesses\<close>

definition main_started :: sched where
  "main_started = MyThreadInit 7 0 boot"

text \<open>The state after a list of calls, if a thread still runs then.\<close>

fun exec_calls :: "call list \<Rightarrow> sched \<Rightarrow> sched option" where
  "exec_calls [] s = Some s"
| "exec_calls (c # cs) s = do {
     out \<leftarrow> exec_call c s;
     case out of Ret v s' \<Rightarrow> exec_calls cs s' | Switch s' \<Rightarrow> exec_calls cs s' | Quit s' \<Rightarrow> None }"

lemma reachable_main: "reachable main_started"
  unfolding main_started_def using reachable.start [of 7 0 "[]"] by simp

lemma exec_calls_reachable: "reachable s \<Longrightarrow> exec_calls cs s = Some s' \<Longrightarrow> reachable s'"
proof (induction cs arbitrary: s)
  case Nil
  then show ?case by simp
next
  case (Cons c cs)
  from Cons.prems(2) obtain out where out: "exec_call c s = Some out"
    by (auto simp: bind_eq_Some_conv)
  with Cons show ?case
    by (cases out) (auto intro: reachable.ret reachable.switch)
qed


text \<open>Main has created two threads, the second of which will be joined or not, in the lemmas below.\<close>

definition two_kids :: "call list" where
  "two_kids = [Create 1 0, Create 2 0]"

definition after :: "call list \<Rightarrow> sched" where
  "after cs = (case exec_calls cs main_started of Some s \<Rightarrow> s | None \<Rightarrow> boot)"

lemma after_reachable: "exec_calls cs main_started \<noteq> None \<Longrightarrow> reachable (after cs)"
  by (auto simp: after_def intro: exec_calls_reachable [OF reachable_main])

text \<open>A call that switches, as a step from one of these runs to the next.\<close>

fun switches :: "outcome option \<Rightarrow> bool" where
  "switches (Some (Switch s)) = True"
| "switches out = False"

lemma switchesE:
  assumes "switches out"
  obtains s where "out = Some (Switch s)"
  using assms by (cases out rule: switches.cases) auto

lemma exec_calls_snoc:
  "exec_calls (cs @ [c]) s = do { s' \<leftarrow> exec_calls cs s; exec_calls [c] s' }"
  by (induction cs arbitrary: s) (auto split: outcome.split bind_split)

lemma after_switch:
  assumes "exec_calls cs main_started \<noteq> None" and "switches (exec_call c (after cs))"
  shows "exec_call c (after cs) = Some (Switch (after (cs @ [c])))"
  using assms by (auto elim!: switchesE simp: after_def exec_calls_snoc)

section \<open>Properties of the scheduler\<close>

text \<open>
  Property C5: memory safety of the thread library. In every state a client can reach, every call
  that names an existing semaphore and keeps its counter in the range of \<open>int\<close> is defined: no \<open>NULL\<close>
  or freed pointer is dereferenced, no assertion of \<open>queue.h\<close> fails, no queue loop runs forever.
\<close>

theorem sched_call_defined:
  assumes "reachable s" and "call_ok s c"
  shows "\<exists>out. exec_call c s = Some out"
  using reachable_good [OF assms(1)] exec_call_good [of s c] assms(2) by blast

theorem sched_call_defined_witness:
  "reachable (after two_kids) \<and> call_ok (after two_kids) (Join 4)
     \<and> (\<exists>out. exec_call (Join 4) (after two_kids) = Some out)"
proof -
  have r: "reachable (after two_kids)" by (rule after_reachable) code_simp
  have v: "call_ok (after two_kids) (Join 4)" by simp
  show ?thesis using r v sched_call_defined [OF r v] by blast
qed

text \<open>
  Property C6: the pointer-based library refines the abstract machine: every call computes the
  outcome of the abstract call on lists of threads.
\<close>

theorem sched_refines:
  assumes "reachable s" and "call_ok s c"
  shows "\<exists>out new. exec_call c s = Some out \<and> refines out (a_call c new (abs_state s))"
  using reachable_good [OF assms(1)] exec_call_refines [of s c] assms(2) by blast

theorem sched_refines_witness:
  "\<exists>out new. exec_call Exit (after two_kids) = Some out
     \<and> refines out (a_call Exit new (abs_state (after two_kids)))"
proof (rule sched_refines)
  show "reachable (after two_kids)" by (rule after_reachable) code_simp
  show "call_ok (after two_kids) Exit" by simp
qed

text \<open>
  Property C33: every thread is in one place only. In a reachable state a thread runs, no queue holds
  a thread twice, the running thread is in none of the ready, blocked and semaphore queues, and no
  thread is in two of them.
\<close>

theorem sched_one_place:
  assumes "reachable s"
  shows "\<exists>cur. current_thread s = Some cur \<and> (\<forall>r. distinct (abs_q s r))
    \<and> (\<forall>r. waiting_role r \<longrightarrow> cur \<notin> set (abs_q s r))
    \<and> (\<forall>r r' t. waiting_role r \<longrightarrow> waiting_role r' \<longrightarrow> t \<in> set (abs_q s r) \<longrightarrow> t \<in> set (abs_q s r') \<longrightarrow> r = r')"
proof -
  have "am_inv (abs_state s)" using reachable_good [OF assms] by simp
  then obtain cur where c: "current_thread s = Some cur" and p: "inv_place (Some cur) (abs_state s)"
    by (rule am_invD)
  then show ?thesis
    using place_distinct [OF p] place_cur [OF p] place_unique [OF p] by auto
qed

theorem sched_one_place_witness:
  "\<exists>cur. current_thread (after two_kids) = Some cur \<and> (\<forall>r. distinct (abs_q (after two_kids) r))
    \<and> (\<forall>r. waiting_role r \<longrightarrow> cur \<notin> set (abs_q (after two_kids) r))
    \<and> (\<forall>r r' t. waiting_role r \<longrightarrow> waiting_role r' \<longrightarrow> t \<in> set (abs_q (after two_kids) r)
          \<longrightarrow> t \<in> set (abs_q (after two_kids) r') \<longrightarrow> r = r')"
proof (rule sched_one_place)
  show "reachable (after two_kids)" by (rule after_reachable) code_simp
qed

text \<open>
  The \<open>children\<close> queue of a thread holds exactly the threads that have it as parent and
  have not exited.
\<close>

theorem sched_children:
  assumes "reachable s"
  shows "t \<in> set (abs_q s (Kids p)) \<longleftrightarrow>
    alive (current_thread s) (abs_state s) t \<and> map_option parent (threads s t) = Some (Some p)"
proof -
  have "am_inv (abs_state s)" using reachable_good [OF assms] by simp
  then obtain cur where c: "current_thread s = Some cur" and p: "inv_place (Some cur) (abs_state s)"
    by (rule am_invD)
  then show ?thesis using place_kids [OF p, of t] by simp
qed

theorem sched_children_witness:
  "(8 \<in> set (abs_q (after two_kids) (Kids 2)) \<longleftrightarrow>
    alive (current_thread (after two_kids)) (abs_state (after two_kids)) 8
      \<and> map_option parent (threads (after two_kids) 8) = Some (Some 2))
   \<and> 8 \<in> set (abs_q (after two_kids) (Kids 2))"
proof
  have r: "reachable (after two_kids)" by (rule after_reachable) code_simp
  show "8 \<in> set (abs_q (after two_kids) (Kids 2)) \<longleftrightarrow>
    alive (current_thread (after two_kids)) (abs_state (after two_kids)) 8
      \<and> map_option parent (threads (after two_kids) 8) = Some (Some 2)"
    by (rule sched_children [OF r])
  show "8 \<in> set (abs_q (after two_kids) (Kids 2))" by code_simp
qed

text \<open>
  The counter of a semaphore. A negative counter is minus the number of threads in the
  semaphore's queue; with a counter of zero or more nobody waits.
\<close>

theorem semaphore_count_meaning:
  assumes "reachable s" and "sems s x = Some m"
  shows "int (length (threads_of (hp s) (wait_queue m))) = max 0 (- sem_count m)"
proof -
  have "am_inv (abs_state s)" using reachable_good [OF assms(1)] by simp
  then obtain cur where "inv_for (Some cur) (abs_state s)" by (rule am_invD)
  from waits_length(1) [OF this, of x] assms(2) show ?thesis by (simp add: abs_q_def)
qed

theorem semaphore_count_meaning_witness:
  "\<exists>m. sems (after [Create 1 0, SemInit 0, Wait 8]) 8 = Some m \<and> sem_count m = - 1
     \<and> int (length (threads_of (hp (after [Create 1 0, SemInit 0, Wait 8])) (wait_queue m))) = max 0 (- sem_count m)"
proof -
  let ?s = "after [Create 1 0, SemInit 0, Wait 8]"
  have r: "reachable ?s" by (rule after_reachable) code_simp
  have "map_option sem_count (sems ?s 8) = Some (- 1)" by code_simp
  then obtain m where m: "sems ?s 8 = Some m" "sem_count m = - 1" by auto
  show ?thesis using m semaphore_count_meaning [OF r m(1)] by blast
qed

text \<open>
  No thread is blocked forever by a child that is gone. A thread in the blocked queue
  has a live child it waits for; when \<open>waiting_for\<close> is set, that child is the one it names.
\<close>

theorem blocked_waits_for_child:
  assumes "reachable s" and "t \<in> set (abs_q s Blocked)" and "threads s t = Some th"
  shows "\<exists>k. k \<in> set (abs_q s (Kids t)) \<and> (waiting_for th = None \<or> waiting_for th = Some k)"
proof -
  have "am_inv (abs_state s)" using reachable_good [OF assms(1)] by simp
  then obtain cur where "inv_for (Some cur) (abs_state s)" by (rule am_invD)
  then have "block_reason (abs_state s) t"
    using assms(2) by (intro inv_blockD(1)) (auto simp: inv_for_def)
  then show ?thesis
    using assms(3) by (cases "waiting_for th") (auto simp: block_reason_def neq_Nil_conv)
qed

theorem blocked_waits_for_child_witness:
  "\<exists>th k. threads (after [Create 1 0, Create 2 0, Join 8]) 2 = Some th
     \<and> k \<in> set (abs_q (after [Create 1 0, Create 2 0, Join 8]) (Kids 2))
     \<and> (waiting_for th = None \<or> waiting_for th = Some k)"
proof -
  let ?s = "after [Create 1 0, Create 2 0, Join 8]"
  have r: "reachable ?s" by (rule after_reachable) code_simp
  have b: "2 \<in> set (abs_q ?s Blocked)" by code_simp
  have "map_option waiting_for (threads ?s 2) = Some (Some 8)" by code_simp
  then obtain th where th: "threads ?s 2 = Some th" by auto
  show ?thesis using th blocked_waits_for_child [OF r b th] by blast
qed

text \<open>
  An exit wakes its parent. When the running thread exits and its parent is blocked
  joining it, or joining all of its children of which this is the last, the parent leaves the
  blocked queue and is ready or runs next.
\<close>

theorem exit_wakes_parent:
  assumes "reachable s" and "current_thread s = Some cur" and "threads s cur = Some ct"
    and "parent ct = Some p" and "p \<in> set (abs_q s Blocked)" and "threads s p = Some pt"
    and "waiting_for pt = Some cur \<or> abs_q s (Kids p) = [cur]"
  shows "\<exists>s'. MyThreadExit s = Some (Switch s') \<and> p \<notin> set (abs_q s' Blocked)
    \<and> (current_thread s' = Some p \<or> p \<in> set (abs_q s' Ready))"
proof -
  have g: "rep_ok s" "am_inv (abs_state s)" using reachable_good [OF assms(1)] by auto
  from MyThreadExit_refines [OF g assms(2)] obtain out where
    out: "MyThreadExit s = Some out" "refines out (a_exit cur (abs_state s))" by blast
  obtain c' where "inv_place (Some c') (abs_state s)" using am_invD [OF g(2)] .
  then have d: "distinct (abs_q s Blocked)" using place_distinct [of _ "abs_state s" Blocked] by simp
  let ?w = "a_wake cur (a_leave cur (abs_state s))"
  have w: "a_q ?w Ready = abs_q s Ready @ [p]" "p \<notin> set (a_q ?w Blocked)"
    using assms(3-7) d by (auto simp: a_wake_def a_leave_def)
  then obtain t ts where "a_q ?w Ready = t # ts" "p \<in> set (t # ts)" by (cases "abs_q s Ready") auto
  then have "a_exit cur (abs_state s) = ASwitch (?w\<lparr>a_q := (a_q ?w)(Ready := ts), a_cur := Some t\<rparr>)"
    and p: "p = t \<or> p \<in> set ts" by (auto simp: a_exit_def a_switch_def)
  with out(2) obtain s' where s': "out = Switch s'"
    "abs_state s' = ?w\<lparr>a_q := (a_q ?w)(Ready := ts), a_cur := Some t\<rparr>" by (cases out) auto
  then have "abs_q s' = (a_q ?w)(Ready := ts)" and "current_thread s' = Some t"
    by (metis abs_sel(1) amach.simps(1,6,7,11) amach.surjective amach.update_convs, metis abs_sel(2) amach.select_convs(5) amach.surjective amach.update_convs(5))
  with out(1) s'(1) w(2) p show ?thesis by auto
qed

theorem exit_wakes_parent_witness:
  "\<exists>s'. MyThreadExit (after [Create 1 0, Join 4]) = Some (Switch s') \<and> 2 \<notin> set (abs_q s' Blocked)
    \<and> (current_thread s' = Some 2 \<or> 2 \<in> set (abs_q s' Ready))"
proof -
  let ?s = "after [Create 1 0, Join 4]"
  have r: "reachable ?s" by (rule after_reachable) code_simp
  have c: "current_thread ?s = Some 4" by code_simp
  have "map_option parent (threads ?s 4) = Some (Some 2)" by code_simp
  then obtain ct where ct: "threads ?s 4 = Some ct" "parent ct = Some 2" by auto
  have "map_option waiting_for (threads ?s 2) = Some (Some 4)" by code_simp
  then obtain pt where pt: "threads ?s 2 = Some pt" "waiting_for pt = Some 4" by auto
  have b: "2 \<in> set (abs_q ?s Blocked)" by code_simp
  show ?thesis using pt(2) by (intro exit_wakes_parent [OF r c ct b pt(1)]) simp
qed

text \<open>
  Property C32: first come, first served. The thread at position \<open>i\<close> of the ready queue runs at the
  \<open>i + 1\<close>-st switch from now on, whatever calls the threads make: no ready thread is overtaken.
\<close>

theorem ready_fifo:
  assumes "reachable s" and "i < length (abs_q s Ready)" and "run s i s'"
    and "exec_call c s' = Some (Switch s'')"
  shows "current_thread s'' = Some (abs_q s Ready ! i)"
proof -
  from run_ready [OF assms(3,1)] assms(2) obtain us where
    r: "reachable s'" "abs_q s' Ready = drop i (abs_q s Ready) @ us" by auto
  have "drop i (abs_q s Ready) = abs_q s Ready ! i # drop (Suc i) (abs_q s Ready)"
    using assms(2) by (simp add: Cons_nth_drop_Suc)
  moreover from call_ready [OF r(1) assms(4)] obtain ao where
    "refines (Switch s'') ao" "ready_step (abs_q s' Ready) ao" by blast
  ultimately show ?thesis using r(2) by (cases ao) auto
qed

theorem ready_fifo_witness:
  "exec_call Yield (after (two_kids @ [Yield])) = Some (Switch (after (two_kids @ [Yield, Yield])))
     \<and> current_thread (after (two_kids @ [Yield, Yield])) = Some 8"
proof -
  have r: "reachable (after two_kids)" by (rule after_reachable) code_simp
  have q: "abs_q (after two_kids) Ready = [4, 8]" by code_simp
  have "exec_call Yield (after two_kids) = Some (Switch (after (two_kids @ [Yield])))"
    by (rule after_switch) code_simp+
  then have s: "run (after two_kids) (Suc 0) (after (two_kids @ [Yield]))"
    by (rule run.switch [OF run.refl])
  have "exec_call Yield (after (two_kids @ [Yield])) = Some (Switch (after ((two_kids @ [Yield]) @ [Yield])))"
    by (rule after_switch) code_simp+
  then have y: "exec_call Yield (after (two_kids @ [Yield])) = Some (Switch (after (two_kids @ [Yield, Yield])))"
    by simp
  show ?thesis using ready_fifo [OF r _ s y] y q by simp
qed

text \<open>
  Joining a thread that is not a child of the caller, or that has already terminated,
  fails at once with -1 and changes nothing.
\<close>

theorem join_non_child:
  assumes "reachable s" and "current_thread s = Some cur" and "t \<notin> set (abs_q s (Kids cur))"
  shows "MyThreadJoin t s = Some (Ret (- 1) s)"
proof -
  have g: "rep_ok s" "am_inv (abs_state s)" using reachable_good [OF assms(1)] by auto
  obtain out where "MyThreadJoin t s = Some out" "refines out (a_join t cur (abs_state s))"
    using MyThreadJoin_refines [OF g assms(2)] by blast
  then obtain s' where "MyThreadJoin t s = Some (Ret (- 1) s')"
    using assms(3) by (cases out) (auto simp: a_join_def)
  then have "s' = s \<or> (\<exists>x. switch_next x = Some (Ret (- 1) s'))"
    by (auto simp: MyThreadJoin_def elim!: bind_SomeE split: if_splits)
  moreover have "switch_next x \<noteq> Some (Ret v y)" for x v y
    by (auto simp: switch_next_def elim!: bind_SomeE split: option.splits)
  ultimately show ?thesis using \<open>MyThreadJoin t s = Some (Ret (- 1) s')\<close> by blast
qed

theorem join_non_child_witness:
  "threads (after [Create 1 0, Join 4, Exit]) 4 \<noteq> None
    \<and> current_thread (after [Create 1 0, Join 4, Exit]) = Some 2
    \<and> MyThreadJoin 4 (after [Create 1 0, Join 4, Exit]) = Some (Ret (- 1) (after [Create 1 0, Join 4, Exit]))"
proof -
  let ?s = "after [Create 1 0, Join 4, Exit]"
  have r: "reachable ?s" by (rule after_reachable) code_simp
  have c: "current_thread ?s = Some 2" by code_simp
  have k: "4 \<notin> set (abs_q ?s (Kids 2))" by code_simp
  have "(case threads ?s 4 of None \<Rightarrow> False | Some _ \<Rightarrow> True)" by code_simp
  then have "threads ?s 4 \<noteq> None" by (auto split: option.splits)
  then show ?thesis using c join_non_child [OF r c k] by blast
qed

text \<open>
  The process is resumed only when no thread is ready: if a call ends the run, the ready
  queue was empty and the call put nothing on it.
\<close>

theorem quit_nothing_ready:
  assumes "reachable s" and "exec_call c s = Some (Quit s')"
  shows "abs_q s Ready = [] \<and> c \<noteq> Yield"
proof -
  have g: "rep_ok s" "am_inv (abs_state s)" using reachable_good [OF assms(1)] by auto
  obtain cur where cur: "current_thread s = Some cur" using am_invD [OF g(2)] .
  obtain ao where "refines (Quit s') ao" "ready_step (abs_q s Ready) ao"
    using call_ready [OF assms] by blast
  then have "abs_q s Ready = []" by (cases ao) auto
  moreover have "c \<noteq> Yield"
  proof
    assume "c = Yield"
    with MyThreadYield_refines [OF g cur] assms(2) have
      "refines (Quit s') (a_yield cur (abs_state s))" by auto
    then show False by (cases "abs_q s Ready") (auto simp: a_yield_def a_switch_def)
  qed
  ultimately show ?thesis ..
qed

theorem quit_nothing_ready_witness:
  "\<exists>s'. exec_call Exit main_started = Some (Quit s') \<and> abs_q main_started Ready = []"
proof -
  have "(case exec_call Exit main_started of Some (Quit s') \<Rightarrow> True | _ \<Rightarrow> False)" by code_simp
  then obtain s' where "exec_call Exit main_started = Some (Quit s')"
    by (auto split: option.splits outcome.splits)
  then show ?thesis using quit_nothing_ready [OF reachable_main] by blast
qed

end
