(* ===== verification/Thread_Clients.thy ===== *)
theory Thread_Clients
  imports Thread_Refine C_Lib
begin

text \<open>
  The client programs of the thread library under \<open>hw1/tests\<close>, run on the model of the library. The code
  of a thread is the list of its remaining statements; a statement whose effect depends on the shared
  variables is a function of them. \<open>run_client\<close> executes the statements of the running thread until the
  process context is resumed, and gives the lines printed so far. The results are compared with the
  outputs recorded in the repository.
\<close>

section \<open>Programs\<close>

text \<open>Shared integer variables, by address, and the next address for a local variable whose address is taken.\<close>

record vars =
  cell :: "nat \<Rightarrow> int"
  vbrk :: nat

datatype stmt =
  Print string
| New nat nat
| Yld
| JoinT
| JoinAllT
| Ext
| Compute "vars \<Rightarrow> stmt list \<times> vars"

record client =
  sc :: sched
  code :: "addr \<Rightarrow> stmt list"
  tvar :: "addr \<Rightarrow> addr"
  vs :: vars
  out :: "string list"

datatype cstep = Running client | Finished client

definition resume :: "client \<Rightarrow> outcome \<Rightarrow> cstep" where
  "resume k oc = (case oc of Ret v s \<Rightarrow> Running (k\<lparr>sc := s\<rparr>) | Switch s \<Rightarrow> Running (k\<lparr>sc := s\<rparr>) | Quit s \<Rightarrow> Finished (k\<lparr>sc := s\<rparr>))"

text \<open>
  One statement of the running thread. \<open>T = MyThreadCreate(...)\<close> sets the thread's variable \<open>T\<close>, which
  \<open>MyThreadJoin(T)\<close> reads; before that it holds a pointer that is no thread.
\<close>

definition client_step :: "(nat \<Rightarrow> nat \<Rightarrow> stmt list) \<Rightarrow> client \<Rightarrow> cstep option" where
  "client_step prog k = do {
     cur \<leftarrow> current_thread (sc k);
     case code k cur of
       [] \<Rightarrow> None
     | c # cs \<Rightarrow>
         (let k1 = k\<lparr>code := (code k)(cur := cs)\<rparr> in
          case c of
            Print s \<Rightarrow> Some (Running (k1\<lparr>out := out k1 @ [s]\<rparr>))
          | New f a \<Rightarrow> do {
              (t, s) \<leftarrow> MyThreadCreate f a (sc k1);
              Some (Running (k1\<lparr>sc := s, code := (code k1)(t := prog f a), tvar := (tvar k1)(cur := t)\<rparr>)) }
          | Yld \<Rightarrow> map_option (resume k1) (MyThreadYield (sc k1))
          | JoinT \<Rightarrow> map_option (resume k1) (MyThreadJoin (tvar k1 cur) (sc k1))
          | JoinAllT \<Rightarrow> map_option (resume k1) (MyThreadJoinAll (sc k1))
          | Ext \<Rightarrow> map_option (resume k1) (MyThreadExit (sc k1))
          | Compute g \<Rightarrow> (let (more, v) = g (vs k1) in Some (Running (k1\<lparr>code := (code k1)(cur := more @ cs), vs := v\<rparr>)))) }"

fun run_client :: "(nat \<Rightarrow> nat \<Rightarrow> stmt list) \<Rightarrow> nat \<Rightarrow> client \<Rightarrow> client option" where
  "run_client prog 0 k = None"
| "run_client prog (Suc n) k = do {
     r \<leftarrow> client_step prog k;
     case r of Running k1 \<Rightarrow> run_client prog n k1 | Finished k1 \<Rightarrow> Some k1 }"

text \<open>\<open>MyThreadInit(f, a)\<close> returns when the process context is resumed.\<close>

definition start_client :: "(nat \<Rightarrow> nat \<Rightarrow> stmt list) \<Rightarrow> nat \<Rightarrow> nat \<Rightarrow> nat \<Rightarrow> vars \<Rightarrow> client option" where
  "start_client prog fuel f a v =
     (let s = MyThreadInit f a boot in do {
        t \<leftarrow> current_thread s;
        run_client prog fuel \<lparr>sc = s, code = (\<lambda>_. [])(t := prog f a), tvar = (\<lambda>_. 0), vs = v, out = []\<rparr> })"

definition no_vars :: vars where
  "no_vars = \<lparr>cell = (\<lambda>_. 0), vbrk = 0\<rparr>"

section \<open>one.c\<close>

definition one_prog :: "nat \<Rightarrow> nat \<Rightarrow> stmt list" where
  "one_prog f a = [Print ''t0 start'', Ext]"

definition one_main :: "nat \<Rightarrow> string list option" where
  "one_main fuel = map_option out (start_client one_prog fuel 0 0 no_vars)"

section \<open>ping.c\<close>

text \<open>The loop of \<open>t1\<close>, and the threads \<open>t0\<close> and \<open>t1\<close> (functions 0 and 1).\<close>

fun ping_loop :: "nat \<Rightarrow> nat \<Rightarrow> stmt list" where
  "ping_loop who 0 = []"
| "ping_loop who (Suc i) = Print (''t'' @ dec who @ '' yield'') # Yld # ping_loop who i"

definition ping_t1 :: "nat \<Rightarrow> nat \<Rightarrow> stmt list" where
  "ping_t1 n who = Print (''t'' @ dec who @ '' start'') # ping_loop who n @ [Print (''t'' @ dec who @ '' end''), Ext]"

definition ping_prog :: "nat \<Rightarrow> nat \<Rightarrow> nat \<Rightarrow> stmt list" where
  "ping_prog n f a = (if f = 0 then New 1 1 # ping_t1 n 0 else ping_t1 n a)"

definition ping_main :: "nat \<Rightarrow> string list \<Rightarrow> (int + string list) option" where
  "ping_main fuel argv =
     (if length argv \<noteq> 2 then Some (Inl (- 1))
      else do {
        n \<leftarrow> atoi (argv ! 1);
        k \<leftarrow> start_client (ping_prog (nat n)) fuel 0 0 no_vars;
        Some (Inr (out k)) })"

section \<open>passing.c\<close>

definition passing_prog :: "int \<Rightarrow> nat \<Rightarrow> nat \<Rightarrow> stmt list" where
  "passing_prog mode f n1 =
     Print (''t0 start '' @ dec n1)
     # (if n1 > 0 then [Print ''t0 create'', New 0 (n1 - 1)] @ (if mode = 1 then [Yld] else if mode = 2 then [JoinT] else []) else [])
     @ [Print ''t0 end'', Ext]"

definition passing_main :: "nat \<Rightarrow> string list \<Rightarrow> (int + string list) option" where
  "passing_main fuel argv =
     (if length argv < 2 \<or> length argv > 3 then Some (Inl (- 1))
      else do {
        count \<leftarrow> atoi (argv ! 1);
        mode \<leftarrow> (if length argv = 3 then atoi (argv ! 2) else Some 0);
        k \<leftarrow> start_client (passing_prog mode) fuel 0 (nat count) no_vars;
        Some (Inr (out k)) })"

section \<open>tree.c\<close>

fun make_loop :: "string \<Rightarrow> nat \<Rightarrow> bool \<Rightarrow> nat list \<Rightarrow> stmt list" where
  "make_loop me t yield [] = []"
| "make_loop me t yield (i # is) = Print (me @ '' create '' @ dec i) # New t i # (if yield then [Yld] else []) @ make_loop me t yield is"

definition makeThreads :: "string \<Rightarrow> nat \<Rightarrow> nat \<Rightarrow> bool \<Rightarrow> bool \<Rightarrow> stmt list" where
  "makeThreads me t many yield join = make_loop me t yield [0..<many] @ (if join then [JoinT] else [])"

text \<open>The threads \<open>t0\<close>, \<open>t1\<close> and \<open>t2\<close> are the functions 0, 1 and 2.\<close>

definition tree_prog :: "nat \<Rightarrow> nat \<Rightarrow> bool \<Rightarrow> bool \<Rightarrow> nat \<Rightarrow> nat \<Rightarrow> stmt list" where
  "tree_prog n m yield join f who =
     (if f = 0 then [Print ''t0 start''] @ makeThreads ''t0'' 1 n yield join @ [Print ''t0 end'', Ext]
      else if f = 1 then
        (let me = ''t1 '' @ dec who in
         [Print (me @ '' start'')] @ makeThreads me 2 m yield join @ [Print (''t1 '' @ dec who @ '' end''), Ext])
      else [Print (''t2 '' @ dec who @ '' start''), Ext])"

definition tree_main :: "nat \<Rightarrow> string list \<Rightarrow> (int + string list) option" where
  "tree_main fuel argv =
     (if length argv \<noteq> 5 then Some (Inl (- 1))
      else do {
        n \<leftarrow> atoi (argv ! 1);
        m \<leftarrow> atoi (argv ! 2);
        yield \<leftarrow> atoi (argv ! 3);
        join \<leftarrow> atoi (argv ! 4);
        k \<leftarrow> start_client (tree_prog (nat n) (nat m) (yield \<noteq> 0) (join \<noteq> 0)) fuel 0 0 no_vars;
        Some (Inr (out k)) })"

section \<open>fib.c\<close>

text \<open>The argument is the address of an \<open>int\<close>; \<open>n1\<close> and \<open>n2\<close> are new variables of each call.\<close>

definition fib_prog :: "nat \<Rightarrow> nat \<Rightarrow> stmt list" where
  "fib_prog f a =
     [Compute (\<lambda>v. if cell v a = 0 then ([], v) else if cell v a = 1 then ([], v)
        else (let a1 = vbrk v; a2 = vbrk v + 1 in
          ([New 0 a1, New 0 a2, JoinAllT, Compute (\<lambda>w. ([], w\<lparr>cell := (cell w)(a := cell w a1 + cell w a2)\<rparr>))],
           v\<lparr>cell := (cell v)(a1 := cell v a - 1, a2 := cell v a - 2), vbrk := vbrk v + 2\<rparr>))),
      Ext]"

definition fib_main :: "nat \<Rightarrow> string list \<Rightarrow> (int \<times> string) option" where
  "fib_main fuel argv =
     (if length argv \<noteq> 2 then Some (- 1, ''usage: '' @ hd argv @ '' <n>'')
      else do {
        n \<leftarrow> atoi (argv ! 1);
        if n < 0 \<or> n > 10 then Some (- 1, ''invalid value for n ('' @ show_int n @ '')'')
        else do {
          k \<leftarrow> start_client fib_prog fuel 0 0 \<lparr>cell = (\<lambda>_. 0)(0 := n), vbrk = 1\<rparr>;
          Some (0, ''fib('' @ show_int n @ '') = '' @ show_int (cell (vs k) 0)) } })"

section \<open>Clients on the abstract machine\<close>

text \<open>A well-formed state in which \<open>a\<close> runs, the threads \<open>ts\<close> are ready in this order, and nobody is blocked.\<close>

definition runs_with :: "sched \<Rightarrow> addr \<Rightarrow> addr list \<Rightarrow> bool" where
  "runs_with s a ts \<longleftrightarrow> rep_ok s \<and> am_inv (abs_state s) \<and> current_thread s = Some a
     \<and> abs_q s Ready = ts \<and> abs_q s Blocked = []"

lemma runs_withD:
  assumes "runs_with s a ts"
  shows "rep_ok s" "am_inv (abs_state s)" "current_thread s = Some a" "abs_q s Ready = ts" "abs_q s Blocked = []"
    "inv_for (Some a) (abs_state s)"
  using assms by (auto simp: runs_with_def am_inv_def)

lemma switched:
  assumes "refines oc (ASwitch m)" and "good_outcome oc" and "a_cur m = Some b" and "a_q m Ready = us" and "a_q m Blocked = []"
  shows "\<exists>s'. oc = Switch s' \<and> runs_with s' b us"
proof -
  obtain s' where s': "oc = Switch s'" "rep_ok s'" "abs_state s' = m" using assms(1) by (cases oc) auto
  then have "current_thread s' = Some b" "abs_q s' Ready = us" "abs_q s' Blocked = []"
    using assms(3-5) by (metis abs_sel)+
  then show ?thesis using s' assms(2) by (simp add: runs_with_def)
qed

lemma runs_with_yield:
  assumes "runs_with s a (b # ts)"
  shows "\<exists>s'. MyThreadYield s = Some (Switch s') \<and> runs_with s' b (ts @ [a])"
proof -
  note w = runs_withD [OF assms]
  obtain oc where oc: "MyThreadYield s = Some oc" "refines oc (a_yield a (abs_state s))" using MyThreadYield_refines [OF w(1-3)] by blast
  have "good_outcome oc" using exec_call_good [OF w(1,2), of Yield] oc(1) by auto
  then show ?thesis using oc w(4,5) switched [of oc _ b "ts @ [a]"] by (auto simp: a_yield_def a_switch_def)
qed

lemma wake_none: "a_q m Blocked = [] \<Longrightarrow> a_wake t (a_leave t m) = a_leave t m"
  by (auto simp: a_wake_def a_leave_def split: option.splits)

lemma leave_queues: "a_q (a_leave t m) Ready = a_q m Ready" "a_q (a_leave t m) Blocked = a_q m Blocked"
  by (auto simp: a_leave_def split: option.splits)

lemma runs_with_exit:
  assumes "runs_with s a ts"
  shows "ts = b # us \<Longrightarrow> \<exists>s'. MyThreadExit s = Some (Switch s') \<and> runs_with s' b us"
    and "ts = [] \<Longrightarrow> \<exists>s'. MyThreadExit s = Some (Quit s')"
proof -
  note w = runs_withD [OF assms]
  obtain oc where oc: "MyThreadExit s = Some oc" "refines oc (a_exit a (abs_state s))" using MyThreadExit_refines [OF w(1-3)] by blast
  have g: "good_outcome oc" using exec_call_good [OF w(1,2), of Exit] oc(1) by auto
  have e: "a_exit a (abs_state s) = a_switch (a_leave a (abs_state s))"
    using wake_none [of "abs_state s" a] w(5) by (simp add: a_exit_def)
  show "\<exists>s'. MyThreadExit s = Some (Switch s') \<and> runs_with s' b us" if "ts = b # us"
    using oc(2) g w(4,5) that switched [of oc _ b us] oc(1) by (auto simp: e a_switch_def leave_queues)
  show "\<exists>s'. MyThreadExit s = Some (Quit s')" if "ts = []"
    using oc w(4) that by (cases oc) (auto simp: e a_switch_def leave_queues)
qed

lemma runs_with_create:
  assumes "runs_with s a ts"
  shows "\<exists>t s'. MyThreadCreate f x s = Some (t, s') \<and> runs_with s' a (ts @ [t]) \<and> t \<noteq> a"
proof -
  note w = runs_withD [OF assms]
  obtain t s' where t: "MyThreadCreate f x s = Some (t, s')" "threads s t = None" "rep_ok s'" "abs_state s' = a_create t a (abs_state s)"
    using MyThreadCreate_refines [OF w(1-3)] by blast
  have "am_inv (abs_state s')" using exec_call_good [OF w(1,2), of "Create f x"] t(1) by auto
  moreover have "current_thread s' = Some a" "abs_q s' Ready = ts @ [t]" "abs_q s' Blocked = []"
    using w(3-5) arg_cong [OF t(4), of a_cur] arg_cong [OF t(4), of a_q] by (simp_all add: a_create_def)
  moreover have "t \<noteq> a" using am_invD [OF w(2)] w(3) t(2) by (metis option.inject option.distinct(1))
  ultimately show ?thesis using t(1,3) by (auto simp: runs_with_def)
qed

lemma runs_with_init: "\<exists>a. current_thread (MyThreadInit f x boot) = Some a \<and> runs_with (MyThreadInit f x boot) a []"
proof -
  let ?s = "MyThreadInit f x boot"
  have ok: "rep_ok ?s" "am_inv (abs_state ?s)" using init_ok [OF pre_ok_boot] by blast+
  obtain a where a: "current_thread ?s = Some a" using am_invD [OF ok(2)] by blast
  have "abs_q ?s Ready = []" "abs_q ?s Blocked = []"
    by (simp_all add: abs_q_def MyThreadInit_def boot_def make_thread_def make_queue_def malloc_def Let_def empty_store_def threads_of_def view_def cells_def)
  then show ?thesis using ok a by (simp add: runs_with_def)
qed

section \<open>Ping\<close>

lemma run_Running: "client_step prog k = Some (Running k1) \<Longrightarrow> run_client prog (Suc n) k = run_client prog n k1"
  by simp

lemma run_Finished: "client_step prog k = Some (Finished k1) \<Longrightarrow> run_client prog (Suc n) k = Some k1"
  by simp

text \<open>Two threads take turns at yielding: one round of each is printed and both are one iteration further.\<close>

definition ping_line :: "nat \<Rightarrow> string \<Rightarrow> string" where
  "ping_line who s = ''t'' @ dec who @ s"

lemma print_step:
  assumes "current_thread (sc k) = Some a" and "code k a = Print x # cs"
  shows "client_step prog k = Some (Running (k\<lparr>code := (code k)(a := cs), out := out k @ [x]\<rparr>))"
  using assms by (simp add: client_step_def Let_def)

lemma yield_step:
  assumes "runs_with (sc k) a (b # ts)" and "code k a = Yld # cs"
  shows "\<exists>s'. client_step prog k = Some (Running (k\<lparr>code := (code k)(a := cs), sc := s'\<rparr>)) \<and> runs_with s' b (ts @ [a])"
  using runs_with_yield [OF assms(1)] assms(2) runs_withD(3) [OF assms(1)] by (auto simp: client_step_def Let_def resume_def)

text \<open>A thread prints a line and yields.\<close>

lemma print_yield:
  assumes "runs_with (sc k) a (b # ts)" and "code k a = Print x # Yld # cs"
  shows "\<exists>s'. run_client prog (Suc (Suc n)) k = run_client prog n (k\<lparr>code := (code k)(a := cs), out := out k @ [x], sc := s'\<rparr>)
    \<and> runs_with s' b (ts @ [a])"
proof -
  let ?k1 = "k\<lparr>code := (code k)(a := Yld # cs), out := out k @ [x]\<rparr>"
  note p = print_step [OF runs_withD(3) [OF assms(1)] assms(2), of prog]
  obtain s' where s': "client_step prog ?k1 = Some (Running (?k1\<lparr>code := (code ?k1)(a := cs), sc := s'\<rparr>))" "runs_with s' b (ts @ [a])"
    using yield_step [of ?k1 a b ts cs prog] assms(1) by auto
  have "run_client prog (Suc (Suc n)) k = run_client prog n (?k1\<lparr>code := (code ?k1)(a := cs), sc := s'\<rparr>)"
    using run_Running [OF p, of "Suc n"] run_Running [OF s'(1), of n] by simp
  then show ?thesis using s'(2) by (intro exI [of _ s']) (cases k, simp del: run_client.simps)
qed

text \<open>A thread prints its last line and exits.\<close>

lemma print_exit:
  assumes "runs_with (sc k) a (b # ts)" and "code k a = [Print x, Ext]"
  shows "\<exists>s'. run_client prog (Suc (Suc n)) k = run_client prog n (k\<lparr>code := (code k)(a := []), out := out k @ [x], sc := s'\<rparr>)
    \<and> runs_with s' b ts"
proof -
  let ?k1 = "k\<lparr>code := (code k)(a := [Ext]), out := out k @ [x]\<rparr>"
  note p = print_step [OF runs_withD(3) [OF assms(1)] assms(2), of prog]
  obtain s' where s': "client_step prog ?k1 = Some (Running (?k1\<lparr>code := (code ?k1)(a := []), sc := s'\<rparr>))" "runs_with s' b ts"
    using runs_with_exit(1) [OF assms(1) refl] runs_withD(3) [OF assms(1)] by (auto simp: client_step_def Let_def resume_def)
  have "run_client prog (Suc (Suc n)) k = run_client prog n (?k1\<lparr>code := (code ?k1)(a := []), sc := s'\<rparr>)"
    using run_Running [OF p, of "Suc n"] run_Running [OF s'(1), of n] by simp
  then show ?thesis using s'(2) by (intro exI [of _ s']) (cases k, simp del: run_client.simps)
qed

lemma print_quit:
  assumes "runs_with (sc k) a []" and "code k a = [Print x, Ext]"
  shows "map_option out (run_client prog (Suc (Suc n)) k) = Some (out k @ [x])"
proof -
  let ?k1 = "k\<lparr>code := (code k)(a := [Ext]), out := out k @ [x]\<rparr>"
  note p = print_step [OF runs_withD(3) [OF assms(1)] assms(2), of prog]
  obtain s' where "client_step prog ?k1 = Some (Finished (?k1\<lparr>code := (code ?k1)(a := []), sc := s'\<rparr>))"
    using runs_with_exit(2) [OF assms(1) refl] runs_withD(3) [OF assms(1)] by (auto simp: client_step_def Let_def resume_def)
  then show ?thesis using run_Running [OF p, of "Suc n"] run_Finished by simp
qed

lemma ping_loop_Suc: "ping_loop who (Suc i) = Print (ping_line who '' yield'') # Yld # ping_loop who i"
  by (simp add: ping_line_def)

lemma ping_rounds:
  assumes "runs_with (sc k) a [b]" and "code k a = ping_loop x m @ [Print (ping_line x '' end''), Ext]"
    and "code k b = ping_loop y m @ [Print (ping_line y '' end''), Ext]" and "a \<noteq> b"
  shows "map_option out (run_client prog (4 * m + 4 + n) k) = Some (out k
    @ concat (replicate m [ping_line x '' yield'', ping_line y '' yield'']) @ [ping_line x '' end'', ping_line y '' end''])"
  using assms
proof (induction m arbitrary: k)
  case 0
  have "code k a = [Print (ping_line x '' end''), Ext]" using "0.prems"(2) by simp
  from print_exit [OF "0.prems"(1) this, of prog "Suc (Suc n)"] obtain s' where
    s': "run_client prog (Suc (Suc (Suc (Suc n)))) k
      = run_client prog (Suc (Suc n)) (k\<lparr>code := (code k)(a := []), out := out k @ [ping_line x '' end''], sc := s'\<rparr>)"
      "runs_with s' b []" by blast
  have "map_option out (run_client prog (Suc (Suc n)) (k\<lparr>code := (code k)(a := []), out := out k @ [ping_line x '' end''], sc := s'\<rparr>))
      = Some ((out k @ [ping_line x '' end'']) @ [ping_line y '' end''])"
    using print_quit [of "k\<lparr>code := (code k)(a := []), out := out k @ [ping_line x '' end''], sc := s'\<rparr>" b _ prog n]
      s'(2) "0.prems"(3,4) by simp
  then show ?case using s'(1) by (simp add: numeral_eq_Suc)
next
  case (Suc m)
  have ca: "code k a = Print (ping_line x '' yield'') # Yld # ping_loop x m @ [Print (ping_line x '' end''), Ext]"
    using Suc.prems(2) by (simp add: ping_line_def)
  have cb: "code k b = Print (ping_line y '' yield'') # Yld # ping_loop y m @ [Print (ping_line y '' end''), Ext]"
    using Suc.prems(3) by (simp add: ping_line_def)
  let ?N = "4 * m + 4 + n"
  obtain s1 where s1: "run_client prog (Suc (Suc (Suc (Suc ?N)))) k = run_client prog (Suc (Suc ?N))
      (k\<lparr>code := (code k)(a := ping_loop x m @ [Print (ping_line x '' end''), Ext]), out := out k @ [ping_line x '' yield''], sc := s1\<rparr>)"
    "runs_with s1 b [a]" using print_yield [OF Suc.prems(1) ca, of prog "Suc (Suc ?N)"] by auto
  let ?k1 = "k\<lparr>code := (code k)(a := ping_loop x m @ [Print (ping_line x '' end''), Ext]), out := out k @ [ping_line x '' yield''], sc := s1\<rparr>"
  have cb1: "code ?k1 b = Print (ping_line y '' yield'') # Yld # ping_loop y m @ [Print (ping_line y '' end''), Ext]"
    using cb Suc.prems(4) by simp
  have r1: "runs_with (sc ?k1) b [a]" using s1(2) by simp
  obtain s2 where s2: "run_client prog (Suc (Suc ?N)) ?k1 = run_client prog ?N
      (?k1\<lparr>code := (code ?k1)(b := ping_loop y m @ [Print (ping_line y '' end''), Ext]), out := out ?k1 @ [ping_line y '' yield''], sc := s2\<rparr>)"
    "runs_with s2 a [b]" using print_yield [OF r1 cb1, of prog ?N] by auto
  let ?k2 = "?k1\<lparr>code := (code ?k1)(b := ping_loop y m @ [Print (ping_line y '' end''), Ext]), out := out ?k1 @ [ping_line y '' yield''], sc := s2\<rparr>"
  have "map_option out (run_client prog ?N ?k2) = Some (out ?k2
    @ concat (replicate m [ping_line x '' yield'', ping_line y '' yield'']) @ [ping_line x '' end'', ping_line y '' end''])"
    by (rule Suc.IH) (use s2(2) Suc.prems(4) in simp_all)
  moreover have "4 * Suc m + 4 + n = Suc (Suc (Suc (Suc ?N)))" by simp
  ultimately show ?case by (simp only: s1(1) s2(1)) simp
qed

definition ping_lines :: "nat \<Rightarrow> string list" where
  "ping_lines n = (if n = 0 then [''t0 start'', ''t0 end'', ''t1 start'', ''t1 end'']
     else [''t0 start'', ''t0 yield'', ''t1 start'', ''t1 yield'']
       @ concat (replicate (n - 1) [''t0 yield'', ''t1 yield'']) @ [''t0 end'', ''t1 end''])"

lemma ping_line_digits: "ping_line 0 s = ''t0'' @ s" "ping_line 1 s = ''t1'' @ s" "ping_line (Suc 0) s = ''t1'' @ s"
  by (simp_all add: ping_line_def dec.simps digit_char_def char_of_def bit_0)

lemma ping_t1_line: "ping_t1 n who = Print (ping_line who '' start'') # ping_loop who n @ [Print (ping_line who '' end''), Ext]"
  by (simp add: ping_t1_def ping_line_def)

lemma print_run:
  assumes "runs_with (sc k) a ts" and "code k a = Print x # cs"
  shows "run_client prog (Suc n) k = run_client prog n (k\<lparr>code := (code k)(a := cs), out := out k @ [x]\<rparr>)"
  using run_Running [OF print_step [OF runs_withD(3) [OF assms(1)] assms(2)]] .

text \<open>The run from the first statement of \<open>t0\<close> on: the other thread is created and still at its start.\<close>

lemma ping_start:
  assumes "runs_with (sc k) a [b]" and "code k a = ping_t1 n 0" and "code k b = ping_t1 n 1" and "a \<noteq> b"
  shows "map_option out (run_client prog (4 * n + 6 + j) k) = Some (out k @ ping_lines n)"
proof -
  let ?e = "\<lambda>who. [Print (ping_line who '' end''), Ext]"
  let ?k1 = "k\<lparr>code := (code k)(a := ping_loop 0 n @ ?e 0), out := out k @ [ping_line 0 '' start'']\<rparr>"
  have r1: "run_client prog (Suc i) k = run_client prog i ?k1" for i
    using print_run [OF assms(1), of "ping_line 0 '' start''" "ping_loop 0 n @ ?e 0"] assms(2) by (simp add: ping_t1_line del: run_client.simps)
  have w1: "runs_with (sc ?k1) a [b]" using assms(1) by simp
  have cb: "code k b = Print (ping_line 1 '' start'') # ping_loop 1 n @ ?e 1" using assms(3) by (simp add: ping_t1_line)
  show ?thesis
  proof (cases n)
    case 0
    obtain s2 where s2: "run_client prog (Suc (Suc (Suc (Suc (Suc j))))) ?k1
        = run_client prog (Suc (Suc (Suc j))) (?k1\<lparr>code := (code ?k1)(a := []), out := out ?k1 @ [ping_line 0 '' end''], sc := s2\<rparr>)"
      "runs_with s2 b []" using print_exit [OF w1, of "ping_line 0 '' end''" prog "Suc (Suc (Suc j))"] 0 by auto
    let ?k2 = "?k1\<lparr>code := (code ?k1)(a := []), out := out ?k1 @ [ping_line 0 '' end''], sc := s2\<rparr>"
    let ?k3 = "?k2\<lparr>code := (code ?k2)(b := ?e 1), out := out ?k2 @ [ping_line 1 '' start'']\<rparr>"
    have w2: "runs_with (sc ?k2) b []" using s2(2) by simp
    have r3: "run_client prog (Suc (Suc (Suc j))) ?k2 = run_client prog (Suc (Suc j)) ?k3"
      using cb 0 assms(4) by (intro print_run [OF w2]) simp
    have "map_option out (run_client prog (Suc (Suc j)) ?k3) = Some (out ?k3 @ [ping_line 1 '' end''])"
      by (rule print_quit [where a = b]) (use s2(2) in simp_all)
    moreover have "4 * n + 6 + j = Suc (Suc (Suc (Suc (Suc (Suc j)))))" using 0 by simp
    ultimately show ?thesis by (simp only: r1 s2(1) r3) (simp add: 0 ping_lines_def ping_line_digits)
  next
    case (Suc m)
    let ?N = "4 * m + 4 + j"
    have ca1: "code ?k1 a = Print (ping_line 0 '' yield'') # Yld # ping_loop 0 m @ ?e 0" using Suc by (simp add: ping_line_def)
    obtain s2 where s2: "run_client prog (Suc (Suc (Suc (Suc (Suc ?N))))) ?k1
        = run_client prog (Suc (Suc (Suc ?N))) (?k1\<lparr>code := (code ?k1)(a := ping_loop 0 m @ ?e 0), out := out ?k1 @ [ping_line 0 '' yield''], sc := s2\<rparr>)"
      "runs_with s2 b [a]" using print_yield [OF w1 ca1, of prog "Suc (Suc (Suc ?N))"] by auto
    let ?k2 = "?k1\<lparr>code := (code ?k1)(a := ping_loop 0 m @ ?e 0), out := out ?k1 @ [ping_line 0 '' yield''], sc := s2\<rparr>"
    let ?k3 = "?k2\<lparr>code := (code ?k2)(b := ping_loop 1 n @ ?e 1), out := out ?k2 @ [ping_line 1 '' start'']\<rparr>"
    have w2: "runs_with (sc ?k2) b [a]" using s2(2) by simp
    have r3: "run_client prog (Suc (Suc (Suc ?N))) ?k2 = run_client prog (Suc (Suc ?N)) ?k3"
      using cb assms(4) by (intro print_run [OF w2]) simp
    have cb3: "code ?k3 b = Print (ping_line 1 '' yield'') # Yld # ping_loop 1 m @ ?e 1" using Suc by (simp add: ping_line_def)
    have w3: "runs_with (sc ?k3) b [a]" using s2(2) by simp
    obtain s4 where s4: "run_client prog (Suc (Suc ?N)) ?k3
        = run_client prog ?N (?k3\<lparr>code := (code ?k3)(b := ping_loop 1 m @ ?e 1), out := out ?k3 @ [ping_line 1 '' yield''], sc := s4\<rparr>)"
      "runs_with s4 a [b]" using print_yield [OF w3 cb3, of prog ?N] by auto
    let ?k4 = "?k3\<lparr>code := (code ?k3)(b := ping_loop 1 m @ ?e 1), out := out ?k3 @ [ping_line 1 '' yield''], sc := s4\<rparr>"
    have "map_option out (run_client prog ?N ?k4) = Some (out ?k4
      @ concat (replicate m [ping_line 0 '' yield'', ping_line 1 '' yield'']) @ [ping_line 0 '' end'', ping_line 1 '' end''])"
      by (rule ping_rounds [where a = a and b = b]) (use s4(2) assms(4) in simp_all)
    moreover have "4 * n + 6 + j = Suc (Suc (Suc (Suc (Suc (Suc ?N)))))" using Suc by simp
    ultimately show ?thesis by (simp only: r1 s2(1) r3 s4(1)) (simp add: Suc ping_lines_def ping_line_digits)
  qed
qed

text \<open>
  Property C23: the two threads of \<open>ping\<close> alternate: for every \<open>n\<close> the program ends, and it prints the lines
  of \<open>t0\<close> and \<open>t1\<close> in turn, the yield of each being followed by the other's next line.
\<close>

theorem ping_alternates:
  assumes "atoi arg = Some (int n)" and "4 * n + 7 \<le> fuel"
  shows "ping_main fuel [prog, arg] = Some (Inr (ping_lines n))"
proof -
  obtain j where "fuel = 4 * n + 7 + j" using assms(2) le_Suc_ex by blast
  then have j: "fuel = Suc (4 * n + 6 + j)" by simp
  let ?p = "ping_prog n" let ?s = "MyThreadInit 0 0 boot"
  obtain a where a: "current_thread ?s = Some a" "runs_with ?s a []" using runs_with_init by blast
  obtain t s' where t: "MyThreadCreate 1 1 ?s = Some (t, s')" "runs_with s' a ([] @ [t])" "t \<noteq> a" using runs_with_create [OF a(2)] by blast
  let ?k = "\<lparr>sc = ?s, code = (\<lambda>_. [])(a := ?p 0 0), tvar = (\<lambda>_. 0), vs = no_vars, out = []\<rparr>"
  let ?k1 = "\<lparr>sc = s', code = (\<lambda>_. [])(a := ping_t1 n 0, t := ping_t1 n 1), tvar = (\<lambda>_. 0)(a := t), vs = no_vars, out = []\<rparr>"
  have "client_step ?p ?k = Some (Running ?k1)"
    using a(1) t(1) by (simp add: client_step_def ping_prog_def Let_def)
  then have "run_client ?p fuel ?k = run_client ?p (4 * n + 6 + j) ?k1" by (simp only: j run_Running)
  moreover have "map_option out (run_client ?p (4 * n + 6 + j) ?k1) = Some (out ?k1 @ ping_lines n)"
    by (rule ping_start [where a = a and b = t]) (use t in auto)
  ultimately have "map_option out (start_client ?p fuel 0 0 no_vars) = Some (ping_lines n)"
    using a(1) by (simp add: start_client_def Let_def)
  then show ?thesis using assms(1) by (auto simp: ping_main_def)
qed

theorem ping_alternates_witness: "ping_main 100 [''ping'', ''9''] = Some (Inr (ping_lines 9))"
proof (rule ping_alternates)
  show "atoi ''9'' = Some (int 9)" by code_simp
qed simp

section \<open>Recorded outputs\<close>

lemma one_recorded: "one_main 10 = Some [''t0 start'']"
  by code_simp

lemma passing_recorded_0_0:
  "passing_main 60 [''passing'', ''0'', ''0'']
     = Some (Inr [''t0 start 0'', ''t0 end''])"
  by code_simp

lemma passing_recorded_0_1:
  "passing_main 60 [''passing'', ''0'', ''1'']
     = Some (Inr [''t0 start 0'', ''t0 end''])"
  by code_simp

lemma passing_recorded_0_2:
  "passing_main 60 [''passing'', ''0'', ''2'']
     = Some (Inr [''t0 start 0'', ''t0 end''])"
  by code_simp

lemma passing_recorded_1_0:
  "passing_main 60 [''passing'', ''1'', ''0'']
     = Some (Inr [''t0 start 1'', ''t0 create'', ''t0 end'', ''t0 start 0'', ''t0 end''])"
  by code_simp

lemma passing_recorded_1_1:
  "passing_main 60 [''passing'', ''1'', ''1'']
     = Some (Inr [''t0 start 1'', ''t0 create'', ''t0 start 0'', ''t0 end'', ''t0 end''])"
  by code_simp

lemma passing_recorded_1_2:
  "passing_main 60 [''passing'', ''1'', ''2'']
     = Some (Inr [''t0 start 1'', ''t0 create'', ''t0 start 0'', ''t0 end'', ''t0 end''])"
  by code_simp

lemma passing_recorded_2_0:
  "passing_main 60 [''passing'', ''2'', ''0'']
     = Some (Inr [''t0 start 2'', ''t0 create'', ''t0 end'', ''t0 start 1'', ''t0 create'', ''t0 end'', ''t0 start 0'',
      ''t0 end''])"
  by code_simp

lemma passing_recorded_2_1:
  "passing_main 60 [''passing'', ''2'', ''1'']
     = Some (Inr [''t0 start 2'', ''t0 create'', ''t0 start 1'', ''t0 create'', ''t0 end'', ''t0 start 0'', ''t0 end'',
      ''t0 end''])"
  by code_simp

lemma passing_recorded_2_2:
  "passing_main 60 [''passing'', ''2'', ''2'']
     = Some (Inr [''t0 start 2'', ''t0 create'', ''t0 start 1'', ''t0 create'', ''t0 start 0'', ''t0 end'', ''t0 end'',
      ''t0 end''])"
  by code_simp

lemma tree_recorded_1_1_1_1:
  "tree_main 200 [''tree'', ''1'', ''1'', ''1'', ''1'']
     = Some (Inr [''t0 start'', ''t0 create 0'', ''t1 0 start'', ''t1 0 create 0'', ''t2 0 start'', ''t1 0 end'', ''t0 end''])"
  by code_simp

lemma tree_recorded_2_1_1_0:
  "tree_main 200 [''tree'', ''2'', ''1'', ''1'', ''0'']
     = Some (Inr [''t0 start'', ''t0 create 0'', ''t1 0 start'', ''t1 0 create 0'', ''t0 create 1'', ''t2 0 start'',
      ''t1 0 end'', ''t1 1 start'', ''t1 1 create 0'', ''t0 end'', ''t2 0 start'', ''t1 1 end''])"
  by code_simp

lemma tree_recorded_2_2_0_1:
  "tree_main 200 [''tree'', ''2'', ''2'', ''0'', ''1'']
     = Some (Inr [''t0 start'', ''t0 create 0'', ''t0 create 1'', ''t1 0 start'', ''t1 0 create 0'', ''t1 0 create 1'',
      ''t1 1 start'', ''t1 1 create 0'', ''t1 1 create 1'', ''t2 0 start'', ''t2 1 start'', ''t2 0 start'',
      ''t2 1 start'', ''t1 0 end'', ''t1 1 end'', ''t0 end''])"
  by code_simp

lemma tree_recorded_2_2_1_0:
  "tree_main 200 [''tree'', ''2'', ''2'', ''1'', ''0'']
     = Some (Inr [''t0 start'', ''t0 create 0'', ''t1 0 start'', ''t1 0 create 0'', ''t0 create 1'', ''t2 0 start'',
      ''t1 0 create 1'', ''t1 1 start'', ''t1 1 create 0'', ''t0 end'', ''t2 1 start'', ''t1 0 end'',
      ''t2 0 start'', ''t1 1 create 1'', ''t2 1 start'', ''t1 1 end''])"
  by code_simp

lemma tree_recorded_2_2_1_1:
  "tree_main 200 [''tree'', ''2'', ''2'', ''1'', ''1'']
     = Some (Inr [''t0 start'', ''t0 create 0'', ''t1 0 start'', ''t1 0 create 0'', ''t0 create 1'', ''t2 0 start'',
      ''t1 0 create 1'', ''t1 1 start'', ''t1 1 create 0'', ''t2 1 start'', ''t1 0 end'', ''t2 0 start'',
      ''t1 1 create 1'', ''t2 1 start'', ''t1 1 end'', ''t0 end''])"
  by code_simp

lemma tree_recorded_0_2_0_1:
  "tree_main 200 [''tree'', ''0'', ''2'', ''0'', ''1'']
     = Some (Inr [''t0 start'', ''t0 end''])"
  by code_simp

lemma tree_recorded_1_0_1_1:
  "tree_main 200 [''tree'', ''1'', ''0'', ''1'', ''1'']
     = Some (Inr [''t0 start'', ''t0 create 0'', ''t1 0 start'', ''t1 0 end'', ''t0 end''])"
  by code_simp

lemma tree_recorded_2_2_0_0:
  "tree_main 200 [''tree'', ''2'', ''2'', ''0'', ''0'']
     = Some (Inr [''t0 start'', ''t0 create 0'', ''t0 create 1'', ''t0 end'', ''t1 0 start'', ''t1 0 create 0'',
      ''t1 0 create 1'', ''t1 0 end'', ''t1 1 start'', ''t1 1 create 0'', ''t1 1 create 1'', ''t1 1 end'',
      ''t2 0 start'', ''t2 1 start'', ''t2 0 start'', ''t2 1 start''])"
  by code_simp

lemma fib_recorded_0: "fib_main 60 [''fib'', ''0''] = Some (0, ''fib(0) = 0'')"
  by code_simp

lemma fib_recorded_2: "fib_main 60 [''fib'', ''2''] = Some (0, ''fib(2) = 1'')"
  by code_simp

lemma fib_recorded_3: "fib_main 60 [''fib'', ''3''] = Some (0, ''fib(3) = 2'')"
  by code_simp

text \<open>
  The model prints what the real library prints: for these arguments of \<open>tree\<close>, which creates
  two levels of threads, yields after each and joins the last, the lines are those of the recorded outputs
  of the repository.
\<close>

theorem tree_recorded:
  "tree_main 200 [''tree'', ''1'', ''1'', ''1'', ''1'']
     = Some (Inr [''t0 start'', ''t0 create 0'', ''t1 0 start'', ''t1 0 create 0'', ''t2 0 start'', ''t1 0 end'', ''t0 end''])
    \<and> tree_main 200 [''tree'', ''2'', ''2'', ''0'', ''1'']
     = Some (Inr [''t0 start'', ''t0 create 0'', ''t0 create 1'', ''t1 0 start'', ''t1 0 create 0'', ''t1 0 create 1'',
      ''t1 1 start'', ''t1 1 create 0'', ''t1 1 create 1'', ''t2 0 start'', ''t2 1 start'', ''t2 0 start'',
      ''t2 1 start'', ''t1 0 end'', ''t1 1 end'', ''t0 end''])
    \<and> tree_main 200 [''tree'', ''2'', ''2'', ''1'', ''1'']
     = Some (Inr [''t0 start'', ''t0 create 0'', ''t1 0 start'', ''t1 0 create 0'', ''t0 create 1'', ''t2 0 start'',
      ''t1 0 create 1'', ''t1 1 start'', ''t1 1 create 0'', ''t2 1 start'', ''t1 0 end'', ''t2 0 start'',
      ''t1 1 create 1'', ''t2 1 start'', ''t1 1 end'', ''t0 end''])"
  by (intro conjI tree_recorded_1_1_1_1 tree_recorded_2_2_0_1 tree_recorded_2_2_1_1)

end
