(* ===== verification/Shell_Lexer.thy ===== *)
theory Shell_Lexer
  imports Prelude
begin

text \<open>
  The scanner of the shell, \<open>nextToken\<close> of \<open>hw2/parse.c\<close>. Standard input is the list of bytes still
  to be read; the static buffer \<open>Word\<close> is the list of bytes written to it since the call began, and
  writing beyond its \<open>BUF_SIZE + 1\<close> bytes is undefined. The lemmas show that the buffer is never
  overrun, that every call makes progress, and which bytes make which token.
\<close>

section \<open>Tokens, buffer and input\<close>

datatype token = Terror | Tword | Tamp | Tpipe | Tsemi | Tin | Tout
  | Tapp | TpipeErr | ToutErr | TappErr | Tnl | Tnil | Tend

definition BUF_SIZE :: nat where
  "BUF_SIZE = 63"

abbreviation EOS :: char where
  "EOS \<equiv> CHR 0x00"

abbreviation newline :: char where
  "newline \<equiv> CHR 0x0A"

abbreviation tab :: char where
  "tab \<equiv> CHR 0x09"

abbreviation backslash :: char where
  "backslash \<equiv> CHR 0x5C"

abbreviation squote :: char where
  "squote \<equiv> CHR 0x27"

abbreviation dquote :: char where
  "dquote \<equiv> CHR 0x22"

text \<open>\<open>*p++ = c\<close> where \<open>p\<close> points behind the bytes written so far.\<close>

definition put_char :: "string \<Rightarrow> char \<Rightarrow> string option" where
  "put_char w c = (if length w < BUF_SIZE + 1 then Some (w @ [c]) else None)"

text \<open>
  \<open>c = getchar(); if (c < 0)\<close> with \<open>c\<close> a (signed) \<open>char\<close>: the end of input and every byte from 0x80 on
  look the same, except that the byte is consumed. \<open>None\<close> is such a negative value.
\<close>

fun getchar :: "string \<Rightarrow> char option \<times> string" where
  "getchar [] = (None, [])"
| "getchar (c # cs) = ((if digit7 c then None else Some c), cs)"

text \<open>
  What a call gives: the token, the buffer, the rest of the input, and the diagnostics it printed.
\<close>

record lexed =
  lx_tok :: token
  lx_word :: string
  lx_rest :: string
  lx_out :: "string list"

definition lex_result :: "token \<Rightarrow> string \<Rightarrow> string \<Rightarrow> string list \<Rightarrow> lexed" where
  "lex_result t w r out = \<lparr>lx_tok = t, lx_word = w, lx_rest = r, lx_out = out\<rparr>"

lemma lexed_sel [simp]:
  "lx_tok (lex_result t w r out) = t" "lx_word (lex_result t w r out) = w"
  "lx_rest (lex_result t w r out) = r" "lx_out (lex_result t w r out) = out"
  by (simp_all add: lex_result_def)

lemma lex_result_inject [simp]:
  "lex_result t w r out = lex_result t' w' r' out' \<longleftrightarrow> t = t' \<and> w = w' \<and> r = r' \<and> out = out'"
  by (auto simp: lex_result_def)

definition unmatched :: "char \<Rightarrow> string" where
  "unmatched q = ''Unmatched '' @ [q, newline]"

definition string_too_long :: string where
  "string_too_long = ''String too long (> 63 bytes)'' @ [newline]"

definition word_too_long :: string where
  "word_too_long = ''Word too long (> 63 bytes)'' @ [newline]"

section \<open>The scanner\<close>

text \<open>\<open>while ( (c = getchar()) > 0 && c != '\n' ) ;\<close>\<close>

fun skip_line :: "string \<Rightarrow> string" where
  "skip_line [] = []"
| "skip_line (c # cs) = (if digit7 c \<or> c = EOS \<or> c = newline then cs else skip_line cs)"

text \<open>The label \<open>string:\<close>, after the opening quote \<open>q\<close>.\<close>

fun string_loop :: "char \<Rightarrow> string \<Rightarrow> string \<Rightarrow> lexed option" where
  "string_loop q w [] = Some (lex_result Terror w [] [unmatched q])"
| "string_loop q w (c # cs) =
     (if c = q then do { w' \<leftarrow> put_char w EOS; Some (lex_result Tword w' cs []) }
      else if digit7 c \<or> c = newline then Some (lex_result Terror w cs [unmatched q])
      else do {
        w' \<leftarrow> put_char w c;
        if length w' > BUF_SIZE then Some (lex_result Terror w' (skip_line cs) [string_too_long])
        else string_loop q w' cs })"

text \<open>\<open>if ( c == '\\' ) ReadChar(c);\<close>: the character to store, or the end of input.\<close>

fun unescape :: "char \<Rightarrow> string \<Rightarrow> char option \<times> string" where
  "unescape c cs = (if c = backslash then getchar cs else (Some c, cs))"

definition ends_word :: "char \<Rightarrow> bool" where
  "ends_word c \<longleftrightarrow> c \<in> set [newline, CHR ''&'', CHR '';'', CHR ''<'', CHR ''|'', CHR ''>'']"

lemma getchar_length: "getchar cs = (x, cs') \<Longrightarrow> length cs' \<le> length cs"
  by (cases cs) auto

lemma getchar_Some: "getchar cs = (Some c, cs') \<longleftrightarrow> cs = c # cs' \<and> \<not> digit7 c"
  by (cases cs) auto

lemma unescape_length: "unescape c cs = (x, cs') \<Longrightarrow> length cs' \<le> length cs"
  by (auto split: if_splits dest: getchar_length)

lemma unescape_getchar_length:
  "unescape c cs = (x, cs1) \<Longrightarrow> getchar cs1 = (Some c2, cs2) \<Longrightarrow> length cs2 < length cs"
  using unescape_length [of c cs x cs1] by (auto simp: getchar_Some)

declare unescape.simps [simp del]

text \<open>The \<open>default:\<close> case: \<open>c\<close> is the character just read, \<open>cs\<close> the rest of the input.\<close>

function word_loop :: "char \<Rightarrow> string \<Rightarrow> string \<Rightarrow> lexed option" where
  "word_loop c w cs = (case unescape c cs of
       (None, cs1) \<Rightarrow> Some (lex_result Terror w cs1 [])
     | (Some c1, cs1) \<Rightarrow> do {
         w' \<leftarrow> put_char w c1;
         if length w' > BUF_SIZE then Some (lex_result Terror w' (skip_line cs1) [word_too_long])
         else (case getchar cs1 of
             (None, cs2) \<Rightarrow> Some (lex_result Terror w' cs2 [])
           | (Some c2, cs2) \<Rightarrow>
               if c2 = CHR '' '' \<or> c2 = tab
               then do { w'' \<leftarrow> put_char w' EOS; Some (lex_result Tword w'' cs2 []) }
               else if ends_word c2
               then do { w'' \<leftarrow> put_char w' EOS; Some (lex_result Tword w'' (c2 # cs2) []) }
               else if c2 = squote \<or> c2 = dquote then string_loop c2 w' cs2
               else word_loop c2 w' cs2) })"
  by pat_completeness auto
termination
  by (relation "measure (\<lambda>(c, w, cs). length cs)") (auto intro: unescape_getchar_length [OF sym sym])

declare word_loop.simps [simp del]

text \<open>\<open>nextToken()\<close>. Its recursive call for a blank starts again with an empty buffer.\<close>

fun nextToken :: "string \<Rightarrow> lexed option" where
  "nextToken [] = Some (lex_result Tend [] [] [])"
| "nextToken (c # cs) =
     (if digit7 c then Some (lex_result Tend [] cs [])
      else if c = CHR '' '' \<or> c = tab then nextToken cs
      else if c = newline then Some (lex_result Tnl [] cs [])
      else if c = CHR ''&'' then Some (lex_result Tamp [] cs [])
      else if c = CHR '';'' then Some (lex_result Tsemi [] cs [])
      else if c = CHR ''<'' then Some (lex_result Tin [] cs [])
      else if c = CHR ''|'' then (case getchar cs of
          (None, cs1) \<Rightarrow> Some (lex_result Terror [] cs1 [])
        | (Some d, cs1) \<Rightarrow>
            if d = CHR ''&'' then Some (lex_result TpipeErr [] cs1 [])
            else Some (lex_result Tpipe [] (d # cs1) []))
      else if c = CHR ''>'' then (case getchar cs of
          (None, cs1) \<Rightarrow> Some (lex_result Terror [] cs1 [])
        | (Some d, cs1) \<Rightarrow>
            if d = CHR ''>'' then (case getchar cs1 of
                (None, cs2) \<Rightarrow> Some (lex_result Terror [] cs2 [])
              | (Some e, cs2) \<Rightarrow>
                  if e = CHR ''&'' then Some (lex_result TappErr [] cs2 [])
                  else Some (lex_result Tapp [] (e # cs2) []))
            else if d = CHR ''&'' then Some (lex_result ToutErr [] cs1 [])
            else Some (lex_result Tout [] (d # cs1) []))
      else if c = squote \<or> c = dquote then string_loop c [] cs
      else word_loop c [] cs)"

section \<open>Buffer safety and progress\<close>

text \<open>What every scan guarantees, from \<open>n\<close> bytes of unread input.\<close>

definition scan_ok :: "nat \<Rightarrow> lexed \<Rightarrow> bool" where
  "scan_ok n r \<longleftrightarrow> length (lx_rest r) \<le> n \<and> length (lx_word r) \<le> BUF_SIZE + 1
     \<and> (lx_tok r = Tword \<longrightarrow> lx_word r \<noteq> [] \<and> last (lx_word r) = EOS)
     \<and> lx_tok r \<noteq> Tnil"

lemma scan_ok_result [simp]:
  "scan_ok n (lex_result t w r out) \<longleftrightarrow> length r \<le> n \<and> length w \<le> BUF_SIZE + 1
     \<and> (t = Tword \<longrightarrow> w \<noteq> [] \<and> last w = EOS) \<and> t \<noteq> Tnil"
  by (simp add: scan_ok_def)

lemma skip_line_length: "length (skip_line cs) \<le> length cs"
  by (induction cs) auto

lemma put_char_in_range [simp]: "length w \<le> BUF_SIZE \<Longrightarrow> put_char w c = Some (w @ [c])"
  by (simp add: put_char_def)

lemma string_loop_ok:
  "length w \<le> BUF_SIZE \<Longrightarrow>
     \<exists>r. string_loop q w cs = Some r \<and> scan_ok (length cs) r \<and> lx_tok r \<in> {Tword, Terror}"
proof (induction cs arbitrary: w)
  case Nil
  then show ?case by (simp add: scan_ok_def)
next
  case (Cons c cs)
  show ?case
  proof (cases "c = q \<or> digit7 c \<or> c = newline \<or> length w = BUF_SIZE")
    case True
    then show ?thesis using Cons.prems skip_line_length [of cs] by (auto simp: scan_ok_def)
  next
    case False
    with Cons.IH [of "w @ [c]"] Cons.prems show ?thesis by (auto simp: scan_ok_def)
  qed
qed

lemma word_loop_ok:
  "length w \<le> BUF_SIZE \<Longrightarrow>
     \<exists>r. word_loop c w cs = Some r \<and> scan_ok (length cs) r \<and> lx_tok r \<in> {Tword, Terror}"
proof (induction "length cs" arbitrary: c w cs rule: less_induct)
  case less
  obtain x cs1 where u: "unescape c cs = (x, cs1)" by fastforce
  note len = unescape_length [OF u]
  show ?case
  proof (cases x)
    case None
    then show ?thesis using u len less.prems by (simp add: word_loop.simps [of c] scan_ok_def)
  next
    case (Some c1)
    show ?thesis
    proof (cases "length w = BUF_SIZE")
      case True
      then show ?thesis using Some u len skip_line_length [of cs1]
        by (simp add: word_loop.simps [of c] scan_ok_def)
    next
      case False
      with less.prems have w: "length (w @ [c1]) \<le> BUF_SIZE" by simp
      obtain y cs2 where g: "getchar cs1 = (y, cs2)" by fastforce
      show ?thesis
      proof (cases y)
        case None
        then show ?thesis using Some u g w len getchar_length [OF g]
          by (simp add: word_loop.simps [of c] scan_ok_def)
      next
        case (Some c2)
        then have cs1: "cs1 = c2 # cs2" using g by (simp add: getchar_Some)
        have sh: "length cs2 < length cs" using len cs1 by simp
        have mono: "scan_ok (length cs2) r \<Longrightarrow> scan_ok (length cs) r" for r
          using sh by (auto simp: scan_ok_def)
        show ?thesis
          using \<open>x = Some c1\<close> u g w Some len cs1 mono string_loop_ok [OF w, of c2 cs2] less.hyps [OF sh w, of c2]
          by (auto simp: word_loop.simps [of c] scan_ok_def)
      qed
    qed
  qed
qed

lemma nextToken_ok:
  "\<exists>r. nextToken cs = Some r \<and> scan_ok (length cs) r
     \<and> (cs = [] \<longrightarrow> lx_tok r = Tend) \<and> (cs \<noteq> [] \<longrightarrow> length (lx_rest r) < length cs)"
proof (induction cs rule: nextToken.induct)
  case 1
  then show ?case by (simp add: scan_ok_def)
next
  case (2 c cs)
  consider "digit7 c" | "\<not> digit7 c" "c = CHR '' '' \<or> c = tab"
    | "\<not> digit7 c" "c \<noteq> CHR '' ''" "c \<noteq> tab" by blast
  then show ?case
  proof cases
    case 1
    then show ?thesis by simp
  next
    case blank: 2
    then obtain r where "nextToken cs = Some r" "scan_ok (length cs) r" using 2 by blast
    then show ?thesis using blank by (auto simp: scan_ok_def)
  next
    case 3
    obtain x cs1 where g: "getchar cs = (x, cs1)" by fastforce
    obtain y cs2 where g2: "getchar cs1 = (y, cs2)" by fastforce
    note len = getchar_length [OF g] getchar_length [OF g2]
    obtain r1 where r1: "string_loop c [] cs = Some r1" "scan_ok (length cs) r1"
      using string_loop_ok [of "[]" c cs] by auto
    obtain r2 where r2: "word_loop c [] cs = Some r2" "scan_ok (length cs) r2"
      using word_loop_ok [of "[]" c cs] by auto
    from r1(2) r2(2) have "scan_ok (Suc (length cs)) r1" "scan_ok (Suc (length cs)) r2"
      "length (lx_rest r1) < Suc (length cs)" "length (lx_rest r2) < Suc (length cs)"
      by (auto simp: scan_ok_def)
    with r1(1) r2(1) g g2 len 3 show ?thesis
      by (cases x; cases y) (simp_all add: getchar_Some)
  qed
qed

section \<open>Which bytes make which token\<close>

text \<open>A word written with every byte escaped, as a caller of the shell can always write it.\<close>

definition escape :: "string \<Rightarrow> string" where
  "escape w = concat (map (\<lambda>c. [backslash, c]) w)"

lemma escape_simps [simp]: "escape [] = []" "escape (c # w) = backslash # c # escape w"
  by (simp_all add: escape_def)

text \<open>The bytes that may follow a word, and what is left of them for the next call.\<close>

definition blank :: "char \<Rightarrow> bool" where
  "blank c \<longleftrightarrow> c = CHR '' '' \<or> c = tab"

definition after_word :: "char \<Rightarrow> string \<Rightarrow> string" where
  "after_word d rest = (if blank d then rest else d # rest)"

lemma ends_word_backslash [simp]: "\<not> ends_word backslash" "\<not> blank backslash" "\<not> digit7 backslash"
  by (simp_all add: ends_word_def blank_def)

lemma delimiter_byte: "blank d \<or> ends_word d \<Longrightarrow> \<not> digit7 d"
  by (auto simp: blank_def ends_word_def)

lemma word_loop_escaped:
  assumes "\<forall>x \<in> set (c # w). \<not> digit7 x" and "length v + length (c # w) \<le> BUF_SIZE"
    and "blank d \<or> ends_word d"
  shows "word_loop backslash v (c # escape w @ d # rest)
    = Some (lex_result Tword (v @ c # w @ [EOS]) (after_word d rest) [])"
  using assms
proof (induction w arbitrary: c v)
  case Nil
  then show ?case using delimiter_byte [of d]
    by (auto simp: word_loop.simps unescape.simps blank_def after_word_def)
next
  case (Cons c' w)
  from Cons.IH [of c' "v @ [c]"] Cons.prems
  have "word_loop backslash (v @ [c]) (c' # escape w @ d # rest)
      = Some (lex_result Tword (v @ c # c' # w @ [EOS]) (after_word d rest) [])" by simp
  then show ?case using Cons.prems
    by (simp add: word_loop.simps [of _ v] unescape.simps)
qed

lemma nextToken_escaped:
  assumes "w \<noteq> []" and "\<forall>x \<in> set w. \<not> digit7 x" and "length w \<le> BUF_SIZE" and "blank d \<or> ends_word d"
  shows "nextToken (escape w @ d # rest) = Some (lex_result Tword (w @ [EOS]) (after_word d rest) [])"
  using assms word_loop_escaped [of _ "tl w" "[]" d rest] by (cases w) auto

lemma nextToken_blank [simp]: "blank d \<Longrightarrow> nextToken (d # cs) = nextToken cs"
  by (auto simp: blank_def)

lemma string_loop_quoted:
  assumes "q \<notin> set w" and "\<forall>c \<in> set w. \<not> digit7 c \<and> c \<noteq> newline" and "length v + length w \<le> BUF_SIZE"
  shows "string_loop q v (w @ q # rest) = Some (lex_result Tword (v @ w @ [EOS]) rest [])"
  using assms by (induction w arbitrary: v) auto

section \<open>Properties of the scanner\<close>

text \<open>
  The scanner never writes outside \<open>Word\<close>, always returns, and makes progress: on a
  non-empty input it consumes at least one byte, on an empty one it returns \<open>Tend\<close>; a word it returns
  is a terminated string of at most \<open>BUF_SIZE\<close> bytes.
\<close>

theorem nextToken_safe:
  "\<exists>r. nextToken cs = Some r \<and> length (lx_word r) \<le> BUF_SIZE + 1
    \<and> (cs = [] \<longrightarrow> lx_tok r = Tend) \<and> (cs \<noteq> [] \<longrightarrow> length (lx_rest r) < length cs)
    \<and> (lx_tok r = Tword \<longrightarrow> lx_word r \<noteq> [] \<and> last (lx_word r) = EOS)"
  using nextToken_ok [of cs] by (auto simp: scan_ok_def)

theorem nextToken_safe_witness:
  "\<exists>r. nextToken ''ls >x'' = Some r \<and> length (lx_rest r) < length ''ls >x''"
  using nextToken_safe [of "''ls >x''"] by blast

text \<open>
  Quoting round trip. Any word of 1 to 63 bytes below 0x80, whatever special characters
  it has, is read back as one word when it is written with each byte escaped by a backslash.
\<close>

theorem nextToken_escape_roundtrip:
  assumes "w \<noteq> []" and "\<forall>x \<in> set w. \<not> digit7 x" and "length w \<le> BUF_SIZE" and "blank d \<or> ends_word d"
  shows "nextToken (escape w @ d # rest) = Some (lex_result Tword (w @ [EOS]) (after_word d rest) [])"
  using assms by (rule nextToken_escaped)

theorem nextToken_escape_roundtrip_witness:
  "nextToken (escape ''a|;'' @ CHR ''>'' # ''f'') = Some (lex_result Tword (''a|;'' @ [EOS]) ''>f'' [])"
  using nextToken_escape_roundtrip [of "''a|;''" "CHR ''>''" "''f''"]
  by (simp add: BUF_SIZE_def ends_word_def after_word_def blank_def)

text \<open>
  A quoted string without newline and of at most 63 bytes is one word with its bytes
  unchanged; the word ends at the closing quote, even when more characters follow it directly.
\<close>

theorem nextToken_quoted:
  assumes "q = squote \<or> q = dquote" and "q \<notin> set w"
    and "\<forall>c \<in> set w. \<not> digit7 c \<and> c \<noteq> newline" and "length w \<le> BUF_SIZE"
  shows "nextToken (q # w @ q # rest) = Some (lex_result Tword (w @ [EOS]) rest [])"
proof -
  have "string_loop q [] (w @ q # rest) = Some (lex_result Tword (w @ [EOS]) rest [])"
    using string_loop_quoted [OF assms(2,3), of "[]" rest] assms(4) by simp
  then show ?thesis using assms(1) by (elim disjE) simp_all
qed

theorem nextToken_quoted_witness:
  "nextToken (dquote # ''a b'' @ dquote # ''c'') = Some (lex_result Tword (''a b'' @ [EOS]) ''c'' [])"
  using nextToken_quoted [of dquote "''a b''" "''c''"] by (simp add: BUF_SIZE_def)

end
