(* ===== verification/Shell_Parser.thy ===== *)
theory Shell_Parser
  imports Shell_Lexer
begin

text \<open>
  The parser of the shell, \<open>mkCmd\<close>, \<open>mkPipe\<close> and \<open>parse\<close> of \<open>hw2/parse.c\<close> with the data of \<open>parse.h\<close>.
  A pipe is the list of its commands (the chain of \<open>next\<close> pointers from \<open>head\<close>), and the pipes of a
  line are a list, in which \<open>[]\<close> is the \<open>NULL\<close> pointer. The argument vector of a command keeps its
  allocated slots, so that a write beyond \<open>maxargs\<close> is undefined. \<open>ckmalloc\<close> and \<open>realloc\<close> do not fail.
\<close>

section \<open>Data\<close>

datatype slot = Uninit | Null | Str string

record cmd_t =
  cexec :: token
  cin :: token
  cout :: token
  infile :: "string option"
  outfile :: "string option"
  nargs :: nat
  maxargs :: nat
  args :: "slot list"

datatype Ptype = Pout | PoutErr

record pipe_t =
  ptype :: Ptype
  cmds :: "cmd_t list"

text \<open>The static state of the parser and the two streams it uses.\<close>

record pstate =
  stdin :: string
  Word :: string
  LookAhead :: token
  printed :: "string list"

definition CmdToken :: "token \<Rightarrow> bool" where
  "CmdToken t \<longleftrightarrow> t = Tsemi \<or> t = Tamp"

definition InCmd :: "token \<Rightarrow> bool" where
  "InCmd t \<longleftrightarrow> t = Tword \<or> t = Tin \<or> t = Tout \<or> t = Tapp \<or> t = ToutErr \<or> t = TappErr"

definition PipeToken :: "token \<Rightarrow> bool" where
  "PipeToken t \<longleftrightarrow> t = Tpipe \<or> t = TpipeErr"

definition EndOfInput :: "token \<Rightarrow> bool" where
  "EndOfInput t \<longleftrightarrow> t = Tend \<or> t = Tnl \<or> t = Terror"

definition ERR_MSG :: string where
  "ERR_MSG = ''Invalid input'' @ [newline]"

definition ambiguous_in :: string where
  "ambiguous_in = ''Ambiguous input redirect.'' @ [newline]"

definition ambiguous_out :: string where
  "ambiguous_out = ''Ambiguous output redirect.'' @ [newline]"

definition null_command :: string where
  "null_command = ''Invalid null command.'' @ [newline]"

definition print_msg :: "string \<Rightarrow> pstate \<Rightarrow> pstate" where
  "print_msg m st = st\<lparr>printed := printed st @ [m]\<rparr>"

text \<open>The static commands \<open>Empty\<close> and \<open>End\<close>; the parser never writes to them.\<close>

definition End :: cmd_t where
  "End = \<lparr>cexec = Tnil, cin = Tnil, cout = Tnil, infile = Some [], outfile = Some [],
          nargs = 1, maxargs = 1, args = [Str ''end'']\<rparr>"

datatype mk_result = NullCmd | EmptyCmd | EndCmd | ACmd cmd_t

section \<open>Commands\<close>

definition Next :: "pstate \<Rightarrow> pstate option" where
  "Next st = do {
     r \<leftarrow> nextToken (stdin st);
     Some (st\<lparr>stdin := lx_rest r, Word := lx_word r, LookAhead := lx_tok r, printed := printed st @ lx_out r\<rparr>) }"

text \<open>\<open>strcpy\<close> copies up to the first \<open>EOS\<close>; a buffer without one would be read beyond its end.\<close>

definition mkWord :: "string \<Rightarrow> string option" where
  "mkWord s = (if EOS \<in> set s then Some (takeWhile (\<lambda>c. c \<noteq> EOS) s) else None)"

definition newCmd :: "string \<Rightarrow> cmd_t option" where
  "newCmd cmd = do {
     w \<leftarrow> mkWord cmd;
     Some \<lparr>cexec = Tsemi, cin = Tnil, cout = Tnil, infile = None, outfile = None,
           nargs = 1, maxargs = 4, args = [Str w, Uninit, Uninit, Uninit]\<rparr> }"

definition set_arg :: "nat \<Rightarrow> slot \<Rightarrow> cmd_t \<Rightarrow> cmd_t option" where
  "set_arg i v c = (if i < length (args c) then Some (c\<lparr>args := (args c)[i := v]\<rparr>) else None)"

definition grow_args :: "cmd_t \<Rightarrow> cmd_t" where
  "grow_args c = (if nargs c + 2 > maxargs c
     then c\<lparr>maxargs := maxargs c + maxargs c, args := args c @ replicate (maxargs c) Uninit\<rparr>
     else c)"

text \<open>The case \<open>Tword\<close> of \<open>mkCmd\<close>, before its \<open>Next()\<close>.\<close>

definition add_word :: "string \<Rightarrow> cmd_t \<Rightarrow> cmd_t option" where
  "add_word word c = do {
     let c1 = grow_args c;
     w \<leftarrow> mkWord word;
     c2 \<leftarrow> set_arg (nargs c1) (Str w) c1;
     Some (c2\<lparr>nargs := Suc (nargs c2)\<rparr>) }"

text \<open>
  How much a parser state can still consume: every \<open>Next()\<close> at a token that does not end the input
  makes it smaller.
\<close>

definition todo :: "pstate \<Rightarrow> nat" where
  "todo st = length (stdin st) + (if EndOfInput (LookAhead st) then 0 else 1)"

lemma Next_todo:
  assumes "Next st = Some st'"
  shows "todo st' \<le> todo st" and "\<not> EndOfInput (LookAhead st) \<Longrightarrow> todo st' < todo st"
    and "\<not> EndOfInput (LookAhead st') \<Longrightarrow> length (stdin st') < length (stdin st)"
proof -
  obtain r where r: "nextToken (stdin st) = Some r" "stdin st = [] \<longrightarrow> lx_tok r = Tend"
    "stdin st \<noteq> [] \<longrightarrow> length (lx_rest r) < length (stdin st)" "length (lx_rest r) \<le> length (stdin st)"
    using nextToken_ok [of "stdin st"] by (auto simp: scan_ok_def)
  have st': "stdin st' = lx_rest r" "LookAhead st' = lx_tok r" using assms r(1) by (auto simp: Next_def)
  show "todo st' \<le> todo st" and "\<not> EndOfInput (LookAhead st) \<Longrightarrow> todo st' < todo st"
    and "\<not> EndOfInput (LookAhead st') \<Longrightarrow> length (stdin st') < length (stdin st)"
    using r(2-4) st' by (cases "stdin st"; auto simp: todo_def EndOfInput_def)+
qed

text \<open>\<open>do { Next(); } while ( !EndOfInput(LA) );\<close>\<close>

function skip_to_end :: "pstate \<Rightarrow> pstate option" where
  "skip_to_end st = do {
     st' \<leftarrow> Next st;
     if EndOfInput (LookAhead st') then Some st' else skip_to_end st' }"
  by pat_completeness auto
termination
  by (relation "measure (\<lambda>st. length (stdin st))") (auto dest: Next_todo(3))

text \<open>\<open>while ( !EndOfInput(LA) ) Next();\<close>\<close>

definition finish_line :: "pstate \<Rightarrow> pstate option" where
  "finish_line st = (if EndOfInput (LookAhead st) then Some st else skip_to_end st)"

text \<open>\<open>while ( CmdToken(LA) ) Next();\<close>\<close>

function skip_semis :: "pstate \<Rightarrow> pstate option" where
  "skip_semis st = (if CmdToken (LookAhead st) then do { st' \<leftarrow> Next st; skip_semis st' } else Some st)"
  by pat_completeness auto
termination
  by (relation "measure todo") (auto simp: CmdToken_def EndOfInput_def dest: Next_todo(2))

text \<open>
  The error exits of the loop of \<open>mkCmd\<close>: print, skip to the end of the line, give up the command.
\<close>

definition give_up :: "string \<Rightarrow> pstate \<Rightarrow> (cmd_t option \<times> pstate) option" where
  "give_up msg st = do { st' \<leftarrow> skip_to_end (print_msg msg st); Some (None, st') }"

text \<open>The body of the loop: one redirection or one argument. \<open>None\<close> as command: it was given up.\<close>

definition cmd_step :: "cmd_t \<Rightarrow> pstate \<Rightarrow> (cmd_t option \<times> pstate) option" where
  "cmd_step c st =
     (if LookAhead st = Tin then
        if cin c \<noteq> Tnil then give_up ambiguous_in st
        else do {
          let c1 = c\<lparr>cin := LookAhead st\<rparr>;
          st1 \<leftarrow> Next st;
          if LookAhead st1 \<noteq> Tword then give_up ERR_MSG st1
          else do {
            w \<leftarrow> mkWord (Word st1);
            st2 \<leftarrow> Next st1;
            Some (Some (c1\<lparr>infile := Some w\<rparr>), st2) } }
      else if LookAhead st = Tword then do {
        c1 \<leftarrow> add_word (Word st) c;
        st1 \<leftarrow> Next st;
        Some (Some c1, st1) }
      else
        if cout c \<noteq> Tnil then give_up ambiguous_out st
        else do {
          let c1 = c\<lparr>cout := LookAhead st\<rparr>;
          st1 \<leftarrow> Next st;
          if LookAhead st1 \<noteq> Tword then give_up ERR_MSG st1
          else do {
            w \<leftarrow> mkWord (Word st1);
            st2 \<leftarrow> Next st1;
            Some (Some (c1\<lparr>outfile := Some w\<rparr>), st2) } })"

lemma skip_to_end_todo: "skip_to_end st = Some st' \<Longrightarrow> todo st' \<le> todo st \<and> EndOfInput (LookAhead st')"
proof (induction st rule: skip_to_end.induct)
  case (1 st)
  then obtain s where s: "Next st = Some s" by (auto simp: bind_eq_Some_conv skip_to_end.simps [of st])
  with 1 show ?case using Next_todo(1) [OF s]
    by (auto simp: skip_to_end.simps [of st] split: if_splits)
qed

declare skip_to_end.simps [simp del] skip_semis.simps [simp del]

lemma print_msg_sel [simp]:
  "todo (print_msg m st) = todo st" "stdin (print_msg m st) = stdin st"
  "LookAhead (print_msg m st) = LookAhead st" "Word (print_msg m st) = Word st"
  by (simp_all add: print_msg_def todo_def)

lemma cmd_step_todo:
  assumes "cmd_step c st = Some (Some c', st')" and "InCmd (LookAhead st)"
  shows "todo st' < todo st"
  using assms
  by (auto simp: cmd_step_def give_up_def Let_def InCmd_def EndOfInput_def elim!: bind_SomeE split: if_splits
      dest!: Next_todo(2))

function cmd_loop :: "cmd_t \<Rightarrow> pstate \<Rightarrow> (cmd_t option \<times> pstate) option" where
  "cmd_loop c st =
     (if InCmd (LookAhead st) then do {
        (r, st') \<leftarrow> cmd_step c st;
        case r of None \<Rightarrow> Some (None, st') | Some c' \<Rightarrow> cmd_loop c' st' }
      else Some (Some c, st))"
  by pat_completeness auto
termination
  by (relation "measure (\<lambda>(c, st). todo st)") (auto dest: cmd_step_todo)

declare cmd_loop.simps [simp del]

text \<open>The end of \<open>mkCmd\<close>, after its loop.\<close>

definition finish_cmd :: "cmd_t \<Rightarrow> pstate \<Rightarrow> (mk_result \<times> pstate) option" where
  "finish_cmd c st =
     (if LookAhead st = Terror then Some (NullCmd, st)
      else do {
        (c1, st1) \<leftarrow>
          (if LookAhead st = Tsemi then do { s \<leftarrow> Next st; Some (c, s) }
           else if LookAhead st = Tamp then do { s \<leftarrow> Next st; Some (c\<lparr>cexec := Tamp\<rparr>, s) }
           else Some (c, st));
        c2 \<leftarrow> set_arg (nargs c1) Null c1;
        Some (ACmd c2, st1) })"

definition mkCmd :: "token \<Rightarrow> pstate \<Rightarrow> (mk_result \<times> pstate) option" where
  "mkCmd inpipe st0 = do {
     st \<leftarrow> skip_semis st0;
     if LookAhead st \<noteq> Tword then
       (if LookAhead st = Tend then Some (EndCmd, st)
        else if LookAhead st = Tnl \<or> LookAhead st = Terror then Some (EmptyCmd, st)
        else Some (NullCmd, print_msg ERR_MSG st))
     else do {
       c \<leftarrow> newCmd (Word st);
       st1 \<leftarrow> Next st;
       (r, st2) \<leftarrow> cmd_loop (c\<lparr>cin := inpipe\<rparr>) st1;
       case r of None \<Rightarrow> Some (NullCmd, st2) | Some c' \<Rightarrow> finish_cmd c' st2 } }"

section \<open>Pipes\<close>

lemma skip_semis_todo:
  "skip_semis st = Some st' \<Longrightarrow> todo st' \<le> todo st \<and> \<not> CmdToken (LookAhead st')
     \<and> (EndOfInput (LookAhead st) \<longrightarrow> st' = st)"
proof (induction st rule: skip_semis.induct)
  case (1 st)
  show ?case
  proof (cases "CmdToken (LookAhead st)")
    case True
    with 1 obtain s where s: "Next st = Some s" "skip_semis s = Some st'"
      by (auto simp: skip_semis.simps [of st] elim: bind_SomeE)
    moreover have "\<not> EndOfInput (LookAhead st)" using True by (auto simp: CmdToken_def EndOfInput_def)
    ultimately show ?thesis using 1 True Next_todo(1) [OF s(1)] by fastforce
  next
    case False
    with 1 show ?thesis by (simp add: skip_semis.simps [of st])
  qed
qed

lemma cmd_step_le: "cmd_step c st = Some (r, st') \<Longrightarrow> todo st' \<le> todo st"
  by (auto simp: cmd_step_def give_up_def Let_def elim!: bind_SomeE split: if_splits
      dest!: Next_todo(1) skip_to_end_todo)

lemma cmd_loop_le: "cmd_loop c st = Some (r, st') \<Longrightarrow> todo st' \<le> todo st"
proof (induction c st rule: cmd_loop.induct)
  case (1 c st)
  show ?case
  proof (cases "InCmd (LookAhead st)")
    case True
    with 1(2) obtain r1 s where s: "cmd_step c st = Some (r1, s)"
      by (auto simp: cmd_loop.simps [of c] elim: bind_SomeE)
    with 1 True cmd_step_le [OF s] show ?thesis
      by (cases r1) (fastforce simp: cmd_loop.simps [of c])+
  next
    case False
    with 1 show ?thesis by (simp add: cmd_loop.simps [of c])
  qed
qed

lemma finish_cmd_le: "finish_cmd c st = Some (r, st') \<Longrightarrow> todo st' \<le> todo st"
  by (auto simp: finish_cmd_def elim!: bind_SomeE split: if_splits dest!: Next_todo(1))

text \<open>\<open>mkCmd\<close> once the leading separators are skipped and a word is ahead.\<close>

definition read_cmd :: "token \<Rightarrow> pstate \<Rightarrow> (mk_result \<times> pstate) option" where
  "read_cmd inpipe st = do {
     c \<leftarrow> newCmd (Word st);
     st1 \<leftarrow> Next st;
     (r, st2) \<leftarrow> cmd_loop (c\<lparr>cin := inpipe\<rparr>) st1;
     case r of None \<Rightarrow> Some (NullCmd, st2) | Some c' \<Rightarrow> finish_cmd c' st2 }"

lemma mkCmd_alt:
  "mkCmd t st = do {
     s \<leftarrow> skip_semis st;
     if LookAhead s = Tword then read_cmd t s
     else Some (if LookAhead s = Tend then (EndCmd, s)
       else if LookAhead s = Tnl \<or> LookAhead s = Terror then (EmptyCmd, s) else (NullCmd, print_msg ERR_MSG s)) }"
  by (cases "skip_semis st") (auto simp: mkCmd_def read_cmd_def)

lemma finish_cmd_result: "finish_cmd c st = Some (r, st') \<Longrightarrow> r = NullCmd \<or> (\<exists>c'. r = ACmd c')"
  by (auto simp: finish_cmd_def elim!: bind_SomeE split: if_splits)

lemma read_cmd_todo:
  assumes "read_cmd t st = Some (r, st')" and "LookAhead st = Tword"
  shows "todo st' < todo st" and "r = NullCmd \<or> (\<exists>c. r = ACmd c)"
proof -
  from assms(1) obtain c st1 x st2 where 1: "Next st = Some st1"
    "cmd_loop (c\<lparr>cin := t\<rparr>) st1 = Some (x, st2)"
    "(case x of None \<Rightarrow> Some (NullCmd, st2) | Some c' \<Rightarrow> finish_cmd c' st2) = Some (r, st')"
    by (auto simp: read_cmd_def elim!: bind_SomeE)
  have "todo st1 < todo st" using Next_todo(2) [OF 1(1)] assms(2) by (simp add: EndOfInput_def)
  moreover have "todo st2 \<le> todo st1" using cmd_loop_le [OF 1(2)] .
  moreover have "todo st' \<le> todo st2" using 1(3) finish_cmd_le by (auto split: option.splits)
  ultimately show "todo st' < todo st" by simp
  show "r = NullCmd \<or> (\<exists>c. r = ACmd c)" using 1(3) finish_cmd_result by (auto split: option.splits)
qed

lemma mkCmd_todo:
  assumes "mkCmd t st = Some (r, st')"
  shows "todo st' \<le> todo st" and "r = ACmd c \<Longrightarrow> todo st' < todo st"
    and "r = EndCmd \<Longrightarrow> LookAhead st' = Tend"
    and "EndOfInput (LookAhead st) \<Longrightarrow> r = EndCmd \<or> r = EmptyCmd"
proof -
  obtain s where s: "skip_semis st = Some s"
    "(if LookAhead s = Tword then read_cmd t s
     else Some (if LookAhead s = Tend then (EndCmd, s)
       else if LookAhead s = Tnl \<or> LookAhead s = Terror then (EmptyCmd, s) else (NullCmd, print_msg ERR_MSG s)))
      = Some (r, st')"
    using assms by (auto simp: mkCmd_alt elim!: bind_SomeE)
  note sk = skip_semis_todo [OF s(1)]
  show "todo st' \<le> todo st" and "r = ACmd c \<Longrightarrow> todo st' < todo st"
    and "r = EndCmd \<Longrightarrow> LookAhead st' = Tend"
    and "EndOfInput (LookAhead st) \<Longrightarrow> r = EndCmd \<or> r = EmptyCmd"
    using s(2) sk read_cmd_todo [of t s r st'] by (auto simp: EndOfInput_def split: if_splits)
qed

definition pipe_tok :: "Ptype \<Rightarrow> token" where
  "pipe_tok ty = (if ty = Pout then Tpipe else TpipeErr)"

text \<open>
  The loop over \<open>|\<close> and \<open>|&\<close>: \<open>pre\<close> are the finished commands of the pipe, \<open>c\<close> the last one read.
  \<open>None\<close> as result: the whole pipe is given up.
\<close>

function pipe_loop :: "Ptype \<Rightarrow> cmd_t list \<Rightarrow> cmd_t \<Rightarrow> pstate \<Rightarrow> ((Ptype \<times> cmd_t list) option \<times> pstate) option" where
  "pipe_loop ty pre c st =
     (if \<not> PipeToken (LookAhead st) then Some (Some (ty, pre @ [c]), st)
      else let ty' = (if LookAhead st = TpipeErr then PoutErr else Pout) in
        if cout c \<noteq> Tnil then do { st' \<leftarrow> skip_to_end (print_msg ambiguous_out st); Some (None, st') }
        else do {
          let c1 = c\<lparr>cout := pipe_tok ty'\<rparr>;
          st1 \<leftarrow> Next st;
          (r, st2) \<leftarrow> mkCmd (pipe_tok ty') st1;
          case r of
            NullCmd \<Rightarrow> do { st3 \<leftarrow> finish_line st2; Some (None, st3) }
          | EmptyCmd \<Rightarrow> do { st3 \<leftarrow> finish_line (print_msg null_command st2); Some (None, st3) }
          | EndCmd \<Rightarrow> pipe_loop ty' (pre @ [c1]) End st2
          | ACmd d \<Rightarrow> pipe_loop ty' (pre @ [c1]) d st2 })"
  by pat_completeness auto
termination
proof (relation "measure (\<lambda>(ty, pre, c, st). todo st)", goal_cases)
  case 1
  show ?case by simp
next
  case (2 ty pre c st ty' c1 st1 x r st2)
  then show ?case using Next_todo(2) [of st st1] mkCmd_todo(1) [of "pipe_tok ty'" st1]
    by (fastforce simp: PipeToken_def EndOfInput_def)
next
  case (3 ty pre c st ty' c1 st1 x r st2 d)
  then show ?case using Next_todo(2) [of st st1] mkCmd_todo(1) [of "pipe_tok ty'" st1]
    by (fastforce simp: PipeToken_def EndOfInput_def)
qed

declare pipe_loop.simps [simp del]

text \<open>
  \<open>mkPipe\<close> and its loop over the rest of the line, which overwrites \<open>p->next\<close> on each round: \<open>nx\<close> is
  the pipe list that \<open>p->next\<close> holds. The fuel bounds the nesting of the two.
\<close>

fun mkPipe :: "nat \<Rightarrow> pstate \<Rightarrow> (pipe_t list \<times> pstate) option"
and next_pipes :: "nat \<Rightarrow> pipe_t list \<Rightarrow> pstate \<Rightarrow> (pipe_t list \<times> pstate) option" where
  "mkPipe 0 st = None"
| "mkPipe (Suc k) st = do {
     (r, st1) \<leftarrow> mkCmd Tnil st;
     if r = NullCmd \<or> r = EmptyCmd then Some ([], st1)
     else do {
       (x, st2) \<leftarrow> pipe_loop Pout [] (case r of ACmd c \<Rightarrow> c | _ \<Rightarrow> End) st1;
       case x of
         None \<Rightarrow> Some ([], st2)
       | Some (ty, cs) \<Rightarrow> do {
           (nx, st3) \<leftarrow> next_pipes k [] st2;
           Some (\<lparr>ptype = ty, cmds = cs\<rparr> # nx, st3) } } }"
| "next_pipes k nx st =
     (if EndOfInput (LookAhead st) then Some (nx, st)
      else case k of
        0 \<Rightarrow> None
      | Suc k' \<Rightarrow> do {
          (nx', st') \<leftarrow> mkPipe k' st;
          if nx' = [] then Some ([], st') else next_pipes k' nx' st' })"

definition parse :: "pstate \<Rightarrow> (pipe_t list \<times> pstate) option" where
  "parse st = do { st1 \<leftarrow> Next st; mkPipe (2 * todo st1 + 1) st1 }"

section \<open>Well-formed commands and pipes\<close>

definition redir_out :: "token \<Rightarrow> bool" where
  "redir_out t \<longleftrightarrow> t = Tout \<or> t = Tapp \<or> t = ToutErr \<or> t = TappErr"

definition is_str :: "slot \<Rightarrow> bool" where
  "is_str v = (case v of Str w \<Rightarrow> True | _ \<Rightarrow> False)"

text \<open>The argument vector has room for one more entry, and its first \<open>nargs\<close> entries are strings.\<close>

definition args_ok :: "cmd_t \<Rightarrow> bool" where
  "args_ok c \<longleftrightarrow> maxargs c = length (args c) \<and> 0 < nargs c \<and> nargs c < maxargs c
     \<and> list_all is_str (take (nargs c) (args c))"

text \<open>The input of a command whose pipe token is \<open>t\<close>, and its output before a pipe token follows it.\<close>

definition in_ok :: "token \<Rightarrow> cmd_t \<Rightarrow> bool" where
  "in_ok t c \<longleftrightarrow> (cin c = t \<and> infile c = None) \<or> (t = Tnil \<and> cin c = Tin \<and> infile c \<noteq> None)"

definition out_ok :: "cmd_t \<Rightarrow> bool" where
  "out_ok c \<longleftrightarrow> (cout c = Tnil \<and> outfile c = None) \<or> (redir_out (cout c) \<and> outfile c \<noteq> None)"

definition open_cmd :: "token \<Rightarrow> cmd_t \<Rightarrow> bool" where
  "open_cmd t c \<longleftrightarrow> args_ok c \<and> in_ok t c \<and> out_ok c \<and> cexec c = Tsemi"

text \<open>A finished command: its argument vector ends with \<open>NULL\<close>, as \<open>execv\<close> needs.\<close>

definition shape_ok :: "token \<Rightarrow> cmd_t \<Rightarrow> bool" where
  "shape_ok t c \<longleftrightarrow> args_ok c \<and> in_ok t c \<and> args c ! nargs c = Null \<and> (cexec c = Tsemi \<or> cexec c = Tamp)"

text \<open>
  The commands of a pipe: each but the last writes to a pipe, and the next one reads from a pipe of
  the same kind; \<open>t\<close> is what the first one reads from.
\<close>

fun linked :: "token \<Rightarrow> cmd_t list \<Rightarrow> bool" where
  "linked t [] \<longleftrightarrow> False"
| "linked t [c] \<longleftrightarrow> c = End \<or> shape_ok t c \<and> out_ok c"
| "linked t (c # d # cs) \<longleftrightarrow>
     shape_ok t c \<and> PipeToken (cout c) \<and> outfile c = None \<and> linked (cout c) (d # cs)"

definition word_ok :: "pstate \<Rightarrow> bool" where
  "word_ok st \<longleftrightarrow> (LookAhead st = Tword \<longrightarrow> EOS \<in> set (Word st))"

section \<open>The parser is defined and gives well-formed commands\<close>

lemma Next_ok: "\<exists>st'. Next st = Some st' \<and> word_ok st'"
proof -
  obtain r where r: "nextToken (stdin st) = Some r" "scan_ok (length (stdin st)) r"
    using nextToken_ok [of "stdin st"] by blast
  then have "lx_tok r = Tword \<longrightarrow> EOS \<in> set (lx_word r)"
    by (auto simp: scan_ok_def dest: last_in_set)
  with r(1) show ?thesis by (auto simp: Next_def word_ok_def)
qed

lemma skip_to_end_ok: "\<exists>st'. skip_to_end st = Some st' \<and> word_ok st'"
proof (induction st rule: skip_to_end.induct)
  case (1 st)
  from Next_ok [of st] obtain s where s: "Next st = Some s" "word_ok s" by blast
  with 1 [of s] show ?case by (auto simp: skip_to_end.simps [of st])
qed

lemma skip_semis_ok: "word_ok st \<Longrightarrow> \<exists>st'. skip_semis st = Some st' \<and> word_ok st'"
proof (induction st rule: skip_semis.induct)
  case (1 st)
  from Next_ok [of st] obtain s where s: "Next st = Some s" "word_ok s" by blast
  with 1 show ?case by (auto simp: skip_semis.simps [of st])
qed

lemma finish_line_ok: "word_ok st \<Longrightarrow> \<exists>st'. finish_line st = Some st' \<and> word_ok st'"
  using skip_to_end_ok [of st] by (auto simp: finish_line_def)

lemma word_ok_print [simp]: "word_ok (print_msg m st) = word_ok st"
  by (simp add: word_ok_def)

lemma give_up_ok: "\<exists>st'. give_up m st = Some (None, st') \<and> word_ok st'"
  using skip_to_end_ok [of "print_msg m st"] by (auto simp: give_up_def)

lemma mkWord_ok: "EOS \<in> set s \<Longrightarrow> \<exists>w. mkWord s = Some w"
  by (simp add: mkWord_def)

lemma grow_args_ok:
  assumes "args_ok c"
  shows "args_ok (grow_args c)" and "Suc (nargs c) < maxargs (grow_args c)" and "nargs (grow_args c) = nargs c"
    and "take (nargs c) (args (grow_args c)) = take (nargs c) (args c)"
  using assms by (auto simp: args_ok_def grow_args_def)

lemma set_arg_in_range: "i < length (args c) \<Longrightarrow> set_arg i v c = Some (c\<lparr>args := (args c)[i := v]\<rparr>)"
  by (simp add: set_arg_def)

lemma add_word_defined:
  assumes "args_ok c" and "mkWord word = Some w"
  defines "c1 \<equiv> grow_args c"
  shows "add_word word c = Some (c1\<lparr>args := (args c1)[nargs c := Str w], nargs := Suc (nargs c)\<rparr>)"
proof -
  note g = grow_args_ok [OF assms(1)]
  have "nargs c < length (args c1)" using g by (auto simp: args_ok_def c1_def)
  then show ?thesis using g assms(2) by (simp add: add_word_def set_arg_in_range c1_def Let_def)
qed

lemma args_ok_upd [simp]:
  "args_ok (c\<lparr>cexec := x\<rparr>) = args_ok c" "args_ok (c\<lparr>cin := x\<rparr>) = args_ok c"
  "args_ok (c\<lparr>cout := x\<rparr>) = args_ok c" "args_ok (c\<lparr>infile := y\<rparr>) = args_ok c"
  "args_ok (c\<lparr>outfile := y\<rparr>) = args_ok c"
  by (simp_all add: args_ok_def)

lemma add_word_ok:
  assumes "open_cmd t c" and "EOS \<in> set word"
  shows "\<exists>c'. add_word word c = Some c' \<and> open_cmd t c'"
proof -
  have a: "args_ok c" using assms(1) by (simp add: open_cmd_def)
  note g = grow_args_ok [OF a]
  obtain w where w: "mkWord word = Some w" using mkWord_ok [OF assms(2)] by blast
  let ?c = "(grow_args c)\<lparr>args := (args (grow_args c))[nargs c := Str w], nargs := Suc (nargs c)\<rparr>"
  have "nargs c < length (args (grow_args c))" using g by (auto simp: args_ok_def)
  then have "take (Suc (nargs c)) (args ?c) = take (nargs c) (args c) @ [Str w]"
    using g(4) by (simp add: take_Suc_conv_app_nth)
  moreover have "list_all is_str (take (nargs c) (args c) @ [Str w])"
    using a by (simp add: args_ok_def is_str_def)
  ultimately have "args_ok ?c" using g(1,2) by (simp add: args_ok_def)
  moreover have "in_ok t ?c = in_ok t c" "out_ok ?c = out_ok c" "cexec ?c = cexec c"
    by (simp_all add: in_ok_def out_ok_def grow_args_def)
  ultimately have "open_cmd t ?c" using assms(1) by (simp add: open_cmd_def)
  then show ?thesis using add_word_defined [OF a w] by auto
qed

lemma redirect_word:
  "\<exists>r st'. do { st1 \<leftarrow> Next st;
       if LookAhead st1 \<noteq> Tword then give_up ERR_MSG st1
       else do { w \<leftarrow> mkWord (Word st1); st2 \<leftarrow> Next st1; Some (Some (f w), st2) } } = Some (r, st')
     \<and> word_ok st' \<and> (r = None \<or> (\<exists>w. r = Some (f w)))"
proof -
  from Next_ok [of st] obtain st1 where st1: "Next st = Some st1" "word_ok st1" by blast
  show ?thesis
  proof (cases "LookAhead st1 = Tword")
    case True
    then obtain w where "mkWord (Word st1) = Some w" using st1(2) mkWord_ok by (auto simp: word_ok_def)
    with True st1 Next_ok [of st1] show ?thesis by auto
  next
    case False
    with st1 give_up_ok [of ERR_MSG st1] show ?thesis by auto
  qed
qed

lemma cmd_step_ok:
  assumes "word_ok st" and "InCmd (LookAhead st)" and "open_cmd t c"
  shows "\<exists>r st'. cmd_step c st = Some (r, st') \<and> word_ok st' \<and> (\<forall>c'. r = Some c' \<longrightarrow> open_cmd t c')"
proof -
  consider "LookAhead st = Tin" | "LookAhead st = Tword" | "redir_out (LookAhead st)" "LookAhead st \<noteq> Tin" "LookAhead st \<noteq> Tword"
    using assms(2) by (auto simp: InCmd_def redir_out_def)
  then show ?thesis
  proof cases
    case 1
    have "open_cmd t (c\<lparr>cin := Tin, infile := Some w\<rparr>)" if "cin c = Tnil" for w
      using assms(3) that by (auto simp: open_cmd_def in_ok_def out_ok_def)
    then show ?thesis
      using 1 redirect_word [of st "\<lambda>w. c\<lparr>cin := Tin, infile := Some w\<rparr>"] give_up_ok [of ambiguous_in st]
      by (cases "cin c = Tnil") (auto simp: cmd_step_def Let_def)
  next
    case 2
    then have "EOS \<in> set (Word st)" using assms(1) by (simp add: word_ok_def)
    with 2 add_word_ok [OF assms(3)] Next_ok [of st] show ?thesis by (fastforce simp: cmd_step_def)
  next
    case 3
    have "open_cmd t (c\<lparr>cout := LookAhead st, outfile := Some w\<rparr>)" if "cout c = Tnil" for w
      using assms(3) that 3 by (auto simp: open_cmd_def in_ok_def out_ok_def)
    then show ?thesis
      using 3 redirect_word [of st "\<lambda>w. c\<lparr>cout := LookAhead st, outfile := Some w\<rparr>"] give_up_ok [of ambiguous_out st]
      by (cases "cout c = Tnil") (auto simp: cmd_step_def Let_def)
  qed
qed

lemma cmd_loop_ok:
  "word_ok st \<Longrightarrow> open_cmd t c \<Longrightarrow>
    \<exists>r st'. cmd_loop c st = Some (r, st') \<and> word_ok st' \<and> (\<forall>c'. r = Some c' \<longrightarrow> open_cmd t c')"
proof (induction c st rule: cmd_loop.induct)
  case (1 c st)
  show ?case
  proof (cases "InCmd (LookAhead st)")
    case True
    from cmd_step_ok [OF 1(2) True 1(3)] obtain r s where
      s: "cmd_step c st = Some (r, s)" "word_ok s" "\<forall>c'. r = Some c' \<longrightarrow> open_cmd t c'" by blast
    with 1 True show ?thesis by (cases r) (auto simp: cmd_loop.simps [of c])
  next
    case False
    with 1 show ?thesis by (auto simp: cmd_loop.simps [of c])
  qed
qed

lemma set_null_ok:
  assumes "args_ok c" and "in_ok t c" and "out_ok c" and "cexec c = Tsemi \<or> cexec c = Tamp"
  shows "\<exists>c'. set_arg (nargs c) Null c = Some c' \<and> shape_ok t c' \<and> out_ok c'"
proof -
  have n: "nargs c < length (args c)" using assms(1) by (simp add: args_ok_def)
  let ?c = "c\<lparr>args := (args c)[nargs c := Null]\<rparr>"
  have "args_ok ?c" using assms(1) by (simp add: args_ok_def)
  then have "shape_ok t ?c \<and> out_ok ?c"
    using n assms(2-4) by (simp add: shape_ok_def in_ok_def out_ok_def)
  then show ?thesis using set_arg_in_range [OF n] by auto
qed

lemma finish_cmd_ok:
  assumes "word_ok st" and "open_cmd t c"
  shows "\<exists>r st'. finish_cmd c st = Some (r, st') \<and> word_ok st' \<and> (\<forall>c'. r = ACmd c' \<longrightarrow> shape_ok t c' \<and> out_ok c')"
proof -
  have o: "args_ok c" "in_ok t c" "out_ok c" "cexec c = Tsemi" using assms(2) by (auto simp: open_cmd_def)
  obtain s where s: "Next st = Some s" "word_ok s" using Next_ok [of st] by blast
  obtain c1 where c1: "set_arg (nargs c) Null c = Some c1" "shape_ok t c1 \<and> out_ok c1"
    using set_null_ok o by blast
  have "in_ok t (c\<lparr>cexec := Tamp\<rparr>)" "out_ok (c\<lparr>cexec := Tamp\<rparr>)"
    using o by (simp_all add: in_ok_def out_ok_def)
  then obtain c2 where c2: "set_arg (nargs c) Null (c\<lparr>cexec := Tamp\<rparr>) = Some c2" "shape_ok t c2 \<and> out_ok c2"
    using set_null_ok [of "c\<lparr>cexec := Tamp\<rparr>"] o(1) by auto
  show ?thesis using s c1 c2 assms(1) by (auto simp: finish_cmd_def)
qed

lemma mkCmd_ok:
  assumes "word_ok st" and "t = Tnil \<or> t = Tpipe \<or> t = TpipeErr"
  shows "\<exists>r st'. mkCmd t st = Some (r, st') \<and> word_ok st' \<and> (\<forall>c. r = ACmd c \<longrightarrow> shape_ok t c \<and> out_ok c)"
proof -
  obtain s where s: "skip_semis st = Some s" "word_ok s" using skip_semis_ok [OF assms(1)] by blast
  show ?thesis
  proof (cases "LookAhead s = Tword")
    case True
    then obtain w where w: "mkWord (Word s) = Some w" using s(2) mkWord_ok by (auto simp: word_ok_def)
    obtain s1 where s1: "Next s = Some s1" "word_ok s1" using Next_ok [of s] by blast
    obtain c where c: "newCmd (Word s) = Some c" using w by (simp add: newCmd_def)
    have "open_cmd t (c\<lparr>cin := t\<rparr>)"
      using c w assms(2) by (auto simp: newCmd_def open_cmd_def args_ok_def in_ok_def out_ok_def is_str_def)
    from cmd_loop_ok [OF s1(2) this] obtain r s2 where r: "cmd_loop (c\<lparr>cin := t\<rparr>) s1 = Some (r, s2)"
      "word_ok s2" "\<forall>c'. r = Some c' \<longrightarrow> open_cmd t c'" by blast
    show ?thesis using s True c s1 r finish_cmd_ok [OF r(2)] by (cases r) (auto simp: mkCmd_def)
  next
    case False
    with s show ?thesis by (auto simp: mkCmd_def)
  qed
qed

lemma shape_ok_cout [simp]: "shape_ok t (c\<lparr>cout := x\<rparr>) = shape_ok t c"
  by (simp add: shape_ok_def in_ok_def)

lemma linked_Cons: "linked t (c # cs) \<longleftrightarrow> (if cs = [] then c = End \<or> shape_ok t c \<and> out_ok c
    else shape_ok t c \<and> PipeToken (cout c) \<and> outfile c = None \<and> linked (cout c) cs)"
  by (cases cs) auto

lemma PipeToken_pipe_tok [simp]: "PipeToken (pipe_tok ty)"
  by (simp add: PipeToken_def pipe_tok_def)

lemma pipe_tok_cases: "pipe_tok ty = Tnil \<or> pipe_tok ty = Tpipe \<or> pipe_tok ty = TpipeErr"
  by (simp add: pipe_tok_def)

text \<open>A good result of the pipe loop: defined, and the commands added to \<open>pre\<close> are linked from \<open>t\<close> on.\<close>

definition pipe_good :: "token \<Rightarrow> cmd_t list \<Rightarrow> nat \<Rightarrow> ((Ptype \<times> cmd_t list) option \<times> pstate) option \<Rightarrow> bool" where
  "pipe_good t pre n res \<longleftrightarrow> (\<exists>x st'. res = Some (x, st') \<and> word_ok st' \<and> todo st' \<le> n
     \<and> (\<forall>ty cs. x = Some (ty, cs) \<longrightarrow> (\<exists>ds. cs = pre @ ds \<and> linked t ds)))"

lemma pipe_good_None: "pipe_good t pre n (Some (None, st)) \<longleftrightarrow> word_ok st \<and> todo st \<le> n"
  by (auto simp: pipe_good_def)

lemma pipe_good_step:
  assumes "pipe_good (pipe_tok ty) (pre @ [c\<lparr>cout := pipe_tok ty\<rparr>]) n res" and "n \<le> m"
    and "shape_ok t c" and "outfile c = None"
  shows "pipe_good t pre m res"
proof -
  have "linked t (c\<lparr>cout := pipe_tok ty\<rparr> # ds)" if "linked (pipe_tok ty) ds" for ds
    using that assms(3,4) by (cases ds) (simp_all add: linked_Cons)
  then show ?thesis using assms(1,2) unfolding pipe_good_def by fastforce
qed

lemma finish_line_todo: "finish_line st = Some st' \<Longrightarrow> todo st' \<le> todo st"
  using skip_to_end_todo [of st st'] by (auto simp: finish_line_def split: if_splits)

lemma pipe_loop_ok:
  "word_ok st \<Longrightarrow> (c = End \<and> LookAhead st = Tend) \<or> (shape_ok t c \<and> out_ok c) \<Longrightarrow>
    pipe_good t pre (todo st) (pipe_loop ty pre c st)"
proof (induction ty pre c st arbitrary: t rule: pipe_loop.induct)
  case (1 ty pre c st)
  let ?ty = "if LookAhead st = TpipeErr then PoutErr else Pout"
  consider "\<not> PipeToken (LookAhead st)" | "PipeToken (LookAhead st)" "cout c \<noteq> Tnil"
    | "PipeToken (LookAhead st)" "cout c = Tnil" by blast
  then show ?case
  proof cases
    case 1
    with "1.prems" show ?thesis by (auto simp: pipe_good_def pipe_loop.simps [of ty])
  next
    case 2
    with skip_to_end_ok [of "print_msg ambiguous_out st"] skip_to_end_todo [of "print_msg ambiguous_out st"]
    show ?thesis by (auto simp: pipe_good_None pipe_loop.simps [of ty] Let_def)
  next
    case 3
    then have "LookAhead st \<noteq> Tend" by (auto simp: PipeToken_def)
    with "1.prems"(2) have c: "shape_ok t c" "out_ok c" by auto
    with 3(2) have o: "outfile c = None" by (auto simp: out_ok_def redir_out_def)
    obtain st1 where st1: "Next st = Some st1" "word_ok st1" using Next_ok [of st] by blast
    obtain r st2 where r: "mkCmd (pipe_tok ?ty) st1 = Some (r, st2)" "word_ok st2"
      "\<forall>d. r = ACmd d \<longrightarrow> shape_ok (pipe_tok ?ty) d \<and> out_ok d"
      using mkCmd_ok [OF st1(2) pipe_tok_cases, of ?ty] by blast
    have le: "todo st2 \<le> todo st" using Next_todo(1) [OF st1(1)] mkCmd_todo(1) [OF r(1)] by simp
    let ?c = "c\<lparr>cout := pipe_tok ?ty\<rparr>"
    note step = pipe_good_step [OF _ le c(1) o]
    show ?thesis
    proof (cases r)
      case NullCmd
      obtain st3 where "finish_line st2 = Some st3" "word_ok st3" using finish_line_ok [OF r(2)] by blast
      then show ?thesis using 3 st1 r(1) le NullCmd finish_line_todo [of st2 st3]
        by (simp add: pipe_good_None pipe_loop.simps [of ty] Let_def)
    next
      case EmptyCmd
      let ?s = "print_msg null_command st2"
      obtain st3 where "finish_line ?s = Some st3" "word_ok st3" using finish_line_ok [of ?s] r(2) by auto
      then show ?thesis using 3 st1 r(1) le EmptyCmd finish_line_todo [of ?s st3]
        by (simp add: pipe_good_None pipe_loop.simps [of ty] Let_def)
    next
      case EndCmd
      have "pipe_good (pipe_tok ?ty) (pre @ [?c]) (todo st2) (pipe_loop ?ty (pre @ [?c]) End st2)"
        using "1.IH"(1) [of ?ty ?c st1 "(r, st2)" r st2 "pipe_tok ?ty"] 3 st1 r EndCmd mkCmd_todo(3) [OF r(1)]
        by (simp add: Let_def)
      from step [OF this] show ?thesis using 3 st1 r(1) EndCmd by (simp add: pipe_loop.simps [of ty] Let_def)
    next
      case (ACmd d)
      have "pipe_good (pipe_tok ?ty) (pre @ [?c]) (todo st2) (pipe_loop ?ty (pre @ [?c]) d st2)"
        using "1.IH"(2) [of ?ty ?c st1 "(r, st2)" r st2 d "pipe_tok ?ty"] 3 st1 r ACmd
        by (simp add: Let_def)
      from step [OF this] show ?thesis using 3 st1 r(1) ACmd by (simp add: pipe_loop.simps [of ty] Let_def)
    qed
  qed
qed

lemma pipe_loop_end:
  assumes "LookAhead st = Tend"
  shows "pipe_loop ty pre c st = Some (Some (ty, pre @ [c]), st)"
  using assms by (simp add: pipe_loop.simps PipeToken_def)

text \<open>
  The fuel of \<open>mkPipe\<close>: twice the remaining work suffices. A pipe list that is not \<open>NULL\<close> has
  consumed something, so that the loop over the line ends.
\<close>

definition pipes_good :: "pstate \<Rightarrow> (pipe_t list \<times> pstate) option \<Rightarrow> bool" where
  "pipes_good st res \<longleftrightarrow> (\<exists>ps st'. res = Some (ps, st') \<and> word_ok st' \<and> todo st' \<le> todo st
     \<and> list_all (\<lambda>p. linked Tnil (cmds p)) ps
     \<and> (ps \<noteq> [] \<longrightarrow> \<not> EndOfInput (LookAhead st) \<longrightarrow> todo st' < todo st))"

lemma first_cmd:
  assumes "word_ok st"
  obtains r st1 where "mkCmd Tnil st = Some (r, st1)" "word_ok st1" "todo st1 \<le> todo st"
    "r = NullCmd \<or> r = EmptyCmd \<or> (pipe_good Tnil [] (todo st1) (pipe_loop Pout [] (case r of ACmd c \<Rightarrow> c | _ \<Rightarrow> End) st1)
       \<and> (EndOfInput (LookAhead st) \<longrightarrow> LookAhead st1 = Tend)
       \<and> (\<not> EndOfInput (LookAhead st) \<longrightarrow> todo st1 < todo st))"
proof -
  obtain r st1 where r: "mkCmd Tnil st = Some (r, st1)" "word_ok st1"
    "\<forall>c. r = ACmd c \<longrightarrow> shape_ok Tnil c \<and> out_ok c" using mkCmd_ok [OF assms, of Tnil] by auto
  note t = mkCmd_todo [OF r(1)]
  have "todo st1 < todo st" if "r = EndCmd" "\<not> EndOfInput (LookAhead st)"
  proof -
    from r(1) that(1) have s: "skip_semis st = Some st1"
      by (auto simp: mkCmd_def elim!: bind_SomeE split: if_splits option.splits dest!: finish_cmd_result)
    have "LookAhead st1 = Tend" using t(3) that by simp
    then have "LookAhead st \<noteq> LookAhead st1" using that(2) by (auto simp: EndOfInput_def)
    then obtain s where "Next st = Some s" "skip_semis s = Some st1"
      using s by (auto simp: skip_semis.simps [of st] elim!: bind_SomeE split: if_splits)
    then show ?thesis using Next_todo(2) [of st s] that(2) skip_semis_todo [of s st1] by simp
  qed
  moreover have "pipe_good Tnil [] (todo st1) (pipe_loop Pout [] (case r of ACmd c \<Rightarrow> c | _ \<Rightarrow> End) st1)"
    if "r \<noteq> NullCmd" "r \<noteq> EmptyCmd"
    using that r t(3) by (cases r) (auto intro!: pipe_loop_ok)
  ultimately show thesis using that [OF r(1,2) t(1)] t by (cases r) auto
qed

lemma mkPipe_ok:
  "word_ok st \<Longrightarrow> 2 * todo st + 1 \<le> k \<Longrightarrow> pipes_good st (mkPipe k st)"
  "word_ok st \<Longrightarrow> list_all (\<lambda>p. linked Tnil (cmds p)) nx \<Longrightarrow> 2 * todo st + 2 \<le> k \<or> EndOfInput (LookAhead st) \<Longrightarrow>
     \<exists>ps st'. next_pipes k nx st = Some (ps, st') \<and> word_ok st' \<and> todo st' \<le> todo st
       \<and> list_all (\<lambda>p. linked Tnil (cmds p)) ps"
proof (induction k st and k nx st rule: mkPipe_next_pipes.induct)
  case (1 st)
  then show ?case by simp
next
  case (2 k st)
  from first_cmd [OF 2(2)] obtain r st1 where r: "mkCmd Tnil st = Some (r, st1)" "word_ok st1"
    "todo st1 \<le> todo st" "r = NullCmd \<or> r = EmptyCmd \<or>
      (pipe_good Tnil [] (todo st1) (pipe_loop Pout [] (case r of ACmd c \<Rightarrow> c | _ \<Rightarrow> End) st1)
       \<and> (EndOfInput (LookAhead st) \<longrightarrow> LookAhead st1 = Tend)
       \<and> (\<not> EndOfInput (LookAhead st) \<longrightarrow> todo st1 < todo st))" by blast
  show ?case
  proof (cases "r = NullCmd \<or> r = EmptyCmd")
    case True
    with r show ?thesis by (simp add: pipes_good_def)
  next
    case False
    with r(4) have g: "pipe_good Tnil [] (todo st1) (pipe_loop Pout [] (case r of ACmd c \<Rightarrow> c | _ \<Rightarrow> End) st1)"
      and e: "EndOfInput (LookAhead st) \<longrightarrow> LookAhead st1 = Tend"
      and l: "\<not> EndOfInput (LookAhead st) \<longrightarrow> todo st1 < todo st" by auto
    from g obtain x st2 where x: "pipe_loop Pout [] (case r of ACmd c \<Rightarrow> c | _ \<Rightarrow> End) st1 = Some (x, st2)"
      "word_ok st2" "todo st2 \<le> todo st1" "\<forall>ty cs. x = Some (ty, cs) \<longrightarrow> linked Tnil cs"
      by (auto simp: pipe_good_def)
    show ?thesis
    proof (cases x)
      case None
      with x r False show ?thesis by (auto simp: pipes_good_def)
    next
      case (Some y)
      have "2 * todo st2 + 2 \<le> k \<or> EndOfInput (LookAhead st2)"
        using 2(3) e l x(1,3) pipe_loop_end [of st1] by (auto simp: EndOfInput_def)
      with 2(1) [OF r(1) refl False x(1) refl, of y "fst y" "snd y"] x(2) Some obtain nx st3 where
        "next_pipes k [] st2 = Some (nx, st3)" "word_ok st3" "todo st3 \<le> todo st2"
        "list_all (\<lambda>p. linked Tnil (cmds p)) nx" by auto
      with x r False Some l show ?thesis by (cases y) (auto simp: pipes_good_def)
    qed
  qed
next
  case (3 k nx st)
  show ?case
  proof (cases "EndOfInput (LookAhead st)")
    case True
    with 3 show ?thesis by (auto simp: next_pipes.simps [of k])
  next
    case False
    then obtain k' where k: "k = Suc k'" using 3 by (cases k) auto
    with 3(1) [OF False] 3(3,5) False obtain ps st' where p: "mkPipe k' st = Some (ps, st')" "word_ok st'"
      "todo st' \<le> todo st" "list_all (\<lambda>p. linked Tnil (cmds p)) ps"
      "ps \<noteq> [] \<longrightarrow> todo st' < todo st" by (auto simp: pipes_good_def)
    show ?thesis
    proof (cases "ps = []")
      case True
      with p False k show ?thesis by (simp add: next_pipes.simps [of k])
    next
      case ne: False
      with p(5) 3(5) k False have "2 * todo st' + 2 \<le> k'" by auto
      with 3(2) [OF False k p(1) refl ne] p ne obtain qs s where
        "next_pipes k' ps st' = Some (qs, s)" "word_ok s" "todo s \<le> todo st'"
        "list_all (\<lambda>p. linked Tnil (cmds p)) qs" by auto
      with p ne False k show ?thesis by (auto simp: next_pipes.simps [of k])
    qed
  qed
qed

declare next_pipes.simps [simp del] mkPipe.simps [simp del]

lemma parse_ok: "\<exists>ps st'. parse st = Some (ps, st') \<and> word_ok st' \<and> list_all (\<lambda>p. linked Tnil (cmds p)) ps"
proof -
  obtain s where s: "Next st = Some s" "word_ok s" using Next_ok [of st] by blast
  from mkPipe_ok(1) [OF s(2) order.refl] s(1) show ?thesis by (auto simp: parse_def pipes_good_def)
qed

section \<open>The input only shrinks\<close>

definition shorter :: "pstate \<Rightarrow> pstate \<Rightarrow> bool" where
  "shorter st st' \<longleftrightarrow> length (stdin st') \<le> length (stdin st)"

lemma shorter_refl [simp]: "shorter st st" "shorter st (print_msg m st)" "shorter (print_msg m st) st' = shorter st st'"
  by (simp_all add: shorter_def)

lemma shorter_trans: "shorter a b \<Longrightarrow> shorter b c \<Longrightarrow> shorter a c"
  by (simp add: shorter_def)

lemma Next_shorter: "Next st = Some st' \<Longrightarrow> shorter st st'"
  using nextToken_ok [of "stdin st"] by (auto simp: Next_def shorter_def scan_ok_def)

lemma skip_to_end_shorter: "skip_to_end st = Some st' \<Longrightarrow> shorter st st'"
proof (induction st rule: skip_to_end.induct)
  case (1 st)
  then obtain s where s: "Next st = Some s" by (auto simp: bind_eq_Some_conv skip_to_end.simps [of st])
  with 1 show ?case using Next_shorter [OF s]
    by (auto simp: skip_to_end.simps [of st] split: if_splits intro: shorter_trans)
qed

lemma skip_semis_shorter: "skip_semis st = Some st' \<Longrightarrow> shorter st st'"
proof (induction st rule: skip_semis.induct)
  case (1 st)
  show ?case
  proof (cases "CmdToken (LookAhead st)")
    case True
    with 1(2) obtain s where s: "Next st = Some s" "skip_semis s = Some st'"
      by (auto simp: skip_semis.simps [of st] elim: bind_SomeE)
    then show ?thesis using 1(1) [OF True s(1)] Next_shorter [OF s(1)] by (auto intro: shorter_trans)
  next
    case False
    with 1 show ?thesis by (simp add: skip_semis.simps [of st])
  qed
qed

lemma cmd_step_shorter: "cmd_step c st = Some (r, st') \<Longrightarrow> shorter st st'"
  by (auto simp: cmd_step_def give_up_def Let_def elim!: bind_SomeE split: if_splits
      dest!: Next_shorter skip_to_end_shorter) (auto simp: shorter_def)

lemma cmd_loop_shorter: "cmd_loop c st = Some (r, st') \<Longrightarrow> shorter st st'"
proof (induction c st rule: cmd_loop.induct)
  case (1 c st)
  show ?case
  proof (cases "InCmd (LookAhead st)")
    case True
    with 1(2) obtain r1 s where s: "cmd_step c st = Some (r1, s)"
      by (auto simp: cmd_loop.simps [of c] elim: bind_SomeE)
    with 1 True cmd_step_shorter [OF s] show ?thesis
      by (cases r1) (auto simp: cmd_loop.simps [of c] intro: shorter_trans)
  next
    case False
    with 1 show ?thesis by (simp add: cmd_loop.simps [of c])
  qed
qed

lemma mkCmd_shorter: "mkCmd t st = Some (r, st') \<Longrightarrow> shorter st st'"
  by (auto simp: mkCmd_def finish_cmd_def elim!: bind_SomeE split: if_splits option.splits
      dest!: Next_shorter skip_semis_shorter cmd_loop_shorter)
     (auto simp: shorter_def)

lemma finish_line_shorter: "finish_line st = Some st' \<Longrightarrow> shorter st st'"
  by (auto simp: finish_line_def split: if_splits dest: skip_to_end_shorter)

lemma pipe_loop_shorter: "pipe_loop ty pre c st = Some (x, st') \<Longrightarrow> shorter st st'"
proof (induction ty pre c st rule: pipe_loop.induct)
  case (1 ty pre c st)
  let ?ty = "if LookAhead st = TpipeErr then PoutErr else Pout"
  let ?c = "c\<lparr>cout := pipe_tok ?ty\<rparr>"
  show ?case
  proof (cases "PipeToken (LookAhead st) \<and> cout c = Tnil")
    case True
    then obtain st1 r st2 where n: "Next st = Some st1" "mkCmd (pipe_tok ?ty) st1 = Some (r, st2)"
      using "1.prems" by (auto simp: pipe_loop.simps [of ty] Let_def elim!: bind_SomeE)
    have sh: "shorter st st2" using Next_shorter [OF n(1)] mkCmd_shorter [OF n(2)] by (rule shorter_trans)
    have "shorter st2 st'"
    proof (cases r)
      case EndCmd
      then show ?thesis using "1.IH"(1) [of ?ty ?c st1 "(r, st2)" r st2] True n "1.prems"
        by (simp add: pipe_loop.simps [of ty] Let_def)
    next
      case (ACmd d)
      then show ?thesis using "1.IH"(2) [of ?ty ?c st1 "(r, st2)" r st2 d] True n "1.prems"
        by (simp add: pipe_loop.simps [of ty] Let_def)
    qed (use True n "1.prems" in \<open>auto simp: pipe_loop.simps [of ty] Let_def elim!: bind_SomeE dest!: finish_line_shorter\<close>)
    then show ?thesis using sh shorter_trans by blast
  next
    case False
    then show ?thesis using "1.prems"
      by (auto simp: pipe_loop.simps [of ty] Let_def elim!: bind_SomeE split: if_splits dest!: skip_to_end_shorter)
  qed
qed

lemma mkPipe_shorter:
  "mkPipe k st = Some (ps, st') \<Longrightarrow> shorter st st'"
  "next_pipes k nx st = Some (ps, st') \<Longrightarrow> shorter st st'"
proof (induction k st and k nx st arbitrary: ps st' and ps st' rule: mkPipe_next_pipes.induct)
  case (1 st)
  then show ?case by (simp add: mkPipe.simps)
next
  case (2 k st)
  obtain r st1 where r: "mkCmd Tnil st = Some (r, st1)" using 2(2) by (auto simp: mkPipe.simps elim!: bind_SomeE)
  note m = mkCmd_shorter [OF r]
  show ?case
  proof (cases "r = NullCmd \<or> r = EmptyCmd")
    case True
    then show ?thesis using 2(2) r m by (auto simp: mkPipe.simps)
  next
    case False
    then obtain x st2 where x: "pipe_loop Pout [] (case r of ACmd c \<Rightarrow> c | _ \<Rightarrow> End) st1 = Some (x, st2)"
      using 2(2) r by (auto simp: mkPipe.simps elim!: bind_SomeE)
    note l = shorter_trans [OF m pipe_loop_shorter [OF x]]
    show ?thesis
    proof (cases x)
      case None
      then show ?thesis using 2(2) r False x l by (auto simp: mkPipe.simps)
    next
      case (Some y)
      then obtain nx st3 where "next_pipes k [] st2 = Some (nx, st3)" "st' = st3"
        using 2(2) r False x by (cases y) (auto simp: mkPipe.simps elim!: bind_SomeE)
      then show ?thesis
        using 2(1) [OF r refl False x refl Some, of "fst y" "snd y"] l shorter_trans by auto
    qed
  qed
next
  case (3 k nx st)
  show ?case
  proof (cases "EndOfInput (LookAhead st)")
    case True
    with 3 show ?thesis by (auto simp: next_pipes.simps [of k])
  next
    case False
    then obtain k' qs s where q: "k = Suc k'" "mkPipe k' st = Some (qs, s)"
      using 3(3) by (auto simp: next_pipes.simps [of k] elim!: bind_SomeE split: nat.splits)
    note m = 3(1) [OF False q]
    show ?thesis
    proof (cases "qs = []")
      case True
      then show ?thesis using 3(3) False q m by (auto simp: next_pipes.simps [of "Suc k'"])
    next
      case ne: False
      then have "next_pipes k' qs s = Some (ps, st')" using 3(3) False q by (auto simp: next_pipes.simps [of "Suc k'"])
      then show ?thesis using 3(2) [OF False q refl ne] m shorter_trans by blast
    qed
  qed
qed

text \<open>\<open>parse\<close> consumes input, or there was none and it returns the end command.\<close>

lemma parse_consumes:
  assumes "parse st = Some (ps, st')"
  shows "length (stdin st') < length (stdin st) \<or> ps = [\<lparr>ptype = Pout, cmds = [End]\<rparr>]"
proof -
  obtain st1 where st1: "Next st = Some st1" "mkPipe (2 * todo st1 + 1) st1 = Some (ps, st')"
    using assms by (auto simp: parse_def elim!: bind_SomeE)
  show ?thesis
  proof (cases "stdin st = []")
    case True
    then have "LookAhead st1 = Tend" using st1(1) by (auto simp: Next_def)
    then show ?thesis using st1(2)
      by (simp add: mkPipe.simps mkCmd_def skip_semis.simps [of st1] CmdToken_def pipe_loop_end
          next_pipes.simps EndOfInput_def)
  next
    case False
    then have "length (stdin st1) < length (stdin st)"
      using st1(1) nextToken_ok [of "stdin st"] by (auto simp: Next_def)
    then show ?thesis using mkPipe_shorter(1) [OF st1(2)] by (simp add: shorter_def)
  qed
qed

end
