(* ===== verification/Shell_Roundtrip.thy ===== *)
theory Shell_Roundtrip
  imports Shell_Parser
begin

text \<open>
  The parser of the shell against its grammar: a description of command lines, how each is written,
  and the proof that \<open>parse\<close> gives back exactly the described pipes, whatever bytes the words contain.
  The rest of the theory states the properties of the parser.
\<close>

section \<open>Command lines and how they are written\<close>

record simple_cmd =
  sc_words :: "string list"
  sc_in :: "string option"
  sc_out :: "(token \<times> string) option"

text \<open>A pipe: its first command, the further ones with the kind of pipe before each, and whether it runs in the background.\<close>

record simple_pipe =
  sp_first :: simple_cmd
  sp_more :: "(Ptype \<times> simple_cmd) list"
  sp_bg :: bool

definition good_word :: "string \<Rightarrow> bool" where
  "good_word w \<longleftrightarrow> w \<noteq> [] \<and> length w \<le> BUF_SIZE \<and> list_all (\<lambda>c. \<not> digit7 c \<and> c \<noteq> EOS) w"

definition good_cmd :: "simple_cmd \<Rightarrow> bool" where
  "good_cmd c \<longleftrightarrow> sc_words c \<noteq> [] \<and> list_all good_word (sc_words c)
     \<and> (\<forall>f. sc_in c = Some f \<longrightarrow> good_word f)
     \<and> (\<forall>t f. sc_out c = Some (t, f) \<longrightarrow> redir_out t \<and> good_word f)"

text \<open>Only the first command of a pipe reads a file, and only the last one writes one.\<close>

fun good_cmds :: "simple_cmd \<Rightarrow> (Ptype \<times> simple_cmd) list \<Rightarrow> bool" where
  "good_cmds c [] \<longleftrightarrow> good_cmd c"
| "good_cmds c ((ty, d) # ds) \<longleftrightarrow> good_cmd c \<and> sc_out c = None \<and> sc_in d = None \<and> good_cmds d ds"

definition good_pipe :: "simple_pipe \<Rightarrow> bool" where
  "good_pipe p \<longleftrightarrow> good_cmds (sp_first p) (sp_more p)"

definition show_word :: "string \<Rightarrow> string" where
  "show_word w = escape w @ '' ''"

definition show_redir :: "token \<Rightarrow> string" where
  "show_redir t = (case t of Tout \<Rightarrow> ''>'' | Tapp \<Rightarrow> ''>>'' | ToutErr \<Rightarrow> ''>&'' | TappErr \<Rightarrow> ''>>&'' | _ \<Rightarrow> '''')"

definition show_cmd :: "simple_cmd \<Rightarrow> string" where
  "show_cmd c = concat (map show_word (sc_words c))
     @ (case sc_in c of None \<Rightarrow> [] | Some f \<Rightarrow> ''<'' @ show_word f)
     @ (case sc_out c of None \<Rightarrow> [] | Some (t, f) \<Rightarrow> show_redir t @ show_word f)"

definition show_bar :: "Ptype \<Rightarrow> string" where
  "show_bar ty = (if ty = Pout then ''|'' else ''|&'')"

fun show_more :: "(Ptype \<times> simple_cmd) list \<Rightarrow> string" where
  "show_more [] = []"
| "show_more ((ty, d) # ds) = show_bar ty @ show_cmd d @ show_more ds"

definition show_pipe :: "simple_pipe \<Rightarrow> string" where
  "show_pipe p = show_cmd (sp_first p) @ show_more (sp_more p) @ (if sp_bg p then ''&'' else '';'')"

section \<open>What the parser should give\<close>

text \<open>The part of a command the shell uses: the argument strings and the redirections.\<close>

definition argv :: "cmd_t \<Rightarrow> string list" where
  "argv c = map (\<lambda>v. case v of Str w \<Rightarrow> w | _ \<Rightarrow> []) (take (nargs c) (args c))"

record cmd_view =
  v_argv :: "string list"
  v_exec :: token
  v_in :: token
  v_infile :: "string option"
  v_out :: token
  v_outfile :: "string option"

definition view_cmd :: "cmd_t \<Rightarrow> cmd_view" where
  "view_cmd c = \<lparr>v_argv = argv c, v_exec = cexec c, v_in = cin c, v_infile = infile c,
                 v_out = cout c, v_outfile = outfile c\<rparr>"

definition want_cmd :: "token \<Rightarrow> simple_cmd \<Rightarrow> cmd_view" where
  "want_cmd t c = \<lparr>v_argv = sc_words c, v_exec = Tsemi,
     v_in = (if sc_in c = None then t else Tin), v_infile = sc_in c,
     v_out = (case sc_out c of None \<Rightarrow> Tnil | Some (r, f) \<Rightarrow> r), v_outfile = map_option snd (sc_out c)\<rparr>"

fun want_cmds :: "token \<Rightarrow> simple_cmd \<Rightarrow> (Ptype \<times> simple_cmd) list \<Rightarrow> bool \<Rightarrow> cmd_view list" where
  "want_cmds t c [] bg = [(want_cmd t c)\<lparr>v_exec := if bg then Tamp else Tsemi\<rparr>]"
| "want_cmds t c ((ty, d) # ds) bg =
     (want_cmd t c)\<lparr>v_out := pipe_tok ty\<rparr> # want_cmds (pipe_tok ty) d ds bg"

definition last_type :: "Ptype \<Rightarrow> (Ptype \<times> simple_cmd) list \<Rightarrow> Ptype" where
  "last_type ty ds = (if ds = [] then ty else fst (last ds))"

definition want_pipe :: "simple_pipe \<Rightarrow> Ptype \<times> cmd_view list" where
  "want_pipe p = (last_type Pout (sp_more p), want_cmds Tnil (sp_first p) (sp_more p) (sp_bg p))"

definition view_pipe :: "pipe_t \<Rightarrow> Ptype \<times> cmd_view list" where
  "view_pipe p = (ptype p, map view_cmd (cmds p))"

section \<open>Reading tokens\<close>

text \<open>\<open>ahead st s out\<close>: the parser has just read the first token of \<open>s\<close>, with \<open>out\<close> printed before.\<close>

definition ahead :: "pstate \<Rightarrow> string \<Rightarrow> string list \<Rightarrow> bool" where
  "ahead st s out \<longleftrightarrow> (\<exists>st0. stdin st0 = s \<and> printed st0 = out \<and> Next st0 = Some st)"

lemma ahead_token:
  assumes "ahead st s out" and "nextToken s = Some (lex_result t w r [])"
  shows "LookAhead st = t" and "Word st = w" and "stdin st = r" and "printed st = out"
    and "\<exists>st'. Next st = Some st' \<and> ahead st' r out"
proof -
  from assms obtain st0 where s0: "stdin st0 = s" "printed st0 = out" "Next st0 = Some st"
    by (auto simp: ahead_def)
  with assms(2) show "LookAhead st = t" "Word st = w" "stdin st = r" "printed st = out"
    by (auto simp: Next_def)
  then show "\<exists>st'. Next st = Some st' \<and> ahead st' r out" using Next_ok [of st] by (auto simp: ahead_def)
qed

lemma nextToken_word: "good_word w \<Longrightarrow> nextToken (show_word w @ r) = Some (lex_result Tword (w @ [EOS]) r [])"
  using nextToken_escaped [of w "CHR '' ''" r]
  by (auto simp: good_word_def show_word_def blank_def after_word_def list_all_iff)

lemma mkWord_good [simp]: "good_word w \<Longrightarrow> mkWord (w @ [EOS]) = Some w"
  by (auto simp: good_word_def mkWord_def list_all_iff takeWhile_append2)

lemma ahead_word:
  assumes "ahead st (show_word w @ r) out" and "good_word w"
  shows "LookAhead st = Tword" and "mkWord (Word st) = Some w" and "\<exists>st'. Next st = Some st' \<and> ahead st' r out"
  using ahead_token [OF assms(1) nextToken_word [OF assms(2)]] assms(2) by auto

lemma show_word_start: "good_word w \<Longrightarrow> \<exists>x. show_word w = backslash # x"
  by (cases w) (auto simp: good_word_def show_word_def)

lemma nextToken_redir:
  assumes "redir_out t" and "good_word w"
  shows "nextToken (show_redir t @ show_word w @ r) = Some (lex_result t [] (show_word w @ r) [])"
proof -
  obtain x where "show_word w = backslash # x" using show_word_start [OF assms(2)] by blast
  then show ?thesis using assms(1) by (auto simp: redir_out_def show_redir_def)
qed

lemma show_cmd_start: "good_cmd c \<Longrightarrow> \<exists>x. show_cmd c = backslash # x"
  by (cases "sc_words c") (auto simp: good_cmd_def show_cmd_def dest!: show_word_start)

lemma nextToken_bar:
  assumes "good_cmd d"
  shows "nextToken (show_bar ty @ show_cmd d @ r) = Some (lex_result (pipe_tok ty) [] (show_cmd d @ r) [])"
proof -
  obtain x where "show_cmd d = backslash # x" using show_cmd_start [OF assms] by blast
  then show ?thesis by (cases ty) (auto simp: show_bar_def pipe_tok_def)
qed

lemma nextToken_ends:
  "nextToken (''<'' @ r) = Some (lex_result Tin [] r [])"
  "nextToken (CHR '';'' # r) = Some (lex_result Tsemi [] r [])"
  "nextToken (CHR ''&'' # r) = Some (lex_result Tamp [] r [])"
  "nextToken (newline # r) = Some (lex_result Tnl [] r [])"
  by simp_all

section \<open>Reading a command\<close>

lemma view_cmd_upd:
  "view_cmd (c\<lparr>cin := t\<rparr>) = (view_cmd c)\<lparr>v_in := t\<rparr>"
  "view_cmd (c\<lparr>cin := t, infile := f\<rparr>) = (view_cmd c)\<lparr>v_in := t, v_infile := f\<rparr>"
  "view_cmd (c\<lparr>cout := t\<rparr>) = (view_cmd c)\<lparr>v_out := t\<rparr>"
  "view_cmd (c\<lparr>cout := t, outfile := f\<rparr>) = (view_cmd c)\<lparr>v_out := t, v_outfile := f\<rparr>"
  "view_cmd (c\<lparr>cexec := t\<rparr>) = (view_cmd c)\<lparr>v_exec := t\<rparr>"
  by (simp_all add: view_cmd_def argv_def)

lemma argv_upd [simp]:
  "argv (c\<lparr>cin := t\<rparr>) = argv c" "argv (c\<lparr>infile := f\<rparr>) = argv c" "argv (c\<lparr>cout := t\<rparr>) = argv c"
  "argv (c\<lparr>outfile := f\<rparr>) = argv c" "argv (c\<lparr>cexec := t\<rparr>) = argv c"
  by (simp_all add: argv_def)

lemma view_cmd_sel [simp]:
  "v_argv (view_cmd c) = argv c" "v_exec (view_cmd c) = cexec c" "v_in (view_cmd c) = cin c"
  "v_infile (view_cmd c) = infile c" "v_out (view_cmd c) = cout c" "v_outfile (view_cmd c) = outfile c"
  by (simp_all add: view_cmd_def)

lemma add_word_view:
  assumes "args_ok c" and "mkWord word = Some w"
  shows "\<exists>c'. add_word word c = Some c' \<and> args_ok c' \<and> view_cmd c' = (view_cmd c)\<lparr>v_argv := argv c @ [w]\<rparr>"
proof -
  note g = grow_args_ok [OF assms(1)]
  let ?c = "(grow_args c)\<lparr>args := (args (grow_args c))[nargs c := Str w], nargs := Suc (nargs c)\<rparr>"
  have "nargs c < length (args (grow_args c))" using g by (auto simp: args_ok_def)
  then have t: "take (Suc (nargs c)) (args ?c) = take (nargs c) (args c) @ [Str w]"
    using g(4) by (simp add: take_Suc_conv_app_nth)
  have "args_ok ?c" using g(1,2) t assms(1) by (simp add: args_ok_def is_str_def)
  moreover have "argv ?c = argv c @ [w]" using t by (simp add: argv_def)
  then have "view_cmd ?c = (view_cmd c)\<lparr>v_argv := argv c @ [w]\<rparr>"
    by (simp add: view_cmd_def grow_args_def)
  ultimately show ?thesis using add_word_defined [OF assms] by blast
qed

lemma cmd_loop_words:
  "ahead st (concat (map show_word ws) @ X) out \<Longrightarrow> args_ok c \<Longrightarrow> list_all good_word ws \<Longrightarrow>
    \<exists>c' st'. cmd_loop c st = cmd_loop c' st' \<and> ahead st' X out \<and> args_ok c'
      \<and> view_cmd c' = (view_cmd c)\<lparr>v_argv := argv c @ ws\<rparr>"
proof (induction ws arbitrary: c st)
  case Nil
  then show ?case by (auto simp: view_cmd_def)
next
  case (Cons w ws)
  then have a: "ahead st (show_word w @ concat (map show_word ws) @ X) out" "good_word w" by simp_all
  note W = ahead_word [OF a]
  obtain st1 where st1: "Next st = Some st1" "ahead st1 (concat (map show_word ws) @ X) out" using W(3) by blast
  obtain c1 where c1: "add_word (Word st) c = Some c1" "args_ok c1"
    "view_cmd c1 = (view_cmd c)\<lparr>v_argv := argv c @ [w]\<rparr>" using add_word_view [OF Cons.prems(2) W(2)] by blast
  then have "argv c1 = argv c @ [w]" using view_cmd_sel(1) [of c1] by simp
  moreover have "cmd_loop c st = cmd_loop c1 st1"
    using W(1) st1(1) c1(1) by (simp add: cmd_loop.simps [of c] cmd_step_def InCmd_def)
  ultimately show ?case using Cons.IH [OF st1(2) c1(2)] Cons.prems(3) c1(3) by auto
qed

lemma cmd_loop_in:
  assumes "ahead st (''<'' @ show_word f @ X) out" and "good_word f" and "cin c = Tnil"
  shows "\<exists>st'. cmd_loop c st = cmd_loop (c\<lparr>cin := Tin, infile := Some f\<rparr>) st' \<and> ahead st' X out"
proof -
  note T = ahead_token [OF assms(1) nextToken_ends(1)]
  obtain st1 where st1: "Next st = Some st1" "ahead st1 (show_word f @ X) out" using T(5) by blast
  note W = ahead_word [OF st1(2) assms(2)]
  then show ?thesis using T(1) st1(1) assms(3)
    by (auto simp: cmd_loop.simps [of c] cmd_step_def InCmd_def)
qed

lemma cmd_loop_out:
  assumes "ahead st (show_redir t @ show_word f @ X) out" and "redir_out t" and "good_word f" and "cout c = Tnil"
  shows "\<exists>st'. cmd_loop c st = cmd_loop (c\<lparr>cout := t, outfile := Some f\<rparr>) st' \<and> ahead st' X out"
proof -
  note T = ahead_token [OF assms(1) nextToken_redir [OF assms(2,3)]]
  obtain st1 where st1: "Next st = Some st1" "ahead st1 (show_word f @ X) out" using T(5) by blast
  note W = ahead_word [OF st1(2) assms(3)]
  then show ?thesis using T(1) st1(1) assms(2,4)
    by (auto simp: cmd_loop.simps [of c] cmd_step_def InCmd_def redir_out_def)
qed

text \<open>The loop of \<open>mkCmd\<close> over everything after the first word.\<close>

lemma cmd_loop_show:
  assumes a: "ahead st (concat (map show_word ws)
      @ (case fi of None \<Rightarrow> [] | Some f \<Rightarrow> ''<'' @ show_word f)
      @ (case fo of None \<Rightarrow> [] | Some (t, f) \<Rightarrow> show_redir t @ show_word f) @ X) out"
    and g: "list_all good_word ws" "\<forall>f. fi = Some f \<longrightarrow> good_word f \<and> cin c = Tnil"
      "\<forall>t f. fo = Some (t, f) \<longrightarrow> redir_out t \<and> good_word f" "cout c = Tnil" "outfile c = None" "infile c = None"
    and c: "args_ok c"
    and X: "nextToken X = Some (lex_result e [] r [])" "\<not> InCmd e"
  shows "\<exists>c' st'. cmd_loop c st = Some (Some c', st') \<and> ahead st' X out \<and> args_ok c'
    \<and> view_cmd c' = (view_cmd c)\<lparr>v_argv := argv c @ ws, v_in := (if fi = None then cin c else Tin), v_infile := fi,
        v_out := (case fo of None \<Rightarrow> Tnil | Some (t, f) \<Rightarrow> t), v_outfile := map_option snd fo\<rparr>"
proof -
  obtain c1 st1 where 1: "cmd_loop c st = cmd_loop c1 st1" "args_ok c1"
    "ahead st1 ((case fi of None \<Rightarrow> [] | Some f \<Rightarrow> ''<'' @ show_word f)
      @ (case fo of None \<Rightarrow> [] | Some (t, f) \<Rightarrow> show_redir t @ show_word f) @ X) out"
    "view_cmd c1 = (view_cmd c)\<lparr>v_argv := argv c @ ws\<rparr>"
    using cmd_loop_words [OF a c g(1)] by blast
  then have f1: "cin c1 = cin c" "cout c1 = Tnil" "outfile c1 = None" "infile c1 = None"
    using view_cmd_sel(3-6) [of c1] g(4-6) by simp_all
  define c2 where "c2 = (case fi of None \<Rightarrow> c1 | Some f \<Rightarrow> c1\<lparr>cin := Tin, infile := Some f\<rparr>)"
  have "\<exists>st2. cmd_loop c1 st1 = cmd_loop c2 st2 \<and> ahead st2
      ((case fo of None \<Rightarrow> [] | Some (t, f) \<Rightarrow> show_redir t @ show_word f) @ X) out"
    using 1(3) g(2) f1(1) cmd_loop_in [of st1 _ _ out c1] by (cases fi) (auto simp: c2_def)
  then obtain st2 where 2: "cmd_loop c1 st1 = cmd_loop c2 st2"
    "ahead st2 ((case fo of None \<Rightarrow> [] | Some (t, f) \<Rightarrow> show_redir t @ show_word f) @ X) out" by blast
  define c3 where "c3 = (case fo of None \<Rightarrow> c2 | Some (t, f) \<Rightarrow> c2\<lparr>cout := t, outfile := Some f\<rparr>)"
  have "cout c2 = Tnil" using f1(2) by (simp add: c2_def split: option.split)
  then have "\<exists>st3. cmd_loop c2 st2 = cmd_loop c3 st3 \<and> ahead st3 X out"
    using 2(2) g(3) cmd_loop_out [of st2 _ _ X out c2] by (cases fo) (auto simp: c3_def)
  then obtain st3 where 3: "cmd_loop c2 st2 = cmd_loop c3 st3" "ahead st3 X out" by blast
  have "cmd_loop c3 st3 = Some (Some c3, st3)"
    using ahead_token(1) [OF 3(2) X(1)] X(2) by (simp add: cmd_loop.simps [of c3])
  moreover have "args_ok c3" using 1(2) by (auto simp: c2_def c3_def split: option.split)
  moreover have "view_cmd c3 = (view_cmd c)\<lparr>v_argv := argv c @ ws, v_in := (if fi = None then cin c else Tin), v_infile := fi,
        v_out := (case fo of None \<Rightarrow> Tnil | Some (t, f) \<Rightarrow> t), v_outfile := map_option snd fo\<rparr>"
    using 1(4) f1 g(4-6)
    by (cases fi; cases fo) (auto simp: c2_def c3_def view_cmd_upd view_cmd_def)
  ultimately show ?thesis using 1(1) 2(1) 3 by auto
qed

lemma newCmd_good:
  assumes "mkWord word = Some w"
  shows "\<exists>c. newCmd word = Some c \<and> args_ok c \<and> view_cmd c
    = \<lparr>v_argv = [w], v_exec = Tsemi, v_in = Tnil, v_infile = None, v_out = Tnil, v_outfile = None\<rparr>"
  using assms by (simp add: newCmd_def args_ok_def is_str_def view_cmd_def argv_def)

text \<open>\<open>mkCmd\<close> up to the token \<open>e\<close> that ends the command.\<close>

lemma mkCmd_show:
  assumes a: "ahead st (show_cmd sc @ X) out" and g: "good_cmd sc" and t: "t \<noteq> Tnil \<longrightarrow> sc_in sc = None"
    and X: "nextToken X = Some (lex_result e [] r [])" "\<not> InCmd e"
  shows "\<exists>c st'. mkCmd t st = finish_cmd c st' \<and> ahead st' X out \<and> args_ok c \<and> view_cmd c = want_cmd t sc"
proof -
  obtain w ws where ws: "sc_words sc = w # ws" "good_word w" "list_all good_word ws"
    using g by (cases "sc_words sc") (auto simp: good_cmd_def)
  let ?Y = "concat (map show_word ws) @ (case sc_in sc of None \<Rightarrow> [] | Some f \<Rightarrow> ''<'' @ show_word f)
      @ (case sc_out sc of None \<Rightarrow> [] | Some (t, f) \<Rightarrow> show_redir t @ show_word f) @ X"
  have "ahead st (show_word w @ ?Y) out" using a ws(1) by (simp add: show_cmd_def)
  note W = ahead_word [OF this ws(2)]
  obtain st1 where st1: "Next st = Some st1" "ahead st1 ?Y out" using W(3) by blast
  obtain c where c: "newCmd (Word st) = Some c" "args_ok c" "view_cmd c
    = \<lparr>v_argv = [w], v_exec = Tsemi, v_in = Tnil, v_infile = None, v_out = Tnil, v_outfile = None\<rparr>"
    using newCmd_good [OF W(2)] by blast
  have f: "argv c = [w]" "cexec c = Tsemi" "cout c = Tnil" "outfile c = None" "infile c = None"
    using c(3) view_cmd_sel [of c] by simp_all
  obtain c' st' where c': "cmd_loop (c\<lparr>cin := t\<rparr>) st1 = Some (Some c', st')" "ahead st' X out" "args_ok c'"
    "view_cmd c' = (view_cmd (c\<lparr>cin := t\<rparr>))\<lparr>v_argv := argv c @ ws, v_in := (if sc_in sc = None then t else Tin),
        v_infile := sc_in sc, v_out := (case sc_out sc of None \<Rightarrow> Tnil | Some (t, f) \<Rightarrow> t),
        v_outfile := map_option snd (sc_out sc)\<rparr>"
    using cmd_loop_show [OF st1(2) ws(3) _ _ _ _ _ _ X, of "c\<lparr>cin := t\<rparr>"] g t c(2) f
    by (auto simp: good_cmd_def)
  have "view_cmd c' = want_cmd t sc" using c'(4) f ws(1) by (simp add: view_cmd_upd c(3) want_cmd_def)
  moreover have "mkCmd t st = finish_cmd c' st'"
    using W(1) c(1) st1(1) c'(1) by (simp add: mkCmd_def skip_semis.simps [of st] CmdToken_def)
  ultimately show ?thesis using c' by blast
qed

lemma set_null_view:
  assumes "args_ok c"
  shows "\<exists>c'. set_arg (nargs c) Null c = Some c' \<and> view_cmd c' = view_cmd c"
proof -
  have n: "nargs c < length (args c)" using assms by (simp add: args_ok_def)
  have "view_cmd (c\<lparr>args := (args c)[nargs c := Null]\<rparr>) = view_cmd c" by (simp add: view_cmd_def argv_def)
  then show ?thesis using set_arg_in_range [OF n] by blast
qed

lemma finish_cmd_bar:
  assumes "ahead st X out" and "nextToken X = Some (lex_result (pipe_tok ty) [] r [])" and "args_ok c"
  shows "\<exists>c'. finish_cmd c st = Some (ACmd c', st) \<and> view_cmd c' = view_cmd c"
proof -
  have "LookAhead st = pipe_tok ty" using ahead_token(1) [OF assms(1,2)] .
  then show ?thesis using set_null_view [OF assms(3)] by (cases ty) (auto simp: finish_cmd_def pipe_tok_def)
qed

lemma finish_cmd_end:
  assumes "ahead st ((if bg then ''&'' else '';'') @ Y) out" and "args_ok c" and "cexec c = Tsemi"
  shows "\<exists>c' st'. finish_cmd c st = Some (ACmd c', st') \<and> ahead st' Y out
    \<and> view_cmd c' = (view_cmd c)\<lparr>v_exec := if bg then Tamp else Tsemi\<rparr>"
proof (cases bg)
  case True
  have b: "args_ok (c\<lparr>cexec := Tamp\<rparr>)" using assms(2) by simp
  obtain c' where c': "set_arg (nargs c) Null (c\<lparr>cexec := Tamp\<rparr>) = Some c'"
    "view_cmd c' = view_cmd (c\<lparr>cexec := Tamp\<rparr>)" using set_null_view [OF b] by auto
  have "ahead st (CHR ''&'' # Y) out" using assms(1) True by simp
  note T = ahead_token [OF this nextToken_ends(3)]
  show ?thesis using True T(1,5) c' by (auto simp: finish_cmd_def view_cmd_upd)
next
  case False
  obtain c' where c': "set_arg (nargs c) Null c = Some c'" "view_cmd c' = view_cmd c"
    using set_null_view [OF assms(2)] by auto
  have "ahead st (CHR '';'' # Y) out" using assms(1) False by simp
  note T = ahead_token [OF this nextToken_ends(2)]
  show ?thesis using False T(1,5) c' assms(3) by (auto simp: finish_cmd_def view_cmd_def)
qed

section \<open>Reading a pipe and a line\<close>

lemma nextToken_more:
  assumes "good_cmds c ds"
  shows "nextToken (show_more ds @ (if bg then ''&'' else '';'') @ Y)
    = (case ds of [] \<Rightarrow> Some (lex_result (if bg then Tamp else Tsemi) [] Y [])
       | (ty, d) # ds' \<Rightarrow> Some (lex_result (pipe_tok ty) [] (show_cmd d @ show_more ds' @ (if bg then ''&'' else '';'') @ Y) []))"
proof (cases ds)
  case Nil
  then show ?thesis by simp
next
  case (Cons x ds')
  then obtain ty d where x: "ds = (ty, d) # ds'" by (cases x) auto
  then have "good_cmd d" using assms by (cases ds') auto
  then show ?thesis using x nextToken_bar [of d ty] by simp
qed

text \<open>\<open>mkCmd\<close> on a command of a pipe: the command, and the state before what follows.\<close>

lemma mkCmd_in_pipe:
  assumes a: "ahead st (show_cmd sc @ show_more ds @ (if bg then ''&'' else '';'') @ Y) out"
    and g: "good_cmds sc ds" and t: "t \<noteq> Tnil \<longrightarrow> sc_in sc = None"
  shows "\<exists>c st'. mkCmd t st = Some (ACmd c, st')
    \<and> (if ds = [] then ahead st' Y out \<and> view_cmd c = (want_cmd t sc)\<lparr>v_exec := if bg then Tamp else Tsemi\<rparr>
       else ahead st' (show_more ds @ (if bg then ''&'' else '';'') @ Y) out \<and> view_cmd c = want_cmd t sc)"
proof -
  let ?X = "show_more ds @ (if bg then ''&'' else '';'') @ Y"
  obtain e r where X: "nextToken ?X = Some (lex_result e [] r [])" "\<not> InCmd e"
    using nextToken_more [OF g, of bg Y]
    by (cases ds) (auto simp: InCmd_def pipe_tok_def)
  have "good_cmd sc" using g by (cases ds) auto
  from mkCmd_show [OF a this t X] obtain c st' where c: "mkCmd t st = finish_cmd c st'" "ahead st' ?X out"
    "args_ok c" "view_cmd c = want_cmd t sc" by blast
  show ?thesis
  proof (cases ds)
    case Nil
    have "cexec c = Tsemi" using c(4) view_cmd_sel(2) [of c] by (simp add: want_cmd_def)
    with finish_cmd_end [of st' bg Y out c] c Nil show ?thesis by auto
  next
    case (Cons x ds')
    obtain ty d where x: "x = (ty, d)" by (cases x)
    have "nextToken ?X = Some (lex_result (pipe_tok ty) [] (show_cmd d @ show_more ds' @ (if bg then ''&'' else '';'') @ Y) [])"
      using nextToken_more [OF g, of bg Y] Cons x by simp
    from finish_cmd_bar [OF c(2) this c(3)] c Cons show ?thesis by auto
  qed
qed

lemma pipe_loop_show:
  "good_cmds sc ds \<Longrightarrow> view_cmd c = (if ds = [] then (want_cmd t sc)\<lparr>v_exec := if bg then Tamp else Tsemi\<rparr> else want_cmd t sc) \<Longrightarrow>
    ahead st (if ds = [] then Y else show_more ds @ (if bg then ''&'' else '';'') @ Y) out \<Longrightarrow>
    nextToken Y = Some (lex_result e w r []) \<Longrightarrow> \<not> PipeToken e \<Longrightarrow>
    \<exists>cs st'. pipe_loop ty pre c st = Some (Some (last_type ty ds, pre @ cs), st') \<and> ahead st' Y out
      \<and> map view_cmd cs = want_cmds t sc ds bg"
proof (induction ds arbitrary: sc t c st ty pre)
  case Nil
  then show ?case using ahead_token(1) [of st Y out e w r]
    by (simp add: pipe_loop.simps [of ty] last_type_def)
next
  case (Cons x ds)
  obtain ty' d where x: "x = (ty', d)" by (cases x)
  let ?Z = "show_more ds @ (if bg then ''&'' else '';'') @ Y"
  have g: "good_cmds d ds" "sc_in d = None" "sc_out sc = None" using Cons.prems(1) x by auto
  have a: "ahead st (show_more (x # ds) @ (if bg then ''&'' else '';'') @ Y) out" using Cons.prems(3) by simp
  note T = ahead_token [OF a nextToken_more [OF Cons.prems(1), of bg Y, unfolded x list.case prod.case, folded x]]
  obtain st1 where st1: "Next st = Some st1" "ahead st1 (show_cmd d @ ?Z) out" using T(5) by auto
  from mkCmd_in_pipe [OF st1(2) g(1), of "pipe_tok ty'"] g(2) obtain c1 st2 where
    c1: "mkCmd (pipe_tok ty') st1 = Some (ACmd c1, st2)"
    "ahead st2 (if ds = [] then Y else ?Z) out"
    "view_cmd c1 = (if ds = [] then (want_cmd (pipe_tok ty') d)\<lparr>v_exec := if bg then Tamp else Tsemi\<rparr> else want_cmd (pipe_tok ty') d)"
    by (auto split: if_splits)
  have o: "cout c = Tnil" using Cons.prems(2) g(3) view_cmd_sel(5) [of c] by (simp add: want_cmd_def)
  let ?c = "c\<lparr>cout := pipe_tok ty'\<rparr>"
  have "pipe_loop ty pre c st = pipe_loop ty' (pre @ [?c]) c1 st2"
    using T(1) o st1(1) c1(1) by (cases ty') (auto simp: pipe_loop.simps [of ty] PipeToken_def pipe_tok_def)
  moreover from Cons.IH [OF g(1) c1(3,2) Cons.prems(4,5), of ty' "pre @ [?c]"] obtain cs st' where
    "pipe_loop ty' (pre @ [?c]) c1 st2 = Some (Some (last_type ty' ds, (pre @ [?c]) @ cs), st')" "ahead st' Y out"
    "map view_cmd cs = want_cmds (pipe_tok ty') d ds bg" by blast
  moreover have "view_cmd ?c = (want_cmd t sc)\<lparr>v_out := pipe_tok ty'\<rparr>" using Cons.prems(2) by (simp add: view_cmd_upd)
  ultimately show ?case using x by (auto simp: last_type_def)
qed

text \<open>What follows a pipe on the line: the next pipe, or the end of the line.\<close>

definition show_line :: "simple_pipe list \<Rightarrow> string \<Rightarrow> string" where
  "show_line ps rest = concat (map show_pipe ps) @ newline # rest"

lemma show_line_simps [simp]:
  "show_line [] rest = newline # rest" "show_line (p # ps) rest = show_pipe p @ show_line ps rest"
  by (simp_all add: show_line_def)

lemma show_line_token:
  assumes "list_all good_pipe ps"
  shows "\<exists>e w r. nextToken (show_line ps rest) = Some (lex_result e w r []) \<and> (if ps = [] then e = Tnl \<and> r = rest else e = Tword)"
proof (cases ps)
  case Nil
  then show ?thesis by simp
next
  case (Cons p ps')
  let ?sc = "sp_first p"
  have "good_cmd ?sc" using assms Cons by (cases "sp_more p") (auto simp: good_pipe_def)
  then obtain w ws where "sc_words ?sc = w # ws" "good_word w" by (cases "sc_words ?sc") (auto simp: good_cmd_def)
  then show ?thesis using Cons nextToken_word [of w] by (simp add: show_pipe_def show_cmd_def)
qed

lemma mkPipe_show:
  "ahead st (show_line ps rest) out \<Longrightarrow> list_all good_pipe ps \<Longrightarrow> 2 * length ps < k \<Longrightarrow>
    \<exists>qs st'. mkPipe k st = Some (qs, st') \<and> map view_pipe qs = map want_pipe ps \<and> ahead st' (newline # rest) out"
proof (induction ps arbitrary: st k)
  case Nil
  have "ahead st (newline # rest) out" using Nil.prems(1) by simp
  note T = ahead_token [OF this nextToken_ends(4)]
  obtain k' where "k = Suc k'" using Nil.prems(3) by (cases k) auto
  then show ?case using T(1) Nil.prems(1)
    by (simp add: mkPipe.simps mkCmd_def skip_semis.simps [of st] CmdToken_def)
next
  case (Cons p ps)
  obtain k' where k: "k = Suc k'" using Cons.prems(3) by (cases k) auto
  have gs: "list_all good_pipe ps" and "good_pipe p" using Cons.prems(2) by auto
  then have g: "good_cmds (sp_first p) (sp_more p)" by (simp add: good_pipe_def)
  let ?Y = "show_line ps rest"
  obtain e w r where e: "nextToken ?Y = Some (lex_result e w r [])" "if ps = [] then e = Tnl \<and> r = rest else e = Tword"
    using show_line_token [OF gs] by blast
  then have ne: "\<not> PipeToken e" by (auto simp: PipeToken_def split: if_splits)
  have "ahead st (show_cmd (sp_first p) @ show_more (sp_more p) @ (if sp_bg p then ''&'' else '';'') @ ?Y) out"
    using Cons.prems(1) by (simp add: show_pipe_def)
  from mkCmd_in_pipe [OF this g, of Tnil] obtain c st1 where c: "mkCmd Tnil st = Some (ACmd c, st1)"
    "view_cmd c = (if sp_more p = [] then (want_cmd Tnil (sp_first p))\<lparr>v_exec := if sp_bg p then Tamp else Tsemi\<rparr>
       else want_cmd Tnil (sp_first p))"
    "ahead st1 (if sp_more p = [] then ?Y else show_more (sp_more p) @ (if sp_bg p then ''&'' else '';'') @ ?Y) out"
    by (auto split: if_splits)
  from pipe_loop_show [OF g c(2,3) e(1) ne, of Pout "[]"] obtain cs st2 where
    cs: "pipe_loop Pout [] c st1 = Some (Some (last_type Pout (sp_more p), cs), st2)" "ahead st2 ?Y out"
    "map view_cmd cs = want_cmds Tnil (sp_first p) (sp_more p) (sp_bg p)" by auto
  have v: "view_pipe \<lparr>ptype = last_type Pout (sp_more p), cmds = cs\<rparr> = want_pipe p"
    using cs(3) by (simp add: view_pipe_def want_pipe_def)
  note L = ahead_token(1) [OF cs(2) e(1)]
  have "\<exists>qs st3. next_pipes k' [] st2 = Some (qs, st3) \<and> map view_pipe qs = map want_pipe ps
      \<and> ahead st3 (newline # rest) out"
  proof (cases "ps = []")
    case True
    with L e(2) cs(2) show ?thesis by (simp add: next_pipes.simps EndOfInput_def)
  next
    case False
    then obtain j where j: "k' = Suc j" "2 * length ps < j" using Cons.prems(3) k by (cases k'; cases ps; auto)
    from Cons.IH [OF cs(2) gs j(2)] obtain qs st3 where q: "mkPipe j st2 = Some (qs, st3)"
      "map view_pipe qs = map want_pipe ps" "ahead st3 (newline # rest) out" by blast
    have "qs \<noteq> []" using q(2) False by auto
    moreover have "LookAhead st3 = Tnl" using ahead_token(1) [OF q(3) nextToken_ends(4)] .
    moreover have "\<not> EndOfInput (LookAhead st2)" using L e(2) False by (simp add: EndOfInput_def)
    ultimately show ?thesis using q
      by (simp add: j(1) next_pipes.simps [of "Suc j"] next_pipes.simps [of j] EndOfInput_def)
  qed
  then show ?case using k c(1) cs(1) v by (auto simp: mkPipe.simps)
qed

lemma length_show_line: "length ps < length (show_line ps rest)"
  by (induction ps) (auto simp: show_pipe_def)

lemma parse_show:
  assumes "list_all good_pipe ps" and "stdin st = show_line ps rest"
  shows "\<exists>qs st'. parse st = Some (qs, st') \<and> map view_pipe qs = map want_pipe ps
    \<and> stdin st' = rest \<and> LookAhead st' = Tnl \<and> printed st' = printed st"
proof -
  obtain st1 where st1: "Next st = Some st1" using Next_ok by blast
  then have a: "ahead st1 (show_line ps rest) (printed st)" using assms(2) by (auto simp: ahead_def)
  obtain e w r where e: "nextToken (show_line ps rest) = Some (lex_result e w r [])"
    using show_line_token [OF assms(1)] by blast
  have "2 * length ps < 2 * todo st1 + 1"
  proof (cases ps)
    case (Cons p ps')
    let ?sc = "sp_first p"
    have "good_cmd ?sc" using assms(1) Cons by (cases "sp_more p") (auto simp: good_pipe_def)
    then obtain v vs where v: "sc_words ?sc = v # vs" "good_word v" by (cases "sc_words ?sc") (auto simp: good_cmd_def)
    then have "show_line ps rest = show_word v @ drop (length (show_word v)) (show_line ps rest)"
      using Cons by (simp add: show_pipe_def show_cmd_def)
    then have "nextToken (show_line ps rest) = Some (lex_result Tword (v @ [EOS]) (drop (length (show_word v)) (show_line ps rest)) [])"
      using nextToken_word [OF v(2)] by metis
    note T = ahead_token [OF a this]
    have "length (show_line ps' rest) \<le> length (stdin st1)"
      using T(3) Cons v by (simp add: show_pipe_def show_cmd_def)
    then have "length ps' < length (stdin st1)" using length_show_line [of ps' rest] by simp
    then show ?thesis using T(1) Cons by (simp add: todo_def EndOfInput_def)
  qed simp
  from mkPipe_show [OF a assms(1) this] obtain qs st' where
    q: "mkPipe (2 * todo st1 + 1) st1 = Some (qs, st')" "map view_pipe qs = map want_pipe ps"
    "ahead st' (newline # rest) (printed st)" by blast
  show ?thesis using q(1,2) st1 ahead_token(1,3,4) [OF q(3) nextToken_ends(4)] by (auto simp: parse_def)
qed

section \<open>Properties of the parser\<close>

text \<open>
  Property C10: the parser is total and memory safe, and what it builds is well formed. On every input,
  \<open>parse\<close> returns; it never writes outside an argument vector or reads an unterminated word; and each
  pipe it returns is a linked chain of commands whose argument vectors are terminated by \<open>NULL\<close>.
\<close>

theorem parse_well_formed:
  "\<exists>ps st'. parse st = Some (ps, st') \<and> (\<forall>p. p \<in> set ps \<longrightarrow> linked Tnil (cmds p))"
  using parse_ok [of st] by (auto simp: list_all_iff)

theorem parse_well_formed_witness:
  "\<exists>ps st'. parse \<lparr>stdin = ''ls | wc'', Word = [], LookAhead = Tnil, printed = []\<rparr> = Some (ps, st')
     \<and> (\<forall>p. p \<in> set ps \<longrightarrow> linked Tnil (cmds p))"
  by (rule parse_well_formed)

text \<open>
  Property C11: the parser inverts the grammar. A line of pipes, written out with its words escaped and
  its separators, is parsed into exactly those pipes, with the input left behind the newline and
  nothing printed.
\<close>

theorem parse_roundtrip:
  assumes "list_all good_pipe ps" and "stdin st = show_line ps rest"
  shows "\<exists>qs st'. parse st = Some (qs, st') \<and> map view_pipe qs = map want_pipe ps
    \<and> stdin st' = rest \<and> LookAhead st' = Tnl \<and> printed st' = printed st"
  using assms by (rule parse_show)

definition sample_line :: "simple_pipe list" where
  "sample_line = [\<lparr>sp_first = \<lparr>sc_words = [''ls'', ''a b''], sc_in = Some ''f'', sc_out = None\<rparr>,
     sp_more = [(PoutErr, \<lparr>sc_words = [''wc''], sc_in = None, sc_out = Some (Tapp, ''g;'')\<rparr>)], sp_bg = True\<rparr>]"

theorem parse_roundtrip_witness:
  "\<exists>qs st'. parse \<lparr>stdin = show_line sample_line ''x'', Word = [], LookAhead = Tnil, printed = []\<rparr> = Some (qs, st')
    \<and> map view_pipe qs = map want_pipe sample_line \<and> stdin st' = ''x'' \<and> LookAhead st' = Tnl"
proof -
  have "list_all good_pipe sample_line"
    by (simp add: sample_line_def good_pipe_def good_cmd_def good_word_def BUF_SIZE_def redir_out_def)
  from parse_roundtrip [OF this, of "\<lparr>stdin = show_line sample_line ''x'', Word = [], LookAhead = Tnil, printed = []\<rparr>" "''x''"]
  show ?thesis by auto
qed

text \<open>The argument vectors a line is parsed into, and the input left.\<close>

definition parse_line :: "string \<Rightarrow> (string list list list \<times> string) option" where
  "parse_line s = do {
     (ps, st) \<leftarrow> parse \<lparr>stdin = s, Word = [], LookAhead = Tnil, printed = []\<rparr>;
     Some (map (\<lambda>p. map argv (cmds p)) ps, stdin st) }"

text \<open>
  A pipe is lost. After a syntax error, the loop of \<open>mkPipe\<close> over the rest of the line is
  resumed by the caller, which overwrites \<open>p->next\<close>: in \<open>x; a; < f\<close> the command \<open>a\<close>, read before the
  error, disappears, while \<open>a; < f\<close> keeps it.
\<close>

theorem parse_drops_pipe:
  "parse_line (''x; a; < f'' @ [newline]) = Some ([[[''x'']]], '' f'' @ [newline])
   \<and> parse_line (''a; < f'' @ [newline]) = Some ([[[''a'']]], '' f'' @ [newline])"
  by code_simp

text \<open>
  A redirection without a file name makes the parser discard the following line as well:
  the newline has already been read when the input is skipped to the next end of line.
\<close>

theorem parse_swallows_line:
  "parse_line (''ls <'' @ [newline] @ ''make'' @ [newline] @ ''pwd'') = Some ([], ''pwd'')"
  by code_simp

text \<open>
  A command that is not followed by a newline is not executed: at the end of the input
  the scanner reports an error instead of the word.
\<close>

theorem parse_unterminated_last_line:
  "parse_line ''ls'' = Some ([], []) \<and> parse_line (''ls'' @ [newline]) = Some ([[[''ls'']]], [])"
  by code_simp

end
