(* ===== verification/Shell_Builtins.thy ===== *)
theory Shell_Builtins
  imports Shell_Roundtrip
begin

text \<open>
  The linked list of \<open>hw2/list.c\<close>, the search of executables along \<open>PATH\<close> and the builtin commands of
  \<open>hw2/ush.c\<close>. The operating system is a parameter: the record \<open>kernel\<close> holds the answers of the
  calls the shell makes (\<open>k_run\<close> is the wait status of a program that is executed, or \<open>None\<close> if
  \<open>execvp\<close> fails). The state a builtin changes is the record \<open>shell\<close>; the environment is the
  ordered list of its variables.
\<close>

section \<open>list.c\<close>

text \<open>A list is the values of its nodes, \<open>NULL\<close> is \<open>[]\<close>; \<open>push\<close> dereferences its head.\<close>

definition make_node :: "string \<Rightarrow> string list" where
  "make_node v = [v]"

fun push :: "string list \<Rightarrow> string \<Rightarrow> string list option" where
  "push [] v = None"
| "push (x # xs) v = Some ((x # xs) @ make_node v)"

fun pop :: "string list \<Rightarrow> string option \<times> string list" where
  "pop [] = (None, [])"
| "pop (x # xs) = (Some x, xs)"

fun print_list :: "string list \<Rightarrow> string" where
  "print_list [] = []"
| "print_list (x # xs) = x @ [newline] @ print_list xs"

section \<open>State\<close>

text \<open>What a descriptor refers to: the streams the shell was started with, the ends of a pipe, a file.\<close>

datatype fobj = Inherited nat | PipeR nat | PipeW nat | InFile string | OutFile string bool

type_synonym fdtab = "nat \<rightharpoonup> fobj"

record kernel =
  k_access :: "string \<Rightarrow> bool"
  k_open_in :: "string \<Rightarrow> bool"
  k_open_out :: "string \<Rightarrow> bool"
  k_chdir :: "string \<Rightarrow> string \<Rightarrow> string option"
  k_run :: "string \<Rightarrow> string list \<Rightarrow> int option"

text \<open>What the shell and its children do that can be seen from outside.\<close>

datatype event =
    Output "fobj option" string
  | Exec string "string list" fdtab

record shell =
  environ :: "(string \<times> string) list"
  cwd :: string
  home_directory :: string
  fds :: fdtab
  pipefd :: "bool \<Rightarrow> nat \<times> nat"
  pipe_index :: bool
  npipes :: nat
  priority :: int
  log :: "event list"

definition emit :: "nat \<Rightarrow> string \<Rightarrow> shell \<Rightarrow> shell" where
  "emit fd s sh = sh\<lparr>log := log sh @ [Output (fds sh fd) s]\<rparr>"

definition STDIN_FILENO :: nat where "STDIN_FILENO = 0"
definition STDOUT_FILENO :: nat where "STDOUT_FILENO = 1"
definition STDERR_FILENO :: nat where "STDERR_FILENO = 2"

text \<open>How a builtin ends: it returns a value, or it exits the process that runs it.\<close>

datatype 's ending = Returned int 's | Exited int 's

definition EXIT_SUCCESS :: int where "EXIT_SUCCESS = 0"
definition EXIT_FAILURE :: int where "EXIT_FAILURE = 1"

text \<open>Reading an argument slot: the string or \<open>NULL\<close>; an uninitialised or missing slot is undefined.\<close>

definition arg :: "cmd_t \<Rightarrow> nat \<Rightarrow> string option option" where
  "arg c i = (if i < length (args c)
     then (case args c ! i of Str w \<Rightarrow> Some (Some w) | Null \<Rightarrow> Some None | Uninit \<Rightarrow> None)
     else None)"

text \<open>An argument that is used as a string: \<open>NULL\<close> is undefined too.\<close>

definition str_arg :: "cmd_t \<Rightarrow> nat \<Rightarrow> string option" where
  "str_arg c i = do { v \<leftarrow> arg c i; v }"

section \<open>Searching the path\<close>

definition PATH_MAX :: nat where
  "PATH_MAX = 4096"

text \<open>\<open>strchr(path, ':')\<close> or the end: the directory before it, and what follows the colon if there is one.\<close>

fun next_dir :: "string \<Rightarrow> string \<times> string option" where
  "next_dir [] = ([], None)"
| "next_dir (c # cs) = (if c = CHR '':'' then ([], Some cs)
     else let (d, r) = next_dir cs in (c # d, r))"

lemma next_dir_length: "next_dir p = (d, Some r) \<Longrightarrow> length r < length p"
  by (induction p arbitrary: d r) (fastforce split: if_splits prod.splits)+

text \<open>The name to try: \<open>dir/file\<close>, or \<open>file\<close> for an empty directory.\<close>

definition candidate :: "string \<Rightarrow> string \<Rightarrow> string" where
  "candidate file d = (if d = [] then file else d @ ''/'' @ file)"

function search_loop :: "kernel \<Rightarrow> string \<Rightarrow> string \<Rightarrow> string list \<Rightarrow> string list option" where
  "search_loop k file p lst = (case next_dir p of (d, r) \<Rightarrow> do {
     let startp = candidate file d;
     lst' \<leftarrow> (if k_access k startp
              then (if lst = [] then Some (make_node startp) else push lst startp) else Some lst);
     case r of None \<Rightarrow> Some lst' | Some p' \<Rightarrow> search_loop k file p' lst' })"
  by pat_completeness auto
termination
  by (relation "measure (\<lambda>(k, file, p, lst). length p)") (auto intro: next_dir_length [OF sym])

declare search_loop.simps [simp del]

definition default_path :: string where
  "default_path = '':/bin:/usr/bin''"

text \<open>
  \<open>search_path\<close> puts the name at the end of a buffer of \<open>PATH_MAX\<close> bytes, behind room for the whole of
  \<open>PATH\<close>; it does not check that both fit.
\<close>

definition search_path :: "kernel \<Rightarrow> (string \<times> string) list \<Rightarrow> string \<Rightarrow> string list option" where
  "search_path k env filename =
     (if filename = [] then Some []
      else if CHR ''/'' \<in> set filename then Some (make_node filename)
      else let path = (case map_of env ''PATH'' of None \<Rightarrow> default_path | Some v \<Rightarrow> v) in
        if length path + 1 + (length filename + 1) \<le> PATH_MAX
        then search_loop k filename path [] else None)"

section \<open>Builtin commands\<close>

definition matches :: "string \<Rightarrow> string \<Rightarrow> bool" where
  "matches s t \<longleftrightarrow> s = t"

text \<open>\<open>contains(list, string, length)\<close>\<close>

fun contains_str :: "string list \<Rightarrow> string \<Rightarrow> nat \<Rightarrow> bool option" where
  "contains_str xs s 0 = Some False"
| "contains_str [] s (Suc n) = None"
| "contains_str (x # xs) s (Suc n) = (if x = s then Some True else contains_str xs s n)"

definition is_subshell_builtin :: "cmd_t \<Rightarrow> bool option" where
  "is_subshell_builtin c = do {
     a \<leftarrow> str_arg c 0;
     let setenv_output_only = (matches a ''setenv'' \<and> nargs c > 1);
     Some (\<not> (matches a ''logout'' \<or> matches a ''cd'' \<or> matches a ''unsetenv'' \<or> setenv_output_only)) }"

definition where_cmd :: "kernel \<Rightarrow> cmd_t \<Rightarrow> shell \<Rightarrow> (int \<times> shell) option" where
  "where_cmd k c sh =
     (if nargs c = 2 then do {
        name \<leftarrow> str_arg c 1;
        lst \<leftarrow> search_path k (environ sh) name;
        Some (EXIT_SUCCESS, emit STDOUT_FILENO (print_list lst) sh) }
      else Some (EXIT_FAILURE, sh))"

text \<open>The C library's \<open>setenv\<close> with overwriting and \<open>unsetenv\<close>: they refuse an empty name and one with \<open>=\<close>.\<close>

definition env_name_ok :: "string \<Rightarrow> bool" where
  "env_name_ok n \<longleftrightarrow> n \<noteq> [] \<and> CHR ''='' \<notin> set n"

fun set_var :: "string \<Rightarrow> string \<Rightarrow> (string \<times> string) list \<Rightarrow> (string \<times> string) list" where
  "set_var n v [] = [(n, v)]"
| "set_var n v ((m, w) # env) = (if m = n then (m, v) # env else (m, w) # set_var n v env)"

definition unset_var :: "string \<Rightarrow> (string \<times> string) list \<Rightarrow> (string \<times> string) list" where
  "unset_var n env = filter (\<lambda>(m, w). m \<noteq> n) env"

definition unsetenv_cmd :: "cmd_t \<Rightarrow> shell \<Rightarrow> (int \<times> shell) option" where
  "unsetenv_cmd c sh =
     (if nargs c = 2 then do {
        n \<leftarrow> str_arg c 1;
        if \<not> env_name_ok n
        then Some (EXIT_FAILURE, emit STDERR_FILENO (''unsetenv: could not unset variable'' @ [newline]) sh)
        else Some (EXIT_SUCCESS, sh\<lparr>environ := unset_var n (environ sh)\<rparr>) }
      else Some (EXIT_SUCCESS, emit STDERR_FILENO (''unsetenv: wrong number of arguments'' @ [newline]) sh))"

definition show_var :: "string \<times> string \<Rightarrow> string" where
  "show_var = (\<lambda>(n, v). n @ ''='' @ v)"

definition setenv_cmd :: "cmd_t \<Rightarrow> shell \<Rightarrow> (int \<times> shell) option" where
  "setenv_cmd c sh =
     (if nargs c = 1
      then Some (EXIT_SUCCESS, emit STDOUT_FILENO (print_list (map show_var (environ sh))) sh)
      else do {
        n \<leftarrow> str_arg c 1;
        v \<leftarrow> arg c 2;
        if \<not> env_name_ok n then Some (EXIT_FAILURE, sh)
        else Some (EXIT_SUCCESS, sh\<lparr>environ := set_var n (case v of None \<Rightarrow> [] | Some w \<Rightarrow> w) (environ sh)\<rparr>) })"

fun echo_words :: "cmd_t \<Rightarrow> nat \<Rightarrow> nat \<Rightarrow> string option" where
  "echo_words c i 0 = Some []"
| "echo_words c i (Suc n) = do { w \<leftarrow> str_arg c i; r \<leftarrow> echo_words c (Suc i) n; Some (w @ '' '' @ r) }"

definition echo_cmd :: "cmd_t \<Rightarrow> shell \<Rightarrow> (int \<times> shell) option" where
  "echo_cmd c sh = do {
     out \<leftarrow> echo_words c 1 (nargs c - 1);
     Some (EXIT_SUCCESS, emit STDOUT_FILENO (out @ [newline]) sh) }"

definition cd_cmd :: "kernel \<Rightarrow> string option \<Rightarrow> shell \<Rightarrow> int \<times> shell" where
  "cd_cmd k path sh =
     (let p = (case path of None \<Rightarrow> home_directory sh | Some p \<Rightarrow> p)
      in case k_chdir k (cwd sh) p of
           None \<Rightarrow> (EXIT_SUCCESS, emit STDERR_FILENO (''error: could not change to directory '' @ p @ '' '' @ [newline]) sh)
         | Some d \<Rightarrow> (EXIT_SUCCESS, sh\<lparr>cwd := d\<rparr>))"

text \<open>\<open>getcwd\<close> fails for a path that does not fit; then nothing is printed.\<close>

definition pwd_cmd :: "shell \<Rightarrow> int \<times> shell" where
  "pwd_cmd sh = (if length (cwd sh) + 1 \<le> PATH_MAX + 1
     then (EXIT_SUCCESS, emit STDOUT_FILENO (cwd sh @ [newline]) sh) else (EXIT_SUCCESS, sh))"

definition builtin :: "kernel \<Rightarrow> cmd_t \<Rightarrow> shell \<Rightarrow> shell ending option" where
  "builtin k c sh = do {
     a \<leftarrow> str_arg c 0;
     if matches a ''logout'' then Some (Exited EXIT_SUCCESS (emit STDOUT_FILENO [newline] sh))
     else if matches a ''cd'' then do {
       p \<leftarrow> arg c 1;
       let (v, sh') = cd_cmd k p sh;
       Some (Returned v sh') }
     else if matches a ''setenv'' then do {
       (v, sh') \<leftarrow> setenv_cmd c sh;
       if nargs c = 1 then Some (Exited EXIT_SUCCESS sh') else Some (Returned v sh') }
     else if matches a ''unsetenv'' then do { (v, sh') \<leftarrow> unsetenv_cmd c sh; Some (Returned v sh') }
     else if matches a ''pwd'' then do { let (v, sh') = pwd_cmd sh; Some (Exited EXIT_SUCCESS sh') }
     else if matches a ''echo'' then do { (v, sh') \<leftarrow> echo_cmd c sh; Some (Exited EXIT_SUCCESS sh') }
     else if matches a ''where'' then do { (v, sh') \<leftarrow> where_cmd k c sh; Some (Exited EXIT_SUCCESS sh') }
     else Some (Returned 127 sh) }"

section \<open>The path search against its specification\<close>

text \<open>The directories of a path: the pieces between colons.\<close>

definition split_colon :: "string \<Rightarrow> string list" where
  "split_colon p = foldr (\<lambda>c ds. if c = CHR '':'' then [] # ds else (c # hd ds) # tl ds) p [[]]"

lemma split_colon_simps:
  "split_colon [] = [[]]"
  "split_colon (c # p) = (if c = CHR '':'' then [] # split_colon p else (c # hd (split_colon p)) # tl (split_colon p))"
  by (simp_all add: split_colon_def)

lemma split_colon_nonempty: "split_colon p \<noteq> []"
  by (induction p) (auto simp: split_colon_simps)

lemma next_dir_split:
  "split_colon p = (case next_dir p of (d, None) \<Rightarrow> [d] | (d, Some r) \<Rightarrow> d # split_colon r)"
  by (induction p) (auto simp: split_colon_simps split: prod.split option.split)

lemma push_some: "(if lst = [] then Some (make_node v) else push lst v) = Some (lst @ [v])"
  by (cases lst) (auto simp: make_node_def)

lemma search_loop_filter:
  "search_loop k file p lst = Some (lst @ filter (k_access k) (map (candidate file) (split_colon p)))"
proof (induction k "file" p lst rule: search_loop.induct)
  case (1 k "file" p lst)
  obtain d r where d: "next_dir p = (d, r)" by fastforce
  show ?case
  proof (cases r)
    case None
    then show ?thesis using d
      by (simp add: search_loop.simps [of k "file" p] next_dir_split [of p] push_some Let_def)
  next
    case (Some p')
    then show ?thesis using d 1 [OF d [symmetric] refl _ Some]
      by (simp add: search_loop.simps [of k "file" p] next_dir_split [of p] push_some Let_def)
  qed
qed

section \<open>Builtins on commands of the parser\<close>

lemma str_arg_ok:
  assumes "args_ok c" and "i < nargs c"
  shows "str_arg c i = Some (argv c ! i)" and "arg c i = Some (Some (argv c ! i))"
proof -
  have l: "i < length (args c)" using assms by (simp add: args_ok_def)
  have "is_str (args c ! i)"
    using assms l by (auto simp: args_ok_def list_all_length)
  then obtain w where "args c ! i = Str w" by (cases "args c ! i") (auto simp: is_str_def)
  then show "arg c i = Some (Some (argv c ! i))" and "str_arg c i = Some (argv c ! i)"
    using l assms by (simp_all add: str_arg_def arg_def argv_def)
qed

lemma length_argv: "args_ok c \<Longrightarrow> length (argv c) = nargs c"
  by (simp add: args_ok_def argv_def)

lemma arg_last: "shape_ok t c \<Longrightarrow> arg c (nargs c) = Some None"
  by (auto simp: shape_ok_def args_ok_def arg_def)

text \<open>An argument up to and including the terminating \<open>NULL\<close>.\<close>

lemma arg_upto:
  assumes "shape_ok t c" and "i \<le> nargs c"
  shows "arg c i = Some (if i < nargs c then Some (argv c ! i) else None)"
  using str_arg_ok(2) [of c i] arg_last [OF assms(1)] assms by (auto simp: shape_ok_def)

lemma echo_words_ok:
  "args_ok c \<Longrightarrow> i + n \<le> nargs c \<Longrightarrow>
     echo_words c i n = Some (concat (map (\<lambda>w. w @ '' '') (take n (drop i (argv c)))))"
proof (induction n arbitrary: i)
  case 0
  then show ?case by simp
next
  case (Suc n)
  then have "drop i (argv c) = argv c ! i # drop (Suc i) (argv c)"
    by (metis Cons_nth_drop_Suc length_argv less_add_Suc1 less_le_trans add_Suc_right)
  with Suc str_arg_ok(1) [of c i] show ?case by simp
qed

definition path_fits :: "shell \<Rightarrow> string \<Rightarrow> bool" where
  "path_fits sh f \<longleftrightarrow> length (case map_of (environ sh) ''PATH'' of None \<Rightarrow> default_path | Some v \<Rightarrow> v)
     + 1 + (length f + 1) \<le> PATH_MAX"

lemma search_path_defined: "path_fits sh f \<Longrightarrow> \<exists>l. search_path k (environ sh) f = Some l"
  by (auto simp: search_path_def path_fits_def Let_def search_loop_filter)

section \<open>Properties of the builtins\<close>

text \<open>
  The search of executables. For a plain file name that fits in the buffer together with
  \<open>PATH\<close>, \<open>search_path\<close> returns exactly the accessible candidates, one per directory of \<open>PATH\<close>, in
  the order of the directories; an empty directory stands for the current one.
\<close>

theorem search_path_spec:
  assumes "f \<noteq> []" and "CHR ''/'' \<notin> set f" and "map_of env ''PATH'' = Some p"
    and "length p + 1 + (length f + 1) \<le> PATH_MAX"
  shows "search_path k env f = Some (filter (k_access k) (map (candidate f) (split_colon p)))"
  using assms by (simp add: search_path_def search_loop_filter)

definition sample_kernel :: kernel where
  "sample_kernel = \<lparr>k_access = (\<lambda>p. p \<in> set [''/bin/ls'', ''/bin/wc'', ''ls'']), k_open_in = (\<lambda>p. p = ''in''),
     k_open_out = (\<lambda>p. True), k_chdir = (\<lambda>d p. if p = ''/tmp'' then Some p else None), k_run = (\<lambda>p a. Some 0)\<rparr>"

theorem search_path_spec_witness:
  "search_path sample_kernel [(''PATH'', ''/usr:/bin::'')] ''ls''
     = Some (filter (k_access sample_kernel) (map (candidate ''ls'') (split_colon ''/usr:/bin::'')))
   \<and> filter (k_access sample_kernel) (map (candidate ''ls'') (split_colon ''/usr:/bin::'')) = [''/bin/ls'', ''ls'', ''ls'']"
proof
  show "search_path sample_kernel [(''PATH'', ''/usr:/bin::'')] ''ls''
     = Some (filter (k_access sample_kernel) (map (candidate ''ls'') (split_colon ''/usr:/bin::'')))"
    by (rule search_path_spec) (simp_all add: PATH_MAX_def)
  show "filter (k_access sample_kernel) (map (candidate ''ls'') (split_colon ''/usr:/bin::'')) = [''/bin/ls'', ''ls'', ''ls'']"
    by code_simp
qed

text \<open>
  \<open>search_path\<close> overruns its buffer. With a \<open>PATH\<close> and a name that together exceed
  \<open>PATH_MAX\<close> the search has no defined behaviour; nothing checks the length.
\<close>

theorem search_path_overflow:
  assumes "f \<noteq> []" and "CHR ''/'' \<notin> set f" and "map_of env ''PATH'' = Some p"
    and "PATH_MAX < length p + 1 + (length f + 1)"
  shows "search_path k env f = None"
  using assms by (simp add: search_path_def)

theorem search_path_overflow_witness:
  "search_path sample_kernel [(''PATH'', replicate 5000 (CHR ''a''))] ''ls'' = None"
  by (rule search_path_overflow [where p = "replicate 5000 (CHR ''a'')"]) (simp_all add: PATH_MAX_def)

text \<open>
  Every builtin is defined on a command the parser built, provided the searched name
  fits: no argument beyond the terminating \<open>NULL\<close> is read.
\<close>

theorem builtin_defined:
  assumes "shape_ok t c" and "\<forall>f. f \<in> set (argv c) \<longrightarrow> path_fits sh f"
  shows "\<exists>r. builtin k c sh = Some r"
proof -
  have a: "args_ok c" "0 < nargs c" using assms(1) by (auto simp: shape_ok_def args_ok_def)
  note [simp] = str_arg_ok(1) [OF a(1)] arg_upto [OF assms(1)] length_argv [OF a(1)]
  have e: "\<exists>x. echo_words c (Suc 0) (nargs c - Suc 0) = Some x"
    using echo_words_ok [OF a(1), of 1 "nargs c - 1"] a(2) by auto
  have w: "\<exists>l. search_path k (environ sh) (argv c ! Suc 0) = Some l" if "nargs c = 2"
    using that assms(2) by (intro search_path_defined) auto
  have "\<exists>r. where_cmd k c sh = Some r" using w by (auto simp: where_cmd_def)
  moreover have "\<exists>r. setenv_cmd c sh = Some r"
    using a(2) by (cases "nargs c = 1") (auto simp: setenv_cmd_def)
  moreover have "\<exists>r. unsetenv_cmd c sh = Some r" by (auto simp: unsetenv_cmd_def)
  moreover have "\<exists>r. echo_cmd c sh = Some r" using e by (auto simp: echo_cmd_def)
  ultimately show ?thesis using a(2)
    by (auto simp: builtin_def Let_def split: prod.split)
qed

definition where_ls :: cmd_t where
  "where_ls = \<lparr>cexec = Tsemi, cin = Tnil, cout = Tnil, infile = None, outfile = None, nargs = 2, maxargs = 4,
     args = [Str ''where'', Str ''ls'', Null, Uninit]\<rparr>"

definition sample_shell :: shell where
  "sample_shell = \<lparr>environ = [(''PATH'', ''/bin'')], cwd = ''/'', home_directory = ''/'',
     fds = [0 \<mapsto> Inherited 0, 1 \<mapsto> Inherited 1, 2 \<mapsto> Inherited 2], pipefd = (\<lambda>_. (0, 0)), pipe_index = False,
     npipes = 0, priority = 0, log = []\<rparr>"

theorem builtin_defined_witness: "\<exists>r. builtin sample_kernel where_ls sample_shell = Some r"
proof (rule builtin_defined)
  show "shape_ok Tnil where_ls"
    by (simp add: shape_ok_def args_ok_def in_ok_def where_ls_def is_str_def)
  show "\<forall>f. f \<in> set (argv where_ls) \<longrightarrow> path_fits sample_shell f"
    by (simp add: where_ls_def argv_def path_fits_def sample_shell_def PATH_MAX_def)
qed

lemma map_of_set_var: "map_of (set_var n v env) = (map_of env)(n \<mapsto> v)"
  by (induction n v env rule: set_var.induct) auto

lemma map_of_unset_var: "map_of (unset_var n env) = (map_of env)(n := None)"
  by (induction env) (auto simp: unset_var_def)

text \<open>
  The environment as a map. The \<open>setenv\<close> builtin binds exactly the given variable to the
  given value, or to the empty string without one, and \<open>unsetenv\<close> removes exactly the given variable;
  both leave everything else of the shell alone.
\<close>

theorem setenv_unsetenv_map:
  assumes "shape_ok t c" and "nargs c = 2 \<or> nargs c = 3" and "env_name_ok (argv c ! 1)"
  shows "(\<exists>e. setenv_cmd c sh = Some (EXIT_SUCCESS, sh\<lparr>environ := e\<rparr>)
      \<and> map_of e = (map_of (environ sh))(argv c ! 1 \<mapsto> if nargs c = 3 then argv c ! 2 else []))
    \<and> (nargs c = 2 \<longrightarrow> (\<exists>e. unsetenv_cmd c sh = Some (EXIT_SUCCESS, sh\<lparr>environ := e\<rparr>)
      \<and> map_of e = (map_of (environ sh))(argv c ! 1 := None)))"
proof -
  have a: "args_ok c" using assms(1) by (auto simp: shape_ok_def)
  note [simp] = str_arg_ok(1) [OF a] arg_upto [OF assms(1)]
  show ?thesis
    using assms(2,3) by (auto simp: setenv_cmd_def unsetenv_cmd_def map_of_set_var map_of_unset_var)
qed

definition setenv_x :: cmd_t where
  "setenv_x = \<lparr>cexec = Tsemi, cin = Tnil, cout = Tnil, infile = None, outfile = None, nargs = 2, maxargs = 4,
     args = [Str ''setenv'', Str ''PATH'', Null, Uninit]\<rparr>"

theorem setenv_unsetenv_map_witness:
  "(\<exists>e. setenv_cmd setenv_x sample_shell = Some (EXIT_SUCCESS, sample_shell\<lparr>environ := e\<rparr>)
      \<and> map_of e = (map_of (environ sample_shell))(''PATH'' \<mapsto> []))
   \<and> (\<exists>e. unsetenv_cmd setenv_x sample_shell = Some (EXIT_SUCCESS, sample_shell\<lparr>environ := e\<rparr>)
      \<and> map_of e = (map_of (environ sample_shell))(''PATH'' := None))"
proof -
  have "shape_ok Tnil setenv_x" by (simp add: shape_ok_def args_ok_def in_ok_def setenv_x_def is_str_def)
  moreover have n: "nargs setenv_x = 2" by (simp add: setenv_x_def)
  moreover have p: "argv setenv_x ! 1 = ''PATH''" by (simp add: setenv_x_def argv_def)
  ultimately show ?thesis
    using setenv_unsetenv_map [of Tnil setenv_x sample_shell] by (simp add: env_name_ok_def)
qed

end
