(* ===== verification/Shell_Exec.thy ===== *)
theory Shell_Exec
  imports Shell_Builtins C_Lib
begin

text \<open>
  Execution of commands, \<open>hw2/main.c\<close>: descriptors, pipes and redirections around \<open>fork\<close> and
  \<open>execvp\<close>, the loop over pipelines, and the main loop. A child process is a copy of the shell's state
  whose changes are dropped when it ends; what it does to the outside is kept in the log. Programs
  themselves are not modelled: an \<open>Exec\<close> event records which program is started with which arguments
  and descriptors. \<open>fork\<close> does not fail.
\<close>

section \<open>Descriptors\<close>

definition OPEN_MAX :: nat where
  "OPEN_MAX = 1024"

definition free_fd :: "fdtab \<Rightarrow> nat option" where
  "free_fd t = find (\<lambda>n. t n = None) [0..<OPEN_MAX]"

definition dup2 :: "nat \<Rightarrow> nat \<Rightarrow> fdtab \<Rightarrow> fdtab" where
  "dup2 a b t = (case t a of None \<Rightarrow> t | Some x \<Rightarrow> t(b \<mapsto> x))"

definition close_fd :: "nat \<Rightarrow> fdtab \<Rightarrow> fdtab" where
  "close_fd a t = t(a := None)"

text \<open>\<open>pipe\<close>: the two lowest free descriptors, the first for reading.\<close>

definition sys_pipe :: "nat \<Rightarrow> fdtab \<Rightarrow> (nat \<times> nat \<times> fdtab) option" where
  "sys_pipe k t = do {
     r \<leftarrow> free_fd t;
     w \<leftarrow> free_fd (t(r \<mapsto> PipeR k));
     Some (r, w, t(r \<mapsto> PipeR k, w \<mapsto> PipeW k)) }"

definition sys_open :: "bool \<Rightarrow> fobj \<Rightarrow> fdtab \<Rightarrow> (nat \<times> fdtab) option" where
  "sys_open allowed x t = (if allowed then do { n \<leftarrow> free_fd t; Some (n, t(n \<mapsto> x)) } else None)"

definition is_pipe :: "token \<Rightarrow> bool" where
  "is_pipe t \<longleftrightarrow> t = Tpipe \<or> t = TpipeErr"

definition is_file :: "token \<Rightarrow> bool" where
  "is_file t \<longleftrightarrow> t = Tout \<or> t = Tapp \<or> t = ToutErr \<or> t = TappErr"

section \<open>Setting up a child\<close>

definition setup_pipe_input :: "bool \<Rightarrow> cmd_t \<Rightarrow> shell \<Rightarrow> shell" where
  "setup_pipe_input index c sh =
     (if is_pipe (cin c) then
        if is_pipe (cout c) then sh\<lparr>fds := dup2 (fst (pipefd sh (\<not> index))) STDIN_FILENO (fds sh)\<rparr>
        else sh\<lparr>fds := dup2 (fst (pipefd sh index)) STDIN_FILENO (fds sh)\<rparr>
      else sh)"

definition setup_pipe_output :: "bool \<Rightarrow> cmd_t \<Rightarrow> shell \<Rightarrow> shell" where
  "setup_pipe_output index c sh =
     (if is_pipe (cout c) then
        let w = snd (pipefd sh index);
            t = dup2 w STDOUT_FILENO (fds sh)
        in sh\<lparr>fds := (if cout c = TpipeErr then dup2 w STDERR_FILENO t else t)\<rparr>
      else sh)"

text \<open>A failed \<open>open\<close> gives -1, on which \<open>dup2\<close> and \<open>close\<close> fail too: the child runs on unredirected.\<close>

definition setup_file_output :: "kernel \<Rightarrow> cmd_t \<Rightarrow> shell \<Rightarrow> shell option" where
  "setup_file_output k c sh =
     (if is_file (cout c) then do {
        f \<leftarrow> outfile c;
        let append = (cout c = Tapp \<or> cout c = TappErr);
        case sys_open (k_open_out k f) (OutFile f append) (fds sh) of
          None \<Rightarrow> Some sh
        | Some (n, t) \<Rightarrow>
            let t1 = dup2 n STDOUT_FILENO t;
                t2 = (if cout c = ToutErr \<or> cout c = TappErr then dup2 n STDERR_FILENO t1 else t1)
            in Some (sh\<lparr>fds := close_fd n t2\<rparr>) }
      else Some sh)"

definition setup_file_input :: "kernel \<Rightarrow> cmd_t \<Rightarrow> shell \<Rightarrow> shell option" where
  "setup_file_input k c sh =
     (if cin c = Tin then do {
        f \<leftarrow> infile c;
        case sys_open (k_open_in k f) (InFile f) (fds sh) of
          None \<Rightarrow> Some sh
        | Some (n, t) \<Rightarrow> Some (sh\<lparr>fds := dup2 n STDIN_FILENO t\<rparr>) }
      else Some sh)"

definition close_pipes :: "bool \<Rightarrow> cmd_t \<Rightarrow> shell \<Rightarrow> shell" where
  "close_pipes index c sh =
     (let sh1 = (if is_pipe (cout c) then sh\<lparr>fds := close_fd (snd (pipefd sh index)) (fds sh)\<rparr> else sh)
      in if is_pipe (cin c) then
           if is_pipe (cout c) then sh1\<lparr>fds := close_fd (fst (pipefd sh1 (\<not> index))) (fds sh1)\<rparr>
           else sh1\<lparr>fds := close_fd (fst (pipefd sh1 index)) (fds sh1)\<rparr>
         else sh1)"

text \<open>Without a free descriptor the shell dies.\<close>

definition make_pipe :: "bool \<Rightarrow> shell \<Rightarrow> shell ending" where
  "make_pipe index sh = (case sys_pipe (npipes sh) (fds sh) of
       None \<Rightarrow> Exited EXIT_FAILURE (emit STDERR_FILENO (''Pipe creation failed'' @ [newline]) sh)
     | Some (r, w, t) \<Rightarrow> Returned 0 (sh\<lparr>fds := t, pipefd := (pipefd sh)(index := (r, w)), npipes := Suc (npipes sh)\<rparr>))"

section \<open>nice\<close>

text \<open>
  The structure that \<open>make_command_from_args\<close> allocates has \<open>sizeof(Cmd)\<close> bytes, the size of a
  pointer; the fields it writes have the offsets and sizes of the 64-bit layout. Each argument is
  copied into \<open>strlen\<close> bytes, one too few.
\<close>

definition sizeof_Cmd :: nat where
  "sizeof_Cmd = 8"

definition cmd_fields :: "(nat \<times> nat) list" where
  "cmd_fields = [(4, 4), (8, 4), (0, 4), (48, 8), (36, 4), (32, 4), (40, 8)]"

definition strcpy_fits :: "nat \<Rightarrow> string \<Rightarrow> bool" where
  "strcpy_fits n s \<longleftrightarrow> length s + 1 \<le> n"

fun copy_args :: "cmd_t \<Rightarrow> nat \<Rightarrow> nat \<Rightarrow> slot list option" where
  "copy_args c i 0 = Some []"
| "copy_args c i (Suc n) = do {
     w \<leftarrow> str_arg c (i + 2);
     if strcpy_fits (length w) w then do { r \<leftarrow> copy_args c (Suc i) n; Some (Str w # r) } else None }"

definition make_command_from_args :: "cmd_t \<Rightarrow> cmd_t option" where
  "make_command_from_args c =
     (if list_all (\<lambda>(off, w). off + w \<le> sizeof_Cmd) cmd_fields then do {
        as \<leftarrow> copy_args c 0 (nargs c - 2);
        Some (c\<lparr>nargs := nargs c - 2, infile := None, outfile := None,
                args := as @ replicate (maxargs c - (nargs c - 2)) Uninit\<rparr>) }
      else None)"

definition clamp_nice :: "int \<Rightarrow> int" where
  "clamp_nice p = (if p < - 20 then - 20 else if p > 20 then 20 else p)"

text \<open>The priority \<open>_nice\<close> sets: 4, or its first argument.\<close>

definition nice_priority :: "cmd_t \<Rightarrow> int option" where
  "nice_priority c = do {
     n \<leftarrow> arg c 1;
     case n of None \<Rightarrow> Some 4 | Some w \<Rightarrow> map_option clamp_nice (atoi w) }"

section \<open>Commands\<close>

text \<open>\<open>execvp\<close> reads the argument vector up to its \<open>NULL\<close>.\<close>

fun read_argv :: "slot list \<Rightarrow> string list option" where
  "read_argv [] = None"
| "read_argv (Null # vs) = Some []"
| "read_argv (Uninit # vs) = None"
| "read_argv (Str w # vs) = do { ws \<leftarrow> read_argv vs; Some (w # ws) }"

text \<open>The wait status of a child that exits with code \<open>v\<close>.\<close>

definition wait_status :: "int \<Rightarrow> int" where
  "wait_status v = (v mod 256) * 256"

text \<open>The child after \<open>fork\<close>: its descriptors, then a builtin or a program.\<close>

definition setup_child :: "kernel \<Rightarrow> cmd_t \<Rightarrow> shell \<Rightarrow> shell option" where
  "setup_child k c sh = do {
     let sh1 = setup_pipe_output (pipe_index sh) c (setup_pipe_input (pipe_index sh) c sh);
     sh2 \<leftarrow> setup_file_output k c sh1;
     setup_file_input k c sh2 }"

text \<open>The result is the wait status and the child's final state.\<close>

definition exec_child :: "kernel \<Rightarrow> cmd_t \<Rightarrow> shell \<Rightarrow> (int \<times> shell) option" where
  "exec_child k c s = do {
     a \<leftarrow> str_arg c 0;
     exec_list \<leftarrow> search_path k (environ s) a;
     case exec_list of
       [] \<Rightarrow> Some (wait_status 127, emit STDOUT_FILENO (''-ush: '' @ a @ '': command not found'' @ [newline]) s)
     | path # _ \<Rightarrow> do {
         av \<leftarrow> read_argv (args c);
         case k_run k path av of
           None \<Rightarrow> Some (wait_status 126, emit STDERR_FILENO (''exec failed'' @ [newline]) s)
         | Some st \<Rightarrow> Some (st, s\<lparr>log := log s @ [Exec path av (fds s)]\<rparr>) } }"

definition run_child :: "kernel \<Rightarrow> cmd_t \<Rightarrow> shell \<Rightarrow> (int \<times> shell) option" where
  "run_child k c sh = do {
     sh1 \<leftarrow> setup_child k c sh;
     b \<leftarrow> builtin k c sh1;
     case b of
       Exited v s \<Rightarrow> Some (wait_status v, s)
     | Returned v s \<Rightarrow> if v \<noteq> 127 then Some (wait_status v, s) else exec_child k c s }"

text \<open>\<open>print_command_info\<close> prints nothing without \<open>DEBUG\<close>, but exits on an output it does not know.\<close>

definition known_output :: "cmd_t \<Rightarrow> bool" where
  "known_output c \<longleftrightarrow> cout c = Tnil \<or> is_file (cout c) \<or> is_pipe (cout c)"

text \<open>The part of \<open>evaluate_command\<close> that forks.\<close>

definition fork_command :: "kernel \<Rightarrow> cmd_t \<Rightarrow> shell \<Rightarrow> shell ending option" where
  "fork_command k c sh =
     (case (if is_pipe (cout c)
            then make_pipe (\<not> pipe_index sh) (sh\<lparr>pipe_index := \<not> pipe_index sh\<rparr>)
            else Returned 0 sh) of
        Exited v s \<Rightarrow> Some (Exited v s)
      | Returned v s \<Rightarrow> do {
          (status, child) \<leftarrow> run_child k c s;
          Some (Returned status (close_pipes (pipe_index s) c (s\<lparr>log := log child\<rparr>))) })"

text \<open>\<open>evaluate_command\<close> with \<open>_nice\<close>, which calls it again on the command behind \<open>nice n\<close>.\<close>

function evaluate_command :: "kernel \<Rightarrow> cmd_t \<Rightarrow> shell \<Rightarrow> shell ending option" where
  "evaluate_command k c sh = do {
     a \<leftarrow> str_arg c 0;
     if matches a ''nice'' then do {
       p \<leftarrow> nice_priority c;
       let sh1 = sh\<lparr>priority := p\<rparr>;
       m \<leftarrow> arg c 2;
       case m of
         None \<Rightarrow> Some (Returned EXIT_SUCCESS sh1)
       | Some _ \<Rightarrow> do {
           cNew \<leftarrow> make_command_from_args c;
           r \<leftarrow> evaluate_command k cNew sh1;
           Some (case r of Returned v s \<Rightarrow> Returned EXIT_SUCCESS s | Exited v s \<Rightarrow> Exited v s) } }
     else if \<not> known_output c then Some (Exited EXIT_FAILURE (emit STDERR_FILENO (''Shouldn't get here'' @ [newline]) sh))
     else if a = ''end'' then Some (Exited 0 (emit STDOUT_FILENO [newline] sh))
     else do {
       sub \<leftarrow> is_subshell_builtin c;
       if \<not> sub then builtin k c sh else fork_command k c sh } }"
  by pat_completeness auto
termination
  by (relation "measure (\<lambda>(k, c, sh). nargs c)")
     (auto simp: make_command_from_args_def cmd_fields_def sizeof_Cmd_def)

declare evaluate_command.simps [simp del]

section \<open>Pipelines and the main loop\<close>

fun evaluate_cmds :: "kernel \<Rightarrow> cmd_t list \<Rightarrow> shell \<Rightarrow> shell ending option" where
  "evaluate_cmds k [] sh = Some (Returned 0 sh)"
| "evaluate_cmds k (c # cs) sh = do {
     r \<leftarrow> evaluate_command k c sh;
     case r of Exited v s \<Rightarrow> Some (Exited v s) | Returned v s \<Rightarrow> evaluate_cmds k cs s }"

fun evaluate_pipe :: "kernel \<Rightarrow> pipe_t list \<Rightarrow> shell \<Rightarrow> shell ending option" where
  "evaluate_pipe k [] sh = Some (Returned 0 (sh\<lparr>pipe_index := False\<rparr>))"
| "evaluate_pipe k (p # ps) sh = do {
     r \<leftarrow> evaluate_cmds k (cmds p) (sh\<lparr>pipe_index := False\<rparr>);
     case r of Exited v s \<Rightarrow> Some (Exited v s) | Returned v s \<Rightarrow> evaluate_pipe k ps s }"

text \<open>The loop of \<open>main\<close>: prompt, parse, evaluate. The result is the exit status of the shell.\<close>

lemma evaluate_end: "evaluate_command k End sh = Some (Exited 0 (emit STDOUT_FILENO [newline] sh))"
  by (subst evaluate_command.simps) (simp add: End_def str_arg_def arg_def matches_def known_output_def)

lemma main_loop_progress:
  assumes "parse st = Some (ps, st')" and "evaluate_pipe k ps sh = Some (Returned v s)"
  shows "length (stdin st') < length (stdin st)"
  using parse_consumes [OF assms(1)] assms(2) by (auto simp: evaluate_end)

function main_loop :: "string \<Rightarrow> kernel \<Rightarrow> pstate \<Rightarrow> shell \<Rightarrow> (int \<times> shell) option" where
  "main_loop hostname k st sh = do {
     (ps, st') \<leftarrow> parse st;
     r \<leftarrow> evaluate_pipe k ps (emit STDOUT_FILENO (hostname @ ''% '') sh);
     case r of Exited v s \<Rightarrow> Some (v, s) | Returned v s \<Rightarrow> main_loop hostname k st' s }"
  by pat_completeness auto
termination
  by (relation "measure (\<lambda>(h, k, st, sh). length (stdin st))") (auto dest: main_loop_progress)

declare main_loop.simps [simp del]

text \<open>The loop of \<open>process_rc\<close>, which also stops at a line that gives no pipe.\<close>

function rc_loop :: "kernel \<Rightarrow> pstate \<Rightarrow> shell \<Rightarrow> (shell ending \<times> pstate) option" where
  "rc_loop k st sh = do {
     (ps, st') \<leftarrow> parse st;
     case ps of
       [] \<Rightarrow> Some (Returned 0 sh, st')
     | p # _ \<Rightarrow> (case cmds p of
           [] \<Rightarrow> None
         | c # _ \<Rightarrow> do {
             a \<leftarrow> str_arg c 0;
             if a = ''end'' then Some (Returned 0 sh, st')
             else do {
               r \<leftarrow> evaluate_pipe k ps sh;
               case r of Exited v s \<Rightarrow> Some (Exited v s, st') | Returned v s \<Rightarrow> rc_loop k st' s } }) }"
  by pat_completeness auto
termination
  by (relation "measure (\<lambda>(k, st, sh). length (stdin st))") (auto dest: main_loop_progress)

declare rc_loop.simps [simp del]

definition parser_on :: "string \<Rightarrow> pstate" where
  "parser_on s = \<lparr>stdin = s, Word = [], LookAhead = Tnil, printed = []\<rparr>"

definition rc_filename :: string where
  "rc_filename = ''/.ushrc''"

definition die_with :: "string \<Rightarrow> shell \<Rightarrow> shell ending" where
  "die_with msg sh = Exited EXIT_FAILURE (emit STDERR_FILENO msg sh)"

text \<open>
  \<open>process_rc\<close>: standard input is redirected to the file while its commands run. \<open>content\<close> gives the
  text of a readable file. The parser state is returned: what stdio has read ahead of the file stays
  in the buffer of \<open>stdin\<close>.
\<close>

definition process_rc :: "kernel \<Rightarrow> (string \<Rightarrow> string option) \<Rightarrow> shell \<Rightarrow> (shell ending \<times> pstate) option" where
  "process_rc k content sh = do {
     home \<leftarrow> map_of (environ sh) ''HOME'';
     let rc_full_path = home @ rc_filename;
     if length rc_full_path + 1 > PATH_MAX then None
     else (case sys_open (content rc_full_path \<noteq> None) (InFile rc_full_path) (fds sh) of
         None \<Rightarrow> Some (Returned 0 sh, parser_on [])
       | Some (rc_file, t1) \<Rightarrow>
           if rc_file = 0 then Some (Returned 0 (sh\<lparr>fds := t1\<rparr>), parser_on [])
           else (case (t1 STDIN_FILENO, free_fd t1) of
               (Some x, Some rc_stdin_orig) \<Rightarrow> do {
                 txt \<leftarrow> content rc_full_path;
                 (r, st) \<leftarrow> rc_loop k (parser_on txt)
                   (sh\<lparr>fds := close_fd rc_file (dup2 rc_file STDIN_FILENO (t1(rc_stdin_orig \<mapsto> x)))\<rparr>);
                 case r of
                   Exited v s \<Rightarrow> Some (Exited v s, st)
                 | Returned v s \<Rightarrow>
                     if fds s rc_stdin_orig = None then Some (die_with ''dup failed'' s, st)
                     else Some (Returned v (s\<lparr>fds := close_fd rc_stdin_orig (dup2 rc_stdin_orig STDIN_FILENO (fds s))\<rparr>), st) }
             | _ \<Rightarrow> Some (die_with ''dup failed'' sh, parser_on []))) }"

text \<open>\<open>main\<close>, with the name of the host and the text that arrives on standard input.\<close>

definition ush_main :: "kernel \<Rightarrow> (string \<Rightarrow> string option) \<Rightarrow> string \<Rightarrow> string \<Rightarrow> shell \<Rightarrow> (int \<times> shell) option" where
  "ush_main k content host input sh0 = do {
     let sh = sh0\<lparr>home_directory := cwd sh0\<rparr>;
     let hostname = (case map_of (environ sh) ''HOSTNAME'' of None \<Rightarrow> host | Some h \<Rightarrow> h);
     (r, st) \<leftarrow> process_rc k content sh;
     case r of
       Exited v s \<Rightarrow> Some (v, s)
     | Returned v s \<Rightarrow> main_loop hostname k (st\<lparr>stdin := stdin st @ input\<rparr>) s }"

section \<open>Plumbing of a pipeline\<close>

lemma std_fds [simp]: "STDIN_FILENO = 0" "STDOUT_FILENO = Suc 0" "STDERR_FILENO = 2"
  by (simp_all add: STDIN_FILENO_def STDOUT_FILENO_def STDERR_FILENO_def)

lemma free_fd_eq:
  assumes "t n = None" and "\<forall>m < n. t m \<noteq> None" and "n < OPEN_MAX"
  shows "free_fd t = Some n"
  using assms by (auto simp: free_fd_def find_Some_iff intro!: exI [of _ n])

text \<open>Descriptors that a child gets on the way to its program, but for the files it opens.\<close>

definition is_file_obj :: "fobj \<Rightarrow> bool" where
  "is_file_obj x = (case x of InFile f \<Rightarrow> True | OutFile f b \<Rightarrow> True | _ \<Rightarrow> False)"

definition from_tab :: "fdtab \<Rightarrow> fdtab \<Rightarrow> bool" where
  "from_tab t t' \<longleftrightarrow> (\<forall>n x. t' n = Some x \<longrightarrow> is_file_obj x \<or> x \<in> ran t)"

lemma from_tab_refl [simp]: "from_tab t t"
  by (auto simp: from_tab_def ran_def)

lemma from_tab_dup2: "from_tab t t' \<Longrightarrow> from_tab t (dup2 a b t')"
  by (auto simp: from_tab_def dup2_def split: option.split)

lemma from_tab_open: "from_tab t t' \<Longrightarrow> is_file_obj x \<Longrightarrow> sys_open ok x t' = Some (n, t'') \<Longrightarrow> from_tab t t''"
  unfolding from_tab_def sys_open_def by (fastforce elim!: bind_SomeE split: if_splits)

lemma from_tab_close: "from_tab t t' \<Longrightarrow> from_tab t (close_fd n t')"
  by (auto simp: from_tab_def close_fd_def)

lemma dup2_other [simp]: "b \<noteq> m \<Longrightarrow> dup2 a b t m = t m"
  by (auto simp: dup2_def split: option.split)

lemma dup2_Some: "t a = Some x \<Longrightarrow> dup2 a b t = t(b \<mapsto> x)"
  by (simp add: dup2_def)

lemma sys_open_keeps: "sys_open ok x t = Some (n, t') \<Longrightarrow> t m \<noteq> None \<Longrightarrow> t' m = t m"
  by (auto simp: sys_open_def free_fd_def find_Some_iff elim!: bind_SomeE split: if_splits)

lemma sys_open_fresh: "sys_open ok x t = Some (n, t') \<Longrightarrow> t n = None \<and> t' n = Some x"
  by (auto simp: sys_open_def free_fd_def find_Some_iff elim!: bind_SomeE split: if_splits)

lemma setup_file_output_tab:
  assumes "is_file (cout c) \<longrightarrow> outfile c \<noteq> None" and "from_tab t (fds sh)" and "fds sh 0 \<noteq> None"
    and "fds sh (Suc 0) \<noteq> None"
  shows "\<exists>t'. setup_file_output k c sh = Some (sh\<lparr>fds := t'\<rparr>) \<and> from_tab t t' \<and> t' 0 = fds sh 0
    \<and> t' (Suc 0) \<noteq> None \<and> (\<not> is_file (cout c) \<longrightarrow> t' = fds sh)"
proof (cases "is_file (cout c)")
  case False
  then show ?thesis using assms by (intro exI [of _ "fds sh"]) (simp add: setup_file_output_def)
next
  case True
  then obtain f where f: "outfile c = Some f" using assms(1) by auto
  let ?o = "sys_open (k_open_out k f) (OutFile f (cout c = Tapp \<or> cout c = TappErr)) (fds sh)"
  show ?thesis
  proof (cases ?o)
    case None
    then show ?thesis using True f assms by (intro exI [of _ "fds sh"]) (simp add: setup_file_output_def Let_def)
  next
    case (Some p)
    obtain n t1 where p: "p = (n, t1)" by fastforce
    note o = Some [unfolded p]
    have n: "n \<noteq> 0" "n \<noteq> Suc 0" "t1 0 = fds sh 0" "t1 n \<noteq> None"
      using sys_open_fresh [OF o] sys_open_keeps [OF o assms(3)] assms(3,4) by (auto intro: ccontr)
    have f1: "from_tab t t1" by (rule from_tab_open [OF assms(2) _ o]) (simp add: is_file_obj_def)
    let ?t1 = "dup2 n (Suc 0) t1"
    let ?t2 = "if cout c = ToutErr \<or> cout c = TappErr then dup2 n 2 ?t1 else ?t1"
    have "setup_file_output k c sh = Some (sh\<lparr>fds := close_fd n ?t2\<rparr>)"
      using True f Some p by (simp add: setup_file_output_def Let_def)
    moreover have "close_fd n ?t2 0 = fds sh 0" "close_fd n ?t2 (Suc 0) \<noteq> None"
      using n by (auto simp: close_fd_def dup2_def)
    moreover have "from_tab t (close_fd n ?t2)" using f1 by (auto intro!: from_tab_close from_tab_dup2)
    ultimately show ?thesis using True by blast
  qed
qed

lemma setup_file_input_tab:
  assumes "in_ok t' c" and "t' \<noteq> Tin" and "from_tab t (fds sh)" and "fds sh (Suc 0) \<noteq> None"
  shows "\<exists>t2. setup_file_input k c sh = Some (sh\<lparr>fds := t2\<rparr>) \<and> from_tab t t2 \<and> t2 (Suc 0) = fds sh (Suc 0)
    \<and> (cin c \<noteq> Tin \<longrightarrow> t2 0 = fds sh 0)"
proof (cases "cin c = Tin")
  case False
  then show ?thesis using assms by (intro exI [of _ "fds sh"]) (simp add: setup_file_input_def)
next
  case True
  then obtain f where f: "infile c = Some f" using assms(1,2) by (auto simp: in_ok_def)
  show ?thesis
  proof (cases "sys_open (k_open_in k f) (InFile f) (fds sh)")
    case None
    then show ?thesis using True f assms by (intro exI [of _ "fds sh"]) (simp add: setup_file_input_def)
  next
    case (Some p)
    obtain n t1 where p: "p = (n, t1)" by fastforce
    note o = Some [unfolded p]
    have "t1 (Suc 0) = fds sh (Suc 0)" using sys_open_keeps [OF o assms(4)] .
    moreover have "from_tab t t1" by (rule from_tab_open [OF assms(3) _ o]) (simp add: is_file_obj_def)
    ultimately show ?thesis using True f Some p by (auto simp: setup_file_input_def intro!: from_tab_dup2)
  qed
qed

text \<open>The descriptor a child reads a pipe from.\<close>

definition read_end :: "cmd_t \<Rightarrow> shell \<Rightarrow> nat" where
  "read_end c sh = fst (pipefd sh (if is_pipe (cout c) then \<not> pipe_index sh else pipe_index sh))"

definition write_end :: "shell \<Rightarrow> nat" where
  "write_end sh = snd (pipefd sh (pipe_index sh))"

lemma setup_child_tab:
  assumes "in_ok t c" and "t \<noteq> Tin" and "out_ok c \<or> is_pipe (cout c)"
    and "fds sh 0 \<noteq> None" and "fds sh (Suc 0) \<noteq> None"
    and "is_pipe (cin c) \<longrightarrow> fds sh (read_end c sh) = Some x"
    and "is_pipe (cout c) \<longrightarrow> fds sh (write_end sh) = Some y \<and> write_end sh \<noteq> 0"
  shows "\<exists>t'. setup_child k c sh = Some (sh\<lparr>fds := t'\<rparr>) \<and> from_tab (fds sh) t'
    \<and> (is_pipe (cin c) \<longrightarrow> t' 0 = Some x) \<and> (is_pipe (cout c) \<longrightarrow> t' (Suc 0) = Some y)"
proof -
  define t1 where "t1 = (if is_pipe (cin c) then dup2 (read_end c sh) 0 (fds sh) else fds sh)"
  define t2 where "t2 = (if is_pipe (cout c)
     then (if cout c = TpipeErr then dup2 (write_end sh) 2 (dup2 (write_end sh) (Suc 0) t1)
           else dup2 (write_end sh) (Suc 0) t1) else t1)"
  have in1: "setup_pipe_input (pipe_index sh) c sh = sh\<lparr>fds := t1\<rparr>"
    by (simp add: setup_pipe_input_def t1_def read_end_def)
  have out1: "setup_pipe_output (pipe_index sh) c (sh\<lparr>fds := t1\<rparr>) = sh\<lparr>fds := t2\<rparr>"
    by (simp add: setup_pipe_output_def t2_def write_end_def Let_def)
  have f2: "from_tab (fds sh) t2" by (simp add: t1_def t2_def from_tab_dup2)
  have 0: "t2 0 \<noteq> None" "is_pipe (cin c) \<longrightarrow> t2 0 = Some x"
    using assms(4,6) by (auto simp: t1_def t2_def dup2_Some)
  have w: "is_pipe (cout c) \<longrightarrow> t1 (write_end sh) = Some y" using assms(7) by (simp add: t1_def)
  have 1: "t2 (Suc 0) \<noteq> None" "is_pipe (cout c) \<longrightarrow> t2 (Suc 0) = Some y"
    using assms(5) w by (auto simp: t2_def dup2_Some t1_def)
  have "is_file (cout c) \<longrightarrow> outfile c \<noteq> None"
    using assms(3) by (auto simp: out_ok_def is_file_def is_pipe_def)
  then obtain t3 where t3: "setup_file_output k c (sh\<lparr>fds := t2\<rparr>) = Some (sh\<lparr>fds := t2, fds := t3\<rparr>)"
    "from_tab (fds sh) t3" "t3 0 = t2 0" "\<not> is_file (cout c) \<longrightarrow> t3 = t2" "t3 (Suc 0) \<noteq> None"
    using setup_file_output_tab [of c "fds sh" "sh\<lparr>fds := t2\<rparr>" k] f2 0(1) 1(1) by fastforce
  obtain t4 where t4: "setup_file_input k c (sh\<lparr>fds := t3\<rparr>) = Some (sh\<lparr>fds := t3, fds := t4\<rparr>)" "from_tab (fds sh) t4"
    "t4 (Suc 0) = t3 (Suc 0)" "cin c \<noteq> Tin \<longrightarrow> t4 0 = t3 0"
    using setup_file_input_tab [OF assms(1,2), of "fds sh" "sh\<lparr>fds := t3\<rparr>" k] t3(2,5) by fastforce
  have "setup_child k c sh = Some (sh\<lparr>fds := t4\<rparr>)"
    using in1 out1 t3(1) t4(1) by (simp add: setup_child_def)
  moreover have "is_pipe (cout c) \<longrightarrow> \<not> is_file (cout c)" by (auto simp: is_pipe_def is_file_def)
  moreover have "is_pipe (cin c) \<longrightarrow> cin c \<noteq> Tin" by (auto simp: is_pipe_def)
  ultimately show ?thesis using t3(3,4) t4(2-4) 0(2) 1(2) by auto
qed

text \<open>Commands that start a program.\<close>

definition special_names :: "string list" where
  "special_names = [''nice'', ''end'', ''logout'', ''cd'', ''setenv'', ''unsetenv'', ''pwd'', ''echo'', ''where'']"

definition external :: "kernel \<Rightarrow> (string \<times> string) list \<Rightarrow> cmd_t \<Rightarrow> bool" where
  "external k env c \<longleftrightarrow> argv c ! 0 \<notin> set special_names
     \<and> (\<exists>path rest st. search_path k env (argv c ! 0) = Some (path # rest) \<and> k_run k path (argv c) = Some st)"

lemma read_argv_take:
  "list_all is_str (take n vs) \<Longrightarrow> n < length vs \<Longrightarrow> vs ! n = Null \<Longrightarrow>
    read_argv vs = Some (map (\<lambda>v. case v of Str w \<Rightarrow> w | _ \<Rightarrow> []) (take n vs))"
proof (induction vs arbitrary: n)
  case Nil
  then show ?case by simp
next
  case (Cons v vs)
  then show ?case by (cases n; cases v) (auto simp: is_str_def)
qed

lemma read_argv_ok: "shape_ok t c \<Longrightarrow> read_argv (args c) = Some (argv c)"
  using read_argv_take [of "nargs c" "args c"] by (auto simp: shape_ok_def args_ok_def argv_def)

lemma external_builtin:
  assumes "external k env c" and "shape_ok t c"
  shows "builtin k c sh = Some (Returned 127 sh)"
proof -
  have a: "args_ok c" "0 < nargs c" using assms(2) by (auto simp: shape_ok_def args_ok_def)
  then show ?thesis using assms(1) str_arg_ok(1) [OF a]
    by (simp add: builtin_def external_def special_names_def matches_def)
qed

lemma run_child_external:
  assumes "external k (environ sh) c" and "shape_ok t c" and "setup_child k c sh = Some (sh\<lparr>fds := t'\<rparr>)"
  shows "\<exists>st path. run_child k c sh = Some (st, sh\<lparr>fds := t', log := log sh @ [Exec path (argv c) t']\<rparr>)"
proof -
  have a: "args_ok c" "0 < nargs c" using assms(2) by (auto simp: shape_ok_def args_ok_def)
  from assms(1) obtain path rest st where "search_path k (environ sh) (argv c ! 0) = Some (path # rest)"
    "k_run k path (argv c) = Some st" by (auto simp: external_def)
  then show ?thesis
    using external_builtin [OF assms(1,2)] assms(3) str_arg_ok(1) [OF a] read_argv_ok [OF assms(2)]
    by (auto simp: run_child_def exec_child_def)
qed

text \<open>
  The shell's own descriptors between two commands of a pipeline: its standard streams \<open>T\<close>, and the
  read end of pipe \<open>j\<close> when the previous command wrote to it.
\<close>

definition base_tab :: "fdtab \<Rightarrow> bool" where
  "base_tab T \<longleftrightarrow> dom T = {0, 1, 2} \<and> (\<forall>j. PipeW j \<notin> ran T)"

fun feeding :: "fdtab \<Rightarrow> nat option \<Rightarrow> shell \<Rightarrow> bool" where
  "feeding T None sh \<longleftrightarrow> fds sh = T"
| "feeding T (Some j) sh \<longleftrightarrow> (\<exists>r. (r = 3 \<or> r = 4) \<and> fds sh = T(r \<mapsto> PipeR j)
     \<and> fst (pipefd sh (pipe_index sh)) = r \<and> j < npipes sh)"

lemma base_tab_sel:
  assumes "base_tab T"
  shows "T 0 \<noteq> None" and "T (Suc 0) \<noteq> None" and "T 2 \<noteq> None" and "3 \<le> n \<Longrightarrow> T n = None"
    and "T n \<noteq> Some (PipeW j)"
proof -
  have "n \<in> dom T \<longleftrightarrow> n \<in> {0, 1, 2}" for n using assms by (simp add: base_tab_def)
  from this [of 0] this [of 1] this [of 2] this [of n]
  show "T 0 \<noteq> None" "T (Suc 0) \<noteq> None" "T 2 \<noteq> None" "3 \<le> n \<Longrightarrow> T n = None" by auto
  show "T n \<noteq> Some (PipeW j)" using assms by (auto simp: base_tab_def ran_def)
qed

lemma base_tab_free:
  assumes "base_tab T"
  shows "free_fd T = Some 3" and "free_fd (T(3 \<mapsto> x)) = Some 4" and "free_fd (T(4 \<mapsto> x)) = Some 3"
    and "free_fd (T(3 \<mapsto> x, 4 \<mapsto> y)) = Some 5" and "free_fd (T(4 \<mapsto> x, 3 \<mapsto> y)) = Some 5"
  by (rule free_fd_eq; use base_tab_sel [OF assms] in \<open>auto simp: OPEN_MAX_def less_Suc_eq numeral_eq_Suc\<close>)+

text \<open>The pipe a command writes to is new; the descriptors it gets are free in the shell.\<close>

lemma sys_pipe_feeding:
  assumes "base_tab T" and "feeding T inp sh"
  shows "\<exists>r w. sys_pipe m (fds sh) = Some (r, w, (fds sh)(r \<mapsto> PipeR m, w \<mapsto> PipeW m))
    \<and> (r = 3 \<or> r = 4) \<and> (w = 4 \<or> w = 5) \<and> r \<noteq> w \<and> fds sh r = None \<and> fds sh w = None"
proof -
  note f = base_tab_free [OF assms(1)] and s = base_tab_sel(4) [OF assms(1)]
  consider "fds sh = T" | j where "fds sh = T(3 \<mapsto> PipeR j)" | j where "fds sh = T(4 \<mapsto> PipeR j)"
    using assms(2) by (cases inp) auto
  then show ?thesis
  proof cases
    case 1
    then show ?thesis using f s by (intro exI [of _ 3] exI [of _ 4]) (auto simp: sys_pipe_def)
  next
    case 2
    then show ?thesis using f s by (intro exI [of _ 4] exI [of _ 5]) (auto simp: sys_pipe_def)
  next
    case 3
    then show ?thesis using f s by (intro exI [of _ 3] exI [of _ 5]) (auto simp: sys_pipe_def)
  qed
qed

lemma from_tab_no_writer:
  assumes "from_tab t t'" and "\<forall>n. t n \<noteq> Some (PipeW j)"
  shows "\<forall>n. t' n \<noteq> Some (PipeW j)"
  using assms by (fastforce simp: from_tab_def is_file_obj_def ran_def)

text \<open>What a started program sees of the pipe \<open>j\<close> it reads from: the read end as its input, and no write end.\<close>

definition reads_pipe :: "nat option \<Rightarrow> fdtab \<Rightarrow> bool" where
  "reads_pipe inp t = (case inp of None \<Rightarrow> True
     | Some j \<Rightarrow> t 0 = Some (PipeR j) \<and> (\<forall>n. t n \<noteq> Some (PipeW j)))"

lemma fork_last:
  assumes T: "base_tab T" and f: "feeding T inp sh" and io: "is_pipe (cin c) \<longleftrightarrow> inp \<noteq> None" "\<not> is_pipe (cout c)"
    and c: "shape_ok t c" "t \<noteq> Tin" "out_ok c" and e: "external k (environ sh) c"
  shows "\<exists>v path t'. fork_command k c sh = Some (Returned v
      (sh\<lparr>fds := T, log := log sh @ [Exec path (argv c) t']\<rparr>)) \<and> reads_pipe inp t'"
proof -
  note s = base_tab_sel [OF T]
  have f0: "fds sh 0 \<noteq> None" "fds sh (Suc 0) \<noteq> None" using f s(1,2) by (cases inp; auto)+
  have i: "in_ok t c" using c(1) by (simp add: shape_ok_def)
  define x where "x = (case inp of None \<Rightarrow> Inherited 0 | Some j \<Rightarrow> PipeR j)"
  have r: "is_pipe (cin c) \<longrightarrow> fds sh (read_end c sh) = Some x"
    using f io by (cases inp) (auto simp: read_end_def x_def)
  obtain t' where t': "setup_child k c sh = Some (sh\<lparr>fds := t'\<rparr>)" "from_tab (fds sh) t'"
    "is_pipe (cin c) \<longrightarrow> t' 0 = Some x"
    using setup_child_tab [OF i c(2) _ f0 r, of undefined k] c(3) io(2) by blast
  have "\<forall>n. fds sh n \<noteq> Some (PipeW j)" for j using f s(5) by (cases inp) auto
  then have "reads_pipe inp t'"
    using from_tab_no_writer [OF t'(2)] t'(3) io(1) by (auto simp: reads_pipe_def x_def split: option.split)
  moreover have "close_pipes (pipe_index sh) c (sh\<lparr>log := l\<rparr>) = sh\<lparr>fds := T, log := l\<rparr>" for l
    using f io s(4) by (cases inp) (auto simp: close_pipes_def close_fd_def Let_def fun_upd_idem)
  moreover obtain st path where "run_child k c sh = Some (st, sh\<lparr>fds := t', log := log sh @ [Exec path (argv c) t']\<rparr>)"
    using run_child_external [OF e c(1) t'(1)] by blast
  ultimately show ?thesis using io(2) by (auto simp: fork_command_def)
qed

lemma fork_inner:
  assumes T: "base_tab T" and f: "feeding T inp sh" and io: "is_pipe (cin c) \<longleftrightarrow> inp \<noteq> None" "is_pipe (cout c)"
    and c: "shape_ok t c" "t \<noteq> Tin" and e: "external k (environ sh) c"
  shows "\<exists>v path t' s. fork_command k c sh = Some (Returned v s) \<and> environ s = environ sh
    \<and> log s = log sh @ [Exec path (argv c) t'] \<and> reads_pipe inp t'
    \<and> feeding T (Some (npipes sh)) s \<and> t' (Suc 0) = Some (PipeW (npipes sh))"
proof -
  note s = base_tab_sel [OF T]
  let ?i = "\<not> pipe_index sh" and ?m = "npipes sh"
  obtain r w where rw: "sys_pipe ?m (fds sh) = Some (r, w, (fds sh)(r \<mapsto> PipeR ?m, w \<mapsto> PipeW ?m))"
    "r = 3 \<or> r = 4" "w = 4 \<or> w = 5" "r \<noteq> w" "fds sh r = None" "fds sh w = None"
    using sys_pipe_feeding [OF T f, of ?m] by blast
  define s1 where "s1 = sh\<lparr>pipe_index := ?i, fds := (fds sh)(r \<mapsto> PipeR ?m, w \<mapsto> PipeW ?m),
      pipefd := (pipefd sh)(?i := (r, w)), npipes := Suc ?m\<rparr>"
  have mp: "make_pipe ?i (sh\<lparr>pipe_index := ?i\<rparr>) = Returned 0 s1"
    using rw(1) by (simp add: make_pipe_def s1_def)
  have f0: "fds s1 0 \<noteq> None" "fds s1 (Suc 0) \<noteq> None" using f s(1,2) rw by (cases inp; auto simp: s1_def)+
  have i: "in_ok t c" using c(1) by (simp add: shape_ok_def)
  define x where "x = (case inp of None \<Rightarrow> Inherited 0 | Some j \<Rightarrow> PipeR j)"
  have rd: "is_pipe (cin c) \<longrightarrow> fds s1 (read_end c s1) = Some x"
    using f io rw by (cases inp) (auto simp: read_end_def x_def s1_def)
  have wr: "is_pipe (cout c) \<longrightarrow> fds s1 (write_end s1) = Some (PipeW ?m) \<and> write_end s1 \<noteq> 0"
    using rw by (auto simp: write_end_def s1_def)
  obtain t' where t': "setup_child k c s1 = Some (s1\<lparr>fds := t'\<rparr>)" "from_tab (fds s1) t'"
    "is_pipe (cin c) \<longrightarrow> t' 0 = Some x" "t' (Suc 0) = Some (PipeW ?m)"
    using setup_child_tab [OF i c(2) _ f0 rd wr, of k] io(2) by blast
  have "\<forall>n. fds s1 n \<noteq> Some (PipeW j)" if "inp = Some j" for j
    using f s(5) that by (auto simp: s1_def)
  then have "reads_pipe inp t'"
    using from_tab_no_writer [OF t'(2)] t'(3) io(1) by (auto simp: reads_pipe_def x_def split: option.split)
  moreover have "feeding T (Some ?m) (close_pipes (pipe_index s1) c (s1\<lparr>log := l\<rparr>))" for l
  proof -
    let ?s = "close_pipes (pipe_index s1) c (s1\<lparr>log := l\<rparr>)"
    have "fds ?s = T(r \<mapsto> PipeR ?m)"
    proof (cases inp)
      case None
      then show ?thesis using f io rw(4,6)
        by (simp add: close_pipes_def close_fd_def s1_def fun_upd_twist [of r w] fun_upd_idem)
    next
      case (Some j)
      then obtain q where q: "q = 3 \<or> q = 4" "fds sh = T(q \<mapsto> PipeR j)" "fst (pipefd sh (pipe_index sh)) = q"
        using f by auto
      then have "q \<noteq> r" "q \<noteq> w" using rw(5,6) by auto
      moreover have "T q = None" "T w = None" using q(1) rw(3) s(4) by auto
      ultimately show ?thesis using q(2,3) io Some rw(4)
        by (auto simp: close_pipes_def close_fd_def s1_def Let_def)
    qed
    moreover have "fst (pipefd ?s (pipe_index ?s)) = r" "npipes ?s = Suc ?m"
      by (simp_all add: close_pipes_def s1_def Let_def)
    ultimately show ?thesis using rw(2) by auto
  qed
  moreover have "environ (close_pipes (pipe_index s1) c (s1\<lparr>log := l\<rparr>)) = environ sh
      \<and> log (close_pipes (pipe_index s1) c (s1\<lparr>log := l\<rparr>)) = l" for l
    by (simp add: close_pipes_def Let_def s1_def)
  moreover have "external k (environ s1) c" using e by (simp add: s1_def)
  then obtain st path where "run_child k c s1 = Some (st, s1\<lparr>fds := t', log := log s1 @ [Exec path (argv c) t']\<rparr>)"
    using run_child_external [OF _ c(1) t'(1)] by blast
  moreover have "log s1 = log sh" by (simp add: s1_def)
  ultimately show ?thesis using io(2) mp t'(4) by (auto simp: fork_command_def)
qed

text \<open>The programs of a pipeline, each reading what the one before it writes.\<close>

fun piped :: "nat option \<Rightarrow> event list \<Rightarrow> bool" where
  "piped inp [] \<longleftrightarrow> True"
| "piped inp (Exec path av t # es) \<longleftrightarrow> reads_pipe inp t
     \<and> (es = [] \<or> (\<exists>m. t (Suc 0) = Some (PipeW m) \<and> piped (Some m) es))"
| "piped inp (Output x s # es) \<longleftrightarrow> False"

fun exec_argv :: "event \<Rightarrow> string list" where
  "exec_argv (Exec path av t) = av"
| "exec_argv (Output x s) = []"

lemma evaluate_external:
  assumes "external k (environ sh) c" and "shape_ok t c" and "known_output c"
  shows "evaluate_command k c sh = fork_command k c sh"
proof -
  have a: "args_ok c" "0 < nargs c" using assms(2) by (auto simp: shape_ok_def args_ok_def)
  then show ?thesis using assms str_arg_ok(1) [OF a]
    by (simp add: evaluate_command.simps [of k c] external_def special_names_def matches_def is_subshell_builtin_def)
qed

lemma evaluate_cmds_piped:
  "base_tab T \<Longrightarrow> feeding T inp sh \<Longrightarrow> linked t cs \<Longrightarrow> t = Tnil \<and> inp = None \<or> is_pipe t \<and> inp \<noteq> None \<Longrightarrow>
    list_all (external k (environ sh)) cs \<Longrightarrow>
    \<exists>v s es. evaluate_cmds k cs sh = Some (Returned v s) \<and> log s = log sh @ es
      \<and> map exec_argv es = map argv cs \<and> piped inp es \<and> fds s = T"
proof (induction cs arbitrary: t inp sh)
  case Nil
  then show ?case by simp
next
  case (Cons c cs)
  have e: "external k (environ sh) c" using Cons.prems(5) by simp
  have "argv c ! 0 \<noteq> ''end''" using e by (auto simp: external_def special_names_def)
  then have nE: "c \<noteq> End" by (auto simp: End_def argv_def)
  have c: "shape_ok t c" using Cons.prems(3) nE by (auto simp: linked_Cons split: if_splits)
  have t: "t \<noteq> Tin" using Cons.prems(4) by (auto simp: is_pipe_def)
  have ci: "is_pipe (cin c) \<longleftrightarrow> inp \<noteq> None"
    using c Cons.prems(4) by (auto simp: shape_ok_def in_ok_def is_pipe_def)
  show ?case
  proof (cases cs)
    case Nil
    then have o: "out_ok c" using Cons.prems(3) nE by auto
    then have co: "\<not> is_pipe (cout c)" "known_output c"
      by (auto simp: out_ok_def redir_out_def is_pipe_def known_output_def is_file_def)
    from fork_last [OF Cons.prems(1,2) ci co(1) c t o e] obtain v path t' where
      "fork_command k c sh = Some (Returned v (sh\<lparr>fds := T, log := log sh @ [Exec path (argv c) t']\<rparr>))"
      "reads_pipe inp t'" by blast
    then show ?thesis using evaluate_external [OF e c co(2)] Nil
      by (auto intro!: exI [of _ "[Exec path (argv c) t']"])
  next
    case (Cons d ds)
    then have o: "PipeToken (cout c)" "linked (cout c) cs" using Cons.prems(3) by auto
    then have co: "is_pipe (cout c)" "known_output c" by (auto simp: PipeToken_def is_pipe_def known_output_def)
    from fork_inner [OF Cons.prems(1,2) ci co(1) c t e] obtain v path t' s where
      s: "fork_command k c sh = Some (Returned v s)" "environ s = environ sh"
      "log s = log sh @ [Exec path (argv c) t']" "reads_pipe inp t'"
      "feeding T (Some (npipes sh)) s" "t' (Suc 0) = Some (PipeW (npipes sh))" by blast
    from Cons.IH [OF Cons.prems(1) s(5) o(2)] co(1) s(2) Cons.prems(5) obtain v' s' es where
      "evaluate_cmds k cs s = Some (Returned v' s')" "log s' = log s @ es" "map exec_argv es = map argv cs"
      "piped (Some (npipes sh)) es" "fds s' = T" by auto
    then show ?thesis using evaluate_external [OF e c co(2)] s
      by (auto intro!: exI [of _ "Exec path (argv c) t' # es"])
  qed
qed

section \<open>Properties of command execution\<close>

text \<open>
  Property C12: the plumbing of a pipeline. When the shell runs a pipeline of programs from a state
  with only its standard streams open, it starts them in order with their arguments; each program but
  the first reads the very pipe its predecessor writes to; when it starts, no write end of that pipe
  is left open in it, so that it sees the end of its input; and afterwards the shell holds no
  descriptor of any pipe.
\<close>

theorem pipeline_plumbing:
  assumes "base_tab (fds sh)" and "linked Tnil cs" and "list_all (external k (environ sh)) cs"
  shows "\<exists>v s es. evaluate_cmds k cs (sh\<lparr>pipe_index := False\<rparr>) = Some (Returned v s) \<and> log s = log sh @ es
    \<and> map exec_argv es = map argv cs \<and> piped None es \<and> fds s = fds sh"
  using evaluate_cmds_piped [of "fds sh" None "sh\<lparr>pipe_index := False\<rparr>" Tnil cs k] assms by auto

definition plain_cmd :: "string \<Rightarrow> token \<Rightarrow> token \<Rightarrow> cmd_t" where
  "plain_cmd w i out = \<lparr>cexec = Tsemi, cin = i, cout = out, infile = None, outfile = None, nargs = 1, maxargs = 4,
     args = [Str w, Null, Uninit, Uninit]\<rparr>"

definition three_cmds :: "cmd_t list" where
  "three_cmds = [plain_cmd ''ls'' Tnil Tpipe, plain_cmd ''wc'' Tpipe TpipeErr, plain_cmd ''wc'' TpipeErr Tnil]"

theorem pipeline_plumbing_witness:
  "\<exists>v s es. evaluate_cmds sample_kernel three_cmds (sample_shell\<lparr>pipe_index := False\<rparr>) = Some (Returned v s)
    \<and> log s = log sample_shell @ es \<and> map exec_argv es = map argv three_cmds \<and> piped None es
    \<and> fds s = fds sample_shell"
proof (rule pipeline_plumbing)
  show "base_tab (fds sample_shell)" by (auto simp: base_tab_def sample_shell_def ran_def split: if_splits)
  show "linked Tnil three_cmds"
    by (simp add: three_cmds_def plain_cmd_def shape_ok_def args_ok_def in_ok_def out_ok_def is_str_def PipeToken_def)
  have "search_path sample_kernel (environ sample_shell) ''ls'' = Some [''/bin/ls'']"
    "search_path sample_kernel (environ sample_shell) ''wc'' = Some [''/bin/wc'']" by code_simp+
  then show "list_all (external sample_kernel (environ sample_shell)) three_cmds"
    by (simp add: three_cmds_def plain_cmd_def external_def special_names_def argv_def sample_kernel_def)
qed

lemma setup_child_defined:
  assumes "is_file (cout c) \<longrightarrow> outfile c \<noteq> None" and "cin c = Tin \<longrightarrow> infile c \<noteq> None"
  shows "\<exists>s. setup_child k c sh = Some s \<and> environ s = environ sh"
proof -
  have o: "\<exists>s. setup_file_output k c sh = Some s \<and> environ s = environ sh" for sh
    using assms(1) by (auto simp: setup_file_output_def Let_def split: option.split)
  have i: "\<exists>s. setup_file_input k c sh = Some s \<and> environ s = environ sh" for sh
    using assms(2) by (auto simp: setup_file_input_def split: option.split)
  let ?s1 = "setup_pipe_output (pipe_index sh) c (setup_pipe_input (pipe_index sh) c sh)"
  have "environ ?s1 = environ sh" by (simp add: setup_pipe_output_def setup_pipe_input_def Let_def)
  then show ?thesis using o [of ?s1] i by (fastforce simp: setup_child_def Let_def)
qed

lemma builtin_environ_exec: "builtin k c sh = Some (Returned 127 s) \<Longrightarrow> s = sh"
  by (auto simp: builtin_def Let_def cd_cmd_def setenv_cmd_def unsetenv_cmd_def EXIT_SUCCESS_def EXIT_FAILURE_def
      elim!: bind_SomeE split: if_splits option.splits prod.splits)

lemma fork_command_defined:
  assumes "shape_ok t c" and "is_file (cout c) \<longrightarrow> outfile c \<noteq> None" and "cin c = Tin \<longrightarrow> infile c \<noteq> None"
    and fits: "\<forall>f. f \<in> set (argv c) \<longrightarrow> path_fits sh f"
  shows "\<exists>r. fork_command k c sh = Some r"
proof -
  have a: "args_ok c" "0 < nargs c" using assms(1) by (auto simp: shape_ok_def args_ok_def)
  have child: "\<exists>r. run_child k c s = Some r" if e: "environ s = environ sh" for s
  proof -
    obtain s1 where s1: "setup_child k c s = Some s1" "environ s1 = environ sh"
      using setup_child_defined [OF assms(2,3)] e by metis
    then have fits1: "path_fits s1 f \<longleftrightarrow> path_fits sh f" for f by (simp add: path_fits_def)
    obtain b where b: "builtin k c s1 = Some b" using builtin_defined [OF assms(1), of s1 k] fits fits1 by auto
    have "argv c ! 0 \<in> set (argv c)" using length_argv [OF a(1)] a(2) by auto
    then obtain l where "search_path k (environ s1) (argv c ! 0) = Some l"
      using search_path_defined [of s1] fits fits1 by blast
    then have "\<exists>r. exec_child k c s1 = Some r"
      using str_arg_ok(1) [OF a] read_argv_ok [OF assms(1)]
      by (auto simp: exec_child_def split: list.split option.split)
    then show ?thesis using s1(1) b builtin_environ_exec [of k c s1] by (cases b) (auto simp: run_child_def)
  qed
  show ?thesis
  proof (cases "is_pipe (cout c)")
    case True
    have "\<exists>r. run_child k c s = Some r" if "make_pipe (\<not> pipe_index sh) (sh\<lparr>pipe_index := \<not> pipe_index sh\<rparr>) = Returned v s" for v s
      using that by (intro child) (auto simp: make_pipe_def split: option.splits)
    then show ?thesis using True by (fastforce simp: fork_command_def split: ending.split)
  next
    case False
    then show ?thesis using child [of sh] by (auto simp: fork_command_def)
  qed
qed

text \<open>
  Property C34: evaluating any command of a parsed pipe is defined, in any state of the shell: except
  for \<open>nice\<close>, and as long as the names looked up fit the buffer of \<open>search_path\<close>, no descriptor,
  argument or file name is used that does not exist.
\<close>

theorem evaluate_command_defined:
  assumes "shape_ok t c" and "out_ok c \<or> is_pipe (cout c)" and "t \<noteq> Tin" and "argv c ! 0 \<noteq> ''nice''"
    and "\<forall>f. f \<in> set (argv c) \<longrightarrow> path_fits sh f"
  shows "\<exists>r. evaluate_command k c sh = Some r"
proof -
  have a: "args_ok c" "0 < nargs c" using assms(1) by (auto simp: shape_ok_def args_ok_def)
  have "is_file (cout c) \<longrightarrow> outfile c \<noteq> None" using assms(2) by (auto simp: out_ok_def is_file_def is_pipe_def)
  moreover have "cin c = Tin \<longrightarrow> infile c \<noteq> None" using assms(1,3) by (auto simp: shape_ok_def in_ok_def)
  ultimately obtain r where "fork_command k c sh = Some r" using fork_command_defined [OF assms(1)] assms(5) by blast
  moreover obtain b where "builtin k c sh = Some b" using builtin_defined [OF assms(1,5)] by blast
  ultimately show ?thesis using assms(4) str_arg_ok(1) [OF a]
    by (simp add: evaluate_command.simps [of k c] matches_def is_subshell_builtin_def)
qed

theorem evaluate_command_defined_witness:
  "\<exists>r. evaluate_command sample_kernel (plain_cmd ''wc'' Tpipe Tnil) sample_shell = Some r"
proof (rule evaluate_command_defined [of Tpipe])
  show "shape_ok Tpipe (plain_cmd ''wc'' Tpipe Tnil)"
    by (simp add: plain_cmd_def shape_ok_def args_ok_def in_ok_def is_str_def)
  show "\<forall>f. f \<in> set (argv (plain_cmd ''wc'' Tpipe Tnil)) \<longrightarrow> path_fits sample_shell f"
    by (simp add: plain_cmd_def argv_def path_fits_def sample_shell_def PATH_MAX_def)
qed (simp_all add: plain_cmd_def out_ok_def argv_def)

text \<open>
  \<open>nice\<close> with a command is undefined: the copy of the command is written to a block with
  the size of a pointer. \<open>nice\<close> alone is undefined too: it reads the argument behind the terminating
  \<open>NULL\<close>.
\<close>

theorem nice_undefined:
  assumes "shape_ok t c" and "argv c ! 0 = ''nice''" and "nargs c \<ge> 3 \<or> (nargs c = 1 \<and> args c ! 2 = Uninit)"
  shows "evaluate_command k c sh = None"
proof -
  have a: "args_ok c" "0 < nargs c" using assms(1) by (auto simp: shape_ok_def args_ok_def)
  have m: "make_command_from_args c = None"
    by (simp add: make_command_from_args_def cmd_fields_def sizeof_Cmd_def)
  have "arg c 2 = None" if "nargs c = 1" "args c ! 2 = Uninit" using that by (simp add: arg_def)
  then show ?thesis
    using assms(2,3) str_arg_ok(1) [OF a] arg_upto [OF assms(1)] m
    by (auto simp: evaluate_command.simps [of k c] matches_def split: option.split bind_split)
qed

theorem nice_undefined_witness:
  "evaluate_command sample_kernel (plain_cmd ''nice'' Tnil Tnil) sample_shell = None"
proof (rule nice_undefined [of Tnil])
  show "shape_ok Tnil (plain_cmd ''nice'' Tnil Tnil)"
    by (simp add: plain_cmd_def shape_ok_def args_ok_def in_ok_def is_str_def)
qed (simp_all add: plain_cmd_def argv_def)

text \<open>
  The shell runs a line and goes on. Given a line of pipes written out with its words
  escaped, the main loop evaluates exactly those pipes and continues with the rest of the input; at
  the end of the input it exits with status 0.
\<close>

theorem main_loop_line:
  assumes "list_all good_pipe ps" and "stdin st = show_line ps rest"
  shows "(\<exists>qs st'. map view_pipe qs = map want_pipe ps \<and> stdin st' = rest
      \<and> main_loop h k st sh = do {
          r \<leftarrow> evaluate_pipe k qs (emit STDOUT_FILENO (h @ ''% '') sh);
          case r of Exited v s \<Rightarrow> Some (v, s) | Returned v s \<Rightarrow> main_loop h k st' s })
    \<and> (stdin st2 = [] \<longrightarrow> (\<exists>s. main_loop h k st2 sh = Some (0, s)))"
proof
  obtain qs st' where q: "parse st = Some (qs, st')" "map view_pipe qs = map want_pipe ps" "stdin st' = rest"
    using parse_show [OF assms] by blast
  show "\<exists>qs st'. map view_pipe qs = map want_pipe ps \<and> stdin st' = rest
      \<and> main_loop h k st sh = do {
          r \<leftarrow> evaluate_pipe k qs (emit STDOUT_FILENO (h @ ''% '') sh);
          case r of Exited v s \<Rightarrow> Some (v, s) | Returned v s \<Rightarrow> main_loop h k st' s }"
    by (intro exI [of _ qs] exI [of _ st']) (simp add: main_loop.simps [of h k st] q)
  show "stdin st2 = [] \<longrightarrow> (\<exists>s. main_loop h k st2 sh = Some (0, s))"
  proof
    assume "stdin st2 = []"
    moreover obtain qs st' where "parse st2 = Some (qs, st')" using parse_ok by blast
    ultimately show "\<exists>s. main_loop h k st2 sh = Some (0, s)"
      using parse_consumes [of st2 qs st'] by (auto simp: main_loop.simps [of h k st2] evaluate_end)
  qed
qed

theorem main_loop_line_witness:
  "(\<exists>qs st'. map view_pipe qs = map want_pipe sample_line \<and> stdin st' = []
      \<and> main_loop ''host'' sample_kernel (parser_on (show_line sample_line [])) sample_shell = do {
          r \<leftarrow> evaluate_pipe sample_kernel qs (emit STDOUT_FILENO (''host'' @ ''% '') sample_shell);
          case r of Exited v s \<Rightarrow> Some (v, s) | Returned v s \<Rightarrow> main_loop ''host'' sample_kernel st' s })
    \<and> (\<exists>s. main_loop ''host'' sample_kernel (parser_on []) sample_shell = Some (0, s))"
proof -
  have "list_all good_pipe sample_line"
    by (simp add: sample_line_def good_pipe_def good_cmd_def good_word_def BUF_SIZE_def redir_out_def)
  from main_loop_line [OF this, of "parser_on (show_line sample_line [])" "[]" "''host''" sample_kernel sample_shell "parser_on []"]
  show ?thesis by (simp add: parser_on_def)
qed

end
