(* ===== verification/Potato_Utils.thy ===== *)
theory Potato_Utils
  imports C_Lib
begin

text \<open>
  The helpers of the hot-potato game, \<open>hw3/utils.c\<close>: arithmetic and strings, the conversion of a port
  to a string, the pseudo-random choice, and sending and receiving messages over stream sockets. The
  network is a parameter: the record \<open>net\<close> holds the answers of the socket calls, and what a receiver
  sees is the list of chunks that \<open>recv\<close> delivers.
\<close>

section \<open>Arithmetic and strings\<close>

definition mod_int :: "int \<Rightarrow> int \<Rightarrow> int option" where
  "mod_int a b = do { m \<leftarrow> c_rem a b; if m < 0 then checked_int (m + b) else Some m }"

text \<open>\<open>reverse\<close>: the loop swaps \<open>s[i]\<close> and \<open>s[j]\<close> while \<open>i < j\<close>.\<close>

function reverse_loop :: "int \<Rightarrow> int \<Rightarrow> string \<Rightarrow> string" where
  "reverse_loop i j s = (if i < j
     then reverse_loop (i + 1) (j - 1) (s[nat i := s ! nat j, nat j := s ! nat i]) else s)"
  by pat_completeness auto
termination by (relation "measure (\<lambda>(i, j, s). nat (j - i))") auto

declare reverse_loop.simps [simp del]

definition reverse :: "string \<Rightarrow> string" where
  "reverse s = reverse_loop 0 (int (length s) - 1) s"

text \<open>The digits that the loop of \<open>itoa\<close> generates, the last one first.\<close>

fun itoa_digits :: "nat \<Rightarrow> string" where
  "itoa_digits n = digit_char (n mod 10) # (if n div 10 > 0 then itoa_digits (n div 10) else [])"

declare itoa_digits.simps [simp del]

text \<open>\<open>itoa(n, s)\<close> for an array of \<open>size\<close> bytes.\<close>

definition itoa :: "nat \<Rightarrow> int \<Rightarrow> string option" where
  "itoa sz n = do {
     m \<leftarrow> checked_int (if n < 0 then - n else n);
     let s = itoa_digits (nat m) @ (if n < 0 then ''-'' else []);
     if length s + 1 \<le> sz then Some (reverse s) else None }"

text \<open>\<open>strncmp(string, compare, strlen(compare))\<close>\<close>

fun begins_with :: "string \<Rightarrow> string \<Rightarrow> bool" where
  "begins_with s [] = True"
| "begins_with [] (c # cs) = False"
| "begins_with (d # ds) (c # cs) = (d = c \<and> begins_with ds cs)"

fun contains_string :: "string list \<Rightarrow> string \<Rightarrow> nat \<Rightarrow> bool option" where
  "contains_string xs s 0 = Some False"
| "contains_string [] s (Suc n) = None"
| "contains_string (x # xs) s (Suc n) = (if x = s then Some True else contains_string xs s n)"

text \<open>
  \<open>join_integers\<close>: \<open>snprintf\<close> returns the length it would have written, whatever room is left; \<open>buf_len -
  written\<close> is unsigned. The result is the text with unlimited room; the call is undefined once the
  write position has left the buffer.
\<close>

fun join_loop :: "nat list \<Rightarrow> bool \<Rightarrow> nat \<Rightarrow> nat \<Rightarrow> nat option" where
  "join_loop [] first written buf_len = Some written"
| "join_loop (n # ns) first written buf_len =
     (if written > buf_len then None
      else let w = written + length ((if first then [] else '', '') @ dec n)
           in if w = buf_len then Some w else join_loop ns False w buf_len)"

definition join_integers :: "nat list \<Rightarrow> nat \<Rightarrow> nat option" where
  "join_integers num buf_len = join_loop num True 0 buf_len"

section \<open>Random choice\<close>

definition RAND_MAX :: nat where
  "RAND_MAX = 2147483647"

definition UINT_MOD :: nat where
  "UINT_MOD = 4294967296"

text \<open>
  \<open>randr\<close> reseeds the generator on every call; \<open>rnd s\<close> is the first number that \<open>rand()\<close> gives after
  \<open>srand(s)\<close>, and \<open>now\<close> is the time. The arithmetic is that of \<open>unsigned int\<close>; a range of 2^32 values
  makes the divisor zero.
\<close>

definition randr :: "(nat \<Rightarrow> nat) \<Rightarrow> nat \<Rightarrow> nat \<Rightarrow> nat \<Rightarrow> int \<Rightarrow> nat option" where
  "randr rnd now mn mx seed =
     (let r = rnd (if seed = - 1 then now else nat (seed mod int UINT_MOD));
          n = nat ((int mx - int mn + 1) mod int UINT_MOD)
      in if n = 0 then None else Some ((mn + r div (RAND_MAX div n + 1)) mod UINT_MOD))"

section \<open>Sockets\<close>

type_synonym naddr = "string \<times> string"

record net =
  n_resolve :: "string option \<Rightarrow> string \<Rightarrow> int + naddr"
  n_socket :: int
  n_setsockopt :: int
  n_bind :: int
  n_listen :: int
  n_sockname :: "int option"
  n_connect :: "naddr \<Rightarrow> int"

text \<open>A call either exits the process with a status or gives a value.\<close>

datatype 'a nres = NExit int | NOk 'a

text \<open>The port is printed into an array of 6 bytes.\<close>

definition gethostaddrinfo :: "net \<Rightarrow> string option \<Rightarrow> int \<Rightarrow> naddr nres option" where
  "gethostaddrinfo net hostname port = do {
     port_string \<leftarrow> itoa 6 port;
     Some (case n_resolve net hostname port_string of Inl e \<Rightarrow> NExit e | Inr a \<Rightarrow> NOk a) }"

text \<open>The listening socket and the port it is bound to.\<close>

definition setup_listener :: "net \<Rightarrow> int \<Rightarrow> (int \<times> int) nres option" where
  "setup_listener net listen_port = do {
     a \<leftarrow> gethostaddrinfo net None listen_port;
     Some (case a of
         NExit e \<Rightarrow> NExit e
       | NOk address \<Rightarrow>
           if n_socket net < 0 then NExit (n_socket net)
           else if n_bind net < 0 then NExit (n_bind net)
           else if n_listen net < 0 then NExit (n_listen net)
           else NOk (n_socket net, case n_sockname net of None \<Rightarrow> listen_port | Some p \<Rightarrow> p)) }"

text \<open>
  \<open>sendall\<close>: \<open>rs\<close> are the results of the successive calls of \<open>send\<close>. The result is the return value,
  the new \<open>*len\<close> and the bytes handed to the network; \<open>n\<close> is uninitialised when nothing is to be sent,
  and without a further result the call blocks.
\<close>

fun send_loop :: "string \<Rightarrow> nat \<Rightarrow> int option \<Rightarrow> int list \<Rightarrow> (int \<times> nat \<times> string) option" where
  "send_loop buf sent n rs =
     (if sent < length buf then
        (case rs of
           [] \<Rightarrow> None
         | r # rs' \<Rightarrow>
             if r = - 1 then Some (- 1, sent, take sent buf)
             else send_loop buf (sent + nat r) (Some r) rs')
      else do { v \<leftarrow> n; Some (if v = - 1 then - 1 else 0, sent, take sent buf) })"

definition sendall :: "string \<Rightarrow> int list \<Rightarrow> (int \<times> nat \<times> string) option" where
  "sendall buf rs = send_loop buf 0 None rs"

text \<open>\<open>send_to\<close>: the bytes that reach the peer.\<close>

definition send_to :: "net \<Rightarrow> naddr option \<Rightarrow> string \<Rightarrow> int list \<Rightarrow> string nres option" where
  "send_to net host_address message rs = (case host_address of
       None \<Rightarrow> Some (NExit 1)
     | Some a \<Rightarrow>
         if n_socket net < 0 then Some (NExit (n_socket net))
         else if n_connect net a < 0 then Some (NExit (n_connect net a))
         else do { (r, len, sent) \<leftarrow> sendall message rs; Some (NOk sent) })"

section \<open>Receiving\<close>

definition MAX_RECV_SIZE :: nat where
  "MAX_RECV_SIZE = 65536"

abbreviation nl :: char where
  "nl \<equiv> CHR 0x0A"

abbreviation NUL :: char where
  "NUL \<equiv> CHR 0x00"

text \<open>
  The inner loop of \<open>read_message\<close> over the tokens of one chunk: append each to the message, or stop
  at \<open>close\<close>. The flag says whether the loop went through. \<open>sprintf\<close> writes the token, a newline and a
  \<open>NUL\<close>.
\<close>

fun append_tokens :: "nat \<Rightarrow> string \<Rightarrow> string list \<Rightarrow> (bool \<times> string) option" where
  "append_tokens sz msg [] = Some (True, msg)"
| "append_tokens sz msg (t # ts) =
     (if t = ''close'' then Some (False, msg)
      else if length msg + length t + 2 \<le> sz then append_tokens sz (msg @ t @ [nl]) ts
      else None)"

text \<open>One result of \<open>recv\<close> per list element: an error, or the bytes received, none at the end of the stream.\<close>

datatype chunk = RecvError | Bytes string

fun read_message :: "nat \<Rightarrow> string \<Rightarrow> chunk list \<Rightarrow> string nres option" where
  "read_message sz msg [] = None"
| "read_message sz msg (RecvError # cs) = Some (NExit 1)"
| "read_message sz msg (Bytes b # cs) =
     (if b = [] then Some (NOk msg)
      else do {
        (cont, msg') \<leftarrow> append_tokens sz msg (strtok nl (takeWhile (\<lambda>c. c \<noteq> NUL) b));
        if cont then read_message sz msg' cs else Some (NOk msg') })"

section \<open>Correctness of the helpers\<close>

lemma mod_int_eq:
  assumes "0 < b" and "int_range a" and "int_range b"
  shows "mod_int a b = Some (a mod b)"
proof -
  have c: "c_rem a b = Some (sgn a * (\<bar>a\<bar> mod b))" using assms by (simp add: c_rem_def)
  show ?thesis
  proof (cases "a < 0")
    case False
    moreover have "0 \<le> a mod b" using assms(1) by simp
    ultimately show ?thesis using c by (cases "a = 0") (simp_all add: mod_int_def sgn_if not_less)
  next
    case True
    let ?m = "- a mod b"
    have m: "0 \<le> ?m" "?m < b" using assms(1) by simp_all
    have "a mod b = (if ?m = 0 then 0 else b - ?m)"
      using zmod_zminus1_eq_if [of "- a" b] by simp
    moreover have "int_range (b - ?m)" using m assms(3) by (simp add: int_range_def INT_MIN_def)
    ultimately show ?thesis using c True m by (auto simp: mod_int_def sgn_if algebra_simps)
  qed
qed

lemma reverse_loop_rev:
  "i = int (length xs) \<Longrightarrow> length zs = length xs \<Longrightarrow> j = int (length xs + length ys) - 1 \<Longrightarrow>
    reverse_loop i j (xs @ ys @ zs) = xs @ rev ys @ zs"
proof (induction "length ys" arbitrary: i j xs ys zs rule: less_induct)
  case less
  show ?case
  proof (cases "length ys \<le> 1")
    case True
    then have "rev ys = ys" by (cases ys; cases "tl ys") auto
    then show ?thesis using True less.prems by (simp add: reverse_loop.simps)
  next
    case False
    then obtain a ms b where ys: "ys = a # ms @ [b]"
      by (metis append_Nil append_butlast_last_id length_Cons length_append_singleton list.exhaust list.size(3)
          nat_le_linear not_less_eq_eq One_nat_def butlast.simps(2) last.simps)
    have nj: "nat j = Suc (length xs + length ms)" and ni: "nat i = length xs" and ij: "i < j"
      using less.prems ys by auto
    have "(xs @ ys @ zs) ! nat j = b" "(xs @ ys @ zs) ! nat i = a"
      by (simp_all add: nj ni ys nth_append)
    moreover have "(xs @ ys @ zs)[nat i := b, nat j := a] = (xs @ [b]) @ ms @ (a # zs)"
      by (simp add: nj ni ys list_update_append)
    ultimately have "reverse_loop i j (xs @ ys @ zs) = reverse_loop (i + 1) (j - 1) ((xs @ [b]) @ ms @ (a # zs))"
      using ij by (simp add: reverse_loop.simps [of i])
    also have "\<dots> = (xs @ [b]) @ rev ms @ (a # zs)"
      by (rule less.hyps) (use less.prems ys in auto)
    finally show ?thesis by (simp add: ys)
  qed
qed

lemma reverse_rev: "reverse s = rev s"
  using reverse_loop_rev [of 0 "[]" "[]" "int (length s) - 1" s] by (simp add: reverse_def)

lemma itoa_digits_rev: "rev (itoa_digits n) = dec n"
proof (induction n rule: itoa_digits.induct)
  case (1 n)
  show ?case
  proof (cases "n < 10")
    case True
    then show ?thesis by (simp add: itoa_digits.simps [of n] dec.simps [of n])
  next
    case False
    then have "0 < n div 10" by simp
    with 1 False show ?thesis by (simp add: itoa_digits.simps [of n] dec.simps [of n])
  qed
qed

lemma length_itoa_digits: "length (itoa_digits n) = length (dec n)"
  by (metis itoa_digits_rev length_rev)

lemma itoa_eq:
  assumes "int_range n" and "n \<noteq> INT_MIN"
  shows "itoa sz n = (if length (show_int n) + 1 \<le> sz then Some (show_int n) else None)"
proof -
  have "int_range (if n < 0 then - n else n)"
    using assms by (auto simp: int_range_def INT_MIN_def INT_MAX_def)
  then show ?thesis
    by (auto simp: itoa_def show_int_def reverse_rev itoa_digits_rev length_itoa_digits Let_def)
qed

lemma begins_with_append [simp]: "begins_with (p @ s) p"
  by (induction p) auto

lemma begins_with_prefix: "begins_with s p \<longleftrightarrow> (\<exists>r. s = p @ r)"
  by (induction s p rule: begins_with.induct) auto

lemma send_loop_all:
  assumes "list_all (\<lambda>r. 0 < r) rs" and "int (length buf) \<le> sum_list rs + int k" and "k \<le> length buf"
    and "k < length buf \<or> (\<exists>v. n = Some v \<and> v \<noteq> - 1)"
    and "\<forall>i < length rs. int k + sum_list (take (Suc i) rs) \<le> int (length buf)"
  shows "send_loop buf k n rs = Some (0, length buf, buf)"
  using assms
proof (induction rs arbitrary: k n)
  case Nil
  then show ?case by auto
next
  case (Cons r rs)
  have r: "0 < r" "int k + r \<le> int (length buf)" using Cons.prems(1,5) by (auto dest: spec [of _ 0])
  then have k: "k < length buf" "int (k + nat r) = int k + r" by auto
  have "send_loop buf (k + nat r) (Some r) rs = Some (0, length buf, buf)"
  proof (rule Cons.IH)
    show "\<forall>i < length rs. int (k + nat r) + sum_list (take (Suc i) rs) \<le> int (length buf)"
      using Cons.prems(5) k(2) by (metis Suc_less_eq add.assoc length_Cons sum_list.Cons take_Suc_Cons)
  qed (use Cons.prems r k in auto)
  then show ?case using k r by (simp add: send_loop.simps [of buf k])
qed

lemma append_tokens_all:
  "''close'' \<notin> set ts \<Longrightarrow> length msg + length (concat (map (\<lambda>t. t @ [nl]) ts)) + 1 \<le> sz \<Longrightarrow>
    append_tokens sz msg ts = Some (True, msg @ concat (map (\<lambda>t. t @ [nl]) ts))"
  by (induction ts arbitrary: msg) auto

lemma takeWhile_NUL: "NUL \<notin> set b \<Longrightarrow> takeWhile (\<lambda>c. c \<noteq> NUL) b = b"
  by (rule takeWhile_eq_all_conv [THEN iffD2]) auto

section \<open>Properties of the helpers\<close>

text \<open>
  \<open>itoa\<close> and \<open>atoi\<close>. For every \<open>int\<close> but the smallest, \<open>itoa\<close> writes the decimal notation
  into any array that has room for it, and \<open>atoi\<close> reads the number back.
\<close>

theorem itoa_atoi_roundtrip:
  assumes "int_range n" and "n \<noteq> INT_MIN" and "length (show_int n) + 1 \<le> sz"
  shows "\<exists>s. itoa sz n = Some s \<and> s = show_int n \<and> atoi s = Some n"
  using itoa_eq [OF assms(1,2), of sz] atoi_show_int [OF assms(1)] assms(3) by simp

theorem itoa_atoi_roundtrip_witness: "\<exists>s. itoa 5 (- 307) = Some s \<and> s = show_int (- 307) \<and> atoi s = Some (- 307)"
proof (rule itoa_atoi_roundtrip)
  show "length (show_int (- 307)) + 1 \<le> (5::nat)" by code_simp
qed (simp_all add: int_range_def INT_MIN_def INT_MAX_def)

text \<open>
  The port buffer of \<open>gethostaddrinfo\<close>. Every port number from 0 to 65535 fits the array of
  6 bytes; a larger argument, which \<open>player\<close> passes on unchecked from its command line, overruns it.
\<close>

theorem gethostaddrinfo_port:
  assumes "0 \<le> port" and "int_range port"
  shows "(port \<le> 65535 \<longrightarrow> (\<exists>r. gethostaddrinfo net h port = Some r))
    \<and> (100000 \<le> port \<longrightarrow> gethostaddrinfo net h port = None)"
proof -
  have i: "itoa 6 port = (if length (dec (nat port)) \<le> 5 then Some (dec (nat port)) else None)"
    using itoa_eq [OF assms(2), of 6] assms(1) by (simp add: show_int_nat INT_MIN_def)
  have "length (dec (nat port)) \<le> 5" if "port \<le> 65535" using that by (intro length_dec) auto
  moreover have "5 < length (dec (nat port))" if "100000 \<le> port"
  proof (rule ccontr)
    assume "\<not> 5 < length (dec (nat port))"
    moreover have "10 ^ length (dec m) > m" for m
    proof (induction m rule: dec.induct)
      case (1 m)
      then show ?case by (cases "m < 10") (auto simp: dec.simps [of m])
    qed
    then have "nat port < 10 ^ length (dec (nat port))" .
    ultimately have "nat port < 10 ^ 5"
      by (meson less_le_trans linorder_not_less one_le_numeral power_increasing)
    then show False using that by simp
  qed
  ultimately show ?thesis using i by (auto simp: gethostaddrinfo_def)
qed

definition loopback :: net where
  "loopback = \<lparr>n_resolve = (\<lambda>h p. Inr (''127.0.0.1'', p)), n_socket = 3, n_setsockopt = 0, n_bind = 0, n_listen = 0,
     n_sockname = Some 4040, n_connect = (\<lambda>a. 0)\<rparr>"

theorem gethostaddrinfo_port_witness:
  "(\<exists>r. gethostaddrinfo loopback None 4040 = Some r) \<and> gethostaddrinfo loopback None 123456 = None"
  using gethostaddrinfo_port [of 4040 loopback None] gethostaddrinfo_port [of 123456 loopback None]
  by (simp add: int_range_def INT_MIN_def INT_MAX_def)

text \<open>
  The random choice stays in range: for bounds that are not 2^32 apart, \<open>randr\<close> gives a
  number between them, whatever the generator returns up to \<open>RAND_MAX\<close>.
\<close>

theorem randr_range:
  assumes "mn \<le> mx" and "mx < UINT_MOD" and "mx - mn + 1 < UINT_MOD" and "\<And>s. rnd s \<le> RAND_MAX"
  shows "\<exists>v. randr rnd now mn mx seed = Some v \<and> mn \<le> v \<and> v \<le> mx"
proof -
  define n where "n = mx - mn + 1"
  have n: "nat ((int mx - int mn + 1) mod int UINT_MOD) = n" "0 < n"
    using assms(1,3) by (simp_all add: n_def nat_mod_distrib of_nat_diff nat_add_distrib)
  have small: "r div (RAND_MAX div n + 1) < n" if "r \<le> RAND_MAX" for r
  proof -
    have "RAND_MAX < n * (RAND_MAX div n + 1)"
      using dividend_less_times_div [of n RAND_MAX] n(2) by (simp add: algebra_simps)
    then show ?thesis using that by (simp add: div_less_iff_less_mult mult.commute)
  qed
  define r where "r = rnd (if seed = - 1 then now else nat (seed mod int UINT_MOD))"
  have q: "r div (RAND_MAX div n + 1) < n" using small assms(4) by (simp add: r_def)
  have "mn + r div (RAND_MAX div n + 1) \<le> mx" using q assms(1) by (simp add: n_def)
  then have "(mn + r div (RAND_MAX div n + 1)) mod UINT_MOD = mn + r div (RAND_MAX div n + 1)"
    using assms(2) by simp
  then show ?thesis using n \<open>mn + r div (RAND_MAX div n + 1) \<le> mx\<close> by (simp add: randr_def Let_def r_def)
qed

theorem randr_range_witness: "\<exists>v. randr (\<lambda>s. 71876166) 0 0 2 42 = Some v \<and> 0 \<le> v \<and> v \<le> 2"
  by (rule randr_range) (simp_all add: UINT_MOD_def RAND_MAX_def)

text \<open>
  \<open>sendall\<close> sends everything. If every call of \<open>send\<close> takes at least one byte and no more
  than are left, and enough calls succeed, the whole buffer is sent in order and 0 is returned.
\<close>

theorem sendall_complete:
  assumes "buf \<noteq> []" and "list_all (\<lambda>r. 0 < r) rs" and "int (length buf) \<le> sum_list rs"
    and "\<forall>i < length rs. sum_list (take (Suc i) rs) \<le> int (length buf)"
  shows "sendall buf rs = Some (0, length buf, buf)"
  using send_loop_all [of rs buf 0 None] assms by (simp add: sendall_def)

theorem sendall_complete_witness: "sendall ''potato'' [2, 3, 1] = Some (0, 6, ''potato'')"
proof -
  have "sendall ''potato'' [2, 3, 1] = Some (0, length ''potato'', ''potato'')"
    by (rule sendall_complete) (auto simp: less_Suc_eq)
  then show ?thesis by simp
qed

section \<open>Messages in pieces\<close>

text \<open>
  What TCP promises of a message that is sent and followed by the end of the connection: \<open>recv\<close> returns non-empty pieces that
  make up the message, then nothing. Pieces that are cut only next to a newline cut no line.
\<close>

definition pieces :: "string list \<Rightarrow> chunk list" where
  "pieces bs = map Bytes bs @ [Bytes []]"

definition arrives :: "string \<Rightarrow> string list \<Rightarrow> bool" where
  "arrives msg bs \<longleftrightarrow> concat bs = msg \<and> list_all (\<lambda>b. b \<noteq> []) bs"

fun on_lines :: "string list \<Rightarrow> bool" where
  "on_lines (a # b # bs) = ((last a = nl \<or> hd b = nl) \<and> on_lines (b # bs))"
| "on_lines bs = True"

abbreviation as_lines :: "string list \<Rightarrow> string" where
  "as_lines ts \<equiv> concat (map (\<lambda>t. t @ [nl]) ts)"

abbreviation piece_lines :: "string list \<Rightarrow> string list" where
  "piece_lines bs \<equiv> concat (map (strtok nl) bs)"

lemma read_pieces:
  assumes "list_all (\<lambda>b. b \<noteq> []) bs" and "NUL \<notin> set (concat bs)" and "''close'' \<notin> set (piece_lines bs)"
    and "length msg + length (as_lines (piece_lines bs)) + 1 \<le> sz"
  shows "read_message sz msg (pieces bs) = Some (NOk (msg @ as_lines (piece_lines bs)))"
  using assms
proof (induction bs arbitrary: msg)
  case Nil
  then show ?case by (simp add: pieces_def)
next
  case (Cons b bs)
  have "append_tokens sz msg (strtok nl b) = Some (True, msg @ as_lines (strtok nl b))"
    using Cons.prems(3,4) by (intro append_tokens_all) auto
  moreover have w: "takeWhile (\<lambda>c. c \<noteq> NUL) b = b" using Cons.prems(2) by (intro takeWhile_NUL) auto
  moreover have "read_message sz (msg @ as_lines (strtok nl b)) (pieces bs) = Some (NOk ((msg @ as_lines (strtok nl b)) @ as_lines (piece_lines bs)))"
    by (rule Cons.IH) (use Cons.prems in auto)
  ultimately show ?case using Cons.prems(1) by (simp add: pieces_def w)
qed

lemma piece_lines_count:
  assumes "list_all (\<lambda>b. b \<noteq> []) bs"
  shows "length (strtok nl (concat bs)) \<le> length (piece_lines bs) \<and>
    (if on_lines bs then piece_lines bs = strtok nl (concat bs) else length (strtok nl (concat bs)) < length (piece_lines bs))"
  using assms
proof (induction bs rule: on_lines.induct)
  case (1 a b bs)
  let ?r = "concat (b # bs)"
  have r: "a \<noteq> []" "?r \<noteq> []" "hd ?r = hd b" using 1(2) by auto
  note cut = strtok_cut [OF r(1,2), of nl]
  have ih: "length (strtok nl ?r) \<le> length (piece_lines (b # bs)) \<and>
    (if on_lines (b # bs) then piece_lines (b # bs) = strtok nl ?r else length (strtok nl ?r) < length (piece_lines (b # bs)))"
    by (rule 1(1)) (use 1(2) in simp)
  show ?case
  proof (cases "last a = nl \<or> hd b = nl")
    case True
    then have "strtok nl (a @ ?r) = strtok nl a @ strtok nl ?r" using cut(1) r(3) by simp
    then show ?thesis using ih True by auto
  next
    case False
    then have "Suc (length (strtok nl (a @ ?r))) = length (strtok nl a) + length (strtok nl ?r)" using cut(2) r(3) by simp
    then show ?thesis using ih False by auto
  qed
qed simp_all

lemma as_lines_inject:
  assumes "\<forall>t \<in> set ts \<union> set us. nl \<notin> set t \<and> t \<noteq> []"
  shows "as_lines ts = as_lines us \<longleftrightarrow> ts = us"
proof
  assume "as_lines ts = as_lines us"
  moreover have "strtok nl (as_lines ts) = ts" "strtok nl (as_lines us) = us" using assms by (auto intro!: strtok_concat)
  ultimately show "ts = us" by metis
qed simp

lemma piece_lines_tokens: "t \<in> set (piece_lines bs) \<Longrightarrow> nl \<notin> set t \<and> t \<noteq> []"
  using strtok_tokens by fastforce

text \<open>
  A message that arrives in one piece, without \<open>NUL\<close> or a line \<open>close\<close>, is received as its
  non-empty lines, each ended by a newline.
\<close>

theorem read_message_one_chunk:
  assumes "b \<noteq> []" and "NUL \<notin> set b" and "''close'' \<notin> set (strtok nl b)"
    and "length (concat (map (\<lambda>t. t @ [nl]) (strtok nl b))) + 1 \<le> sz"
  shows "read_message sz [] [Bytes b, Bytes []] = Some (NOk (concat (map (\<lambda>t. t @ [nl]) (strtok nl b))))"
  using assms append_tokens_all [of "strtok nl b" "[]" sz] by (simp add: takeWhile_NUL)

theorem read_message_one_chunk_witness:
  "read_message MAX_RECV_SIZE [] [Bytes ''CONNECT:4040'', Bytes []] = Some (NOk (''CONNECT:4040'' @ [nl]))"
proof -
  have t: "strtok nl ''CONNECT:4040'' = [''CONNECT:4040'']" by code_simp
  show ?thesis using read_message_one_chunk [of "''CONNECT:4040''" MAX_RECV_SIZE] t by (simp add: MAX_RECV_SIZE_def)
qed

text \<open>
  Property C37: \<open>read_message\<close> returns the lines of a message, whatever pieces it arrives in, if and only if no line is cut by the
  border of two pieces; it ends every piece with a newline of its own. TCP does not promise where it cuts.
\<close>

theorem read_message_exact:
  assumes "arrives msg bs" and "NUL \<notin> set msg" and "''close'' \<notin> set (piece_lines bs)"
    and "length (as_lines (piece_lines bs)) + 1 \<le> sz"
  shows "read_message sz [] (pieces bs) = Some (NOk (as_lines (strtok nl msg))) \<longleftrightarrow> on_lines bs"
proof -
  have "read_message sz [] (pieces bs) = Some (NOk (as_lines (piece_lines bs)))"
  proof -
    have "list_all (\<lambda>b. b \<noteq> []) bs" "NUL \<notin> set (concat bs)" using assms(1,2) by (auto simp: arrives_def)
    from read_pieces [OF this assms(3), of "[]" sz] show ?thesis using assms(4) by simp
  qed
  moreover have "as_lines (piece_lines bs) = as_lines (strtok nl msg) \<longleftrightarrow> piece_lines bs = strtok nl msg"
  proof (rule as_lines_inject, intro ballI)
    fix t
    assume "t \<in> set (piece_lines bs) \<union> set (strtok nl msg)"
    then show "nl \<notin> set t \<and> t \<noteq> []" using piece_lines_tokens [of t bs] strtok_tokens [of t nl msg] by blast
  qed
  moreover have "piece_lines bs = strtok nl msg \<longleftrightarrow> on_lines bs"
    using piece_lines_count [of bs] assms(1) by (auto simp: arrives_def split: if_splits)
  ultimately show ?thesis by simp
qed

theorem read_message_exact_witness:
  "read_message MAX_RECV_SIZE [] (pieces [''ROUTE:00009:1,2'', ''0,3'']) \<noteq> Some (NOk (as_lines (strtok nl ''ROUTE:00009:1,20,3'')))"
proof -
  let ?bs = "[''ROUTE:00009:1,2'', ''0,3'']"
  have t: "piece_lines ?bs = ?bs" "\<not> on_lines ?bs" "arrives ''ROUTE:00009:1,20,3'' ?bs" by code_simp+
  have "''close'' \<notin> set (piece_lines ?bs)" "length (as_lines (piece_lines ?bs)) + 1 \<le> MAX_RECV_SIZE"
    unfolding t(1) by (simp_all add: MAX_RECV_SIZE_def)
  then show ?thesis using read_message_exact [OF t(3), of MAX_RECV_SIZE] t(2) by (simp del: on_lines.simps)
qed

end
