(* ===== verification/Potato_Game.thy ===== *)
theory Potato_Game
  imports Potato_Utils
begin

text \<open>
  The hot-potato game of \<open>hw3\<close>: \<open>master.c\<close>, \<open>player.c\<close> and the messages they exchange. Each process is
  a state and a handler for the lines of a message; \<open>game\<close> composes the players over their addresses
  until the potato comes back to the master. Connections are sequential, as in the programs, which
  handle one message at a time.
\<close>

section \<open>Messages\<close>

definition MAX_HOPS :: int where "MAX_HOPS = 10000"
definition MAX_HOPS_STRLEN :: nat where "MAX_HOPS_STRLEN = 5"
definition MAX_PLAYERS :: int where "MAX_PLAYERS = 1000"

definition CONNECT_PREFIX :: string where "CONNECT_PREFIX = ''CONNECT:''"
definition ID_PREFIX :: string where "ID_PREFIX = ''YOUARE:''"
definition LEFT_ADDRESS_PREFIX :: string where "LEFT_ADDRESS_PREFIX = ''LADDR:''"
definition RIGHT_ADDRESS_PREFIX :: string where "RIGHT_ADDRESS_PREFIX = ''RADDR:''"
definition ROUTE_PREFIX :: string where "ROUTE_PREFIX = ''ROUTE:''"
definition CLOSE :: string where "CLOSE = ''CLOSE''"

lemmas prefixes = CONNECT_PREFIX_def ID_PREFIX_def LEFT_ADDRESS_PREFIX_def RIGHT_ADDRESS_PREFIX_def
  ROUTE_PREFIX_def CLOSE_def

text \<open>The conversions of \<open>sscanf\<close>: \<open>%[^:]\<close> matches at least one character; \<open>%d\<close> needs a digit.\<close>

definition scan_field :: "string \<Rightarrow> (string \<times> string) option" where
  "scan_field s = (let f = takeWhile (\<lambda>c. c \<noteq> CHR '':'') s in
     if f = [] then None else Some (f, dropWhile (\<lambda>c. c \<noteq> CHR '':'') s))"

fun scan_colon :: "string \<Rightarrow> string option" where
  "scan_colon (c # cs) = (if c = CHR '':'' then Some cs else None)"
| "scan_colon [] = None"

definition scan_int :: "string \<Rightarrow> (int \<times> string) option" where
  "scan_int s = (let s1 = dropWhile isspace s;
       neg = (s1 \<noteq> [] \<and> hd s1 = CHR ''-'');
       s2 = (if s1 \<noteq> [] \<and> (hd s1 = CHR ''-'' \<or> hd s1 = CHR ''+'') then tl s1 else s1);
       ds = takeWhile isdigit s2
     in if ds = [] then None
        else do { v \<leftarrow> checked_int (if neg then - digits ds 0 else digits ds 0);
                  Some (v, dropWhile isdigit s2) })"

text \<open>\<open>sscanf(token, "%*[^:]:%d", ...)\<close>; without a number the variable stays unset.\<close>

definition scan_number :: "string \<Rightarrow> int option" where
  "scan_number token = do {
     (f, r1) \<leftarrow> scan_field token;
     r2 \<leftarrow> scan_colon r1;
     (v, r3) \<leftarrow> scan_int r2;
     Some v }"

text \<open>\<open>sscanf(token, "%[^:]:%d:%[^:]:%d", prefix, ...)\<close> into arrays of 6 and \<open>INET6_ADDRSTRLEN\<close> bytes.\<close>

definition INET6_ADDRSTRLEN :: nat where "INET6_ADDRSTRLEN = 46"

definition scan_address :: "string \<Rightarrow> (string \<times> int \<times> string \<times> int) option" where
  "scan_address token = do {
     (prefix, r1) \<leftarrow> scan_field token;
     r2 \<leftarrow> scan_colon r1;
     (neighbor, r3) \<leftarrow> scan_int r2;
     r4 \<leftarrow> scan_colon r3;
     (host, r5) \<leftarrow> scan_field r4;
     r6 \<leftarrow> scan_colon r5;
     (port, r7) \<leftarrow> scan_int r6;
     if length prefix + 1 \<le> length LEFT_ADDRESS_PREFIX \<and> length host + 1 \<le> INET6_ADDRSTRLEN
     then Some (prefix, neighbor, host, port) else None }"

text \<open>The \<open>do ... while (*s++)\<close> that counts the non-empty fields between commas.\<close>

function count_fields :: "string \<Rightarrow> nat \<Rightarrow> nat" where
  "count_fields s i =
     (let i' = (if takeWhile (\<lambda>c. c \<noteq> CHR '','') s \<noteq> [] then Suc i else i)
      in case dropWhile (\<lambda>c. c \<noteq> CHR '','') s of [] \<Rightarrow> i' | c # r \<Rightarrow> count_fields r i')"
  by pat_completeness auto
termination
  by (relation "measure (\<lambda>(s, i). length s)")
     (auto, metis length_Cons length_dropWhile_le not_less_eq_eq not_less)

declare count_fields.simps [simp del]

section \<open>The player\<close>

record player =
  player_number :: int
  left_player_number :: int
  right_player_number :: int
  left_addrinfo :: "naddr option"
  right_addrinfo :: "naddr option"
  master_info :: "naddr option"
  p_out :: "string list"

definition say :: "string \<Rightarrow> player \<Rightarrow> player" where
  "say s p = p\<lparr>p_out := p_out p @ [s]\<rparr>"

text \<open>What handling a line leads to: the player goes on, having sent messages, or it exits.\<close>

datatype pstep = PExit int "(naddr option \<times> string) list" | PGo player "(naddr option \<times> string) list"

definition recv_id :: "string \<Rightarrow> player \<Rightarrow> player option" where
  "recv_id token p =
     (if begins_with token ID_PREFIX then do {
        n \<leftarrow> scan_number token;
        Some (say (''Connected as player '' @ show_int n @ [nl]) (p\<lparr>player_number := n\<rparr>)) }
      else Some p)"

definition recv_address :: "net \<Rightarrow> string \<Rightarrow> player \<Rightarrow> player nres option" where
  "recv_address net token p =
     (if begins_with token LEFT_ADDRESS_PREFIX \<or> begins_with token RIGHT_ADDRESS_PREFIX then do {
        (prefix, neighbor_number, host, port) \<leftarrow> scan_address token;
        if begins_with LEFT_ADDRESS_PREFIX prefix then do {
          a \<leftarrow> gethostaddrinfo net (Some host) port;
          Some (case a of NExit e \<Rightarrow> NExit e
            | NOk x \<Rightarrow> NOk (p\<lparr>left_addrinfo := Some x, left_player_number := neighbor_number\<rparr>)) }
        else if begins_with RIGHT_ADDRESS_PREFIX prefix then do {
          a \<leftarrow> gethostaddrinfo net (Some host) port;
          Some (case a of NExit e \<Rightarrow> NExit e
            | NOk x \<Rightarrow> NOk (p\<lparr>right_addrinfo := Some x, right_player_number := neighbor_number\<rparr>)) }
        else Some (NOk p) }
      else Some (NOk p))"

definition recv_route :: "(nat \<Rightarrow> nat) \<Rightarrow> string \<Rightarrow> player \<Rightarrow> (player \<times> (naddr option \<times> string) list) option" where
  "recv_route rnd token p =
     (if begins_with token ROUTE_PREFIX then do {
        hops \<leftarrow> scan_number token;
        let skip = length ROUTE_PREFIX + MAX_HOPS_STRLEN + 1;
        if length token < skip then None
        else do {
          let i = count_fields (drop skip token) 0;
          let message = token @ (if i = 0 then [] else '','') @ show_int (player_number p);
          if length message + 1 > MAX_RECV_SIZE then None
          else if int i = hops - 1
          then Some (say (''I''@[CHR 0x27]@''m it'' @ [nl]) p, [(master_info p, message)])
          else do {
            left \<leftarrow> randr rnd 0 0 1 42;
            if left \<noteq> 0
            then Some (say (''Sending potato to '' @ show_int (left_player_number p) @ [nl]) p, [(left_addrinfo p, message)])
            else Some (say (''Sending potato to '' @ show_int (right_player_number p) @ [nl]) p, [(right_addrinfo p, message)]) } } }
      else Some (p, []))"

text \<open>The body of the token loop of \<open>recv_messages\<close>.\<close>

definition handle_token :: "net \<Rightarrow> (nat \<Rightarrow> nat) \<Rightarrow> string \<Rightarrow> player \<Rightarrow> pstep option" where
  "handle_token net rnd token p =
     (if begins_with token CLOSE then Some (PExit 0 [])
      else do {
        p1 \<leftarrow> recv_id token p;
        r \<leftarrow> recv_address net token p1;
        case r of
          NExit e \<Rightarrow> Some (PExit e [])
        | NOk p2 \<Rightarrow> do { (p3, sends) \<leftarrow> recv_route rnd token p2; Some (PGo p3 sends) } })"

fun handle_tokens :: "net \<Rightarrow> (nat \<Rightarrow> nat) \<Rightarrow> string list \<Rightarrow> player \<Rightarrow> pstep option" where
  "handle_tokens net rnd [] p = Some (PGo p [])"
| "handle_tokens net rnd (t # ts) p = do {
     r \<leftarrow> handle_token net rnd t p;
     case r of
       PExit e s1 \<Rightarrow> Some (PExit e s1)
     | PGo p1 s1 \<Rightarrow> do {
         r2 \<leftarrow> handle_tokens net rnd ts p1;
         case r2 of PExit e s2 \<Rightarrow> Some (PExit e (s1 @ s2)) | PGo p2 s2 \<Rightarrow> Some (PGo p2 (s1 @ s2)) } }"

text \<open>One round of \<open>recv_messages\<close>: a connection is accepted and its message read and handled.\<close>

definition player_round :: "net \<Rightarrow> (nat \<Rightarrow> nat) \<Rightarrow> chunk list \<Rightarrow> player \<Rightarrow> pstep option" where
  "player_round net rnd cs p = do {
     m \<leftarrow> read_message MAX_RECV_SIZE [] cs;
     case m of NExit e \<Rightarrow> Some (PExit e []) | NOk buffer \<Rightarrow> handle_tokens net rnd (strtok nl buffer) p }"

definition send_player_info :: "int \<Rightarrow> string" where
  "send_player_info listen_port = CONNECT_PREFIX @ show_int listen_port @ [nl]"

section \<open>The master\<close>

record master =
  num_players :: int
  hops :: int
  players :: "naddr list"
  m_out :: "string list"

abbreviation players_connected :: "master \<Rightarrow> nat" where
  "players_connected m \<equiv> length (players m)"

definition announce :: "string \<Rightarrow> master \<Rightarrow> master" where
  "announce s m = m\<lparr>m_out := m_out m @ [s]\<rparr>"

text \<open>
  The token loop of the master's \<open>recv_messages\<close>; \<open>host\<close> is the sender's numeric address. The flag says
  whether the function returns. \<open>players\<close> is an array of \<open>num_players\<close> entries.
\<close>

fun master_tokens :: "net \<Rightarrow> string \<Rightarrow> string list \<Rightarrow> master \<Rightarrow> (bool \<times> master) nres option" where
  "master_tokens net host [] m = Some (NOk (False, m))"
| "master_tokens net host (token # ts) m =
     (if begins_with token ROUTE_PREFIX then
        (let skip = length ROUTE_PREFIX + MAX_HOPS_STRLEN + 1 in
         if length token < skip then None
         else Some (NOk (True, announce (drop skip token @ [nl]) (announce (''Trace of potato:'' @ [nl]) m))))
      else if begins_with token CONNECT_PREFIX then do {
        port \<leftarrow> scan_number token;
        a \<leftarrow> gethostaddrinfo net (Some host) port;
        case a of
          NExit e \<Rightarrow> Some (NExit e)
        | NOk x \<Rightarrow>
            if int (players_connected m) < num_players m
            then Some (NOk (True, (announce (''player '' @ dec (players_connected m) @ '' is on '' @ host @ [nl]) m)
                     \<lparr>players := players m @ [x]\<rparr>))
            else None }
      else master_tokens net host ts m)"

text \<open>The two address strings and the message for one player, with the neighbours of the ring.\<close>

definition address_str :: "int \<Rightarrow> naddr \<Rightarrow> string" where
  "address_str n a = show_int n @ '':'' @ fst a @ '':'' @ snd a"

definition send_info_to_player :: "master \<Rightarrow> int \<Rightarrow> (naddr \<times> string) option" where
  "send_info_to_player m n = do {
     l \<leftarrow> mod_int (n - 1) (num_players m);
     r \<leftarrow> mod_int (n + 1) (num_players m);
     if 0 \<le> n \<and> nat n < players_connected m \<and> nat l < players_connected m \<and> nat r < players_connected m then do {
       let ls = address_str l (players m ! nat l);
       let rs = address_str r (players m ! nat r);
       let str = ID_PREFIX @ show_int n @ [nl] @ LEFT_ADDRESS_PREFIX @ ls @ [nl] @ RIGHT_ADDRESS_PREFIX @ rs @ [nl];
       if length ls + 1 \<le> 100 \<and> length rs + 1 \<le> 100 \<and> length str + 1 \<le> 250
       then Some (players m ! nat n, str) else None }
     else None }"

text \<open>\<open>sprintf(str, "%s%0*d:\n", ROUTE_PREFIX, MAX_HOPS_STRLEN, hops)\<close>\<close>

definition pad_int :: "nat \<Rightarrow> int \<Rightarrow> string" where
  "pad_int w n = (let d = dec (nat n) in replicate (w - length d) (CHR ''0'') @ d)"

definition first_route :: "int \<Rightarrow> string" where
  "first_route h = ROUTE_PREFIX @ pad_int MAX_HOPS_STRLEN h @ '':'' @ [nl]"

text \<open>The checks of the master's \<open>main\<close> on its arguments.\<close>

definition args_valid :: "int \<Rightarrow> int \<Rightarrow> bool" where
  "args_valid n h \<longleftrightarrow> \<not> (n < 1 \<or> n > MAX_PLAYERS \<or> h < 0 \<or> h > MAX_HOPS)"

text \<open>
  The master's \<open>recv_messages\<close> over the incoming connections, each with the sender's host; without a
  further connection it blocks. Then \<open>main\<close>: collect the players, send each its neighbours, start the
  potato, wait for the trace, and send \<open>CLOSE\<close> to all. The result is the final state and the messages sent.
\<close>

datatype conn = AcceptError int | Conn string "chunk list"

fun master_recv :: "net \<Rightarrow> conn list \<Rightarrow> master \<Rightarrow> (master \<times> conn list) nres option" where
  "master_recv net [] m = None"
| "master_recv net (AcceptError e # conns) m = Some (NExit e)"
| "master_recv net (Conn host cs # conns) m = do {
     r \<leftarrow> read_message MAX_RECV_SIZE [] cs;
     case r of
       NExit e \<Rightarrow> Some (NExit e)
     | NOk buffer \<Rightarrow> do {
         t \<leftarrow> master_tokens net host (strtok nl buffer) m;
         case t of
           NExit e \<Rightarrow> Some (NExit e)
         | NOk (ret, m') \<Rightarrow> if ret then Some (NOk (m', conns)) else master_recv net conns m' } }"

lemma master_recv_shorter: "master_recv net conns m = Some (NOk (m', conns')) \<Longrightarrow> length conns' < length conns"
  by (induction net conns m rule: master_recv.induct)
     (fastforce elim!: bind_SomeE split: nres.splits if_splits)+

function accept_players :: "net \<Rightarrow> conn list \<Rightarrow> master \<Rightarrow> (master \<times> conn list) nres option" where
  "accept_players net conns m =
     (if int (players_connected m) < num_players m then do {
        r \<leftarrow> master_recv net conns m;
        case r of NExit e \<Rightarrow> Some (NExit e) | NOk (m', conns') \<Rightarrow> accept_players net conns' m' }
      else Some (NOk (m, conns)))"
  by pat_completeness auto
termination
  by (relation "measure (\<lambda>(net, conns, m). length conns)") (auto dest: master_recv_shorter)

declare accept_players.simps [simp del]

fun send_infos :: "master \<Rightarrow> nat list \<Rightarrow> (naddr option \<times> string) list option" where
  "send_infos m [] = Some []"
| "send_infos m (i # is) = do { x \<leftarrow> send_info_to_player m (int i); xs \<leftarrow> send_infos m is; Some ((Some (fst x), snd x) # xs) }"

text \<open>Messages sent in order with \<open>send_to\<close>, each taken by the network in one piece; a failure exits.\<close>

fun deliver :: "net \<Rightarrow> (naddr option \<times> string) list \<Rightarrow> (naddr option \<times> string) list nres option" where
  "deliver net [] = Some (NOk [])"
| "deliver net ((a, msg) # xs) = do {
     r \<leftarrow> send_to net a msg [int (length msg)];
     case r of
       NExit e \<Rightarrow> Some (NExit e)
     | NOk sent \<Rightarrow> do {
         rs \<leftarrow> deliver net xs;
         Some (case rs of NExit e \<Rightarrow> NExit e | NOk ys \<Rightarrow> NOk ((a, sent) # ys)) } }"

definition close_master :: "master \<Rightarrow> (naddr option \<times> string) list" where
  "close_master m = map (\<lambda>a. (Some a, CLOSE)) (players m)"

text \<open>The part of \<open>main\<close> after the arguments: the listener, the ring, the potato and the end of the game.\<close>

definition finish_master :: "net \<Rightarrow> master \<Rightarrow> (naddr option \<times> string) list
    \<Rightarrow> (master \<times> (naddr option \<times> string) list) nres option" where
  "finish_master net m sent = do {
     d \<leftarrow> deliver net (close_master m);
     Some (case d of NExit e \<Rightarrow> NExit e | NOk sent' \<Rightarrow> NOk (m, sent @ sent')) }"

definition play_master :: "net \<Rightarrow> (nat \<Rightarrow> nat) \<Rightarrow> conn list \<Rightarrow> master \<Rightarrow> (naddr option \<times> string) list
    \<Rightarrow> (master \<times> (naddr option \<times> string) list) nres option" where
  "play_master net rnd conns m sent = do {
     first_player \<leftarrow> randr rnd 0 0 (nat (num_players m) - 1) 42;
     if hops m > 0 then do {
       let m1 = announce (''All players present, sending potato to player '' @ dec first_player @ [nl]) m;
       d \<leftarrow> deliver net [(Some (players m ! first_player), first_route (hops m))];
       case d of
         NExit e \<Rightarrow> Some (NExit e)
       | NOk sent1 \<Rightarrow> do {
           w \<leftarrow> master_recv net conns m1;
           case w of NExit e \<Rightarrow> Some (NExit e) | NOk (m2, _) \<Rightarrow> finish_master net m2 (sent @ sent1) } }
     else finish_master net m sent }"

definition run_master :: "net \<Rightarrow> (nat \<Rightarrow> nat) \<Rightarrow> int \<Rightarrow> int \<Rightarrow> conn list
    \<Rightarrow> (master \<times> (naddr option \<times> string) list) nres option" where
  "run_master net rnd n h conns = do {
     r \<leftarrow> accept_players net conns \<lparr>num_players = n, hops = h, players = [], m_out = []\<rparr>;
     case r of
       NExit e \<Rightarrow> Some (NExit e)
     | NOk (m, conns') \<Rightarrow> do {
         infos \<leftarrow> send_infos m [0..<nat n];
         d \<leftarrow> deliver net infos;
         case d of NExit e \<Rightarrow> Some (NExit e) | NOk sent \<Rightarrow> play_master net rnd conns' m sent } }"

text \<open>\<open>in_port_t\<close> has 16 bits.\<close>

definition master_main :: "net \<Rightarrow> (nat \<Rightarrow> nat) \<Rightarrow> string list \<Rightarrow> conn list
    \<Rightarrow> (master \<times> (naddr option \<times> string) list) nres option" where
  "master_main net rnd argv conns =
     (if length argv < 4 then Some (NExit 1)
      else do {
        listen_port \<leftarrow> atoi (argv ! 1);
        n \<leftarrow> atoi (argv ! 2);
        h \<leftarrow> atoi (argv ! 3);
        if \<not> args_valid n h then Some (NExit 1)
        else do {
          l \<leftarrow> setup_listener net (listen_port mod 65536);
          case l of
            NExit e \<Rightarrow> Some (NExit e)
          | NOk (fd, port) \<Rightarrow> do {
              c \<leftarrow> gethostaddrinfo net (Some ''localhost'') port;
              case c of NExit e \<Rightarrow> Some (NExit e) | NOk a \<Rightarrow> run_master net rnd n h conns } } })"

section \<open>The player's process\<close>

text \<open>
  The accept loop of the player's \<open>recv_messages\<close>: the messages it sends, and the exit status, or
  \<open>None\<close> while it waits for a further connection.
\<close>

fun player_loop :: "net \<Rightarrow> (nat \<Rightarrow> nat) \<Rightarrow> conn list \<Rightarrow> player
    \<Rightarrow> (int option \<times> player \<times> (naddr option \<times> string) list) option" where
  "player_loop net rnd [] p = Some (None, p, [])"
| "player_loop net rnd (AcceptError e # conns) p = Some (Some e, p, [])"
| "player_loop net rnd (Conn host cs # conns) p = do {
     r \<leftarrow> player_round net rnd cs p;
     case r of
       PExit e sends \<Rightarrow> do {
         d \<leftarrow> deliver net sends;
         Some (case d of NExit e' \<Rightarrow> (Some e', p, []) | NOk sent \<Rightarrow> (Some e, p, sent)) }
     | PGo p1 sends \<Rightarrow> do {
         d \<leftarrow> deliver net sends;
         case d of
           NExit e \<Rightarrow> Some (Some e, p1, [])
         | NOk sent \<Rightarrow> do {
             (st, p2, sent2) \<leftarrow> player_loop net rnd conns p1;
             Some (st, p2, sent @ sent2) } } }"

definition new_player :: "naddr \<Rightarrow> player" where
  "new_player maddr = \<lparr>player_number = 0, left_player_number = 0, right_player_number = 0,
     left_addrinfo = None, right_addrinfo = None, master_info = Some maddr, p_out = []\<rparr>"

definition player_main :: "net \<Rightarrow> (nat \<Rightarrow> nat) \<Rightarrow> string list \<Rightarrow> conn list
    \<Rightarrow> (int option \<times> player option \<times> (naddr option \<times> string) list) option" where
  "player_main net rnd argv conns =
     (if length argv \<noteq> 3 then Some (Some 1, None, [])
      else do {
        port \<leftarrow> atoi (argv ! 2);
        a \<leftarrow> gethostaddrinfo net (Some (argv ! 1)) port;
        case a of
          NExit e \<Rightarrow> Some (Some e, None, [])
        | NOk maddr \<Rightarrow> do {
            l \<leftarrow> setup_listener net 0;
            case l of
              NExit e \<Rightarrow> Some (Some e, None, [])
            | NOk (fd, listen_port) \<Rightarrow> do {
                d \<leftarrow> deliver net [(Some maddr, send_player_info listen_port)];
                case d of
                  NExit e \<Rightarrow> Some (Some e, None, [])
                | NOk sent \<Rightarrow> do {
                    (st, p, sent2) \<leftarrow> player_loop net rnd conns (new_player maddr);
                    Some (st, Some p, sent @ sent2) } } } })"

section \<open>Routes\<close>

text \<open>The trace in a route message.\<close>

fun commas :: "nat list \<Rightarrow> string" where
  "commas [] = []"
| "commas [x] = dec x"
| "commas (x # y # ys) = dec x @ '','' @ commas (y # ys)"

definition route_token :: "nat \<Rightarrow> nat list \<Rightarrow> string" where
  "route_token h path = ROUTE_PREFIX @ pad_int MAX_HOPS_STRLEN (int h) @ '':'' @ commas path"

lemma commas_snoc: "commas (xs @ [x]) = commas xs @ (if xs = [] then [] else '','') @ dec x"
  by (induction xs rule: commas.induct) auto

lemma dec_no: "\<not> isdigit c \<Longrightarrow> c \<notin> set (dec n)"
  using dec_isdigit by blast

lemma takeWhile_dec: "\<not> P c \<Longrightarrow> (\<And>d. isdigit d \<Longrightarrow> P d) \<Longrightarrow> takeWhile P (dec n @ c # r) = dec n"
  by (simp add: takeWhile_append2 dec_isdigit)

lemma dropWhile_dec: "\<not> P c \<Longrightarrow> (\<And>d. isdigit d \<Longrightarrow> P d) \<Longrightarrow> dropWhile P (dec n @ c # r) = c # r"
  by (simp add: dropWhile_append2 dec_isdigit)

lemma count_commas: "count_fields (commas xs) i = i + length xs"
proof (induction xs arbitrary: i rule: commas.induct)
  case 1
  then show ?case by (simp add: count_fields.simps)
next
  case (2 x)
  have "\<forall>c \<in> set (dec x). c \<noteq> CHR '',''" using dec_no [OF isdigit_not(2)] by auto
  then have t: "takeWhile (\<lambda>c. c \<noteq> CHR '','') (dec x) = dec x" and d: "dropWhile (\<lambda>c. c \<noteq> CHR '','') (dec x) = []"
    by (simp_all add: takeWhile_eq_all_conv dropWhile_eq_Nil_conv)
  show ?case by (simp add: count_fields.simps [of "dec x"] t d)
next
  case (3 x y ys)
  have "isdigit d \<Longrightarrow> d \<noteq> CHR '',''" for d using isdigit_not(2) by auto
  then show ?case using 3
    by (simp add: count_fields.simps [of "dec x @ r" for r] takeWhile_dec dropWhile_dec)
qed

lemma digits_zeros: "digits (replicate k (CHR ''0'') @ s) 0 = digits s 0"
  by (induction k) (auto simp: isdigit_def)

lemma pad_int_digits: "c \<in> set (pad_int w n) \<Longrightarrow> isdigit c"
  by (auto simp: pad_int_def Let_def dec_isdigit isdigit_def split: if_splits dest!: dec_isdigit)

lemma length_pad_int: "n < 10 ^ w \<Longrightarrow> 0 < w \<Longrightarrow> length (pad_int w (int n)) = w"
  using length_dec [of n w] by (simp add: pad_int_def Let_def)

lemma pad_int_nonempty: "pad_int w n \<noteq> []"
  by (simp add: pad_int_def Let_def)

lemma scan_int_pad:
  assumes "int_range (int h)"
  shows "scan_int (pad_int w (int h) @ CHR '':'' # r) = Some (int h, CHR '':'' # r)"
proof -
  obtain c cs where c: "pad_int w (int h) = c # cs" using pad_int_nonempty by (cases "pad_int w (int h)") auto
  then have d: "isdigit c" using pad_int_digits [of c w "int h"] by simp
  then have n: "\<not> isspace c" "c \<noteq> CHR ''-''" "c \<noteq> CHR ''+''" using isdigit_not isdigit_not_space by auto
  have t: "takeWhile isdigit (pad_int w (int h) @ CHR '':'' # r) = pad_int w (int h)"
    "dropWhile isdigit (pad_int w (int h) @ CHR '':'' # r) = CHR '':'' # r"
    using pad_int_digits isdigit_not(1) by (simp_all add: takeWhile_append2 dropWhile_append2)
  have "digits (pad_int w (int h)) 0 = int h" by (simp add: pad_int_def Let_def digits_zeros digits_dec)
  then show ?thesis using t n c assms by (simp add: scan_int_def Let_def)
qed

lemma route_token_eq: "route_token h xs = ''ROUTE:'' @ pad_int 5 (int h) @ CHR '':'' # commas xs"
  by (simp add: route_token_def ROUTE_PREFIX_def MAX_HOPS_STRLEN_def)

lemma route_scan: "int_range (int h) \<Longrightarrow> scan_number (route_token h xs) = Some (int h)"
  by (simp add: scan_number_def scan_field_def route_token_eq scan_int_pad)

lemma route_drop: "h < 10 ^ 5 \<Longrightarrow> drop 12 (route_token h xs) = commas xs \<and> 12 \<le> length (route_token h xs)"
  using length_pad_int [of h 5] by (simp add: route_token_eq)

lemma route_prefix:
  "begins_with (route_token h xs) ROUTE_PREFIX" "\<not> begins_with (route_token h xs) CLOSE"
  "\<not> begins_with (route_token h xs) ID_PREFIX" "\<not> begins_with (route_token h xs) LEFT_ADDRESS_PREFIX"
  "\<not> begins_with (route_token h xs) RIGHT_ADDRESS_PREFIX"
  by (simp_all add: route_token_eq prefixes)

lemma commas_chars: "c \<in> set (commas xs) \<Longrightarrow> isdigit c \<or> c = CHR '',''"
  by (induction xs rule: commas.induct) (auto dest: dec_isdigit)

lemma route_chars: "nl \<notin> set (route_token h xs)" "NUL \<notin> set (route_token h xs)"
  using isdigit_not(3,6) pad_int_digits commas_chars by (fastforce simp: route_token_eq)+

lemma length_commas: "\<forall>x \<in> set xs. x < 1000 \<Longrightarrow> length (commas xs) \<le> 4 * length xs"
proof (induction xs rule: commas.induct)
  case (2 x)
  then show ?case using length_dec [of x 3] by simp
next
  case (3 x y ys)
  then show ?case using length_dec [of x 3] by simp
qed simp

section \<open>The game on the ring\<close>

text \<open>
  Player \<open>i\<close> of a ring with the addresses \<open>addrs\<close>, as the information of the master makes it.
\<close>

definition ring_player :: "naddr list \<Rightarrow> naddr \<Rightarrow> nat \<Rightarrow> player \<Rightarrow> bool" where
  "ring_player addrs maddr i p \<longleftrightarrow> player_number p = int i \<and> master_info p = Some maddr
     \<and> left_addrinfo p = Some (addrs ! ((i + (length addrs - 1)) mod length addrs))
     \<and> left_player_number p = int ((i + (length addrs - 1)) mod length addrs)
     \<and> right_addrinfo p = Some (addrs ! ((i + 1) mod length addrs))
     \<and> right_player_number p = int ((i + 1) mod length addrs)"

text \<open>Delivering a message: which player listens on an address.\<close>

fun index_of :: "naddr \<Rightarrow> naddr list \<Rightarrow> nat option" where
  "index_of a [] = None"
| "index_of a (x # xs) = (if a = x then Some 0 else map_option Suc (index_of a xs))"

text \<open>
  The potato travels: the message reaches player \<open>cur\<close> in the pieces \<open>dlv k msg\<close>, where \<open>k\<close> counts the rounds that are left, the player
  handles it, and what it sends is delivered. The result is the message that is sent to the master.
\<close>

fun game :: "net \<Rightarrow> (nat \<Rightarrow> nat) \<Rightarrow> (nat \<Rightarrow> string \<Rightarrow> string list) \<Rightarrow> naddr list \<Rightarrow> naddr \<Rightarrow> nat \<Rightarrow> nat \<Rightarrow> string \<Rightarrow> player list
    \<Rightarrow> (string \<times> player list) option" where
  "game net rnd dlv addrs maddr 0 cur msg ps = None"
| "game net rnd dlv addrs maddr (Suc k) cur msg ps = do {
     r \<leftarrow> player_round net rnd (pieces (dlv (Suc k) msg)) (ps ! cur);
     case r of
       PGo p [(Some a, msg')] \<Rightarrow>
         if a = maddr then Some (msg', ps[cur := p])
         else do { j \<leftarrow> index_of a addrs; game net rnd dlv addrs maddr k j msg' (ps[cur := p]) }
     | _ \<Rightarrow> None }"

text \<open>Every message arrives completely, and no line of it is cut.\<close>

definition whole_lines :: "(nat \<Rightarrow> string \<Rightarrow> string list) \<Rightarrow> bool" where
  "whole_lines dlv \<longleftrightarrow> (\<forall>k msg. arrives msg (dlv k msg) \<and> on_lines (dlv k msg))"

text \<open>The step to the neighbour that \<open>randr(0, 1, 42)\<close> chooses, as an offset on the ring.\<close>

definition offset :: "(nat \<Rightarrow> nat) \<Rightarrow> nat \<Rightarrow> nat" where
  "offset rnd n = (case randr rnd 0 0 1 42 of Some v \<Rightarrow> if v \<noteq> 0 then n - 1 else 1 | None \<Rightarrow> 0)"

definition walk :: "nat \<Rightarrow> nat \<Rightarrow> nat \<Rightarrow> nat \<Rightarrow> nat list" where
  "walk n d cur k = map (\<lambda>j. (cur + d * j) mod n) [0..<k]"

lemma walk_Suc: "cur < n \<Longrightarrow> walk n d cur (Suc k) = cur # walk n d ((cur + d) mod n) k"
proof -
  assume "cur < n"
  have "[0..<Suc k] = 0 # map Suc [0..<k]" by (simp add: map_Suc_upt upt_conv_Cons)
  then show ?thesis using \<open>cur < n\<close> by (simp add: walk_def mod_add_right_eq algebra_simps)
qed

lemma index_of_nth: "distinct xs \<Longrightarrow> i < length xs \<Longrightarrow> index_of (xs ! i) xs = Some i"
proof (induction xs arbitrary: i)
  case Nil
  then show ?case by simp
next
  case (Cons x xs)
  then show ?case by (cases i) auto
qed

lemma ring_player_say [simp]: "ring_player addrs maddr i (say s p) = ring_player addrs maddr i p"
  by (simp add: ring_player_def say_def)

lemma ring_player_update:
  assumes "\<forall>i < length addrs. ring_player addrs maddr i (ps ! i)" and "length ps = length addrs" and "cur < length addrs"
  shows "\<forall>i < length addrs. ring_player addrs maddr i (ps[cur := say s (ps ! cur)] ! i)"
proof (intro allI impI)
  fix i
  assume "i < length addrs"
  then show "ring_player addrs maddr i (ps[cur := say s (ps ! cur)] ! i)"
    using assms by (cases "i = cur") simp_all
qed

lemma randr_01: "\<forall>s. rnd s \<le> RAND_MAX \<Longrightarrow> \<exists>v. randr rnd 0 0 1 42 = Some v"
  by (simp add: randr_def UINT_MOD_def)

text \<open>A message of one line is received as that line.\<close>

lemma one_line_read:
  assumes "t \<noteq> []" and "nl \<notin> set t" and "NUL \<notin> set t" and "t \<noteq> ''close''" and "length t + 2 \<le> MAX_RECV_SIZE"
    and "b = t \<or> b = t @ [nl]" and "arrives b bs" and "on_lines bs"
  shows "read_message MAX_RECV_SIZE [] (pieces bs) = Some (NOk (t @ [nl]))" "strtok nl (t @ [nl]) = [t]"
proof -
  have "strtok nl b = [t]" using assms(1,2,6) strtok_last [of nl t] strtok_piece [of nl t "[]"] by auto
  then have "piece_lines bs = [t]" using piece_lines_count [of bs] assms(7,8) by (auto simp: arrives_def)
  moreover have "NUL \<notin> set (concat bs)" using assms(3,6,7) by (auto simp: arrives_def)
  ultimately show "read_message MAX_RECV_SIZE [] (pieces bs) = Some (NOk (t @ [nl]))"
    using read_pieces [of bs "[]" MAX_RECV_SIZE] assms(4,5,7) by (simp add: arrives_def)
  show "strtok nl (t @ [nl]) = [t]" using strtok_piece [of nl t "[]"] assms(1,2) by simp
qed

lemma one_line_round:
  assumes "t \<noteq> []" and "nl \<notin> set t" and "NUL \<notin> set t" and "t \<noteq> ''close''" and "length t + 2 \<le> MAX_RECV_SIZE"
    and "b = t \<or> b = t @ [nl]" and "arrives b bs" and "on_lines bs"
  shows "player_round net rnd (pieces bs) p = handle_tokens net rnd [t] p"
  using one_line_read [OF assms] by (simp add: player_round_def)

text \<open>The route message of the game fits the buffers.\<close>

lemma route_fits:
  assumes "h \<le> 10000" and "\<forall>y \<in> set ys. y < 1000" and "length ys \<le> h"
  shows "length (route_token h ys) + 2 \<le> MAX_RECV_SIZE"
proof -
  have "length (route_token h ys) \<le> 12 + 4 * length ys"
    using length_commas [OF assms(2)] length_pad_int [of h 5] assms(1) by (simp add: route_token_eq)
  then show ?thesis using assms(1,3) by (simp add: MAX_RECV_SIZE_def)
qed

lemma route_not: "route_token h xs \<noteq> ''close''" "route_token h xs \<noteq> []"
  by (simp_all add: route_token_eq)

lemma route_round:
  assumes h: "0 < h" "h \<le> 10000" and xs: "length xs < h" "\<forall>x \<in> set xs. x < 1000"
    and p: "ring_player addrs maddr i p" "i < 1000" and r: "\<forall>s. rnd s \<le> RAND_MAX"
    and b: "b = route_token h xs \<or> b = route_token h xs @ [nl]" and bs: "arrives b bs" "on_lines bs"
  shows "\<exists>s. player_round net rnd (pieces bs) p = Some (PGo (say s p)
     [(if Suc (length xs) = h then Some maddr
       else Some (addrs ! ((i + offset rnd (length addrs)) mod length addrs)), route_token h (xs @ [i]))])"
proof -
  let ?t = "route_token h xs"
  have hr: "int_range (int h)" and h5: "h < 10 ^ 5" using h by (auto simp: int_range_def INT_MIN_def INT_MAX_def)
  note d = route_drop [OF h5, of xs]
  have l1: "length ?t + 2 \<le> MAX_RECV_SIZE" by (rule route_fits) (use xs h in auto)
  have round: "player_round net rnd (pieces bs) p = handle_tokens net rnd [?t] p"
    by (rule one_line_round [OF route_not(2) route_chars route_not(1) l1 b bs])
  have msg: "?t @ (if xs = [] then [] else '','') @ show_int (player_number p) = route_token h (xs @ [i])"
    using p(1) by (auto simp: route_token_def commas_snoc ring_player_def show_int_nat)
  have "length (route_token h (xs @ [i])) + 2 \<le> MAX_RECV_SIZE" by (rule route_fits) (use xs h p(2) in auto)
  then have l2: "\<not> MAX_RECV_SIZE \<le> length (route_token h (xs @ [i]))" by simp
  obtain v where v: "randr rnd 0 0 1 42 = Some v" using randr_01 [OF r] by blast
  have sk: "length ROUTE_PREFIX + MAX_HOPS_STRLEN + 1 = 12" by (simp add: ROUTE_PREFIX_def MAX_HOPS_STRLEN_def)
  have cf: "count_fields (drop 12 ?t) 0 = length xs" "\<not> length ?t < 12" using d by (simp_all add: count_commas)
  have last: "int (length xs) = int h - 1 \<longleftrightarrow> Suc (length xs) = h" by linarith
  have eq: "recv_route rnd ?t p = (if Suc (length xs) = h
      then Some (say (''I''@[CHR 0x27]@''m it'' @ [nl]) p, [(master_info p, route_token h (xs @ [i]))])
      else if v \<noteq> 0 then Some (say (''Sending potato to '' @ show_int (left_player_number p) @ [nl]) p, [(left_addrinfo p, route_token h (xs @ [i]))])
      else Some (say (''Sending potato to '' @ show_int (right_player_number p) @ [nl]) p, [(right_addrinfo p, route_token h (xs @ [i]))]))"
    unfolding recv_route_def route_scan [OF hr] sk Let_def cf(1)
    using cf(2) l2 v by (simp add: route_prefix msg last Suc_le_eq)
  have "\<exists>s. recv_route rnd ?t p = Some (say s p, [(if Suc (length xs) = h then Some maddr
       else Some (addrs ! ((i + offset rnd (length addrs)) mod length addrs)), route_token h (xs @ [i]))])"
    using p(1) v by (auto simp: eq offset_def ring_player_def)
  then show ?thesis
    by (auto simp: round handle_token_def recv_id_def recv_address_def route_prefix)
qed

text \<open>From the hop after \<open>xs\<close> on, the potato takes \<open>offset\<close> steps around the ring until the hops are used up.\<close>

lemma game_from:
  assumes ring: "\<forall>i < length addrs. ring_player addrs maddr i (ps ! i)" "length ps = length addrs"
    and addrs: "distinct addrs" "maddr \<notin> set addrs" "length addrs \<le> 1000"
    and h: "0 < h" "h \<le> 10000" and r: "\<forall>s. rnd s \<le> RAND_MAX"
    and cur: "cur < length addrs" and xs: "length xs + Suc k = h" "\<forall>x \<in> set xs. x < 1000"
    and b: "b = route_token h xs \<or> b = route_token h xs @ [nl]" and fuel: "k < fuel"
    and w: "whole_lines dlv"
  shows "\<exists>ps'. game net rnd dlv addrs maddr fuel cur b ps
      = Some (route_token h (xs @ walk (length addrs) (offset rnd (length addrs)) cur (Suc k)), ps')"
  using ring cur xs b fuel
proof (induction k arbitrary: fuel cur b ps xs)
  case 0
  have whole: "arrives b (dlv k b)" "on_lines (dlv k b)" for k using w by (simp_all add: whole_lines_def)
  obtain f where f: "fuel = Suc f" using 0(7) by (cases fuel) auto
  have "ring_player addrs maddr cur (ps ! cur)" "cur < 1000" using 0(1,3) addrs(3) by auto
  from route_round [OF h _ 0(5) this r 0(6) whole(1,2), of net fuel] 0(4) obtain s where
    "player_round net rnd (pieces (dlv fuel b)) (ps ! cur) = Some (PGo (say s (ps ! cur)) [(Some maddr, route_token h (xs @ [cur]))])"
    by auto
  then show ?case using f 0(3) by (simp add: walk_def)
next
  case (Suc k)
  have whole: "arrives b (dlv k b)" "on_lines (dlv k b)" for k using w by (simp_all add: whole_lines_def)
  let ?n = "length addrs" let ?d = "offset rnd ?n"
  let ?j = "(cur + ?d) mod ?n"
  obtain f where f: "fuel = Suc f" "k < f" using Suc.prems(7) by (cases fuel) auto
  have p: "ring_player addrs maddr cur (ps ! cur)" "cur < 1000" using Suc.prems(1,3) addrs(3) by auto
  have j: "?j < ?n" using Suc.prems(3) by (intro mod_less_divisor) auto
  from route_round [OF h _ Suc.prems(5) p r Suc.prems(6) whole(1,2), of net fuel] Suc.prems(4) obtain s where
    s: "player_round net rnd (pieces (dlv fuel b)) (ps ! cur)
      = Some (PGo (say s (ps ! cur)) [(Some (addrs ! ?j), route_token h (xs @ [cur]))])" by auto
  let ?ps = "ps[cur := say s (ps ! cur)]"
  have ring': "\<forall>i < ?n. ring_player addrs maddr i (?ps ! i)" "length ?ps = ?n"
    using ring_player_update [OF Suc.prems(1-3)] Suc.prems(2) by simp_all
  have "length (xs @ [cur]) + Suc k = h" "\<forall>x \<in> set (xs @ [cur]). x < 1000" using Suc.prems(4,5) p(2) by auto
  from Suc.IH [OF ring' j this _ f(2)] obtain ps' where
    "game net rnd dlv addrs maddr f ?j (route_token h (xs @ [cur])) ?ps
      = Some (route_token h ((xs @ [cur]) @ walk ?n ?d ?j (Suc k)), ps')" by blast
  moreover have "addrs ! ?j \<noteq> maddr" using addrs(2) j by (metis nth_mem)
  ultimately show ?case using f s j Suc.prems(3) addrs(1)
    by (auto simp: index_of_nth walk_Suc [of cur ?n ?d "Suc k"])
qed

section \<open>Properties of the game\<close>

text \<open>
  Property C13: the game ends after exactly the given number of hops, provided that the network cuts no line of a message into
  pieces. On a ring of up to 1000 players with distinct addresses, the first route message makes the potato visit one
  player per hop, each a neighbour of the one before, always in the same direction; then the master receives the complete
  trace and prints it. Where lines are cut, \<open>read_message\<close> breaks them.
\<close>

theorem potato_trace:
  assumes "\<forall>i. i < length addrs \<longrightarrow> ring_player addrs maddr i (ps ! i)" and "length ps = length addrs"
    and "distinct addrs" and "maddr \<notin> set addrs" and "length addrs \<le> 1000"
    and "0 < h" and "h \<le> 10000" and "\<And>s. rnd s \<le> RAND_MAX" and "cur < length addrs" and "whole_lines dlv"
  shows "\<exists>msg ps' path. game net rnd dlv addrs maddr h cur (first_route (int h)) ps = Some (msg, ps')
    \<and> path = walk (length addrs) (offset rnd (length addrs)) cur h \<and> length path = h
    \<and> master_recv net (Conn host (pieces (dlv 0 msg)) # conns) m =
        Some (NOk (announce (commas path @ [nl]) (announce (''Trace of potato:'' @ [nl]) m), conns))"
proof -
  let ?path = "walk (length addrs) (offset rnd (length addrs)) cur h"
  obtain k where k: "h = Suc k" using assms(6) by (cases h) auto
  have "first_route (int h) = route_token h [] @ [nl]" by (simp add: first_route_def route_token_def)
  then obtain ps' where g: "game net rnd dlv addrs maddr h cur (first_route (int h)) ps = Some (route_token h ?path, ps')"
    using game_from [of addrs maddr ps h rnd cur "[]" k "first_route (int h)" h dlv net] assms k by auto
  have "\<forall>y \<in> set ?path. y < 1000"
  proof -
    have "0 < length addrs" using assms(9) by linarith
    then have "\<forall>y \<in> set ?path. y < length addrs" unfolding walk_def by (auto intro: mod_less_divisor)
    then show ?thesis using assms(5) by auto
  qed
  then have l: "length (route_token h ?path) + 2 \<le> MAX_RECV_SIZE" using assms(7) by (intro route_fits) (auto simp: walk_def)
  have "arrives (route_token h ?path) (dlv 0 (route_token h ?path))" "on_lines (dlv 0 (route_token h ?path))"
    using assms(10) by (simp_all add: whole_lines_def)
  from one_line_read [OF route_not(2) route_chars route_not(1) l disjI1 [OF refl] this]
  have r: "read_message MAX_RECV_SIZE [] (pieces (dlv 0 (route_token h ?path))) = Some (NOk (route_token h ?path @ [nl]))"
      "strtok nl (route_token h ?path @ [nl]) = [route_token h ?path]"
    by simp_all
  have "h < 10 ^ 5" using assms(7) by simp
  then have "master_tokens net host [route_token h ?path] m
      = Some (NOk (True, announce (commas ?path @ [nl]) (announce (''Trace of potato:'' @ [nl]) m)))"
    using route_drop [of h ?path] by (simp add: route_prefix ROUTE_PREFIX_def [symmetric] Let_def)
      (simp add: ROUTE_PREFIX_def MAX_HOPS_STRLEN_def)
  then show ?thesis using g r by (auto simp: walk_def)
qed

text \<open>A ring of three players on one machine.\<close>

definition three_addrs :: "naddr list" where
  "three_addrs = [(''10.0.0.1'', ''5001''), (''10.0.0.2'', ''5001''), (''10.0.0.3'', ''5001'')]"

definition three_maddr :: naddr where
  "three_maddr = (''10.0.0.9'', ''4040'')"

definition ring_member :: "naddr list \<Rightarrow> naddr \<Rightarrow> nat \<Rightarrow> player" where
  "ring_member addrs maddr i = (let n = length addrs; l = (i + (n - 1)) mod n; r = (i + 1) mod n in
     \<lparr>player_number = int i, left_player_number = int l, right_player_number = int r,
      left_addrinfo = Some (addrs ! l), right_addrinfo = Some (addrs ! r), master_info = Some maddr, p_out = []\<rparr>)"

lemma ring_member: "ring_player addrs maddr i (ring_member addrs maddr i)"
  by (simp add: ring_player_def ring_member_def Let_def)

definition one_piece :: "nat \<Rightarrow> string \<Rightarrow> string list" where
  "one_piece k msg = (if msg = [] then [] else [msg])"

lemma one_piece_whole: "whole_lines one_piece"
  by (simp add: whole_lines_def one_piece_def arrives_def)

theorem potato_trace_witness:
  "\<exists>msg ps' path. game loopback (\<lambda>s. 7) one_piece three_addrs three_maddr 5 1 (first_route 5) (map (ring_member three_addrs three_maddr) [0..<3])
      = Some (msg, ps') \<and> path = walk 3 (offset (\<lambda>s. 7) 3) 1 5 \<and> length path = 5
    \<and> master_recv loopback [Conn ''10.0.0.2'' (pieces (one_piece 0 msg))] \<lparr>num_players = 3, hops = 5, players = three_addrs, m_out = []\<rparr>
      = Some (NOk (announce (commas path @ [nl]) (announce (''Trace of potato:'' @ [nl])
          \<lparr>num_players = 3, hops = 5, players = three_addrs, m_out = []\<rparr>), []))"
proof -
  have l: "length three_addrs = 3" by (simp add: three_addrs_def)
  have n: "map (ring_member three_addrs three_maddr) [0..<3] ! i = ring_member three_addrs three_maddr i"
    if "i < 3" for i using that by simp
  have "\<forall>i. i < length three_addrs \<longrightarrow> ring_player three_addrs three_maddr i (map (ring_member three_addrs three_maddr) [0..<3] ! i)"
    using n l ring_member by simp
  moreover have "distinct three_addrs" "three_maddr \<notin> set three_addrs" by (simp_all add: three_addrs_def three_maddr_def)
  ultimately show ?thesis
    using potato_trace [of three_addrs three_maddr "map (ring_member three_addrs three_maddr) [0..<3]" 5 "\<lambda>s. 7" 1 one_piece
        loopback "''10.0.0.2''" "[]" "\<lparr>num_players = 3, hops = 5, players = three_addrs, m_out = []\<rparr>", unfolded l] one_piece_whole
    by (simp add: RAND_MAX_def ring_member del: master_recv.simps game.simps)
qed

text \<open>
  An address that the network resolves to itself: a numeric host and a port, as \<open>getnameinfo\<close> prints them.
\<close>

definition numeric_addr :: "net \<Rightarrow> naddr \<Rightarrow> bool" where
  "numeric_addr net a \<longleftrightarrow> fst a \<noteq> [] \<and> list_all (\<lambda>c. isdigit c \<or> c = CHR ''.'') (fst a) \<and> length (fst a) \<le> 15
     \<and> list_ex (\<lambda>p. snd a = dec p) [0..<65536] \<and> n_resolve net (Some (fst a)) (snd a) = Inr a"

lemma numeric_addrE:
  assumes "numeric_addr net a"
  obtains h p where "a = (h, dec p)" "h \<noteq> []" "\<forall>c \<in> set h. isdigit c \<or> c = CHR ''.''" "length h \<le> 15" "p < 65536"
    "n_resolve net (Some h) (dec p) = Inr (h, dec p)"
  using assms by (cases a) (auto simp: numeric_addr_def list_all_iff list_ex_iff)

lemma scan_int_dec:
  assumes "int_range (int n)" and "r = [] \<or> \<not> isdigit (hd r)"
  shows "scan_int (dec n @ r) = Some (int n, r)"
proof -
  obtain c cs where c: "dec n = c # cs" using dec_nonempty by (cases "dec n") auto
  then have d: "isdigit c" using dec_isdigit [of c n] by simp
  then have n: "\<not> isspace c" "c \<noteq> CHR ''-''" "c \<noteq> CHR ''+''" using isdigit_not isdigit_not_space by auto
  have "takeWhile isdigit (dec n @ r) = dec n" "dropWhile isdigit (dec n @ r) = r"
    using assms(2) by (cases r; auto simp: takeWhile_append2 dropWhile_append2 dec_isdigit)+
  then show ?thesis using n c assms digits_dec [of n] by (simp add: scan_int_def Let_def)
qed

lemma itoa_port: "p < 65536 \<Longrightarrow> itoa 6 (int p) = Some (dec p)"
proof -
  assume p: "p < 65536"
  then have "int_range (int p)" by (simp add: int_range_def INT_MIN_def INT_MAX_def)
  moreover have "length (dec p) \<le> 5" using p by (intro length_dec) auto
  ultimately show ?thesis using itoa_eq [of "int p" 6] by (simp add: show_int_nat INT_MIN_def)
qed

lemma small_int_range: "n < 65536 \<Longrightarrow> int_range (int n)"
  by (simp add: int_range_def INT_MIN_def INT_MAX_def)

text \<open>The lines of the information message, and what each does.\<close>

lemma id_token:
  assumes "i < 65536"
  shows "handle_token net rnd (''YOUARE:'' @ dec i) p
    = Some (PGo (say (''Connected as player '' @ dec i @ [nl]) (p\<lparr>player_number := int i\<rparr>)) [])"
proof -
  have "scan_number (''YOUARE:'' @ dec i) = Some (int i)"
    using scan_int_dec [of i "[]"] small_int_range [OF assms] by (simp add: scan_number_def scan_field_def)
  then show ?thesis
    by (simp add: handle_token_def recv_id_def recv_address_def recv_route_def prefixes show_int_nat)
qed

lemma scan_address_token:
  assumes "j < 65536" and "numeric_addr net a" and "pre = ''LADDR'' \<or> pre = ''RADDR''"
  shows "\<exists>p < 65536. snd a = dec p \<and> scan_address (pre @ '':'' @ address_str (int j) a) = Some (pre, int j, fst a, int p)"
proof -
  obtain h p where a: "a = (h, dec p)" "h \<noteq> []" "\<forall>c \<in> set h. isdigit c \<or> c = CHR ''.''" "length h \<le> 15" "p < 65536"
    using assms(2) by (rule numeric_addrE)
  have pre: "takeWhile (\<lambda>c. c \<noteq> CHR '':'') (pre @ CHR '':'' # r) = pre" "dropWhile (\<lambda>c. c \<noteq> CHR '':'') (pre @ CHR '':'' # r) = CHR '':'' # r"
    "pre \<noteq> []" "length pre = 5" for r using assms(3) by auto
  have hc: "\<forall>c \<in> set h. c \<noteq> CHR '':''" using a(3) isdigit_not(1) by auto
  have h: "takeWhile (\<lambda>c. c \<noteq> CHR '':'') (h @ CHR '':'' # r) = h" "dropWhile (\<lambda>c. c \<noteq> CHR '':'') (h @ CHR '':'' # r) = CHR '':'' # r" for r
    using hc by (simp_all add: takeWhile_append2 dropWhile_append2)
  have "scan_int (dec p) = Some (int p, [])" using scan_int_dec [of p "[]"] small_int_range [OF a(5)] by simp
  then have "scan_address (pre @ CHR '':'' # dec j @ CHR '':'' # h @ CHR '':'' # dec p) = Some (pre, int j, h, int p)"
    using a(2,4) isdigit_not(1) small_int_range [OF assms(1)]
    by (simp add: scan_address_def scan_field_def pre h scan_int_dec LEFT_ADDRESS_PREFIX_def INET6_ADDRSTRLEN_def)
  then show ?thesis using a(1,5) by (auto simp: address_str_def show_int_nat)
qed

lemma left_token:
  assumes "j < 65536" and "numeric_addr net a"
  shows "handle_token net rnd (''LADDR:'' @ address_str (int j) a) p
    = Some (PGo (p\<lparr>left_addrinfo := Some a, left_player_number := int j\<rparr>) [])"
proof -
  obtain q where q: "q < 65536" "snd a = dec q" "scan_address (''LADDR:'' @ address_str (int j) a) = Some (''LADDR'', int j, fst a, int q)"
    using scan_address_token [OF assms, of "''LADDR''"] by auto
  moreover have "gethostaddrinfo net (Some (fst a)) (int q) = Some (NOk a)"
    using assms(2) q(2) itoa_port [OF q(1)] by (simp add: gethostaddrinfo_def numeric_addr_def)
  ultimately show ?thesis
    by (simp add: handle_token_def recv_id_def recv_address_def recv_route_def prefixes)
qed

lemma right_token:
  assumes "j < 65536" and "numeric_addr net a"
  shows "handle_token net rnd (''RADDR:'' @ address_str (int j) a) p
    = Some (PGo (p\<lparr>right_addrinfo := Some a, right_player_number := int j\<rparr>) [])"
proof -
  obtain q where q: "q < 65536" "snd a = dec q" "scan_address (''RADDR:'' @ address_str (int j) a) = Some (''RADDR'', int j, fst a, int q)"
    using scan_address_token [OF assms, of "''RADDR''"] by auto
  moreover have "gethostaddrinfo net (Some (fst a)) (int q) = Some (NOk a)"
    using assms(2) q(2) itoa_port [OF q(1)] by (simp add: gethostaddrinfo_def numeric_addr_def)
  ultimately show ?thesis
    by (simp add: handle_token_def recv_id_def recv_address_def recv_route_def prefixes)
qed

lemma lines_round:
  assumes "\<forall>t \<in> set ts. t \<noteq> [] \<and> nl \<notin> set t \<and> NUL \<notin> set t \<and> t \<noteq> ''close''"
    and "length (concat (map (\<lambda>t. t @ [nl]) ts)) + 1 \<le> MAX_RECV_SIZE" and "ts \<noteq> []"
  shows "player_round net rnd [Bytes (concat (map (\<lambda>t. t @ [nl]) ts)), Bytes []] p = handle_tokens net rnd ts p"
proof -
  let ?b = "concat (map (\<lambda>t. t @ [nl]) ts)"
  have st: "strtok nl ?b = ts" using assms(1) by (intro strtok_concat) auto
  have w: "takeWhile (\<lambda>c. c \<noteq> NUL) ?b = ?b" using assms(1) by (intro takeWhile_NUL) auto
  have a: "append_tokens MAX_RECV_SIZE [] ts = Some (True, ?b)"
    using append_tokens_all [of ts "[]" MAX_RECV_SIZE] assms(1,2) by auto
  have "?b \<noteq> []" using assms(3) by (cases ts) auto
  then have "read_message MAX_RECV_SIZE [] [Bytes ?b, Bytes []] = Some (NOk ?b)" by (simp only: read_message.simps w st a) simp
  then show ?thesis by (simp add: player_round_def st)
qed

lemma handle_three:
  assumes "handle_token net rnd t1 p = Some (PGo p1 [])" and "handle_token net rnd t2 p1 = Some (PGo p2 [])"
    and "handle_token net rnd t3 p2 = Some (PGo p3 [])"
  shows "handle_tokens net rnd [t1, t2, t3] p = Some (PGo p3 [])"
  using assms by simp

lemma address_str_chars:
  assumes "numeric_addr net a"
  shows "c \<in> set (address_str (int j) a) \<Longrightarrow> isdigit c \<or> c = CHR ''.'' \<or> c = CHR '':''"
    and "j < 1000 \<Longrightarrow> length (address_str (int j) a) \<le> 25"
proof -
  obtain h p where a: "a = (h, dec p)" "\<forall>c \<in> set h. isdigit c \<or> c = CHR ''.''" "length h \<le> 15" "p < 65536"
    using assms by (rule numeric_addrE)
  show "c \<in> set (address_str (int j) a) \<Longrightarrow> isdigit c \<or> c = CHR ''.'' \<or> c = CHR '':''"
    using a(1,2) dec_isdigit by (auto simp: address_str_def show_int_nat)
  show "length (address_str (int j) a) \<le> 25" if "j < 1000"
    using a(1,3) length_dec [of j 3] length_dec [of p 5] a(4) that by (simp add: address_str_def show_int_nat)
qed

text \<open>
  Property C18: the ring. When all players have connected from numeric addresses, the master's message to
  player \<open>i\<close> fits its buffers and makes that player the \<open>i\<close>-th of the ring: it knows its number, and the
  numbers and addresses of its two neighbours modulo the number of players.
\<close>

theorem ring_info:
  assumes "num_players m = int (players_connected m)" and "players_connected m \<le> 1000" and "i < players_connected m"
    and "list_all (numeric_addr net) (players m)" and "master_info p = Some maddr"
  shows "\<exists>msg p'. send_info_to_player m (int i) = Some (players m ! i, msg)
    \<and> player_round net rnd [Bytes msg, Bytes []] p = Some (PGo p' []) \<and> ring_player (players m) maddr i p'"
proof -
  let ?n = "players_connected m" let ?l = "(i + (?n - 1)) mod ?n" let ?r = "(i + 1) mod ?n"
  have n: "0 < ?n" using assms(3) by linarith
  have lr: "?l < ?n" "?r < ?n" using n by simp_all
  have ir: "int_range (int ?n)" "int_range (int i - 1)" "int_range (int i + 1)"
    using assms(2,3) by (auto simp: int_range_def INT_MIN_def INT_MAX_def)
  have "int i - 1 = int (i + (?n - 1)) - int ?n" using n by linarith
  then have l: "mod_int (int i - 1) (num_players m) = Some (int ?l)"
    using mod_int_eq [of "int ?n" "int i - 1"] n ir assms(1) minus_mod_self2 [of "int (i + (?n - 1))" "int ?n"]
    by (simp only: zmod_int of_nat_0_less_iff)
  have r: "mod_int (int i + 1) (num_players m) = Some (int ?r)"
    using mod_int_eq [of "int ?n" "int i + 1"] n ir assms(1) by (simp add: zmod_int add.commute)
  have a: "numeric_addr net (players m ! ?l)" "numeric_addr net (players m ! ?r)"
    using assms(4) lr by (simp_all add: list_all_length)
  let ?ls = "address_str (int ?l) (players m ! ?l)" let ?rs = "address_str (int ?r) (players m ! ?r)"
  let ?ts = "[''YOUARE:'' @ dec i, ''LADDR:'' @ ?ls, ''RADDR:'' @ ?rs]"
  let ?msg = "concat (map (\<lambda>t. t @ [nl]) ?ts)"
  have len: "length ?ls \<le> 25" "length ?rs \<le> 25" using address_str_chars(2) a lr assms(2) by auto
  have "length (dec i) \<le> 3" using assms(2,3) by (intro length_dec) auto
  then have ml: "length ?msg \<le> 80" using len by simp
  have send: "send_info_to_player m (int i) = Some (players m ! i, ?msg)"
    using l r lr len ml assms(3) by (simp add: send_info_to_player_def prefixes show_int_nat Let_def)
  have ch: "c \<noteq> nl \<and> c \<noteq> NUL" if "c \<in> set ?ls \<or> c \<in> set ?rs \<or> c \<in> set (dec i)" for c
    using that address_str_chars(1) [OF a(1)] address_str_chars(1) [OF a(2)] dec_isdigit isdigit_not(3,6) by fastforce
  have "player_round net rnd [Bytes ?msg, Bytes []] p = handle_tokens net rnd ?ts p"
    using ch ml by (intro lines_round) (auto simp: MAX_RECV_SIZE_def)
  also have "\<dots> = Some (PGo ((say (''Connected as player '' @ dec i @ [nl]) (p\<lparr>player_number := int i\<rparr>))
      \<lparr>left_addrinfo := Some (players m ! ?l), left_player_number := int ?l,
       right_addrinfo := Some (players m ! ?r), right_player_number := int ?r\<rparr>) [])"
  proof -
    have b: "i < 65536" "?l < 65536" "?r < 65536" using lr assms(2,3) by auto
    show ?thesis by (rule handle_three [OF id_token [OF b(1)] left_token [OF b(2) a(1)] right_token [OF b(3) a(2)]])
  qed
  finally show ?thesis using send assms(5) by (auto simp: ring_player_def say_def)
qed

definition numeric_net :: net where
  "numeric_net = loopback\<lparr>n_resolve := (\<lambda>h p. case h of Some host \<Rightarrow> Inr (host, p) | None \<Rightarrow> Inr (''0.0.0.0'', p))\<rparr>"

lemma dec_5001: "dec 5001 = ''5001''"
  by (simp add: dec.simps [of 5001] dec.simps [of 500] dec.simps [of 50] dec.simps [of 5] digit_char_def char_of_def bit_0)

lemma three_numeric: "list_all (numeric_addr numeric_net) three_addrs"
proof -
  have "list_ex (\<lambda>p. ''5001'' = dec p) [0..<65536]" unfolding dec_5001 [symmetric] list_ex_iff by (intro bexI [of _ 5001]) auto
  then show ?thesis by (simp add: three_addrs_def numeric_addr_def numeric_net_def isdigit_def)
qed

theorem ring_info_witness:
  "\<exists>msg p'. send_info_to_player \<lparr>num_players = 3, hops = 5, players = three_addrs, m_out = []\<rparr> (int 2) = Some (three_addrs ! 2, msg)
    \<and> player_round numeric_net (\<lambda>s. 7) [Bytes msg, Bytes []] (new_player three_maddr) = Some (PGo p' [])
    \<and> ring_player three_addrs three_maddr 2 p'"
  using ring_info [of "\<lparr>num_players = 3, hops = 5, players = three_addrs, m_out = []\<rparr>" 2 numeric_net "new_player three_maddr"
      three_maddr "\<lambda>s. 7"] three_numeric
  by (simp add: three_addrs_def new_player_def del: read_message.simps)

text \<open>Every return of \<open>recv_messages\<close> while players are missing adds one player or reports a trace.\<close>

lemma master_tokens_players:
  "master_tokens net host ts m = Some (NOk (ret, m')) \<Longrightarrow> int (players_connected m) \<le> num_players m \<Longrightarrow>
    num_players m' = num_players m \<and> hops m' = hops m \<and> take (players_connected m) (players m') = players m
    \<and> int (players_connected m') \<le> num_players m'"
  by (induction net host ts m rule: master_tokens.induct)
     (auto simp: announce_def Let_def elim!: bind_SomeE split: if_splits nres.splits)

lemma master_recv_players:
  "master_recv net conns m = Some (NOk (m', conns')) \<Longrightarrow> int (players_connected m) \<le> num_players m \<Longrightarrow>
    num_players m' = num_players m \<and> hops m' = hops m \<and> int (players_connected m') \<le> num_players m'"
proof (induction net conns m rule: master_recv.induct)
  case (3 net host cs conns m)
  obtain b ret m1 where b: "read_message MAX_RECV_SIZE [] cs = Some (NOk b)"
      "master_tokens net host (strtok nl b) m = Some (NOk (ret, m1))"
    and r: "if ret then m' = m1 else master_recv net conns m1 = Some (NOk (m', conns'))"
    using "3.prems"(1) by (auto elim!: bind_SomeE split: nres.splits if_splits)
  note m1 = master_tokens_players [OF b(2) "3.prems"(2)]
  show ?case
  proof (cases ret)
    case True
    then show ?thesis using m1 r by simp
  next
    case False
    then show ?thesis using "3.IH" [OF b(1) refl b(2) refl refl False] m1 r by simp
  qed
qed auto

text \<open>
  When the master has stopped accepting, it has exactly as many players as it was asked for:
  the array of players is full and not overrun.
\<close>

theorem accept_players_full:
  assumes "accept_players net conns m = Some (NOk (m', conns'))" and "int (players_connected m) \<le> num_players m"
  shows "int (players_connected m') = num_players m \<and> num_players m' = num_players m \<and> hops m' = hops m"
  using assms
proof (induction net conns m rule: accept_players.induct)
  case (1 net conns m)
  show ?case
  proof (cases "int (players_connected m) < num_players m")
    case False
    then show ?thesis using "1.prems" by (simp add: accept_players.simps [of net conns])
  next
    case True
    then obtain m1 conns1 where r: "master_recv net conns m = Some (NOk (m1, conns1))"
      "accept_players net conns1 m1 = Some (NOk (m', conns'))"
      using "1.prems"(1) by (auto simp: accept_players.simps [of net conns] elim!: bind_SomeE split: nres.splits)
    moreover note master_recv_players [OF r(1) "1.prems"(2)]
    ultimately show ?thesis using "1.IH" [OF True r(1), of "(m1, conns1)" m1 conns1] by auto
  qed
qed

lemma accept_players_step:
  assumes "int (players_connected m) < num_players m" and "master_recv net conns m = Some (NOk (m', conns'))"
  shows "accept_players net conns m = accept_players net conns' m'"
  using assms by (subst accept_players.simps) simp

lemma accept_players_done: "\<not> int (players_connected m) < num_players m \<Longrightarrow> accept_players net conns m = Some (NOk (m, conns))"
  by (subst accept_players.simps) simp

lemma one_connect:
  "accept_players numeric_net [Conn ''10.0.0.1'' [Bytes (''CONNECT:'' @ ''5001'' @ [nl]), Bytes []]]
       \<lparr>num_players = 1, hops = 5, players = [], m_out = []\<rparr>
     = Some (NOk (\<lparr>num_players = 1, hops = 5, players = [(''10.0.0.1'', ''5001'')],
         m_out = [''player '' @ dec 0 @ '' is on 10.0.0.1'' @ [nl]]\<rparr>, []))"
proof -
  have "strtok nl (''CONNECT:'' @ ''5001'' @ [nl]) = [''CONNECT:5001'']" by code_simp
  moreover have "scan_number ''CONNECT:5001'' = Some 5001"
    using scan_int_dec [of 5001 "[]"] small_int_range [of 5001] by (simp add: dec_5001 scan_number_def scan_field_def)
  moreover have "itoa 6 5001 = Some ''5001''" using itoa_port [of 5001] by (simp add: dec_5001)
  ultimately have "master_recv numeric_net [Conn ''10.0.0.1'' [Bytes (''CONNECT:'' @ ''5001'' @ [nl]), Bytes []]]
       \<lparr>num_players = 1, hops = 5, players = [], m_out = []\<rparr>
     = Some (NOk (\<lparr>num_players = 1, hops = 5, players = [(''10.0.0.1'', ''5001'')],
         m_out = [''player '' @ dec 0 @ '' is on 10.0.0.1'' @ [nl]]\<rparr>, []))"
    by (simp add: prefixes gethostaddrinfo_def numeric_net_def announce_def MAX_RECV_SIZE_def)
  then show ?thesis by (simp add: accept_players_step accept_players_done del: master_recv.simps)
qed

theorem accept_players_full_witness:
  "int (players_connected \<lparr>num_players = 1, hops = 5, players = [(''10.0.0.1'', ''5001'')],
      m_out = [''player '' @ dec 0 @ '' is on 10.0.0.1'' @ [nl]]\<rparr>) = 1"
  using accept_players_full [OF one_connect] by simp

text \<open>
  A \<open>CONNECT\<close> that arrives when all players are present, while the master waits for the trace,
  is stored behind the end of the array of players.
\<close>

theorem late_connect_overflows:
  assumes "num_players m = int (players_connected m)" and "p < 65536" and "n_resolve net (Some host) (dec p) = Inr a"
  shows "master_tokens net host [send_player_info (int p)] m = None"
proof -
  have "scan_number (send_player_info (int p)) = Some (int p)"
    using scan_int_dec [of p "[nl]"] small_int_range [OF assms(2)] isdigit_not(3)
    by (simp add: send_player_info_def CONNECT_PREFIX_def scan_number_def scan_field_def show_int_nat)
  moreover have "gethostaddrinfo net (Some host) (int p) = Some (NOk a)"
    using assms(3) itoa_port [OF assms(2)] by (simp add: gethostaddrinfo_def)
  moreover have "begins_with (send_player_info (int p)) CONNECT_PREFIX" "\<not> begins_with (send_player_info (int p)) ROUTE_PREFIX"
    by (simp_all add: send_player_info_def prefixes)
  ultimately show ?thesis using assms(1) by simp
qed

theorem late_connect_overflows_witness:
  "master_tokens numeric_net ''10.0.0.4'' [send_player_info (int 5001)]
     \<lparr>num_players = 3, hops = 5, players = three_addrs, m_out = []\<rparr> = None"
  by (rule late_connect_overflows [where a = "(''10.0.0.4'', dec 5001)"])
     (simp_all add: three_addrs_def numeric_net_def)

end
