(* ===== verification/Talk.thy ===== *)
theory Talk
  imports Potato_Utils
begin

text \<open>
  The two example programs that come with the game, \<open>hw3/speak.c\<close> and \<open>hw3/listen.c\<close>: \<open>speak\<close> sends
  each line of its input over a connection and \<open>close\<close> at the end, \<open>listen\<close> prints what it receives. The
  answers of the resolver and of the socket calls are parameters; the results of \<open>send\<close> and the
  deliveries of \<open>recv\<close> are lists, and a program that needs a further element is blocked.
\<close>

section \<open>speak\<close>

definition LEN :: nat where
  "LEN = 64"

text \<open>\<open>fgets\<close> with room for \<open>n\<close> characters: the text read, up to and with a newline, and the rest.\<close>

fun fgets :: "nat \<Rightarrow> string \<Rightarrow> string \<times> string" where
  "fgets 0 s = ([], s)"
| "fgets (Suc n) [] = ([], [])"
| "fgets (Suc n) (c # cs) =
     (if c = nl then ([c], cs) else (let (l, r) = fgets n cs in (c # l, r)))"

text \<open>The string in \<open>str\<close> without its newline; for an empty one the program looks at \<open>str[-1]\<close>.\<close>

definition chomp :: "string \<Rightarrow> string option" where
  "chomp l = (let str = takeWhile (\<lambda>c. c \<noteq> NUL) l
     in if str = [] then None else Some (if last str = nl then butlast str else str))"

text \<open>
  The loop and the final \<open>close\<close>: one result of \<open>send\<close> per round. The result is the exit status and what
  was handed to the network, one text per call.
\<close>

fun speak_loop :: "string \<Rightarrow> int list \<Rightarrow> string list \<Rightarrow> (int \<times> string list) option" where
  "speak_loop input [] sent = None"
| "speak_loop input (r # rs) sent =
     (if input = [] then Some (if r = 5 then 0 else 1, sent @ [take (nat r) ''close''])
      else let (l, rest) = fgets (LEN - 1) input
           in (case chomp l of
                 None \<Rightarrow> None
               | Some str \<Rightarrow>
                   if r = int (length str) then speak_loop rest rs (sent @ [str])
                   else Some (1, sent @ [take (nat r) str])))"

text \<open>\<open>hosts\<close> is \<open>gethostbyname\<close>. For an unknown host the program prints its uninitialised array \<open>host\<close>.\<close>

definition speak_main :: "net \<Rightarrow> (string \<Rightarrow> string option) \<Rightarrow> string list \<Rightarrow> string \<Rightarrow> int list \<Rightarrow> (int \<times> string list) option" where
  "speak_main net hosts argv input rs =
     (if length argv \<noteq> 3 then Some (1, [])
      else (case hosts (argv ! 1) of
              None \<Rightarrow> None
            | Some address \<Rightarrow> do {
                port \<leftarrow> atoi (argv ! 2);
                let rc = n_connect net (address, show_int (port mod 65536));
                if n_socket net < 0 then Some (n_socket net, [])
                else if rc < 0 then Some (rc, [])
                else speak_loop input rs [] }))"

section \<open>listen\<close>

text \<open>
  A connection: what \<open>recv\<close> delivers until \<open>close\<close> comes. The flag says whether it came; otherwise the
  program waits for more. After an error of \<open>recv\<close> the terminating \<open>NUL\<close> is written outside the buffer.
\<close>

fun listen_conn :: "chunk list \<Rightarrow> string list \<Rightarrow> (bool \<times> string list) option" where
  "listen_conn [] out = Some (False, out)"
| "listen_conn (RecvError # cs) out = None"
| "listen_conn (Bytes b # cs) out =
     (let buf = takeWhile (\<lambda>c. c \<noteq> NUL) b
      in if buf = ''close'' then Some (True, out) else listen_conn cs (out @ [buf]))"

datatype listen_end = Waiting | Exited int

text \<open>
  The results of \<open>accept\<close>: an error, or the name of the peer, if it has one, and its deliveries. After an
  error the program exits with the last result of \<open>listen\<close>.
\<close>

datatype accepted = AcceptError | Peer "string option" "chunk list"

fun listen_loop :: "int \<Rightarrow> accepted list \<Rightarrow> string list \<Rightarrow> (listen_end \<times> string list) option" where
  "listen_loop rc [] out = Some (Waiting, out)"
| "listen_loop rc (AcceptError # ps) out = Some (Exited rc, out)"
| "listen_loop rc (Peer None cs # ps) out = None"
| "listen_loop rc (Peer (Some h) cs # ps) out =
     (case listen_conn cs (out @ [''>> Connected to '' @ h]) of
        None \<Rightarrow> None
      | Some (False, out') \<Rightarrow> Some (Waiting, out')
      | Some (True, out') \<Rightarrow> listen_loop rc ps (out' @ [''>> Connection closed'']))"

definition listen_main :: "net \<Rightarrow> string option \<Rightarrow> string list \<Rightarrow> accepted list \<Rightarrow> (listen_end \<times> string list) option" where
  "listen_main net self argv ps =
     (if length argv < 2 then Some (Exited 1, [])
      else do {
        port \<leftarrow> atoi (argv ! 1);
        case self of
          None \<Rightarrow> Some (Exited 1, [])
        | Some address \<Rightarrow>
            if n_socket net < 0 then Some (Exited (n_socket net), [])
            else if n_bind net < 0 then Some (Exited (n_bind net), [])
            else if n_listen net < 0 then Some (Exited (n_listen net), [])
            else listen_loop (n_listen net) ps [] })"

section \<open>A conversation\<close>

text \<open>\<open>listen\<close> receives up to 32 bytes at a time.\<close>

definition plain_line :: "string \<Rightarrow> bool" where
  "plain_line l \<longleftrightarrow> l \<noteq> [] \<and> length l \<le> 32 \<and> nl \<notin> set l \<and> NUL \<notin> set l"

definition unlines :: "string list \<Rightarrow> string" where
  "unlines ls = concat (map (\<lambda>l. l @ [nl]) ls)"

lemma fgets_line: "nl \<notin> set l \<Longrightarrow> length l < n \<Longrightarrow> fgets n (l @ nl # s) = (l @ [nl], s)"
proof (induction l arbitrary: n)
  case Nil
  then show ?case by (cases n) auto
next
  case (Cons c l)
  then show ?case by (cases n) auto
qed

lemma chomp_line: "NUL \<notin> set l \<Longrightarrow> chomp (l @ [nl]) = Some l"
  by (simp add: chomp_def takeWhile_NUL)

lemma speak_loop_lines:
  assumes "list_all plain_line ls"
  shows "speak_loop (unlines ls) (map (\<lambda>l. int (length l)) ls @ [5]) sent = Some (0, sent @ ls @ [''close''])"
  using assms
proof (induction ls arbitrary: sent)
  case Nil
  then show ?case by (simp add: unlines_def)
next
  case (Cons l ls)
  then have "fgets (LEN - 1) (unlines (l # ls)) = (l @ [nl], unlines ls)"
    using fgets_line [of l "LEN - 1" "unlines ls"] by (simp add: plain_line_def unlines_def LEN_def)
  moreover have "unlines (l # ls) \<noteq> []" by (simp add: unlines_def)
  ultimately show ?case using Cons by (simp add: chomp_line plain_line_def)
qed

lemma listen_conn_lines:
  "\<forall>l \<in> set ls. NUL \<notin> set l \<and> l \<noteq> ''close'' \<Longrightarrow>
    listen_conn (map Bytes ls @ Bytes ''close'' # cs) out = Some (True, out @ ls)"
  by (induction ls arbitrary: out) (auto simp: takeWhile_NUL)

text \<open>
  A conversation. \<open>speak\<close> sends the lines of its input, and \<open>listen\<close> prints exactly these lines
  between its two messages, for non-empty lines of up to 32 characters other than \<open>close\<close>, when every \<open>send\<close>
  takes the whole text and every text is delivered by one \<open>recv\<close>.
\<close>

theorem speak_listen:
  assumes "list_all plain_line ls" and "''close'' \<notin> set ls"
    and "hosts host = Some a" and "atoi port = Some pn" and "0 \<le> n_socket net" and "0 \<le> n_bind net"
    and "0 \<le> n_listen net" and "0 \<le> n_connect net (a, show_int (pn mod 65536))"
  shows "\<exists>sent. speak_main net hosts [prog, host, port] (unlines ls) (map (\<lambda>l. int (length l)) ls @ [5]) = Some (0, sent) \<and>
    listen_main net (Some a) [prog', port] [Peer (Some h) (map Bytes sent)] =
      Some (Waiting, [''>> Connected to '' @ h] @ ls @ [''>> Connection closed''])"
proof -
  have "\<forall>l \<in> set ls. NUL \<notin> set l \<and> l \<noteq> ''close''"
    using assms(1,2) by (auto simp: list_all_iff plain_line_def)
  then have "listen_conn (map Bytes (ls @ [''close''])) [''>> Connected to '' @ h] = Some (True, [''>> Connected to '' @ h] @ ls)"
    using listen_conn_lines [of ls "[]"] by simp
  then show ?thesis using assms(3-) speak_loop_lines [OF assms(1), of "[]"]
    by (auto simp: speak_main_def listen_main_def)
qed

theorem speak_listen_witness:
  "\<exists>sent. speak_main loopback (\<lambda>h. Some ''127.0.0.1'') [''speak'', ''localhost'', ''4000''] (unlines [''one'', ''two''])
      (map (\<lambda>l. int (length l)) [''one'', ''two''] @ [5]) = Some (0, sent) \<and>
    listen_main loopback (Some ''127.0.0.1'') [''listen'', ''4000''] [Peer (Some ''me'') (map Bytes sent)] =
      Some (Waiting, [''>> Connected to '' @ ''me''] @ [''one'', ''two''] @ [''>> Connection closed''])"
proof (rule speak_listen)
  show "list_all plain_line [''one'', ''two'']" by code_simp
  show "''close'' \<notin> set [''one'', ''two'']" by code_simp
  show "atoi ''4000'' = Some 4000" by code_simp
qed (simp_all add: loopback_def)

text \<open>When the last line and the closing word arrive together, the end is not noticed.\<close>

lemma close_merged:
  assumes "NUL \<notin> set l" and "l \<noteq> []"
  shows "listen_loop rc [Peer (Some h) [Bytes (l @ ''close'')]] out =
    Some (Waiting, out @ [''>> Connected to '' @ h, l @ ''close''])"
proof -
  have "takeWhile (\<lambda>c. c \<noteq> NUL) (l @ ''close'') = l @ ''close''" using assms(1) by (intro takeWhile_NUL) simp
  moreover have "l @ ''close'' \<noteq> ''close''" using assms(2) by simp
  ultimately show ?thesis by simp
qed

end
