(* ===== verification/Ram_Utils.thy ===== *)
theory Ram_Utils
  imports C_Lib "HOL-Library.Word"
begin

text \<open>
  The helpers of the RAM disk, \<open>hw4/utils.c\<close>: counting and comparing strings, the rounded division and
  \<open>split\<close>. Numbers that the code converts between widths are integers with the conversion written out.
\<close>

section \<open>Conversions between integer types\<close>

text \<open>The value of an integer converted to \<open>int\<close>, and to \<open>unsigned long\<close> (\<open>size_t\<close>).\<close>

definition int32 :: "int \<Rightarrow> int" where
  "int32 n = (n + 2147483648) mod 4294967296 - 2147483648"

definition u64 :: "int \<Rightarrow> int" where
  "u64 n = n mod 18446744073709551616"

lemma int32_id: "int_range n \<Longrightarrow> int32 n = n"
  by (simp add: int32_def int_range_def INT_MIN_def INT_MAX_def)

lemma u64_id: "0 \<le> n \<Longrightarrow> n < 18446744073709551616 \<Longrightarrow> u64 n = n"
  by (simp add: u64_def)

section \<open>Strings\<close>

text \<open>
  \<open>count_occurences\<close>: the loop either advances the index, at an occurrence, or the start of the string,
  so that \<open>s[i]\<close> is the next character in any case.
\<close>

function count_loop :: "char \<Rightarrow> string \<Rightarrow> nat \<Rightarrow> nat" where
  "count_loop c s i = (if i < length s
     then (if s ! i = c then count_loop c s (Suc i) else count_loop c (tl s) i)
     else i)"
  by pat_completeness auto
termination by (relation "measure (\<lambda>(c, s, i). length s - i)") auto

declare count_loop.simps [simp del]

definition count_occurences :: "char \<Rightarrow> string \<Rightarrow> nat" where
  "count_occurences c s = count_loop c s 0"

text \<open>\<open>ends_with\<close> compares from \<open>strlen(string) - strlen(compare)\<close> on, which is before the string when it is shorter.\<close>

definition ends_with :: "string \<Rightarrow> string \<Rightarrow> bool option" where
  "ends_with s compare =
     (if length s < length compare then None
      else Some (take (length compare) (drop (length s - length compare) s) = compare))"

text \<open>\<open>div_round_up\<close> on \<open>unsigned int\<close>.\<close>

definition div_round_up :: "32 word \<Rightarrow> 32 word \<Rightarrow> 32 word option" where
  "div_round_up dividend divisor =
     (if divisor = 0 then None else Some ((dividend + divisor div 2) div divisor))"

text \<open>
  \<open>split\<close>: the number of pieces, the sizes of the arrays allocated for them, and the bytes stored in
  each. The last piece gets no terminating \<open>NUL\<close>.
\<close>

fun split_sizes :: "char \<Rightarrow> string \<Rightarrow> nat \<Rightarrow> nat list" where
  "split_sizes c [] token_len = [token_len]"
| "split_sizes c (x # xs) token_len =
     (if x = c then token_len # split_sizes c xs 1 else split_sizes c xs (Suc token_len))"

fun split_fill :: "char \<Rightarrow> string \<Rightarrow> string \<Rightarrow> string list" where
  "split_fill c [] t = [t]"
| "split_fill c (x # xs) t =
     (if x = c then (t @ [CHR 0x00]) # split_fill c xs [] else split_fill c xs (t @ [x]))"

definition split_str :: "string \<Rightarrow> char \<Rightarrow> nat \<times> (nat \<times> string) list" where
  "split_str str c = (Suc (length (filter (\<lambda>x. x = c) str)), zip (split_sizes c str 1) (split_fill c str []))"

section \<open>Lemmas\<close>

lemma count_loop_eq: "i \<le> length s \<Longrightarrow> count_loop c s i = i + length (filter (\<lambda>x. x = c) (drop i s))"
proof (induction c s i rule: count_loop.induct)
  case (1 c s i)
  show ?case
  proof (cases "i < length s")
    case False
    then show ?thesis using "1.prems" by (simp add: count_loop.simps [of c s])
  next
    case True
    then have d: "drop i s = s ! i # drop (Suc i) s" by (simp add: Cons_nth_drop_Suc)
    have t: "drop i (tl s) = drop (Suc i) s" by (simp add: drop_Suc)
    show ?thesis
    proof (cases "s ! i = c")
      case eq: True
      have "count_loop c s i = count_loop c s (Suc i)" using True eq by (simp add: count_loop.simps [of c s i])
      also have "\<dots> = Suc i + length (filter (\<lambda>x. x = c) (drop (Suc i) s))" using "1.IH"(1) True eq by simp
      finally show ?thesis using eq by (simp add: d)
    next
      case ne: False
      have "count_loop c s i = count_loop c (tl s) i" using True ne by (simp add: count_loop.simps [of c s i])
      also have "\<dots> = i + length (filter (\<lambda>x. x = c) (drop i (tl s)))" using "1.IH"(2) True ne by simp
      finally show ?thesis using ne by (simp only: d t) simp
    qed
  qed
qed

lemma count_occurences_eq: "count_occurences c s = length (filter (\<lambda>x. x = c) s)"
  by (simp add: count_occurences_def count_loop_eq)

lemma ends_with_suffix: "length x \<le> length s \<Longrightarrow> ends_with s x = Some (\<exists>r. s = r @ x)"
proof -
  assume l: "length x \<le> length s"
  have "take (length x) (drop (length s - length x) s) = x \<longleftrightarrow> (\<exists>r. s = r @ x)"
  proof
    assume a: "take (length x) (drop (length s - length x) s) = x"
    then have "drop (length s - length x) s = x" using l by simp
    then show "\<exists>r. s = r @ x" by (metis append_take_drop_id)
  qed auto
  then show ?thesis using l by (simp add: ends_with_def)
qed

lemma split_sizes_length: "length (split_sizes c s n) = Suc (length (filter (\<lambda>x. x = c) s))"
  by (induction c s n rule: split_sizes.induct) auto

lemma split_fill_length: "length (split_fill c s t) = Suc (length (filter (\<lambda>x. x = c) s))"
  by (induction c s t rule: split_fill.induct) auto

text \<open>Without the terminators the bytes stored are the pieces between the separators.\<close>

lemma split_fill_eq:
  "c \<notin> set t \<Longrightarrow> \<exists>ps. split_on c (t @ s) = ps \<and> split_fill c s t = map (\<lambda>p. p @ [CHR 0x00]) (butlast ps) @ [last ps]"
proof (induction c s t rule: split_fill.induct)
  case (1 c t)
  then show ?case by (simp add: split_on_last)
next
  case (2 c x xs t)
  show ?case
  proof (cases "x = c")
    case True
    then show ?thesis using "2.IH"(1) "2.prems" by (simp add: split_on_piece)
  next
    case False
    then show ?thesis using "2.IH"(2) "2.prems" by simp
  qed
qed

text \<open>The stored bytes fill the allocated arrays exactly, except the last, which has one byte to spare.\<close>

lemma split_fits:
  "split_sizes c s (Suc (length t)) = map length (butlast (split_fill c s t)) @ [Suc (length (last (split_fill c s t)))]"
proof (induction s arbitrary: t)
  case (Cons x xs)
  have "split_fill c xs [] \<noteq> []" using split_fill_length [of c xs "[]"] by (metis length_0_conv nat.distinct(1))
  then show ?case using Cons.IH [of "[]"] Cons.IH [of "t @ [x]"] by simp
qed simp

section \<open>Properties\<close>

text \<open>
  The blocks of a file. \<open>div_round_up\<close> rounds to the nearest multiple and not up: a file of
  fewer than half a block occupies no block at all.
\<close>

theorem div_round_up_nearest:
  assumes "n + 2048 < 4294967296"
  shows "\<exists>b. div_round_up (word_of_nat n) 4096 = Some b \<and> unat b = (n + 2048) div 4096
    \<and> (unat b = 0 \<longleftrightarrow> n < 2048)"
proof -
  have h: "(4096 :: 32 word) div 2 = 2048" by simp
  have s: "unat ((word_of_nat n :: 32 word) + 2048) = n + 2048"
    using assms by (simp add: unat_word_ariths unat_of_nat take_bit_eq_mod)
  have "unat (((word_of_nat n :: 32 word) + 2048) div 4096) = (n + 2048) div 4096"
    by (simp add: unat_div s)
  moreover have "(n + 2048) div 4096 = 0 \<longleftrightarrow> n < 2048" by (simp add: div_eq_0_iff)
  ultimately show ?thesis by (simp add: div_round_up_def h)
qed

theorem div_round_up_nearest_witness:
  "\<exists>b. div_round_up (word_of_nat 1000) 4096 = Some b \<and> unat b = (1000 + 2048) div 4096 \<and> (unat b = 0 \<longleftrightarrow> 1000 < (2048::nat))"
  by (rule div_round_up_nearest) simp

text \<open>
  \<open>split\<close> stores exactly the pieces between the separators, in arrays of their size, and
  terminates all of them with a \<open>NUL\<close> except the last.
\<close>

theorem split_str_pieces:
  "\<exists>ps. split_on c str = ps \<and> fst (split_str str c) = length ps
    \<and> map snd (snd (split_str str c)) = map (\<lambda>p. p @ [CHR 0x00]) (butlast ps) @ [last ps]
    \<and> map fst (snd (split_str str c)) = map (\<lambda>p. Suc (length p)) ps"
proof -
  obtain ps where ps: "split_on c str = ps" "split_fill c str [] = map (\<lambda>p. p @ [CHR 0x00]) (butlast ps) @ [last ps]"
    using split_fill_eq [of c "[]" str] by auto
  have ne: "ps \<noteq> []" using ps(1) split_on_nonempty by metis
  have len: "length ps = Suc (length (filter (\<lambda>x. x = c) str))"
    using split_fill_length [of c str "[]"] ne by (simp add: ps(2) length_butlast)
  have "split_sizes c str 1 = map length (butlast (split_fill c str [])) @ [Suc (length (last (split_fill c str [])))]"
    using split_fits [of c str "[]"] by simp
  also have "\<dots> = map (\<lambda>p. Suc (length p)) (butlast ps @ [last ps])" by (simp add: ps(2))
  finally have "split_sizes c str 1 = map (\<lambda>p. Suc (length p)) ps" using ne by simp
  then show ?thesis using ps len split_sizes_length [of c str 1] split_fill_length [of c str "[]"]
    by (simp add: split_str_def)
qed

end
