(* ===== verification/Ram_Files.thy ===== *)
theory Ram_Files
  imports Ram_Utils
begin

text \<open>
  The data model of the RAM disk, \<open>hw4/ramdisk.h\<close>: files and directories as objects of a store, and the
  lists of directory entries. A pointer to a file is an address. The field \<open>data\<close> is not set by
  \<open>create_rd_file\<close>; what the fresh memory holds there is the parameter \<open>junk\<close>.
\<close>

section \<open>Files\<close>

datatype rd_file_type = REGULAR | DIRECTORY

definition BYTES_PER_BLOCK :: nat where "BYTES_PER_BLOCK = 4096"
definition DIRECTORY_BYTES :: nat where "DIRECTORY_BYTES = 4096"
definition DEFAULT_DIRECTORY_PERMISSION :: int where "DEFAULT_DIRECTORY_PERMISSION = 438"
definition DEFAULT_FILE_PERMISSION :: int where "DEFAULT_FILE_PERMISSION = 438"

text \<open>A pointer to bytes: \<open>NULL\<close>, an indeterminate value, or an allocated array.\<close>

datatype dptr = NullPtr | Wild | Buf string

record rd_file =
  ftype :: rd_file_type
  fname :: string
  fpath :: string
  fparent :: ptr
  fsize :: nat
  fdata :: dptr
  fopened :: bool
  ffiles :: "addr list"

type_synonym fheap = "addr \<Rightarrow> rd_file option"

definition get_rd_file_path :: "rd_file \<Rightarrow> string" where
  "get_rd_file_path f = fpath f @ ''/'' @ fname f"

definition create_rd_file :: "dptr \<Rightarrow> string option \<Rightarrow> string option \<Rightarrow> rd_file_type \<Rightarrow> rd_file option" where
  "create_rd_file junk nm pth ty = (case (nm, pth) of
       (Some n, Some p) \<Rightarrow> Some \<lparr>ftype = ty, fname = n, fpath = p, fparent = None,
          fsize = (if ty = REGULAR then 0 else DIRECTORY_BYTES), fdata = junk, fopened = False, ffiles = []\<rparr>
     | _ \<Rightarrow> None)"

definition free_file :: "fheap \<Rightarrow> addr \<Rightarrow> fheap option" where
  "free_file h a = do { f \<leftarrow> h a; if fdata f = Wild then None else Some (h(a := None)) }"

section \<open>Lists of directory entries\<close>

definition make_node :: "addr \<Rightarrow> addr list" where
  "make_node a = [a]"

text \<open>\<open>push\<close> follows a non-\<open>NULL\<close> list to its last node.\<close>

fun push_node :: "addr list \<Rightarrow> addr \<Rightarrow> addr list option" where
  "push_node [] a = None"
| "push_node [x] a = Some (x # make_node a)"
| "push_node (x # y # ys) a = do { r \<leftarrow> push_node (y # ys) a; Some (x # r) }"

fun delete_item :: "fheap \<Rightarrow> addr list \<Rightarrow> addr \<Rightarrow> (fheap \<times> addr list) option" where
  "delete_item h [] item = Some (h, [])"
| "delete_item h (x # xs) item =
     (if x = item then do { h' \<leftarrow> free_file h x; Some (h', xs) }
      else do { (h', r) \<leftarrow> delete_item h xs item; Some (h', x # r) })"

text \<open>The loop of \<open>get_count\<close> after the first node.\<close>

fun count_rest :: "addr list \<Rightarrow> nat \<Rightarrow> nat" where
  "count_rest (x # y # ys) count = count_rest (y # ys) (Suc count)"
| "count_rest xs count = count"

definition get_count :: "addr list \<Rightarrow> nat" where
  "get_count xs = (if xs \<noteq> [] then count_rest xs 1 else 0)"

text \<open>Adding an entry to a directory's list, empty or not, as the operations do.\<close>

definition add_entry :: "addr list \<Rightarrow> addr \<Rightarrow> addr list option" where
  "add_entry xs a = (if xs \<noteq> [] then push_node xs a else Some (make_node a))"

lemma push_node_append: "xs \<noteq> [] \<Longrightarrow> push_node xs a = Some (xs @ [a])"
  by (induction xs a rule: push_node.induct) (auto simp: make_node_def)

lemma add_entry_append [simp]: "add_entry xs a = Some (xs @ [a])"
  by (simp add: add_entry_def push_node_append make_node_def)

lemma count_rest_length: "xs \<noteq> [] \<Longrightarrow> count_rest xs n = n + (length xs - 1)"
  by (induction xs n rule: count_rest.induct) auto

lemma get_count_length [simp]: "get_count xs = length xs"
  by (cases xs) (auto simp: get_count_def count_rest_length)

lemma delete_item_remove1:
  "delete_item h xs a = (if a \<in> set xs then (case free_file h a of None \<Rightarrow> None | Some h' \<Rightarrow> Some (h', remove1 a xs))
     else Some (h, xs))"
  by (induction xs) (auto split: option.splits bind_splits)

end
