(* ===== verification/Ramdisk.thy ===== *)
theory Ramdisk
  imports Ram_Files
begin

text \<open>
  The operations of the RAM disk, \<open>hw4/ramdisk.c\<close>, that FUSE calls, over the record \<open>ramdisk\<close> of its
  global variables and the store of its files. A result is the number the C function returns, with a
  negated \<open>errno\<close> on failure, and the new state; \<open>None\<close> where the code has no defined behaviour. Paths are
  optional strings, \<open>None\<close> being \<open>NULL\<close>.
\<close>

section \<open>State\<close>

record ramdisk =
  max_bytes :: int
  current_bytes :: int
  rd_uid :: nat
  rd_gid :: nat
  rd_root :: addr
  heap :: fheap
  fresh :: addr

definition ENOENT :: int where "ENOENT = 2"
definition EPERM :: int where "EPERM = 1"
definition EEXIST :: int where "EEXIST = 17"
definition ENOTDIR :: int where "ENOTDIR = 20"
definition EISDIR :: int where "EISDIR = 21"
definition EFBIG :: int where "EFBIG = 27"
definition ENOSPC :: int where "ENOSPC = 28"
definition ENOTEMPTY :: int where "ENOTEMPTY = 39"

lemmas errno_defs = ENOENT_def EPERM_def EEXIST_def ENOTDIR_def EISDIR_def EFBIG_def ENOSPC_def ENOTEMPTY_def

definition memory_available :: "ramdisk \<Rightarrow> int \<Rightarrow> bool" where
  "memory_available s bytes \<longleftrightarrow> current_bytes s + bytes \<le> max_bytes s"

record stat =
  st_time :: int
  st_uid :: nat
  st_gid :: nat
  st_dev :: nat
  st_nlink :: nat
  st_size :: nat
  st_mode :: int
  st_blksize :: nat
  st_blocks :: nat

text \<open>The three times are all the present time. \<open>S_IFDIR\<close> and \<open>S_IFREG\<close> are disjoint from the permissions.\<close>

definition S_IFDIR :: int where "S_IFDIR = 16384"
definition S_IFREG :: int where "S_IFREG = 32768"

definition fill_stats :: "int \<Rightarrow> ramdisk \<Rightarrow> rd_file \<Rightarrow> stat option" where
  "fill_stats now s f =
     (if ftype f = DIRECTORY
      then Some \<lparr>st_time = now, st_uid = rd_uid s, st_gid = rd_gid s, st_dev = 1,
        st_nlink = 2 + get_count (ffiles f), st_size = DIRECTORY_BYTES, st_mode = S_IFDIR + DEFAULT_DIRECTORY_PERMISSION,
        st_blksize = BYTES_PER_BLOCK, st_blocks = DIRECTORY_BYTES div BYTES_PER_BLOCK\<rparr>
      else do {
        b \<leftarrow> div_round_up (word_of_nat (fsize f)) (word_of_nat BYTES_PER_BLOCK);
        Some \<lparr>st_time = now, st_uid = rd_uid s, st_gid = rd_gid s, st_dev = 1,
          st_nlink = 1, st_size = fsize f, st_mode = S_IFREG + DEFAULT_FILE_PERMISSION,
          st_blksize = BYTES_PER_BLOCK, st_blocks = unat b\<rparr> })"

section \<open>Paths\<close>

definition root_file :: "ramdisk \<Rightarrow> rd_file option" where
  "root_file s = heap s (rd_root s)"

text \<open>\<open>matches(path, root->name)\<close>; comparing a \<open>NULL\<close> path is undefined.\<close>

definition is_root :: "ramdisk \<Rightarrow> string option \<Rightarrow> bool option" where
  "is_root s path = do { p \<leftarrow> path; r \<leftarrow> root_file s; Some (p = fname r) }"

definition valid_path :: "ramdisk \<Rightarrow> string option \<Rightarrow> bool option" where
  "valid_path s path = (case path of
       None \<Rightarrow> Some False
     | Some p \<Rightarrow> do {
         m \<leftarrow> is_root s path;
         if m then Some False else do { e \<leftarrow> ends_with p ''/''; Some (\<not> e) } })"

fun get_file :: "fheap \<Rightarrow> string \<Rightarrow> addr list \<Rightarrow> ptr option" where
  "get_file h nm [] = Some None"
| "get_file h nm (a # as) = do { f \<leftarrow> h a; if nm = fname f then Some (Some a) else get_file h nm as }"

text \<open>The loop of \<open>get_dirs\<close> over the characters; a name is copied from behind the last \<open>/\<close> seen.\<close>

definition name_at :: "string \<Rightarrow> nat \<Rightarrow> nat \<Rightarrow> string" where
  "name_at p start e = take (e - start - 1) (drop (start + 1) p)"

function dirs_loop :: "string \<Rightarrow> nat \<Rightarrow> nat \<Rightarrow> int \<Rightarrow> string list \<Rightarrow> nat \<times> int \<times> string list" where
  "dirs_loop p i start count names =
     (if i < length p then
        (if p ! i = CHR ''/'' then
           (if count + 1 = 0 then dirs_loop p (i + 1) i (count + 1) names
            else dirs_loop p (i + 1) i (count + 1) (names @ [name_at p start i]))
         else dirs_loop p (i + 1) start count names)
      else (start, count, names))"
  by pat_completeness auto
termination by (relation "measure (\<lambda>(p, i, start, count, names). length p - i)") auto

declare dirs_loop.simps [simp del]

text \<open>The array has one entry more than \<open>path\<close> has slashes; without a slash the last name is stored at index -1.\<close>

definition get_dirs :: "string \<Rightarrow> (string list \<times> int) option" where
  "get_dirs p = (let (start, count, names) = dirs_loop p 0 0 (- 1) []
     in if count < 0 \<or> int (count_occurences (CHR ''/'') p) < count then None
        else Some (names @ [name_at p start (length p)], count))"

fun parent_loop :: "fheap \<Rightarrow> string list \<Rightarrow> addr \<Rightarrow> ptr option" where
  "parent_loop h [] parent = Some (Some parent)"
| "parent_loop h (n # ns) parent = do {
     p \<leftarrow> h parent;
     r \<leftarrow> get_file h n (ffiles p);
     case r of
       None \<Rightarrow> Some None
     | Some a \<Rightarrow> do { f \<leftarrow> h a; if ftype f = REGULAR then Some None else parent_loop h ns a } }"

definition get_parent_directory :: "ramdisk \<Rightarrow> string list \<Rightarrow> int \<Rightarrow> ptr option" where
  "get_parent_directory s names count =
     (if count < 0 then Some None else parent_loop (heap s) (take (nat count) names) (rd_root s))"

text \<open>\<open>get_rd_file\<close> reads \<open>parent_file->files\<close> without a check for \<open>NULL\<close>.\<close>

definition get_rd_file :: "ramdisk \<Rightarrow> string option \<Rightarrow> ptr option" where
  "get_rd_file s path = do {
     p \<leftarrow> path;
     (names, count) \<leftarrow> get_dirs p;
     parent \<leftarrow> get_parent_directory s names count;
     a \<leftarrow> parent;
     f \<leftarrow> heap s a;
     get_file (heap s) (names ! nat count) (ffiles f) }"

definition put_file :: "addr \<Rightarrow> rd_file \<Rightarrow> ramdisk \<Rightarrow> ramdisk" where
  "put_file a f s = s\<lparr>heap := (heap s)(a \<mapsto> f)\<rparr>"

section \<open>Opening\<close>

definition rd_opendir :: "ramdisk \<Rightarrow> string option \<Rightarrow> int option" where
  "rd_opendir s path = do {
     m \<leftarrow> is_root s path;
     if m then Some 0
     else do {
       r \<leftarrow> get_rd_file s path;
       case r of
         None \<Rightarrow> Some (- ENOENT)
       | Some a \<Rightarrow> do { f \<leftarrow> heap s a; Some (if ftype f \<noteq> DIRECTORY then - ENOTDIR else 0) } } }"

definition O_RDONLY :: int where "O_RDONLY = 0"
definition O_RDWR :: int where "O_RDWR = 2"
definition O_APPEND :: int where "O_APPEND = 1024"

definition flag_set :: "int \<Rightarrow> int \<Rightarrow> bool" where
  "flag_set flags m \<longleftrightarrow> and flags m \<noteq> 0"

definition rd_open :: "ramdisk \<Rightarrow> string option \<Rightarrow> int \<Rightarrow> (int \<times> ramdisk) option" where
  "rd_open s path flags = do {
     v \<leftarrow> valid_path s path;
     if \<not> v then Some (- ENOENT, s)
     else do {
       r \<leftarrow> get_rd_file s path;
       case r of
         None \<Rightarrow> Some (- ENOENT, s)
       | Some a \<Rightarrow> do {
           f \<leftarrow> heap s a;
           if ftype f = DIRECTORY \<and> (flag_set flags O_RDONLY \<or> flag_set flags O_RDWR \<or> flag_set flags O_APPEND)
           then Some (- EISDIR, s)
           else Some (0, put_file a (f\<lparr>fopened := True\<rparr>) s) } } }"

definition rd_flush :: "ramdisk \<Rightarrow> string option \<Rightarrow> int option" where
  "rd_flush s path = do {
     v \<leftarrow> valid_path s path;
     if \<not> v then Some (- ENOENT)
     else do { r \<leftarrow> get_rd_file s path; Some (if r = None then - ENOENT else 0) } }"

section \<open>Writing and reading\<close>

text \<open>\<open>strncpy(dst, src, n)\<close>: it stops at a \<open>NUL\<close> and fills the rest with \<open>NUL\<close>s.\<close>

definition strncpy :: "string \<Rightarrow> dptr \<Rightarrow> nat \<Rightarrow> string option" where
  "strncpy dst src n =
     (if n = 0 then Some dst
      else if length dst < n then None
      else case src of
          Buf d \<Rightarrow> (let t = takeWhile (\<lambda>c. c \<noteq> CHR 0x00) (take n d)
            in if length d < n \<and> length t = length d then None
               else Some (t @ replicate (n - length t) (CHR 0x00) @ drop n dst))
        | _ \<Rightarrow> None)"

text \<open>\<open>data[i] = buffer[j]\<close> for all of the buffer, with \<open>int i\<close>.\<close>

fun write_loop :: "dptr \<Rightarrow> nat \<Rightarrow> string \<Rightarrow> dptr option" where
  "write_loop d i [] = Some d"
| "write_loop d i (b # bs) = (case d of
       Buf xs \<Rightarrow> if i < length xs \<and> int i < INT_MAX then write_loop (Buf (xs[i := b])) (Suc i) bs else None
     | _ \<Rightarrow> None)"

text \<open>The growth of a file to \<open>size_after_write\<close> bytes; the result says whether the memory suffices.\<close>

definition grow_file :: "int \<Rightarrow> ramdisk \<Rightarrow> rd_file \<Rightarrow> (rd_file \<times> int) option option" where
  "grow_file size_after_write s f =
     (if u64 size_after_write > int (fsize f) then
        (let bytes_to_allocate = int32 (u64 size_after_write - int (fsize f)) in
         if \<not> memory_available s bytes_to_allocate then Some None
         else do {
           let n = nat (u64 (bytes_to_allocate + int (fsize f)));
           temp_file \<leftarrow> strncpy (replicate n (CHR 0x00)) (fdata f) (fsize f);
           if fsize f > 0 \<and> fdata f = Wild then None
           else Some (Some (f\<lparr>fdata := Buf temp_file, fsize := n\<rparr>, current_bytes s + bytes_to_allocate)) })
      else Some (Some (f, current_bytes s)))"

text \<open>
  The buffer holds the bytes to write. The last statement \<open>file->data[i];\<close> names the byte behind the last one written, which at
  the end of the file is not allocated, and throws its value away. Compilers drop it, and it is left out here; taken by
  the letter, it makes every write up to the end of a file undefined.
\<close>

definition rd_write :: "ramdisk \<Rightarrow> string option \<Rightarrow> string \<Rightarrow> int \<Rightarrow> (int \<times> ramdisk) option" where
  "rd_write s path buffer offset = do {
     v \<leftarrow> valid_path s path;
     if \<not> v then Some (- ENOENT, s)
     else do {
       r \<leftarrow> get_rd_file s path;
       case r of
         None \<Rightarrow> Some (- ENOENT, s)
       | Some a \<Rightarrow> do {
           f \<leftarrow> heap s a;
           if u64 offset > int (fsize f) then Some (- EFBIG, s)
           else do {
             let size_after_write = int32 (u64 (offset + int (length buffer)));
             g \<leftarrow> grow_file size_after_write s f;
             case g of
               None \<Rightarrow> Some (- ENOSPC, s)
             | Some (f1, cb) \<Rightarrow>
                 if offset < 0 \<or> \<not> int_range offset then None
                 else do {
                   d \<leftarrow> write_loop (fdata f1) (nat offset) buffer;
                   Some (int32 (int (length buffer)), put_file a (f1\<lparr>fdata := d\<rparr>) (s\<lparr>current_bytes := cb\<rparr>)) } } } } }"

text \<open>
  \<open>rd_read\<close> into a buffer of \<open>cap\<close> bytes: the result and the bytes stored. The \<open>NUL\<close> behind the data is
  stored too.
\<close>

definition rd_read :: "ramdisk \<Rightarrow> string option \<Rightarrow> nat \<Rightarrow> nat \<Rightarrow> int \<Rightarrow> (int \<times> string) option" where
  "rd_read s path cap sz offset = do {
     v \<leftarrow> valid_path s path;
     if \<not> v then Some (- ENOENT, [])
     else do {
       r \<leftarrow> get_rd_file s path;
       case r of
         None \<Rightarrow> Some (- ENOENT, [])
       | Some a \<Rightarrow> do {
           f \<leftarrow> heap s a;
           if ftype f = DIRECTORY then Some (- EISDIR, [])
           else if fdata f = NullPtr then Some (0, [])
           else if u64 offset < int (fsize f) then
             (let n = (if u64 (offset + int sz) > int (fsize f) then nat (int (fsize f) - u64 offset) else sz) in
              case fdata f of
                Buf d \<Rightarrow> if nat (u64 offset) + n \<le> length d \<and> n < cap
                  then Some (int32 (int n), take n (drop (nat (u64 offset)) d) @ [CHR 0x00]) else None
              | _ \<Rightarrow> None)
           else Some (0, []) } } }"

section \<open>Creating\<close>

text \<open>Allocating a file and entering it in its parent directory.\<close>

definition link_file :: "addr \<Rightarrow> rd_file \<Rightarrow> ramdisk \<Rightarrow> ramdisk option" where
  "link_file pa f s = do {
     p \<leftarrow> heap s pa;
     fs \<leftarrow> add_entry (ffiles p) (fresh s);
     Some (s\<lparr>heap := (heap s)(fresh s \<mapsto> f\<lparr>fparent := Some pa\<rparr>, pa \<mapsto> p\<lparr>ffiles := fs\<rparr>), fresh := Suc (fresh s)\<rparr>) }"

definition rd_create :: "dptr \<Rightarrow> ramdisk \<Rightarrow> string option \<Rightarrow> (int \<times> ramdisk) option" where
  "rd_create junk s path = do {
     v \<leftarrow> valid_path s path;
     if \<not> v then Some (- EPERM, s)
     else do {
       p \<leftarrow> path;
       (names, count) \<leftarrow> get_dirs p;
       r \<leftarrow> get_parent_directory s names count;
       case r of
         None \<Rightarrow> Some (- ENOENT, s)
       | Some pa \<Rightarrow> do {
           pf \<leftarrow> heap s pa;
           case create_rd_file junk (Some (names ! nat count)) (Some (fname pf)) REGULAR of
             None \<Rightarrow> Some (- EPERM, s)
           | Some f \<Rightarrow> do { s' \<leftarrow> link_file pa f s; Some (0, s') } } } }"

definition rd_mkdir :: "dptr \<Rightarrow> ramdisk \<Rightarrow> string option \<Rightarrow> (int \<times> ramdisk) option" where
  "rd_mkdir junk s path = (case path of
       None \<Rightarrow> Some (- ENOTDIR, s)
     | Some p \<Rightarrow> do {
         m \<leftarrow> is_root s path;
         if m then Some (- ENOTDIR, s)
         else if \<not> memory_available s (int DIRECTORY_BYTES) then Some (- ENOSPC, s)
         else do {
           (names, count) \<leftarrow> get_dirs p;
           r \<leftarrow> get_parent_directory s names count;
           case r of
             None \<Rightarrow> Some (- ENOENT, s)
           | Some pa \<Rightarrow> do {
               pf \<leftarrow> heap s pa;
               g \<leftarrow> get_file (heap s) (names ! nat count) (ffiles pf);
               case g of
                 Some a \<Rightarrow> Some (- EEXIST, s)
               | None \<Rightarrow> do {
                   new_dir \<leftarrow> create_rd_file junk (Some (names ! nat count)) (Some (fname pf)) DIRECTORY;
                   s' \<leftarrow> link_file pa new_dir s;
                   Some (0, s'\<lparr>current_bytes := current_bytes s' + int DIRECTORY_BYTES\<rparr>) } } } })"

section \<open>Attributes and directories\<close>

text \<open>The entry that \<open>rd_getattr\<close> and \<open>rd_readdir\<close> look up: the result is the errno, or the file.\<close>

definition rd_getattr :: "int \<Rightarrow> ramdisk \<Rightarrow> string option \<Rightarrow> (int \<times> stat option) option" where
  "rd_getattr now s path = (case path of
       None \<Rightarrow> Some (- EPERM, None)
     | Some p \<Rightarrow> do {
         (names, count) \<leftarrow> get_dirs p;
         m \<leftarrow> is_root s path;
         r \<leftarrow> (if m then Some (Some (rd_root s)) else get_parent_directory s names count);
         case r of
           None \<Rightarrow> Some (- ENOENT, None)
         | Some pa \<Rightarrow> do {
             pf \<leftarrow> heap s pa;
             g \<leftarrow> (if m then Some (Some (rd_root s)) else get_file (heap s) (names ! nat count) (ffiles pf));
             case g of
               None \<Rightarrow> Some (- ENOENT, None)
             | Some a \<Rightarrow> do { f \<leftarrow> heap s a; st \<leftarrow> fill_stats now s f; Some (0, Some st) } } })"

fun fill_entries :: "int \<Rightarrow> ramdisk \<Rightarrow> addr list \<Rightarrow> (string \<times> stat) list option" where
  "fill_entries now s [] = Some []"
| "fill_entries now s (a # as) = do {
     f \<leftarrow> heap s a;
     st \<leftarrow> fill_stats now s f;
     es \<leftarrow> fill_entries now s as;
     Some ((fname f, st) # es) }"

definition rd_readdir :: "int \<Rightarrow> ramdisk \<Rightarrow> string option \<Rightarrow> (int \<times> (string \<times> stat) list) option" where
  "rd_readdir now s path = (case path of
       None \<Rightarrow> Some (- EPERM, [])
     | Some p \<Rightarrow> do {
         (names, count) \<leftarrow> get_dirs p;
         r \<leftarrow> get_parent_directory s names count;
         case r of
           None \<Rightarrow> Some (- ENOENT, [])
         | Some pa \<Rightarrow> do {
             m \<leftarrow> is_root s path;
             pf \<leftarrow> heap s pa;
             g \<leftarrow> (if m then Some (Some (rd_root s)) else get_file (heap s) (names ! nat count) (ffiles pf));
             case g of
               None \<Rightarrow> Some (- ENOENT, [])
             | Some a \<Rightarrow> do {
                 f \<leftarrow> heap s a;
                 if ftype f = REGULAR then Some (- ENOENT, [])
                 else do { es \<leftarrow> fill_entries now s (ffiles f); Some (0, es) } } } })"

section \<open>Removing\<close>

definition rd_unlink :: "ramdisk \<Rightarrow> string option \<Rightarrow> (int \<times> ramdisk) option" where
  "rd_unlink s path = (case path of
       None \<Rightarrow> Some (- EPERM, s)
     | Some p \<Rightarrow> do {
         m \<leftarrow> is_root s path;
         if m then Some (- EPERM, s)
         else do {
           (names, count) \<leftarrow> get_dirs p;
           r \<leftarrow> get_parent_directory s names count;
           case r of
             None \<Rightarrow> Some (- EPERM, s)
           | Some pa \<Rightarrow> do {
               pf \<leftarrow> heap s pa;
               g \<leftarrow> get_file (heap s) (names ! nat count) (ffiles pf);
               case g of
                 None \<Rightarrow> Some (- EPERM, s)
               | Some a \<Rightarrow> do {
                   f \<leftarrow> heap s a;
                   (h, fs) \<leftarrow> delete_item (heap s) (ffiles pf) a;
                   pf' \<leftarrow> h pa;
                   Some (0, s\<lparr>current_bytes := current_bytes s - int (fsize f), heap := h(pa \<mapsto> pf'\<lparr>ffiles := fs\<rparr>)\<rparr>) } } } })"

definition rd_rmdir :: "ramdisk \<Rightarrow> string option \<Rightarrow> (int \<times> ramdisk) option" where
  "rd_rmdir s path = (case path of
       None \<Rightarrow> Some (- EPERM, s)
     | Some p \<Rightarrow> do {
         m \<leftarrow> is_root s path;
         if m then Some (- EPERM, s)
         else do {
           r \<leftarrow> get_rd_file s path;
           case r of
             None \<Rightarrow> Some (- ENOENT, s)
           | Some a \<Rightarrow> do {
               f \<leftarrow> heap s a;
               if ftype f \<noteq> DIRECTORY then Some (- ENOTDIR, s)
               else if ffiles f \<noteq> [] then Some (- ENOTEMPTY, s)
               else do {
                 pa \<leftarrow> fparent f;
                 pf \<leftarrow> heap s pa;
                 (h, fs) \<leftarrow> delete_item (heap s) (ffiles pf) a;
                 pf' \<leftarrow> h pa;
                 Some (0, s\<lparr>heap := h(pa \<mapsto> pf'\<lparr>ffiles := fs\<rparr>), current_bytes := current_bytes s - int DIRECTORY_BYTES\<rparr>) } } } })"

section \<open>The rest of the interface\<close>

definition rd_access :: "string option \<Rightarrow> int" where "rd_access path = 0"
definition rd_utimens :: "string option \<Rightarrow> int" where "rd_utimens path = 0"
definition rd_rename :: "string option \<Rightarrow> string option \<Rightarrow> int" where "rd_rename source dest = 0"

definition rd_fgetattr :: "int \<Rightarrow> ramdisk \<Rightarrow> string option \<Rightarrow> (int \<times> stat option) option" where
  "rd_fgetattr now s path = rd_getattr now s path"

record statvfs =
  f_namemax :: nat
  f_frsize :: nat
  f_bsize :: nat
  f_blocks :: nat
  f_bavail :: nat
  f_bfree :: nat

definition rd_statfs :: "ramdisk \<Rightarrow> (int \<times> statvfs) option" where
  "rd_statfs s = do {
     used \<leftarrow> div_round_up (word_of_int (current_bytes s)) (word_of_nat BYTES_PER_BLOCK);
     free \<leftarrow> div_round_up (word_of_int (max_bytes s - current_bytes s)) (word_of_nat BYTES_PER_BLOCK);
     Some (0, \<lparr>f_namemax = 255, f_frsize = BYTES_PER_BLOCK, f_bsize = BYTES_PER_BLOCK,
       f_blocks = unat used, f_bavail = unat free, f_bfree = unat free\<rparr>) }"

text \<open>
  \<open>main\<close> up to the call of \<open>fuse_main\<close>: an exit status, or the initial state. The number of megabytes is
  multiplied as an \<open>int\<close>; with \<open>-f\<close> it is the argument behind the mount point, which may be missing.
\<close>

definition init_ramdisk :: "dptr \<Rightarrow> int \<Rightarrow> nat \<Rightarrow> nat \<Rightarrow> ramdisk option" where
  "init_ramdisk junk mb u g = do {
     r \<leftarrow> create_rd_file junk (Some ''/'') (Some []) DIRECTORY;
     Some \<lparr>max_bytes = mb, current_bytes = 0, rd_uid = u, rd_gid = g, rd_root = 0, heap = [0 \<mapsto> r], fresh = 1\<rparr> }"

definition ram_main :: "dptr \<Rightarrow> nat \<Rightarrow> nat \<Rightarrow> string list \<Rightarrow> (int + ramdisk) option" where
  "ram_main junk u g argv =
     (if length argv < 3 then Some (Inl 1)
      else do {
        arg \<leftarrow> (if argv ! 1 = ''-f'' then (if 3 < length argv then Some (argv ! 3) else None) else Some (argv ! 2));
        n \<leftarrow> atoi arg;
        k \<leftarrow> checked_int (n * 1024);
        mb \<leftarrow> checked_int (k * 1024);
        if mb < 0 then Some (Inl 1)
        else do { s \<leftarrow> init_ramdisk junk mb u g; Some (Inr s) } })"

end
