(* ===== verification/Ram_Inv.thy ===== *)
theory Ram_Inv
  imports Ramdisk
begin

text \<open>
  The shape of the RAM disk: paths and the walk along them, the invariant of the store (a tree of
  directories with distinct names, whose sizes add up to \<open>current_bytes\<close>), and the three changes of the
  store that the operations make: entering a file, changing the data of a file, removing a file.
\<close>

section \<open>Paths\<close>

definition good_name :: "string \<Rightarrow> bool" where
  "good_name n \<longleftrightarrow> n \<noteq> [] \<and> CHR ''/'' \<notin> set n"

definition path_of :: "string list \<Rightarrow> string" where
  "path_of ns = (if ns = [] then ''/'' else concat (map (\<lambda>n. CHR ''/'' # n) ns))"

lemma name_at_Suc:
  assumes "start < i" and "i < length p" and "p ! i = CHR ''/''"
  shows "drop (start + 1) p = name_at p start i @ CHR ''/'' # drop (i + 1) p"
proof -
  have "drop (start + 1) p = take (i - start - 1) (drop (start + 1) p) @ drop (i - start - 1) (drop (start + 1) p)"
    by (rule append_take_drop_id [symmetric])
  moreover have "drop (i - start - 1) (drop (start + 1) p) = drop i p" using assms(1) by simp
  moreover have "drop i p = CHR ''/'' # drop (i + 1) p" using assms(2,3) by (metis Cons_nth_drop_Suc Suc_eq_plus1)
  ultimately show ?thesis by (simp only: name_at_def)
qed

lemma name_at_no_slash:
  assumes "\<forall>j. start < j \<and> j < i \<longrightarrow> p ! j \<noteq> CHR ''/''" and "i \<le> length p"
  shows "CHR ''/'' \<notin> set (name_at p start i)"
proof
  assume "CHR ''/'' \<in> set (name_at p start i)"
  then obtain k where k: "k < length (name_at p start i)" "name_at p start i ! k = CHR ''/''"
    by (metis in_set_conv_nth)
  then have "k < i - start - 1" "p ! (start + 1 + k) = CHR ''/''" using assms(2) by (auto simp: name_at_def)
  then show False using assms(1) by (auto dest: spec [of _ "start + 1 + k"])
qed

lemma dirs_loop_split:
  assumes "start < i" and "i \<le> length p" and "0 \<le> count" and "\<forall>j. start < j \<and> j < i \<longrightarrow> p ! j \<noteq> CHR ''/''"
  shows "\<exists>start' names'. dirs_loop p i start count names
      = (start', count + int (length (split_on (CHR ''/'') (drop (start + 1) p))) - 1, names')
    \<and> names' @ [name_at p start' (length p)] = names @ split_on (CHR ''/'') (drop (start + 1) p)"
  using assms
proof (induction p i start count names rule: dirs_loop.induct)
  case (1 p i start count names)
  show ?case
  proof (cases "i < length p")
    case False
    then have "i = length p" using "1.prems"(2) by simp
    moreover have "drop (start + 1) p = name_at p start (length p)" by (simp add: name_at_def)
    moreover have "CHR ''/'' \<notin> set (name_at p start i)" using "1.prems" by (intro name_at_no_slash) auto
    ultimately show ?thesis by (simp add: dirs_loop.simps [of p] split_on_last)
  next
    case i: True
    show ?thesis
    proof (cases "p ! i = CHR ''/''")
      case True
      have n: "CHR ''/'' \<notin> set (name_at p start i)" using "1.prems" by (intro name_at_no_slash) auto
      have sp: "split_on (CHR ''/'') (drop (start + 1) p) = name_at p start i # split_on (CHR ''/'') (drop (i + 1) p)"
        by (simp only: name_at_Suc [OF "1.prems"(1) i True] split_on_piece [OF n])
      have c: "count + 1 \<noteq> 0" using "1.prems"(3) by simp
      have "\<exists>start' names'. dirs_loop p (i + 1) i (count + 1) (names @ [name_at p start i])
          = (start', count + 1 + int (length (split_on (CHR ''/'') (drop (i + 1) p))) - 1, names')
        \<and> names' @ [name_at p start' (length p)] = (names @ [name_at p start i]) @ split_on (CHR ''/'') (drop (i + 1) p)"
        by (rule "1.IH"(2) [OF i True c]) (use i "1.prems"(3) in auto)
      then show ?thesis using c i True by (simp add: dirs_loop.simps [of p i] sp [unfolded Suc_eq_plus1 [symmetric]])
    next
      case False
      have "\<exists>start' names'. dirs_loop p (i + 1) start count names
          = (start', count + int (length (split_on (CHR ''/'') (drop (start + 1) p))) - 1, names')
        \<and> names' @ [name_at p start' (length p)] = names @ split_on (CHR ''/'') (drop (start + 1) p)"
        by (rule "1.IH"(3) [OF i False]) (use i False "1.prems" in \<open>auto simp: less_Suc_eq\<close>)
      then show ?thesis using i False by (simp add: dirs_loop.simps [of p i])
    qed
  qed
qed

lemma length_split_on: "length (split_on d s) = Suc (length (filter (\<lambda>x. x = d) s))"
  by (induction d s rule: split_on.induct) (auto split: list.splits)

text \<open>\<open>get_dirs\<close> on a path that begins with a slash.\<close>

lemma get_dirs_split: "get_dirs (CHR ''/'' # p) = Some (split_on (CHR ''/'') p, int (length (split_on (CHR ''/'') p)) - 1)"
proof -
  obtain start' names' where
    l: "dirs_loop (CHR ''/'' # p) 1 0 0 [] = (start', int (length (split_on (CHR ''/'') p)) - 1, names')"
      "names' @ [name_at (CHR ''/'' # p) start' (length (CHR ''/'' # p))] = split_on (CHR ''/'') p"
    using dirs_loop_split [of 0 1 "CHR ''/'' # p" 0 "[]"] by auto
  have "dirs_loop (CHR ''/'' # p) 0 0 (- 1) [] = dirs_loop (CHR ''/'' # p) 1 0 0 []"
    by (simp add: dirs_loop.simps [of _ 0])
  then show ?thesis using l by (simp add: get_dirs_def count_occurences_eq length_split_on)
qed

lemma split_on_path:
  "\<forall>n \<in> set ns. CHR ''/'' \<notin> set n \<Longrightarrow> ns \<noteq> [] \<Longrightarrow> split_on (CHR ''/'') (tl (concat (map (\<lambda>n. CHR ''/'' # n) ns))) = ns"
proof (induction ns)
  case (Cons n ns)
  show ?case
  proof (cases ns)
    case Nil
    then show ?thesis using Cons.prems by (simp add: split_on_last)
  next
    case (Cons m ms)
    then have "concat (map (\<lambda>n. CHR ''/'' # n) ns) = CHR ''/'' # tl (concat (map (\<lambda>n. CHR ''/'' # n) ns))" by simp
    then have "split_on (CHR ''/'') (n @ concat (map (\<lambda>n. CHR ''/'' # n) ns)) = n # split_on (CHR ''/'') (tl (concat (map (\<lambda>n. CHR ''/'' # n) ns)))"
      using Cons.prems split_on_piece [of "CHR ''/''" n] by (metis list.set_intros(1))
    then show ?thesis using Cons.IH Cons.prems Cons by simp
  qed
qed simp

lemma get_dirs_path:
  assumes "\<forall>n \<in> set ns. good_name n" and "ns \<noteq> []"
  shows "get_dirs (path_of ns) = Some (ns, int (length ns) - 1)"
proof -
  have "path_of ns = CHR ''/'' # tl (concat (map (\<lambda>n. CHR ''/'' # n) ns))"
    using assms(2) by (cases ns) (simp_all add: path_of_def)
  then show ?thesis using get_dirs_split split_on_path [of ns] assms by (simp add: good_name_def)
qed

lemma path_of_last:
  assumes "\<forall>n \<in> set ns. good_name n" and "ns \<noteq> []"
  shows "path_of ns \<noteq> ''/''" and "ends_with (path_of ns) ''/'' = Some False"
proof -
  obtain ms n where ns: "ns = ms @ [n]" using assms(2) by (metis append_butlast_last_id)
  have n: "n \<noteq> []" "last n \<noteq> CHR ''/''" using assms(1) ns by (auto simp: good_name_def) (metis last_in_set)
  have p: "path_of ns = concat (map (\<lambda>n. CHR ''/'' # n) ms) @ CHR ''/'' # n" by (simp add: path_of_def ns)
  then have l: "last (path_of ns) \<noteq> CHR ''/''" using n by simp
  then show "path_of ns \<noteq> ''/''" by auto
  have "1 \<le> length (path_of ns)" by (simp add: p)
  moreover have "path_of ns \<noteq> r @ ''/''" for r using l by auto
  ultimately show "ends_with (path_of ns) ''/'' = Some False" using ends_with_suffix [of "''/''" "path_of ns"] by auto
qed

section \<open>Walking\<close>

text \<open>The entry of a directory with a given name, and the file at the end of a path.\<close>

definition name_of :: "fheap \<Rightarrow> addr \<Rightarrow> string" where
  "name_of h a = (case h a of None \<Rightarrow> [] | Some f \<Rightarrow> fname f)"

definition child :: "fheap \<Rightarrow> addr \<Rightarrow> string \<Rightarrow> addr option" where
  "child h a n = (case h a of None \<Rightarrow> None | Some f \<Rightarrow> find (\<lambda>c. name_of h c = n) (ffiles f))"

fun lookup :: "fheap \<Rightarrow> addr \<Rightarrow> string list \<Rightarrow> addr option" where
  "lookup h a [] = Some a"
| "lookup h a (n # ns) = do { c \<leftarrow> child h a n; lookup h c ns }"

lemma lookup_append: "lookup h a (xs @ ys) = do { b \<leftarrow> lookup h a xs; lookup h b ys }"
  by (induction h a xs rule: lookup.induct) (auto split: bind_splits)

lemma lookup_snoc: "lookup h a (ns @ [n]) = do { b \<leftarrow> lookup h a ns; child h b n }"
  by (simp add: lookup_append)

lemma find_SomeD: "find P xs = Some x \<Longrightarrow> P x \<and> x \<in> set xs"
  by (induction xs) (auto split: if_splits)

lemma find_distinct: "distinct (map f xs) \<Longrightarrow> x \<in> set xs \<Longrightarrow> find (\<lambda>y. f y = f x) xs = Some x"
  by (induction xs) auto

lemma find_append: "find P (xs @ ys) = (case find P xs of None \<Rightarrow> find P ys | Some x \<Rightarrow> Some x)"
  by (induction xs) auto

lemma find_remove1:
  "distinct (map f xs) \<Longrightarrow> find (\<lambda>y. f y = n) (remove1 a xs) = (if a \<in> set xs \<and> f a = n then None else find (\<lambda>y. f y = n) xs)"
  by (induction xs) (auto simp: find_None_iff image_iff)

section \<open>The tree\<close>

text \<open>
  The store is a tree: the root is a directory, every entry of a directory names it as its parent, every
  file but the root is an entry of its parent, and the names in a directory are distinct.
\<close>

definition wf_tree :: "fheap \<Rightarrow> addr \<Rightarrow> addr \<Rightarrow> bool" where
  "wf_tree h r fr \<longleftrightarrow>
     (\<exists>f. h r = Some f \<and> ftype f = DIRECTORY \<and> fname f = ''/'' \<and> fparent f = None)
   \<and> (\<forall>a f. h a = Some f \<longrightarrow> a < fr)
   \<and> (\<forall>a f c. h a = Some f \<longrightarrow> c \<in> set (ffiles f) \<longrightarrow> ftype f = DIRECTORY \<and> (\<exists>g. h c = Some g \<and> fparent g = Some a))
   \<and> (\<forall>c g a. h c = Some g \<longrightarrow> fparent g = Some a \<longrightarrow> (\<exists>f. h a = Some f \<and> c \<in> set (ffiles f)))
   \<and> (\<forall>a f. h a = Some f \<longrightarrow> distinct (map (name_of h) (ffiles f)))
   \<and> (\<forall>c g. h c = Some g \<longrightarrow> c \<noteq> r \<longrightarrow> fparent g \<noteq> None \<and> good_name (fname g))"

lemma wf_tree_root: "wf_tree h r fr \<Longrightarrow> \<exists>f. h r = Some f \<and> ftype f = DIRECTORY \<and> fname f = ''/'' \<and> fparent f = None"
  by (simp add: wf_tree_def)

lemma wf_tree_fresh: "wf_tree h r fr \<Longrightarrow> h a = Some f \<Longrightarrow> a < fr"
  by (simp add: wf_tree_def)

lemma wf_tree_entry:
  "wf_tree h r fr \<Longrightarrow> h a = Some f \<Longrightarrow> c \<in> set (ffiles f) \<Longrightarrow> ftype f = DIRECTORY \<and> (\<exists>g. h c = Some g \<and> fparent g = Some a)"
  by (simp add: wf_tree_def)

lemma wf_tree_parent: "wf_tree h r fr \<Longrightarrow> h c = Some g \<Longrightarrow> fparent g = Some a \<Longrightarrow> \<exists>f. h a = Some f \<and> c \<in> set (ffiles f)"
  by (simp add: wf_tree_def)

lemma wf_tree_names: "wf_tree h r fr \<Longrightarrow> h a = Some f \<Longrightarrow> distinct (map (name_of h) (ffiles f))"
  by (simp add: wf_tree_def)

lemma wf_tree_good: "wf_tree h r fr \<Longrightarrow> h c = Some g \<Longrightarrow> c \<noteq> r \<Longrightarrow> fparent g \<noteq> None \<and> good_name (fname g)"
  by (simp add: wf_tree_def)

lemmas wf_treeD = wf_tree_fresh wf_tree_entry wf_tree_parent wf_tree_names wf_tree_good

lemma wf_tree_not_root: "wf_tree h r fr \<Longrightarrow> h a = Some f \<Longrightarrow> r \<notin> set (ffiles f)"
  using wf_tree_root [of h r fr] wf_tree_entry [of h r fr a f r] by auto

lemma child_Some:
  assumes "wf_tree h r fr" and "child h a n = Some c"
  shows "\<exists>f g. h a = Some f \<and> c \<in> set (ffiles f) \<and> ftype f = DIRECTORY \<and> h c = Some g \<and> fparent g = Some a \<and> fname g = n"
proof -
  obtain f where f: "h a = Some f" "find (\<lambda>c. name_of h c = n) (ffiles f) = Some c"
    using assms(2) by (auto simp: child_def split: option.splits)
  then have "name_of h c = n" "c \<in> set (ffiles f)" by (auto dest: find_SomeD)
  then show ?thesis using wf_tree_entry [OF assms(1) f(1)] f(1) by (fastforce simp: name_of_def)
qed

lemma lookup_dom:
  assumes "wf_tree h r fr" and "lookup h r ns = Some a"
  shows "\<exists>f. h a = Some f"
proof (cases ns rule: rev_cases)
  case Nil
  then show ?thesis using assms wf_tree_root by fastforce
next
  case (snoc ms n)
  then obtain b where "child h b n = Some a" using assms(2) by (auto simp: lookup_snoc elim!: bind_SomeE)
  then show ?thesis using child_Some [OF assms(1)] by blast
qed

text \<open>A file is at the end of one path only.\<close>

lemma lookup_inj:
  assumes "wf_tree h r fr"
  shows "lookup h r xs = Some a \<Longrightarrow> lookup h r ys = Some a \<Longrightarrow> xs = ys"
proof (induction xs arbitrary: a ys rule: rev_induct)
  case Nil
  then have a: "a = r" by simp
  show ?case
  proof (cases ys rule: rev_cases)
    case (snoc zs z)
    then obtain b where "child h b z = Some r" using Nil a by (auto simp: lookup_snoc elim!: bind_SomeE)
    then show ?thesis using child_Some [OF assms] wf_tree_root [OF assms] by fastforce
  qed simp
next
  case (snoc x xs)
  then obtain b where b: "lookup h r xs = Some b" "child h b x = Some a" by (auto simp: lookup_snoc elim!: bind_SomeE)
  from child_Some [OF assms b(2)] obtain g where g: "h a = Some g" "fparent g = Some b" "fname g = x" by blast
  show ?case
  proof (cases ys rule: rev_cases)
    case Nil
    then show ?thesis using snoc.prems(2) g(1,2) wf_tree_root [OF assms] by auto
  next
    case (snoc zs z)
    then obtain b' where b': "lookup h r zs = Some b'" "child h b' z = Some a"
      using snoc.prems(2) by (auto simp: lookup_snoc elim!: bind_SomeE)
    then have "b' = b" "z = x" using child_Some [OF assms b'(2)] g by auto
    then show ?thesis using snoc.IH [OF b(1)] b'(1) snoc by simp
  qed
qed

section \<open>The walks of the code\<close>

lemma get_file_find:
  "\<forall>c \<in> set xs. \<exists>g. h c = Some g \<Longrightarrow> get_file h n xs = Some (find (\<lambda>c. name_of h c = n) xs)"
  by (induction xs) (auto simp: name_of_def)

lemma get_file_child:
  assumes "wf_tree h r fr" and "h a = Some f"
  shows "get_file h n (ffiles f) = Some (child h a n)"
  using get_file_find [of "ffiles f" h n] wf_tree_entry [OF assms] assms(2) by (auto simp: child_def)

text \<open>The directory at the end of a path.\<close>

definition dir_at :: "fheap \<Rightarrow> addr \<Rightarrow> string list \<Rightarrow> addr option" where
  "dir_at h r ns = do { a \<leftarrow> lookup h r ns; f \<leftarrow> h a; if ftype f = DIRECTORY then Some a else None }"

lemma parent_loop_lookup:
  assumes "wf_tree h r fr" and "h a = Some p" and "ftype p = DIRECTORY"
  shows "parent_loop h ns a = Some (dir_at h a ns)"
  using assms(2,3)
proof (induction ns arbitrary: a p)
  case Nil
  then show ?case by (simp add: dir_at_def)
next
  case (Cons n ns)
  note g = get_file_child [OF assms(1) Cons.prems(1), of n]
  show ?case
  proof (cases "child h a n")
    case None
    then show ?thesis using g Cons.prems by (simp add: dir_at_def)
  next
    case (Some c)
    then obtain q where q: "h c = Some q" using child_Some [OF assms(1)] by blast
    show ?thesis
    proof (cases "ftype q")
      case REGULAR
      have "child h c m = None" for m using child_Some [OF assms(1), of c m] q REGULAR by (cases "child h c m") auto
      then have "dir_at h c ns = None" using REGULAR q by (cases ns) (auto simp: dir_at_def)
      then show ?thesis using g Some Cons.prems(1) q REGULAR by (simp add: dir_at_def)
    next
      case DIRECTORY
      then show ?thesis using g Some Cons.prems(1) q Cons.IH [OF q] by (simp add: dir_at_def)
    qed
  qed
qed

section \<open>Changes of the store\<close>

subsection \<open>Changing the data of a file\<close>

definition same_shape :: "rd_file \<Rightarrow> rd_file \<Rightarrow> bool" where
  "same_shape f f' \<longleftrightarrow> ftype f' = ftype f \<and> fname f' = fname f \<and> fparent f' = fparent f \<and> ffiles f' = ffiles f"

lemma name_of_update: "h a = Some f \<Longrightarrow> same_shape f f' \<Longrightarrow> name_of (h(a \<mapsto> f')) = name_of h"
  by (auto simp: name_of_def same_shape_def fun_eq_iff)

lemma child_update: "h a = Some f \<Longrightarrow> same_shape f f' \<Longrightarrow> child (h(a \<mapsto> f')) b n = child h b n"
proof -
  assume a: "h a = Some f" "same_shape f f'"
  have n: "name_of (h(a \<mapsto> f')) = name_of h" by (rule name_of_update [where f = f]) fact+
  show ?thesis using a unfolding child_def n by (simp add: same_shape_def)
qed

lemma lookup_update: "h a = Some f \<Longrightarrow> same_shape f f' \<Longrightarrow> lookup (h(a \<mapsto> f')) b ns = lookup h b ns"
  by (induction ns arbitrary: b) (simp_all add: child_update)

lemma wf_tree_update:
  assumes "wf_tree h r fr" and "h a = Some f" and "same_shape f f'"
  shows "wf_tree (h(a \<mapsto> f')) r fr"
proof -
  have s: "ftype f' = ftype f" "fname f' = fname f" "fparent f' = fparent f" "ffiles f' = ffiles f"
    using assms(3) by (auto simp: same_shape_def)
  have old: "\<exists>g0. h c = Some g0 \<and> ftype g = ftype g0 \<and> fname g = fname g0 \<and> fparent g = fparent g0 \<and> ffiles g = ffiles g0"
    if "(h(a \<mapsto> f')) c = Some g" for c g using that assms(2) s by (auto split: if_splits)
  have new: "\<exists>g. (h(a \<mapsto> f')) c = Some g \<and> ftype g = ftype g0 \<and> fname g = fname g0 \<and> fparent g = fparent g0 \<and> ffiles g = ffiles g0"
    if "h c = Some g0" for c g0 using that assms(2) s by auto
  show ?thesis
    unfolding wf_tree_def name_of_update [of h a f f', OF assms(2,3)]
  proof (intro conjI allI impI)
    show "\<exists>f. (h(a \<mapsto> f')) r = Some f \<and> ftype f = DIRECTORY \<and> fname f = ''/'' \<and> fparent f = None"
      using wf_tree_root [OF assms(1)] new by (metis (full_types))
  next
    fix b g assume "(h(a \<mapsto> f')) b = Some g"
    then show "b < fr" using old wf_tree_fresh [OF assms(1)] by blast
  next
    fix b g c assume g: "(h(a \<mapsto> f')) b = Some g" "c \<in> set (ffiles g)"
    obtain g0 where g0: "h b = Some g0" "ftype g = ftype g0" "ffiles g = ffiles g0" using old [OF g(1)] by blast
    then obtain k where k: "ftype g0 = DIRECTORY" "h c = Some k" "fparent k = Some b"
      using wf_tree_entry [OF assms(1) g0(1), of c] g(2) by auto
    show "ftype g = DIRECTORY" using g0(2) k(1) by simp
    show "\<exists>g. (h(a \<mapsto> f')) c = Some g \<and> fparent g = Some b" using new [OF k(2)] k(3) by auto
  next
    fix c g b assume g: "(h(a \<mapsto> f')) c = Some g" "fparent g = Some b"
    obtain g0 where g0: "h c = Some g0" "fparent g = fparent g0" using old [OF g(1)] by blast
    then obtain q where q: "h b = Some q" "c \<in> set (ffiles q)" using wf_tree_parent [OF assms(1) g0(1)] g(2) by metis
    show "\<exists>f. (h(a \<mapsto> f')) b = Some f \<and> c \<in> set (ffiles f)" using new [OF q(1)] q(2) by auto
  next
    fix b g assume "(h(a \<mapsto> f')) b = Some g"
    then show "distinct (map (name_of h) (ffiles g))" using old wf_tree_names [OF assms(1)] by metis
  next
    fix c g assume "(h(a \<mapsto> f')) c = Some g" "c \<noteq> r"
    then show "fparent g \<noteq> None" "good_name (fname g)" using old wf_tree_good [OF assms(1)] by metis+
  qed
qed

subsection \<open>Entering a file\<close>

definition linked :: "fheap \<Rightarrow> addr \<Rightarrow> rd_file \<Rightarrow> rd_file \<Rightarrow> addr \<Rightarrow> fheap" where
  "linked h pa p f fr = h(fr \<mapsto> f\<lparr>fparent := Some pa\<rparr>, pa \<mapsto> p\<lparr>ffiles := ffiles p @ [fr]\<rparr>)"

lemma fresh_None: "wf_tree h r fr \<Longrightarrow> h fr = None"
  using wf_tree_fresh by (metis less_irrefl not_None_eq)

lemma fresh_not_entry: "wf_tree h r fr \<Longrightarrow> h a = Some f \<Longrightarrow> fr \<notin> set (ffiles f)"
  using wf_tree_entry fresh_None by fastforce

lemma linked_at:
  "linked h pa p f fr pa = Some (p\<lparr>ffiles := ffiles p @ [fr]\<rparr>)"
  "fr \<noteq> pa \<Longrightarrow> linked h pa p f fr fr = Some (f\<lparr>fparent := Some pa\<rparr>)"
  "c \<noteq> pa \<Longrightarrow> c \<noteq> fr \<Longrightarrow> linked h pa p f fr c = h c"
  by (simp_all add: linked_def)

lemma name_of_linked:
  assumes "wf_tree h r fr" and "h pa = Some p"
  shows "name_of (linked h pa p f fr) c = (if c = fr then fname f else name_of h c)"
  using fresh_None [OF assms(1)] assms(2) by (auto simp: name_of_def linked_def)

lemma child_linked:
  assumes "wf_tree h r fr" and "h pa = Some p" and "ffiles f = []" and "child h pa (fname f) = None"
  shows "child (linked h pa p f fr) b n = (if b = pa \<and> n = fname f then Some fr else child h b n)"
proof -
  have fr: "h fr = None" "fr \<noteq> pa" using fresh_None [OF assms(1)] assms(2) by auto
  have fi: "find (\<lambda>c. name_of (linked h pa p f fr) c = n) xs = find (\<lambda>c. name_of h c = n) xs" if "fr \<notin> set xs" for xs
    using that by (induction xs) (auto simp: name_of_linked [OF assms(1,2)])
  have nfr: "name_of (linked h pa p f fr) fr = fname f" by (simp add: name_of_linked [OF assms(1,2)])
  have ne: "fr \<notin> set (ffiles g)" if "h c = Some g" for c g by (rule fresh_not_entry [OF assms(1) that])
  consider "b = pa" | "b = fr" | "b \<noteq> pa" "b \<noteq> fr" by blast
  then show ?thesis
  proof cases
    case 1
    then have "child (linked h pa p f fr) b n = (case find (\<lambda>c. name_of h c = n) (ffiles p) of
        None \<Rightarrow> if fname f = n then Some fr else None | Some x \<Rightarrow> Some x)"
      using ne [OF assms(2)] nfr by (simp add: child_def find_append fi linked_at split: option.split)
    then show ?thesis using 1 assms(2,4) by (auto simp: child_def split: option.splits)
  next
    case 2
    then show ?thesis using fr assms(3) by (simp add: child_def linked_at)
  next
    case 3
    then show ?thesis using ne fi by (auto simp: child_def linked_at split: option.splits)
  qed
qed

lemma lookup_linked:
  assumes "wf_tree h r fr" and "h pa = Some p" and "ffiles f = []" and "child h pa (fname f) = None"
    and "lookup h r ns0 = Some pa"
  shows "lookup (linked h pa p f fr) r ns = (if ns = ns0 @ [fname f] then Some fr else lookup h r ns)"
proof (induction ns rule: rev_induct)
  case Nil
  then show ?case by simp
next
  case (snoc m ms)
  note ch = child_linked [OF assms(1-4)]
  show ?case
  proof (cases "ms = ns0 @ [fname f]")
    case True
    have "fr \<noteq> pa" using fresh_None [OF assms(1)] assms(2) by auto
    then have "child (linked h pa p f fr) fr m = None" using ch fresh_None [OF assms(1)] by (simp add: child_def)
    moreover have "lookup h r ms = None" using True assms(4,5) by (simp add: lookup_snoc)
    moreover have "lookup (linked h pa p f fr) r ms = Some fr" using snoc True by simp
    ultimately show ?thesis using True unfolding lookup_snoc [of _ _ ms m] by simp
  next
    case False
    have IH: "lookup (linked h pa p f fr) r ms = lookup h r ms" using snoc False by simp
    show ?thesis
    proof (cases "lookup h r ms")
      case None
      then have "ms @ [m] \<noteq> ns0 @ [fname f]" using assms(5) by auto
      then show ?thesis using None IH unfolding lookup_snoc [of _ _ ms m] by simp
    next
      case (Some b)
      have "b = pa \<longleftrightarrow> ms = ns0" using lookup_inj [OF assms(1) Some, of ns0] assms(5) Some by (metis option.inject)
      then show ?thesis using Some IH unfolding lookup_snoc [of _ _ ms m] by (simp add: ch)
    qed
  qed
qed

lemma wf_tree_linked:
  assumes "wf_tree h r fr" and "h pa = Some p" and "ftype p = DIRECTORY" and "ffiles f = []"
    and "child h pa (fname f) = None" and "good_name (fname f)"
  shows "wf_tree (linked h pa p f fr) r (Suc fr)"
proof -
  let ?h = "linked h pa p f fr"
  have fr: "h fr = None" "fr \<noteq> pa" "fr \<noteq> r" using fresh_None [OF assms(1)] assms(2) wf_tree_root [OF assms(1)] by auto
  note at = linked_at(1) [of h pa p f fr] linked_at(2) [OF fr(2), of h p f]
  have nm: "map (name_of ?h) (ffiles g) = map (name_of h) (ffiles g)" if "h c = Some g" for c g
    using fresh_not_entry [OF assms(1) that] by (simp add: name_of_linked [OF assms(1,2)] map_eq_conv)
  show ?thesis
    unfolding wf_tree_def
  proof (intro conjI allI impI)
    show "\<exists>f. ?h r = Some f \<and> ftype f = DIRECTORY \<and> fname f = ''/'' \<and> fparent f = None"
      using wf_tree_root [OF assms(1)] assms(2) fr(3) at(1) linked_at(3) [of r pa fr] by (cases "r = pa") auto
  next
    fix b g assume "?h b = Some g"
    then have "b = fr \<or> (\<exists>k. h b = Some k)" using assms(2) linked_at(3) [of b pa fr h p f] by (metis option.distinct(1) not_None_eq)
    then show "b < Suc fr" using wf_tree_fresh [OF assms(1)] by (auto intro: less_SucI)
  next
    fix b g c assume g: "?h b = Some g" "c \<in> set (ffiles g)"
    have b: "b \<noteq> fr" using g at(2) assms(4) by auto
    show "ftype g = DIRECTORY"
      using g b assms(3) at(1) wf_tree_entry [OF assms(1)] linked_at(3) [of b pa fr h p f] by (cases "b = pa") auto
    show "\<exists>g. ?h c = Some g \<and> fparent g = Some b"
    proof (cases "c = fr")
      case True
      then have "b = pa" using g b linked_at(3) [of b pa fr h p f] fresh_not_entry [OF assms(1)] by metis
      then show ?thesis using True at(2) by simp
    next
      case False
      then obtain k where "h c = Some k" "fparent k = Some b"
        using g b at(1) linked_at(3) [of b pa fr h p f] wf_tree_entry [OF assms(1)] assms(2) by (cases "b = pa") fastforce+
      then show ?thesis using False assms(2) at(1) linked_at(3) [of c pa fr h p f] by (cases "c = pa") auto
    qed
  next
    fix c g b assume g: "?h c = Some g" "fparent g = Some b"
    show "\<exists>f. ?h b = Some f \<and> c \<in> set (ffiles f)"
    proof (cases "c = fr")
      case True
      then show ?thesis using g at by auto
    next
      case False
      then obtain k where k: "h c = Some k" "fparent k = Some b"
        using g at(1) linked_at(3) [of c pa fr h p f] assms(2) by (cases "c = pa") auto
      then obtain q where q: "h b = Some q" "c \<in> set (ffiles q)" using wf_tree_parent [OF assms(1)] by blast
      then have "b \<noteq> fr" using fr(1) by auto
      then show ?thesis using q at(1) assms(2) linked_at(3) [of b pa fr h p f] by (cases "b = pa") auto
    qed
  next
    fix b g assume g: "?h b = Some g"
    consider "b = pa" | "b = fr" | "b \<noteq> pa" "b \<noteq> fr" by blast
    then show "distinct (map (name_of ?h) (ffiles g))"
    proof cases
      case 1
      have "fname f \<notin> name_of h ` set (ffiles p)" using assms(2,5) by (auto simp: child_def find_None_iff)
      moreover have "map (name_of ?h) (ffiles g) = map (name_of h) (ffiles p) @ [fname f]"
        using g 1 at(1) nm [OF assms(2)] name_of_linked [OF assms(1,2), of f fr] by auto
      ultimately show ?thesis using wf_tree_names [OF assms(1,2)] by simp
    next
      case 2
      then show ?thesis using g at(2) assms(4) by auto
    next
      case 3
      then show ?thesis using g linked_at(3) [of b pa fr h p f] nm wf_tree_names [OF assms(1)] by metis
    qed
  next
    fix c g assume g: "?h c = Some g" "c \<noteq> r"
    then show "fparent g \<noteq> None" "good_name (fname g)"
      using at assms(2,6) linked_at(3) [of c pa fr h p f] wf_tree_good [OF assms(1)] by (cases "c = pa"; cases "c = fr"; auto)+
  qed
qed

subsection \<open>Removing a file\<close>

definition unlinked :: "fheap \<Rightarrow> addr \<Rightarrow> rd_file \<Rightarrow> addr \<Rightarrow> fheap" where
  "unlinked h pa p a = h(a := None, pa \<mapsto> p\<lparr>ffiles := remove1 a (ffiles p)\<rparr>)"

lemma unlinked_at:
  "unlinked h pa p a pa = Some (p\<lparr>ffiles := remove1 a (ffiles p)\<rparr>)"
  "a \<noteq> pa \<Longrightarrow> unlinked h pa p a a = None"
  "c \<noteq> pa \<Longrightarrow> c \<noteq> a \<Longrightarrow> unlinked h pa p a c = h c"
  by (simp_all add: unlinked_def)

lemma name_of_unlinked: "h pa = Some p \<Longrightarrow> c \<noteq> a \<Longrightarrow> name_of (unlinked h pa p a) c = name_of h c"
  by (auto simp: name_of_def unlinked_def)

lemma wf_tree_distinct: "wf_tree h r fr \<Longrightarrow> h a = Some f \<Longrightarrow> distinct (ffiles f)"
  using wf_tree_names by (auto simp: distinct_map)

text \<open>A leaf \<open>a\<close> with parent \<open>pa\<close>.\<close>

definition leaf_of :: "fheap \<Rightarrow> addr \<Rightarrow> rd_file \<Rightarrow> addr \<Rightarrow> rd_file \<Rightarrow> bool" where
  "leaf_of h pa p a f \<longleftrightarrow> h pa = Some p \<and> h a = Some f \<and> fparent f = Some pa \<and> ffiles f = []"

lemma leaf_facts:
  assumes "wf_tree h r fr" and "leaf_of h pa p a f"
  shows "a \<in> set (ffiles p)" "a \<noteq> pa" "a \<noteq> r" "name_of h a = fname f"
    "\<And>b g. h b = Some g \<Longrightarrow> a \<in> set (ffiles g) \<Longrightarrow> b = pa"
proof -
  have f: "h pa = Some p" "h a = Some f" "fparent f = Some pa" "ffiles f = []" using assms(2) by (auto simp: leaf_of_def)
  then show i: "a \<in> set (ffiles p)" using wf_tree_parent [OF assms(1)] by fastforce
  show "a \<noteq> pa" using i f by auto
  show "a \<noteq> r" using f wf_tree_root [OF assms(1)] by auto
  show "name_of h a = fname f" using f by (simp add: name_of_def)
  show "b = pa" if "h b = Some g" "a \<in> set (ffiles g)" for b g using wf_tree_entry [OF assms(1) that] f by simp
qed

lemma child_unlinked:
  assumes "wf_tree h r fr" and "leaf_of h pa p a f"
  shows "child (unlinked h pa p a) b n = (if b = pa \<and> n = fname f then None else child h b n)"
proof -
  note leaf = leaf_facts [OF assms]
  have p: "h pa = Some p" "h a = Some f" "ffiles f = []" using assms(2) by (auto simp: leaf_of_def)
  have fi: "find (\<lambda>c. name_of (unlinked h pa p a) c = n) xs = find (\<lambda>c. name_of h c = n) xs" if "a \<notin> set xs" for xs
    using that by (induction xs) (auto simp: name_of_unlinked [of h pa p, OF p(1)])
  consider "b = pa" | "b = a" | "b \<noteq> pa" "b \<noteq> a" by blast
  then show ?thesis
  proof cases
    case 1
    have "find (\<lambda>c. name_of (unlinked h pa p a) c = n) (remove1 a (ffiles p)) = find (\<lambda>c. name_of h c = n) (remove1 a (ffiles p))"
      using wf_tree_distinct [OF assms(1) p(1)] by (intro fi) simp
    then show ?thesis using 1 p(1) leaf(1,4) find_remove1 [OF wf_tree_names [OF assms(1) p(1)], of n a]
      by (simp add: child_def unlinked_at)
  next
    case 2
    then show ?thesis using leaf(2) p by (simp add: child_def unlinked_at)
  next
    case 3
    then show ?thesis using leaf(5) fi by (auto simp: child_def unlinked_at split: option.splits)
  qed
qed

lemma lookup_unlinked:
  assumes "wf_tree h r fr" and "leaf_of h pa p a f" and "lookup h r ns0 = Some pa"
  shows "lookup (unlinked h pa p a) r ns = (if ns = ns0 @ [fname f] then None else lookup h r ns)"
proof (induction ns rule: rev_induct)
  case Nil
  then show ?case by simp
next
  case (snoc m ms)
  note leaf = leaf_facts [OF assms(1,2)]
  have p: "h pa = Some p" "h a = Some f" "ffiles f = []" using assms(2) by (auto simp: leaf_of_def)
  show ?case
  proof (cases "ms = ns0 @ [fname f]")
    case True
    have "child h pa (fname f) = Some a"
      using find_distinct [OF wf_tree_names [OF assms(1) p(1)] leaf(1)] p(1) leaf(4) by (simp add: child_def)
    then have "lookup h r ms = Some a" using True assms(3) by (simp add: lookup_snoc)
    moreover have "child h a m = None" using p by (simp add: child_def)
    moreover have "lookup (unlinked h pa p a) r ms = None" using snoc True by simp
    ultimately show ?thesis using True unfolding lookup_snoc [of _ _ ms m] by simp
  next
    case False
    have IH: "lookup (unlinked h pa p a) r ms = lookup h r ms" using snoc False by simp
    show ?thesis
    proof (cases "lookup h r ms")
      case None
      then show ?thesis using IH unfolding lookup_snoc [of _ _ ms m] by simp
    next
      case (Some b)
      have "b = pa \<longleftrightarrow> ms = ns0" using lookup_inj [OF assms(1) Some, of ns0] assms(3) Some by (metis option.inject)
      then show ?thesis using Some IH unfolding lookup_snoc [of _ _ ms m] by (simp add: child_unlinked [OF assms(1,2)])
    qed
  qed
qed

lemma wf_tree_unlinked:
  assumes "wf_tree h r fr" and "leaf_of h pa p a f"
  shows "wf_tree (unlinked h pa p a) r fr"
proof -
  let ?h = "unlinked h pa p a"
  note leaf = leaf_facts [OF assms]
  have p: "h pa = Some p" "h a = Some f" "ffiles f = []" using assms(2) by (auto simp: leaf_of_def)
  have d: "distinct (ffiles p)" by (rule wf_tree_distinct [OF assms(1) p(1)])
  have old: "\<exists>g0. h c = Some g0 \<and> ftype g = ftype g0 \<and> fname g = fname g0 \<and> fparent g = fparent g0
      \<and> set (ffiles g) = set (ffiles g0) - {a} \<and> c \<noteq> a \<and> (distinct (map k (ffiles g0)) \<longrightarrow> distinct (map k (ffiles g)))"
    if g: "?h c = Some g" for c g and k :: "addr \<Rightarrow> string"
  proof (cases "c = pa")
    case True
    have "distinct (map k (ffiles p)) \<longrightarrow> distinct (map k (remove1 a (ffiles p)))"
      using d by (auto simp: distinct_map distinct_remove1 inj_on_def)
    then show ?thesis using True g p(1) d leaf(2) by (auto simp: unlinked_at)
  next
    case False
    then have c: "c \<noteq> a" "h c = Some g" using g leaf(2) by (auto simp: unlinked_def split: if_splits)
    then have "a \<notin> set (ffiles g)" using leaf(5) False by blast
    then show ?thesis using c by auto
  qed
  have new: "\<exists>g. ?h c = Some g \<and> ftype g = ftype g0 \<and> fname g = fname g0 \<and> fparent g = fparent g0 \<and> set (ffiles g) = set (ffiles g0) - {a}"
    if g: "h c = Some g0" "c \<noteq> a" for c g0
  proof (cases "c = pa")
    case True
    then show ?thesis using g p(1) d by (auto simp: unlinked_at)
  next
    case False
    then have "a \<notin> set (ffiles g0)" using leaf(5) g by blast
    then show ?thesis using False g by (auto simp: unlinked_at)
  qed
  show ?thesis
    unfolding wf_tree_def
  proof (intro conjI allI impI)
    show "\<exists>f. ?h r = Some f \<and> ftype f = DIRECTORY \<and> fname f = ''/'' \<and> fparent f = None"
      using wf_tree_root [OF assms(1)] new [of r] leaf(3) by fastforce
  next
    fix b g assume "?h b = Some g"
    then show "b < fr" using old [of b g "name_of h"] wf_tree_fresh [OF assms(1)] by blast
  next
    fix b g c assume g: "?h b = Some g" "c \<in> set (ffiles g)"
    then obtain g0 where g0: "h b = Some g0" "ftype g = ftype g0" "c \<in> set (ffiles g0)" "c \<noteq> a"
      using old [of b g "name_of h"] by blast
    then obtain k where k: "ftype g0 = DIRECTORY" "h c = Some k" "fparent k = Some b" using wf_tree_entry [OF assms(1)] by blast
    show "ftype g = DIRECTORY" using g0 k by simp
    show "\<exists>g. ?h c = Some g \<and> fparent g = Some b" using new [OF k(2) g0(4)] k(3) by auto
  next
    fix c g b assume g: "?h c = Some g" "fparent g = Some b"
    then obtain g0 where g0: "h c = Some g0" "fparent g0 = Some b" "c \<noteq> a" using old [OF g(1), of "name_of h"] by auto
    then obtain q where q: "h b = Some q" "c \<in> set (ffiles q)" using wf_tree_parent [OF assms(1)] by blast
    then have "b \<noteq> a" using p by auto
    then show "\<exists>f. ?h b = Some f \<and> c \<in> set (ffiles f)" using new [OF q(1)] q(2) g0(3) by blast
  next
    fix b g assume g: "?h b = Some g"
    then have ne: "a \<notin> set (ffiles g)" using old [OF g, of "name_of h"] by blast
    have "distinct (map (name_of h) (ffiles g))" using old [OF g, of "name_of h"] wf_tree_names [OF assms(1)] by blast
    moreover have "map (name_of ?h) (ffiles g) = map (name_of h) (ffiles g)"
      using ne name_of_unlinked [of h pa p, OF p(1)] by (metis map_eq_conv)
    ultimately show "distinct (map (name_of ?h) (ffiles g))" by (simp only:)
  next
    fix c g assume g: "?h c = Some g" "c \<noteq> r"
    show "fparent g \<noteq> None" "good_name (fname g)" using old [OF g(1), of "name_of h"] wf_tree_good [OF assms(1) _ g(2)] by fastforce+
  qed
qed

end
