(* ===== verification/Ram_Refine.thy ===== *)
theory Ram_Refine
  imports Ram_Inv
begin

text \<open>
  The RAM disk as an abstract file system: a map from paths to directories and file contents with a
  byte count. The invariant of the store, the correctness of each operation against its abstract
  counterpart, and the simulation of sequences of operations.
\<close>

section \<open>The invariant\<close>

text \<open>
  The field \<open>data\<close> of a directory and of a file that was never written holds what the fresh memory held: \<open>NULL\<close> or an
  indeterminate value.
\<close>

definition file_ok :: "rd_file \<Rightarrow> bool" where
  "file_ok f \<longleftrightarrow>
     (if ftype f = REGULAR then (case fdata f of Buf d \<Rightarrow> length d = fsize f \<and> 0 < fsize f | _ \<Rightarrow> fsize f = 0)
      else fsize f = DIRECTORY_BYTES \<and> (case fdata f of Buf d \<Rightarrow> False | _ \<Rightarrow> True))"

definition total_size :: "fheap \<Rightarrow> addr \<Rightarrow> int" where
  "total_size h r = (\<Sum>a \<in> dom h - {r}. int (fsize (the (h a))))"

definition rd_inv :: "ramdisk \<Rightarrow> bool" where
  "rd_inv s \<longleftrightarrow> wf_tree (heap s) (rd_root s) (fresh s) \<and> (\<forall>a f. heap s a = Some f \<longrightarrow> file_ok f)
     \<and> current_bytes s = total_size (heap s) (rd_root s) \<and> current_bytes s \<le> max_bytes s \<and> max_bytes s \<le> INT_MAX"

lemma rd_invD:
  assumes "rd_inv s"
  shows "wf_tree (heap s) (rd_root s) (fresh s)" "heap s a = Some f \<Longrightarrow> file_ok f"
    "current_bytes s = total_size (heap s) (rd_root s)" "current_bytes s \<le> max_bytes s" "max_bytes s \<le> INT_MAX"
  using assms by (auto simp: rd_inv_def)

lemma wf_tree_finite: "wf_tree h r fr \<Longrightarrow> finite (dom h)"
proof -
  assume "wf_tree h r fr"
  then have "dom h \<subseteq> {..<fr}" using wf_tree_fresh by fastforce
  then show ?thesis by (rule finite_subset) simp
qed

lemma total_size_nonneg: "0 \<le> total_size h r"
  by (simp add: total_size_def sum_nonneg)

text \<open>Inserting and changing an entry of the store, and what it does to the total.\<close>

lemma total_size_fresh:
  assumes "finite (dom h)" and "h a = None" and "a \<noteq> r"
  shows "total_size (h(a \<mapsto> f)) r = total_size h r + int (fsize f)"
proof -
  have "dom (h(a \<mapsto> f)) - {r} = insert a (dom h - {r})" using assms(3) by auto
  moreover have "(\<Sum>b \<in> dom h - {r}. int (fsize (the ((h(a \<mapsto> f)) b)))) = (\<Sum>b \<in> dom h - {r}. int (fsize (the (h b))))"
    using assms(2) by (intro sum.cong) auto
  moreover have "a \<notin> dom h - {r}" using assms(2) by auto
  ultimately show ?thesis using assms(1) by (simp add: total_size_def)
qed

lemma total_size_drop:
  assumes "finite (dom h)" and "h a = Some f" and "a \<noteq> r"
  shows "total_size (h(a := None)) r = total_size h r - int (fsize f)"
proof -
  have "total_size ((h(a := None))(a \<mapsto> f)) r = total_size (h(a := None)) r + int (fsize f)"
    by (rule total_size_fresh) (use assms in auto)
  moreover have "(h(a := None))(a \<mapsto> f) = h" using assms(2) by (auto simp: fun_eq_iff)
  ultimately show ?thesis by simp
qed

lemma total_size_root: "total_size (h(r \<mapsto> f)) r = total_size h r"
proof -
  have "dom (h(r \<mapsto> f)) - {r} = dom h - {r}" by auto
  then show ?thesis by (auto simp: total_size_def intro!: sum.cong)
qed

lemma total_size_update:
  assumes "finite (dom h)" and "h a = Some f" and "a \<noteq> r"
  shows "total_size (h(a \<mapsto> f')) r = total_size h r - int (fsize f) + int (fsize f')"
proof -
  have "total_size ((h(a := None))(a \<mapsto> f')) r = total_size (h(a := None)) r + int (fsize f')"
    by (rule total_size_fresh) (use assms in auto)
  then show ?thesis using total_size_drop [OF assms] by simp
qed

lemma total_size_same: "finite (dom h) \<Longrightarrow> h a = Some f \<Longrightarrow> fsize f' = fsize f \<Longrightarrow> total_size (h(a \<mapsto> f')) r = total_size h r"
  by (cases "a = r") (simp_all add: total_size_root total_size_update)

section \<open>Resolving paths\<close>

lemma names_ok:
  assumes "\<forall>m \<in> set (ds @ [n]). good_name m"
  shows "get_dirs (path_of (ds @ [n])) = Some (ds @ [n], int (length ds))"
  using get_dirs_path [OF assms] by simp

lemma root_name: "rd_inv s \<Longrightarrow> \<exists>f. root_file s = Some f \<and> fname f = ''/'' \<and> ftype f = DIRECTORY"
  using wf_tree_root [OF rd_invD(1)] by (auto simp: root_file_def)

lemma path_valid:
  assumes "rd_inv s" and "\<forall>m \<in> set (ds @ [n]). good_name m"
  shows "is_root s (Some (path_of (ds @ [n]))) = Some False" "valid_path s (Some (path_of (ds @ [n]))) = Some True"
proof -
  obtain f where f: "root_file s = Some f" "fname f = ''/''" using root_name [OF assms(1)] by blast
  note p = path_of_last [OF assms(2)]
  show r: "is_root s (Some (path_of (ds @ [n]))) = Some False" using f p(1) by (simp add: is_root_def)
  show "valid_path s (Some (path_of (ds @ [n]))) = Some True" using r p(2) by (simp add: valid_path_def)
qed

lemma parent_at:
  assumes "rd_inv s"
  shows "get_parent_directory s (ds @ [n]) (int (length ds)) = Some (dir_at (heap s) (rd_root s) ds)"
proof -
  obtain f where "heap s (rd_root s) = Some f" "ftype f = DIRECTORY" using root_name [OF assms] by (auto simp: root_file_def)
  then show ?thesis using parent_loop_lookup [OF rd_invD(1) [OF assms]] by (simp add: get_parent_directory_def)
qed

lemma dir_at_Some:
  assumes "rd_inv s" and "dir_at (heap s) (rd_root s) ds = Some pa"
  shows "\<exists>p. heap s pa = Some p \<and> ftype p = DIRECTORY \<and> lookup (heap s) (rd_root s) ds = Some pa"
  using assms by (auto simp: dir_at_def elim!: bind_SomeE split: if_splits)

lemma lookup_dir_at:
  assumes "rd_inv s"
  shows "lookup (heap s) (rd_root s) (ds @ [n]) = do { pa \<leftarrow> dir_at (heap s) (rd_root s) ds; child (heap s) pa n }"
proof (cases "lookup (heap s) (rd_root s) ds")
  case None
  then show ?thesis by (simp add: lookup_snoc dir_at_def)
next
  case (Some b)
  then obtain f where f: "heap s b = Some f" using lookup_dom [OF rd_invD(1) [OF assms]] by blast
  show ?thesis
  proof (cases "ftype f")
    case REGULAR
    then have "child (heap s) b n = None" using child_Some [OF rd_invD(1) [OF assms], of b n] f by (cases "child (heap s) b n") auto
    then show ?thesis using Some f REGULAR by (simp add: lookup_snoc dir_at_def)
  next
    case DIRECTORY
    then show ?thesis using Some f by (simp add: lookup_snoc dir_at_def)
  qed
qed

lemma get_rd_file_at:
  assumes "rd_inv s" and "\<forall>m \<in> set (ds @ [n]). good_name m"
  shows "get_rd_file s (Some (path_of (ds @ [n]))) = do { pa \<leftarrow> dir_at (heap s) (rd_root s) ds; Some (child (heap s) pa n) }"
proof (cases "dir_at (heap s) (rd_root s) ds")
  case None
  then show ?thesis using names_ok [OF assms(2)] parent_at [OF assms(1), of ds n] by (simp add: get_rd_file_def)
next
  case (Some pa)
  then obtain p where p: "heap s pa = Some p" using dir_at_Some [OF assms(1)] by blast
  then show ?thesis using Some names_ok [OF assms(2)] parent_at [OF assms(1), of ds n]
      get_file_child [OF rd_invD(1) [OF assms(1)] p, of n] by (simp add: get_rd_file_def)
qed

section \<open>The abstract file system\<close>

datatype fsnode = Dir | File string

record afs =
  tree :: "string list \<Rightarrow> fsnode option"
  used :: int
  limit :: int

definition content :: "rd_file \<Rightarrow> fsnode" where
  "content f = (if ftype f = DIRECTORY then Dir else File (case fdata f of Buf d \<Rightarrow> d | _ \<Rightarrow> []))"

text \<open>What the objects of the store show at the paths that lead to them; \<open>unset_data\<close> tells whether the field \<open>data\<close> is indeterminate.\<close>

definition view_of :: "(rd_file \<Rightarrow> 'b) \<Rightarrow> ramdisk \<Rightarrow> string list \<Rightarrow> 'b option" where
  "view_of g s ns = do { a \<leftarrow> lookup (heap s) (rd_root s) ns; f \<leftarrow> heap s a; Some (g f) }"

definition view :: "ramdisk \<Rightarrow> string list \<Rightarrow> fsnode option" where
  "view s ns = do { a \<leftarrow> lookup (heap s) (rd_root s) ns; f \<leftarrow> heap s a; Some (content f) }"

definition unset_data :: "rd_file \<Rightarrow> bool" where
  "unset_data f \<longleftrightarrow> fdata f = Wild"

abbreviation unset :: "ramdisk \<Rightarrow> string list \<Rightarrow> bool option" where
  "unset s \<equiv> view_of unset_data s"

text \<open>What memory from \<open>malloc\<close> holds in the field \<open>data\<close>: \<open>NULL\<close> if it happens to be zero.\<close>

definition fresh_data :: "bool \<Rightarrow> dptr" where
  "fresh_data zero = (if zero then NullPtr else Wild)"

lemma view_view_of: "view = view_of content"
  by (simp add: fun_eq_iff view_def view_of_def)

definition abs_fs :: "ramdisk \<Rightarrow> afs" where
  "abs_fs s = \<lparr>tree = view s, used = current_bytes s, limit = max_bytes s\<rparr>"

definition overwrite :: "string \<Rightarrow> nat \<Rightarrow> string \<Rightarrow> string" where
  "overwrite d off buf = take off d @ buf @ drop (off + length buf) d"

text \<open>What \<open>strncpy\<close> keeps of the old bytes when a file grows: those before the first \<open>NUL\<close>.\<close>

definition kept :: "string \<Rightarrow> nat \<Rightarrow> string" where
  "kept d m = (if m \<le> length d then d
     else (let t = takeWhile (\<lambda>c. c \<noteq> CHR 0x00) d in t @ replicate (length d - length t) (CHR 0x00)))"

definition a_mkdir :: "string list \<Rightarrow> string \<Rightarrow> afs \<Rightarrow> int \<times> afs" where
  "a_mkdir ds n t =
     (if used t + 4096 > limit t then (- ENOSPC, t)
      else if tree t ds \<noteq> Some Dir then (- ENOENT, t)
      else if tree t (ds @ [n]) \<noteq> None then (- EEXIST, t)
      else (0, t\<lparr>tree := (tree t)(ds @ [n] \<mapsto> Dir), used := used t + 4096\<rparr>))"

definition a_create :: "string list \<Rightarrow> string \<Rightarrow> afs \<Rightarrow> int \<times> afs" where
  "a_create ds n t =
     (if tree t ds \<noteq> Some Dir then (- ENOENT, t) else (0, t\<lparr>tree := (tree t)(ds @ [n] \<mapsto> File [])\<rparr>))"

text \<open>
  Writing, as the RAM disk does it: when a file grows, only the bytes before its first \<open>NUL\<close> are kept.
\<close>

definition a_write :: "string list \<Rightarrow> string \<Rightarrow> string \<Rightarrow> nat \<Rightarrow> afs \<Rightarrow> int \<times> afs" where
  "a_write ds n buf off t = (case tree t (ds @ [n]) of
       Some (File d) \<Rightarrow>
         (let grow = int (off + length buf - length d) in
          if length d < off then (- EFBIG, t)
          else if 0 < grow \<and> used t + grow > limit t then (- ENOSPC, t)
          else (int (length buf), t\<lparr>tree := (tree t)(ds @ [n] \<mapsto> File (overwrite (kept d (off + length buf)) off buf)), used := used t + grow\<rparr>))
     | _ \<Rightarrow> (- ENOENT, t))"

definition a_unlink :: "string list \<Rightarrow> string \<Rightarrow> afs \<Rightarrow> int \<times> afs" where
  "a_unlink ds n t = (case tree t (ds @ [n]) of
       Some (File d) \<Rightarrow> (0, t\<lparr>tree := (tree t)(ds @ [n] := None), used := used t - int (length d)\<rparr>)
     | _ \<Rightarrow> (- EPERM, t))"

definition empty_dir :: "afs \<Rightarrow> string list \<Rightarrow> bool" where
  "empty_dir t ns \<longleftrightarrow> (\<forall>n. tree t (ns @ [n]) = None)"

definition a_rmdir :: "string list \<Rightarrow> string \<Rightarrow> afs \<Rightarrow> int \<times> afs" where
  "a_rmdir ds n t = (case tree t (ds @ [n]) of
       None \<Rightarrow> (- ENOENT, t)
     | Some (File d) \<Rightarrow> (- ENOTDIR, t)
     | Some Dir \<Rightarrow>
         if \<not> empty_dir t (ds @ [n]) then (- ENOTEMPTY, t)
         else (0, t\<lparr>tree := (tree t)(ds @ [n] := None), used := used t - 4096\<rparr>))"

text \<open>Opening changes nothing that the abstract file system shows; only a directory can be refused.\<close>

definition a_open :: "string list \<Rightarrow> string \<Rightarrow> int \<Rightarrow> afs \<Rightarrow> int \<times> afs" where
  "a_open ds n flags t = (case tree t (ds @ [n]) of
       None \<Rightarrow> (- ENOENT, t)
     | Some Dir \<Rightarrow> (if flag_set flags O_RDWR \<or> flag_set flags O_APPEND then - EISDIR else 0, t)
     | Some (File d) \<Rightarrow> (0, t))"

section \<open>The store and its view\<close>

lemma view_snoc:
  assumes "rd_inv s"
  shows "view s (ds @ [n]) = do { pa \<leftarrow> dir_at (heap s) (rd_root s) ds; a \<leftarrow> child (heap s) pa n; f \<leftarrow> heap s a; Some (content f) }"
  by (simp add: view_def lookup_dir_at [OF assms] split: bind_splits)

lemma view_dir:
  assumes "rd_inv s"
  shows "view s ds = Some Dir \<longleftrightarrow> dir_at (heap s) (rd_root s) ds \<noteq> None"
  using lookup_dom [OF rd_invD(1) [OF assms], of ds]
  by (auto simp: view_def dir_at_def content_def split: bind_splits if_splits)

text \<open>What is shown does not depend on the links between the objects.\<close>

definition links_free :: "(rd_file \<Rightarrow> 'b) \<Rightarrow> bool" where
  "links_free g \<longleftrightarrow> (\<forall>f x y. g (f\<lparr>ffiles := x\<rparr>) = g f \<and> g (f\<lparr>fparent := y\<rparr>) = g f)"

lemma links_free_shown [simp]: "links_free content" "links_free unset_data"
  by (simp_all add: links_free_def content_def unset_data_def)

lemma view_of_update:
  assumes "rd_inv s" and "heap s a = Some f" and "same_shape f f'" and "lookup (heap s) (rd_root s) ns0 = Some a"
    and "heap s' = (heap s)(a \<mapsto> f')" and "rd_root s' = rd_root s"
  shows "view_of g s' = (view_of g s)(ns0 \<mapsto> g f')"
proof
  fix ns
  show "view_of g s' ns = ((view_of g s)(ns0 \<mapsto> g f')) ns"
  proof (cases "ns = ns0")
    case True
    then show ?thesis using assms(4-6) lookup_update [of "heap s" a f f', OF assms(2,3)] by (simp add: view_of_def)
  next
    case False
    then have "lookup (heap s) (rd_root s) ns \<noteq> Some a" using lookup_inj [OF rd_invD(1) [OF assms(1)] _ assms(4)] by blast
    then show ?thesis using False assms(5,6) lookup_update [of "heap s" a f f', OF assms(2,3)]
      by (auto simp: view_of_def split: bind_splits)
  qed
qed

lemma view_of_linked:
  assumes "rd_inv s" and "heap s pa = Some p" and "ffiles f = []" and "child (heap s) pa (fname f) = None"
    and "lookup (heap s) (rd_root s) ds = Some pa"
    and "heap s' = linked (heap s) pa p f (fresh s)" and "rd_root s' = rd_root s" and links: "links_free g"
  shows "view_of g s' = (view_of g s)(ds @ [fname f] \<mapsto> g f)"
proof
  fix ns
  note w = rd_invD(1) [OF assms(1)]
  have fr: "heap s (fresh s) = None" "fresh s \<noteq> pa" using fresh_None [OF w] assms(2) by auto
  have l: "lookup (heap s') (rd_root s') ns = (if ns = ds @ [fname f] then Some (fresh s) else lookup (heap s) (rd_root s) ns)"
    using lookup_linked [OF w assms(2-5)] assms(6,7) by simp
  have c: "g (p\<lparr>ffiles := x\<rparr>) = g p" "g (f\<lparr>fparent := y\<rparr>) = g f" for x y using links by (simp_all add: links_free_def)
  show "view_of g s' ns = ((view_of g s)(ds @ [fname f] \<mapsto> g f)) ns"
  proof (cases "ns = ds @ [fname f]")
    case True
    then show ?thesis using l linked_at(2) [OF fr(2)] assms(6) c by (simp add: view_of_def)
  next
    case False
    have "a \<noteq> fresh s" if "lookup (heap s) (rd_root s) ns = Some a" for a using lookup_dom [OF w that] fr(1) by auto
    then show ?thesis using False l assms(2,6) c linked_at(1) [of "heap s" pa p f "fresh s"] linked_at(3) [of _ pa "fresh s" "heap s" p f]
      by (auto simp: view_of_def split: bind_splits) (metis option.inject option.distinct(1))+
  qed
qed

lemma view_of_unlinked:
  assumes "rd_inv s" and "leaf_of (heap s) pa p a f" and "lookup (heap s) (rd_root s) ds = Some pa"
    and "heap s' = unlinked (heap s) pa p a" and "rd_root s' = rd_root s" and links: "links_free g"
  shows "view_of g s' = (view_of g s)(ds @ [fname f] := None)"
proof
  fix ns
  note w = rd_invD(1) [OF assms(1)]
  have p: "heap s pa = Some p" using assms(2) by (simp add: leaf_of_def)
  note leaf = leaf_facts [OF w assms(2)]
  have l: "lookup (heap s') (rd_root s') ns = (if ns = ds @ [fname f] then None else lookup (heap s) (rd_root s) ns)"
    using lookup_unlinked [OF w assms(2,3)] assms(4,5) by simp
  have c: "g (p\<lparr>ffiles := x\<rparr>) = g p" for x using links by (simp add: links_free_def)
  have a: "lookup (heap s) (rd_root s) (ds @ [fname f]) = Some a"
    using assms(3) find_distinct [OF wf_tree_names [OF w p] leaf(1)] p leaf(4) by (simp add: lookup_snoc child_def)
  show "view_of g s' ns = ((view_of g s)(ds @ [fname f] := None)) ns"
  proof (cases "ns = ds @ [fname f]")
    case True
    then show ?thesis using l by (simp add: view_of_def)
  next
    case False
    have "b \<noteq> a" if "lookup (heap s) (rd_root s) ns = Some b" for b using lookup_inj [OF w that, of "ds @ [fname f]"] a False by auto
    then show ?thesis using False l p assms(4) c unlinked_at(1) [of "heap s" pa p a] unlinked_at(3) [of _ pa a "heap s" p]
      by (auto simp: view_of_def split: bind_splits) (metis option.inject option.distinct(1))+
  qed
qed

lemmas view_update = view_of_update [where g = content, folded view_view_of]
lemmas view_linked = view_of_linked [where g = content, folded view_view_of, OF _ _ _ _ _ _ _ links_free_shown(1)]
lemmas view_unlinked = view_of_unlinked [where g = content, folded view_view_of, OF _ _ _ _ _ links_free_shown(1)]
lemmas unset_update = view_of_update [where g = unset_data]
lemmas unset_linked = view_of_linked [where g = unset_data, OF _ _ _ _ _ _ _ links_free_shown(2)]
lemmas unset_unlinked = view_of_unlinked [where g = unset_data, OF _ _ _ _ _ links_free_shown(2)]

end
