(* ===== verification/Ram_Ops.thy ===== *)
theory Ram_Ops
  imports Ram_Refine
begin

text \<open>
  Each operation of the RAM disk keeps the invariant and does what its abstract counterpart does; \<open>unset\<close> tells of
  each path whether the data pointer behind it was never set.
\<close>

section \<open>The invariant under the three changes\<close>

lemma file_ok_links [simp]:
  "file_ok (f\<lparr>ffiles := x\<rparr>) = file_ok f" "file_ok (f\<lparr>fparent := y\<rparr>) = file_ok f" "file_ok (f\<lparr>fopened := z\<rparr>) = file_ok f"
  by (simp_all add: file_ok_def split: dptr.split)

lemma rd_inv_linked:
  assumes "rd_inv s" and "heap s pa = Some p" and "ftype p = DIRECTORY" and "ffiles f = []"
    and "child (heap s) pa (fname f) = None" and "good_name (fname f)" and "file_ok f"
    and "current_bytes s + int (fsize f) \<le> max_bytes s"
    and "s' = s\<lparr>heap := linked (heap s) pa p f (fresh s), fresh := Suc (fresh s), current_bytes := current_bytes s + int (fsize f)\<rparr>"
  shows "rd_inv s'"
proof -
  note w = rd_invD(1) [OF assms(1)]
  have fr: "heap s (fresh s) = None" "fresh s \<noteq> pa" "fresh s \<noteq> rd_root s"
    using fresh_None [OF w] assms(2) wf_tree_root [OF w] by auto
  let ?h1 = "(heap s)(fresh s \<mapsto> f\<lparr>fparent := Some pa\<rparr>)"
  have "total_size (linked (heap s) pa p f (fresh s)) (rd_root s) = total_size ?h1 (rd_root s)"
    unfolding linked_def by (rule total_size_same [where f = p]) (use wf_tree_finite [OF w] assms(2) fr in auto)
  also have "\<dots> = total_size (heap s) (rd_root s) + int (fsize f)"
    using total_size_fresh [OF wf_tree_finite [OF w] fr(1,3)] by simp
  finally have t: "total_size (linked (heap s) pa p f (fresh s)) (rd_root s) = total_size (heap s) (rd_root s) + int (fsize f)" .
  have ok: "file_ok g" if "linked (heap s) pa p f (fresh s) b = Some g" for b g
    using that assms(7) rd_invD(2) [OF assms(1)] assms(2) by (auto simp: linked_def split: if_splits)
  show ?thesis
    using wf_tree_linked [OF w assms(2-6)] t ok assms(8,9) rd_invD(3,5) [OF assms(1)] by (simp add: rd_inv_def)
qed

lemma rd_inv_update:
  assumes "rd_inv s" and "heap s a = Some f" and "same_shape f f'" and "file_ok f'" and "a \<noteq> rd_root s"
    and "current_bytes s - int (fsize f) + int (fsize f') \<le> max_bytes s"
    and "s' = s\<lparr>heap := (heap s)(a \<mapsto> f'), current_bytes := current_bytes s - int (fsize f) + int (fsize f')\<rparr>"
  shows "rd_inv s'"
proof -
  note w = rd_invD(1) [OF assms(1)]
  have "file_ok g" if "((heap s)(a \<mapsto> f')) b = Some g" for b g
    using that assms(4) rd_invD(2) [OF assms(1)] by (auto split: if_splits)
  then show ?thesis
    using wf_tree_update [OF w assms(2,3)] total_size_update [OF wf_tree_finite [OF w] assms(2,5), of f'] assms(6,7) rd_invD(3,5) [OF assms(1)]
    by (simp add: rd_inv_def)
qed

lemma rd_inv_unlinked:
  assumes "rd_inv s" and "leaf_of (heap s) pa p a f"
    and "s' = s\<lparr>heap := unlinked (heap s) pa p a, current_bytes := current_bytes s - int (fsize f)\<rparr>"
  shows "rd_inv s'"
proof -
  note w = rd_invD(1) [OF assms(1)]
  note leaf = leaf_facts [OF w assms(2)]
  have p: "heap s pa = Some p" "heap s a = Some f" using assms(2) by (auto simp: leaf_of_def)
  let ?h1 = "(heap s)(a := None)"
  have "total_size (unlinked (heap s) pa p a) (rd_root s) = total_size ?h1 (rd_root s)"
    unfolding unlinked_def by (rule total_size_same [where f = p]) (use wf_tree_finite [OF w] p(1) leaf(2) in auto)
  also have "\<dots> = total_size (heap s) (rd_root s) - int (fsize f)"
    by (rule total_size_drop [OF wf_tree_finite [OF w] p(2) leaf(3)])
  finally have t: "total_size (unlinked (heap s) pa p a) (rd_root s) = total_size (heap s) (rd_root s) - int (fsize f)" .
  have ok: "file_ok g" if "unlinked (heap s) pa p a b = Some g" for b g
    using that rd_invD(2) [OF assms(1)] p(1) by (auto simp: unlinked_def split: if_splits)
  show ?thesis
    using wf_tree_unlinked [OF w assms(2)] t ok assms(3) rd_invD(3-5) [OF assms(1)] by (simp add: rd_inv_def)
qed

section \<open>Creating\<close>

lemma new_file_ok: "create_rd_file (fresh_data z) (Some n) (Some q) ty = Some f \<Longrightarrow>
    file_ok f \<and> ffiles f = [] \<and> fname f = n \<and> ftype f = ty \<and> fsize f = (if ty = REGULAR then 0 else DIRECTORY_BYTES) \<and> unset_data f = (\<not> z)"
  by (auto simp: create_rd_file_def file_ok_def fresh_data_def unset_data_def)

lemma new_file_content: "create_rd_file (fresh_data z) (Some n) (Some q) ty = Some f \<Longrightarrow> content f = (if ty = DIRECTORY then Dir else File [])"
  by (auto simp: create_rd_file_def content_def fresh_data_def)

lemma create_Some: "\<exists>f. create_rd_file junk (Some n) (Some q) ty = Some f"
  by (simp add: create_rd_file_def)

lemma link_file_linked:
  "heap s pa = Some p \<Longrightarrow> link_file pa f s = Some (s\<lparr>heap := linked (heap s) pa p f (fresh s), fresh := Suc (fresh s)\<rparr>)"
  by (simp add: link_file_def linked_def)

lemma mkdir_sim:
  assumes "rd_inv s" and "\<forall>m \<in> set (ds @ [n]). good_name m"
  shows "\<exists>r s'. rd_mkdir (fresh_data z) s (Some (path_of (ds @ [n]))) = Some (r, s') \<and> rd_inv s' \<and> a_mkdir ds n (abs_fs s) = (r, abs_fs s')
    \<and> unset s' = (if r = 0 then (unset s)(ds @ [n] \<mapsto> \<not> z) else unset s)"
proof (cases "memory_available s (int DIRECTORY_BYTES)")
  case False
  then show ?thesis using assms path_valid(1) [OF assms]
    by (simp add: rd_mkdir_def a_mkdir_def abs_fs_def memory_available_def DIRECTORY_BYTES_def errno_defs)
next
  case mem: True
  then have mem': "\<not> used (abs_fs s) + 4096 > limit (abs_fs s)" by (simp add: memory_available_def DIRECTORY_BYTES_def abs_fs_def)
  note start = path_valid(1) [OF assms] names_ok [OF assms(2)] parent_at [OF assms(1), of ds n]
  show ?thesis
  proof (cases "dir_at (heap s) (rd_root s) ds")
    case None
    then have "view s ds \<noteq> Some Dir" using view_dir [OF assms(1)] by simp
    then show ?thesis using None mem mem' start assms(1) by (simp add: rd_mkdir_def a_mkdir_def abs_fs_def errno_defs)
  next
    case (Some pa)
    then have vd: "view s ds = Some Dir" using view_dir [OF assms(1)] by simp
    obtain p where p: "heap s pa = Some p" "ftype p = DIRECTORY" "lookup (heap s) (rd_root s) ds = Some pa"
      using dir_at_Some [OF assms(1) Some] by blast
    note gf = get_file_child [OF rd_invD(1) [OF assms(1)] p(1), of n]
    show ?thesis
    proof (cases "child (heap s) pa n")
      case (Some a)
      then obtain g where "heap s a = Some g" using child_Some [OF rd_invD(1) [OF assms(1)]] by blast
      then have "view s (ds @ [n]) \<noteq> None" using view_snoc [OF assms(1), of ds n] Some \<open>dir_at (heap s) (rd_root s) ds = Some pa\<close> by simp
      then show ?thesis using Some mem mem' start vd gf p(1) assms(1) \<open>dir_at (heap s) (rd_root s) ds = Some pa\<close>
        by (auto simp: rd_mkdir_def a_mkdir_def abs_fs_def errno_defs)
    next
      case None
      obtain f where f: "create_rd_file (fresh_data z) (Some n) (Some (fname p)) DIRECTORY = Some f" using create_Some by blast
      have fo: "file_ok f" "ffiles f = []" "fname f = n" "fsize f = DIRECTORY_BYTES" "unset_data f = (\<not> z)" using new_file_ok [OF f] by simp_all
      define s' where "s' = s\<lparr>heap := linked (heap s) pa p f (fresh s), fresh := Suc (fresh s), current_bytes := current_bytes s + int (fsize f)\<rparr>"
      have inv: "rd_inv s'"
        by (rule rd_inv_linked [OF assms(1) p(1,2) fo(2) _ _ fo(1) _ s'_def])
          (use None fo assms(2) mem in \<open>auto simp: memory_available_def\<close>)
      have ch: "child (heap s) pa (fname f) = None" using None fo(3) by simp
      have "view s' = (view s)(ds @ [fname f] \<mapsto> content f)"
        by (rule view_linked [OF assms(1) p(1) fo(2) ch p(3)]) (simp_all add: s'_def)
      then have v: "view s' = (view s)(ds @ [n] \<mapsto> Dir)" using fo(3) new_file_content [OF f] by simp
      have "unset s' = (unset s)(ds @ [fname f] \<mapsto> unset_data f)"
        by (rule unset_linked [OF assms(1) p(1) fo(2) ch p(3)]) (simp_all add: s'_def)
      then have u: "unset s' = (unset s)(ds @ [n] \<mapsto> \<not> z)" using fo(3,5) by simp
      have "view s (ds @ [n]) = None" using view_snoc [OF assms(1), of ds n] None \<open>dir_at (heap s) (rd_root s) ds = Some pa\<close> by simp
      moreover have "rd_mkdir (fresh_data z) s (Some (path_of (ds @ [n]))) = Some (0, s')"
        using None mem start gf p(1) f fo(4) link_file_linked [OF p(1), of f] \<open>dir_at (heap s) (rd_root s) ds = Some pa\<close>
        by (simp add: rd_mkdir_def s'_def)
      ultimately show ?thesis using inv v u vd mem' fo(4)
        by (simp add: a_mkdir_def abs_fs_def) (simp add: s'_def DIRECTORY_BYTES_def)
    qed
  qed
qed

lemma create_sim:
  assumes "rd_inv s" and "\<forall>m \<in> set (ds @ [n]). good_name m" and "tree (abs_fs s) (ds @ [n]) = None"
  shows "\<exists>r s'. rd_create (fresh_data z) s (Some (path_of (ds @ [n]))) = Some (r, s') \<and> rd_inv s' \<and> a_create ds n (abs_fs s) = (r, abs_fs s')
    \<and> unset s' = (if r = 0 then (unset s)(ds @ [n] \<mapsto> \<not> z) else unset s)"
proof -
  note start = path_valid(2) [OF assms(1,2)] names_ok [OF assms(2)] parent_at [OF assms(1), of ds n]
  show ?thesis
  proof (cases "dir_at (heap s) (rd_root s) ds")
    case None
    then have "view s ds \<noteq> Some Dir" using view_dir [OF assms(1)] by simp
    then show ?thesis using None start assms(1) by (simp add: rd_create_def a_create_def abs_fs_def errno_defs)
  next
    case (Some pa)
    then have vd: "view s ds = Some Dir" using view_dir [OF assms(1)] by simp
    obtain p where p: "heap s pa = Some p" "ftype p = DIRECTORY" "lookup (heap s) (rd_root s) ds = Some pa"
      using dir_at_Some [OF assms(1) Some] by blast
    have ch: "child (heap s) pa n = None"
      using assms(3) view_snoc [OF assms(1), of ds n] Some child_Some [OF rd_invD(1) [OF assms(1)], of pa n]
      by (cases "child (heap s) pa n") (auto simp: abs_fs_def)
    obtain f where f: "create_rd_file (fresh_data z) (Some n) (Some (fname p)) REGULAR = Some f" using create_Some by blast
    have fo: "file_ok f" "ffiles f = []" "fname f = n" "fsize f = 0" "unset_data f = (\<not> z)" using new_file_ok [OF f] by simp_all
    define s' where "s' = s\<lparr>heap := linked (heap s) pa p f (fresh s), fresh := Suc (fresh s), current_bytes := current_bytes s + int (fsize f)\<rparr>"
    have inv: "rd_inv s'"
      by (rule rd_inv_linked [OF assms(1) p(1,2) fo(2) _ _ fo(1) _ s'_def])
        (use ch fo assms(2) rd_invD(4) [OF assms(1)] in auto)
    have chf: "child (heap s) pa (fname f) = None" using ch fo(3) by simp
    have "view s' = (view s)(ds @ [fname f] \<mapsto> content f)"
      by (rule view_linked [OF assms(1) p(1) fo(2) chf p(3)]) (simp_all add: s'_def)
    then have v: "view s' = (view s)(ds @ [n] \<mapsto> File [])" using fo(3) new_file_content [OF f] by simp
    have "unset s' = (unset s)(ds @ [fname f] \<mapsto> unset_data f)"
      by (rule unset_linked [OF assms(1) p(1) fo(2) chf p(3)]) (simp_all add: s'_def)
    then have u: "unset s' = (unset s)(ds @ [n] \<mapsto> \<not> z)" using fo(3,5) by simp
    have "rd_create (fresh_data z) s (Some (path_of (ds @ [n]))) = Some (0, s')"
      using start p(1) f fo(4) link_file_linked [OF p(1), of f] Some by (simp add: rd_create_def s'_def)
    then show ?thesis using inv v u vd fo(4) by (simp add: a_create_def abs_fs_def) (simp add: s'_def)
  qed
qed

section \<open>Writing\<close>

lemma write_loop_overwrite:
  "off + length buf \<le> length xs \<Longrightarrow> int (off + length buf) \<le> INT_MAX \<Longrightarrow>
    write_loop (Buf xs) off buf = Some (Buf (overwrite xs off buf))"
proof (induction buf arbitrary: xs off)
  case Nil
  then show ?case by (simp add: overwrite_def)
next
  case (Cons b bs)
  have off: "off < length xs" "int off < INT_MAX" using Cons.prems by auto
  have "write_loop (Buf (xs[off := b])) (Suc off) bs = Some (Buf (overwrite (xs[off := b]) (Suc off) bs))"
    by (rule Cons.IH) (use Cons.prems in auto)
  moreover have "overwrite (xs[off := b]) (Suc off) bs = overwrite xs off (b # bs)"
    using off(1) by (simp add: overwrite_def take_Suc_conv_app_nth upd_conv_take_nth_drop nth_append drop_append add.commute)
  ultimately show ?case using off by simp
qed

lemma length_kept [simp]: "length (kept d m) = length d"
  by (simp add: kept_def Let_def length_takeWhile_le)

lemma kept_id: "m \<le> length d \<or> CHR 0x00 \<notin> set d \<Longrightarrow> kept d m = d"
proof -
  assume a: "m \<le> length d \<or> CHR 0x00 \<notin> set d"
  show ?thesis
  proof (cases "m \<le> length d")
    case False
    then have "takeWhile (\<lambda>c. c \<noteq> CHR 0x00) d = d" using a by (intro takeWhile_eq_all_conv [THEN iffD2]) auto
    then show ?thesis by (simp only: kept_def Let_def) simp
  qed (simp add: kept_def)
qed

lemma strncpy_grow:
  assumes "length d < m"
  shows "strncpy (replicate m (CHR 0x00)) (Buf d) (length d) = Some (kept d m @ replicate (m - length d) (CHR 0x00))"
  using assms by (cases "d = []") (simp_all add: strncpy_def Let_def kept_def)

lemma overwrite_append: "off \<le> length d \<Longrightarrow> length d < off + length buf \<Longrightarrow>
    overwrite (d @ replicate k z) off buf = overwrite d off buf @ drop (off + length buf - length d) (replicate k z)"
  by (simp add: overwrite_def)

lemma length_overwrite: "off \<le> length d \<Longrightarrow> length (overwrite d off buf) = max (length d) (off + length buf)"
  by (simp add: overwrite_def)

text \<open>The bytes of a regular file that satisfies the invariant.\<close>

definition bytes_of :: "rd_file \<Rightarrow> string" where
  "bytes_of f = (case fdata f of Buf d \<Rightarrow> d | _ \<Rightarrow> [])"

lemma file_ok_bytes: "file_ok f \<Longrightarrow> ftype f = REGULAR \<Longrightarrow> fsize f = length (bytes_of f)
    \<and> (if bytes_of f = [] then fdata f = NullPtr \<or> fdata f = Wild else fdata f = Buf (bytes_of f))"
  by (auto simp: file_ok_def bytes_of_def split: dptr.splits)

lemma content_bytes: "ftype f = REGULAR \<Longrightarrow> content f = File (bytes_of f)"
  by (simp add: content_def bytes_of_def)

lemma bytes_of_Buf [simp]: "bytes_of (f\<lparr>fdata := Buf d\<rparr>) = d"
  by (simp add: bytes_of_def)

lemma file_ok_Buf: "ftype f = REGULAR \<Longrightarrow> file_ok (f\<lparr>fdata := Buf d\<rparr>) \<longleftrightarrow> length d = fsize f \<and> 0 < fsize f"
  by (simp add: file_ok_def)

text \<open>Growing, when the file has no \<open>NUL\<close>, and writing into the grown file.\<close>

lemma grow_write:
  assumes "file_ok f" and "ftype f = REGULAR" and "off \<le> fsize f" and "int (off + length buf) \<le> INT_MAX"
    and grow: "grow = int (off + length buf - fsize f)" and "0 < grow \<longrightarrow> current_bytes s + grow \<le> max_bytes s"
  shows "\<exists>f1 d. grow_file (int (off + length buf)) s f = Some (Some (f1, current_bytes s + grow))
    \<and> write_loop (fdata f1) off buf = Some d \<and> same_shape f (f1\<lparr>fdata := d\<rparr>) \<and> file_ok (f1\<lparr>fdata := d\<rparr>)
    \<and> int (fsize f1) = int (fsize f) + grow \<and> bytes_of (f1\<lparr>fdata := d\<rparr>) = overwrite (kept (bytes_of f) (off + length buf)) off buf
    \<and> unset_data (f1\<lparr>fdata := d\<rparr>) = (unset_data f \<and> \<not> 0 < grow)"
proof (cases "off + length buf \<le> fsize f")
  case True
  note b = file_ok_bytes [OF assms(1,2)]
  have k: "kept (bytes_of f) (off + length buf) = bytes_of f" using True b by (simp add: kept_id)
  have "u64 (int (off + length buf)) = int (off + length buf)" using assms(4) by (intro u64_id) (auto simp: INT_MAX_def)
  then have g: "grow_file (int (off + length buf)) s f = Some (Some (f, current_bytes s + grow))"
    using True grow by (simp add: grow_file_def)
  show ?thesis
  proof (cases "bytes_of f = []")
    case empty: True
    then have "buf = []" "off = 0" using True b by auto
    then show ?thesis using g empty b assms(1) True grow
      by (auto simp: same_shape_def overwrite_def kept_def)
  next
    case False
    then have "write_loop (fdata f) off buf = Some (Buf (overwrite (bytes_of f) off buf))"
      using b True assms(4) write_loop_overwrite [of off buf "bytes_of f"] by simp
    moreover have "length (overwrite (bytes_of f) off buf) = fsize f" using length_overwrite [of off "bytes_of f" buf] b True by simp
    ultimately show ?thesis using g True grow b assms(2) False
      by (intro exI [of _ f] exI [of _ "Buf (overwrite (bytes_of f) off buf)"]) (simp add: same_shape_def file_ok_Buf k unset_data_def)
  qed
next
  case False
  note b = file_ok_bytes [OF assms(1,2)]
  let ?m = "off + length buf"
  have u: "u64 (int ?m) = int ?m" using assms(4) by (intro u64_id) (auto simp: INT_MAX_def)
  have e: "grow = int ?m - int (fsize f)" "0 < grow" using False grow by simp_all
  moreover have "int_range grow" using e assms(4) by (simp add: int_range_def INT_MIN_def)
  ultimately have gr: "int32 (int ?m - int (fsize f)) = grow" "0 < grow" "grow + int (fsize f) = int ?m"
    using int32_id [of grow] by simp_all
  let ?x = "kept (bytes_of f) ?m @ replicate (?m - fsize f) (CHR 0x00)"
  have cp: "strncpy (replicate ?m (CHR 0x00)) (fdata f) (fsize f) = Some ?x"
  proof (cases "bytes_of f = []")
    case True
    then show ?thesis using b by (simp add: strncpy_def kept_def)
  next
    case nonempty: False
    then show ?thesis using b strncpy_grow [of "bytes_of f" ?m] False by simp
  qed
  let ?f1 = "f\<lparr>fdata := Buf ?x, fsize := ?m\<rparr>"
  have n: "nat (u64 (grow + int (fsize f))) = ?m" by (simp only: gr(3) u nat_int)
  have g: "grow_file (int ?m) s f = Some (Some (?f1, current_bytes s + grow))"
  proof -
    have "memory_available s grow" using assms(6) gr(2) by (simp add: memory_available_def)
    moreover have "\<not> (0 < fsize f \<and> fdata f = Wild)" using assms(1,2) by (auto simp: file_ok_def)
    ultimately show ?thesis unfolding grow_file_def u gr(1) Let_def n cp using False by simp
  qed
  have wl: "write_loop (fdata ?f1) off buf = Some (Buf (overwrite ?x off buf))"
    using write_loop_overwrite [of off buf ?x] assms(4) b False by simp
  have "overwrite ?x off buf = overwrite (kept (bytes_of f) ?m) off buf"
    using overwrite_append [of off "kept (bytes_of f) ?m" buf "?m - fsize f"] b assms(3) False by simp
  moreover have "length (overwrite (kept (bytes_of f) ?m) off buf) = ?m"
    using length_overwrite [of off "kept (bytes_of f) ?m" buf] b assms(3) False by simp
  moreover have "0 < ?m" using False by linarith
  ultimately show ?thesis using g wl gr assms(2,3) False
    by (intro exI [of _ ?f1] exI [of _ "Buf (overwrite ?x off buf)"]) (simp add: same_shape_def file_ok_Buf unset_data_def)
qed

lemma grow_file_nospace:
  assumes "int m \<le> INT_MAX" and "fsize f < m" and "current_bytes s + (int m - int (fsize f)) > max_bytes s"
  shows "grow_file (int m) s f = Some None"
proof -
  have u: "u64 (int m) = int m" using assms(1) by (intro u64_id) (auto simp: INT_MAX_def)
  have "int_range (int m - int (fsize f))" using assms(1,2) by (simp add: int_range_def INT_MIN_def)
  then have "int32 (int m - int (fsize f)) = int m - int (fsize f)" by (rule int32_id)
  then show ?thesis using assms(2,3) by (simp add: grow_file_def u memory_available_def)
qed

text \<open>The entry that a path reaches, and what it means for the view.\<close>

lemma entry_at:
  assumes "rd_inv s" and "dir_at (heap s) (rd_root s) ds = Some pa" and "child (heap s) pa n = Some a"
  shows "\<exists>f p. heap s a = Some f \<and> fname f = n \<and> fparent f = Some pa \<and> heap s pa = Some p \<and> a \<in> set (ffiles p)
    \<and> file_ok f \<and> a \<noteq> rd_root s \<and> lookup (heap s) (rd_root s) (ds @ [n]) = Some a \<and> view s (ds @ [n]) = Some (content f)"
proof -
  note w = rd_invD(1) [OF assms(1)]
  obtain p f where f: "heap s pa = Some p" "a \<in> set (ffiles p)" "heap s a = Some f" "fparent f = Some pa" "fname f = n"
    using child_Some [OF w assms(3)] by blast
  moreover have "a \<noteq> rd_root s" using wf_tree_not_root [OF w f(1)] f(2) by auto
  moreover have "lookup (heap s) (rd_root s) (ds @ [n]) = Some a" using lookup_dir_at [OF assms(1)] assms(2,3) by simp
  moreover have "view s (ds @ [n]) = Some (content f)" using view_snoc [OF assms(1)] assms(2,3) f(3) by simp
  ultimately show ?thesis using rd_invD(2) [OF assms(1) f(3)] by blast
qed

text \<open>A write within the limits.\<close>

lemma write_core:
  assumes "rd_inv s" and "\<forall>m \<in> set (ds @ [n]). good_name m" and "dir_at (heap s) (rd_root s) ds = Some pa"
    and "child (heap s) pa n = Some a" and "view s (ds @ [n]) = Some (File d)" and "off \<le> length d"
    and "int (off + length buf) \<le> INT_MAX"
    and grow: "grow = int (off + length buf - length d)" and "0 < grow \<longrightarrow> current_bytes s + grow \<le> max_bytes s"
  shows "\<exists>s'. rd_write s (Some (path_of (ds @ [n]))) buf (int off) = Some (int (length buf), s') \<and> rd_inv s'
    \<and> view s' = (view s)(ds @ [n] \<mapsto> File (overwrite (kept d (off + length buf)) off buf))
    \<and> current_bytes s' = current_bytes s + grow \<and> max_bytes s' = max_bytes s
    \<and> unset s' = (if 0 < grow then (unset s)(ds @ [n] \<mapsto> False) else unset s)"
proof -
  note v = path_valid(2) [OF assms(1,2)]
  have g: "get_rd_file s (Some (path_of (ds @ [n]))) = Some (Some a)" using get_rd_file_at [OF assms(1,2)] assms(3,4) by simp
  obtain f where f: "heap s a = Some f" "file_ok f" "a \<noteq> rd_root s"
    "lookup (heap s) (rd_root s) (ds @ [n]) = Some a" "view s (ds @ [n]) = Some (content f)"
    using entry_at [OF assms(1,3,4)] by blast
  have reg: "ftype f = REGULAR" using f(5) assms(5) by (cases "ftype f") (auto simp: content_def)
  then have d: "bytes_of f = d" using f(5) assms(5) content_bytes by simp
  have sz: "fsize f = length d" using file_ok_bytes [OF f(2) reg] d by simp
  have u: "u64 (int off) = int off" "int32 (u64 (int off + int (length buf))) = int (off + length buf)" "int_range (int off)"
    using assms(7) u64_id [of "int off"] u64_id [of "int (off + length buf)"] int32_id [of "int (off + length buf)"]
    by (auto simp: int_range_def INT_MIN_def INT_MAX_def)
  have lb: "int32 (int (length buf)) = int (length buf)" using assms(7) by (intro int32_id) (auto simp: int_range_def INT_MIN_def)
  obtain f1 x where w: "grow_file (int (off + length buf)) s f = Some (Some (f1, current_bytes s + grow))"
    "write_loop (fdata f1) off buf = Some x" "same_shape f (f1\<lparr>fdata := x\<rparr>)" "file_ok (f1\<lparr>fdata := x\<rparr>)"
    "int (fsize f1) = int (fsize f) + grow" "bytes_of (f1\<lparr>fdata := x\<rparr>) = overwrite (kept d (off + length buf)) off buf"
    "unset_data (f1\<lparr>fdata := x\<rparr>) = (unset_data f \<and> \<not> 0 < grow)"
    using grow_write [OF f(2) reg _ assms(7), of grow s] assms(6,9) grow sz d by auto
  define s' where "s' = s\<lparr>heap := (heap s)(a \<mapsto> f1\<lparr>fdata := x\<rparr>), current_bytes := current_bytes s + grow\<rparr>"
  have le: "current_bytes s + grow \<le> max_bytes s" using assms(9) grow rd_invD(4) [OF assms(1)] by linarith
  have cb: "current_bytes s - int (fsize f) + int (fsize (f1\<lparr>fdata := x\<rparr>)) = current_bytes s + grow" using w(5) by simp
  have inv: "rd_inv s'"
    by (rule rd_inv_update [OF assms(1) f(1) w(3,4) f(3)]) (simp_all only: cb le s'_def)
  have "view s' = (view s)(ds @ [n] \<mapsto> content (f1\<lparr>fdata := x\<rparr>))"
    by (rule view_update [OF assms(1) f(1) w(3) f(4)]) (simp_all add: s'_def)
  moreover have "unset s' = (unset s)(ds @ [n] \<mapsto> unset_data (f1\<lparr>fdata := x\<rparr>))"
    by (rule unset_update [OF assms(1) f(1) w(3) f(4)]) (simp_all add: s'_def)
  moreover have "unset s (ds @ [n]) = Some (unset_data f)" using f(1,4) by (simp add: view_of_def)
  moreover have "content (f1\<lparr>fdata := x\<rparr>) = File (overwrite (kept d (off + length buf)) off buf)"
    using content_bytes [of "f1\<lparr>fdata := x\<rparr>"] w(3,6) reg by (simp add: same_shape_def)
  moreover have "rd_write s (Some (path_of (ds @ [n]))) buf (int off) = Some (int (length buf), s')"
    using v g f(1) u lb sz assms(6) w(1,2) by (simp add: rd_write_def put_file_def s'_def)
  ultimately show ?thesis using inv w(7) by (intro exI [of _ s']) (auto simp: s'_def fun_upd_idem)
qed

lemma write_refused:
  assumes "rd_inv s" and "\<forall>m \<in> set (ds @ [n]). good_name m" and "dir_at (heap s) (rd_root s) ds = Some pa"
    and "child (heap s) pa n = Some a" and "view s (ds @ [n]) = Some (File d)"
    and "int (off + length buf) \<le> INT_MAX"
  shows "length d < off \<Longrightarrow> rd_write s (Some (path_of (ds @ [n]))) buf (int off) = Some (- EFBIG, s)"
    and "off \<le> length d \<Longrightarrow> length d < off + length buf \<Longrightarrow> max_bytes s < current_bytes s + int (off + length buf - length d) \<Longrightarrow>
      rd_write s (Some (path_of (ds @ [n]))) buf (int off) = Some (- ENOSPC, s)"
proof -
  note v = path_valid(2) [OF assms(1,2)]
  have g: "get_rd_file s (Some (path_of (ds @ [n]))) = Some (Some a)" using get_rd_file_at [OF assms(1,2)] assms(3,4) by simp
  obtain f where f: "heap s a = Some f" "file_ok f" "view s (ds @ [n]) = Some (content f)"
    using entry_at [OF assms(1,3,4)] by blast
  have reg: "ftype f = REGULAR" using f(3) assms(5) by (cases "ftype f") (auto simp: content_def)
  have sz: "fsize f = length d" using file_ok_bytes [OF f(2) reg] content_bytes [OF reg] f(3) assms(5) by simp
  have u: "u64 (int off) = int off" "int32 (u64 (int off + int (length buf))) = int (off + length buf)"
    using assms(6) u64_id [of "int off"] u64_id [of "int (off + length buf)"] int32_id [of "int (off + length buf)"]
    by (auto simp: int_range_def INT_MIN_def INT_MAX_def)
  show "length d < off \<Longrightarrow> rd_write s (Some (path_of (ds @ [n]))) buf (int off) = Some (- EFBIG, s)"
    using v g f(1) u sz by (simp add: rd_write_def)
  assume full: "off \<le> length d" "length d < off + length buf" "max_bytes s < current_bytes s + int (off + length buf - length d)"
  then have "grow_file (int (off + length buf)) s f = Some None" using sz assms(6) by (intro grow_file_nospace) auto
  then show "rd_write s (Some (path_of (ds @ [n]))) buf (int off) = Some (- ENOSPC, s)"
    using v g f(1) u sz full(1) by (simp add: rd_write_def)
qed

lemma write_sim:
  assumes "rd_inv s" and "\<forall>m \<in> set (ds @ [n]). good_name m" and "view s ds = Some Dir" and "view s (ds @ [n]) \<noteq> Some Dir"
    and "int (off + length buf) \<le> INT_MAX"
  shows "\<exists>r s'. rd_write s (Some (path_of (ds @ [n]))) buf (int off) = Some (r, s') \<and> rd_inv s'
    \<and> a_write ds n buf off (abs_fs s) = (r, abs_fs s')
    \<and> unset s' = (if used (abs_fs s) < used (abs_fs s') then (unset s)(ds @ [n] \<mapsto> False) else unset s)"
proof -
  obtain pa where pa: "dir_at (heap s) (rd_root s) ds = Some pa" using assms(3) view_dir [OF assms(1)] by blast
  show ?thesis
  proof (cases "child (heap s) pa n")
    case None
    then have "view s (ds @ [n]) = None" using view_snoc [OF assms(1)] pa by simp
    then show ?thesis using None path_valid(2) [OF assms(1,2)] get_rd_file_at [OF assms(1,2)] pa assms(1)
      by (simp add: rd_write_def a_write_def abs_fs_def)
  next
    case (Some a)
    obtain f where "view s (ds @ [n]) = Some (content f)" using entry_at [OF assms(1) pa Some] by blast
    then obtain d where d: "view s (ds @ [n]) = Some (File d)" using assms(4) by (cases "content f") auto
    let ?grow = "int (off + length buf - length d)"
    consider "length d < off" | "off \<le> length d" "length d < off + length buf" "max_bytes s < current_bytes s + ?grow"
      | "off \<le> length d" "0 < ?grow \<longrightarrow> current_bytes s + ?grow \<le> max_bytes s" by linarith
    then show ?thesis
    proof cases
      case 1
      then show ?thesis using write_refused(1) [OF assms(1,2) pa Some d assms(5)] d assms(1) by (simp add: a_write_def abs_fs_def)
    next
      case 2
      then have "a_write ds n buf off (abs_fs s) = (- ENOSPC, abs_fs s)" using d by (simp add: a_write_def Let_def) (simp add: abs_fs_def)
      then show ?thesis using write_refused(2) [OF assms(1,2) pa Some d assms(5) 2] assms(1) by simp
    next
      case 3
      obtain s' where s': "rd_write s (Some (path_of (ds @ [n]))) buf (int off) = Some (int (length buf), s')" "rd_inv s'"
        "view s' = (view s)(ds @ [n] \<mapsto> File (overwrite (kept d (off + length buf)) off buf))" "current_bytes s' = current_bytes s + ?grow" "max_bytes s' = max_bytes s"
        "unset s' = (if 0 < ?grow then (unset s)(ds @ [n] \<mapsto> False) else unset s)"
        using write_core [OF assms(1,2) pa Some d 3(1) assms(5) refl 3(2)] by auto
      have le: "current_bytes s + ?grow \<le> max_bytes s" using 3(2) rd_invD(4) [OF assms(1)] by linarith
      have "a_write ds n buf off (abs_fs s) = (int (length buf), (abs_fs s)
          \<lparr>tree := (view s)(ds @ [n] \<mapsto> File (overwrite (kept d (off + length buf)) off buf)), used := current_bytes s + ?grow\<rparr>)"
        using le d 3(1) by (simp add: a_write_def abs_fs_def Let_def)
      then show ?thesis using s' by (intro exI [of _ "int (length buf)"] exI [of _ s']) (simp add: abs_fs_def)
    qed
  qed
qed

section \<open>Removing and opening\<close>

lemma delete_leaf:
  assumes "rd_inv s" and "leaf_of (heap s) pa p a f" and "\<not> unset_data f"
  shows "\<exists>h fs p'. delete_item (heap s) (ffiles p) a = Some (h, fs) \<and> h pa = Some p'
    \<and> h(pa \<mapsto> p'\<lparr>ffiles := fs\<rparr>) = unlinked (heap s) pa p a"
proof -
  note w = rd_invD(1) [OF assms(1)]
  note leaf = leaf_facts [OF w assms(2)]
  have p: "heap s pa = Some p" "heap s a = Some f" using assms(2) by (auto simp: leaf_of_def)
  have "fdata f \<noteq> Wild" using assms(3) by (simp add: unset_data_def)
  then have "delete_item (heap s) (ffiles p) a = Some ((heap s)(a := None), remove1 a (ffiles p))"
    using p leaf(1) by (simp add: delete_item_remove1 free_file_def)
  then show ?thesis using p leaf(2) by (simp add: unlinked_def)
qed

lemma regular_no_files: "rd_inv s \<Longrightarrow> heap s a = Some f \<Longrightarrow> ftype f = REGULAR \<Longrightarrow> ffiles f = []"
  using wf_tree_entry [OF rd_invD(1)] by (cases "ffiles f") fastforce+

lemma unlink_sim:
  assumes "rd_inv s" and "\<forall>m \<in> set (ds @ [n]). good_name m" and "view s (ds @ [n]) \<noteq> Some Dir"
    and "unset s (ds @ [n]) \<noteq> Some True"
  shows "\<exists>r s'. rd_unlink s (Some (path_of (ds @ [n]))) = Some (r, s') \<and> rd_inv s' \<and> a_unlink ds n (abs_fs s) = (r, abs_fs s')
    \<and> unset s' = (if r = 0 then (unset s)(ds @ [n] := None) else unset s)"
proof -
  note start = path_valid(1) [OF assms(1,2)] names_ok [OF assms(2)] parent_at [OF assms(1), of ds n]
  show ?thesis
  proof (cases "dir_at (heap s) (rd_root s) ds")
    case None
    then have "view s (ds @ [n]) = None" using view_snoc [OF assms(1)] by simp
    then show ?thesis using None start assms(1) by (simp add: rd_unlink_def a_unlink_def abs_fs_def errno_defs)
  next
    case pa: (Some pa)
    then obtain p where p: "heap s pa = Some p" "lookup (heap s) (rd_root s) ds = Some pa" using dir_at_Some [OF assms(1)] by blast
    note gf = get_file_child [OF rd_invD(1) [OF assms(1)] p(1), of n]
    show ?thesis
    proof (cases "child (heap s) pa n")
      case None
      then have "view s (ds @ [n]) = None" using view_snoc [OF assms(1)] pa by simp
      then show ?thesis using None start gf pa p assms(1) by (simp add: rd_unlink_def a_unlink_def abs_fs_def errno_defs)
    next
      case (Some a)
      obtain f where f: "heap s a = Some f" "fname f = n" "fparent f = Some pa" "file_ok f" "view s (ds @ [n]) = Some (content f)"
        "lookup (heap s) (rd_root s) (ds @ [n]) = Some a"
        using entry_at [OF assms(1) pa Some] by blast
      have un: "\<not> unset_data f" using f(1,6) assms(4) by (simp add: view_of_def)
      have reg: "ftype f = REGULAR" using f(5) assms(3) by (cases "ftype f") (auto simp: content_def)
      have leaf: "leaf_of (heap s) pa p a f" using p f regular_no_files [OF assms(1) f(1) reg] by (simp add: leaf_of_def)
      obtain h fs p' where d: "delete_item (heap s) (ffiles p) a = Some (h, fs)" "h pa = Some p'"
        "h(pa \<mapsto> p'\<lparr>ffiles := fs\<rparr>) = unlinked (heap s) pa p a" using delete_leaf [OF assms(1) leaf un] by blast
      define s' where "s' = s\<lparr>heap := unlinked (heap s) pa p a, current_bytes := current_bytes s - int (fsize f)\<rparr>"
      have "rd_inv s'" by (rule rd_inv_unlinked [OF assms(1) leaf s'_def])
      moreover have "view s' = (view s)(ds @ [n] := None)"
        using view_unlinked [OF assms(1) leaf p(2), of s'] f(2) by (simp add: s'_def)
      moreover have "unset s' = (unset s)(ds @ [n] := None)"
        using unset_unlinked [OF assms(1) leaf p(2), of s'] f(2) by (simp add: s'_def)
      moreover have "rd_unlink s (Some (path_of (ds @ [n]))) = Some (0, s')"
        using start gf pa p(1) Some f(1) d by (simp add: rd_unlink_def s'_def)
      moreover have "fsize f = length (bytes_of f)" using file_ok_bytes [OF f(4) reg] by simp
      ultimately show ?thesis using f(5) content_bytes [OF reg]
        by (intro exI [of _ 0] exI [of _ s']) (simp add: a_unlink_def abs_fs_def s'_def)
    qed
  qed
qed

lemma empty_dir_files:
  assumes "rd_inv s" and "lookup (heap s) (rd_root s) ns = Some a" and "heap s a = Some f"
  shows "empty_dir (abs_fs s) ns \<longleftrightarrow> ffiles f = []"
proof
  assume e: "empty_dir (abs_fs s) ns"
  show "ffiles f = []"
  proof (rule ccontr)
    assume "ffiles f \<noteq> []"
    then obtain c where c: "c \<in> set (ffiles f)" by (cases "ffiles f") auto
    note w = rd_invD(1) [OF assms(1)]
    obtain g where g: "heap s c = Some g" using wf_tree_entry [OF w assms(3) c] by blast
    have "child (heap s) a (name_of (heap s) c) = Some c"
      using find_distinct [OF wf_tree_names [OF w assms(3)] c] assms(3) by (simp add: child_def)
    then have "view s (ns @ [name_of (heap s) c]) \<noteq> None" using assms(2) g by (simp add: view_def lookup_snoc)
    then show False using e by (simp add: empty_dir_def abs_fs_def)
  qed
next
  assume "ffiles f = []"
  then show "empty_dir (abs_fs s) ns" using assms(2,3) by (simp add: empty_dir_def abs_fs_def view_def lookup_snoc child_def)
qed

lemma rmdir_sim:
  assumes "rd_inv s" and "\<forall>m \<in> set (ds @ [n]). good_name m" and "view s ds = Some Dir"
    and "view s (ds @ [n]) = Some Dir \<Longrightarrow> empty_dir (abs_fs s) (ds @ [n]) \<Longrightarrow> unset s (ds @ [n]) \<noteq> Some True"
  shows "\<exists>r s'. rd_rmdir s (Some (path_of (ds @ [n]))) = Some (r, s') \<and> rd_inv s' \<and> a_rmdir ds n (abs_fs s) = (r, abs_fs s')
    \<and> unset s' = (if r = 0 then (unset s)(ds @ [n] := None) else unset s)"
proof -
  obtain pa where pa: "dir_at (heap s) (rd_root s) ds = Some pa" using assms(3) view_dir [OF assms(1)] by blast
  note m = path_valid(1) [OF assms(1,2)]
  have g: "get_rd_file s (Some (path_of (ds @ [n]))) = Some (child (heap s) pa n)" using get_rd_file_at [OF assms(1,2)] pa by simp
  show ?thesis
  proof (cases "child (heap s) pa n")
    case None
    then have "view s (ds @ [n]) = None" using view_snoc [OF assms(1)] pa by simp
    then show ?thesis using None m g assms(1) by (simp add: rd_rmdir_def a_rmdir_def abs_fs_def errno_defs)
  next
    case (Some a)
    obtain f p where f: "heap s a = Some f" "fname f = n" "fparent f = Some pa" "file_ok f" "heap s pa = Some p"
      "lookup (heap s) (rd_root s) (ds @ [n]) = Some a" "view s (ds @ [n]) = Some (content f)"
      using entry_at [OF assms(1) pa Some] by blast
    have l: "lookup (heap s) (rd_root s) ds = Some pa" using dir_at_Some [OF assms(1) pa] by blast
    note e = empty_dir_files [OF assms(1) f(6,1)]
    consider "ftype f = REGULAR" | "ftype f = DIRECTORY" "ffiles f \<noteq> []" | "ftype f = DIRECTORY" "ffiles f = []"
      by (cases "ftype f") auto
    then show ?thesis
    proof cases
      case 1
      then show ?thesis using m g Some f assms(1) by (simp add: rd_rmdir_def a_rmdir_def abs_fs_def content_def errno_defs)
    next
      case 2
      then have "view s (ds @ [n]) = Some Dir" using f(7) by (simp add: content_def)
      then show ?thesis using 2 m g Some f(1) assms(1) e by (simp add: rd_rmdir_def a_rmdir_def) (simp add: abs_fs_def errno_defs)
    next
      case 3
      then have v: "view s (ds @ [n]) = Some Dir" using f(7) by (simp add: content_def)
      have un: "\<not> unset_data f" using assms(4) [OF v] e 3 f(1,6) by (simp add: view_of_def)
      have leaf: "leaf_of (heap s) pa p a f" using f 3 by (simp add: leaf_of_def)
      obtain h fs p' where d: "delete_item (heap s) (ffiles p) a = Some (h, fs)" "h pa = Some p'"
        "h(pa \<mapsto> p'\<lparr>ffiles := fs\<rparr>) = unlinked (heap s) pa p a" using delete_leaf [OF assms(1) leaf un] by blast
      define s' where "s' = s\<lparr>heap := unlinked (heap s) pa p a, current_bytes := current_bytes s - int (fsize f)\<rparr>"
      have sz: "fsize f = 4096" using f(4) 3 by (simp add: file_ok_def DIRECTORY_BYTES_def)
      have "rd_inv s'" by (rule rd_inv_unlinked [OF assms(1) leaf s'_def])
      moreover have "view s' = (view s)(ds @ [n] := None)"
        using view_unlinked [OF assms(1) leaf l, of s'] f(2) by (simp add: s'_def)
      moreover have "unset s' = (unset s)(ds @ [n] := None)"
        using unset_unlinked [OF assms(1) leaf l, of s'] f(2) by (simp add: s'_def)
      moreover have "rd_rmdir s (Some (path_of (ds @ [n]))) = Some (0, s')"
        using m g Some f d 3 sz by (simp add: rd_rmdir_def s'_def DIRECTORY_BYTES_def)
      ultimately show ?thesis using v e 3 sz
        by (intro exI [of _ 0] exI [of _ s']) (simp add: a_rmdir_def, simp add: abs_fs_def s'_def)
    qed
  qed
qed

lemma open_sim:
  assumes "rd_inv s" and "\<forall>m \<in> set (ds @ [n]). good_name m" and "view s ds = Some Dir"
  shows "\<exists>r s'. rd_open s (Some (path_of (ds @ [n]))) flags = Some (r, s') \<and> rd_inv s' \<and> a_open ds n flags (abs_fs s) = (r, abs_fs s')
    \<and> unset s' = unset s"
proof -
  obtain pa where pa: "dir_at (heap s) (rd_root s) ds = Some pa" using assms(3) view_dir [OF assms(1)] by blast
  note v = path_valid(2) [OF assms(1,2)]
  have g: "get_rd_file s (Some (path_of (ds @ [n]))) = Some (child (heap s) pa n)" using get_rd_file_at [OF assms(1,2)] pa by simp
  have r0: "\<not> flag_set flags O_RDONLY" by (simp add: flag_set_def O_RDONLY_def)
  show ?thesis
  proof (cases "child (heap s) pa n")
    case None
    then have "view s (ds @ [n]) = None" using view_snoc [OF assms(1)] pa by simp
    then show ?thesis using None v g assms(1) by (simp add: rd_open_def a_open_def abs_fs_def)
  next
    case (Some a)
    obtain f where f: "heap s a = Some f" "file_ok f" "a \<noteq> rd_root s" "lookup (heap s) (rd_root s) (ds @ [n]) = Some a"
      "view s (ds @ [n]) = Some (content f)" using entry_at [OF assms(1) pa Some] by blast
    show ?thesis
    proof (cases "ftype f = DIRECTORY \<and> (flag_set flags O_RDWR \<or> flag_set flags O_APPEND)")
      case True
      then show ?thesis using v g Some f(1,5) r0 assms(1) by (auto simp: rd_open_def a_open_def abs_fs_def content_def)
    next
      case False
      define f' where "f' = f\<lparr>fopened := True\<rparr>"
      define s' where "s' = s\<lparr>heap := (heap s)(a \<mapsto> f')\<rparr>"
      have sh: "same_shape f f'" "file_ok f'" "fsize f' = fsize f" "content f' = content f"
        using f(2) by (auto simp: same_shape_def f'_def content_def)
      have "rd_inv s'" by (rule rd_inv_update [OF assms(1) f(1) sh(1,2) f(3)]) (use rd_invD(4) [OF assms(1)] sh(3) in \<open>simp_all add: s'_def\<close>)
      moreover have "view s' = view s"
        using view_update [OF assms(1) f(1) sh(1) f(4), of s'] sh(4) f(5) by (simp add: s'_def fun_upd_idem)
      moreover have "unset s' = unset s"
        using unset_update [OF assms(1) f(1) sh(1) f(4), of s'] f(1,4) by (simp add: s'_def f'_def unset_data_def view_of_def fun_eq_iff)
      moreover have "rd_open s (Some (path_of (ds @ [n]))) flags = Some (0, s')"
        using v g Some f(1) r0 False by (auto simp: rd_open_def put_file_def s'_def f'_def)
      ultimately show ?thesis using f(5) False
        by (intro exI [of _ 0] exI [of _ s']) (auto simp: a_open_def abs_fs_def s'_def content_def)
    qed
  qed
qed

end
