(* ===== verification/Runs.thy ===== *)
theory Runs
  imports Prelude
begin

text \<open>
  Sequences of operations: running a list of operations of an implementation, whose steps may be
  undefined, and of a specification on abstract states, and the contract under which the one implements
  the other.
\<close>

text \<open>Running a list of operations, in the model and in the specification.\<close>

fun runs :: "('op \<Rightarrow> 's \<Rightarrow> ('r \<times> 's) option) \<Rightarrow> 'op list \<Rightarrow> 's \<Rightarrow> ('r list \<times> 's) option" where
  "runs ex [] s = Some ([], s)"
| "runs ex (x # xs) s = do { (r, s1) \<leftarrow> ex x s; (rs, s2) \<leftarrow> runs ex xs s1; Some (r # rs, s2) }"

fun aruns :: "('op \<Rightarrow> 'a \<Rightarrow> 'r \<times> 'a) \<Rightarrow> 'op list \<Rightarrow> 'a \<Rightarrow> 'r list \<times> 'a" where
  "aruns ax [] t = ([], t)"
| "aruns ax (x # xs) t = (let (r, t1) = ax x t; (rs, t2) = aruns ax xs t1 in (r # rs, t2))"

fun all_allowed :: "('op \<Rightarrow> 'a \<Rightarrow> 'r \<times> 'a) \<Rightarrow> ('op \<Rightarrow> 'a \<Rightarrow> bool) \<Rightarrow> 'op list \<Rightarrow> 'a \<Rightarrow> bool" where
  "all_allowed ax al [] t = True"
| "all_allowed ax al (x # xs) t = (al x t \<and> all_allowed ax al xs (snd (ax x t)))"

text \<open>
  The contract of a simulation: \<open>ex\<close> executes an operation, \<open>ax\<close> is its specification, \<open>inv\<close> the
  invariant, \<open>ab\<close> the abstract state and \<open>al\<close> the condition under which an operation may be called.
\<close>

locale simulation =
  fixes ex :: "'op \<Rightarrow> 's \<Rightarrow> ('r \<times> 's) option"
    and ax :: "'op \<Rightarrow> 'a \<Rightarrow> 'r \<times> 'a"
    and inv :: "'s \<Rightarrow> bool"
    and ab :: "'s \<Rightarrow> 'a"
    and al :: "'op \<Rightarrow> 'a \<Rightarrow> bool"
  assumes step: "inv s \<Longrightarrow> al x (ab s) \<Longrightarrow> \<exists>r s'. ex x s = Some (r, s') \<and> inv s' \<and> ax x (ab s) = (r, ab s')"
begin

lemma run_refines:
  "inv s \<Longrightarrow> all_allowed ax al xs (ab s) \<Longrightarrow> \<exists>rs s'. runs ex xs s = Some (rs, s') \<and> inv s' \<and> aruns ax xs (ab s) = (rs, ab s')"
proof (induction xs arbitrary: s)
  case Nil
  then show ?case by simp
next
  case (Cons x xs)
  obtain r s1 where s1: "ex x s = Some (r, s1)" "inv s1" "ax x (ab s) = (r, ab s1)" using step [of s x] Cons.prems by auto
  then obtain rs s2 where "runs ex xs s1 = Some (rs, s2)" "inv s2" "aruns ax xs (ab s1) = (rs, ab s2)"
    using Cons.IH [of s1] Cons.prems(2) by auto
  then show ?case using s1 by auto
qed

end

text \<open>
  Operations that may be called only in some states: \<open>may\<close> is the obligation of the caller.
\<close>

fun run_ops :: "('op \<Rightarrow> 's \<Rightarrow> 's option) \<Rightarrow> 'op list \<Rightarrow> 's \<Rightarrow> 's option" where
  "run_ops ex [] s = Some s"
| "run_ops ex (x # xs) s = do { s1 \<leftarrow> ex x s; run_ops ex xs s1 }"

fun all_may :: "('op \<Rightarrow> 's \<Rightarrow> 's option) \<Rightarrow> ('op \<Rightarrow> 's \<Rightarrow> bool) \<Rightarrow> 'op list \<Rightarrow> 's \<Rightarrow> bool" where
  "all_may ex may [] s = True"
| "all_may ex may (x # xs) s = (may x s \<and> (case ex x s of None \<Rightarrow> True | Some s1 \<Rightarrow> all_may ex may xs s1))"

locale guarded =
  fixes ex :: "'op \<Rightarrow> 's \<Rightarrow> 's option"
    and may :: "'op \<Rightarrow> 's \<Rightarrow> bool"
    and inv :: "'s \<Rightarrow> bool"
  assumes step: "inv s \<Longrightarrow> may x s \<Longrightarrow> \<exists>s'. ex x s = Some s' \<and> inv s'"
begin

lemma run_defined: "inv s \<Longrightarrow> all_may ex may xs s \<Longrightarrow> \<exists>s'. run_ops ex xs s = Some s' \<and> inv s'"
proof (induction xs arbitrary: s)
  case (Cons x xs)
  then obtain s1 where "ex x s = Some s1" "inv s1" using step [of s x] by auto
  then show ?case using Cons by simp
qed simp

end

end
