(* ===== verification/Ram_Props.thy ===== *)
theory Ram_Props
  imports Ram_Ops Runs
begin

text \<open>
  Properties of the RAM disk: sequences of operations from mounting on refine the abstract file system
  and keep its accounts; reading gives back what was written; the reading operations report the
  abstract state; and the inputs on which the code goes wrong.
\<close>

section \<open>Sequences of operations\<close>

text \<open>The operations that change the file system, by the path of the parent and the name.\<close>

datatype fsop =
  Mkdir "string list" string
| Create "string list" string
| Write "string list" string string nat
| Unlink "string list" string
| Rmdir "string list" string
| Open "string list" string int

text \<open>
  An operation comes with a flag that says whether the memory \<open>malloc\<close> returns in it happens to be zero. Nothing is
  assumed of these flags.
\<close>

definition fuse_op :: "bool \<times> fsop \<Rightarrow> ramdisk \<Rightarrow> (int \<times> ramdisk) option" where
  "fuse_op zx s = (case zx of (z, x) \<Rightarrow> (case x of
       Mkdir ds n \<Rightarrow> rd_mkdir (fresh_data z) s (Some (path_of (ds @ [n])))
     | Create ds n \<Rightarrow> rd_create (fresh_data z) s (Some (path_of (ds @ [n])))
     | Write ds n buf off \<Rightarrow> rd_write s (Some (path_of (ds @ [n]))) buf (int off)
     | Unlink ds n \<Rightarrow> rd_unlink s (Some (path_of (ds @ [n])))
     | Rmdir ds n \<Rightarrow> rd_rmdir s (Some (path_of (ds @ [n])))
     | Open ds n flags \<Rightarrow> rd_open s (Some (path_of (ds @ [n]))) flags))"

text \<open>
  The abstract file system, and for each path whether the data pointer of the object was never set and was not zero: it
  is what the memory held when the object was created, until a file grows for the first time.
\<close>

type_synonym astate = "afs \<times> (string list \<Rightarrow> bool option)"

definition spec_op :: "bool \<times> fsop \<Rightarrow> astate \<Rightarrow> int \<times> astate" where
  "spec_op zx tw = (case (zx, tw) of ((z, x), t, w) \<Rightarrow> (case x of
       Mkdir ds n \<Rightarrow> (let (r, t') = a_mkdir ds n t in (r, t', if r = 0 then w(ds @ [n] \<mapsto> \<not> z) else w))
     | Create ds n \<Rightarrow> (let (r, t') = a_create ds n t in (r, t', if r = 0 then w(ds @ [n] \<mapsto> \<not> z) else w))
     | Write ds n buf off \<Rightarrow> (let (r, t') = a_write ds n buf off t in (r, t', if used t < used t' then w(ds @ [n] \<mapsto> False) else w))
     | Unlink ds n \<Rightarrow> (let (r, t') = a_unlink ds n t in (r, t', if r = 0 then w(ds @ [n] := None) else w))
     | Rmdir ds n \<Rightarrow> (let (r, t') = a_rmdir ds n t in (r, t', if r = 0 then w(ds @ [n] := None) else w))
     | Open ds n flags \<Rightarrow> (let (r, t') = a_open ds n flags t in (r, t', w))))"

text \<open>
  What the kernel has checked before it passes an operation on: names are components of paths; a file is
  created only where nothing is, unlinked only when it is no directory, and written, opened or removed
  only in a directory. Beyond that, writes are restricted to ends that fit an \<open>int\<close>, and an object is removed only if its
  data pointer, which is freed then, was set or happened to be \<open>NULL\<close>.
\<close>

definition may :: "bool \<times> fsop \<Rightarrow> astate \<Rightarrow> bool" where
  "may zx tw = (case (zx, tw) of ((z, x), t, w) \<Rightarrow> (case x of
       Mkdir ds n \<Rightarrow> list_all good_name (ds @ [n])
     | Create ds n \<Rightarrow> list_all good_name (ds @ [n]) \<and> tree t (ds @ [n]) = None
     | Write ds n buf off \<Rightarrow> list_all good_name (ds @ [n]) \<and> tree t ds = Some Dir \<and> tree t (ds @ [n]) \<noteq> Some Dir
         \<and> int (off + length buf) \<le> INT_MAX
     | Unlink ds n \<Rightarrow> list_all good_name (ds @ [n]) \<and> tree t (ds @ [n]) \<noteq> Some Dir \<and> w (ds @ [n]) \<noteq> Some True
     | Rmdir ds n \<Rightarrow> list_all good_name (ds @ [n]) \<and> tree t ds = Some Dir
         \<and> (if tree t (ds @ [n]) = Some Dir \<and> fst (a_rmdir ds n t) = 0 then w (ds @ [n]) \<noteq> Some True else True)
     | Open ds n flags \<Rightarrow> list_all good_name (ds @ [n]) \<and> tree t ds = Some Dir))"

definition abs_state :: "ramdisk \<Rightarrow> astate" where
  "abs_state s = (abs_fs s, unset s)"

lemma tree_abs [simp]: "tree (abs_fs s) = view s"
  by (simp add: abs_fs_def)

lemma fuse_op_step:
  assumes "rd_inv s" and "may zx (abs_state s)"
  shows "\<exists>r s'. fuse_op zx s = Some (r, s') \<and> rd_inv s' \<and> spec_op zx (abs_state s) = (r, abs_state s')"
proof -
  obtain z x where zx: "zx = (z, x)" by force
  show ?thesis
  proof (cases x)
    case (Mkdir ds n)
    then show ?thesis using mkdir_sim [OF assms(1), of ds n z] assms(2) by (auto simp: zx may_def fuse_op_def spec_op_def abs_state_def list_all_iff)
  next
    case (Create ds n)
    then show ?thesis using create_sim [OF assms(1), of ds n z] assms(2) by (auto simp: zx may_def fuse_op_def spec_op_def abs_state_def list_all_iff)
  next
    case (Write ds n buf off)
    then show ?thesis using write_sim [OF assms(1), of ds n off buf] assms(2)
      by (auto simp: zx may_def fuse_op_def spec_op_def abs_state_def list_all_iff)
  next
    case (Unlink ds n)
    then show ?thesis using unlink_sim [OF assms(1), of ds n] assms(2) by (auto simp: zx may_def fuse_op_def spec_op_def abs_state_def list_all_iff)
  next
    case (Rmdir ds n)
    have "unset s (ds @ [n]) \<noteq> Some True" if "view s (ds @ [n]) = Some Dir" "empty_dir (abs_fs s) (ds @ [n])"
      using assms(2) that Rmdir by (simp add: zx may_def abs_state_def a_rmdir_def)
    then show ?thesis using rmdir_sim [OF assms(1), of ds n] assms(2) Rmdir
      by (auto simp: zx may_def fuse_op_def spec_op_def abs_state_def list_all_iff)
  next
    case (Open ds n flags)
    then show ?thesis using open_sim [OF assms(1), of ds n flags] assms(2) by (auto simp: zx may_def fuse_op_def spec_op_def abs_state_def list_all_iff)
  qed
qed

interpretation ram: simulation fuse_op spec_op rd_inv abs_state may
  by unfold_locales (rule fuse_op_step)

definition empty_fs :: "int \<Rightarrow> afs" where
  "empty_fs mb = \<lparr>tree = [[] \<mapsto> Dir], used = 0, limit = mb\<rparr>"

definition mounted :: "int \<Rightarrow> bool \<Rightarrow> astate" where
  "mounted mb z = (empty_fs mb, [[] \<mapsto> \<not> z])"

lemma init_inv:
  assumes "0 \<le> mb" and "mb \<le> INT_MAX" and "init_ramdisk (fresh_data z) mb u g = Some s"
  shows "rd_inv s" "abs_state s = mounted mb z"
proof -
  have s: "s = \<lparr>max_bytes = mb, current_bytes = 0, rd_uid = u, rd_gid = g, rd_root = 0,
      heap = [0 \<mapsto> \<lparr>ftype = DIRECTORY, fname = ''/'', fpath = [], fparent = None, fsize = DIRECTORY_BYTES,
        fdata = fresh_data z, fopened = False, ffiles = []\<rparr>], fresh = 1\<rparr>"
    using assms(3) by (simp add: init_ramdisk_def create_rd_file_def)
  show "rd_inv s" using assms(1,2) by (auto simp: s rd_inv_def wf_tree_def file_ok_def fresh_data_def total_size_def split: if_splits)
  have "lookup (heap s) (rd_root s) ns = (if ns = [] then Some 0 else None)" for ns
    by (cases ns) (simp_all add: s child_def)
  then show "abs_state s = mounted mb z"
    by (auto simp: abs_state_def mounted_def abs_fs_def empty_fs_def view_def view_of_def content_def unset_data_def fresh_data_def s fun_eq_iff)
qed


text \<open>
  A directory in zeroed memory with a file in memory that is not; the file is written, also with a \<open>NUL\<close>, and grows; then both are
  removed.
\<close>

definition demo_ops :: "(bool \<times> fsop) list" where
  "demo_ops = [(True, Mkdir [] ''d''), (False, Create [''d''] ''f''), (False, Write [''d''] ''f'' ''hello'' 0), (False, Open [''d''] ''f'' 2),
     (False, Write [''d''] ''f'' [CHR 0x00] 3), (False, Write [''d''] ''f'' ''p!'' 5), (False, Unlink [''d''] ''f''), (False, Rmdir [] ''d'')]"

lemma demo_allowed: "all_allowed spec_op may demo_ops (mounted 1048576 False)"
  by (simp add: demo_ops_def may_def spec_op_def mounted_def empty_fs_def good_name_def INT_MAX_def
      a_mkdir_def a_create_def a_write_def a_unlink_def a_open_def overwrite_def kept_def)

lemma init_Some: "\<exists>s. init_ramdisk junk mb u g = Some s"
  by (simp add: init_ramdisk_def create_rd_file_def)


text \<open>
  Property C15: the accounts. In every state that such a sequence reaches, whatever fresh memory holds and whatever bytes are
  written, \<open>current_bytes\<close> is the sum of the sizes of all files and directories but the root, it is not negative,
  and it does not exceed the size of the disk.
\<close>

theorem ramdisk_accounts:
  assumes "0 \<le> mb" and "mb \<le> INT_MAX" and "init_ramdisk (fresh_data z) mb u g = Some s"
    and "all_allowed spec_op may xs (mounted mb z)" and "runs fuse_op xs s = Some (rs, s')"
  shows "current_bytes s' = total_size (heap s') (rd_root s') \<and> 0 \<le> current_bytes s' \<and> current_bytes s' \<le> max_bytes s'"
proof -
  have "rd_inv s'" using ram.run_refines [OF init_inv(1) [OF assms(1-3)], of xs] init_inv(2) [OF assms(1-3)] assms(4,5) by auto
  then show ?thesis using total_size_nonneg by (simp add: rd_inv_def)
qed

theorem ramdisk_accounts_witness:
  "\<exists>rs s'. runs fuse_op demo_ops (the (init_ramdisk (fresh_data False) 1048576 0 0)) = Some (rs, s')
    \<and> current_bytes s' = total_size (heap s') (rd_root s') \<and> 0 \<le> current_bytes s' \<and> current_bytes s' \<le> max_bytes s'"
proof -
  have i: "init_ramdisk (fresh_data False) 1048576 0 0 = Some (the (init_ramdisk (fresh_data False) 1048576 0 0))" using init_Some by auto
  have m: "(1048576 :: int) \<le> INT_MAX" "(0 :: int) \<le> 1048576" by (simp_all add: INT_MAX_def)
  obtain rs s' where "runs fuse_op demo_ops (the (init_ramdisk (fresh_data False) 1048576 0 0)) = Some (rs, s')"
    using ram.run_refines [OF init_inv(1) [OF m(2,1) i], of demo_ops] init_inv(2) [OF m(2,1) i] demo_allowed by auto
  then show ?thesis using ramdisk_accounts [OF m(2,1) i demo_allowed] by blast
qed

section \<open>A small disk\<close>

text \<open>The disk after \<open>mkdir /d\<close> and writing five bytes to \<open>/d/f\<close>.\<close>

definition demo_root :: rd_file where
  "demo_root = \<lparr>ftype = DIRECTORY, fname = ''/'', fpath = [], fparent = None, fsize = 4096, fdata = NullPtr, fopened = False, ffiles = [1]\<rparr>"
definition demo_dir :: rd_file where
  "demo_dir = \<lparr>ftype = DIRECTORY, fname = ''d'', fpath = ''/'', fparent = Some 0, fsize = 4096, fdata = NullPtr, fopened = False, ffiles = [2]\<rparr>"
definition demo_file :: rd_file where
  "demo_file = \<lparr>ftype = REGULAR, fname = ''f'', fpath = ''d'', fparent = Some 1, fsize = 5, fdata = Buf ''hello'', fopened = True, ffiles = []\<rparr>"

definition demo_disk :: ramdisk where
  "demo_disk = \<lparr>max_bytes = 1048576, current_bytes = 4101, rd_uid = 0, rd_gid = 0, rd_root = 0,
     heap = [0 \<mapsto> demo_root, 1 \<mapsto> demo_dir, 2 \<mapsto> demo_file], fresh = 3\<rparr>"

lemmas demo_defs = demo_root_def demo_dir_def demo_file_def demo_disk_def

lemma demo_inv: "rd_inv demo_disk"
proof -
  let ?h = "[0 \<mapsto> demo_root, 1 \<mapsto> demo_dir, 2 \<mapsto> demo_file] :: fheap"
  have n: "name_of ?h 0 = ''/''" "name_of ?h 1 = ''d''" "name_of ?h 2 = ''f''" by (simp_all add: name_of_def demo_defs)
  have at: "a = 0 \<and> f = demo_root \<or> a = 1 \<and> f = demo_dir \<or> a = 2 \<and> f = demo_file" if "?h a = Some f" for a f
    using that by (auto split: if_splits)
  have "wf_tree ?h 0 3"
    unfolding wf_tree_def
  proof (intro conjI allI impI)
    fix a f assume "?h a = Some f"
    then show "a < 3" using at by fastforce
  next
    fix a f c assume "?h a = Some f" "c \<in> set (ffiles f)"
    then show "ftype f = DIRECTORY" "\<exists>g. ?h c = Some g \<and> fparent g = Some a" using at by (fastforce simp: demo_defs)+
  next
    fix c g a assume "?h c = Some g" "fparent g = Some a"
    then show "\<exists>f. ?h a = Some f \<and> c \<in> set (ffiles f)" using at by (fastforce simp: demo_defs)
  next
    fix a f assume "?h a = Some f"
    then show "distinct (map (name_of ?h) (ffiles f))" using at by (fastforce simp: demo_defs)
  next
    fix c g assume "?h c = Some g" "c \<noteq> 0"
    then show "fparent g \<noteq> None" "good_name (fname g)" using at by (fastforce simp: demo_defs good_name_def)+
  qed (simp add: demo_defs)
  moreover have "file_ok f" if "?h a = Some f" for a f
    using at [OF that] by (elim disjE conjE) (simp_all add: file_ok_def demo_defs DIRECTORY_BYTES_def)
  moreover have "total_size ?h 0 = 4101"
  proof -
    have "dom ?h - {0} = {1, 2}" by auto
    then show ?thesis by (simp add: total_size_def demo_defs)
  qed
  ultimately show ?thesis by (simp add: rd_inv_def demo_disk_def INT_MAX_def)
qed

lemma demo_view:
  "view demo_disk [''d''] = Some Dir" "view demo_disk ([''d''] @ [''f'']) = Some (File ''hello'')" "view demo_disk ([''x''] @ [''f'']) = None"
  by (simp_all add: view_def child_def name_of_def content_def demo_defs)

lemma demo_names: "list_all good_name ([''d''] @ [''f''])"
  by (simp add: good_name_def)

section \<open>Reading\<close>

lemma file_size_bound:
  assumes "rd_inv s" and "heap s a = Some f" and "a \<noteq> rd_root s"
  shows "int (fsize f) \<le> INT_MAX"
proof -
  have "int (fsize (the (heap s a))) \<le> total_size (heap s) (rd_root s)"
    unfolding total_size_def using wf_tree_finite [OF rd_invD(1) [OF assms(1)]] assms(2,3)
    by (intro member_le_sum) auto
  then show ?thesis using assms(2) rd_invD(3-5) [OF assms(1)] by simp
qed

lemma file_entry:
  assumes "rd_inv s" and "view s (ds @ [n]) = Some x"
  shows "\<exists>pa a. dir_at (heap s) (rd_root s) ds = Some pa \<and> child (heap s) pa n = Some a"
  using assms(2) by (auto simp: view_snoc [OF assms(1)] elim!: bind_SomeE)

lemma read_at:
  assumes "rd_inv s" and "\<forall>m \<in> set (ds @ [n]). good_name m" and "view s (ds @ [n]) = Some (File d)"
    and "int (off + sz) \<le> INT_MAX"
  shows "rd_read s (Some (path_of (ds @ [n]))) cap sz (int off) =
    (if off < length d then (let k = min sz (length d - off) in if k < cap then Some (int k, take k (drop off d) @ [CHR 0x00]) else None)
     else Some (0, []))"
proof -
  obtain pa a where pa: "dir_at (heap s) (rd_root s) ds = Some pa" "child (heap s) pa n = Some a" using file_entry [OF assms(1,3)] by blast
  obtain f where f: "heap s a = Some f" "file_ok f" "a \<noteq> rd_root s" "view s (ds @ [n]) = Some (content f)"
    using entry_at [OF assms(1) pa] by blast
  have reg: "ftype f = REGULAR" using f(4) assms(3) by (cases "ftype f") (auto simp: content_def)
  have b: "bytes_of f = d" using f(4) assms(3) content_bytes [OF reg] by simp
  have dd: "fsize f = length d" "d = [] \<longrightarrow> fdata f = NullPtr \<or> fdata f = Wild" "d \<noteq> [] \<longrightarrow> fdata f = Buf d" using file_ok_bytes [OF f(2) reg] b by auto
  have u: "u64 (int off) = int off" "u64 (int off + int sz) = int off + int sz"
    using assms(4) u64_id [of "int off"] u64_id [of "int (off + sz)"] by (auto simp: INT_MAX_def)
  have i: "int32 (int k) = int k" if "k \<le> sz" for k using that assms(4) by (intro int32_id) (auto simp: int_range_def INT_MIN_def)
  note start = path_valid(2) [OF assms(1,2)] get_rd_file_at [OF assms(1,2)] pa f(1) reg dd(1) u
  show ?thesis
  proof (cases "off < length d")
    case False
    then show ?thesis using start dd by (cases "d = []") (simp_all add: rd_read_def)
  next
    case True
    then have ne: "d \<noteq> []" by auto
    show ?thesis
    proof (cases "length d < off + sz")
      case over: True
      then have "nat (int (length d) - int off) = length d - off" "min sz (length d - off) = length d - off" by auto
      moreover have "int32 (int (length d) - int off) = int (length d - off)" using i [of "length d - off"] over True by simp
      ultimately show ?thesis using start dd ne True over by (simp add: rd_read_def Let_def)
    next
      case inside: False
      then have "min sz (length d - off) = sz" by auto
      then show ?thesis using start dd ne True inside i [of sz] by (simp add: rd_read_def Let_def)
    qed
  qed
qed

text \<open>
  Property C19: reading gives back what was written. After a successful write of some bytes into a file
  without \<open>NUL\<close>s, or inside its old size, reading at the same place returns exactly these bytes, provided
  the buffer has one byte more.
\<close>

theorem write_then_read:
  assumes "rd_inv s" and "list_all good_name (ds @ [n])" and "view s (ds @ [n]) = Some (File d)" and "off \<le> length d"
    and "buf \<noteq> []" and "int (off + length buf) \<le> INT_MAX" and "off + length buf \<le> length d \<or> CHR 0x00 \<notin> set d"
    and "current_bytes s + int (off + length buf - length d) \<le> max_bytes s" and "length buf < cap"
  shows "\<exists>s'. rd_write s (Some (path_of (ds @ [n]))) buf (int off) = Some (int (length buf), s')
    \<and> rd_read s' (Some (path_of (ds @ [n]))) cap (length buf) (int off) = Some (int (length buf), buf @ [CHR 0x00])"
proof -
  have g: "\<forall>m \<in> set (ds @ [n]). good_name m" using assms(2) by (simp add: list_all_iff)
  obtain pa a where pa: "dir_at (heap s) (rd_root s) ds = Some pa" "child (heap s) pa n = Some a" using file_entry [OF assms(1,3)] by blast
  obtain s' where s': "rd_write s (Some (path_of (ds @ [n]))) buf (int off) = Some (int (length buf), s')" "rd_inv s'"
      "view s' = (view s)(ds @ [n] \<mapsto> File (overwrite d off buf))"
    using write_core [OF assms(1) g pa assms(3,4,6) refl impI [OF assms(8)]] kept_id [OF assms(7)] by auto
  have v: "view s' (ds @ [n]) = Some (File (overwrite d off buf))" using s'(3) by simp
  have "0 < length buf" using assms(5) by simp
  then have "off < length (overwrite d off buf)" "min (length buf) (length (overwrite d off buf) - off) = length buf"
    using length_overwrite [OF assms(4), of buf] by linarith+
  moreover have "take (length buf) (drop off (overwrite d off buf)) = buf" using assms(4) by (simp add: overwrite_def)
  ultimately show ?thesis using s'(1) read_at [OF s'(2) g v assms(6), of cap] assms(9) by simp
qed

theorem write_then_read_witness:
  "\<exists>s'. rd_write demo_disk (Some (path_of ([''d''] @ [''f'']))) '' world'' (int 5) = Some (int (length '' world''), s')
    \<and> rd_read s' (Some (path_of ([''d''] @ [''f'']))) 100 (length '' world'') (int 5) = Some (int (length '' world''), '' world'' @ [CHR 0x00])"
  by (rule write_then_read [OF demo_inv demo_names demo_view(2)]) (simp_all add: INT_MAX_def demo_disk_def)

text \<open>
  Reading overruns the buffer. A read that lies completely inside the file stores a \<open>NUL\<close>
  behind the \<open>size\<close> bytes that were asked for, one byte past the end of the buffer that FUSE allocates.
\<close>

theorem read_overruns_buffer:
  assumes "rd_inv s" and "list_all good_name (ds @ [n])" and "view s (ds @ [n]) = Some (File d)"
    and "off + sz \<le> length d" and "0 < sz" and "int (off + sz) \<le> INT_MAX"
  shows "rd_read s (Some (path_of (ds @ [n]))) sz sz (int off) = None
    \<and> rd_read s (Some (path_of (ds @ [n]))) (Suc sz) sz (int off) = Some (int sz, take sz (drop off d) @ [CHR 0x00])"
proof -
  have g: "\<forall>m \<in> set (ds @ [n]). good_name m" using assms(2) by (simp add: list_all_iff)
  have "min sz (length d - off) = sz" using assms(4) by simp
  then show ?thesis using read_at [OF assms(1) g assms(3,6)] assms(4,5) by simp
qed

theorem read_overruns_buffer_witness:
  "rd_read demo_disk (Some (path_of ([''d''] @ [''f'']))) 4 4 (int 1) = None
    \<and> rd_read demo_disk (Some (path_of ([''d''] @ [''f'']))) (Suc 4) 4 (int 1) = Some (int 4, take 4 (drop 1 ''hello'') @ [CHR 0x00])"
  by (rule read_overruns_buffer [OF demo_inv demo_names demo_view(2)]) (simp_all add: INT_MAX_def)

text \<open>
  Appending to a file. The file is copied with \<open>strncpy\<close>, so that only the bytes before its first
  \<open>NUL\<close> survive and the others become \<open>NUL\<close>s; the new bytes follow at the old end.
\<close>

theorem append_keeps_text_only:
  assumes "rd_inv s" and "list_all good_name (ds @ [n])" and "view s (ds @ [n]) = Some (File d)"
    and "buf \<noteq> []" and "int (length d + length buf) \<le> INT_MAX" and "current_bytes s + int (length buf) \<le> max_bytes s"
  shows "\<exists>s' t. rd_write s (Some (path_of (ds @ [n]))) buf (int (length d)) = Some (int (length buf), s')
    \<and> t = takeWhile (\<lambda>c. c \<noteq> CHR 0x00) d
    \<and> view s' (ds @ [n]) = Some (File (t @ replicate (length d - length t) (CHR 0x00) @ buf))"
proof -
  have g: "\<forall>m \<in> set (ds @ [n]). good_name m" using assms(2) by (simp add: list_all_iff)
  obtain pa a where pa: "dir_at (heap s) (rd_root s) ds = Some pa" "child (heap s) pa n = Some a" using file_entry [OF assms(1,3)] by blast
  obtain s' where s': "rd_write s (Some (path_of (ds @ [n]))) buf (int (length d)) = Some (int (length buf), s')"
      "view s' = (view s)(ds @ [n] \<mapsto> File (overwrite (kept d (length d + length buf)) (length d) buf))"
    using write_core [OF assms(1) g pa assms(3) order.refl assms(5) refl] assms(6) by auto
  have "overwrite (kept d (length d + length buf)) (length d) buf = kept d (length d + length buf) @ buf" by (simp add: overwrite_def)
  then show ?thesis using s' assms(4) by (simp add: kept_def Let_def)
qed

theorem append_keeps_text_only_witness:
  "\<exists>s' t. rd_write demo_disk (Some (path_of ([''d''] @ [''f'']))) ''!'' (int (length ''hello'')) = Some (int (length ''!''), s')
    \<and> t = takeWhile (\<lambda>c. c \<noteq> CHR 0x00) ''hello''
    \<and> view s' ([''d''] @ [''f'']) = Some (File (t @ replicate (length ''hello'' - length t) (CHR 0x00) @ ''!''))"
  by (rule append_keeps_text_only [OF demo_inv demo_names demo_view(2)]) (simp_all add: INT_MAX_def demo_disk_def)

section \<open>Attributes and listings\<close>

lemma fill_stats_Some: "\<exists>st. fill_stats now s f = Some st \<and> st_size st = (if ftype f = DIRECTORY then DIRECTORY_BYTES else fsize f)
    \<and> st_mode st = (if ftype f = DIRECTORY then S_IFDIR + DEFAULT_DIRECTORY_PERMISSION else S_IFREG + DEFAULT_FILE_PERMISSION)
    \<and> st_nlink st = (if ftype f = DIRECTORY then 2 + length (ffiles f) else 1)"
  by (simp add: fill_stats_def div_round_up_def BYTES_PER_BLOCK_def)

lemma fill_entries_names:
  "\<forall>a \<in> set as. \<exists>f. heap s a = Some f \<Longrightarrow> \<exists>es. fill_entries now s as = Some es \<and> map fst es = map (name_of (heap s)) as"
proof (induction as)
  case (Cons a as)
  then obtain f es where "heap s a = Some f" "fill_entries now s as = Some es" "map fst es = map (name_of (heap s)) as" by auto
  then show ?case using fill_stats_Some [of now s f] by (auto simp: name_of_def)
qed simp

text \<open>
  \<open>getattr\<close> tells the truth: it fails with \<open>ENOENT\<close> exactly for a path that does not exist, and
  otherwise reports the type of the file and, for a regular file, its length.
\<close>

theorem getattr_reports:
  assumes "rd_inv s" and "list_all good_name (ds @ [n])"
  shows "\<exists>r st. rd_getattr now s (Some (path_of (ds @ [n]))) = Some (r, st) \<and>
    (case view s (ds @ [n]) of
       None \<Rightarrow> r = - ENOENT \<and> st = None
     | Some Dir \<Rightarrow> r = 0 \<and> map_option st_mode st = Some (S_IFDIR + DEFAULT_DIRECTORY_PERMISSION)
     | Some (File d) \<Rightarrow> r = 0 \<and> map_option st_mode st = Some (S_IFREG + DEFAULT_FILE_PERMISSION) \<and> map_option st_size st = Some (length d))"
proof -
  have g: "\<forall>m \<in> set (ds @ [n]). good_name m" using assms(2) by (simp add: list_all_iff)
  note start = path_valid(1) [OF assms(1) g] names_ok [OF g] parent_at [OF assms(1), of ds n]
  show ?thesis
  proof (cases "dir_at (heap s) (rd_root s) ds")
    case None
    then show ?thesis using start view_snoc [OF assms(1), of ds n] by (simp add: rd_getattr_def)
  next
    case pa: (Some pa)
    then obtain p where p: "heap s pa = Some p" using dir_at_Some [OF assms(1)] by blast
    note gf = get_file_child [OF rd_invD(1) [OF assms(1)] p, of n]
    show ?thesis
    proof (cases "child (heap s) pa n")
      case None
      then show ?thesis using start pa p gf view_snoc [OF assms(1), of ds n] by (simp add: rd_getattr_def)
    next
      case (Some a)
      obtain f where f: "heap s a = Some f" "file_ok f" "view s (ds @ [n]) = Some (content f)" using entry_at [OF assms(1) pa Some] by blast
      obtain st where st: "fill_stats now s f = Some st" "st_size st = (if ftype f = DIRECTORY then DIRECTORY_BYTES else fsize f)"
        "st_mode st = (if ftype f = DIRECTORY then S_IFDIR + DEFAULT_DIRECTORY_PERMISSION else S_IFREG + DEFAULT_FILE_PERMISSION)"
        using fill_stats_Some [of now s f] by blast
      have r: "rd_getattr now s (Some (path_of (ds @ [n]))) = Some (0, Some st)"
        using start pa p gf Some f(1) st(1) by (simp add: rd_getattr_def)
      show ?thesis
      proof (cases "ftype f")
        case REGULAR
        then show ?thesis using r st f file_ok_bytes [OF f(2) REGULAR] content_bytes [OF REGULAR] by simp
      next
        case DIRECTORY
        then show ?thesis using r st f by (simp add: content_def)
      qed
    qed
  qed
qed

theorem getattr_reports_witness:
  "\<exists>r st. rd_getattr 7 demo_disk (Some (path_of ([''d''] @ [''f'']))) = Some (r, st) \<and> r = 0 \<and> map_option st_size st = Some 5"
  using getattr_reports [OF demo_inv demo_names, of 7] demo_view(2) by auto

text \<open>
  Property C35: \<open>readdir\<close> lists a directory: the names it passes to the filler are distinct and are exactly the
  names of the existing entries.
\<close>

theorem readdir_lists:
  assumes "rd_inv s" and "list_all good_name ns" and "view s ns = Some Dir"
  shows "\<exists>es. rd_readdir now s (Some (path_of ns)) = Some (0, es) \<and> distinct (map fst es)
    \<and> set (map fst es) = {m. view s (ns @ [m]) \<noteq> None}"
proof -
  note w = rd_invD(1) [OF assms(1)]
  obtain a f where a: "lookup (heap s) (rd_root s) ns = Some a" "heap s a = Some f" "ftype f = DIRECTORY"
    using assms(3) view_dir [OF assms(1)] dir_at_Some [OF assms(1)] by blast
  obtain rf where rf: "root_file s = Some rf" "fname rf = ''/''" "ftype rf = DIRECTORY" using root_name [OF assms(1)] by blast
  obtain es where es: "fill_entries now s (ffiles f) = Some es" "map fst es = map (name_of (heap s)) (ffiles f)"
    using fill_entries_names [of "ffiles f" s now] wf_tree_entry [OF w a(2)] by blast
  have "rd_readdir now s (Some (path_of ns)) = Some (0, es)"
  proof (cases ns rule: rev_cases)
    case Nil
    have gd: "get_dirs ''/'' = Some ([[]], 0)" using get_dirs_split [of "[]"] by simp
    have "get_parent_directory s [[]] 0 = Some (Some (rd_root s))" by (simp add: get_parent_directory_def)
    moreover have "heap s (rd_root s) = Some rf" "is_root s (Some ''/'') = Some True" using rf by (simp_all add: root_file_def is_root_def)
    ultimately show ?thesis using gd Nil a es(1) rf(3) by (simp add: rd_readdir_def path_of_def)
  next
    case (snoc ds n)
    then have g: "\<forall>m \<in> set (ds @ [n]). good_name m" using assms(2) by (simp add: list_all_iff)
    obtain pa where pa: "dir_at (heap s) (rd_root s) ds = Some pa" "child (heap s) pa n = Some a"
      using a(1) snoc by (auto simp: lookup_dir_at [OF assms(1)] elim!: bind_SomeE)
    then obtain p where p: "heap s pa = Some p" using dir_at_Some [OF assms(1)] by blast
    then show ?thesis using snoc path_valid(1) [OF assms(1) g] names_ok [OF g] parent_at [OF assms(1), of ds n] pa
        get_file_child [OF w p, of n] a es(1) by (simp add: rd_readdir_def)
  qed
  moreover have "distinct (map fst es)" using es(2) wf_tree_names [OF w a(2)] by simp
  moreover have "set (map fst es) = {m. view s (ns @ [m]) \<noteq> None}"
  proof -
    have "view s (ns @ [m]) \<noteq> None \<longleftrightarrow> child (heap s) a m \<noteq> None" for m
      using a(1) child_Some [OF w, of a m] by (auto simp: view_def lookup_snoc split: bind_splits)
    moreover have "child (heap s) a m \<noteq> None \<longleftrightarrow> m \<in> name_of (heap s) ` set (ffiles f)" for m
      using a(2) by (auto simp: child_def find_None_iff)
    ultimately show ?thesis using es(2) by auto
  qed
  ultimately show ?thesis by blast
qed

theorem readdir_lists_witness:
  "\<exists>es. rd_readdir 7 demo_disk (Some (path_of [''d''])) = Some (0, es) \<and> distinct (map fst es)
    \<and> set (map fst es) = {m. view demo_disk ([''d''] @ [m]) \<noteq> None}"
  by (rule readdir_lists [OF demo_inv _ demo_view(1)]) (simp add: good_name_def)

section \<open>What goes wrong\<close>

text \<open>
  A missing directory. For a path whose parent does not exist, \<open>create\<close> and \<open>mkdir\<close> report
  \<open>ENOENT\<close> (or the lack of memory), but \<open>open\<close>, \<open>read\<close>, \<open>write\<close>, \<open>opendir\<close> and \<open>rmdir\<close> read the entries of a
  \<open>NULL\<close> directory.
\<close>

theorem missing_parent:
  assumes "rd_inv s" and "list_all good_name (ds @ [n])" and "view s ds \<noteq> Some Dir"
  shows "rd_create junk s (Some (path_of (ds @ [n]))) = Some (- ENOENT, s)
    \<and> rd_open s (Some (path_of (ds @ [n]))) flags = None \<and> rd_opendir s (Some (path_of (ds @ [n]))) = None
    \<and> rd_write s (Some (path_of (ds @ [n]))) buf off = None \<and> rd_read s (Some (path_of (ds @ [n]))) cap sz off = None
    \<and> rd_rmdir s (Some (path_of (ds @ [n]))) = None"
proof -
  have g: "\<forall>m \<in> set (ds @ [n]). good_name m" using assms(2) by (simp add: list_all_iff)
  have d: "dir_at (heap s) (rd_root s) ds = None" using assms(3) view_dir [OF assms(1)] by blast
  then have "get_rd_file s (Some (path_of (ds @ [n]))) = None" using get_rd_file_at [OF assms(1) g] by simp
  then show ?thesis using path_valid [OF assms(1) g] d names_ok [OF g] parent_at [OF assms(1), of ds n]
    by (simp add: rd_create_def rd_open_def rd_opendir_def rd_write_def rd_read_def rd_rmdir_def)
qed

theorem missing_parent_witness:
  "rd_create NullPtr demo_disk (Some (path_of ([''x''] @ [''f'']))) = Some (- ENOENT, demo_disk)
    \<and> rd_open demo_disk (Some (path_of ([''x''] @ [''f'']))) 0 = None \<and> rd_opendir demo_disk (Some (path_of ([''x''] @ [''f'']))) = None
    \<and> rd_write demo_disk (Some (path_of ([''x''] @ [''f'']))) ''a'' 0 = None \<and> rd_read demo_disk (Some (path_of ([''x''] @ [''f'']))) 9 8 0 = None
    \<and> rd_rmdir demo_disk (Some (path_of ([''x''] @ [''f'']))) = None"
proof (rule missing_parent [OF demo_inv])
  show "view demo_disk [''x''] \<noteq> Some Dir" by (simp add: view_def child_def name_of_def demo_defs)
qed (simp add: good_name_def)

text \<open>Freeing an object whose data pointer is indeterminate.\<close>

lemma delete_unset:
  assumes "rd_inv s" and "leaf_of (heap s) pa p a f" and "unset_data f"
  shows "delete_item (heap s) (ffiles p) a = None"
proof -
  have "a \<in> set (ffiles p)" using leaf_facts [OF rd_invD(1) [OF assms(1)] assms(2)] by blast
  moreover have "heap s a = Some f" using assms(2) by (simp add: leaf_of_def)
  ultimately show ?thesis using assms(3) by (simp add: delete_item_remove1 free_file_def unset_data_def)
qed

lemma unlink_unset:
  assumes "rd_inv s" and g: "\<forall>m \<in> set (ds @ [n]). good_name m" and "view s (ds @ [n]) = Some (File d)" and "unset s (ds @ [n]) = Some True"
  shows "rd_unlink s (Some (path_of (ds @ [n]))) = None"
proof -
  obtain pa a where pa: "dir_at (heap s) (rd_root s) ds = Some pa" "child (heap s) pa n = Some a" using file_entry [OF assms(1,3)] by blast
  obtain f p where f: "heap s a = Some f" "fname f = n" "fparent f = Some pa" "heap s pa = Some p" "a \<in> set (ffiles p)"
      "lookup (heap s) (rd_root s) (ds @ [n]) = Some a" "view s (ds @ [n]) = Some (content f)"
    using entry_at [OF assms(1) pa] by blast
  have reg: "ftype f = REGULAR" using f(7) assms(3) by (cases "ftype f") (auto simp: content_def)
  have "leaf_of (heap s) pa p a f" using f regular_no_files [OF assms(1) f(1) reg] by (simp add: leaf_of_def)
  then have "delete_item (heap s) (ffiles p) a = None" using delete_unset [OF assms(1)] f(1,6) assms(4) by (simp add: view_of_def)
  then show ?thesis using path_valid(1) [OF assms(1) g] names_ok [OF g] parent_at [OF assms(1), of ds n] pa f(1,4)
      get_file_child [OF rd_invD(1) [OF assms(1)] f(4), of n] by (simp add: rd_unlink_def)
qed

lemma rmdir_unset:
  assumes "rd_inv s" and g: "\<forall>m \<in> set (ds @ [n]). good_name m" and "view s (ds @ [n]) = Some Dir" and "empty_dir (abs_fs s) (ds @ [n])"
    and "unset s (ds @ [n]) = Some True"
  shows "rd_rmdir s (Some (path_of (ds @ [n]))) = None"
proof -
  obtain pa a where pa: "dir_at (heap s) (rd_root s) ds = Some pa" "child (heap s) pa n = Some a" using file_entry [OF assms(1,3)] by blast
  obtain f p where f: "heap s a = Some f" "fname f = n" "fparent f = Some pa" "heap s pa = Some p" "a \<in> set (ffiles p)"
      "lookup (heap s) (rd_root s) (ds @ [n]) = Some a" "view s (ds @ [n]) = Some (content f)"
    using entry_at [OF assms(1) pa] by blast
  have dir: "ftype f = DIRECTORY" using f(7) assms(3) by (cases "ftype f") (auto simp: content_def)
  have e: "ffiles f = []" using empty_dir_files [OF assms(1) f(6,1)] assms(4) by simp
  then have "leaf_of (heap s) pa p a f" using f by (simp add: leaf_of_def)
  then have "delete_item (heap s) (ffiles p) a = None" using delete_unset [OF assms(1)] f(1,6) assms(5) by (simp add: view_of_def)
  then show ?thesis using path_valid(1) [OF assms(1) g] get_rd_file_at [OF assms(1) g] pa f(1,3,4) dir e by (simp add: rd_rmdir_def)
qed

text \<open>
  Property C39: removing an object frees its data pointer, which \<open>create_rd_file\<close> leaves uninitialised. Removing a file,
  or an empty directory, is undefined exactly if the memory was not zero when the object was created and the file was
  never given contents.
\<close>

theorem removal_undefined_iff:
  assumes "rd_inv s" and "list_all good_name (ds @ [n])"
  shows "(case view s (ds @ [n]) of
       Some (File d) \<Rightarrow> rd_unlink s (Some (path_of (ds @ [n]))) = None \<longleftrightarrow> unset s (ds @ [n]) = Some True
     | Some Dir \<Rightarrow> empty_dir (abs_fs s) (ds @ [n]) \<longrightarrow> (rd_rmdir s (Some (path_of (ds @ [n]))) = None \<longleftrightarrow> unset s (ds @ [n]) = Some True)
     | None \<Rightarrow> unset s (ds @ [n]) = None)"
proof -
  have g: "\<forall>m \<in> set (ds @ [n]). good_name m" using assms(2) by (simp add: list_all_iff)
  show ?thesis
  proof (cases "view s (ds @ [n])")
    case None
    then show ?thesis by (auto simp: view_def view_of_def split: Option.bind_splits)
  next
    case (Some x)
    then obtain pa where "dir_at (heap s) (rd_root s) ds = Some pa" using file_entry [OF assms(1)] by blast
    then have "view s ds = Some Dir" using view_dir [OF assms(1)] by simp
    then show ?thesis using Some unlink_sim [OF assms(1) g] unlink_unset [OF assms(1) g] rmdir_sim [OF assms(1) g] rmdir_unset [OF assms(1) g]
      by (cases x) fastforce+
  qed
qed

theorem removal_undefined_iff_witness:
  "\<exists>s. rd_create Wild demo_disk (Some (path_of ([''d''] @ [''g'']))) = Some (0, s) \<and> rd_unlink s (Some (path_of ([''d''] @ [''g'']))) = None"
proof -
  have n: "list_all good_name ([''d''] @ [''g''])" "\<forall>m \<in> set ([''d''] @ [''g'']). good_name m" by (simp_all add: good_name_def)
  have v: "tree (abs_fs demo_disk) ([''d''] @ [''g'']) = None" by (simp add: view_def child_def name_of_def demo_defs)
  obtain r s where s: "rd_create (fresh_data False) demo_disk (Some (path_of ([''d''] @ [''g'']))) = Some (r, s)" "rd_inv s"
      "a_create [''d''] ''g'' (abs_fs demo_disk) = (r, abs_fs s)" "unset s = (if r = 0 then (unset demo_disk)([''d''] @ [''g''] \<mapsto> \<not> False) else unset demo_disk)"
    using create_sim [OF demo_inv n(2) v, of False] by blast
  have t: "abs_fs s = (abs_fs demo_disk)\<lparr>tree := (tree (abs_fs demo_disk))([''d''] @ [''g''] \<mapsto> File [])\<rparr>" "r = 0"
    using s(3) demo_view(1) by (auto simp: a_create_def)
  have "view s ([''d''] @ [''g'']) = Some (File [])" using arg_cong [OF t(1), of tree] by simp
  moreover have "unset s ([''d''] @ [''g'']) = Some True" using s(4) t(2) by simp
  ultimately show ?thesis using removal_undefined_iff [OF s(2) n(1)] s(1) t(2) by (auto simp: fresh_data_def)
qed

text \<open>
  Property C38: mounting. A size of less than 2048 MB gives an empty file system with that many bytes; from
  2048 MB on, the multiplication overflows an \<open>int\<close> and is undefined; a negative size is rejected.
\<close>

theorem main_size:
  assumes "int_range n" and "- 2048 \<le> n" and "mp \<noteq> ''-f''"
  shows "(n < 0 \<longrightarrow> ram_main (fresh_data z) u g [prog, mp, show_int n] = Some (Inl 1))
    \<and> (0 \<le> n \<and> n < 2048 \<longrightarrow> (\<exists>s. ram_main (fresh_data z) u g [prog, mp, show_int n] = Some (Inr s) \<and> rd_inv s \<and> abs_fs s = empty_fs (n * 1048576)))
    \<and> (2048 \<le> n \<longrightarrow> ram_main (fresh_data z) u g [prog, mp, show_int n] = None)"
proof -
  have arg: "ram_main (fresh_data z) u g [prog, mp, show_int n] = do {
      k \<leftarrow> checked_int (n * 1024); mb \<leftarrow> checked_int (k * 1024);
      if mb < 0 then Some (Inl 1) else do { s \<leftarrow> init_ramdisk (fresh_data z) mb u g; Some (Inr s) } }"
    using atoi_show_int [OF assms(1)] assms(3) by (simp add: ram_main_def)
  show ?thesis
  proof (intro conjI impI)
    assume "n < 0"
    then have "int_range (n * 1024)" "int_range (n * 1024 * 1024)" using assms(2) by (auto simp: int_range_def INT_MIN_def INT_MAX_def)
    then show "ram_main (fresh_data z) u g [prog, mp, show_int n] = Some (Inl 1)" using \<open>n < 0\<close> by (simp add: arg)
  next
    assume n: "0 \<le> n \<and> n < 2048"
    then have r: "int_range (n * 1024)" "int_range (n * 1024 * 1024)" by (auto simp: int_range_def INT_MIN_def INT_MAX_def)
    obtain s where s: "init_ramdisk (fresh_data z) (n * 1024 * 1024) u g = Some s" using init_Some by blast
    have "n * 1024 * 1024 \<le> INT_MAX" using r(2) by (simp add: int_range_def)
    from init_inv [OF _ this s] n have "rd_inv s" "abs_fs s = empty_fs (n * 1024 * 1024)" by (simp_all add: abs_state_def mounted_def)
    then show "\<exists>s. ram_main (fresh_data z) u g [prog, mp, show_int n] = Some (Inr s) \<and> rd_inv s \<and> abs_fs s = empty_fs (n * 1048576)"
      using n r s by (simp add: arg mult.commute)
  next
    assume "2048 \<le> n"
    then have "\<not> int_range (n * 1024 * 1024)" by (simp add: int_range_def INT_MAX_def)
    then show "ram_main (fresh_data z) u g [prog, mp, show_int n] = None" by (simp add: arg checked_int_def)
  qed
qed

theorem main_size_witness:
  "(\<exists>s. ram_main (fresh_data False) 0 0 [''ramdisk'', ''/mnt'', show_int 100] = Some (Inr s) \<and> rd_inv s \<and> abs_fs s = empty_fs (100 * 1048576))
    \<and> ram_main (fresh_data False) 0 0 [''ramdisk'', ''/mnt'', show_int 4096] = None"
  using main_size [of 100 "''/mnt''" False 0 0 "''ramdisk''"] main_size [of 4096 "''/mnt''" False 0 0 "''ramdisk''"]
  by (simp add: int_range_def INT_MIN_def INT_MAX_def)

text \<open>
  Paths. \<open>get_dirs\<close> takes a path apart into the names it was composed of, and counts the
  directories before the last.
\<close>

theorem get_dirs_roundtrip:
  assumes "list_all good_name ns" and "ns \<noteq> []"
  shows "get_dirs (path_of ns) = Some (ns, int (length ns) - 1)"
  using get_dirs_path [OF _ assms(2)] assms(1) by (simp add: list_all_iff)

theorem get_dirs_roundtrip_witness: "get_dirs (path_of [''var'', ''log'']) = Some ([''var'', ''log''], 1)"
  using get_dirs_roundtrip [of "[''var'', ''log'']"] by (simp add: good_name_def)

end
