(* ===== verification/Fuse_Opt.thy ===== *)
theory Fuse_Opt
  imports C_Lib
begin

text \<open>
  The option parser of the FUSE library that mounts the RAM disk, \<open>lib/fuse_opt.c\<close> and \<open>include/fuse_opt.h\<close>:
  argument vectors, comma-separated option strings with their escapes, templates, and the parser itself.
  The processing function of the caller and \<open>sscanf\<close> for the formats of templates are parameters, kept in
  \<open>opt_env\<close>. A function that returns -1 gives \<open>OErr\<close>; a failed \<open>assert\<close> is \<open>None\<close>. Allocation succeeds;
  the flag \<open>allocated\<close>, which only says whether the strings of a vector are to be freed, and the assertion about it in
  \<open>fuse_opt_add_arg\<close> are left out.
\<close>

section \<open>Data\<close>

record fuse_opt =
  templ :: string
  offset :: nat
  opt_value :: int

text \<open>\<open>-1U\<close>, the offset that stands for the processing function.\<close>

definition NO_OFFSET :: nat where "NO_OFFSET = 4294967295"

definition FUSE_OPT_KEY :: "string \<Rightarrow> int \<Rightarrow> fuse_opt" where
  "FUSE_OPT_KEY t key = \<lparr>templ = t, offset = NO_OFFSET, opt_value = key\<rparr>"

definition FUSE_OPT_KEY_OPT :: int where "FUSE_OPT_KEY_OPT = - 1"
definition FUSE_OPT_KEY_NONOPT :: int where "FUSE_OPT_KEY_NONOPT = - 2"
definition FUSE_OPT_KEY_KEEP :: int where "FUSE_OPT_KEY_KEEP = - 3"
definition FUSE_OPT_KEY_DISCARD :: int where "FUSE_OPT_KEY_DISCARD = - 4"

lemmas opt_keys = FUSE_OPT_KEY_OPT_def FUSE_OPT_KEY_NONOPT_def FUSE_OPT_KEY_KEEP_def FUSE_OPT_KEY_DISCARD_def

text \<open>The variables of the caller, by their offset.\<close>

datatype optval = VInt int | VStr string

type_synonym odata = "nat \<Rightarrow> optval option"

text \<open>What does not change during a parse, and what does.\<close>

record opt_env =
  e_opts :: "fuse_opt list"
  e_proc :: "(odata \<Rightarrow> string \<Rightarrow> int \<Rightarrow> string list \<Rightarrow> int \<times> odata \<times> string list) option"
  e_argv :: "string list"
  e_scanf :: "string \<Rightarrow> string \<Rightarrow> optval option"

record opt_ctx =
  c_data :: odata
  c_argctr :: nat
  c_out :: "string list"
  c_opts :: "string option"
  c_nonopt :: nat

text \<open>A result of -1 leaves the variables of the caller as they are at that point.\<close>

datatype 'a ores = OErr odata | OOk 'a

section \<open>Argument vectors\<close>

definition fuse_opt_add_arg :: "string list \<Rightarrow> string \<Rightarrow> string list" where
  "fuse_opt_add_arg args arg = args @ [arg]"

text \<open>Append, then move the tail up by one place and put the new argument in.\<close>

definition fuse_opt_insert_arg :: "string list \<Rightarrow> nat \<Rightarrow> string \<Rightarrow> string list option" where
  "fuse_opt_insert_arg args pos arg =
     (if length args < pos then None
      else let a = fuse_opt_add_arg args arg in
        if pos \<noteq> length a - 1
        then let newarg = a ! (length a - 1);
                 moved = take (pos + 1) a @ take (length a - pos - 1) (drop pos a)
             in Some (moved[pos := newarg])
        else Some a)"

definition next_arg :: "opt_env \<Rightarrow> opt_ctx \<Rightarrow> opt_ctx ores" where
  "next_arg e c = (if c_argctr c + 1 \<ge> length (e_argv e) then OErr (c_data c) else OOk (c\<lparr>c_argctr := c_argctr c + 1\<rparr>))"

definition add_arg :: "opt_ctx \<Rightarrow> string \<Rightarrow> opt_ctx" where
  "add_arg c arg = c\<lparr>c_out := fuse_opt_add_arg (c_out c) arg\<rparr>"

section \<open>Option strings\<close>

abbreviation comma :: char where "comma \<equiv> CHR '',''"
abbreviation bslash :: char where "bslash \<equiv> CHR 0x5C"

fun escape_opt :: "bool \<Rightarrow> string \<Rightarrow> string" where
  "escape_opt esc [] = []"
| "escape_opt esc (c # cs) = (if esc \<and> (c = comma \<or> c = bslash) then bslash # c # escape_opt esc cs else c # escape_opt esc cs)"

text \<open>
  \<open>add_opt_common\<close>: the array is reallocated to \<open>oldlen + 1 + 2 * strlen(opt) + 1\<close> bytes; writing more is
  undefined.
\<close>

definition add_opt_common :: "string option \<Rightarrow> string \<Rightarrow> bool \<Rightarrow> string option" where
  "add_opt_common opts opt esc =
     (let old = (case opts of None \<Rightarrow> [] | Some s \<Rightarrow> s);
          d = (if length old \<noteq> 0 then old @ [comma] else []) @ escape_opt esc opt
      in if length d + 1 \<le> length old + 1 + length opt * 2 + 1 then Some d else None)"

definition fuse_opt_add_opt :: "string option \<Rightarrow> string \<Rightarrow> string option" where
  "fuse_opt_add_opt opts opt = add_opt_common opts opt False"

definition fuse_opt_add_opt_escaped :: "string option \<Rightarrow> string \<Rightarrow> string option" where
  "fuse_opt_add_opt_escaped opts opt = add_opt_common opts opt True"

definition add_opt :: "opt_ctx \<Rightarrow> string \<Rightarrow> opt_ctx option" where
  "add_opt c opt = do { s \<leftarrow> add_opt_common (c_opts c) opt True; Some (c\<lparr>c_opts := Some s\<rparr>) }"

text \<open>The action of a match that is left to the processing function, or the default of keeping the argument.\<close>

definition keep_arg :: "opt_ctx \<Rightarrow> string \<Rightarrow> bool \<Rightarrow> opt_ctx ores option" where
  "keep_arg c arg isopt = (if isopt then map_option OOk (add_opt c arg) else Some (OOk (add_arg c arg)))"

definition call_proc :: "opt_env \<Rightarrow> opt_ctx \<Rightarrow> string \<Rightarrow> int \<Rightarrow> bool \<Rightarrow> opt_ctx ores option" where
  "call_proc e c arg key isopt =
     (if key = FUSE_OPT_KEY_DISCARD then Some (OOk c)
      else case e_proc e of
          Some proc \<Rightarrow>
            if key \<noteq> FUSE_OPT_KEY_KEEP then
              (let (res, d, out) = proc (c_data c) arg key (c_out c); c' = c\<lparr>c_data := d, c_out := out\<rparr> in
               if res = - 1 then Some (OErr d) else if res = 0 then Some (OOk c') else keep_arg c' arg isopt)
            else keep_arg c arg isopt
        | None \<Rightarrow> keep_arg c arg isopt)"

section \<open>Templates\<close>

definition strchr_ix :: "char \<Rightarrow> string \<Rightarrow> nat option" where
  "strchr_ix c s = (if c \<in> set s then Some (length (takeWhile (\<lambda>x. x \<noteq> c) s)) else None)"

text \<open>The index of the separator on a match with a parameter, 0 on an exact match.\<close>

definition match_template :: "string \<Rightarrow> string \<Rightarrow> nat option" where
  "match_template t arg =
     (let sep = (case strchr_ix (CHR ''='') t of Some k \<Rightarrow> Some k | None \<Rightarrow> strchr_ix (CHR '' '') t);
          exact = (if t = arg then Some 0 else None)
      in case sep of
          None \<Rightarrow> exact
        | Some k \<Rightarrow>
            if length t = k + 1 \<or> t ! (k + 1) = CHR ''%'' then
              (let tlen = (if t ! k = CHR ''='' then k + 1 else k)
               in if tlen \<le> length arg \<and> take tlen arg = take tlen t then Some k else exact)
            else exact)"

text \<open>The first option that matches, its separator, and the options behind it.\<close>

fun find_opt :: "fuse_opt list \<Rightarrow> string \<Rightarrow> (fuse_opt \<times> nat \<times> fuse_opt list) option" where
  "find_opt [] arg = None"
| "find_opt (x # xs) arg = (case match_template (templ x) arg of Some sep \<Rightarrow> Some (x, sep, xs) | None \<Rightarrow> find_opt xs arg)"

definition fuse_opt_match :: "fuse_opt list \<Rightarrow> string \<Rightarrow> bool" where
  "fuse_opt_match opts opt \<longleftrightarrow> find_opt opts opt \<noteq> None"

section \<open>Processing one option\<close>

definition process_opt_param :: "opt_env \<Rightarrow> odata \<Rightarrow> nat \<Rightarrow> string \<Rightarrow> string \<Rightarrow> odata ores option" where
  "process_opt_param e d var format param =
     (if format = [] \<or> hd format \<noteq> CHR ''%'' then None
      else if tl format \<noteq> [] \<and> hd (tl format) = CHR ''s'' then Some (OOk (d(var \<mapsto> VStr param)))
      else case e_scanf e param format of None \<Rightarrow> Some (OErr d) | Some v \<Rightarrow> Some (OOk (d(var \<mapsto> v))))"

definition process_opt :: "opt_env \<Rightarrow> opt_ctx \<Rightarrow> fuse_opt \<Rightarrow> nat \<Rightarrow> string \<Rightarrow> bool \<Rightarrow> opt_ctx ores option" where
  "process_opt e c opt sep arg isopt =
     (if offset opt = NO_OFFSET then call_proc e c arg (opt_value opt) isopt
      else if sep \<noteq> 0 \<and> sep + 1 < length (templ opt) then
        (let param = drop (if templ opt ! sep = CHR ''='' then sep + 1 else sep) arg in
         case process_opt_param e (c_data c) (offset opt) (drop (sep + 1) (templ opt)) param of
           None \<Rightarrow> None
         | Some (OErr x) \<Rightarrow> Some (OErr x)
         | Some (OOk d) \<Rightarrow> Some (OOk (c\<lparr>c_data := d\<rparr>)))
      else Some (OOk (c\<lparr>c_data := (c_data c)(offset opt \<mapsto> VInt (opt_value opt))\<rparr>)))"

definition process_opt_sep_arg :: "opt_env \<Rightarrow> opt_ctx \<Rightarrow> fuse_opt \<Rightarrow> nat \<Rightarrow> string \<Rightarrow> bool \<Rightarrow> opt_ctx ores option" where
  "process_opt_sep_arg e c opt sep arg isopt = (case next_arg e c of
       OErr x \<Rightarrow> Some (OErr x)
     | OOk c1 \<Rightarrow> process_opt e c1 opt sep (take sep arg @ (e_argv e ! c_argctr c1)) isopt)"

text \<open>All the options that match, in order; \<open>find_opt\<close> goes on behind each.\<close>

lemma find_opt_shorter: "find_opt xs arg = Some (x, sep, ys) \<Longrightarrow> length ys < length xs"
  by (induction xs) (auto split: option.splits)

function gopt_loop :: "opt_env \<Rightarrow> opt_ctx \<Rightarrow> fuse_opt list \<Rightarrow> string \<Rightarrow> bool \<Rightarrow> opt_ctx ores option" where
  "gopt_loop e c xs arg isopt = (case find_opt xs arg of
       None \<Rightarrow> Some (OOk c)
     | Some (opt, sep, rest) \<Rightarrow>
         (case (if sep \<noteq> 0 \<and> templ opt ! sep = CHR '' '' \<and> length arg \<le> sep
                then process_opt_sep_arg e c opt sep arg isopt else process_opt e c opt sep arg isopt) of
            None \<Rightarrow> None
          | Some (OErr x) \<Rightarrow> Some (OErr x)
          | Some (OOk c1) \<Rightarrow> gopt_loop e c1 rest arg isopt))"
  by pat_completeness auto
termination by (relation "measure (\<lambda>(e, c, xs, arg, isopt). length xs)") (auto dest: find_opt_shorter)

declare gopt_loop.simps [simp del]

definition process_gopt :: "opt_env \<Rightarrow> opt_ctx \<Rightarrow> string \<Rightarrow> bool \<Rightarrow> opt_ctx ores option" where
  "process_gopt e c arg isopt =
     (if find_opt (e_opts e) arg \<noteq> None then gopt_loop e c (e_opts e) arg isopt
      else call_proc e c arg FUSE_OPT_KEY_OPT isopt)"

section \<open>Option groups\<close>

definition octal :: "char \<Rightarrow> bool" where
  "octal c \<longleftrightarrow> 48 \<le> (of_char c :: nat) \<and> (of_char c :: nat) \<le> 55"

definition octal_char :: "char \<Rightarrow> char \<Rightarrow> char \<Rightarrow> char" where
  "octal_char a b c = char_of ((of_char a - 48) * 64 + (of_char b - 48) * 8 + (of_char c - 48) :: nat)"

text \<open>
  One step of the loop over the group: an option is complete (\<open>None\<close>), or the next character of the option
  and what is left. The group is decoded in place; the write position is never ahead of the read position.
\<close>

fun group_char :: "string \<Rightarrow> char \<times> string" where
  "group_char (c # cs) =
     (if c = bslash \<and> cs \<noteq> [] then
        (case cs of
           a # b # d # r \<Rightarrow>
             if octal a \<and> (of_char a :: nat) \<le> 51 \<and> octal b \<and> octal d then (octal_char a b d, r) else (a, b # d # r)
         | a # r \<Rightarrow> (a, r)
         | [] \<Rightarrow> (c, []))
      else (c, cs))"
| "group_char [] = (CHR 0x00, [])"

lemma group_char_shorter: "s \<noteq> [] \<Longrightarrow> length (snd (group_char s)) < length s"
  by (cases s rule: group_char.cases) (auto split: list.splits if_splits)

function group_loop :: "opt_env \<Rightarrow> opt_ctx \<Rightarrow> string \<Rightarrow> string \<Rightarrow> opt_ctx ores option" where
  "group_loop e c s d =
     (if s = [] then process_gopt e c (takeWhile (\<lambda>x. x \<noteq> CHR 0x00) d) True
      else if hd s = comma then
        (case process_gopt e c (takeWhile (\<lambda>x. x \<noteq> CHR 0x00) d) True of
           None \<Rightarrow> None
         | Some (OErr x) \<Rightarrow> Some (OErr x)
         | Some (OOk c1) \<Rightarrow> group_loop e c1 (tl s) [])
      else group_loop e c (snd (group_char s)) (d @ [fst (group_char s)]))"
  by pat_completeness auto
termination by (relation "measure (\<lambda>(e, c, s, d). length s)") (auto intro: group_char_shorter)

declare group_loop.simps [simp del]

definition process_option_group :: "opt_env \<Rightarrow> opt_ctx \<Rightarrow> string \<Rightarrow> opt_ctx ores option" where
  "process_option_group e c opts = group_loop e c opts []"

section \<open>The parser\<close>

definition process_one :: "opt_env \<Rightarrow> opt_ctx \<Rightarrow> string \<Rightarrow> opt_ctx ores option" where
  "process_one e c arg =
     (if c_nonopt c \<noteq> 0 \<or> arg = [] \<or> hd arg \<noteq> CHR ''-'' then call_proc e c arg FUSE_OPT_KEY_NONOPT False
      else if 1 < length arg \<and> arg ! 1 = CHR ''o'' then
        (if 2 < length arg then process_option_group e c (drop 2 arg)
         else case next_arg e c of
             OErr x \<Rightarrow> Some (OErr x)
           | OOk c1 \<Rightarrow> process_option_group e c1 (e_argv e ! c_argctr c1))
      else if arg = ''--'' then (let c1 = add_arg c arg in Some (OOk (c1\<lparr>c_nonopt := length (c_out c1)\<rparr>)))
      else process_gopt e c arg False)"

text \<open>Fuel bounds the loop over the arguments; each iteration advances \<open>argctr\<close>, so that their number is enough.\<close>

fun parse_loop :: "opt_env \<Rightarrow> nat \<Rightarrow> opt_ctx \<Rightarrow> opt_ctx ores option" where
  "parse_loop e 0 c = (if c_argctr c < length (e_argv e) then None else Some (OOk c))"
| "parse_loop e (Suc k) c =
     (if c_argctr c < length (e_argv e) then
        (case process_one e c (e_argv e ! c_argctr c) of
           None \<Rightarrow> None
         | Some (OErr x) \<Rightarrow> Some (OErr x)
         | Some (OOk c1) \<Rightarrow> parse_loop e k (c1\<lparr>c_argctr := c_argctr c1 + 1\<rparr>))
      else Some (OOk c))"

definition insert_opts :: "opt_ctx \<Rightarrow> opt_ctx option" where
  "insert_opts c = (case c_opts c of
       None \<Rightarrow> Some c
     | Some s \<Rightarrow> do {
         o1 \<leftarrow> fuse_opt_insert_arg (c_out c) 1 ''-o'';
         o2 \<leftarrow> fuse_opt_insert_arg o1 2 s;
         Some (c\<lparr>c_out := o2\<rparr>) })"

definition drop_separator :: "opt_ctx \<Rightarrow> opt_ctx" where
  "drop_separator c =
     (if c_nonopt c \<noteq> 0 \<and> c_nonopt c = length (c_out c) \<and> last (c_out c) = ''--''
      then c\<lparr>c_out := butlast (c_out c)\<rparr> else c)"

definition opt_parse :: "opt_env \<Rightarrow> opt_ctx \<Rightarrow> opt_ctx ores option" where
  "opt_parse e c =
     (let c1 = (if e_argv e \<noteq> [] then add_arg c (hd (e_argv e)) else c) in
      case parse_loop e (length (e_argv e)) (c1\<lparr>c_argctr := 1\<rparr>) of
        None \<Rightarrow> None
      | Some (OErr x) \<Rightarrow> Some (OErr x)
      | Some (OOk c2) \<Rightarrow> do { c3 \<leftarrow> insert_opts c2; Some (OOk (drop_separator c3)) })"

text \<open>The result, the arguments (replaced by the kept ones on success) and the variables.\<close>

definition fuse_opt_parse :: "opt_env \<Rightarrow> odata \<Rightarrow> (int \<times> string list \<times> odata) option" where
  "fuse_opt_parse e d =
     (if e_argv e = [] then Some (0, [], d)
      else case opt_parse e \<lparr>c_data = d, c_argctr = 0, c_out = [], c_opts = None, c_nonopt = 0\<rparr> of
          None \<Rightarrow> None
        | Some (OErr d') \<Rightarrow> Some (- 1, e_argv e, d')
        | Some (OOk c) \<Rightarrow> Some (0, c_out c, c_data c))"

section \<open>No assertion fails\<close>

lemma length_escape: "length (escape_opt esc s) \<le> length s * 2"
  by (induction esc s rule: escape_opt.induct) auto

lemma add_opt_common_Some:
  "add_opt_common opts opt esc = Some ((case opts of None \<Rightarrow> [] | Some [] \<Rightarrow> [] | Some s \<Rightarrow> s @ [comma]) @ escape_opt esc opt)"
  using length_escape [of esc opt] by (auto simp: add_opt_common_def Let_def split: option.split list.split)

text \<open>The processing function leaves the program name in the output arguments.\<close>

definition proc_ok :: "opt_env \<Rightarrow> bool" where
  "proc_ok e \<longleftrightarrow> (\<forall>p d a k out. e_proc e = Some p \<longrightarrow> out \<noteq> [] \<longrightarrow> snd (snd (p d a k out)) \<noteq> [])"

text \<open>A step that is defined, does not move backwards in the arguments and keeps the program name.\<close>

definition sane :: "opt_ctx \<Rightarrow> opt_ctx ores option \<Rightarrow> bool" where
  "sane c r \<longleftrightarrow> r \<noteq> None \<and> (\<forall>c1. r = Some (OOk c1) \<longrightarrow> c_argctr c \<le> c_argctr c1 \<and> (c_out c \<noteq> [] \<longrightarrow> c_out c1 \<noteq> []))"

lemma sane_simps [simp]:
  "sane c None = False" "sane c (Some (OErr x)) = True"
  "sane c (Some (OOk c1)) \<longleftrightarrow> c_argctr c \<le> c_argctr c1 \<and> (c_out c \<noteq> [] \<longrightarrow> c_out c1 \<noteq> [])"
  by (auto simp: sane_def)

lemma sane_trans: "sane c r \<Longrightarrow> r = Some (OOk c1) \<Longrightarrow> sane c1 r2 \<Longrightarrow> sane c r2"
  by (cases r2; cases "the r2") auto

lemma sane_keep: "c_argctr c = c_argctr c0 \<Longrightarrow> (c_out c0 \<noteq> [] \<longrightarrow> c_out c \<noteq> []) \<Longrightarrow> sane c0 (keep_arg c arg isopt)"
  by (auto simp: keep_arg_def add_opt_def add_opt_common_Some add_arg_def fuse_opt_add_arg_def)

lemma sane_call_proc: "proc_ok e \<Longrightarrow> sane c (call_proc e c arg key isopt)"
proof (cases "e_proc e")
  case None
  then show ?thesis by (simp add: call_proc_def sane_keep)
next
  case (Some p)
  assume ok: "proc_ok e"
  obtain res d out where p: "p (c_data c) arg key (c_out c) = (res, d, out)" by (cases "p (c_data c) arg key (c_out c)")
  have "snd (snd (p (c_data c) arg key (c_out c))) \<noteq> []" if "c_out c \<noteq> []" using ok Some that by (simp add: proc_ok_def)
  then have "c_out c \<noteq> [] \<longrightarrow> out \<noteq> []" using p by simp
  then show ?thesis using Some p by (auto simp: call_proc_def Let_def intro!: sane_keep)
qed

lemma match_template_format: "match_template t arg = Some k \<Longrightarrow> k \<noteq> 0 \<Longrightarrow> length t = k + 1 \<or> t ! (k + 1) = CHR ''%''"
  by (auto simp: match_template_def Let_def split: option.splits if_splits)

lemma sane_process_opt:
  assumes "proc_ok e" and "match_template (templ opt) a = Some sep"
  shows "sane c (process_opt e c opt sep arg isopt)"
proof (cases "offset opt \<noteq> NO_OFFSET \<and> sep \<noteq> 0 \<and> sep + 1 < length (templ opt)")
  case True
  then have "templ opt ! (sep + 1) = CHR ''%''" using match_template_format [OF assms(2)] by auto
  moreover have "drop (sep + 1) (templ opt) = templ opt ! (sep + 1) # drop (Suc (sep + 1)) (templ opt)"
    using True by (intro Cons_nth_drop_Suc [symmetric]) simp
  ultimately show ?thesis using True
    by (auto simp: process_opt_def process_opt_param_def Let_def split: option.splits)
next
  case False
  then show ?thesis using sane_call_proc [OF assms(1)] by (auto simp: process_opt_def)
qed

lemma sane_sep_arg:
  assumes "proc_ok e" and "match_template (templ opt) a = Some sep"
  shows "sane c (process_opt_sep_arg e c opt sep arg isopt)"
proof (cases "next_arg e c")
  case (OOk c1)
  then have "c_argctr c \<le> c_argctr c1" "c_out c1 = c_out c" by (auto simp: next_arg_def split: if_splits)
  then have "sane c (Some (OOk c1))" by simp
  then show ?thesis using OOk sane_trans [OF _ refl sane_process_opt [OF assms, of c1]] by (simp add: process_opt_sep_arg_def)
qed (simp add: process_opt_sep_arg_def)

lemma find_opt_match: "find_opt xs arg = Some (x, sep, ys) \<Longrightarrow> match_template (templ x) arg = Some sep"
  by (induction xs) (auto split: option.splits)

lemma sane_gopt_loop: "proc_ok e \<Longrightarrow> sane c (gopt_loop e c xs arg isopt)"
proof (induction e c xs arg isopt rule: gopt_loop.induct)
  case (1 e c xs arg isopt)
  show ?case
  proof (cases "find_opt xs arg")
    case None
    then show ?thesis by (simp add: gopt_loop.simps [of e c xs])
  next
    case (Some y)
    obtain opt sep rest where y: "y = (opt, sep, rest)" by (cases y)
    have mt: "match_template (templ opt) arg = Some sep" using Some y by (simp add: find_opt_match)
    let ?r = "if sep \<noteq> 0 \<and> templ opt ! sep = CHR '' '' \<and> length arg \<le> sep
      then process_opt_sep_arg e c opt sep arg isopt else process_opt e c opt sep arg isopt"
    have s: "sane c ?r" using sane_process_opt [OF 1(2) mt] sane_sep_arg [OF 1(2) mt] by simp
    have u: "gopt_loop e c xs arg isopt = (case ?r of None \<Rightarrow> None | Some (OErr x) \<Rightarrow> Some (OErr x)
        | Some (OOk c1) \<Rightarrow> gopt_loop e c1 rest arg isopt)" using Some y by (simp add: gopt_loop.simps [of e c xs])
    consider (n) "?r = None" | (err) x where "?r = Some (OErr x)" | (ok) c1 where "?r = Some (OOk c1)"
      by (metis ores.exhaust option.exhaust)
    then show ?thesis
    proof cases
      case n
      then show ?thesis using s by (simp only: sane_simps)
    next
      case err
      then show ?thesis using u by simp
    next
      case ok
      have "sane c1 (gopt_loop e c1 rest arg isopt)" by (rule "1.IH" [OF Some y [symmetric] refl ok refl 1(2)])
      then show ?thesis unfolding u ok using sane_trans [OF s ok] by simp
    qed
  qed
qed

lemma sane_process_gopt: "proc_ok e \<Longrightarrow> sane c (process_gopt e c arg isopt)"
  by (simp add: process_gopt_def sane_gopt_loop sane_call_proc)

lemma sane_group_loop: "proc_ok e \<Longrightarrow> sane c (group_loop e c s d)"
proof (induction e c s d rule: group_loop.induct)
  case (1 e c s d)
  let ?d = "takeWhile (\<lambda>x. x \<noteq> CHR 0x00) d"
  consider "s = []" | "s \<noteq> []" "hd s = comma" | "s \<noteq> []" "hd s \<noteq> comma" by blast
  then show ?case
  proof cases
    case 1
    then show ?thesis using sane_process_gopt [OF "1.prems"] by (simp add: group_loop.simps)
  next
    case 2
    then have u: "group_loop e c s d = (case process_gopt e c ?d True of None \<Rightarrow> None | Some (OErr x) \<Rightarrow> Some (OErr x)
        | Some (OOk c1) \<Rightarrow> group_loop e c1 (tl s) [])" by (simp add: group_loop.simps [of e c s])
    note g = sane_process_gopt [OF "1.prems", of c ?d True]
    show ?thesis
    proof (cases "process_gopt e c ?d True")
      case None
      then show ?thesis using g by simp
    next
      case (Some r)
      show ?thesis
      proof (cases r)
        case (OErr x)
        then show ?thesis using u Some by simp
      next
        case (OOk c1)
        have "sane c1 (group_loop e c1 (tl s) [])" by (rule "1.IH"(1) [OF 2 Some OOk "1.prems"])
        then show ?thesis using u Some OOk sane_trans [OF g] by simp
      qed
    qed
  next
    case 3
    then show ?thesis using "1.IH"(2) [OF 3 "1.prems"] by (simp add: group_loop.simps [of e c s])
  qed
qed

lemma sane_process_one: "proc_ok e \<Longrightarrow> sane c (process_one e c arg)"
proof -
  assume ok: "proc_ok e"
  have n: "sane c (case next_arg e c of OErr x \<Rightarrow> Some (OErr x) | OOk c1 \<Rightarrow> process_option_group e c1 (e_argv e ! c_argctr c1))"
  proof (cases "next_arg e c")
    case (OOk c1)
    then have "sane c (Some (OOk c1))" by (auto simp: next_arg_def split: if_splits)
    then show ?thesis using OOk sane_trans [OF _ refl sane_group_loop [OF ok, of c1]] by (simp add: process_option_group_def)
  qed simp
  show ?thesis using n sane_call_proc [OF ok] sane_process_gopt [OF ok] sane_group_loop [OF ok]
    by (simp add: process_one_def process_option_group_def Let_def) (simp add: add_arg_def fuse_opt_add_arg_def)
qed

lemma parse_loop_total:
  "proc_ok e \<Longrightarrow> length (e_argv e) \<le> c_argctr c + k \<Longrightarrow> c_out c \<noteq> [] \<Longrightarrow>
    parse_loop e k c \<noteq> None \<and> (\<forall>c1. parse_loop e k c = Some (OOk c1) \<longrightarrow> c_out c1 \<noteq> [])"
proof (induction k arbitrary: c)
  case (Suc k)
  show ?case
  proof (cases "c_argctr c < length (e_argv e)")
    case True
    note s = sane_process_one [OF Suc.prems(1), of c "e_argv e ! c_argctr c"]
    show ?thesis
    proof (cases "process_one e c (e_argv e ! c_argctr c)")
      case None
      then show ?thesis using s by simp
    next
      case (Some r)
      show ?thesis
      proof (cases r)
        case (OErr x)
        then show ?thesis using True Some by simp
      next
        case (OOk c1)
        then have "c_argctr c \<le> c_argctr c1" "c_out c1 \<noteq> []" using s Some Suc.prems(3) by auto
        then show ?thesis using True Some OOk Suc.IH [of "c1\<lparr>c_argctr := c_argctr c1 + 1\<rparr>"] Suc.prems(1,2) by simp
      qed
    qed
  qed (use Suc.prems in simp)
qed auto

section \<open>Groups\<close>

text \<open>The options of a group, decoded.\<close>

function split_group :: "string \<Rightarrow> string \<Rightarrow> string list" where
  "split_group s d =
     (if s = [] then [d]
      else if hd s = comma then d # split_group (tl s) []
      else split_group (snd (group_char s)) (d @ [fst (group_char s)]))"
  by pat_completeness auto
termination by (relation "measure (\<lambda>(s, d). length s)") (auto intro: group_char_shorter)

declare split_group.simps [simp del]

text \<open>Processing a list of options one after the other.\<close>

fun process_gopts :: "opt_env \<Rightarrow> opt_ctx \<Rightarrow> string list \<Rightarrow> opt_ctx ores option" where
  "process_gopts e c [] = Some (OOk c)"
| "process_gopts e c (x # xs) = (case process_gopt e c x True of
     None \<Rightarrow> None | Some (OErr y) \<Rightarrow> Some (OErr y) | Some (OOk c1) \<Rightarrow> process_gopts e c1 xs)"

lemma process_gopts_one: "process_gopts e c [x] = process_gopt e c x True"
  by (simp split: option.split ores.split)

lemma group_loop_split:
  "group_loop e c s d = process_gopts e c (map (takeWhile (\<lambda>x. x \<noteq> CHR 0x00)) (split_group s d))"
proof (induction e c s d rule: group_loop.induct)
  case (1 e c s d)
  consider "s = []" | "s \<noteq> []" "hd s = comma" | "s \<noteq> []" "hd s \<noteq> comma" by blast
  then show ?case
  proof cases
    case 1
    then show ?thesis by (simp add: group_loop.simps split_group.simps process_gopts_one del: process_gopts.simps)
  next
    case 2
    then show ?thesis using "1.IH"(1) [OF 2]
      by (simp add: group_loop.simps [of e c s] split_group.simps [of s] split: option.split ores.split)
  next
    case 3
    then show ?thesis using "1.IH"(2) [OF 3] by (simp add: group_loop.simps [of e c s] split_group.simps [of s d])
  qed
qed

text \<open>Decoding undoes the escapes of an option that is followed by the end of the group or a comma.\<close>

lemma group_char_escaped:
  assumes "c = comma \<or> c = bslash"
  shows "group_char (bslash # c # r) = (c, r)"
proof -
  have "\<not> octal comma" "\<not> octal bslash" by (simp_all add: octal_def)
  then have "\<not> octal c" using assms by (elim disjE) simp_all
  then show ?thesis by (simp split: list.split)
qed

lemma split_group_escape: "split_group (escape_opt True x @ s) d = split_group s (d @ x)"
proof (induction x arbitrary: d)
  case (Cons c cs)
  show ?case
  proof (cases "c = comma \<or> c = bslash")
    case True
    then show ?thesis using Cons.IH [of "d @ [c]"] group_char_escaped [OF True, of "escape_opt True cs @ s"]
      by (subst split_group.simps) simp
  next
    case False
    then show ?thesis using Cons.IH [of "d @ [c]"] by (subst split_group.simps) simp
  qed
qed simp

text \<open>Adding several options to an option string.\<close>

fun add_opts :: "string option \<Rightarrow> string list \<Rightarrow> string option" where
  "add_opts opts [] = opts"
| "add_opts opts (x # xs) = add_opts (fuse_opt_add_opt_escaped opts x) xs"

lemma add_opts_append:
  "s \<noteq> [] \<Longrightarrow> add_opts (Some s) xs = Some (s @ concat (map (\<lambda>x. comma # escape_opt True x) xs))"
proof (induction xs arbitrary: s)
  case (Cons x xs)
  then show ?case by (cases s) (simp_all add: fuse_opt_add_opt_escaped_def add_opt_common_Some)
qed simp

lemma escape_nonempty: "x \<noteq> [] \<Longrightarrow> escape_opt esc x \<noteq> []"
  by (cases x) auto

lemma split_group_list: "split_group (concat (map (\<lambda>x. comma # escape_opt True x) xs)) d = d # xs"
proof (induction xs arbitrary: d)
  case Nil
  then show ?case by (simp add: split_group.simps)
next
  case (Cons x xs)
  then show ?case by (simp add: split_group.simps [of _ d] split_group_escape)
qed

section \<open>Properties\<close>

text \<open>
  Property C24: the option parser always returns. For every table of options and every argument vector, no
  assertion fails and the loops end, provided the processing function leaves the program name in place.
\<close>

theorem fuse_opt_parse_total:
  assumes "proc_ok e"
  shows "\<exists>r. fuse_opt_parse e d = Some r"
proof (cases "e_argv e = []")
  case True
  then show ?thesis by (simp add: fuse_opt_parse_def)
next
  case False
  let ?c = "\<lparr>c_data = d, c_argctr = 1, c_out = [hd (e_argv e)], c_opts = None, c_nonopt = 0\<rparr>"
  note t = parse_loop_total [OF assms, of ?c "length (e_argv e)"]
  have ins: "insert_opts c \<noteq> None" if "c_out c \<noteq> []" for c
    using that by (cases "c_out c") (auto simp: insert_opts_def fuse_opt_insert_arg_def fuse_opt_add_arg_def Let_def split: option.split)
  have "opt_parse e \<lparr>c_data = d, c_argctr = 0, c_out = [], c_opts = None, c_nonopt = 0\<rparr> \<noteq> None"
    using False t ins by (fastforce simp: opt_parse_def add_arg_def fuse_opt_add_arg_def split: option.splits ores.splits)
  then show ?thesis using False by (auto simp: fuse_opt_parse_def split: ores.splits)
qed

definition plain_env :: "string list \<Rightarrow> opt_env" where
  "plain_env argv = \<lparr>e_opts = [\<lparr>templ = ''max_read=%u'', offset = 8, opt_value = 0\<rparr>, FUSE_OPT_KEY ''-h'' 0],
     e_proc = None, e_argv = argv, e_scanf = (\<lambda>p f. map_option VInt (atoi p))\<rparr>"

theorem fuse_opt_parse_total_witness: "\<exists>r. fuse_opt_parse (plain_env [''ramdisk'', ''-o'', ''max_read=4096'', ''/mnt'']) Map.empty = Some r"
  by (rule fuse_opt_parse_total) (simp add: proc_ok_def plain_env_def)

text \<open>
  Property C25: option strings round-trip. Non-empty options joined with \<open>fuse_opt_add_opt_escaped\<close>, whatever
  commas and backslashes they contain, are processed one by one, unchanged and in order, when the string
  is given as an option group.
\<close>

theorem option_group_roundtrip:
  assumes "xs \<noteq> []" and "list_all (\<lambda>x. x \<noteq> [] \<and> CHR 0x00 \<notin> set x) xs"
  shows "\<exists>s. add_opts None xs = Some s \<and> process_option_group e c s = process_gopts e c xs"
proof -
  obtain y ys where xs: "xs = y # ys" using assms(1) by (cases xs) auto
  let ?s = "escape_opt True y @ concat (map (\<lambda>x. comma # escape_opt True x) ys)"
  have "escape_opt True y \<noteq> []" using assms(2) xs by (simp add: escape_nonempty)
  then have "add_opts None xs = Some ?s"
    using add_opts_append [of "escape_opt True y" ys] xs by (simp add: fuse_opt_add_opt_escaped_def add_opt_common_Some)
  moreover have "split_group ?s [] = xs" by (simp add: split_group_escape split_group_list xs)
  moreover have "map (takeWhile (\<lambda>x. x \<noteq> CHR 0x00)) xs = xs"
    using assms(2) by (auto simp: list_all_iff intro!: map_idI takeWhile_eq_all_conv [THEN iffD2])
  ultimately show ?thesis by (simp add: process_option_group_def group_loop_split)
qed

theorem option_group_roundtrip_witness:
  "\<exists>s. add_opts None [''fsname=a,b'', ''ro''] = Some s
    \<and> process_option_group (plain_env []) \<lparr>c_data = Map.empty, c_argctr = 0, c_out = [], c_opts = None, c_nonopt = 0\<rparr> s
      = process_gopts (plain_env []) \<lparr>c_data = Map.empty, c_argctr = 0, c_out = [], c_opts = None, c_nonopt = 0\<rparr> [''fsname=a,b'', ''ro'']"
  by (rule option_group_roundtrip) simp_all

text \<open>Arguments that no option of the table matches and that are neither \<open>-o\<close> groups nor the separator.\<close>

definition unknown_arg :: "opt_env \<Rightarrow> string \<Rightarrow> bool" where
  "unknown_arg e a \<longleftrightarrow> find_opt (e_opts e) a = None \<and> take 2 a \<noteq> ''-o'' \<and> a \<noteq> ''--''"

lemma process_one_unknown:
  assumes "unknown_arg e a" and "e_proc e = None"
  shows "process_one e c a = Some (OOk (add_arg c a))"
proof -
  have k: "call_proc e c a key False = Some (OOk (add_arg c a))" if "key \<noteq> FUSE_OPT_KEY_DISCARD" for key
    using that assms(2) by (simp add: call_proc_def keep_arg_def)
  have "\<not> (a \<noteq> [] \<and> hd a = CHR ''-'' \<and> 1 < length a \<and> a ! 1 = CHR ''o'')"
    using assms(1) by (cases a; cases "tl a") (auto simp: unknown_arg_def)
  then show ?thesis using assms(1) k by (auto simp: process_one_def process_gopt_def unknown_arg_def opt_keys)
qed

lemma parse_loop_unknown:
  "length (e_argv e) \<le> c_argctr c + k \<Longrightarrow> c_argctr c \<le> length (e_argv e) \<Longrightarrow> e_proc e = None \<Longrightarrow>
    list_all (unknown_arg e) (drop (c_argctr c) (e_argv e)) \<Longrightarrow>
    parse_loop e k c = Some (OOk (c\<lparr>c_argctr := length (e_argv e), c_out := c_out c @ drop (c_argctr c) (e_argv e)\<rparr>))"
proof (induction k arbitrary: c)
  case 0
  then show ?case by simp
next
  case (Suc k)
  show ?case
  proof (cases "c_argctr c < length (e_argv e)")
    case True
    let ?a = "e_argv e ! c_argctr c"
    have d: "drop (c_argctr c) (e_argv e) = ?a # drop (Suc (c_argctr c)) (e_argv e)"
      using True by (intro Cons_nth_drop_Suc [symmetric]) simp
    then have "process_one e c ?a = Some (OOk (add_arg c ?a))"
      using Suc.prems by (intro process_one_unknown) simp_all
    then have "parse_loop e (Suc k) c = parse_loop e k (c\<lparr>c_out := c_out c @ [?a], c_argctr := Suc (c_argctr c)\<rparr>)"
      using True by (simp add: add_arg_def fuse_opt_add_arg_def)
    then show ?thesis using Suc.prems d True Suc.IH [of "c\<lparr>c_out := c_out c @ [?a], c_argctr := Suc (c_argctr c)\<rparr>"]
      by (cases c) simp
  next
    case False
    then show ?thesis using Suc.prems by (cases c) simp
  qed
qed

text \<open>
  Without a processing function, arguments that match no option are kept, all of them and in
  order, and no variable is changed.
\<close>

theorem unknown_args_kept:
  assumes "e_argv e \<noteq> []" and "e_proc e = None" and "list_all (unknown_arg e) (tl (e_argv e))"
  shows "fuse_opt_parse e d = Some (0, e_argv e, d)"
proof -
  let ?c = "\<lparr>c_data = d, c_argctr = 1, c_out = [hd (e_argv e)], c_opts = None, c_nonopt = 0\<rparr>"
  have t: "drop 1 (e_argv e) = tl (e_argv e)" by (simp add: drop_Suc)
  have "1 \<le> length (e_argv e)" using assms(1) by (cases "e_argv e") auto
  then have "parse_loop e (length (e_argv e)) ?c = Some (OOk (?c\<lparr>c_argctr := length (e_argv e), c_out := e_argv e\<rparr>))"
    using parse_loop_unknown [of e ?c "length (e_argv e)"] assms t by simp
  then show ?thesis using assms(1)
    by (simp add: fuse_opt_parse_def opt_parse_def add_arg_def fuse_opt_add_arg_def insert_opts_def drop_separator_def)
qed

theorem unknown_args_kept_witness:
  "fuse_opt_parse (plain_env [''ramdisk'', ''/mnt'', ''-f'']) Map.empty = Some (0, [''ramdisk'', ''/mnt'', ''-f''], Map.empty)"
proof -
  have "unknown_arg (plain_env [''ramdisk'', ''/mnt'', ''-f'']) x" if "x = ''/mnt'' \<or> x = ''-f''" for x
    using that by (elim disjE) (simp_all add: unknown_arg_def plain_env_def FUSE_OPT_KEY_def match_template_def strchr_ix_def)
  then show ?thesis using unknown_args_kept [of "plain_env [''ramdisk'', ''/mnt'', ''-f'']" Map.empty]
    by (simp add: plain_env_def)
qed

text \<open>
  The separator \<open>--\<close> at the end is removed, but not when options were collected with \<open>-o\<close>: the
  two arguments inserted for them move the end of the arguments, and the position of the separator is
  compared with the old one.
\<close>

theorem separator_kept_after_options:
  "map_option (\<lambda>(r, out, d). (r, out)) (fuse_opt_parse (plain_env [''ramdisk'', ''/mnt'', ''--'']) Map.empty)
      = Some (0, [''ramdisk'', ''/mnt''])
    \<and> map_option (\<lambda>(r, out, d). (r, out)) (fuse_opt_parse (plain_env [''ramdisk'', ''-oro'', ''/mnt'', ''--'']) Map.empty)
      = Some (0, [''ramdisk'', ''-o'', ''ro'', ''/mnt'', ''--''])"
proof -
  have g: "process_option_group e c ''ro'' = process_gopt e c ''ro'' True" for e c
    using split_group_escape [of "''ro''" "[]" "[]"]
    by (simp add: process_option_group_def group_loop_split split_group.simps [of "[]"] process_gopts_one del: process_gopts.simps)
  show ?thesis
    by (simp add: fuse_opt_parse_def opt_parse_def plain_env_def process_one_def g process_gopt_def call_proc_def keep_arg_def
        add_opt_def add_opt_common_Some add_arg_def fuse_opt_add_arg_def opt_keys FUSE_OPT_KEY_def match_template_def strchr_ix_def
        insert_opts_def fuse_opt_insert_arg_def drop_separator_def Let_def)
qed

text \<open>
  Adding an option stays inside the reallocated string, whatever has to be escaped.
\<close>

theorem add_opt_fits:
  "\<exists>s. add_opt_common opts opt esc = Some s
    \<and> length s + 1 \<le> (case opts of None \<Rightarrow> 0 | Some old \<Rightarrow> length old) + 1 + length opt * 2 + 1"
  using length_escape [of esc opt] by (auto simp: add_opt_common_Some split: option.split list.split)

text \<open>
  Inserting an argument puts it at the given position and keeps the others in order.
\<close>

theorem insert_arg_position:
  assumes "pos \<le> length args"
  shows "fuse_opt_insert_arg args pos arg = Some (take pos args @ arg # drop pos args)"
proof (cases "pos = length args")
  case True
  then show ?thesis by (simp add: fuse_opt_insert_arg_def fuse_opt_add_arg_def)
next
  case False
  then have p: "pos < length args" using assms by simp
  have m: "take (Suc pos) args = take pos args @ [args ! pos]" using p by (rule take_Suc_conv_app_nth)
  have "(take (Suc pos) (args @ [arg]) @ take (length args - pos) (drop pos (args @ [arg])))[pos := arg]
      = take pos args @ arg # drop pos args"
    using p by (simp add: m list_update_append)
  then show ?thesis using p by (simp add: fuse_opt_insert_arg_def fuse_opt_add_arg_def Let_def nth_append)
qed

theorem insert_arg_position_witness:
  "fuse_opt_insert_arg [''ramdisk'', ''/mnt''] 1 ''-o'' = Some (take 1 [''ramdisk'', ''/mnt''] @ ''-o'' # drop 1 [''ramdisk'', ''/mnt''])"
  by (rule insert_arg_position) simp

end
