(* ===== verification/Fuse_Buffer.thy ===== *)
theory Fuse_Buffer
  imports Prelude "HOL-Library.Word"
begin

text \<open>
  The data buffers of the FUSE library, \<open>fuse-2.9.3/lib/buffer.c\<close>: vectors of buffers that are memory
  areas or file descriptors, and \<open>fuse_buf_copy\<close>, which copies one vector to another whatever the
  kinds of their buffers. Memory is a map from addresses to bytes. The system calls are parameters: the
  record \<open>sysio\<close> holds one function on the state of the kernel for each, with the documented
  condition that no call reports more bytes than it was asked for as hypothesis of the theorems. A
  failing \<open>assert\<close>, a \<open>NULL\<close> pointer and \<open>memcpy\<close> on overlapping areas are \<open>None\<close>. Sizes and
  the count of copied bytes are natural numbers, so that the count does not wrap around; only \<open>fuse_buf_size\<close>, which adds
  without looking, is computed in \<open>size_t\<close>.
\<close>

unbundle bit_operations_syntax

section \<open>Data\<close>

definition FUSE_BUF_IS_FD :: "32 word" where
  "FUSE_BUF_IS_FD = 2"

definition FUSE_BUF_FD_SEEK :: "32 word" where
  "FUSE_BUF_FD_SEEK = 4"

definition FUSE_BUF_FD_RETRY :: "32 word" where
  "FUSE_BUF_FD_RETRY = 8"

definition FUSE_BUF_NO_SPLICE :: "32 word" where
  "FUSE_BUF_NO_SPLICE = 2"

definition FUSE_BUF_FORCE_SPLICE :: "32 word" where
  "FUSE_BUF_FORCE_SPLICE = 4"

definition FUSE_BUF_SPLICE_MOVE :: "32 word" where
  "FUSE_BUF_SPLICE_MOVE = 8"

definition FUSE_BUF_SPLICE_NONBLOCK :: "32 word" where
  "FUSE_BUF_SPLICE_NONBLOCK = 16"

lemmas buf_flag_defs = FUSE_BUF_IS_FD_def FUSE_BUF_FD_SEEK_def FUSE_BUF_FD_RETRY_def FUSE_BUF_NO_SPLICE_def
  FUSE_BUF_FORCE_SPLICE_def FUSE_BUF_SPLICE_MOVE_def FUSE_BUF_SPLICE_NONBLOCK_def

definition has_flag :: "32 word \<Rightarrow> 32 word \<Rightarrow> bool" where
  "has_flag flags f = (flags AND f \<noteq> 0)"

record fuse_buf =
  buf_size :: nat
  buf_flags :: "32 word"
  buf_mem :: nat
  buf_fd :: int
  buf_pos :: int

text \<open>The length of the list of buffers is \<open>count\<close>.\<close>

record fuse_bufvec =
  vec_idx :: nat
  vec_off :: nat
  vec_buf :: "fuse_buf list"

definition FUSE_BUFVEC_INIT :: "nat \<Rightarrow> fuse_bufvec" where
  "FUSE_BUFVEC_INIT sz = \<lparr>vec_idx = 0, vec_off = 0,
     vec_buf = [\<lparr>buf_size = sz, buf_flags = 0, buf_mem = 0, buf_fd = - 1, buf_pos = 0\<rparr>]\<rparr>"

section \<open>Memory and system calls\<close>

type_synonym memory = "nat \<Rightarrow> char"

text \<open>\<open>mem_store m as bs\<close> writes the bytes \<open>bs\<close> to the addresses \<open>as\<close>, one after the other.\<close>

definition mem_store :: "memory \<Rightarrow> nat list \<Rightarrow> string \<Rightarrow> memory" where
  "mem_store m as bs = fold (\<lambda>(a, b) m. m(a := b)) (zip as bs) m"

definition mem_get :: "memory \<Rightarrow> nat \<Rightarrow> nat \<Rightarrow> string" where
  "mem_get m a n = map m [a ..< a + n]"

definition mem_put :: "memory \<Rightarrow> nat \<Rightarrow> string \<Rightarrow> memory" where
  "mem_put m a bs = mem_store m [a ..< a + length bs] bs"

definition memcpy :: "memory \<Rightarrow> nat \<Rightarrow> nat \<Rightarrow> nat \<Rightarrow> memory option" where
  "memcpy m d s n = (if d + n \<le> s \<or> s + n \<le> d then Some (mem_put m d (mem_get m s n)) else None)"

definition memmove :: "memory \<Rightarrow> nat \<Rightarrow> nat \<Rightarrow> nat \<Rightarrow> memory" where
  "memmove m d s n = mem_put m d (mem_get m s n)"

text \<open>
  Each call takes the state of the kernel and returns its new state with an error number or what it
  transferred. \<open>sys_splice\<close> is absent in a build without \<open>HAVE_SPLICE\<close>; its positions are those that
  the two pointer arguments hold, which the call advances by the number of bytes moved. \<open>stack_buf\<close> is
  the address of the local array of \<open>fuse_buf_fd_to_fd\<close>.
\<close>

record 'k sysio =
  sys_write :: "int \<Rightarrow> string \<Rightarrow> 'k \<Rightarrow> (int + nat) \<times> 'k"
  sys_pwrite :: "int \<Rightarrow> string \<Rightarrow> int \<Rightarrow> 'k \<Rightarrow> (int + nat) \<times> 'k"
  sys_read :: "int \<Rightarrow> nat \<Rightarrow> 'k \<Rightarrow> (int + string) \<times> 'k"
  sys_pread :: "int \<Rightarrow> nat \<Rightarrow> int \<Rightarrow> 'k \<Rightarrow> (int + string) \<times> 'k"
  sys_splice :: "(int \<Rightarrow> int option \<Rightarrow> int \<Rightarrow> int option \<Rightarrow> nat \<Rightarrow> bool \<Rightarrow> bool \<Rightarrow> 'k \<Rightarrow> (int + nat) \<times> 'k) option"
  stack_buf :: nat

definition EINVAL :: int where
  "EINVAL = 22"

section \<open>Sizes\<close>

abbreviation SIZE_MAX :: nat where
  "SIZE_MAX \<equiv> 2 ^ 64 - 1"

text \<open>The sum in \<open>size_t\<close> wraps around.\<close>

fun buf_size_loop :: "fuse_buf list \<Rightarrow> nat \<Rightarrow> nat" where
  "buf_size_loop [] sz = sz"
| "buf_size_loop (b # bs) sz =
     (if buf_size b = SIZE_MAX then buf_size_loop bs SIZE_MAX
      else buf_size_loop bs ((sz + buf_size b) mod 2 ^ 64))"

definition fuse_buf_size :: "fuse_bufvec \<Rightarrow> nat" where
  "fuse_buf_size bufv = buf_size_loop (vec_buf bufv) 0"

definition min_size :: "nat \<Rightarrow> nat \<Rightarrow> nat" where
  "min_size s1 s2 = (if s1 < s2 then s1 else s2)"

text \<open>A \<open>size_t\<close> returned as \<open>ssize_t\<close>.\<close>

definition to_ssize :: "nat \<Rightarrow> int" where
  "to_ssize n = (if n < 2 ^ 63 then int n else int n - 2 ^ 64)"

section \<open>Copying between one buffer and another\<close>

text \<open>
  The result of the loops is what the function returns, a count or a negative error number, and the new
  memory and kernel. A count above \<open>len\<close> is outside the documented behaviour of the calls.
\<close>

definition write_call :: "'k sysio \<Rightarrow> fuse_buf \<Rightarrow> nat \<Rightarrow> string \<Rightarrow> 'k \<Rightarrow> (int + nat) \<times> 'k" where
  "write_call io dst dst_off data k =
     (if has_flag (buf_flags dst) FUSE_BUF_FD_SEEK
      then sys_pwrite io (buf_fd dst) data (buf_pos dst + int dst_off) k
      else sys_write io (buf_fd dst) data k)"

definition read_call :: "'k sysio \<Rightarrow> fuse_buf \<Rightarrow> nat \<Rightarrow> nat \<Rightarrow> 'k \<Rightarrow> (int + string) \<times> 'k" where
  "read_call io src src_off len k =
     (if has_flag (buf_flags src) FUSE_BUF_FD_SEEK
      then sys_pread io (buf_fd src) len (buf_pos src + int src_off) k
      else sys_read io (buf_fd src) len k)"

fun fuse_buf_write :: "'k sysio \<Rightarrow> fuse_buf \<Rightarrow> nat \<Rightarrow> fuse_buf \<Rightarrow> nat \<Rightarrow> nat \<Rightarrow> nat \<Rightarrow> memory \<times> 'k \<Rightarrow>
    (int \<times> memory \<times> 'k) option" where
  "fuse_buf_write io dst dst_off src src_off len copied (m, k) =
     (if len = 0 then Some (int copied, m, k)
      else let data = mem_get m (buf_mem src + src_off) len;
               (res, k') = write_call io dst dst_off data k
           in case res of
                Inl errno \<Rightarrow> Some (if copied = 0 then - errno else int copied, m, k')
              | Inr n \<Rightarrow>
                  if n = 0 then Some (int copied, m, k')
                  else if n > len then None
                  else if \<not> has_flag (buf_flags dst) FUSE_BUF_FD_RETRY then Some (int (copied + n), m, k')
                  else fuse_buf_write io dst (dst_off + n) src (src_off + n) (len - n) (copied + n) (m, k'))"

fun fuse_buf_read :: "'k sysio \<Rightarrow> fuse_buf \<Rightarrow> nat \<Rightarrow> fuse_buf \<Rightarrow> nat \<Rightarrow> nat \<Rightarrow> nat \<Rightarrow> memory \<times> 'k \<Rightarrow>
    (int \<times> memory \<times> 'k) option" where
  "fuse_buf_read io dst dst_off src src_off len copied (m, k) =
     (if len = 0 then Some (int copied, m, k)
      else let (res, k') = read_call io src src_off len k
           in case res of
                Inl errno \<Rightarrow> Some (if copied = 0 then - errno else int copied, m, k')
              | Inr bs \<Rightarrow>
                  if bs = [] then Some (int copied, m, k')
                  else if length bs > len then None
                  else let m' = mem_put m (buf_mem dst + dst_off) bs; n = length bs
                       in if \<not> has_flag (buf_flags src) FUSE_BUF_FD_RETRY then Some (int (copied + n), m', k')
                          else fuse_buf_read io dst (dst_off + n) src (src_off + n) (len - n) (copied + n) (m', k'))"

declare fuse_buf_write.simps [simp del] fuse_buf_read.simps [simp del]

text \<open>The buffer \<open>tmp\<close> of \<open>fuse_buf_fd_to_fd\<close>.\<close>

definition tmp_buf :: "'k sysio \<Rightarrow> fuse_buf" where
  "tmp_buf io = \<lparr>buf_size = 4096, buf_flags = 0, buf_mem = stack_buf io, buf_fd = 0, buf_pos = 0\<rparr>"

fun fuse_buf_fd_to_fd :: "'k sysio \<Rightarrow> fuse_buf \<Rightarrow> nat \<Rightarrow> fuse_buf \<Rightarrow> nat \<Rightarrow> nat \<Rightarrow> nat \<Rightarrow> memory \<times> 'k \<Rightarrow>
    (int \<times> memory \<times> 'k) option" where
  "fuse_buf_fd_to_fd io dst dst_off src src_off len copied s =
     (if len = 0 then Some (int copied, s)
      else let this_len = min_size (buf_size (tmp_buf io)) len
           in case fuse_buf_read io (tmp_buf io) 0 src src_off this_len 0 s of
                None \<Rightarrow> None
              | Some (res, s1) \<Rightarrow>
                  if res < 0 then Some (if copied = 0 then res else int copied, s1)
                  else if res = 0 then Some (int copied, s1)
                  else (case fuse_buf_write io dst dst_off (tmp_buf io) 0 (nat res) 0 s1 of
                          None \<Rightarrow> None
                        | Some (res', s2) \<Rightarrow>
                            if res' < 0 then Some (if copied = 0 then res' else int copied, s2)
                            else if res' = 0 then Some (int copied, s2)
                            else if nat res' < this_len then Some (int (copied + nat res'), s2)
                            else fuse_buf_fd_to_fd io dst (dst_off + nat res') src (src_off + nat res')
                                   (len - nat res') (copied + nat res') s2))"

declare fuse_buf_fd_to_fd.simps [simp del]

text \<open>The loop of \<open>fuse_buf_splice\<close>; \<open>sp\<close> and \<open>dp\<close> are the positions the two pointers refer to, if set.\<close>

definition advance_pos :: "nat \<Rightarrow> int option \<Rightarrow> int option" where
  "advance_pos n p = map_option (\<lambda>x. x + int n) p"

fun splice_loop :: "(int \<Rightarrow> int option \<Rightarrow> int \<Rightarrow> int option \<Rightarrow> nat \<Rightarrow> bool \<Rightarrow> bool \<Rightarrow> 'k \<Rightarrow> (int + nat) \<times> 'k) \<Rightarrow>
    'k sysio \<Rightarrow> fuse_buf \<Rightarrow> nat \<Rightarrow> fuse_buf \<Rightarrow> nat \<Rightarrow> 32 word \<Rightarrow> int option \<Rightarrow> int option \<Rightarrow> nat \<Rightarrow> nat \<Rightarrow>
    memory \<times> 'k \<Rightarrow> (int \<times> memory \<times> 'k) option" where
  "splice_loop spl io dst dst_off src src_off flags sp dp len copied (m, k) =
     (if len = 0 then Some (int copied, m, k)
      else let (res, k') = spl (buf_fd src) sp (buf_fd dst) dp len
                 (has_flag flags FUSE_BUF_SPLICE_MOVE) (has_flag flags FUSE_BUF_SPLICE_NONBLOCK) k
           in case res of
                Inl errno \<Rightarrow>
                  if copied \<noteq> 0 then Some (int copied, m, k')
                  else if errno \<noteq> EINVAL \<or> has_flag flags FUSE_BUF_FORCE_SPLICE then Some (- errno, m, k')
                  else fuse_buf_fd_to_fd io dst dst_off src src_off len 0 (m, k')
              | Inr n \<Rightarrow>
                  if n = 0 then Some (int copied, m, k')
                  else if n > len then None
                  else if \<not> has_flag (buf_flags src) FUSE_BUF_FD_RETRY \<and> \<not> has_flag (buf_flags dst) FUSE_BUF_FD_RETRY
                  then Some (int (copied + n), m, k')
                  else splice_loop spl io dst dst_off src src_off flags (advance_pos n sp) (advance_pos n dp)
                         (len - n) (copied + n) (m, k'))"

declare splice_loop.simps [simp del]

definition start_pos :: "fuse_buf \<Rightarrow> nat \<Rightarrow> int option" where
  "start_pos b off = (if has_flag (buf_flags b) FUSE_BUF_FD_SEEK then Some (buf_pos b + int off) else None)"

definition fuse_buf_splice :: "'k sysio \<Rightarrow> fuse_buf \<Rightarrow> nat \<Rightarrow> fuse_buf \<Rightarrow> nat \<Rightarrow> nat \<Rightarrow> 32 word \<Rightarrow> memory \<times> 'k \<Rightarrow>
    (int \<times> memory \<times> 'k) option" where
  "fuse_buf_splice io dst dst_off src src_off len flags s = (case sys_splice io of
       None \<Rightarrow> fuse_buf_fd_to_fd io dst dst_off src src_off len 0 s
     | Some spl \<Rightarrow> splice_loop spl io dst dst_off src src_off flags
         (start_pos src src_off) (start_pos dst dst_off) len 0 s)"

definition copy_memory :: "memory \<Rightarrow> nat \<Rightarrow> nat \<Rightarrow> nat \<Rightarrow> memory option" where
  "copy_memory m dstmem srcmem len =
     (if dstmem \<noteq> srcmem then
        if dstmem + len \<le> srcmem \<or> srcmem + len \<le> dstmem then memcpy m dstmem srcmem len
        else Some (memmove m dstmem srcmem len)
      else Some m)"

definition fuse_buf_copy_one :: "'k sysio \<Rightarrow> fuse_buf \<Rightarrow> nat \<Rightarrow> fuse_buf \<Rightarrow> nat \<Rightarrow> nat \<Rightarrow> 32 word \<Rightarrow> memory \<times> 'k \<Rightarrow>
    (int \<times> memory \<times> 'k) option" where
  "fuse_buf_copy_one io dst dst_off src src_off len flags s =
     (let src_is_fd = has_flag (buf_flags src) FUSE_BUF_IS_FD;
          dst_is_fd = has_flag (buf_flags dst) FUSE_BUF_IS_FD
      in if \<not> src_is_fd \<and> \<not> dst_is_fd then
           map_option (\<lambda>m. (int len, m, snd s)) (copy_memory (fst s) (buf_mem dst + dst_off) (buf_mem src + src_off) len)
         else if \<not> src_is_fd then fuse_buf_write io dst dst_off src src_off len 0 s
         else if \<not> dst_is_fd then fuse_buf_read io dst dst_off src src_off len 0 s
         else if has_flag flags FUSE_BUF_NO_SPLICE then fuse_buf_fd_to_fd io dst dst_off src src_off len 0 s
         else fuse_buf_splice io dst dst_off src src_off len flags s)"

section \<open>Vectors\<close>

definition fuse_bufvec_current :: "fuse_bufvec \<Rightarrow> fuse_buf option" where
  "fuse_bufvec_current bufv =
     (if vec_idx bufv < length (vec_buf bufv) then Some (vec_buf bufv ! vec_idx bufv) else None)"

definition fuse_bufvec_advance :: "fuse_bufvec \<Rightarrow> nat \<Rightarrow> (bool \<times> fuse_bufvec) option" where
  "fuse_bufvec_advance bufv len = (case fuse_bufvec_current bufv of
       None \<Rightarrow> None
     | Some buf \<Rightarrow>
         let off = vec_off bufv + len
         in if off > buf_size buf then None
            else if off = buf_size buf then
              if Suc (vec_idx bufv) = length (vec_buf bufv)
              then Some (False, bufv\<lparr>vec_off := off, vec_idx := Suc (vec_idx bufv)\<rparr>)
              else Some (True, bufv\<lparr>vec_off := 0, vec_idx := Suc (vec_idx bufv)\<rparr>)
            else Some (True, bufv\<lparr>vec_off := off\<rparr>))"

text \<open>
  One round of the loop of \<open>fuse_buf_copy\<close>: the flag says whether the loop goes on. An offset behind the
  end of its buffer would wrap around in the subtraction, and then fails the assertion of
  \<open>fuse_bufvec_advance\<close>.
\<close>

datatype 'k copy_round = Stop int fuse_bufvec fuse_bufvec "memory \<times> 'k" | More nat fuse_bufvec fuse_bufvec "memory \<times> 'k"

definition copy_step :: "'k sysio \<Rightarrow> 32 word \<Rightarrow> nat \<Rightarrow> fuse_bufvec \<Rightarrow> fuse_bufvec \<Rightarrow> memory \<times> 'k \<Rightarrow> 'k copy_round option" where
  "copy_step io flags copied dstv srcv s =
     (case (fuse_bufvec_current srcv, fuse_bufvec_current dstv) of
        (Some src, Some dst) \<Rightarrow>
          if vec_off srcv > buf_size src \<or> vec_off dstv > buf_size dst then None
          else let len = min_size (buf_size src - vec_off srcv) (buf_size dst - vec_off dstv)
               in (case fuse_buf_copy_one io dst (vec_off dstv) src (vec_off srcv) len flags s of
                     None \<Rightarrow> None
                   | Some (res, s') \<Rightarrow>
                       if res < 0 then Some (Stop (if copied = 0 then res else int copied) dstv srcv s')
                       else let copied' = copied + nat res in
                         (case fuse_bufvec_advance srcv (nat res) of
                            None \<Rightarrow> None
                          | Some (False, srcv') \<Rightarrow> Some (Stop (int copied') dstv srcv' s')
                          | Some (True, srcv') \<Rightarrow>
                              (case fuse_bufvec_advance dstv (nat res) of
                                 None \<Rightarrow> None
                               | Some (False, dstv') \<Rightarrow> Some (Stop (int copied') dstv' srcv' s')
                               | Some (True, dstv') \<Rightarrow>
                                   if nat res < len then Some (Stop (int copied') dstv' srcv' s')
                                   else Some (More copied' dstv' srcv' s'))))
      | _ \<Rightarrow> Some (Stop (int copied) dstv srcv s))"

definition bufs_left :: "fuse_bufvec \<Rightarrow> nat" where
  "bufs_left v = length (vec_buf v) - vec_idx v"

lemma current_SomeD: "fuse_bufvec_current v = Some b \<Longrightarrow> vec_idx v < length (vec_buf v) \<and> b = vec_buf v ! vec_idx v"
  by (auto simp: fuse_bufvec_current_def split: if_splits)

lemma min_size_min [simp]: "min_size a b = min a b"
  by (simp add: min_size_def)

lemma advance_left:
  assumes "fuse_bufvec_advance v n = Some (c, v')"
  shows "bufs_left v' \<le> bufs_left v"
    and "fuse_bufvec_current v = Some b \<Longrightarrow> buf_size b - vec_off v \<le> n \<Longrightarrow> bufs_left v' < bufs_left v"
  using assms
  by (auto simp: fuse_bufvec_advance_def bufs_left_def Let_def dest!: current_SomeD split: option.splits if_splits)

lemma copy_step_less:
  assumes "copy_step io flags copied dstv srcv s = Some (More copied' dstv' srcv' s')"
  shows "bufs_left dstv' + bufs_left srcv' < bufs_left dstv + bufs_left srcv"
proof -
  obtain src dst res where c: "fuse_bufvec_current srcv = Some src" "fuse_bufvec_current dstv = Some dst"
    and a: "fuse_bufvec_advance srcv (nat res) = Some (True, srcv')" "fuse_bufvec_advance dstv (nat res) = Some (True, dstv')"
    and r: "min (buf_size src - vec_off srcv) (buf_size dst - vec_off dstv) \<le> nat res"
    using assms by (auto simp: copy_step_def Let_def split: option.splits if_splits bool.splits)
  show ?thesis
  proof (cases "buf_size src - vec_off srcv \<le> nat res")
    case True
    then show ?thesis using advance_left [OF a(1)] advance_left(1) [OF a(2)] c(1) by fastforce
  next
    case False
    then have "buf_size dst - vec_off dstv \<le> nat res" using r by linarith
    then show ?thesis using advance_left [OF a(2)] advance_left(1) [OF a(1)] c(2) by fastforce
  qed
qed

function copy_loop :: "'k sysio \<Rightarrow> 32 word \<Rightarrow> nat \<Rightarrow> fuse_bufvec \<Rightarrow> fuse_bufvec \<Rightarrow> memory \<times> 'k \<Rightarrow>
    (int \<times> fuse_bufvec \<times> fuse_bufvec \<times> memory \<times> 'k) option" where
  "copy_loop io flags copied dstv srcv s = (case copy_step io flags copied dstv srcv s of
       None \<Rightarrow> None
     | Some (Stop r dstv' srcv' s') \<Rightarrow> Some (r, dstv', srcv', s')
     | Some (More copied' dstv' srcv' s') \<Rightarrow> copy_loop io flags copied' dstv' srcv' s')"
  by pat_completeness auto
termination
  by (relation "measure (\<lambda>(io, flags, copied, dstv, srcv, s). bufs_left dstv + bufs_left srcv)")
     (auto dest: copy_step_less)

declare copy_loop.simps [simp del]

text \<open>The first argument says whether the two vectors are the same object.\<close>

definition fuse_buf_copy :: "'k sysio \<Rightarrow> bool \<Rightarrow> fuse_bufvec \<Rightarrow> fuse_bufvec \<Rightarrow> 32 word \<Rightarrow> memory \<times> 'k \<Rightarrow>
    (int \<times> fuse_bufvec \<times> fuse_bufvec \<times> memory \<times> 'k) option" where
  "fuse_buf_copy io same dstv srcv flags s =
     (if same then Some (to_ssize (fuse_buf_size dstv), dstv, srcv, s)
      else copy_loop io flags 0 dstv srcv s)"

section \<open>Memory\<close>

lemma mem_store_Nil [simp]: "mem_store m [] bs = m" "mem_store m as [] = m"
  by (simp_all add: mem_store_def)

lemma mem_store_append:
  "length as = length bs \<Longrightarrow> mem_store (mem_store m as bs) as' bs' = mem_store m (as @ as') (bs @ bs')"
  by (simp add: mem_store_def)

lemma mem_store_other [simp]: "a \<notin> set as \<Longrightarrow> mem_store m as bs a = m a"
proof (induction as arbitrary: m bs)
  case (Cons x xs)
  then show ?case by (cases bs) (auto simp: mem_store_def)
qed simp

lemma mem_store_map_other: "set xs \<inter> set as = {} \<Longrightarrow> map (mem_store m as bs) xs = map m xs"
  by (intro map_cong refl mem_store_other) auto

lemma mem_store_same:
  "distinct as \<Longrightarrow> length as = length bs \<Longrightarrow> map (mem_store m as bs) as = bs"
proof (induction as arbitrary: m bs)
  case (Cons x xs)
  then obtain b bs' where bs: "bs = b # bs'" by (cases bs) auto
  have e: "mem_store m (x # xs) (b # bs') = mem_store (m(x := b)) xs bs'" by (simp add: mem_store_def)
  show ?case using Cons.prems Cons.IH [of bs' "m(x := b)"] by (simp add: bs e del: fun_upd_apply) (simp add: bs)
qed simp

lemma mem_store_id [simp]: "mem_store m as (map m as) = m"
  by (induction as) (auto simp: mem_store_def)

lemma length_mem_get [simp]: "length (mem_get m a n) = n"
  by (simp add: mem_get_def)

lemma copy_memory_eq: "copy_memory m d s n = Some (mem_put m d (mem_get m s n))"
proof (cases "d = s")
  case True
  then show ?thesis by (simp add: copy_memory_def mem_put_def mem_get_def)
qed (simp add: copy_memory_def memcpy_def memmove_def)

section \<open>Positions in a vector\<close>

definition buf_addrs :: "fuse_buf \<Rightarrow> nat list" where
  "buf_addrs b = [buf_mem b ..< buf_mem b + buf_size b]"

text \<open>The addresses that are still to be read or written, from the position of the vector on.\<close>

definition vec_addrs :: "fuse_bufvec \<Rightarrow> nat list" where
  "vec_addrs v = drop (vec_off v) (concat (map buf_addrs (drop (vec_idx v) (vec_buf v))))"

definition vec_ok :: "fuse_bufvec \<Rightarrow> bool" where
  "vec_ok v = (case fuse_bufvec_current v of None \<Rightarrow> True | Some b \<Rightarrow> vec_off v \<le> buf_size b)"

definition all_mem :: "fuse_bufvec \<Rightarrow> bool" where
  "all_mem v = list_all (\<lambda>b. \<not> has_flag (buf_flags b) FUSE_BUF_IS_FD) (vec_buf v)"

lemma length_buf_addrs [simp]: "length (buf_addrs b) = buf_size b"
  by (simp add: buf_addrs_def)

lemma vec_addrs_None: "fuse_bufvec_current v = None \<Longrightarrow> vec_addrs v = []"
  by (auto simp: fuse_bufvec_current_def vec_addrs_def split: if_splits)

lemma vec_addrs_Some:
  assumes "fuse_bufvec_current v = Some b" and "vec_ok v"
  shows "vec_addrs v = [buf_mem b + vec_off v ..< buf_mem b + buf_size b] @
     concat (map buf_addrs (drop (Suc (vec_idx v)) (vec_buf v)))"
proof -
  have "drop (vec_idx v) (vec_buf v) = b # drop (Suc (vec_idx v)) (vec_buf v)"
    using assms(1) by (auto simp: Cons_nth_drop_Suc dest: current_SomeD)
  then show ?thesis using assms by (simp add: vec_addrs_def vec_ok_def buf_addrs_def)
qed

lemma vec_addrs_take:
  assumes "fuse_bufvec_current v = Some b" and "vec_ok v" and "n \<le> buf_size b - vec_off v"
  shows "take n (vec_addrs v) = [buf_mem b + vec_off v ..< buf_mem b + vec_off v + n]" and "n \<le> length (vec_addrs v)"
  using assms by (auto simp: vec_addrs_Some take_upt vec_ok_def)

lemma advance_ok:
  assumes c: "fuse_bufvec_current v = Some b" and ok: "vec_ok v" and n: "n \<le> buf_size b - vec_off v"
  obtains g v' where "fuse_bufvec_advance v n = Some (g, v')" and "vec_ok v'" and "vec_addrs v' = drop n (vec_addrs v)"
    and "vec_buf v' = vec_buf v" and "g \<longleftrightarrow> fuse_bufvec_current v' \<noteq> None"
proof -
  have i: "vec_idx v < length (vec_buf v)" using c by (auto dest: current_SomeD)
  have o: "vec_off v + n \<le> buf_size b" using ok n c by (simp add: vec_ok_def)
  note a = vec_addrs_Some [OF c ok]
  consider (inside) "vec_off v + n < buf_size b" | (last) "vec_off v + n = buf_size b" "Suc (vec_idx v) = length (vec_buf v)"
    | (next_buf) "vec_off v + n = buf_size b" "Suc (vec_idx v) < length (vec_buf v)"
    using o i by linarith
  then show ?thesis
  proof cases
    case inside
    let ?v = "v\<lparr>vec_off := vec_off v + n\<rparr>"
    have c': "fuse_bufvec_current ?v = Some b" using c by (simp add: fuse_bufvec_current_def split: if_splits)
    have ok': "vec_ok ?v" using c' inside by (simp add: vec_ok_def)
    show ?thesis
      by (rule that [of True ?v])
         (use inside c c' ok' o in \<open>auto simp: fuse_bufvec_advance_def a vec_addrs_Some [OF c' ok'] add.assoc\<close>)
  next
    case last
    let ?v = "v\<lparr>vec_off := vec_off v + n, vec_idx := Suc (vec_idx v)\<rparr>"
    have c': "fuse_bufvec_current ?v = None" using last by (simp add: fuse_bufvec_current_def)
    have "length (vec_addrs v) \<le> n" using last by (simp add: a)
    then show ?thesis
      by (intro that [of False ?v]) (use last c c' in \<open>auto simp: fuse_bufvec_advance_def vec_addrs_None vec_ok_def\<close>)
  next
    case next_buf
    let ?v = "v\<lparr>vec_off := 0, vec_idx := Suc (vec_idx v)\<rparr>"
    have c': "fuse_bufvec_current ?v = Some (vec_buf v ! Suc (vec_idx v))" using next_buf by (simp add: fuse_bufvec_current_def)
    have "n = buf_size b - vec_off v" using next_buf o by simp
    then have d: "drop n (vec_addrs v) = vec_addrs ?v" unfolding a by (simp add: vec_addrs_def)
    show ?thesis
      by (rule that [of True ?v]) (use next_buf c c' d in \<open>auto simp: fuse_bufvec_advance_def vec_ok_def\<close>)
  qed
qed

text \<open>
  What a round of the loop does when \<open>fuse_buf_copy_one\<close> transfers everything: it is repeated, or one of
  the vectors is used up.
\<close>

lemma copy_loop_full:
  assumes cs: "fuse_bufvec_current srcv = Some src" and cd: "fuse_bufvec_current dstv = Some dst"
    and oks: "vec_ok srcv" and okd: "vec_ok dstv"
    and len: "len = min (buf_size src - vec_off srcv) (buf_size dst - vec_off dstv)"
    and one: "fuse_buf_copy_one io dst (vec_off dstv) src (vec_off srcv) len flags s = Some (int len, s')"
  obtains (stop) dstv' srcv' where "copy_loop io flags copied dstv srcv s = Some (int (copied + len), dstv', srcv', s')"
      and "len = min (length (vec_addrs dstv)) (length (vec_addrs srcv))"
  | (more) dstv' srcv' where "copy_step io flags copied dstv srcv s = Some (More (copied + len) dstv' srcv' s')"
      and "vec_ok dstv'" and "vec_ok srcv'" and "vec_buf dstv' = vec_buf dstv" and "vec_buf srcv' = vec_buf srcv"
      and "vec_addrs dstv' = drop len (vec_addrs dstv)" and "vec_addrs srcv' = drop len (vec_addrs srcv)"
proof -
  have ls: "len \<le> buf_size src - vec_off srcv" and ld: "len \<le> buf_size dst - vec_off dstv" using len by simp_all
  have o: "\<not> vec_off srcv > buf_size src" "\<not> vec_off dstv > buf_size dst"
    using oks okd cs cd by (simp_all add: vec_ok_def)
  note l = vec_addrs_take(2) [OF cs oks ls] vec_addrs_take(2) [OF cd okd ld]
  obtain gs srcv' where s: "fuse_bufvec_advance srcv len = Some (gs, srcv')" "vec_ok srcv'"
      "vec_addrs srcv' = drop len (vec_addrs srcv)" "vec_buf srcv' = vec_buf srcv" "gs \<longleftrightarrow> fuse_bufvec_current srcv' \<noteq> None"
    using cs oks ls by (rule advance_ok)
  obtain gd dstv' where d: "fuse_bufvec_advance dstv len = Some (gd, dstv')" "vec_ok dstv'"
      "vec_addrs dstv' = drop len (vec_addrs dstv)" "vec_buf dstv' = vec_buf dstv" "gd \<longleftrightarrow> fuse_bufvec_current dstv' \<noteq> None"
    using cd okd ld by (rule advance_ok)
  note step = copy_step_def cs cd o one len [symmetric] Let_def s(1) d(1)
  have z: "gs = False \<Longrightarrow> len = length (vec_addrs srcv)" "gd = False \<Longrightarrow> len = length (vec_addrs dstv)"
    using s d l vec_addrs_None [of srcv'] vec_addrs_None [of dstv'] by auto
  show ?thesis
  proof (cases "gs \<and> gd")
    case True
    then show ?thesis by (intro more [of dstv' srcv']) (use s d in \<open>simp_all add: step\<close>)
  next
    case False
    then have "\<exists>dstv'' srcv''. copy_loop io flags copied dstv srcv s = Some (int (copied + len), dstv'', srcv'', s')"
      by (cases gs) (auto simp: copy_loop.simps [of io flags copied] step)
    moreover have "len = min (length (vec_addrs dstv)) (length (vec_addrs srcv))"
      using False z l by (cases gs) auto
    ultimately show ?thesis using stop by blast
  qed
qed

section \<open>Copying memory\<close>

lemma copy_one_mem:
  "\<not> has_flag (buf_flags src) FUSE_BUF_IS_FD \<Longrightarrow> \<not> has_flag (buf_flags dst) FUSE_BUF_IS_FD \<Longrightarrow>
    fuse_buf_copy_one io dst doff src soff len flags (m, k) =
      Some (int len, mem_put m (buf_mem dst + doff) (mem_get m (buf_mem src + soff) len), k)"
  by (simp add: fuse_buf_copy_one_def copy_memory_eq)

lemma all_memD: "all_mem v \<Longrightarrow> fuse_bufvec_current v = Some b \<Longrightarrow> \<not> has_flag (buf_flags b) FUSE_BUF_IS_FD"
  by (auto simp: all_mem_def list_all_iff dest!: current_SomeD)

lemma copy_loop_mem:
  assumes "all_mem dstv" and "all_mem srcv" and "vec_ok dstv" and "vec_ok srcv"
    and "set (vec_addrs srcv) \<inter> set (vec_addrs dstv) = {}"
    and "n = min (length (vec_addrs dstv)) (length (vec_addrs srcv))"
  shows "\<exists>dstv' srcv'. copy_loop io flags copied dstv srcv (m, k) =
    Some (int (copied + n), dstv', srcv', mem_store m (take n (vec_addrs dstv)) (map m (take n (vec_addrs srcv))), k)"
  using assms
proof (induction "bufs_left dstv + bufs_left srcv" arbitrary: dstv srcv copied m n rule: less_induct)
  case less
  show ?case
  proof (cases "fuse_bufvec_current srcv = None \<or> fuse_bufvec_current dstv = None")
    case True
    then have "n = 0" using less.prems(6) by (auto simp: vec_addrs_None)
    then show ?thesis using True by (auto simp: copy_loop.simps [of io flags copied] copy_step_def split: option.splits)
  next
    case False
    then obtain src dst where cs: "fuse_bufvec_current srcv = Some src" and cd: "fuse_bufvec_current dstv = Some dst"
      by auto
    define len where "len = min (buf_size src - vec_off srcv) (buf_size dst - vec_off dstv)"
    let ?d = "take len (vec_addrs dstv)" and ?s = "take len (vec_addrs srcv)"
    have t: "?s = [buf_mem src + vec_off srcv ..< buf_mem src + vec_off srcv + len]"
        "?d = [buf_mem dst + vec_off dstv ..< buf_mem dst + vec_off dstv + len]"
        and l: "len \<le> length (vec_addrs srcv)" "len \<le> length (vec_addrs dstv)"
      using vec_addrs_take [OF cs less.prems(4), of len] vec_addrs_take [OF cd less.prems(3), of len]
      by (simp_all add: len_def)
    let ?m = "mem_store m ?d (map m ?s)"
    have one: "fuse_buf_copy_one io dst (vec_off dstv) src (vec_off srcv) len flags (m, k) = Some (int len, ?m, k)"
      using copy_one_mem [OF all_memD [OF less.prems(2) cs] all_memD [OF less.prems(1) cd]]
      by (simp add: mem_put_def t) (simp add: mem_get_def)
    show ?thesis using cs cd less.prems(4,3) len_def one
    proof (cases rule: copy_loop_full [where copied = copied])
      case (stop dstv' srcv')
      then show ?thesis using less.prems(6) by simp
    next
      case (more dstv' srcv')
      let ?n = "min (length (vec_addrs dstv')) (length (vec_addrs srcv'))"
      have n: "n = len + ?n" using l less.prems(6) by (simp add: more(6,7))
      have disj: "set (vec_addrs srcv') \<inter> set (vec_addrs dstv') = {}" "set (vec_addrs srcv') \<inter> set ?d = {}"
        using less.prems(5) more set_drop_subset set_take_subset by (metis disjoint_iff in_mono)+
      have "\<exists>dstv'' srcv''. copy_loop io flags (copied + len) dstv' srcv' (?m, k) =
          Some (int (copied + len + ?n), dstv'', srcv'', mem_store ?m (take ?n (vec_addrs dstv')) (map ?m (take ?n (vec_addrs srcv'))), k)"
        by (rule less.hyps) (use more less.prems disj copy_step_less [OF more(1)] in \<open>auto simp: all_mem_def\<close>)
      moreover have "map ?m (take ?n (vec_addrs srcv')) = map m (take ?n (vec_addrs srcv'))"
        using disj(2) by (intro mem_store_map_other) (auto dest: in_set_takeD)
      moreover have "mem_store ?m (take ?n (vec_addrs dstv')) (map m (take ?n (vec_addrs srcv'))) =
          mem_store m (take n (vec_addrs dstv)) (map m (take n (vec_addrs srcv)))"
        using l more by (simp add: mem_store_append n take_add)
      ultimately show ?thesis using more(1) n by (simp add: copy_loop.simps [of io flags copied] add.assoc)
    qed
  qed
qed

section \<open>Every copy returns\<close>

text \<open>
  What the documentation of the system calls promises: a call reports at most the number of bytes it
  was asked to transfer, and error numbers are positive.
\<close>

definition count_ok :: "nat \<Rightarrow> int + nat \<Rightarrow> bool" where
  "count_ok len r = (case r of Inl e \<Rightarrow> 0 < e | Inr n \<Rightarrow> n \<le> len)"

definition data_ok :: "nat \<Rightarrow> int + string \<Rightarrow> bool" where
  "data_ok len r = (case r of Inl e \<Rightarrow> 0 < e | Inr bs \<Rightarrow> length bs \<le> len)"

definition io_ok :: "'k sysio \<Rightarrow> bool" where
  "io_ok io \<longleftrightarrow>
     (\<forall>fd bs k. count_ok (length bs) (fst (sys_write io fd bs k))) \<and>
     (\<forall>fd bs p k. count_ok (length bs) (fst (sys_pwrite io fd bs p k))) \<and>
     (\<forall>fd n k. data_ok n (fst (sys_read io fd n k))) \<and>
     (\<forall>fd n p k. data_ok n (fst (sys_pread io fd n p k))) \<and>
     (\<forall>spl. sys_splice io = Some spl \<longrightarrow> (\<forall>i ip o' op n a b k. count_ok n (fst (spl i ip o' op n a b k))))"

lemma write_call_ok: "io_ok io \<Longrightarrow> write_call io dst doff bs k = (r, k') \<Longrightarrow> count_ok (length bs) r"
  unfolding io_ok_def write_call_def by (metis fst_conv)

lemma read_call_ok: "io_ok io \<Longrightarrow> read_call io src soff n k = (r, k') \<Longrightarrow> data_ok n r"
  unfolding io_ok_def read_call_def by (metis fst_conv)

lemma splice_ok: "io_ok io \<Longrightarrow> sys_splice io = Some spl \<Longrightarrow> spl i ip o' op n a b k = (r, k') \<Longrightarrow> count_ok n r"
  unfolding io_ok_def by (metis fst_conv)

lemma write_total:
  "io_ok io \<Longrightarrow> \<exists>r s'. fuse_buf_write io dst doff src soff len copied s = Some (r, s') \<and> r \<le> int (copied + len)"
proof (induction io dst doff src soff len copied s rule: fuse_buf_write.induct)
  case (1 io dst doff src soff len copied m k)
  let ?d = "mem_get m (buf_mem src + soff) len"
  obtain res k' where r: "write_call io dst doff ?d k = (res, k')" by fastforce
  then have c: "count_ok len res" using write_call_ok [OF "1.prems" r] by simp
  note e = fuse_buf_write.simps [of io dst doff] Let_def r
  show ?case
  proof (cases res)
    case (Inl err)
    then show ?thesis using c by (auto simp: e count_ok_def)
  next
    case (Inr n)
    then have n: "n \<le> len" using c by (simp add: count_ok_def)
    show ?thesis
    proof (cases "len = 0 \<or> n = 0 \<or> \<not> has_flag (buf_flags dst) FUSE_BUF_FD_RETRY")
      case True
      then show ?thesis using Inr n by (auto simp: e)
    next
      case False
      then have "\<exists>r s'. fuse_buf_write io dst (doff + n) src (soff + n) (len - n) (copied + n) (m, k') = Some (r, s')
          \<and> r \<le> int (copied + n + (len - n))"
        using "1.IH" [OF _ refl r [symmetric] refl, of n] Inr n "1.prems" by auto
      then show ?thesis using False Inr n by (simp add: e)
    qed
  qed
qed

lemma read_total:
  "io_ok io \<Longrightarrow> \<exists>r s'. fuse_buf_read io dst doff src soff len copied s = Some (r, s') \<and> r \<le> int (copied + len)"
proof (induction io dst doff src soff len copied s rule: fuse_buf_read.induct)
  case (1 io dst doff src soff len copied m k)
  obtain res k' where r: "read_call io src soff len k = (res, k')" by fastforce
  then have c: "data_ok len res" using read_call_ok [OF "1.prems" r] by simp
  note e = fuse_buf_read.simps [of io dst doff] Let_def r
  show ?case
  proof (cases res)
    case (Inl err)
    then show ?thesis using c by (auto simp: e data_ok_def)
  next
    case (Inr bs)
    then have n: "length bs \<le> len" using c by (simp add: data_ok_def)
    show ?thesis
    proof (cases "len = 0 \<or> bs = [] \<or> \<not> has_flag (buf_flags src) FUSE_BUF_FD_RETRY")
      case True
      then show ?thesis using Inr n by (auto simp: e)
    next
      case False
      let ?n = "length bs" and ?m = "mem_put m (buf_mem dst + doff) bs"
      have "\<exists>r s'. fuse_buf_read io dst (doff + ?n) src (soff + ?n) (len - ?n) (copied + ?n) (?m, k') = Some (r, s')
          \<and> r \<le> int (copied + ?n + (len - ?n))"
        using "1.IH" [OF _ r [symmetric] refl, of bs ?m ?n] Inr n False "1.prems" by auto
      then show ?thesis using False Inr n by (simp add: e)
    qed
  qed
qed

lemma fd_to_fd_total:
  "io_ok io \<Longrightarrow> \<exists>r s'. fuse_buf_fd_to_fd io dst doff src soff len copied s = Some (r, s') \<and> r \<le> int (copied + len)"
proof (induction io dst doff src soff len copied s rule: fuse_buf_fd_to_fd.induct)
  case (1 io dst doff src soff len copied s)
  let ?l = "min (buf_size (tmp_buf io)) len"
  obtain r1 s1 where r1: "fuse_buf_read io (tmp_buf io) 0 src soff ?l 0 s = Some (r1, s1)" "r1 \<le> int ?l"
    using read_total [OF "1.prems", of "tmp_buf io" 0 src soff ?l 0 s] by auto
  obtain r2 s2 where r2: "fuse_buf_write io dst doff (tmp_buf io) 0 (nat r1) 0 s1 = Some (r2, s2)" "r2 \<le> int (nat r1)"
    using write_total [OF "1.prems", of dst doff "tmp_buf io" 0 "nat r1" 0 s1] by auto
  note e = fuse_buf_fd_to_fd.simps [of io dst doff] Let_def r1(1) r2(1) min_size_min
  show ?case
  proof (cases "len = 0 \<or> r1 \<le> 0 \<or> r2 \<le> 0 \<or> nat r2 < ?l")
    case True
    then show ?thesis using r1(2) r2(2) by (auto simp: e)
  next
    case False
    then have "\<exists>r s'. fuse_buf_fd_to_fd io dst (doff + nat r2) src (soff + nat r2) (len - nat r2) (copied + nat r2) s2 =
        Some (r, s') \<and> r \<le> int (copied + nat r2 + (len - nat r2))"
      using "1.IH" [OF _ refl _ refl, of r1 s1 "(r2, s2)" r2 s2] r1 r2 "1.prems" by simp
    then show ?thesis using False r1(2) r2(2) by (auto simp: e)
  qed
qed

lemma splice_total:
  assumes "io_ok io" and "sys_splice io = Some spl"
  shows "\<exists>r s'. splice_loop spl io dst doff src soff flags sp dp len copied s = Some (r, s') \<and> r \<le> int (copied + len)"
  using assms
proof (induction spl io dst doff src soff flags sp dp len copied s rule: splice_loop.induct)
  case (1 spl io dst doff src soff flags sp dp len copied m k)
  let ?mv = "has_flag flags FUSE_BUF_SPLICE_MOVE" and ?nb = "has_flag flags FUSE_BUF_SPLICE_NONBLOCK"
  obtain res k' where r: "spl (buf_fd src) sp (buf_fd dst) dp len ?mv ?nb k = (res, k')" by fastforce
  then have c: "count_ok len res" using splice_ok [OF "1.prems" r] by simp
  note e = splice_loop.simps [of spl io dst doff] Let_def r
  show ?case
  proof (cases res)
    case (Inl err)
    then show ?thesis using c fd_to_fd_total [OF "1.prems"(1), of dst doff src soff len 0 "(m, k')"]
      by (auto simp: e count_ok_def)
  next
    case (Inr n)
    then have n: "n \<le> len" using c by (simp add: count_ok_def)
    let ?stop = "\<not> has_flag (buf_flags src) FUSE_BUF_FD_RETRY \<and> \<not> has_flag (buf_flags dst) FUSE_BUF_FD_RETRY"
    show ?thesis
    proof (cases "len = 0 \<or> n = 0 \<or> ?stop")
      case True
      then show ?thesis using Inr n by (auto simp: e)
    next
      case False
      then have "\<exists>r s'. splice_loop spl io dst doff src soff flags (advance_pos n sp) (advance_pos n dp)
          (len - n) (copied + n) (m, k') = Some (r, s') \<and> r \<le> int (copied + n + (len - n))"
        using "1.IH" [OF _ r [symmetric] refl, of n] Inr n "1.prems" by auto
      then show ?thesis using False Inr n by (auto simp: e)
    qed
  qed
qed

lemma copy_one_total:
  assumes "io_ok io"
  shows "\<exists>r s'. fuse_buf_copy_one io dst doff src soff len flags s = Some (r, s') \<and> r \<le> int len"
proof -
  obtain m k where s: "s = (m, k)" by fastforce
  show ?thesis
    using write_total [OF assms, of dst doff src soff len 0 s] read_total [OF assms, of dst doff src soff len 0 s]
      fd_to_fd_total [OF assms, of dst doff src soff len 0 s]
      splice_total [OF assms, of _ dst doff src soff flags "start_pos src soff" "start_pos dst doff" len 0 s]
    by (auto simp: fuse_buf_copy_one_def Let_def fuse_buf_splice_def s copy_memory_eq split: option.split)
qed

text \<open>One round, whatever the result of \<open>fuse_buf_copy_one\<close>: it never counts more than both vectors have left.\<close>

lemma copy_step_total:
  assumes "io_ok io" and "vec_ok dstv" and "vec_ok srcv"
  obtains (stop) r dstv' srcv' s' where "copy_step io flags copied dstv srcv s = Some (Stop r dstv' srcv' s')"
      and "r \<le> int (copied + min (length (vec_addrs dstv)) (length (vec_addrs srcv)))"
      and "vec_ok dstv'" and "vec_ok srcv'"
  | (more) n dstv' srcv' s' where "copy_step io flags copied dstv srcv s = Some (More (copied + n) dstv' srcv' s')"
      and "vec_ok dstv'" and "vec_ok srcv'" and "n \<le> length (vec_addrs dstv)" and "n \<le> length (vec_addrs srcv)"
      and "vec_addrs dstv' = drop n (vec_addrs dstv)" and "vec_addrs srcv' = drop n (vec_addrs srcv)"
proof (cases "fuse_bufvec_current srcv = None \<or> fuse_bufvec_current dstv = None")
  case True
  then show ?thesis using assms by (intro stop [of "int copied" dstv srcv s]) (auto simp: copy_step_def split: option.splits)
next
  case False
  then obtain src dst where c: "fuse_bufvec_current srcv = Some src" "fuse_bufvec_current dstv = Some dst" by auto
  have o: "\<not> vec_off srcv > buf_size src" "\<not> vec_off dstv > buf_size dst" using assms c by (simp_all add: vec_ok_def)
  define len where "len = min (buf_size src - vec_off srcv) (buf_size dst - vec_off dstv)"
  obtain r s' where r: "fuse_buf_copy_one io dst (vec_off dstv) src (vec_off srcv) len flags s = Some (r, s')" "r \<le> int len"
    using copy_one_total [OF assms(1)] by blast
  have n: "nat r \<le> buf_size src - vec_off srcv" "nat r \<le> buf_size dst - vec_off dstv" using r(2) by (auto simp: len_def)
  note l = vec_addrs_take(2) [OF c(1) assms(3) n(1)] vec_addrs_take(2) [OF c(2) assms(2) n(2)]
  obtain gs srcv' where s: "fuse_bufvec_advance srcv (nat r) = Some (gs, srcv')" "vec_ok srcv'"
      "vec_addrs srcv' = drop (nat r) (vec_addrs srcv)"
    using c(1) assms(3) n(1) by (rule advance_ok) blast
  obtain gd dstv' where d: "fuse_bufvec_advance dstv (nat r) = Some (gd, dstv')" "vec_ok dstv'"
      "vec_addrs dstv' = drop (nat r) (vec_addrs dstv)"
    using c(2) assms(2) n(2) by (rule advance_ok) blast
  note step = copy_step_def c o r(1) len_def [symmetric] Let_def s(1) d(1)
  consider (fail) "r < 0" | (src_end) "\<not> r < 0" "\<not> gs" | (other) "\<not> r < 0" "gs" "\<not> gd \<or> nat r < len"
    | (full) "\<not> r < 0" gs gd "\<not> nat r < len" by blast
  then show ?thesis
  proof cases
    case fail
    then show ?thesis
      by (intro stop [of "if copied = 0 then r else int copied" dstv srcv s']) (use assms in \<open>auto simp: step\<close>)
  next
    case src_end
    then show ?thesis
      by (intro stop [of "int (copied + nat r)" dstv srcv' s']) (use assms s d l in \<open>auto simp: step\<close>)
  next
    case other
    then show ?thesis
      by (intro stop [of "int (copied + nat r)" dstv' srcv' s']) (use assms s d l in \<open>auto simp: step split: bool.split\<close>)
  next
    case full
    then show ?thesis by (intro more [of "nat r" dstv' srcv' s']) (use s d l in \<open>simp_all add: step\<close>)
  qed
qed

lemma copy_loop_total:
  assumes "io_ok io" and "vec_ok dstv" and "vec_ok srcv"
  shows "\<exists>r dstv' srcv' s'. copy_loop io flags copied dstv srcv s = Some (r, dstv', srcv', s') \<and>
    r \<le> int (copied + min (length (vec_addrs dstv)) (length (vec_addrs srcv))) \<and> vec_ok dstv' \<and> vec_ok srcv'"
  using assms
proof (induction "bufs_left dstv + bufs_left srcv" arbitrary: dstv srcv copied s rule: less_induct)
  case less
  show ?case using less.prems
  proof (cases rule: copy_step_total [where flags = flags and copied = copied and s = s])
    case (stop r dstv' srcv' s')
    then show ?thesis by (simp add: copy_loop.simps [of io flags copied])
  next
    case (more n dstv' srcv' s')
    have "\<exists>r dstv'' srcv'' s''. copy_loop io flags (copied + n) dstv' srcv' s' = Some (r, dstv'', srcv'', s'') \<and>
        r \<le> int (copied + n + min (length (vec_addrs dstv')) (length (vec_addrs srcv'))) \<and> vec_ok dstv'' \<and> vec_ok srcv''"
      using copy_step_less [OF more(1)] more(2,3) by (intro less.hyps less.prems(1))
    moreover have "n + min (length (vec_addrs dstv')) (length (vec_addrs srcv')) =
        min (length (vec_addrs dstv)) (length (vec_addrs srcv))"
      using more(4,5) by (simp add: more(6,7))
    ultimately show ?thesis using more(1) by (simp add: copy_loop.simps [of io flags copied] add.assoc)
  qed
qed

section \<open>Writing to a descriptor until everything is written\<close>

text \<open>
  A descriptor that accepts data: every \<open>write\<close> of a non-empty text takes at least one byte, reports how
  many, and appends exactly these to what was written before.
\<close>

definition accepts :: "'k sysio \<Rightarrow> int \<Rightarrow> ('k \<Rightarrow> string) \<Rightarrow> bool" where
  "accepts io fd sink \<longleftrightarrow> (\<forall>bs k. bs \<noteq> [] \<longrightarrow>
     (\<exists>n k'. sys_write io fd bs k = (Inr n, k') \<and> 0 < n \<and> n \<le> length bs \<and> sink k' = sink k @ take n bs))"

lemma mem_get_split: "n \<le> len \<Longrightarrow> mem_get m a len = mem_get m a n @ mem_get m (a + n) (len - n)"
  unfolding mem_get_def by (metis add.assoc le_add1 le_add_diff_inverse map_append upt_add_eq_append)

lemma take_mem_get: "n \<le> len \<Longrightarrow> take n (mem_get m a len) = mem_get m a n"
  by (simp add: mem_get_split [of n len])

lemma write_all:
  assumes "accepts io (buf_fd dst) sink" and "\<not> has_flag (buf_flags dst) FUSE_BUF_FD_SEEK"
    and "has_flag (buf_flags dst) FUSE_BUF_FD_RETRY"
  shows "\<exists>k'. fuse_buf_write io dst doff src soff len copied (m, k) = Some (int (copied + len), m, k') \<and>
    sink k' = sink k @ mem_get m (buf_mem src + soff) len"
proof (induction len arbitrary: doff soff copied k rule: less_induct)
  case (less len)
  show ?case
  proof (cases "len = 0")
    case True
    then show ?thesis by (simp add: fuse_buf_write.simps [of io dst] mem_get_def)
  next
    case False
    let ?d = "mem_get m (buf_mem src + soff) len"
    have "?d \<noteq> []" using False by (metis length_0_conv length_mem_get)
    then obtain n k1 where w: "sys_write io (buf_fd dst) ?d k = (Inr n, k1)" "0 < n" "n \<le> len" "sink k1 = sink k @ take n ?d"
      using assms(1) unfolding accepts_def by (metis length_mem_get)
    obtain k' where "fuse_buf_write io dst (doff + n) src (soff + n) (len - n) (copied + n) (m, k1) =
        Some (int (copied + n + (len - n)), m, k')" "sink k' = sink k1 @ mem_get m (buf_mem src + (soff + n)) (len - n)"
      using less [of "len - n" "doff + n" "soff + n" "copied + n" k1] w False by auto
    then show ?thesis using False assms(2,3) w
      by (simp add: fuse_buf_write.simps [of io dst doff] write_call_def take_mem_get mem_get_split [of n len] add.assoc)
  qed
qed

lemma mem_get_addrs:
  assumes "fuse_bufvec_current v = Some b" and "vec_ok v" and "n \<le> buf_size b - vec_off v"
  shows "mem_get m (buf_mem b + vec_off v) n = map m (take n (vec_addrs v))"
  using vec_addrs_take(1) [OF assms] by (simp add: mem_get_def)

lemma copy_loop_sink:
  assumes "accepts io (buf_fd dst) sink" and "has_flag (buf_flags dst) FUSE_BUF_IS_FD"
    and "\<not> has_flag (buf_flags dst) FUSE_BUF_FD_SEEK" and "has_flag (buf_flags dst) FUSE_BUF_FD_RETRY"
    and "vec_buf dstv = [dst]" and "all_mem srcv" and "vec_ok dstv" and "vec_ok srcv"
    and "length (vec_addrs srcv) \<le> length (vec_addrs dstv)"
  shows "\<exists>dstv' srcv' k'. copy_loop io flags copied dstv srcv (m, k) =
      Some (int (copied + length (vec_addrs srcv)), dstv', srcv', m, k') \<and> sink k' = sink k @ map m (vec_addrs srcv)"
  using assms(5-)
proof (induction "bufs_left dstv + bufs_left srcv" arbitrary: dstv srcv copied k rule: less_induct)
  case less
  show ?case
  proof (cases "fuse_bufvec_current srcv = None \<or> fuse_bufvec_current dstv = None")
    case True
    then have "vec_addrs srcv = []" using less.prems(5) by (auto simp: vec_addrs_None)
    then show ?thesis using True by (auto simp: copy_loop.simps [of io flags copied] copy_step_def split: option.splits)
  next
    case False
    then obtain src d where cs: "fuse_bufvec_current srcv = Some src" and cd': "fuse_bufvec_current dstv = Some d" by auto
    then have cd: "fuse_bufvec_current dstv = Some dst" using less.prems(1) current_SomeD [OF cd'] by simp
    define len where "len = min (buf_size src - vec_off srcv) (buf_size dst - vec_off dstv)"
    have l: "len \<le> buf_size src - vec_off srcv" "len \<le> length (vec_addrs srcv)" "len \<le> length (vec_addrs dstv)"
      using vec_addrs_take(2) [OF cs less.prems(4), of len] vec_addrs_take(2) [OF cd less.prems(3), of len]
      by (simp_all add: len_def)
    obtain k1 where k1: "fuse_buf_write io dst (vec_off dstv) src (vec_off srcv) len 0 (m, k) = Some (int len, m, k1)"
        "sink k1 = sink k @ map m (take len (vec_addrs srcv))"
      using write_all [OF assms(1,3,4), of "vec_off dstv" src "vec_off srcv" len 0 m k]
        mem_get_addrs [OF cs less.prems(4) l(1), of m] by auto
    have one: "fuse_buf_copy_one io dst (vec_off dstv) src (vec_off srcv) len flags (m, k) = Some (int len, m, k1)"
      using k1(1) assms(2) all_memD [OF less.prems(2) cs] by (simp add: fuse_buf_copy_one_def)
    show ?thesis using cs cd less.prems(4,3) len_def one
    proof (cases rule: copy_loop_full [where copied = copied])
      case (stop dstv' srcv')
      then show ?thesis using less.prems(5) k1(2) by simp
    next
      case (more dstv' srcv')
      have "\<exists>dstv'' srcv'' k'. copy_loop io flags (copied + len) dstv' srcv' (m, k1) =
          Some (int (copied + len + length (vec_addrs srcv')), dstv'', srcv'', m, k') \<and>
          sink k' = sink k1 @ map m (vec_addrs srcv')"
        by (rule less.hyps) (use more less.prems copy_step_less [OF more(1)] in \<open>auto simp: all_mem_def\<close>)
      moreover have "map m (vec_addrs srcv) = map m (take len (vec_addrs srcv)) @ map m (vec_addrs srcv')"
        by (metis append_take_drop_id map_append more(7))
      ultimately show ?thesis using more(1,7) l(2) k1(2) by (auto simp: copy_loop.simps [of io flags copied])
    qed
  qed
qed

section \<open>Properties\<close>

text \<open>
  Property C27: copying always returns. For every kernel that keeps to the documentation of its calls,
  whatever errors and short transfers it reports, and all vectors with valid positions, \<open>fuse_buf_copy\<close>
  ends, no assertion fails, no areas given to \<open>memcpy\<close> overlap, the positions stay valid, and the result
  is never more than what either vector has left.
\<close>

theorem fuse_buf_copy_total:
  assumes "io_ok io" and "vec_ok dstv" and "vec_ok srcv"
  shows "\<exists>r dstv' srcv' s'. fuse_buf_copy io False dstv srcv flags s = Some (r, dstv', srcv', s') \<and>
    r \<le> int (min (length (vec_addrs dstv)) (length (vec_addrs srcv))) \<and> vec_ok dstv' \<and> vec_ok srcv'"
  using copy_loop_total [OF assms, of flags 0 s] by (simp add: fuse_buf_copy_def)

text \<open>A kernel whose descriptors take at most two bytes at a time; positions, reading and splicing fail.\<close>

definition slow_io :: "string sysio" where
  "slow_io = \<lparr>sys_write = (\<lambda>fd bs k. (Inr (min 2 (length bs)), k @ take 2 bs)),
     sys_pwrite = (\<lambda>fd bs p k. (Inl 29, k)), sys_read = (\<lambda>fd n k. (Inl 5, k)), sys_pread = (\<lambda>fd n p k. (Inl 29, k)),
     sys_splice = Some (\<lambda>i ip o' op n a b k. (Inl EINVAL, k)), stack_buf = 1000\<rparr>"

definition mem_vec :: "(nat \<times> nat) list \<Rightarrow> fuse_bufvec" where
  "mem_vec xs = \<lparr>vec_idx = 0, vec_off = 0,
     vec_buf = map (\<lambda>(a, n). \<lparr>buf_size = n, buf_flags = 0, buf_mem = a, buf_fd = - 1, buf_pos = 0\<rparr>) xs\<rparr>"

definition fd_vec :: "int \<Rightarrow> nat \<Rightarrow> fuse_bufvec" where
  "fd_vec fd n = \<lparr>vec_idx = 0, vec_off = 0,
     vec_buf = [\<lparr>buf_size = n, buf_flags = FUSE_BUF_IS_FD OR FUSE_BUF_FD_RETRY, buf_mem = 0, buf_fd = fd, buf_pos = 0\<rparr>]\<rparr>"

definition text_memory :: "memory" where
  "text_memory = mem_put (\<lambda>_. CHR ''.'') 10 ''potato''"

lemma slow_io_ok: "io_ok slow_io"
  by (simp add: io_ok_def slow_io_def count_ok_def data_ok_def EINVAL_def)

theorem fuse_buf_copy_total_witness:
  "\<exists>r dstv' srcv' s'. fuse_buf_copy slow_io False (fd_vec 3 6) (mem_vec [(10, 4), (20, 3)]) 0 (text_memory, []) =
      Some (r, dstv', srcv', s') \<and>
    r \<le> int (min (length (vec_addrs (fd_vec 3 6))) (length (vec_addrs (mem_vec [(10, 4), (20, 3)])))) \<and>
    vec_ok dstv' \<and> vec_ok srcv'"
proof (rule fuse_buf_copy_total [OF slow_io_ok])
  show "vec_ok (fd_vec 3 6)" and "vec_ok (mem_vec [(10, 4), (20, 3)])"
    by (simp_all add: vec_ok_def fd_vec_def mem_vec_def fuse_bufvec_current_def)
qed

text \<open>
  Property C28: copying memory to memory. However the two vectors are cut into buffers, the bytes from the
  position of the source on are copied to the places from the position of the destination on, as many as
  both have; nothing else in memory changes and the number is returned. The areas of the destination must
  not overlap one another or those of the source.
\<close>

theorem fuse_buf_copy_memory:
  assumes "all_mem dstv" and "all_mem srcv" and "vec_ok dstv" and "vec_ok srcv"
    and "distinct (vec_addrs dstv)" and "set (vec_addrs srcv) \<inter> set (vec_addrs dstv) = {}"
    and "n = min (length (vec_addrs dstv)) (length (vec_addrs srcv))"
  shows "\<exists>dstv' srcv' m'. fuse_buf_copy io False dstv srcv flags (m, k) = Some (int n, dstv', srcv', m', k) \<and>
    map m' (vec_addrs dstv) = take n (map m (vec_addrs srcv)) @ drop n (map m (vec_addrs dstv)) \<and>
    (\<forall>a. a \<notin> set (vec_addrs dstv) \<longrightarrow> m' a = m a)"
proof -
  let ?d = "vec_addrs dstv" and ?s = "vec_addrs srcv"
  let ?m = "mem_store m (take n ?d) (map m (take n ?s))"
  obtain dstv' srcv' where "fuse_buf_copy io False dstv srcv flags (m, k) = Some (int n, dstv', srcv', ?m, k)"
    using copy_loop_mem [OF assms(1-4) assms(6,7), of io flags 0 m k] by (auto simp: fuse_buf_copy_def)
  moreover have "map ?m (take n ?d) = take n (map m ?s)"
    using assms(5,7) by (simp add: mem_store_same take_map)
  moreover have "map ?m (drop n ?d) = drop n (map m ?d)"
    using assms(5) mem_store_map_other [of "drop n ?d" "take n ?d" m] set_take_disj_set_drop_if_distinct [of ?d n n]
    by (simp add: drop_map Int_commute)
  ultimately show ?thesis by (metis append_take_drop_id in_set_takeD map_append mem_store_other)
qed

theorem fuse_buf_copy_memory_witness:
  "\<exists>dstv' srcv' m'. fuse_buf_copy slow_io False (mem_vec [(40, 3), (50, 9)]) (mem_vec [(10, 4), (14, 2)]) 0 (text_memory, []) =
      Some (int 6, dstv', srcv', m', []) \<and>
    map m' (vec_addrs (mem_vec [(40, 3), (50, 9)])) = take 6 (map text_memory (vec_addrs (mem_vec [(10, 4), (14, 2)]))) @
      drop 6 (map text_memory (vec_addrs (mem_vec [(40, 3), (50, 9)]))) \<and>
    (\<forall>a. a \<notin> set (vec_addrs (mem_vec [(40, 3), (50, 9)])) \<longrightarrow> m' a = text_memory a)"
  by (rule fuse_buf_copy_memory; code_simp)

text \<open>
  Copying memory to a descriptor that is to be retried. If the descriptor accepts data, in
  pieces of any size, all bytes of the source arrive there, once and in order, and their number is
  returned, provided the size of the destination is large enough.
\<close>

theorem fuse_buf_copy_retry:
  assumes "accepts io (buf_fd dst) sink" and "has_flag (buf_flags dst) FUSE_BUF_IS_FD"
    and "\<not> has_flag (buf_flags dst) FUSE_BUF_FD_SEEK" and "has_flag (buf_flags dst) FUSE_BUF_FD_RETRY"
    and "vec_buf dstv = [dst]" and "all_mem srcv" and "vec_ok dstv" and "vec_ok srcv"
    and "length (vec_addrs srcv) \<le> length (vec_addrs dstv)"
  shows "\<exists>dstv' srcv' k'. fuse_buf_copy io False dstv srcv flags (m, k) =
      Some (int (length (vec_addrs srcv)), dstv', srcv', m, k') \<and> sink k' = sink k @ map m (vec_addrs srcv)"
  using copy_loop_sink [OF assms, of flags 0 m k] by (simp add: fuse_buf_copy_def)

lemma slow_io_accepts: "accepts slow_io 3 (\<lambda>k. k)"
proof -
  have "sys_write slow_io 3 bs k = (Inr (min 2 (length bs)), k @ take 2 bs)" for bs k by (simp add: slow_io_def)
  moreover have "take (min 2 (length bs)) bs = take 2 bs" for bs :: string by (simp add: min_def)
  ultimately show ?thesis unfolding accepts_def by (metis length_greater_0_conv min.cobounded2 min_less_iff_conj zero_less_numeral)
qed

theorem fuse_buf_copy_retry_witness:
  "\<exists>dstv' srcv' k'. fuse_buf_copy slow_io False (fd_vec 3 6) (mem_vec [(10, 4), (14, 1)]) 0 (text_memory, ''> '') =
      Some (int (length (vec_addrs (mem_vec [(10, 4), (14, 1)]))), dstv', srcv', text_memory, k') \<and>
    k' = ''> '' @ map text_memory (vec_addrs (mem_vec [(10, 4), (14, 1)]))"
  by (rule fuse_buf_copy_retry [where sink = "\<lambda>k. k" and dst = "hd (vec_buf (fd_vec 3 6))"])
     (simp_all add: slow_io_accepts fd_vec_def mem_vec_def all_mem_def vec_ok_def vec_addrs_def buf_addrs_def
       fuse_bufvec_current_def has_flag_def buf_flag_defs)

text \<open>
  The size of a vector is the sum of the sizes, but only without a buffer of unknown size: such a buffer
  sets the sum to the largest \<open>size_t\<close>, and the next buffer makes it wrap around.
\<close>

lemma buf_size_loop_sum:
  "list_all (\<lambda>b. buf_size b < SIZE_MAX) bs \<Longrightarrow> sz + sum_list (map buf_size bs) < 2 ^ 64 \<Longrightarrow>
    buf_size_loop bs sz = sz + sum_list (map buf_size bs)"
  by (induction bs arbitrary: sz) auto

lemma size_unknown_wraps:
  assumes "buf_size b = SIZE_MAX" and "0 < buf_size c" and "buf_size c < SIZE_MAX"
  shows "fuse_buf_size \<lparr>vec_idx = i, vec_off = j, vec_buf = [b, c]\<rparr> = buf_size c - 1"
proof -
  have "(SIZE_MAX + buf_size c) mod 2 ^ 64 = buf_size c - 1" using assms(2,3) by (simp add: mod_if)
  then show ?thesis using assms by (simp add: fuse_buf_size_def)
qed

text \<open>
  When the source is used up, the position of the destination is not advanced, although the bytes were
  written: copying a second source continues at the old place.
\<close>

lemma source_end_keeps_destination:
  "map_option (\<lambda>(r, dstv, srcv, m, k). (r, vec_idx dstv, vec_off dstv, vec_idx srcv, map m [40..<44]))
     (fuse_buf_copy slow_io False (mem_vec [(40, 9)]) (mem_vec [(10, 4)]) 0 (text_memory, [])) =
   Some (4, 0, 0, 1, ''pota'')"
  by code_simp

text \<open>
  Between two descriptors that cannot be positioned, a short write loses the bytes that were already read.
  The kernel state is the text to be read and the text written.
\<close>

definition pipe_io :: "(string \<times> string) sysio" where
  "pipe_io = \<lparr>sys_write = (\<lambda>fd bs (i, w). (Inr (min 2 (length bs)), i, w @ take 2 bs)),
     sys_pwrite = (\<lambda>fd bs p k. (Inl 29, k)), sys_read = (\<lambda>fd n (i, w). (Inr (take n i), drop n i, w)),
     sys_pread = (\<lambda>fd n p k. (Inl 29, k)), sys_splice = None, stack_buf = 1000\<rparr>"

definition pipe_vec :: "int \<Rightarrow> nat \<Rightarrow> fuse_bufvec" where
  "pipe_vec fd n = \<lparr>vec_idx = 0, vec_off = 0,
     vec_buf = [\<lparr>buf_size = n, buf_flags = FUSE_BUF_IS_FD, buf_mem = 0, buf_fd = fd, buf_pos = 0\<rparr>]\<rparr>"

lemma short_write_loses_data:
  "map_option (\<lambda>(r, dstv, srcv, m, k). (r, k))
     (fuse_buf_copy pipe_io False (pipe_vec 4 6) (pipe_vec 3 6) 0 (text_memory, ''potato salad'', [])) =
   Some (2, '' salad'', ''po'')"
  by code_simp

end
