(* ===== verification/Fuse_Locks.thy ===== *)
theory Fuse_Locks
  imports Runs
begin

text \<open>
  The advisory record locks that the FUSE library keeps for each node, \<open>fuse-2.9.3/lib/fuse.c\<close>, and the
  handlers that use them. A node has a linked list of locks, here a list; the lock operation of the file
  system, the path lookup and the success of \<open>malloc\<close> are parameters. Arithmetic on \<open>off_t\<close> is that of
  signed 64-bit integers; an overflow is undefined.
\<close>

section \<open>Data\<close>

datatype lock_type = F_RDLCK | F_WRLCK | F_UNLCK

record lock =
  lk_type :: lock_type
  lk_start :: int
  lk_end :: int
  lk_pid :: int
  lk_owner :: nat

record flock =
  l_type :: lock_type
  l_start :: int
  l_len :: int
  l_pid :: int

definition OFFSET_MAX :: int where
  "OFFSET_MAX = 0x7fffffffffffffff"

definition ENOLCK :: int where
  "ENOLCK = 37"

definition checked_off :: "int \<Rightarrow> int option" where
  "checked_off n = (if - OFFSET_MAX - 1 \<le> n \<and> n \<le> OFFSET_MAX then Some n else None)"

section \<open>The list of locks\<close>

fun locks_conflict :: "lock list \<Rightarrow> lock \<Rightarrow> lock option" where
  "locks_conflict [] lock = None"
| "locks_conflict (l # ls) lock =
     (if lk_owner l \<noteq> lk_owner lock \<and> lk_start lock \<le> lk_end l \<and> lk_start l \<le> lk_end lock \<and>
         (lk_type l = F_WRLCK \<or> lk_type lock = F_WRLCK)
      then Some l else locks_conflict ls lock)"

text \<open>The end of \<open>locks_insert\<close>: the new lock is inserted at \<open>lp\<close>, unless it is an unlock.\<close>

definition put_lock :: "lock \<Rightarrow> lock list \<Rightarrow> lock list" where
  "put_lock lock ls = (if lk_type lock \<noteq> F_UNLCK then lock # ls else ls)"

text \<open>
  The loop, on the list from \<open>*lp\<close> on. The flag says that \<open>newl2\<close> is available: splitting a lock takes
  it, and a second split would write to \<open>NULL\<close>.
\<close>

function insert_loop :: "bool \<Rightarrow> lock \<Rightarrow> lock list \<Rightarrow> lock list option" where
  "insert_loop newl2 lock [] = Some (put_lock lock [])"
| "insert_loop newl2 lock (l # ls) =
     (if lk_owner l \<noteq> lk_owner lock then map_option ((#) l) (insert_loop newl2 lock ls)
      else if lk_type lock = lk_type l then do {
        before \<leftarrow> checked_off (lk_start lock - 1);
        if lk_end l < before then map_option ((#) l) (insert_loop newl2 lock ls)
        else do {
          before_l \<leftarrow> checked_off (lk_start l - 1);
          if lk_end lock < before_l then Some (put_lock lock (l # ls))
          else if lk_start l \<le> lk_start lock \<and> lk_end lock \<le> lk_end l then Some (l # ls)
          else insert_loop newl2
                 (lock\<lparr>lk_start := if lk_start l < lk_start lock then lk_start l else lk_start lock,
                       lk_end := if lk_end lock < lk_end l then lk_end l else lk_end lock\<rparr>) ls } }
      else if lk_end l < lk_start lock then map_option ((#) l) (insert_loop newl2 lock ls)
      else if lk_end lock < lk_start l then Some (put_lock lock (l # ls))
      else if lk_start lock \<le> lk_start l \<and> lk_end l \<le> lk_end lock then insert_loop newl2 lock ls
      else if lk_end l \<le> lk_end lock then do {
        before \<leftarrow> checked_off (lk_start lock - 1);
        map_option ((#) (l\<lparr>lk_end := before\<rparr>)) (insert_loop newl2 lock ls) }
      else do {
        after \<leftarrow> checked_off (lk_end lock + 1);
        if lk_start lock \<le> lk_start l then Some (put_lock lock (l\<lparr>lk_start := after\<rparr> # ls))
        else if newl2 then do {
          before \<leftarrow> checked_off (lk_start lock - 1);
          map_option ((#) (l\<lparr>lk_end := before\<rparr>)) (insert_loop False lock (l\<lparr>lk_start := after\<rparr> # ls)) }
        else None })"
  by pat_completeness auto
termination
  by (relation "measure (\<lambda>(n, lock, ls). length ls + (if n then 1 else 0))") auto

definition locks_insert :: "bool \<Rightarrow> lock list \<Rightarrow> lock \<Rightarrow> (int \<times> lock list) option" where
  "locks_insert malloc_ok ls lock =
     (let need = (lk_type lock \<noteq> F_UNLCK \<or> lk_start lock \<noteq> 0 \<or> lk_end lock \<noteq> OFFSET_MAX)
      in if need \<and> \<not> malloc_ok then Some (- ENOLCK, ls)
         else map_option (\<lambda>ls'. (0, ls')) (insert_loop need lock ls))"

definition flock_to_lock :: "flock \<Rightarrow> nat \<Rightarrow> lock option" where
  "flock_to_lock fl owner = do {
     e \<leftarrow> (if l_len fl \<noteq> 0 then do { x \<leftarrow> checked_off (l_start fl + l_len fl); checked_off (x - 1) } else Some OFFSET_MAX);
     Some \<lparr>lk_type = l_type fl, lk_start = l_start fl, lk_end = e, lk_pid = l_pid fl, lk_owner = owner\<rparr> }"

definition lock_to_flock :: "lock \<Rightarrow> flock" where
  "lock_to_flock l = \<lparr>l_type = lk_type l, l_start = lk_start l,
     l_len = (if lk_end l = OFFSET_MAX then 0 else lk_end l - lk_start l + 1), l_pid = lk_pid l\<rparr>"

section \<open>Handlers\<close>

datatype lock_cmd = F_GETLK | F_SETLK | F_SETLKW

text \<open>The lock operation of the file system, if it has one, returns a status and may change the request.\<close>

type_synonym lock_op = "(lock_cmd \<Rightarrow> flock \<Rightarrow> int \<times> flock) option"

definition fuse_fs_lock :: "lock_op \<Rightarrow> lock_cmd \<Rightarrow> flock \<Rightarrow> int \<times> flock" where
  "fuse_fs_lock op cmd fl = (case op of None \<Rightarrow> (- ENOSYS, fl) | Some f \<Rightarrow> f cmd fl)"

definition fuse_lock_common :: "int \<Rightarrow> lock_op \<Rightarrow> lock_cmd \<Rightarrow> flock \<Rightarrow> int \<times> flock" where
  "fuse_lock_common path_err op cmd fl = (if path_err = 0 then fuse_fs_lock op cmd fl else (path_err, fl))"

datatype lock_reply = ReplyLock flock | ReplyErr int

definition fuse_lib_getlk :: "int \<Rightarrow> lock_op \<Rightarrow> nat \<Rightarrow> flock \<Rightarrow> lock list \<Rightarrow> lock_reply option" where
  "fuse_lib_getlk path_err op owner fl ls = do {
     l \<leftarrow> flock_to_lock fl owner;
     Some (case locks_conflict ls l of
         Some c \<Rightarrow> ReplyLock (lock_to_flock c)
       | None \<Rightarrow> (let (err, fl') = fuse_lock_common path_err op F_GETLK fl
                 in if err = 0 then ReplyLock fl' else ReplyErr err)) }"

definition fuse_lib_setlk :: "bool \<Rightarrow> int \<Rightarrow> lock_op \<Rightarrow> nat \<Rightarrow> flock \<Rightarrow> bool \<Rightarrow> lock list \<Rightarrow> (int \<times> lock list) option" where
  "fuse_lib_setlk malloc_ok path_err op owner fl slp ls =
     (let (err, fl') = fuse_lock_common path_err op (if slp then F_SETLKW else F_SETLK) fl
      in if err = 0 then do {
           l \<leftarrow> flock_to_lock fl' owner;
           (r, ls') \<leftarrow> locks_insert malloc_ok ls l;
           Some (err, ls') }
         else Some (err, ls))"

text \<open>\<open>flush_err\<close> is the result of the flush operation of the file system.\<close>

definition fuse_flush_common :: "bool \<Rightarrow> int \<Rightarrow> lock_op \<Rightarrow> nat \<Rightarrow> lock list \<Rightarrow> (int \<times> lock list) option" where
  "fuse_flush_common malloc_ok flush_err op owner ls =
     (let (errlock, fl) = fuse_fs_lock op F_SETLK \<lparr>l_type = F_UNLCK, l_start = 0, l_len = 0, l_pid = 0\<rparr>
      in if errlock \<noteq> - ENOSYS then do {
           l \<leftarrow> flock_to_lock fl owner;
           (r, ls') \<leftarrow> locks_insert malloc_ok ls l;
           Some (if flush_err = - ENOSYS then 0 else flush_err, ls') }
         else Some (flush_err, ls))"

section \<open>What the list means\<close>

definition covers :: "lock \<Rightarrow> int \<Rightarrow> bool" where
  "covers l b \<longleftrightarrow> lk_start l \<le> b \<and> b \<le> lk_end l"

text \<open>The lock that an owner holds on a byte.\<close>

fun held :: "lock list \<Rightarrow> nat \<Rightarrow> int \<Rightarrow> lock_type option" where
  "held [] ow b = None"
| "held (l # ls) ow b = (if lk_owner l = ow \<and> covers l b then Some (lk_type l) else held ls ow b)"

definition range_ok :: "lock \<Rightarrow> bool" where
  "range_ok l \<longleftrightarrow> 0 \<le> lk_start l \<and> lk_start l \<le> lk_end l \<and> lk_end l \<le> OFFSET_MAX"

definition precedes :: "lock \<Rightarrow> lock \<Rightarrow> bool" where
  "precedes l l' \<longleftrightarrow> (lk_owner l = lk_owner l' \<longrightarrow> lk_end l < lk_start l')"

text \<open>The locks of an owner are in order and do not overlap.\<close>

definition locks_ok :: "lock list \<Rightarrow> bool" where
  "locks_ok ls \<longleftrightarrow> list_all (\<lambda>l. range_ok l \<and> lk_type l \<noteq> F_UNLCK) ls \<and> sorted_wrt precedes ls"

definition set_range :: "lock \<Rightarrow> (nat \<Rightarrow> int \<Rightarrow> lock_type option) \<Rightarrow> nat \<Rightarrow> int \<Rightarrow> lock_type option" where
  "set_range l H ow b = (if ow = lk_owner l \<and> covers l b
     then (if lk_type l = F_UNLCK then None else Some (lk_type l)) else H ow b)"

section \<open>Inserting a lock\<close>

text \<open>
  The specification of the loop: the new list is in order, it means what the old one means with the
  range of the lock set, and no lock in it starts before all locks of its owner did.
\<close>

definition starts_after :: "lock \<Rightarrow> lock list \<Rightarrow> lock \<Rightarrow> bool" where
  "starts_after lock ls x \<longleftrightarrow> lk_owner x = lk_owner lock \<and> lk_start lock \<le> lk_start x \<or>
     (\<exists>y \<in> set ls. lk_owner y = lk_owner x \<and> lk_start y \<le> lk_start x)"

definition inserted :: "lock \<Rightarrow> lock list \<Rightarrow> lock list \<Rightarrow> bool" where
  "inserted lock ls ls' \<longleftrightarrow> locks_ok ls' \<and> held ls' = set_range lock (held ls) \<and> (\<forall>x \<in> set ls'. starts_after lock ls x)"

lemma locks_ok_Cons:
  "locks_ok (l # ls) \<longleftrightarrow> range_ok l \<and> lk_type l \<noteq> F_UNLCK \<and> (\<forall>x \<in> set ls. precedes l x) \<and> locks_ok ls"
  by (auto simp: locks_ok_def)

lemma locks_ok_Nil [simp]: "locks_ok []"
  by (simp add: locks_ok_def)

lemma held_before: "\<forall>x \<in> set ls. lk_owner x = ow \<longrightarrow> b < lk_start x \<Longrightarrow> held ls ow b = None"
  by (induction ls) (auto simp: covers_def)

lemma inserted_Cons:
  assumes "locks_ok (l # ls)" and "inserted lock ls ls'" and "precedes l lock"
  shows "inserted lock (l # ls) (l # ls')"
proof -
  have "precedes l x" if "x \<in> set ls'" for x
    using that assms unfolding inserted_def starts_after_def locks_ok_Cons precedes_def by fastforce
  moreover have "held (l # ls') = set_range lock (held (l # ls))"
    using assms(2,3) by (auto simp: inserted_def set_range_def precedes_def covers_def fun_eq_iff)
  ultimately show ?thesis
    using assms(1,2) by (auto simp: inserted_def locks_ok_Cons starts_after_def)
qed

lemma inserted_put:
  assumes "locks_ok ls" and "range_ok lock" and "\<forall>x \<in> set ls. precedes lock x"
  shows "inserted lock ls (put_lock lock ls)"
proof (cases "lk_type lock = F_UNLCK")
  case True
  have "held ls (lk_owner lock) b = None" if "covers lock b" for b
    using that assms(3) by (intro held_before) (auto simp: covers_def precedes_def)
  then have "held ls = set_range lock (held ls)" using True by (auto simp: set_range_def fun_eq_iff)
  then show ?thesis using True assms(1) by (auto simp: inserted_def put_lock_def starts_after_def)
next
  case False
  then have "held (lock # ls) = set_range lock (held ls)" by (auto simp: set_range_def fun_eq_iff)
  then show ?thesis using False assms by (auto simp: inserted_def put_lock_def starts_after_def locks_ok_Cons)
qed

text \<open>The lists before may differ where the lock lies.\<close>

lemma inserted_change:
  assumes "inserted lock ls ls'" and "\<And>ow b. \<not> (ow = lk_owner lock \<and> covers lock b) \<Longrightarrow> held ls ow b = held ls2 ow b"
    and "\<And>x. x \<in> set ls \<Longrightarrow> starts_after lock ls2 x"
  shows "inserted lock ls2 ls'"
proof -
  have "set_range lock (held ls) = set_range lock (held ls2)"
    using assms(2) by (auto simp: set_range_def fun_eq_iff)
  moreover have "starts_after lock ls2 x" if "x \<in> set ls'" for x
  proof -
    have "starts_after lock ls x" using assms(1) that by (simp add: inserted_def)
    then consider "lk_owner x = lk_owner lock" "lk_start lock \<le> lk_start x"
      | y where "y \<in> set ls" "lk_owner y = lk_owner x" "lk_start y \<le> lk_start x"
      unfolding starts_after_def by blast
    then show ?thesis
    proof cases
      case 2
      then show ?thesis using assms(3) [of y] by (force simp: starts_after_def)
    qed (simp add: starts_after_def)
  qed
  ultimately show ?thesis using assms(1) by (simp add: inserted_def)
qed

lemma starts_after_self: "x \<in> set ls \<Longrightarrow> starts_after lock ls x"
  by (auto simp: starts_after_def)

lemma inserted_inside:
  assumes "locks_ok (l # ls)" and "lk_owner l = lk_owner lock" and "lk_type l = lk_type lock"
    and "lk_start l \<le> lk_start lock" and "lk_end lock \<le> lk_end l"
  shows "inserted lock (l # ls) (l # ls)"
  using assms by (auto simp: inserted_def set_range_def covers_def fun_eq_iff locks_ok_Cons starts_after_self)

lemma inserted_merge:
  assumes "inserted lock' ls ls'" and "locks_ok (l # ls)" and "lk_owner l = lk_owner lock" and "lk_type l = lk_type lock"
    and "lk_start lock - 1 \<le> lk_end l" and "lk_start l - 1 \<le> lk_end lock" and "range_ok lock"
    and "lock' = lock\<lparr>lk_start := min (lk_start l) (lk_start lock), lk_end := max (lk_end lock) (lk_end l)\<rparr>"
  shows "inserted lock (l # ls) ls'"
proof -
  have c: "covers lock' b \<longleftrightarrow> covers lock b \<or> covers l b" for b
    using assms(5-8) by (auto simp: covers_def range_ok_def assms(8))
  have t: "lk_type lock' = lk_type lock" "lk_owner lock' = lk_owner lock" by (simp_all add: assms(8))
  have "set_range lock' (held ls) = set_range lock (held (l # ls))"
    using assms(2,3,4) c t by (auto simp: set_range_def fun_eq_iff locks_ok_Cons)
  moreover have "starts_after lock (l # ls) x" if "starts_after lock' ls x" for x
    using that assms(3,8) by (auto simp: starts_after_def min_def split: if_splits)
  ultimately show ?thesis using assms(1) by (auto simp: inserted_def)
qed

lemma checked_off_ok [simp]: "- OFFSET_MAX - 1 \<le> n \<Longrightarrow> n \<le> OFFSET_MAX \<Longrightarrow> checked_off n = Some n"
  by (simp add: checked_off_def)

text \<open>The four ways in which the lock meets one of another type.\<close>

lemma inserted_delete:
  assumes "inserted lock ls ls'" and "lk_owner l = lk_owner lock" and "lk_start lock \<le> lk_start l" and "lk_end l \<le> lk_end lock"
  shows "inserted lock (l # ls) ls'"
  using assms(1) by (rule inserted_change) (use assms(2-) in \<open>auto simp: covers_def starts_after_def\<close>)

lemma inserted_cut_end:
  assumes "inserted lock (r @ ls) ls'" and "locks_ok (l # ls)" and "range_ok lock" and "lk_owner l = lk_owner lock"
    and "lk_start l < lk_start lock" and "lk_start lock \<le> lk_end l"
    and "r = (if lk_end l \<le> lk_end lock then [] else [l\<lparr>lk_start := lk_end lock + 1\<rparr>])"
  shows "inserted lock (l # ls) (l\<lparr>lk_end := lk_start lock - 1\<rparr> # ls')"
proof -
  let ?l = "l\<lparr>lk_end := lk_start lock - 1\<rparr>"
  have "locks_ok (?l # r @ ls)"
    using assms(2-) by (auto simp: locks_ok_Cons precedes_def range_ok_def)
  then have "inserted lock (?l # r @ ls) (?l # ls')"
    by (rule inserted_Cons) (use assms(1) in \<open>auto simp: precedes_def\<close>)
  then show ?thesis
    by (rule inserted_change) (use assms(3-) in \<open>auto simp: covers_def starts_after_def range_ok_def split: if_splits\<close>)
qed

lemma inserted_cut_start:
  assumes "locks_ok (l # ls)" and "range_ok lock" and "lk_owner l = lk_owner lock" and "lk_end lock < lk_end l"
    and "lk_start l \<le> lk_end lock"
  shows "inserted lock (l\<lparr>lk_start := lk_end lock + 1\<rparr> # ls) (put_lock lock (l\<lparr>lk_start := lk_end lock + 1\<rparr> # ls))"
    and "lk_start lock \<le> lk_start l \<Longrightarrow> inserted lock (l # ls) (put_lock lock (l\<lparr>lk_start := lk_end lock + 1\<rparr> # ls))"
proof -
  let ?l = "l\<lparr>lk_start := lk_end lock + 1\<rparr>"
  have "locks_ok (?l # ls)" using assms by (auto simp: locks_ok_Cons precedes_def range_ok_def)
  moreover have "\<forall>x \<in> set (?l # ls). precedes lock x"
    using assms by (fastforce simp: locks_ok_Cons precedes_def range_ok_def)
  ultimately show i: "inserted lock (?l # ls) (put_lock lock (?l # ls))" by (rule inserted_put [OF _ assms(2)])
  show "inserted lock (l # ls) (put_lock lock (?l # ls))" if "lk_start lock \<le> lk_start l"
    using i by (rule inserted_change) (use assms that in \<open>auto simp: covers_def starts_after_def\<close>)
qed

lemma inserted_stop:
  assumes "locks_ok (l # ls)" and "range_ok lock" and "lk_owner l = lk_owner lock" and "lk_end lock < lk_start l"
  shows "inserted lock (l # ls) (put_lock lock (l # ls))"
  using assms by (intro inserted_put) (fastforce simp: locks_ok_Cons precedes_def range_ok_def)+

lemma insert_loop_inserted:
  assumes "locks_ok ls" and "range_ok lock" and "newl2 \<or> lk_start lock = 0 \<and> lk_end lock = OFFSET_MAX"
  shows "\<exists>ls'. insert_loop newl2 lock ls = Some ls' \<and> inserted lock ls ls'"
  using assms
proof (induction ls arbitrary: lock)
  case Nil
  then show ?case by (simp add: inserted_put)
next
  case (Cons l ls)
  note ok = Cons.prems(1) and r = Cons.prems(2)
  have okl: "locks_ok ls" and rl: "range_ok l" using ok by (simp_all add: locks_ok_Cons)
  obtain ls' where ls': "insert_loop newl2 lock ls = Some ls'" "inserted lock ls ls'"
    using Cons.IH [OF okl r Cons.prems(3)] by auto
  have c: "checked_off (lk_start lock - 1) = Some (lk_start lock - 1)" "checked_off (lk_start l - 1) = Some (lk_start l - 1)"
      "lk_end lock < lk_end l \<Longrightarrow> checked_off (lk_end lock + 1) = Some (lk_end lock + 1)"
    using r rl by (simp_all add: range_ok_def OFFSET_MAX_def)
  have skip: "inserted lock (l # ls) (l # ls')" if "lk_owner l \<noteq> lk_owner lock \<or> lk_end l < lk_start lock"
    using that ok ls'(2) by (intro inserted_Cons) (auto simp: precedes_def)
  consider (other) "lk_owner l \<noteq> lk_owner lock" | (same) "lk_owner l = lk_owner lock" "lk_type lock = lk_type l"
    | (diff) "lk_owner l = lk_owner lock" "lk_type lock \<noteq> lk_type l" by blast
  then show ?case
  proof cases
    case other
    then show ?thesis using skip ls' by simp
  next
    case same
    let ?m = "lock\<lparr>lk_start := min (lk_start l) (lk_start lock), lk_end := max (lk_end lock) (lk_end l)\<rparr>"
    have m: "lock\<lparr>lk_start := if lk_start l < lk_start lock then lk_start l else lk_start lock,
        lk_end := if lk_end lock < lk_end l then lk_end l else lk_end lock\<rparr> = ?m" by (auto simp: min_def max_def)
    have "range_ok ?m" and "newl2 \<or> lk_start ?m = 0 \<and> lk_end ?m = OFFSET_MAX"
      using r rl Cons.prems(3) by (auto simp: range_ok_def min_def max_def)
    then obtain ls2 where "insert_loop newl2 ?m ls = Some ls2" "inserted ?m ls ls2"
      using Cons.IH [OF okl] by blast
    moreover have "inserted lock (l # ls) ls2" if "\<not> lk_end l < lk_start lock - 1" "\<not> lk_end lock < lk_start l - 1"
      using \<open>inserted ?m ls ls2\<close> ok same(1) same(2) [symmetric] _ _ r refl
      by (rule inserted_merge) (use that in auto)
    ultimately show ?thesis
      using same c ls' skip inserted_stop [OF ok r same(1)] inserted_inside [OF ok same(1) same(2) [symmetric]]
      by (auto simp: m simp del: checked_off_ok)
  next
    case diff
    have d: "lk_end l \<le> lk_end lock \<Longrightarrow> lk_start l < lk_start lock \<Longrightarrow> lk_start lock \<le> lk_end l \<Longrightarrow>
        inserted lock (l # ls) (l\<lparr>lk_end := lk_start lock - 1\<rparr> # ls')"
      using inserted_cut_end [of lock "[]" ls ls' l] ls' ok r diff by simp
    have s: "insert_loop False lock (l\<lparr>lk_start := lk_end lock + 1\<rparr> # ls) = Some (put_lock lock (l\<lparr>lk_start := lk_end lock + 1\<rparr> # ls))"
      "inserted lock (l # ls) (l\<lparr>lk_end := lk_start lock - 1\<rparr> # put_lock lock (l\<lparr>lk_start := lk_end lock + 1\<rparr> # ls))"
      if "lk_end lock < lk_end l" "lk_start l < lk_start lock"
      using that diff r ok rl inserted_cut_end [OF _ ok r diff(1) that(2), of "[l\<lparr>lk_start := lk_end lock + 1\<rparr>]"]
        inserted_cut_start(1) [OF ok r diff(1) that(1)]
      by (auto simp: range_ok_def)
    have n: "newl2" if "lk_end lock < lk_end l" using that Cons.prems(3) rl by (auto simp: range_ok_def)
    show ?thesis
      using diff c ls' skip n d s inserted_stop [OF ok r diff(1)] inserted_delete [OF ls'(2) diff(1)]
        inserted_cut_start(2) [OF ok r diff(1)]
      by (auto simp: not_less simp del: checked_off_ok)
  qed
qed

section \<open>Requests\<close>

text \<open>A request to set a lock, with the result of the path lookup, and the flush of an owner's file.\<close>

datatype lock_req = SetLk int nat flock bool | Flush nat int

definition lock_cmd_of :: "bool \<Rightarrow> lock_cmd" where
  "lock_cmd_of slp = (if slp then F_SETLKW else F_SETLK)"

definition lock_exec :: "lock_op \<Rightarrow> lock_req \<Rightarrow> lock list \<Rightarrow> (int \<times> lock list) option" where
  "lock_exec op x ls = (case x of
       SetLk path_err owner fl slp \<Rightarrow> fuse_lib_setlk True path_err op owner fl slp ls
     | Flush owner flush_err \<Rightarrow> fuse_flush_common True flush_err op owner ls)"

text \<open>
  The specification, on the locks that each owner holds on each byte: a granted request sets the bytes of
  its range, where a length of 0 means up to the end, and a flush releases all bytes of the owner.
\<close>

definition in_flock :: "flock \<Rightarrow> int \<Rightarrow> bool" where
  "in_flock fl b \<longleftrightarrow> l_start fl \<le> b \<and> b \<le> OFFSET_MAX \<and> (l_len fl \<noteq> 0 \<longrightarrow> b < l_start fl + l_len fl)"

definition grant :: "nat \<Rightarrow> flock \<Rightarrow> (nat \<Rightarrow> int \<Rightarrow> lock_type option) \<Rightarrow> nat \<Rightarrow> int \<Rightarrow> lock_type option" where
  "grant owner fl H ow b = (if ow = owner \<and> in_flock fl b
     then (if l_type fl = F_UNLCK then None else Some (l_type fl)) else H ow b)"

definition release :: "nat \<Rightarrow> (nat \<Rightarrow> int \<Rightarrow> lock_type option) \<Rightarrow> nat \<Rightarrow> int \<Rightarrow> lock_type option" where
  "release owner H ow b = (if ow = owner then None else H ow b)"

abbreviation unlock_all :: flock where
  "unlock_all \<equiv> \<lparr>l_type = F_UNLCK, l_start = 0, l_len = 0, l_pid = 0\<rparr>"

definition lock_spec :: "lock_op \<Rightarrow> lock_req \<Rightarrow> (nat \<Rightarrow> int \<Rightarrow> lock_type option) \<Rightarrow> int \<times> (nat \<Rightarrow> int \<Rightarrow> lock_type option)" where
  "lock_spec op x H = (case x of
       SetLk path_err owner fl slp \<Rightarrow>
         let err = (if path_err \<noteq> 0 then path_err else fst (fuse_fs_lock op (lock_cmd_of slp) fl))
         in (err, if err = 0 then grant owner fl H else H)
     | Flush owner flush_err \<Rightarrow>
         if fst (fuse_fs_lock op F_SETLK unlock_all) = - ENOSYS then (flush_err, H)
         else (if flush_err = - ENOSYS then 0 else flush_err, release owner H))"

definition flock_ok :: "flock \<Rightarrow> bool" where
  "flock_ok fl \<longleftrightarrow> 0 \<le> l_start fl \<and> 0 \<le> l_len fl \<and> l_start fl + l_len fl \<le> OFFSET_MAX"

text \<open>A request has a valid range, and setting a lock does not change the request.\<close>

definition lock_may :: "lock_op \<Rightarrow> lock_req \<Rightarrow> (nat \<Rightarrow> int \<Rightarrow> lock_type option) \<Rightarrow> bool" where
  "lock_may op x H = (case x of
       SetLk path_err owner fl slp \<Rightarrow> flock_ok fl \<and> snd (fuse_fs_lock op (lock_cmd_of slp) fl) = fl
     | Flush owner flush_err \<Rightarrow> snd (fuse_fs_lock op F_SETLK unlock_all) = unlock_all)"

lemma flock_to_lock_ok:
  assumes "flock_ok fl"
  obtains l where "flock_to_lock fl owner = Some l" and "range_ok l" and "lk_owner l = owner" and "lk_type l = l_type fl"
    and "covers l = in_flock fl"
proof -
  let ?e = "if l_len fl \<noteq> 0 then l_start fl + l_len fl - 1 else OFFSET_MAX"
  let ?l = "\<lparr>lk_type = l_type fl, lk_start = l_start fl, lk_end = ?e, lk_pid = l_pid fl, lk_owner = owner\<rparr>"
  have "flock_to_lock fl owner = Some ?l" using assms by (auto simp: flock_to_lock_def flock_ok_def OFFSET_MAX_def)
  moreover have "range_ok ?l" using assms by (auto simp: range_ok_def flock_ok_def)
  moreover have "covers ?l = in_flock fl" using assms by (auto simp: covers_def in_flock_def flock_ok_def fun_eq_iff)
  ultimately show ?thesis using that by simp
qed

lemma locks_insert_ok:
  assumes "locks_ok ls" and "range_ok lock"
  obtains ls' where "locks_insert True ls lock = Some (0, ls')" and "locks_ok ls'" and "held ls' = set_range lock (held ls)"
proof -
  let ?n = "lk_type lock \<noteq> F_UNLCK \<or> lk_start lock \<noteq> 0 \<or> lk_end lock \<noteq> OFFSET_MAX"
  obtain ls' where "insert_loop ?n lock ls = Some ls'" "inserted lock ls ls'"
    using insert_loop_inserted [OF assms, of ?n] by auto
  then show ?thesis using that by (simp add: locks_insert_def inserted_def)
qed

lemma held_range: "locks_ok ls \<Longrightarrow> held ls ow b = Some t \<Longrightarrow> 0 \<le> b \<and> b \<le> OFFSET_MAX"
  by (induction ls) (auto simp: locks_ok_Cons covers_def range_ok_def split: if_splits)

lemma flock_insert:
  assumes "locks_ok ls" and "flock_ok fl"
  obtains l ls' where "flock_to_lock fl owner = Some l" and "locks_insert True ls l = Some (0, ls')" and "locks_ok ls'"
    and "held ls' = grant owner fl (held ls)"
proof -
  obtain l where l: "flock_to_lock fl owner = Some l" "range_ok l" "lk_owner l = owner" "lk_type l = l_type fl" "covers l = in_flock fl"
    using assms(2) by (rule flock_to_lock_ok)
  obtain ls' where "locks_insert True ls l = Some (0, ls')" "locks_ok ls'" "held ls' = set_range l (held ls)"
    using assms(1) l(2) by (rule locks_insert_ok)
  moreover have "set_range l H = grant owner fl H" for H
    using l by (auto simp: set_range_def grant_def fun_eq_iff)
  ultimately show ?thesis using that l(1) by simp
qed

lemma grant_unlock_all: "locks_ok ls \<Longrightarrow> grant owner unlock_all (held ls) = release owner (held ls)"
  using held_range [of ls owner] by (fastforce simp: grant_def release_def in_flock_def fun_eq_iff not_None_eq)

lemma lock_step:
  assumes "locks_ok ls" and "lock_may op x (held ls)"
  shows "\<exists>r ls'. lock_exec op x ls = Some (r, ls') \<and> locks_ok ls' \<and> lock_spec op x (held ls) = (r, held ls')"
proof (cases x)
  case (SetLk path_err owner fl slp)
  obtain l ls' where i: "flock_to_lock fl owner = Some l" "locks_insert True ls l = Some (0, ls')" "locks_ok ls'"
      "held ls' = grant owner fl (held ls)"
    using assms SetLk by (auto simp: lock_may_def intro: flock_insert)
  obtain err fl' where e: "fuse_fs_lock op (lock_cmd_of slp) fl = (err, fl')" by fastforce
  then have "fl' = fl" using assms(2) SetLk by (simp add: lock_may_def)
  then show ?thesis using e i assms(1) SetLk
    by (auto simp: lock_exec_def lock_spec_def fuse_lib_setlk_def fuse_lock_common_def lock_cmd_of_def [symmetric])
next
  case (Flush owner flush_err)
  obtain l ls' where i: "flock_to_lock unlock_all owner = Some l" "locks_insert True ls l = Some (0, ls')" "locks_ok ls'"
      "held ls' = grant owner unlock_all (held ls)"
    by (rule flock_insert [OF assms(1), of unlock_all owner]) (simp_all add: flock_ok_def OFFSET_MAX_def)
  obtain err fl' where e: "fuse_fs_lock op F_SETLK unlock_all = (err, fl')" by fastforce
  then have "fl' = unlock_all" using assms(2) Flush by (simp add: lock_may_def)
  then show ?thesis using e i assms(1) Flush
    by (auto simp: lock_exec_def lock_spec_def fuse_flush_common_def grant_unlock_all)
qed

interpretation lk: simulation "lock_exec op" "lock_spec op" locks_ok held "lock_may op" for op
  by unfold_locales (rule lock_step)

lemma held_member: "locks_ok ls \<Longrightarrow> l \<in> set ls \<Longrightarrow> covers l b \<Longrightarrow> held ls (lk_owner l) b = Some (lk_type l)"
  by (induction ls) (fastforce simp: locks_ok_Cons covers_def precedes_def)+

lemma held_SomeD: "held ls ow b = Some t \<Longrightarrow> \<exists>l \<in> set ls. lk_owner l = ow \<and> covers l b \<and> lk_type l = t"
  by (induction ls) (auto split: if_splits)

definition conflicts :: "lock \<Rightarrow> lock \<Rightarrow> bool" where
  "conflicts lock l \<longleftrightarrow> lk_owner l \<noteq> lk_owner lock \<and> lk_start lock \<le> lk_end l \<and> lk_start l \<le> lk_end lock \<and>
     (lk_type l = F_WRLCK \<or> lk_type lock = F_WRLCK)"

lemma locks_conflict_find: "locks_conflict ls lock = find (conflicts lock) ls"
  by (induction ls) (auto simp: conflicts_def)

lemma conflicts_bytes:
  assumes "locks_ok ls" and "range_ok lock" and "l \<in> set ls"
  shows "conflicts lock l \<longleftrightarrow> (\<exists>b. covers lock b \<and> covers l b) \<and> lk_owner l \<noteq> lk_owner lock \<and>
     (lk_type l = F_WRLCK \<or> lk_type lock = F_WRLCK)"
proof -
  have "range_ok l" using assms(1,3) by (auto simp: locks_ok_def list_all_iff)
  then have "covers lock (max (lk_start l) (lk_start lock)) \<and> covers l (max (lk_start l) (lk_start lock))"
    if "lk_start lock \<le> lk_end l" "lk_start l \<le> lk_end lock"
    using that assms(2) by (auto simp: covers_def range_ok_def)
  then show ?thesis by (fastforce simp: conflicts_def covers_def)
qed

section \<open>Properties\<close>

text \<open>
  Property C7: record locks. Any sequence of requests for valid ranges is handled without undefined
  behaviour, in particular no lock is split when there is no memory for the second part and no offset
  overflows; the replies are those of the specification, and the list of locks represents exactly which
  lock each owner holds on each byte: merged, cut, split and released as the requests say. Memory for the locks is
  there; what happens without it is in \<open>setlk_loses_lock\<close>.
\<close>

theorem locks_refine:
  assumes "all_allowed (lock_spec op) (lock_may op) xs (\<lambda>ow b. None)"
  shows "\<exists>rs ls. runs (lock_exec op) xs [] = Some (rs, ls) \<and> locks_ok ls \<and>
    aruns (lock_spec op) xs (\<lambda>ow b. None) = (rs, held ls)"
proof -
  have "held [] = (\<lambda>ow b. None)" by (simp add: fun_eq_iff)
  then show ?thesis using lk.run_refines [of "[]" op xs] assms by simp
qed

definition granting :: lock_op where
  "granting = Some (\<lambda>cmd fl. (0, fl))"

definition some_requests :: "lock_req list" where
  "some_requests =
     [SetLk 0 1 \<lparr>l_type = F_WRLCK, l_start = 0, l_len = 10, l_pid = 7\<rparr> False,
      SetLk 0 2 \<lparr>l_type = F_RDLCK, l_start = 20, l_len = 0, l_pid = 8\<rparr> True,
      SetLk 0 1 \<lparr>l_type = F_UNLCK, l_start = 3, l_len = 2, l_pid = 7\<rparr> False,
      SetLk (- 2) 1 \<lparr>l_type = F_UNLCK, l_start = 0, l_len = 0, l_pid = 7\<rparr> False,
      Flush 2 0]"

theorem locks_refine_witness:
  "\<exists>rs ls. runs (lock_exec granting) some_requests [] = Some (rs, ls) \<and> locks_ok ls \<and>
    aruns (lock_spec granting) some_requests (\<lambda>ow b. None) = (rs, held ls)"
  by (rule locks_refine)
     (simp add: some_requests_def granting_def lock_may_def lock_spec_def fuse_fs_lock_def flock_ok_def OFFSET_MAX_def)

text \<open>
  Property C31: conflicts. The search reports a conflict exactly when some other owner holds a lock on some
  byte of the range and one of the two is a write lock; what it reports is such a lock of the list.
\<close>

theorem locks_conflict_exact:
  assumes "locks_ok ls" and "range_ok lock"
  shows "(locks_conflict ls lock = None \<longleftrightarrow>
      \<not> (\<exists>ow b t. ow \<noteq> lk_owner lock \<and> covers lock b \<and> held ls ow b = Some t \<and> (t = F_WRLCK \<or> lk_type lock = F_WRLCK))) \<and>
    (case locks_conflict ls lock of None \<Rightarrow> True
     | Some c \<Rightarrow> c \<in> set ls \<and> lk_owner c \<noteq> lk_owner lock \<and> (\<exists>b. covers lock b \<and> covers c b))"
proof -
  have "locks_conflict ls lock \<noteq> None \<longleftrightarrow> (\<exists>l \<in> set ls. conflicts lock l)"
    by (auto simp: locks_conflict_find find_None_iff)
  moreover have "(\<exists>l \<in> set ls. conflicts lock l) \<longleftrightarrow>
      (\<exists>ow b t. ow \<noteq> lk_owner lock \<and> covers lock b \<and> held ls ow b = Some t \<and> (t = F_WRLCK \<or> lk_type lock = F_WRLCK))"
    using conflicts_bytes [OF assms] held_member [OF assms(1)] held_SomeD [of ls] by metis
  ultimately have iff: "locks_conflict ls lock = None \<longleftrightarrow>
      \<not> (\<exists>ow b t. ow \<noteq> lk_owner lock \<and> covers lock b \<and> held ls ow b = Some t \<and> (t = F_WRLCK \<or> lk_type lock = F_WRLCK))"
    by (simp add: option.simps(3) not_None_eq [symmetric] del: not_None_eq) blast
  have "c \<in> set ls \<and> conflicts lock c" if "locks_conflict ls lock = Some c" for c
    using that by (auto simp: locks_conflict_find find_Some_iff)
  then have "c \<in> set ls \<and> lk_owner c \<noteq> lk_owner lock \<and> (\<exists>b. covers lock b \<and> covers c b)"
    if "locks_conflict ls lock = Some c" for c
    using that conflicts_bytes [OF assms, of c] by auto
  with iff show ?thesis by (cases "locks_conflict ls lock") simp_all
qed

definition lock_between :: "lock_type \<Rightarrow> int \<Rightarrow> int \<Rightarrow> nat \<Rightarrow> lock" where
  "lock_between t a b ow = \<lparr>lk_type = t, lk_start = a, lk_end = b, lk_pid = 0, lk_owner = ow\<rparr>"

theorem locks_conflict_exact_witness:
  "(locks_conflict [lock_between F_RDLCK 4 9 1, lock_between F_WRLCK 12 15 1] (lock_between F_RDLCK 5 12 2) = None \<longleftrightarrow>
      \<not> (\<exists>ow b t. ow \<noteq> lk_owner (lock_between F_RDLCK 5 12 2) \<and> covers (lock_between F_RDLCK 5 12 2) b \<and>
        held [lock_between F_RDLCK 4 9 1, lock_between F_WRLCK 12 15 1] ow b = Some t \<and>
        (t = F_WRLCK \<or> lk_type (lock_between F_RDLCK 5 12 2) = F_WRLCK))) \<and>
    (case locks_conflict [lock_between F_RDLCK 4 9 1, lock_between F_WRLCK 12 15 1] (lock_between F_RDLCK 5 12 2) of None \<Rightarrow> True
     | Some c \<Rightarrow> c \<in> set [lock_between F_RDLCK 4 9 1, lock_between F_WRLCK 12 15 1] \<and> lk_owner c \<noteq> lk_owner (lock_between F_RDLCK 5 12 2) \<and>
      (\<exists>b. covers (lock_between F_RDLCK 5 12 2) b \<and> covers c b))"
proof (rule locks_conflict_exact)
  show "locks_ok [lock_between F_RDLCK 4 9 1, lock_between F_WRLCK 12 15 1]" by code_simp
  show "range_ok (lock_between F_RDLCK 5 12 2)" by code_simp
qed

text \<open>A lock survives the conversion to the form of the interface and back.\<close>

lemma flock_roundtrip: "range_ok l \<Longrightarrow> flock_to_lock (lock_to_flock l) (lk_owner l) = Some l"
  by (auto simp: flock_to_lock_def lock_to_flock_def range_ok_def OFFSET_MAX_def)

text \<open>Without memory the lock is not recorded, but the request is answered as granted.\<close>

lemma setlk_loses_lock:
  assumes "flock_ok fl" and "l_type fl \<noteq> F_UNLCK" and "fuse_fs_lock op F_SETLK fl = (0, fl)"
  shows "fuse_lib_setlk False 0 op owner fl False ls = Some (0, ls)"
proof -
  obtain l where "flock_to_lock fl owner = Some l" "lk_type l = l_type fl" using assms(1) by (rule flock_to_lock_ok) blast
  then show ?thesis using assms(2,3) by (simp add: fuse_lib_setlk_def fuse_lock_common_def locks_insert_def)
qed

end
