(* ===== verification/Fuse_Table.thy ===== *)
theory Fuse_Table
  imports Prelude
begin

text \<open>
  The hash tables of the FUSE library, \<open>struct node_table\<close> of \<open>fuse-2.9.3/lib/fuse.c\<close>: linear hashing,
  where the table grows by splitting one chain at a time and shrinks by merging chains again. The code
  has two copies of the operations, for node numbers and for names; they differ in the raw hash value
  only, which is a parameter here. Chains are lists of node addresses; the array is a map from the
  allocated indices to chains, so that an access outside it is \<open>None\<close>. Whether \<open>realloc\<close> succeeds is a
  parameter, by the number of entries asked for.
\<close>

section \<open>Operations\<close>

record ntable =
  arr :: "nat \<rightharpoonup> addr list"
  tuse :: nat
  tsize :: nat
  tsplit :: nat

definition NODE_TABLE_MIN_SIZE :: nat where
  "NODE_TABLE_MIN_SIZE = 8192"

definition node_table_init :: ntable where
  "node_table_init = \<lparr>arr = (\<lambda>i. if i < NODE_TABLE_MIN_SIZE then Some [] else None), tuse = 0,
     tsize = NODE_TABLE_MIN_SIZE, tsplit = 0\<rparr>"

text \<open>The chain of a raw hash value; a size below 2 divides by zero.\<close>

definition bucket :: "ntable \<Rightarrow> nat \<Rightarrow> nat" where
  "bucket t h = (let hash = h mod tsize t; oldhash = hash mod (tsize t div 2)
     in if oldhash \<ge> tsplit t then oldhash else hash)"

definition table_hash :: "ntable \<Rightarrow> nat \<Rightarrow> nat option" where
  "table_hash t h = (if tsize t div 2 = 0 then None else Some (bucket t h))"

definition node_table_reduce :: "(nat \<Rightarrow> bool) \<Rightarrow> ntable \<Rightarrow> ntable" where
  "node_table_reduce realloc_ok t =
     (let newsize = tsize t div 2
      in if newsize < NODE_TABLE_MIN_SIZE then t
         else t\<lparr>arr := (if realloc_ok newsize then arr t |` {..<newsize} else arr t),
                tsize := newsize, tsplit := newsize div 2\<rparr>)"

fun remerge_loop :: "nat \<Rightarrow> ntable \<Rightarrow> ntable option" where
  "remerge_loop 0 t = Some t"
| "remerge_loop (Suc iter) t =
     (if tsplit t = 0 then Some t
      else let t1 = t\<lparr>tsplit := tsplit t - 1\<rparr>; u = tsplit t1 + tsize t1 div 2
           in do {
             upper \<leftarrow> arr t1 u;
             if upper \<noteq> [] then do {
               lower \<leftarrow> arr t1 (tsplit t1);
               Some (t1\<lparr>arr := (arr t1)(tsplit t1 \<mapsto> lower @ upper, u \<mapsto> [])\<rparr>) }
             else remerge_loop iter t1 })"

definition remerge :: "(nat \<Rightarrow> bool) \<Rightarrow> ntable \<Rightarrow> ntable option" where
  "remerge realloc_ok t = remerge_loop 8 (if tsplit t = 0 then node_table_reduce realloc_ok t else t)"

definition node_table_resize :: "(nat \<Rightarrow> bool) \<Rightarrow> ntable \<Rightarrow> ntable" where
  "node_table_resize realloc_ok t =
     (let newsize = tsize t * 2
      in if realloc_ok newsize
         then t\<lparr>arr := (\<lambda>i. if i < tsize t then arr t i else if i < newsize then Some [] else None),
                tsize := newsize, tsplit := 0\<rparr>
         else t)"

text \<open>
  The loop of \<open>rehash\<close> along the chain \<open>hash\<close>: a node whose chain has changed is put in front of its new
  one. The result is what stays in the chain, and the table. \<open>hf\<close> is the raw hash value of a node.
\<close>

fun rehash_loop :: "(addr \<Rightarrow> nat option) \<Rightarrow> nat \<Rightarrow> addr list \<Rightarrow> ntable \<Rightarrow> (addr list \<times> ntable) option" where
  "rehash_loop hf hash [] t = Some ([], t)"
| "rehash_loop hf hash (a # as) t = do {
     h \<leftarrow> hf a;
     newhash \<leftarrow> table_hash t h;
     if newhash \<noteq> hash then do {
       c \<leftarrow> arr t newhash;
       rehash_loop hf hash as (t\<lparr>arr := (arr t)(newhash \<mapsto> a # c)\<rparr>) }
     else do {
       (stay, t') \<leftarrow> rehash_loop hf hash as t;
       Some (a # stay, t') } }"

definition rehash :: "(nat \<Rightarrow> bool) \<Rightarrow> (addr \<Rightarrow> nat option) \<Rightarrow> ntable \<Rightarrow> ntable option" where
  "rehash realloc_ok hf t =
     (if tsplit t = tsize t div 2 then Some t
      else let hash = tsplit t; t1 = t\<lparr>tsplit := tsplit t + 1\<rparr>
           in do {
             c \<leftarrow> arr t1 hash;
             (stay, t2) \<leftarrow> rehash_loop hf hash c t1;
             let t3 = t2\<lparr>arr := (arr t2)(hash \<mapsto> stay)\<rparr>;
             Some (if tsplit t3 = tsize t3 div 2 then node_table_resize realloc_ok t3 else t3) })"

text \<open>Putting a node with raw hash \<open>h\<close> into the table, as \<open>hash_id\<close> and \<open>hash_name\<close> do.\<close>

definition table_insert :: "(nat \<Rightarrow> bool) \<Rightarrow> (addr \<Rightarrow> nat option) \<Rightarrow> nat \<Rightarrow> addr \<Rightarrow> ntable \<Rightarrow> ntable option" where
  "table_insert realloc_ok hf h a t = do {
     i \<leftarrow> table_hash t h;
     c \<leftarrow> arr t i;
     let t1 = t\<lparr>arr := (arr t)(i \<mapsto> a # c), tuse := tuse t + 1\<rparr>;
     if tuse t1 \<ge> tsize t1 div 2 then rehash realloc_ok hf t1 else Some t1 }"

text \<open>Taking a node out of its chain; the inner \<open>None\<close> says that it is not there.\<close>

definition table_unlink :: "nat \<Rightarrow> addr \<Rightarrow> ntable \<Rightarrow> ntable option option" where
  "table_unlink h a t = do {
     i \<leftarrow> table_hash t h;
     c \<leftarrow> arr t i;
     Some (if a \<in> set c then Some (t\<lparr>arr := (arr t)(i \<mapsto> remove1 a c)\<rparr>) else None) }"

text \<open>The counter goes down (it is a \<open>size_t\<close>), and the table shrinks when it is less than a quarter full.\<close>

definition table_drop :: "(nat \<Rightarrow> bool) \<Rightarrow> ntable \<Rightarrow> ntable option" where
  "table_drop realloc_ok t =
     (let t1 = t\<lparr>tuse := (if tuse t = 0 then 2 ^ 64 - 1 else tuse t - 1)\<rparr>
      in if tuse t1 < tsize t1 div 4 then remerge realloc_ok t1 else Some t1)"

definition chain_of :: "nat \<Rightarrow> ntable \<Rightarrow> addr list option" where
  "chain_of h t = do { i \<leftarrow> table_hash t h; arr t i }"

section \<open>The invariant\<close>

text \<open>The nodes of \<open>S\<close> that belong in chain \<open>i\<close>.\<close>

definition members :: "(addr \<Rightarrow> nat option) \<Rightarrow> addr set \<Rightarrow> ntable \<Rightarrow> nat \<Rightarrow> addr set" where
  "members hf S t i = {a \<in> S. \<exists>h. hf a = Some h \<and> bucket t h = i}"

definition table_ok :: "(addr \<Rightarrow> nat option) \<Rightarrow> addr set \<Rightarrow> ntable \<Rightarrow> bool" where
  "table_ok hf S t \<longleftrightarrow>
     (\<exists>k. tsize t = NODE_TABLE_MIN_SIZE * 2 ^ k) \<and> tsplit t \<le> tsize t div 2 \<and> (\<forall>a \<in> S. hf a \<noteq> None) \<and>
     (\<forall>i < tsize t. \<exists>c. arr t i = Some c \<and> distinct c \<and> set c = members hf S t i)"

lemma bucket_cong [simp]: "bucket (t\<lparr>arr := x\<rparr>) = bucket t" "bucket (t\<lparr>tuse := n\<rparr>) = bucket t"
  by (simp_all add: bucket_def fun_eq_iff)

lemma members_cong [simp]:
  "members hf S (t\<lparr>arr := x\<rparr>) = members hf S t" "members hf S (t\<lparr>tuse := n\<rparr>) = members hf S t"
  by (simp_all add: members_def fun_eq_iff)

lemma table_ok_half:
  assumes "table_ok hf S t"
  obtains m where "tsize t = 2 * m" and "0 < m" and "tsplit t \<le> m"
  using assms by (auto simp: table_ok_def NODE_TABLE_MIN_SIZE_def intro!: that [of "tsize t div 2"])

lemma bucket_eq:
  assumes "tsize t = 2 * m" and "0 < m"
  shows "bucket t h = (if tsplit t \<le> h mod m then h mod m else h mod (2 * m))"
proof -
  have "h mod (2 * m) mod m = h mod m" by (simp add: mod_mod_cancel)
  then show ?thesis using assms by (simp add: bucket_def Let_def)
qed

lemma mod_double: "h mod (2 * m) = h mod m \<or> h mod (2 * m) = h mod m + (m :: nat)"
  by (metis mod_mult2_eq mult.commute mult_0_right mult_1_right add.commute add_0 not_mod_2_eq_1_eq_0)

lemma bucket_less:
  assumes "table_ok hf S t"
  shows "bucket t h < tsize t"
proof -
  obtain m where m: "tsize t = 2 * m" "0 < m" using assms by (rule table_ok_half)
  then have "h mod m < 2 * m" "h mod (2 * m) < 2 * m" by (simp_all add: less_trans [of _ m])
  then show ?thesis using m by (simp only: bucket_eq [OF m]) simp
qed

lemma chainE:
  assumes "table_ok hf S t" and "i < tsize t"
  obtains c where "arr t i = Some c" and "distinct c" and "set c = members hf S t i"
  using assms by (auto simp: table_ok_def)

lemma mod_not_ge [simp]: "0 < m \<Longrightarrow> \<not> m \<le> h mod (m :: nat)"
  by (simp add: not_le)

lemma table_hash_ok: "table_ok hf S t \<Longrightarrow> table_hash t h = Some (bucket t h)"
  by (erule table_ok_half) (simp add: table_hash_def)

lemma chain_ok:
  assumes "table_ok hf S t" and "hf' = h"
  obtains c where "arr t (bucket t h) = Some c" and "distinct c" and "set c = members hf S t (bucket t h)"
  using assms(1) bucket_less [OF assms(1), of h] by (auto simp: table_ok_def)

lemma members_iff: "hf a = Some h \<Longrightarrow> a \<in> members hf S t i \<longleftrightarrow> a \<in> S \<and> bucket t h = i"
  by (auto simp: members_def)

text \<open>The table holds exactly the nodes of \<open>S\<close>.\<close>

lemma chain_of_iff:
  assumes "table_ok hf S t" and "hf a = Some h"
  shows "\<exists>c. chain_of h t = Some c \<and> distinct c \<and> (a \<in> set c \<longleftrightarrow> a \<in> S)"
    and "chain_of h t = Some c \<Longrightarrow> b \<in> set c \<Longrightarrow> b \<in> S"
  using chain_ok [OF assms(1) refl, of h] members_iff [of hf a h S t, OF assms(2)] table_hash_ok [OF assms(1), of h]
  by (force simp: chain_of_def members_def)+

lemma table_ok_hf:
  assumes "table_ok hf S t" and "\<And>a. a \<in> S \<Longrightarrow> hf' a = hf a"
  shows "table_ok hf' S t"
proof -
  have "members hf' S t = members hf S t" using assms(2) by (auto simp: members_def fun_eq_iff)
  then show ?thesis using assms by (simp add: table_ok_def)
qed

lemma table_ok_use: "table_ok hf S (t\<lparr>tuse := n\<rparr>) \<longleftrightarrow> table_ok hf S t"
  by (simp add: table_ok_def)

lemma table_ok_init: "table_ok hf {} node_table_init"
  by (auto simp: table_ok_def node_table_init_def members_def NODE_TABLE_MIN_SIZE_def intro: exI [of _ 0])

text \<open>Changing one chain.\<close>

lemma table_ok_update:
  assumes ok: "table_ok hf S t" and i: "i < tsize t" and "distinct c" and "set c = members hf S' t i"
    and other: "\<And>j. j \<noteq> i \<Longrightarrow> members hf S' t j = members hf S t j" and "\<And>a. a \<in> S' \<Longrightarrow> hf a \<noteq> None"
  shows "table_ok hf S' (t\<lparr>arr := (arr t)(i \<mapsto> c)\<rparr>)"
  using assms by (auto simp: table_ok_def)

lemma members_insert:
  "hf a = Some h \<Longrightarrow> members hf (insert a S) t i = (if bucket t h = i then insert a (members hf S t i) else members hf S t i)"
  by (auto simp: members_def)

lemma members_remove:
  "hf a = Some h \<Longrightarrow> members hf (S - {a}) t i = (if bucket t h = i then members hf S t i - {a} else members hf S t i)"
  by (auto simp: members_def)

lemma table_unlink_ok:
  assumes "table_ok hf S t" and "hf a = Some h" and "a \<in> S"
  obtains t' where "table_unlink h a t = Some (Some t')" and "table_ok hf (S - {a}) t'"
proof -
  obtain c where c: "arr t (bucket t h) = Some c" "distinct c" "set c = members hf S t (bucket t h)"
    using assms(1) refl by (rule chain_ok)
  have "a \<in> set c" using c(3) assms(2,3) by (simp add: members_iff)
  then have "table_unlink h a t = Some (Some (t\<lparr>arr := (arr t)(bucket t h \<mapsto> remove1 a c)\<rparr>))"
    using c(1) table_hash_ok [OF assms(1)] by (simp add: table_unlink_def)
  moreover have "table_ok hf (S - {a}) (t\<lparr>arr := (arr t)(bucket t h \<mapsto> remove1 a c)\<rparr>)"
    using assms(1) bucket_less [OF assms(1)] by (rule table_ok_update)
      (use assms c in \<open>auto simp: members_remove set_remove1_eq, auto simp: table_ok_def\<close>)
  ultimately show ?thesis using that by blast
qed

lemma table_unlink_absent:
  assumes "table_ok hf S t" and "hf a = Some h" and "a \<notin> S"
  shows "table_unlink h a t = Some None"
  using chain_ok [OF assms(1) refl, of h] table_hash_ok [OF assms(1)] assms(2,3)
  by (fastforce simp: table_unlink_def members_def)

section \<open>Growing and shrinking\<close>

lemma bucket_split:
  assumes "tsize t = 2 * m" and "0 < m" and "tsplit t = Suc s" and "Suc s \<le> m"
  shows "bucket (t\<lparr>tsplit := s\<rparr>) h = (if h mod m = s then s else bucket t h)"
    and "bucket t h = s \<longleftrightarrow> h mod (2 * m) = s" and "bucket t h = s + m \<longleftrightarrow> h mod (2 * m) = s + m"
    and "h mod m = s \<longleftrightarrow> h mod (2 * m) = s \<or> h mod (2 * m) = s + m"
proof -
  have a: "h mod m < m" using assms(2) by simp
  then show "h mod m = s \<longleftrightarrow> h mod (2 * m) = s \<or> h mod (2 * m) = s + m"
    using mod_double [of h m] assms(4) by linarith
  show "bucket (t\<lparr>tsplit := s\<rparr>) h = (if h mod m = s then s else bucket t h)"
    using assms by (auto simp: bucket_eq [of _ m])
  define r x where "r = h mod m" and "x = h mod (2 * m)"
  have "r < m" "x = r \<or> x = r + m" "bucket t h = (if Suc s \<le> r then r else x)"
    using a mod_double [of h m] assms(3) by (simp_all add: r_def x_def bucket_eq [OF assms(1,2)])
  then show "bucket t h = s \<longleftrightarrow> h mod (2 * m) = s" "bucket t h = s + m \<longleftrightarrow> h mod (2 * m) = s + m"
    unfolding x_def [symmetric] by (auto split: if_splits)
qed

lemma members_split:
  assumes "tsize t = 2 * m" and "0 < m" and "tsplit t = Suc s" and "Suc s \<le> m"
  shows "members hf S (t\<lparr>tsplit := s\<rparr>) i = (if i = s then members hf S t s \<union> members hf S t (s + m)
     else if i = s + m then {} else members hf S t i)"
  using bucket_split [OF assms] assms(2,4) by (auto simp: members_def)

text \<open>Merging the chains \<open>s\<close> and \<open>s + m\<close>.\<close>

lemma table_ok_merge:
  assumes ok: "table_ok hf S t" and m: "tsize t = 2 * m" "0 < m" and s: "tsplit t = Suc s"
    and lo: "arr t s = Some lo" and up: "arr t (s + m) = Some up"
  shows "table_ok hf S (t\<lparr>tsplit := s, arr := (arr t)(s \<mapsto> lo @ up, s + m \<mapsto> [])\<rparr>)"
proof -
  have sm: "Suc s \<le> m" using ok m s by (auto simp: table_ok_def)
  have c: "distinct lo" "set lo = members hf S t s" "distinct up" "set up = members hf S t (s + m)"
    using chainE [OF ok, of s] chainE [OF ok, of "s + m"] lo up m sm by auto
  have "members hf S t s \<inter> members hf S t (s + m) = {}" using m(2) by (auto simp: members_def)
  then have "distinct (lo @ up)" using c by auto
  then show ?thesis using ok m s sm c by (auto simp: table_ok_def members_split [OF m s sm])
qed

lemma remerge_loop_ok: "table_ok hf S t \<Longrightarrow> \<exists>t'. remerge_loop n t = Some t' \<and> table_ok hf S t'"
proof (induction n arbitrary: t)
  case (Suc n)
  obtain m where m: "tsize t = 2 * m" "0 < m" "tsplit t \<le> m" using Suc.prems by (rule table_ok_half)
  show ?case
  proof (cases "tsplit t")
    case (Suc s)
    have "s < tsize t" "s + m < tsize t" using m \<open>tsplit t = Suc s\<close> by auto
    then obtain lo up where c: "arr t s = Some lo" "arr t (s + m) = Some up" by (metis chainE [OF Suc.prems])
    note merged = table_ok_merge [OF Suc.prems m(1,2) \<open>tsplit t = Suc s\<close> c]
    show ?thesis
    proof (cases "up = []")
      case True
      then have "(arr t)(s \<mapsto> lo @ up, s + m \<mapsto> []) = arr t" using c by (auto simp: fun_eq_iff)
      then have "table_ok hf S (t\<lparr>tsplit := s\<rparr>)" using merged by simp
      then show ?thesis using Suc.IH True c m \<open>tsplit t = Suc s\<close> by simp
    next
      case False
      then show ?thesis using merged c m \<open>tsplit t = Suc s\<close> by (simp add: Let_def)
    qed
  qed (use Suc.prems in simp)
qed simp

lemma node_table_reduce_ok:
  assumes ok: "table_ok hf S t" and s: "tsplit t = 0"
  shows "table_ok hf S (node_table_reduce rok t)"
proof (cases "tsize t div 2 < NODE_TABLE_MIN_SIZE")
  case False
  obtain k where k: "tsize t = NODE_TABLE_MIN_SIZE * 2 ^ k" using ok by (auto simp: table_ok_def)
  obtain k' where k': "k = Suc k'" using False k by (cases k) (auto simp: NODE_TABLE_MIN_SIZE_def)
  let ?m = "NODE_TABLE_MIN_SIZE * 2 ^ k' div 2"
  have m: "tsize t div 2 = 2 * ?m" "0 < ?m" "tsize t = 2 * (2 * ?m)" using k k' by (simp_all add: NODE_TABLE_MIN_SIZE_def)
  let ?t = "node_table_reduce rok t"
  have t: "tsize ?t = 2 * ?m" "tsplit ?t = ?m" "\<And>i. i < 2 * ?m \<Longrightarrow> arr ?t i = arr t i"
    using False m by (auto simp: node_table_reduce_def Let_def)
  have "bucket ?t h = bucket t h" for h
    using bucket_eq [of ?t ?m h] bucket_eq [OF m(3), of h] t m(2) s by simp
  then have "members hf S ?t = members hf S t" by (simp add: members_def fun_eq_iff)
  moreover have "tsize ?t = NODE_TABLE_MIN_SIZE * 2 ^ k'" using t(1) by (simp add: NODE_TABLE_MIN_SIZE_def)
  ultimately show ?thesis using ok t m(3) by (auto simp: table_ok_def)
qed (use ok in \<open>simp add: node_table_reduce_def\<close>)

lemma remerge_ok: "table_ok hf S t \<Longrightarrow> \<exists>t'. remerge rok t = Some t' \<and> table_ok hf S t'"
  by (simp add: remerge_def remerge_loop_ok node_table_reduce_ok)

lemma table_drop_ok: "table_ok hf S t \<Longrightarrow> \<exists>t'. table_drop rok t = Some t' \<and> table_ok hf S t'"
  by (simp add: table_drop_def Let_def table_ok_use remerge_ok)

lemma node_table_resize_ok:
  assumes ok: "table_ok hf S t" and s: "tsplit t = tsize t div 2"
  shows "table_ok hf S (node_table_resize rok t)"
proof (cases "rok (tsize t * 2)")
  case True
  obtain m where m: "tsize t = 2 * m" "0 < m" using ok by (rule table_ok_half)
  obtain k where k: "tsize t = NODE_TABLE_MIN_SIZE * 2 ^ k" using ok by (auto simp: table_ok_def)
  let ?t = "node_table_resize rok t"
  have t: "tsize ?t = 2 * tsize t" "tsplit ?t = 0" "\<And>i. arr ?t i = (if i < tsize t then arr t i else if i < 2 * tsize t then Some [] else None)"
    using True by (simp_all add: node_table_resize_def Let_def)
  have b: "bucket ?t h = bucket t h" for h
    using bucket_eq [of ?t "tsize t" h] bucket_eq [OF m, of h] t m s by simp
  then have mem: "members hf S ?t = members hf S t" by (simp add: members_def fun_eq_iff)
  moreover have "members hf S t i = {}" if "\<not> i < tsize t" for i using bucket_less [OF ok] that by (auto simp: members_def)
  moreover have "tsize ?t = NODE_TABLE_MIN_SIZE * 2 ^ Suc k" using t(1) k by simp
  ultimately show ?thesis using ok t by (auto simp: table_ok_def simp del: power_Suc)
qed (use ok in \<open>simp add: node_table_resize_def\<close>)

text \<open>Splitting the chain \<open>s\<close>.\<close>

lemma rehash_loop_ok:
  assumes "tsize t = 2 * m" and "0 < m" and "tsplit t = Suc s" and "Suc s \<le> m" and "arr t (s + m) = Some c"
    and "\<forall>a \<in> set as. \<exists>h. hf a = Some h \<and> h mod m = s"
  shows "rehash_loop hf s as t = Some ([a \<leftarrow> as. the (hf a) mod (2 * m) = s],
    t\<lparr>arr := (arr t)(s + m \<mapsto> rev [a \<leftarrow> as. the (hf a) mod (2 * m) \<noteq> s] @ c)\<rparr>)"
  using assms
proof (induction as arbitrary: t c)
  case (Cons a as)
  obtain h where h: "hf a = Some h" "h mod m = s" using Cons.prems(6) by auto
  note b = bucket_split [OF Cons.prems(1-4), of h]
  have t: "table_hash t h = Some (bucket t h)" using Cons.prems(1,2) by (simp add: table_hash_def)
  show ?case
  proof (cases "h mod (2 * m) = s")
    case True
    then show ?thesis using Cons h b t by simp
  next
    case False
    then have "bucket t h = s + m" "s + m \<noteq> s" using h b Cons.prems(2) by auto
    then show ?thesis using False Cons.prems h t Cons.IH [of "t\<lparr>arr := (arr t)(s + m \<mapsto> a # c)\<rparr>" "a # c"]
      by (simp del: fun_upd_apply) (simp add: fun_upd_upd)
  qed
next
  case Nil
  then show ?case by (simp add: fun_upd_idem)
qed

lemma filter_parts:
  assumes "set c = A \<union> B" and "\<And>x. x \<in> A \<Longrightarrow> g x = u" and "\<And>x. x \<in> B \<Longrightarrow> g x = v" and "u \<noteq> v"
  shows "set [a \<leftarrow> c. g a = u] = A" and "set (rev [a \<leftarrow> c. g a \<noteq> u]) = B"
  using assms by auto

lemma rehash_ok:
  assumes ok: "table_ok hf S t"
  shows "\<exists>t'. rehash rok hf t = Some t' \<and> table_ok hf S t'"
proof (cases "tsplit t = tsize t div 2")
  case False
  obtain m where m: "tsize t = 2 * m" "0 < m" and "tsplit t \<le> m" using ok by (rule table_ok_half)
  define s where "s = tsplit t"
  have s: "Suc s \<le> m" using False \<open>tsplit t \<le> m\<close> m by (simp add: s_def)
  let ?t = "t\<lparr>tsplit := Suc s\<rparr>"
  have t1: "tsize ?t = 2 * m" "tsplit ?t = Suc s" and t0: "?t\<lparr>tsplit := s\<rparr> = t" using m by (simp_all add: s_def)
  note mem = members_split [OF t1(1) m(2) t1(2) s, of hf S, unfolded t0]
  obtain c where c: "arr t s = Some c" "distinct c" "set c = members hf S t s" by (rule chainE [OF ok, of s]) (use m s in auto)
  obtain c2 where "arr t (s + m) = Some c2" "set c2 = members hf S t (s + m)" by (rule chainE [OF ok, of "s + m"]) (use m s in auto)
  then have c2: "arr t (s + m) = Some []" using mem [of "s + m"] m(2) by auto
  have h: "\<exists>h. hf a = Some h \<and> h mod m = s" if "a \<in> set c" for a
  proof -
    have "a \<in> members hf S t s" using that c(3) by simp
    then obtain h where "hf a = Some h" "bucket t h = s" by (auto simp: members_def)
    then show ?thesis using bucket_split [OF t1(1) m(2) t1(2) s, of h, unfolded t0] by (cases "h mod m = s") auto
  qed
  let ?stay = "[a \<leftarrow> c. the (hf a) mod (2 * m) = s]" and ?go = "rev [a \<leftarrow> c. the (hf a) mod (2 * m) \<noteq> s]"
  let ?t' = "?t\<lparr>arr := (arr t)(s + m \<mapsto> ?go, s \<mapsto> ?stay)\<rparr>"
  have loop: "rehash_loop hf s c ?t = Some (?stay, ?t\<lparr>arr := (arr t)(s + m \<mapsto> ?go)\<rparr>)"
    using rehash_loop_ok [OF t1(1) m(2) t1(2) s, of "[]" c hf] c2 h by simp
  have m1: "the (hf x) mod (2 * m) = s" if "x \<in> members hf S ?t s" for x
    using that bucket_split(2) [OF t1(1) m(2) t1(2) s, of "the (hf x)"] by (clarsimp simp: members_def)
  have m2: "the (hf x) mod (2 * m) = s + m" if "x \<in> members hf S ?t (s + m)" for x
    using that bucket_split(3) [OF t1(1) m(2) t1(2) s, of "the (hf x)"] by (clarsimp simp: members_def)
  have sc: "set c = members hf S ?t s \<union> members hf S ?t (s + m)" using c(3) mem [of s] by simp
  have "set ?stay = members hf S ?t s" "set ?go = members hf S ?t (s + m)"
    using filter_parts [OF sc m1 m2] m(2) by simp_all
  then have "table_ok hf S ?t'"
    using ok m s c(2) t1 mem by (auto simp: table_ok_def)
  then show ?thesis
    using loop c(1) node_table_resize_ok [of hf S ?t' rok] False by (auto simp: rehash_def Let_def s_def)
qed (use ok in \<open>simp add: rehash_def\<close>)

lemma table_insert_ok:
  assumes ok: "table_ok hf S t" and h: "hf a = Some h" and "a \<notin> S"
  obtains t' where "table_insert rok hf h a t = Some t'" and "table_ok hf (insert a S) t'"
proof -
  obtain c where c: "arr t (bucket t h) = Some c" "distinct c" "set c = members hf S t (bucket t h)"
    using ok refl by (rule chain_ok)
  let ?t = "t\<lparr>arr := (arr t)(bucket t h \<mapsto> a # c)\<rparr>"
  have "table_ok hf (insert a S) ?t"
    using ok bucket_less [OF ok] by (rule table_ok_update)
      (use assms c in \<open>auto simp: members_insert, auto simp: members_def table_ok_def\<close>)
  then have "table_ok hf (insert a S) (?t\<lparr>tuse := tuse t + 1\<rparr>)" by (simp add: table_ok_use)
  moreover from this obtain t' where "rehash rok hf (?t\<lparr>tuse := tuse t + 1\<rparr>) = Some t'" "table_ok hf (insert a S) t'"
    using rehash_ok by blast
  ultimately show ?thesis
    using that c(1) table_hash_ok [OF ok, of h] by (cases "tsize t div 2 \<le> tuse t + 1") (auto simp: table_insert_def)
qed

end
