(* ===== verification/Fuse_Nodes.thy ===== *)
theory Fuse_Nodes
  imports Fuse_Table
begin

text \<open>
  The nodes of the FUSE library, \<open>fuse-2.9.3/lib/fuse.c\<close>: the objects that stand for the files known to the
  kernel, found by number in one hash table and by parent and name in another, with a counter of lookups
  by the kernel and a counter of references from there and from their children. Nodes live in a store; the
  list of nodes to be forgotten later is a list of addresses. Reference counters are unbounded, as there
  are fewer than \<open>2^31\<close> nodes; numbers and hashes keep their widths.
\<close>

section \<open>Data\<close>

record node =
  n_id :: nat
  n_gen :: nat
  n_ref :: int
  n_parent :: ptr
  n_name :: "string option"
  n_lookup :: nat
  n_treelock :: int
  n_hidden :: bool
  n_forget :: int

record fuse =
  nodes :: "addr \<rightharpoonup> node"
  name_table :: ntable
  id_table :: ntable
  lru_table :: "addr list"
  fctr :: nat
  generation :: nat
  remember :: int
  nbrk :: addr

text \<open>The answers of the memory allocator, and the time in nanoseconds.\<close>

record env =
  realloc_ok :: "nat \<Rightarrow> bool"
  node_mem :: bool
  name_mem :: bool
  now :: int

definition FUSE_ROOT_ID :: nat where
  "FUSE_ROOT_ID = 1"

definition FUSE_UNKNOWN_INO :: nat where
  "FUSE_UNKNOWN_INO = 0xffffffff"

definition EBUSY :: int where
  "EBUSY = 16"

definition set_node :: "addr \<Rightarrow> node \<Rightarrow> fuse \<Rightarrow> fuse" where
  "set_node a n f = f\<lparr>nodes := (nodes f)(a \<mapsto> n)\<rparr>"

section \<open>Tables\<close>

text \<open>The raw hash values: 32-bit multiplication, and 64-bit polynomial over the name.\<close>

definition raw_id :: "nat \<Rightarrow> nat" where
  "raw_id ino = (ino mod 2 ^ 32 * 2654435761) mod 2 ^ 32"

definition raw_name :: "nat \<Rightarrow> string \<Rightarrow> nat" where
  "raw_name parent name = fold (\<lambda>c hash. (hash * 31 + of_char c) mod 2 ^ 64) name (parent mod 2 ^ 64)"

definition id_raw :: "(addr \<rightharpoonup> node) \<Rightarrow> addr \<Rightarrow> nat option" where
  "id_raw ns a = map_option (\<lambda>n. raw_id (n_id n)) (ns a)"

definition name_raw :: "(addr \<rightharpoonup> node) \<Rightarrow> addr \<Rightarrow> nat option" where
  "name_raw ns a = do {
     n \<leftarrow> ns a;
     p \<leftarrow> n_parent n;
     pn \<leftarrow> ns p;
     nm \<leftarrow> n_name n;
     Some (raw_name (n_id pn) nm) }"

fun find_id :: "(addr \<rightharpoonup> node) \<Rightarrow> nat \<Rightarrow> addr list \<Rightarrow> ptr option" where
  "find_id ns nid [] = Some None"
| "find_id ns nid (a # as) = do { n \<leftarrow> ns a; if n_id n = nid then Some (Some a) else find_id ns nid as }"

definition get_node_nocheck :: "fuse \<Rightarrow> nat \<Rightarrow> ptr option" where
  "get_node_nocheck f nid = do { c \<leftarrow> chain_of (raw_id nid) (id_table f); find_id (nodes f) nid c }"

text \<open>A missing node aborts the program.\<close>

definition get_node :: "fuse \<Rightarrow> nat \<Rightarrow> addr option" where
  "get_node f nid = Option.bind (get_node_nocheck f nid) (\<lambda>r. r)"

definition hash_id :: "env \<Rightarrow> fuse \<Rightarrow> addr \<Rightarrow> fuse option" where
  "hash_id e f a = do {
     n \<leftarrow> nodes f a;
     t \<leftarrow> table_insert (realloc_ok e) (id_raw (nodes f)) (raw_id (n_id n)) a (id_table f);
     Some (f\<lparr>id_table := t\<rparr>) }"

definition unhash_id :: "env \<Rightarrow> fuse \<Rightarrow> addr \<Rightarrow> fuse option" where
  "unhash_id e f a = do {
     n \<leftarrow> nodes f a;
     r \<leftarrow> table_unlink (raw_id (n_id n)) a (id_table f);
     case r of
       None \<Rightarrow> Some f
     | Some t \<Rightarrow> do { t' \<leftarrow> table_drop (realloc_ok e) t; Some (f\<lparr>id_table := t'\<rparr>) } }"

text \<open>
  \<open>hash_name\<close> returns -1 when there is no memory for a name of 32 bytes or more; \<open>node->name\<close> is then \<open>NULL\<close>.
\<close>

definition hash_name :: "env \<Rightarrow> fuse \<Rightarrow> addr \<Rightarrow> nat \<Rightarrow> string \<Rightarrow> (int \<times> fuse) option" where
  "hash_name e f a parentid name = do {
     p \<leftarrow> get_node f parentid;
     n \<leftarrow> nodes f a;
     if \<not> length name < 32 \<and> \<not> name_mem e then Some (- 1, set_node a (n\<lparr>n_name := None\<rparr>) f)
     else do {
       let f1 = set_node a (n\<lparr>n_name := Some name, n_parent := Some p\<rparr>) f;
       pn \<leftarrow> nodes f1 p;
       let f2 = set_node p (pn\<lparr>n_ref := n_ref pn + 1\<rparr>) f1;
       t \<leftarrow> table_insert (realloc_ok e) (name_raw (nodes f2)) (raw_name parentid name) a (name_table f2);
       Some (0, f2\<lparr>name_table := t\<rparr>) } }"

section \<open>References\<close>

definition lru_remove :: "addr \<Rightarrow> fuse \<Rightarrow> fuse" where
  "lru_remove a f = f\<lparr>lru_table := remove1 a (lru_table f)\<rparr>"

definition lru_enabled :: "fuse \<Rightarrow> bool" where
  "lru_enabled f \<longleftrightarrow> remember f > 0"

definition entries :: "ntable \<Rightarrow> nat" where
  "entries t = (\<Sum>i < tsize t. length (case arr t i of None \<Rightarrow> [] | Some c \<Rightarrow> c))"

lemma bucket_bound:
  assumes "table_hash t h = Some i"
  shows "i < tsize t"
proof -
  have "tsize t div 2 \<noteq> 0" "i = bucket t h" using assms by (auto simp: table_hash_def split: if_splits)
  then have "h mod tsize t mod (tsize t div 2) < tsize t div 2" "h mod tsize t < tsize t" by auto
  then show ?thesis using \<open>i = bucket t h\<close> by (auto simp: bucket_def Let_def)
qed

lemma table_unlink_entries:
  assumes "table_unlink h a t = Some (Some t')"
  shows "entries t' < entries t"
proof -
  obtain i c where i: "table_hash t h = Some i" "arr t i = Some c" "a \<in> set c" "t' = t\<lparr>arr := (arr t)(i \<mapsto> remove1 a c)\<rparr>"
    using assms by (auto simp: table_unlink_def bind_eq_Some_conv split: if_splits)
  let ?l = "\<lambda>t j. length (case arr t j of None \<Rightarrow> [] | Some c \<Rightarrow> c)"
  have "(\<Sum>j < tsize t. ?l t' j) < (\<Sum>j < tsize t. ?l t j)"
  proof (rule sum_strict_mono_ex1)
    show "\<forall>j \<in> {..<tsize t}. ?l t' j \<le> ?l t j" using i by (auto simp: length_remove1)
    have "?l t' i < ?l t i" using i length_pos_if_in_set [OF i(3)] by (simp add: length_remove1)
    then show "\<exists>j \<in> {..<tsize t}. ?l t' j < ?l t j" using bucket_bound [OF i(1)] by auto
  qed simp
  then show ?thesis using i(4) by (simp add: entries_def)
qed

lemma set_node_simps [simp]:
  "nodes (set_node a n f) = (nodes f)(a \<mapsto> n)" "name_table (set_node a n f) = name_table f"
  "id_table (set_node a n f) = id_table f" "lru_table (set_node a n f) = lru_table f" "fctr (set_node a n f) = fctr f"
  "generation (set_node a n f) = generation f" "remember (set_node a n f) = remember f" "nbrk (set_node a n f) = nbrk f"
  by (simp_all add: set_node_def)

text \<open>
  Dropping a reference, deleting a node and taking its name away call one another along the parents. Every
  round takes an entry out of the table of names.
\<close>

function unref_node :: "env \<Rightarrow> fuse \<Rightarrow> addr \<Rightarrow> fuse option"
  and delete_node :: "env \<Rightarrow> fuse \<Rightarrow> addr \<Rightarrow> fuse option"
  and unhash_name :: "env \<Rightarrow> fuse \<Rightarrow> addr \<Rightarrow> fuse option"
where
  "unref_node e f a = do {
     n \<leftarrow> nodes f a;
     if \<not> n_ref n > 0 then None
     else let f1 = set_node a (n\<lparr>n_ref := n_ref n - 1\<rparr>) f
          in if n_ref n - 1 = 0 then delete_node e f1 a else Some f1 }"
| "delete_node e f a = do {
     n \<leftarrow> nodes f a;
     if n_treelock n \<noteq> 0 then None
     else do {
       f1 \<leftarrow> unhash_name e f a;
       f2 \<leftarrow> unhash_id e (if lru_enabled f1 then lru_remove a f1 else f1) a;
       Some (f2\<lparr>nodes := (nodes f2)(a := None)\<rparr>) } }"
| "unhash_name e f a = do {
     n \<leftarrow> nodes f a;
     case n_name n of
       None \<Rightarrow> Some f
     | Some nm \<Rightarrow> do {
         p \<leftarrow> n_parent n;
         pn \<leftarrow> nodes f p;
         r \<leftarrow> table_unlink (raw_name (n_id pn) nm) a (name_table f);
         case r of
           None \<Rightarrow> None
         | Some t \<Rightarrow> do {
             f1 \<leftarrow> unref_node e (f\<lparr>name_table := t\<rparr>) p;
             n1 \<leftarrow> nodes f1 a;
             t' \<leftarrow> table_drop (realloc_ok e) (name_table f1);
             Some ((set_node a (n1\<lparr>n_name := None, n_parent := None\<rparr>) f1)\<lparr>name_table := t'\<rparr>) } } }"
  by pat_completeness auto
termination
  by (relation "measure (\<lambda>x. case x of Inl (e, f, a) \<Rightarrow> 3 * entries (name_table f) + 2
      | Inr (Inl (e, f, a)) \<Rightarrow> 3 * entries (name_table f) + 1 | Inr (Inr (e, f, a)) \<Rightarrow> 3 * entries (name_table f))")
     (auto dest!: table_unlink_entries)

declare unref_node.simps [simp del] delete_node.simps [simp del] unhash_name.simps [simp del]

section \<open>Operations\<close>

text \<open>The next free node number; the loop does not end when all numbers are in use.\<close>

partial_function (option) next_id :: "fuse \<Rightarrow> fuse option" where
  "next_id f = (let c = (fctr f + 1) mod 2 ^ 32;
                    f1 = f\<lparr>fctr := c, generation := (if c = 0 then (generation f + 1) mod 2 ^ 32 else generation f)\<rparr>
                in if c = 0 \<or> c = FUSE_UNKNOWN_INO then next_id f1
                   else Option.bind (get_node_nocheck f1 c) (\<lambda>r. if r \<noteq> None then next_id f1 else Some f1))"

declare next_id.simps [code]

fun find_name :: "(addr \<rightharpoonup> node) \<Rightarrow> nat \<Rightarrow> string \<Rightarrow> addr list \<Rightarrow> ptr option" where
  "find_name ns parent name [] = Some None"
| "find_name ns parent name (a # as) = do {
     n \<leftarrow> ns a;
     p \<leftarrow> n_parent n;
     pn \<leftarrow> ns p;
     if n_id pn = parent then do {
       nm \<leftarrow> n_name n;
       if nm = name then Some (Some a) else find_name ns parent name as }
     else find_name ns parent name as }"

definition lookup_node :: "fuse \<Rightarrow> nat \<Rightarrow> string \<Rightarrow> ptr option" where
  "lookup_node f parent name = do {
     c \<leftarrow> chain_of (raw_name parent name) (name_table f);
     find_name (nodes f) parent name c }"

definition inc_nlookup :: "fuse \<Rightarrow> addr \<Rightarrow> fuse option" where
  "inc_nlookup f a = do {
     n \<leftarrow> nodes f a;
     let n1 = (if n_lookup n = 0 then n\<lparr>n_ref := n_ref n + 1\<rparr> else n);
     Some (set_node a (n1\<lparr>n_lookup := (n_lookup n + 1) mod 2 ^ 64\<rparr>) f) }"

text \<open>A new node is zeroed.\<close>

definition alloc_node :: "fuse \<Rightarrow> addr \<times> fuse" where
  "alloc_node f = (nbrk f,
     (set_node (nbrk f) \<lparr>n_id = 0, n_gen = 0, n_ref = 0, n_parent = None, n_name = None, n_lookup = 0,
        n_treelock = 0, n_hidden = False, n_forget = 0\<rparr> f)\<lparr>nbrk := Suc (nbrk f)\<rparr>)"

definition free_node :: "addr \<Rightarrow> fuse \<Rightarrow> fuse" where
  "free_node a f = f\<lparr>nodes := (nodes f)(a := None)\<rparr>"

definition new_node :: "env \<Rightarrow> fuse \<Rightarrow> nat \<Rightarrow> string \<Rightarrow> (ptr \<times> fuse) option" where
  "new_node e f parent name =
     (if \<not> node_mem e then Some (None, f)
      else let (a, f1) = alloc_node f
           in do {
             f2 \<leftarrow> next_id f1;
             n \<leftarrow> nodes f2 a;
             let f3 = set_node a (n\<lparr>n_id := fctr f2, n_gen := generation f2\<rparr>) f2;
             f4 \<leftarrow> (if remember f3 \<noteq> 0 then inc_nlookup f3 a else Some f3);
             (r, f5) \<leftarrow> hash_name e f4 a parent name;
             if r = - 1 then Some (None, free_node a f5)
             else do {
               f6 \<leftarrow> hash_id e f5 a;
               f7 \<leftarrow> inc_nlookup f6 a;
               Some (Some a, f7) } })"

definition find_node :: "env \<Rightarrow> fuse \<Rightarrow> nat \<Rightarrow> string option \<Rightarrow> (ptr \<times> fuse) option" where
  "find_node e f parent name = do {
     r \<leftarrow> (case name of None \<Rightarrow> map_option Some (get_node f parent) | Some nm \<Rightarrow> lookup_node f parent nm);
     case r of
       None \<Rightarrow> do { nm \<leftarrow> name; new_node e f parent nm }
     | Some a \<Rightarrow> do {
         n \<leftarrow> nodes f a;
         f1 \<leftarrow> inc_nlookup (if lru_enabled f \<and> n_lookup n = 1 then lru_remove a f else f) a;
         Some (Some a, f1) } }"

definition set_forget_time :: "env \<Rightarrow> fuse \<Rightarrow> addr \<Rightarrow> fuse option" where
  "set_forget_time e f a = do {
     n \<leftarrow> nodes f a;
     Some (set_node a (n\<lparr>n_forget := now e\<rparr>) (f\<lparr>lru_table := remove1 a (lru_table f) @ [a]\<rparr>)) }"

text \<open>A call either returns or waits until a path is unlocked.\<close>

datatype 'a blocking = Done 'a | Blocked

definition forget_node :: "env \<Rightarrow> fuse \<Rightarrow> nat \<Rightarrow> nat \<Rightarrow> fuse blocking option" where
  "forget_node e f nid nlookup =
     (if nid = FUSE_ROOT_ID then Some (Done f)
      else do {
        a \<leftarrow> get_node f nid;
        n \<leftarrow> nodes f a;
        if n_lookup n = nlookup \<and> n_treelock n \<noteq> 0 then Some Blocked
        else if \<not> n_lookup n \<ge> nlookup then None
        else let f1 = set_node a (n\<lparr>n_lookup := n_lookup n - nlookup\<rparr>) f
             in map_option Done
                 (if n_lookup n - nlookup = 0 then unref_node e f1 a
                  else if lru_enabled f \<and> n_lookup n - nlookup = 1 then set_forget_time e f1 a
                  else Some f1) })"

definition unlink_fuse_node :: "env \<Rightarrow> fuse \<Rightarrow> addr \<Rightarrow> fuse option" where
  "unlink_fuse_node e f a = do {
     n \<leftarrow> nodes f a;
     if remember f \<noteq> 0 then
       if \<not> n_lookup n > 1 then None
       else unhash_name e (set_node a (n\<lparr>n_lookup := n_lookup n - 1\<rparr>) f) a
     else unhash_name e f a }"

definition remove_fuse_node :: "env \<Rightarrow> fuse \<Rightarrow> nat \<Rightarrow> string \<Rightarrow> fuse option" where
  "remove_fuse_node e f dir name = do {
     r \<leftarrow> lookup_node f dir name;
     case r of None \<Rightarrow> Some f | Some a \<Rightarrow> unlink_fuse_node e f a }"

definition rename_node :: "env \<Rightarrow> fuse \<Rightarrow> nat \<Rightarrow> string \<Rightarrow> nat \<Rightarrow> string \<Rightarrow> bool \<Rightarrow> (int \<times> fuse) option" where
  "rename_node e f olddir oldname newdir newname hide = do {
     r \<leftarrow> lookup_node f olddir oldname;
     newnode \<leftarrow> lookup_node f newdir newname;
     case r of
       None \<Rightarrow> Some (0, f)
     | Some a \<Rightarrow>
         if newnode \<noteq> None \<and> hide then Some (- EBUSY, f)
         else do {
           f1 \<leftarrow> (case newnode of None \<Rightarrow> Some f | Some b \<Rightarrow> unlink_fuse_node e f b);
           f2 \<leftarrow> unhash_name e f1 a;
           (r2, f3) \<leftarrow> hash_name e f2 a newdir newname;
           if r2 = - 1 then Some (- ENOMEM, f3)
           else if hide then do { n \<leftarrow> nodes f3 a; Some (0, set_node a (n\<lparr>n_hidden := True\<rparr>) f3) }
           else Some (0, f3) } }"

text \<open>The part of \<open>fuse_new_common\<close> that creates the tables and the root, when there is memory for them.\<close>

definition new_fuse :: "env \<Rightarrow> int \<Rightarrow> fuse option" where
  "new_fuse e rem = (let (a, f1) = alloc_node \<lparr>nodes = Map.empty, name_table = node_table_init, id_table = node_table_init,
        lru_table = [], fctr = 0, generation = 0, remember = rem, nbrk = 0\<rparr>
     in do {
       n \<leftarrow> nodes f1 a;
       f2 \<leftarrow> inc_nlookup (set_node a (n\<lparr>n_name := Some ''/'', n_parent := None, n_id := FUSE_ROOT_ID\<rparr>) f1) a;
       hash_id e f2 a })"

text \<open>
  \<open>fuse_clean_cache\<close> along the list of nodes to be forgotten, the oldest first.
\<close>

fun clean_loop :: "env \<Rightarrow> addr list \<Rightarrow> fuse \<Rightarrow> fuse option" where
  "clean_loop e [] f = Some f"
| "clean_loop e (a # as) f = do {
     n \<leftarrow> nodes f a;
     if now e - n_forget n \<le> remember f * 1000000000 then Some f
     else if n_lookup n \<noteq> 1 then None
     else if n_ref n > 1 then clean_loop e as f
     else do {
       f1 \<leftarrow> unhash_name e (set_node a (n\<lparr>n_lookup := 0\<rparr>) f) a;
       f2 \<leftarrow> unref_node e f1 a;
       clean_loop e as f2 } }"

definition clean_delay :: "fuse \<Rightarrow> int" where
  "clean_delay f = (let sleep_time = (if 0 \<le> remember f then remember f div 10 else - ((- remember f) div 10))
     in if sleep_time > 3600 then 3600 else if sleep_time < 60 then 60 else sleep_time)"

definition fuse_clean_cache :: "env \<Rightarrow> fuse \<Rightarrow> (int \<times> fuse) option" where
  "fuse_clean_cache e f = map_option (\<lambda>f1. (clean_delay f1, f1)) (clean_loop e (lru_table f) f)"

end
