(* ===== verification/Fuse_Node_Inv.thy ===== *)
theory Fuse_Node_Inv
  imports Fuse_Nodes
begin

text \<open>
  The invariant of the nodes of the FUSE library and its preservation by the operations: both tables hold
  exactly the nodes they should, numbers and names are unique, parents form a forest, and the reference
  counter of a node is the number of its children plus one while the kernel knows it, and never zero. While
  a reference is dropped the invariant has exceptions: nodes that are already out of the table of names
  (\<open>U\<close>), those among them that are being deleted (\<open>K\<close>), and references still to be dropped (\<open>X\<close>).
\<close>

section \<open>The invariant\<close>

definition linked_nodes :: "(addr \<rightharpoonup> node) \<Rightarrow> addr set" where
  "linked_nodes ns = {a. \<exists>n p. ns a = Some n \<and> n_parent n = Some p}"

definition kids :: "addr set \<Rightarrow> (addr \<rightharpoonup> node) \<Rightarrow> addr \<Rightarrow> addr set" where
  "kids U ns p = {a. a \<notin> U \<and> (\<exists>n. ns a = Some n \<and> n_parent n = Some p)}"

definition up :: "(addr \<rightharpoonup> node) \<Rightarrow> (addr \<times> addr) set" where
  "up ns = {(a, p). \<exists>n. ns a = Some n \<and> n_parent n = Some p}"

definition ids_ok :: "(addr \<rightharpoonup> node) \<Rightarrow> bool" where
  "ids_ok ns \<longleftrightarrow> (\<forall>a b n m. ns a = Some n \<longrightarrow> ns b = Some m \<longrightarrow> n_id n = n_id m \<longrightarrow> a = b)"

definition names_ok :: "addr set \<Rightarrow> (addr \<rightharpoonup> node) \<Rightarrow> bool" where
  "names_ok U ns \<longleftrightarrow> (\<forall>a b n m. a \<notin> U \<longrightarrow> b \<notin> U \<longrightarrow> ns a = Some n \<longrightarrow> ns b = Some m \<longrightarrow> n_parent n \<noteq> None \<longrightarrow>
     n_parent n = n_parent m \<longrightarrow> n_name n = n_name m \<longrightarrow> a = b)"

definition node_ok :: "addr set \<Rightarrow> (addr \<rightharpoonup> node) \<Rightarrow> addr \<Rightarrow> node \<Rightarrow> bool" where
  "node_ok U ns a n \<longleftrightarrow> n_treelock n = 0 \<and>
     (n_id n = FUSE_ROOT_ID \<longrightarrow> n_parent n = None \<and> 0 < n_lookup n) \<and>
     (a \<notin> U \<longrightarrow> n_id n \<noteq> FUSE_ROOT_ID \<longrightarrow> (n_parent n = None \<longleftrightarrow> n_name n = None)) \<and>
     (a \<notin> U \<longrightarrow> (\<forall>p. n_parent n = Some p \<longrightarrow> p \<in> dom ns))"

definition ref_ok :: "addr set \<Rightarrow> (addr \<Rightarrow> nat) \<Rightarrow> (addr \<rightharpoonup> node) \<Rightarrow> addr \<Rightarrow> node \<Rightarrow> bool" where
  "ref_ok U X ns a n \<longleftrightarrow> 0 < n_ref n \<and>
     n_ref n = int (card (kids U ns a)) + (if 0 < n_lookup n then 1 else 0) + int (X a)"

definition heap_ok :: "addr set \<Rightarrow> addr set \<Rightarrow> (addr \<Rightarrow> nat) \<Rightarrow> (addr \<rightharpoonup> node) \<Rightarrow> bool" where
  "heap_ok U K X ns \<longleftrightarrow> finite (dom ns) \<and> ids_ok ns \<and> names_ok U ns \<and> acyclic (up ns) \<and>
     (\<forall>a n. ns a = Some n \<longrightarrow> node_ok U ns a n) \<and> (\<forall>a n. ns a = Some n \<longrightarrow> a \<notin> K \<longrightarrow> ref_ok U X ns a n)"

definition lru_ok :: "fuse \<Rightarrow> bool" where
  "lru_ok f \<longleftrightarrow> distinct (lru_table f) \<and> set (lru_table f) \<subseteq> dom (nodes f) \<and> (lru_enabled f \<or> lru_table f = [])"

definition fuse_inv :: "addr set \<Rightarrow> addr set \<Rightarrow> (addr \<Rightarrow> nat) \<Rightarrow> fuse \<Rightarrow> bool" where
  "fuse_inv U K X f \<longleftrightarrow> heap_ok U K X (nodes f) \<and> lru_ok f \<and>
     table_ok (id_raw (nodes f)) (dom (nodes f)) (id_table f) \<and>
     table_ok (name_raw (nodes f)) (linked_nodes (nodes f) - U) (name_table f)"

abbreviation fuse_ok :: "fuse \<Rightarrow> bool" where
  "fuse_ok \<equiv> fuse_inv {} {} (\<lambda>a. 0)"

section \<open>Changes that dropping a reference may make\<close>

text \<open>Nodes without lookups may disappear, and reference counters change; everything else stays.\<close>

definition same_node :: "node \<Rightarrow> node \<Rightarrow> bool" where
  "same_node n n' \<longleftrightarrow> n\<lparr>n_ref := 0\<rparr> = n'\<lparr>n_ref := 0\<rparr>"

definition shrinks :: "addr set \<Rightarrow> fuse \<Rightarrow> fuse \<Rightarrow> bool" where
  "shrinks U f f' \<longleftrightarrow>
     (\<forall>a n'. nodes f' a = Some n' \<longrightarrow> (\<exists>n. nodes f a = Some n \<and> same_node n n')) \<and>
     (\<forall>a n. nodes f a = Some n \<longrightarrow> nodes f' a = None \<longrightarrow> a \<notin> U \<and> n_lookup n = 0) \<and>
     remember f' = remember f \<and> fctr f' = fctr f \<and> generation f' = generation f \<and> nbrk f' = nbrk f"

lemma same_node_refl [simp]: "same_node n n" "same_node n (n\<lparr>n_ref := r\<rparr>)" "same_node (n\<lparr>n_ref := r\<rparr>) n"
  by (simp_all add: same_node_def)

lemma same_nodeD:
  assumes "same_node n n'"
  shows "n_id n' = n_id n" "n_gen n' = n_gen n" "n_parent n' = n_parent n" "n_name n' = n_name n" "n_lookup n' = n_lookup n"
    "n_treelock n' = n_treelock n" "n_hidden n' = n_hidden n" "n_forget n' = n_forget n"
  using assms by (cases n; cases n'; simp add: same_node_def)+

lemma same_node_trans: "same_node a b \<Longrightarrow> same_node b c \<Longrightarrow> same_node a c"
  by (simp add: same_node_def)

lemma shrinks_refl [simp]: "shrinks U f f"
  by (auto simp: shrinks_def)

lemma shrinks_back: "shrinks U f f' \<Longrightarrow> nodes f' a = Some n' \<Longrightarrow> \<exists>n. nodes f a = Some n \<and> same_node n n'"
  by (simp add: shrinks_def)

lemma shrinks_keeps:
  assumes "shrinks U f f'" and "nodes f a = Some n" and "a \<in> U \<or> 0 < n_lookup n"
  obtains n' where "nodes f' a = Some n'" and "same_node n n'"
proof (cases "nodes f' a")
  case None
  then show ?thesis using assms by (auto simp: shrinks_def)
next
  case (Some n')
  then show ?thesis using that shrinks_back [OF assms(1) Some] assms(2) by auto
qed

lemma shrinks_trans:
  assumes a: "shrinks U f g" "shrinks U g h"
  shows "shrinks U f h"
proof -
  have "\<exists>n. nodes f x = Some n \<and> same_node n n'" if "nodes h x = Some n'" for x n'
    using shrinks_back [OF a(2) that] shrinks_back [OF a(1)] same_node_trans by blast
  moreover have "x \<notin> U \<and> n_lookup n = 0" if x: "nodes f x = Some n" "nodes h x = None" for x n
  proof (cases "nodes g x")
    case None
    then show ?thesis using a(1) x(1) by (simp add: shrinks_def)
  next
    case (Some m)
    then have "x \<notin> U \<and> n_lookup m = 0" using a(2) x(2) by (simp add: shrinks_def)
    then show ?thesis using shrinks_back [OF a(1) Some] x(1) by (auto dest: same_nodeD(5))
  qed
  ultimately show ?thesis using a by (simp add: shrinks_def)
qed

lemma shrinks_up: "shrinks U f f' \<Longrightarrow> up (nodes f') \<subseteq> up (nodes f)"
  by (auto simp: up_def dest!: shrinks_back dest: same_nodeD(3))

lemma shrinks_kids: "shrinks U f f' \<Longrightarrow> kids V (nodes f') p \<subseteq> kids V (nodes f) p"
  by (auto simp: kids_def dest!: shrinks_back dest: same_nodeD(3))

section \<open>Heaps\<close>

text \<open>A change of one node that keeps its number, parent and name.\<close>

lemma linked_upd: "ns a = Some n \<Longrightarrow> n_parent n' = n_parent n \<Longrightarrow> linked_nodes (ns(a \<mapsto> n')) = linked_nodes ns"
  by (auto simp: linked_nodes_def)

lemma kids_upd: "ns a = Some n \<Longrightarrow> n_parent n' = n_parent n \<Longrightarrow> kids U (ns(a \<mapsto> n')) = kids U ns"
  by (auto simp: kids_def fun_eq_iff)

lemma up_upd: "ns a = Some n \<Longrightarrow> n_parent n' = n_parent n \<Longrightarrow> up (ns(a \<mapsto> n')) = up ns"
  by (auto simp: up_def split: if_splits)

lemma id_raw_upd: "ns a = Some n \<Longrightarrow> n_id n' = n_id n \<Longrightarrow> id_raw (ns(a \<mapsto> n')) = id_raw ns"
  by (auto simp: id_raw_def fun_eq_iff)

lemma name_raw_upd:
  "ns a = Some n \<Longrightarrow> n_id n' = n_id n \<Longrightarrow> n_parent n' = n_parent n \<Longrightarrow> n_name n' = n_name n \<Longrightarrow>
    name_raw (ns(a \<mapsto> n')) = name_raw ns"
  by (auto simp: name_raw_def fun_eq_iff split: bind_splits)

lemma heap_ok_upd:
  assumes ok: "heap_ok U K X ns" and a: "ns a = Some n" and same: "n_id n' = n_id n" "n_parent n' = n_parent n" "n_name n' = n_name n"
    "n_treelock n' = n_treelock n" and root: "n_id n = FUSE_ROOT_ID \<Longrightarrow> 0 < n_lookup n'"
    and ref: "a \<notin> K' \<Longrightarrow> ref_ok U X' ns a n'" and X: "\<And>b. b \<noteq> a \<Longrightarrow> X' b = X b" and K: "\<And>b. b \<noteq> a \<Longrightarrow> b \<in> K \<Longrightarrow> b \<in> K'"
  shows "heap_ok U K' X' (ns(a \<mapsto> n'))"
proof -
  have "dom (ns(a \<mapsto> n')) = dom ns" using a by auto
  moreover have "ids_ok (ns(a \<mapsto> n'))" using ok a same(1) unfolding heap_ok_def ids_ok_def by (metis fun_upd_apply option.inject)
  moreover have "names_ok U (ns(a \<mapsto> n'))" using ok a same(2,3) unfolding heap_ok_def names_ok_def by (metis fun_upd_apply option.inject)
  moreover have "node_ok U (ns(a \<mapsto> n')) b m" if "(ns(a \<mapsto> n')) b = Some m" for b m
    using that ok a same root \<open>dom (ns(a \<mapsto> n')) = dom ns\<close>
    unfolding heap_ok_def node_ok_def by (cases "b = a") auto
  moreover have "ref_ok U X' (ns(a \<mapsto> n')) b m" if "(ns(a \<mapsto> n')) b = Some m" "b \<notin> K'" for b m
  proof (cases "b = a")
    case True
    then show ?thesis using that ref kids_upd [of ns a n n' U, OF a same(2)] by (auto simp: ref_ok_def)
  next
    case False
    then have "b \<notin> K" using K that by blast
    then have "ref_ok U X ns b m" using ok that False by (simp add: heap_ok_def)
    then show ?thesis using X [OF False] by (simp add: ref_ok_def kids_upd [of ns a n n', OF a same(2)])
  qed
  ultimately show ?thesis using ok by (auto simp: heap_ok_def up_upd [of ns a n n', OF a same(2)])
qed

lemma fuse_inv_upd:
  assumes "fuse_inv U K X f" and a: "nodes f a = Some n" and same: "n_id n' = n_id n" "n_parent n' = n_parent n"
    "n_name n' = n_name n" "n_treelock n' = n_treelock n" and "n_id n = FUSE_ROOT_ID \<Longrightarrow> 0 < n_lookup n'"
    and "a \<notin> K' \<Longrightarrow> ref_ok U X' (nodes f) a n'" and "\<And>b. b \<noteq> a \<Longrightarrow> X' b = X b" and "\<And>b. b \<noteq> a \<Longrightarrow> b \<in> K \<Longrightarrow> b \<in> K'"
  shows "fuse_inv U K' X' (set_node a n' f)"
proof -
  have "heap_ok U K' X' (nodes (set_node a n' f))"
    using heap_ok_upd [of U K X "nodes f" a n n' K' X'] assms by (simp add: fuse_inv_def)
  moreover have "lru_ok (set_node a n' f)" using assms(1) a by (auto simp: fuse_inv_def lru_ok_def lru_enabled_def)
  moreover have "dom ((nodes f)(a \<mapsto> n')) = dom (nodes f)" using a by auto
  ultimately show ?thesis using assms(1)
    by (simp add: fuse_inv_def id_raw_upd [of "nodes f" a n n', OF a same(1)] linked_upd [of "nodes f" a n n', OF a same(2)]
        name_raw_upd [of "nodes f" a n n', OF a same(1,2,3)])
qed

text \<open>Taking a node out of the table of names.\<close>

lemma kids_insert: "kids (insert a U) ns p = kids U ns p - {a}"
  by (auto simp: kids_def)

lemma finite_kids: "finite (dom ns) \<Longrightarrow> finite (kids U ns p)"
  by (rule finite_subset [of _ "dom ns"]) (auto simp: kids_def)

lemma heap_ok_detach:
  assumes ok: "heap_ok U K X ns" and a: "a \<notin> U" "ns a = Some n" "n_parent n = Some q"
    and K': "K' = K \<or> K' = insert a K"
  shows "heap_ok (insert a U) K' (X(q := Suc (X q))) ns"
proof -
  have card: "card (kids U ns q) = Suc (card (kids (insert a U) ns q))"
  proof -
    have "a \<in> kids U ns q" using a by (simp add: kids_def)
    moreover have "finite (kids U ns q)" using ok by (simp add: heap_ok_def finite_kids)
    ultimately show ?thesis using card_Suc_Diff1 [of "kids U ns q" a] by (simp add: kids_insert)
  qed
  have other: "kids (insert a U) ns b = kids U ns b" if "b \<noteq> q" for b
    using that a by (auto simp: kids_def)
  have "ref_ok (insert a U) (X(q := Suc (X q))) ns b m" if "ns b = Some m" "b \<notin> K'" for b m
  proof -
    have "ref_ok U X ns b m" using ok that K' by (auto simp: heap_ok_def)
    then show ?thesis using card other by (cases "b = q") (simp_all add: ref_ok_def)
  qed
  moreover have "node_ok (insert a U) ns b m" if "ns b = Some m" for b m
    using ok that by (auto simp: heap_ok_def node_ok_def)
  moreover have "names_ok (insert a U) ns" using ok unfolding heap_ok_def names_ok_def by blast
  ultimately show ?thesis using ok by (simp add: heap_ok_def)
qed

text \<open>Clearing the name and the parent of such a node.\<close>

lemma heap_ok_clear:
  assumes ok: "heap_ok (insert a U) K X ns" and a: "ns a = Some n" "a \<notin> U"
    and n': "n' = n\<lparr>n_name := None, n_parent := None\<rparr>" and root: "n_id n \<noteq> FUSE_ROOT_ID"
  shows "heap_ok U K X (ns(a \<mapsto> n'))"
proof -
  have kids: "kids U (ns(a \<mapsto> n')) p = kids (insert a U) ns p" for p using a n' by (auto simp: kids_def)
  have d: "dom (ns(a \<mapsto> n')) = dom ns" using a by auto
  have "ids_ok (ns(a \<mapsto> n'))"
    using ok a n' unfolding heap_ok_def ids_ok_def by (auto split: if_splits)
  moreover have "names_ok U (ns(a \<mapsto> n'))"
    using ok a n' unfolding heap_ok_def names_ok_def by (auto split: if_splits)
  moreover have "up (ns(a \<mapsto> n')) \<subseteq> up ns" using n' by (auto simp: up_def split: if_splits)
  moreover have "node_ok U (ns(a \<mapsto> n')) b m" if "(ns(a \<mapsto> n')) b = Some m" for b m
    using that ok a n' root d unfolding heap_ok_def node_ok_def by (cases "b = a") auto
  moreover have "ref_ok U X (ns(a \<mapsto> n')) b m" if "(ns(a \<mapsto> n')) b = Some m" "b \<notin> K" for b m
  proof (cases "b = a")
    case True
    then have "ref_ok (insert a U) X ns a n" using ok a that by (simp add: heap_ok_def)
    moreover have "m = n\<lparr>n_name := None, n_parent := None\<rparr>" using True that n' by simp
    ultimately show ?thesis using True kids [of a] by (simp add: ref_ok_def)
  next
    case False
    then have "ref_ok (insert a U) X ns b m" using ok that by (simp add: heap_ok_def)
    then show ?thesis by (simp add: ref_ok_def kids)
  qed
  ultimately show ?thesis using ok d acyclic_subset [of "up ns"] by (auto simp: heap_ok_def)
qed

text \<open>Removing a node without children.\<close>

lemma heap_ok_free:
  assumes ok: "heap_ok U (insert a K) X ns" and a: "a \<notin> U" "kids U ns a = {}" and pa: "\<And>n. ns a = Some n \<Longrightarrow> n_parent n = None"
  shows "heap_ok U K X (ns(a := None))"
proof -
  have kids: "kids U (ns(a := None)) p = kids U ns p" for p using pa by (auto simp: kids_def)
  have "ids_ok (ns(a := None))" using ok unfolding heap_ok_def ids_ok_def by (auto split: if_splits)
  moreover have "names_ok U (ns(a := None))" using ok unfolding heap_ok_def names_ok_def by (auto split: if_splits)
  moreover have "up (ns(a := None)) \<subseteq> up ns" by (auto simp: up_def split: if_splits)
  moreover have "node_ok U (ns(a := None)) b m" if "(ns(a := None)) b = Some m" for b m
  proof -
    have b: "b \<noteq> a" "ns b = Some m" using that by (auto split: if_splits)
    then have "b \<notin> U \<longrightarrow> n_parent m \<noteq> Some a" using a(2) by (auto simp: kids_def)
    then show ?thesis using b ok by (fastforce simp: heap_ok_def node_ok_def)
  qed
  moreover have "ref_ok U X (ns(a := None)) b m" if "(ns(a := None)) b = Some m" "b \<notin> K" for b m
  proof -
    have "ref_ok U X ns b m" using ok that by (auto simp: heap_ok_def split: if_splits)
    then show ?thesis by (simp add: ref_ok_def kids)
  qed
  moreover have "finite (dom (ns(a := None)))" using ok by (auto simp: heap_ok_def)
  ultimately show ?thesis using acyclic_subset [of "up ns"] ok by (auto simp: heap_ok_def)
qed

lemma name_raw_ok:
  assumes "heap_ok U K X ns" and "ns a = Some n" and "n_parent n = Some p" and "a \<notin> U"
  obtains pn nm where "ns p = Some pn" and "n_name n = Some nm" and "name_raw ns a = Some (raw_name (n_id pn) nm)"
proof -
  have "node_ok U ns a n" using assms by (simp add: heap_ok_def)
  then obtain pn nm where "ns p = Some pn" "n_name n = Some nm"
    using assms(3,4) by (auto simp: node_ok_def)
  then show ?thesis using that assms by (simp add: name_raw_def)
qed

text \<open>The state in which the parent of an unhashed node loses its reference.\<close>

lemma detach:
  assumes inv: "fuse_inv U K X f" and a: "a \<notin> U" "nodes f a = Some n" "n_parent n = Some q" and K': "K' = K \<or> K' = insert a K"
  obtains pn nm t where "nodes f q = Some pn" and "n_name n = Some nm"
    and "table_unlink (raw_name (n_id pn) nm) a (name_table f) = Some (Some t)"
    and "fuse_inv (insert a U) K' (X(q := Suc (X q))) (f\<lparr>name_table := t\<rparr>)"
proof -
  have ok: "heap_ok U K X (nodes f)" using inv by (simp add: fuse_inv_def)
  obtain pn nm where p: "nodes f q = Some pn" "n_name n = Some nm" "name_raw (nodes f) a = Some (raw_name (n_id pn) nm)"
    using ok a(2,3,1) by (rule name_raw_ok)
  have l: "a \<in> linked_nodes (nodes f) - U" using a by (simp add: linked_nodes_def)
  obtain t where t: "table_unlink (raw_name (n_id pn) nm) a (name_table f) = Some (Some t)"
      "table_ok (name_raw (nodes f)) (linked_nodes (nodes f) - U - {a}) t"
    by (rule table_unlink_ok [of "name_raw (nodes f)" "linked_nodes (nodes f) - U" "name_table f", OF _ p(3) l])
       (use inv in \<open>auto simp: fuse_inv_def\<close>)
  have "linked_nodes (nodes f) - insert a U = linked_nodes (nodes f) - U - {a}" by auto
  then have "fuse_inv (insert a U) K' (X(q := Suc (X q))) (f\<lparr>name_table := t\<rparr>)"
    using inv t(2) heap_ok_detach [OF ok a K'] by (simp add: fuse_inv_def lru_ok_def lru_enabled_def)
  then show ?thesis using that p t(1) by blast
qed

text \<open>After that the node has neither name nor parent.\<close>

lemma clear:
  assumes inv: "fuse_inv (insert a U) K X f" and a: "nodes f a = Some n" "a \<notin> U" and root: "n_id n \<noteq> FUSE_ROOT_ID"
  obtains t where "table_drop rok (name_table f) = Some t"
    and "fuse_inv U K X ((set_node a (n\<lparr>n_name := None, n_parent := None\<rparr>) f)\<lparr>name_table := t\<rparr>)"
proof -
  let ?n = "n\<lparr>n_name := None, n_parent := None\<rparr>" and ?ns = "nodes f"
  have l: "linked_nodes (?ns(a \<mapsto> ?n)) - U = linked_nodes ?ns - insert a U" by (auto simp: linked_nodes_def split: if_splits)
  obtain t where t: "table_drop rok (name_table f) = Some t" "table_ok (name_raw ?ns) (linked_nodes ?ns - insert a U) t"
    using inv table_drop_ok [of "name_raw ?ns" "linked_nodes ?ns - insert a U" "name_table f" rok] by (auto simp: fuse_inv_def)
  have "name_raw (?ns(a \<mapsto> ?n)) b = name_raw ?ns b" if "b \<in> linked_nodes ?ns - insert a U" for b
    using that a by (auto simp: name_raw_def linked_nodes_def)
  then have "table_ok (name_raw (?ns(a \<mapsto> ?n))) (linked_nodes (?ns(a \<mapsto> ?n)) - U) t"
    using table_ok_hf [OF t(2)] by (simp add: l)
  moreover have "heap_ok U K X (?ns(a \<mapsto> ?n))" using inv heap_ok_clear [of a U K X ?ns n ?n] a root by (auto simp: fuse_inv_def)
  moreover have "dom (?ns(a \<mapsto> ?n)) = dom ?ns" using a by auto
  moreover have "lru_ok ((set_node a ?n f)\<lparr>name_table := t\<rparr>)" using inv a by (auto simp: fuse_inv_def lru_ok_def lru_enabled_def)
  ultimately show ?thesis using that t(1) inv by (simp add: fuse_inv_def id_raw_upd [of ?ns a n ?n, OF a(1)])
qed

text \<open>Freeing a node without children, name and parent.\<close>

lemma free:
  assumes inv: "fuse_inv U (insert a K) X f" and a: "nodes f a = Some n" "n_parent n = None" "a \<notin> U" and "kids U (nodes f) a = {}"
  obtains f' where "unhash_id e (if lru_enabled f then lru_remove a f else f) a = Some f'"
    and "fuse_inv U K X (f'\<lparr>nodes := (nodes f')(a := None)\<rparr>)"
    and "nodes f' = nodes f" "remember f' = remember f" "fctr f' = fctr f" "generation f' = generation f" "nbrk f' = nbrk f"
proof -
  let ?ns = "nodes f" and ?g = "if lru_enabled f then lru_remove a f else f"
  have g: "nodes ?g = ?ns" "id_table ?g = id_table f" "name_table ?g = name_table f" "remember ?g = remember f"
    "fctr ?g = fctr f" "generation ?g = generation f" "nbrk ?g = nbrk f"
    by (simp_all add: lru_remove_def)
  obtain t where t: "table_unlink (raw_id (n_id n)) a (id_table f) = Some (Some t)" "table_ok (id_raw ?ns) (dom ?ns - {a}) t"
    by (rule table_unlink_ok [of "id_raw ?ns" "dom ?ns" "id_table f" a "raw_id (n_id n)"])
       (use inv a in \<open>auto simp: fuse_inv_def id_raw_def\<close>)
  obtain t' where t': "table_drop (realloc_ok e) t = Some t'" "table_ok (id_raw ?ns) (dom ?ns - {a}) t'"
    using table_drop_ok [OF t(2)] by blast
  have u: "unhash_id e ?g a = Some (?g\<lparr>id_table := t'\<rparr>)"
    using a t(1) t'(1) g(1,2) by (simp add: unhash_id_def)
  have "table_ok (id_raw (?ns(a := None))) (dom (?ns(a := None))) t'"
    using table_ok_hf [OF t'(2), of "id_raw (?ns(a := None))"] by (simp add: id_raw_def)
  moreover have l: "linked_nodes (?ns(a := None)) = linked_nodes ?ns" using a by (auto simp: linked_nodes_def)
  moreover have nr: "name_raw (?ns(a := None)) b = name_raw ?ns b" if "b \<in> linked_nodes ?ns - U" for b
    using that a(1,2) assms(5) by (auto simp: name_raw_def linked_nodes_def kids_def split: bind_splits)
  have tn: "table_ok (name_raw ?ns) (linked_nodes ?ns - U) (name_table f)" using inv unfolding fuse_inv_def by blast
  have "table_ok (name_raw (?ns(a := None))) (linked_nodes ?ns - U) (name_table f)"
    using tn nr by (rule table_ok_hf)
  moreover have "heap_ok U K X (?ns(a := None))"
    using inv heap_ok_free [of U a K X ?ns] a assms(5) by (simp add: fuse_inv_def)
  moreover have "distinct (lru_table ?g)" "set (lru_table ?g) \<subseteq> dom ?ns - {a}" "lru_enabled f \<or> lru_table ?g = []"
    using inv by (auto simp: fuse_inv_def lru_ok_def lru_remove_def)
  ultimately have "fuse_inv U K X (?g\<lparr>id_table := t', nodes := ?ns(a := None)\<rparr>)"
    using g by (simp add: fuse_inv_def lru_ok_def lru_enabled_def)
  then show ?thesis using that [OF u] g by simp
qed

section \<open>Dropping a reference\<close>

text \<open>What taking away the name of a node does: its name and parent are cleared, and references are dropped.\<close>

definition unhashed :: "addr set \<Rightarrow> addr \<Rightarrow> fuse \<Rightarrow> fuse \<Rightarrow> bool" where
  "unhashed U a f f' \<longleftrightarrow> (\<exists>g n. shrinks (insert a U) f g \<and> nodes g a = Some n \<and>
     nodes f' = (nodes g)(a \<mapsto> n\<lparr>n_name := None, n_parent := None\<rparr>) \<and>
     remember f' = remember f \<and> fctr f' = fctr f \<and> generation f' = generation f \<and> nbrk f' = nbrk f)"

lemma unhash_step:
  assumes inv: "fuse_inv U K X f" and a: "nodes f a = Some n" "n_parent n = Some q" "a \<notin> U" and root: "n_id n \<noteq> FUSE_ROOT_ID"
    and unref: "\<And>g. fuse_inv (insert a U) K (X(q := Suc (X q))) g \<Longrightarrow> nodes g = nodes f \<Longrightarrow>
      entries (name_table g) < entries (name_table f) \<Longrightarrow>
      \<exists>f'. unref_node e g q = Some f' \<and> fuse_inv (insert a U) K X f' \<and> shrinks (insert a U) g f'"
  obtains f' where "unhash_name e f a = Some f'" and "fuse_inv U K X f'" and "unhashed U a f f'"
proof -
  obtain pn nm t where d: "nodes f q = Some pn" "n_name n = Some nm"
      "table_unlink (raw_name (n_id pn) nm) a (name_table f) = Some (Some t)"
      "fuse_inv (insert a U) K (X(q := Suc (X q))) (f\<lparr>name_table := t\<rparr>)"
    using inv a(3,1,2) disjI1 [OF refl] by (rule detach)
  obtain g where g: "unref_node e (f\<lparr>name_table := t\<rparr>) q = Some g" "fuse_inv (insert a U) K X g"
      "shrinks (insert a U) (f\<lparr>name_table := t\<rparr>) g"
    using unref [OF d(4)] table_unlink_entries [OF d(3)] by auto
  obtain n' where n': "nodes g a = Some n'" "same_node n n'" using shrinks_keeps [OF g(3), of a n] a by auto
  obtain t' where t': "table_drop (realloc_ok e) (name_table g) = Some t'"
      "fuse_inv U K X ((set_node a (n'\<lparr>n_name := None, n_parent := None\<rparr>) g)\<lparr>name_table := t'\<rparr>)"
    using g(2) n'(1) a(3) by (rule clear) (use root n'(2) same_nodeD(1) in auto)
  let ?f = "(set_node a (n'\<lparr>n_name := None, n_parent := None\<rparr>) g)\<lparr>name_table := t'\<rparr>"
  have "shrinks (insert a U) f g" using g(3) by (simp add: shrinks_def)
  then have "unhashed U a f ?f" unfolding unhashed_def
    by (intro exI [of _ g] exI [of _ n']) (use n'(1) in \<open>simp add: shrinks_def\<close>)
  moreover have "unhash_name e f a = Some ?f"
    using a d g(1) n'(1) t'(1) by (simp add: unhash_name.simps [of e f a])
  ultimately show ?thesis using that t'(2) by blast
qed

lemma unhashed_kids: "unhashed U a f f' \<Longrightarrow> kids V (nodes f') p \<subseteq> kids V (nodes f) p"
  unfolding unhashed_def by (force simp: kids_def dest!: shrinks_back dest: same_nodeD(3) split: if_splits)

lemma unhashed_up: "unhashed U a f f' \<Longrightarrow> up (nodes f') \<subseteq> up (nodes f)"
  unfolding unhashed_def by (force simp: up_def dest!: shrinks_back dest: same_nodeD(3) split: if_splits)

lemma unhashed_self:
  assumes "unhashed U a f f'" and "nodes f a = Some n"
  shows "\<exists>r. nodes f' a = Some (n\<lparr>n_name := None, n_parent := None, n_ref := r\<rparr>)"
proof -
  obtain g m where g: "shrinks (insert a U) f g" "nodes g a = Some m" "nodes f' a = Some (m\<lparr>n_name := None, n_parent := None\<rparr>)"
    using assms(1) by (auto simp: unhashed_def)
  have "same_node n m" using shrinks_back [OF g(1,2)] assms(2) by auto
  then have "m\<lparr>n_name := None, n_parent := None\<rparr> = n\<lparr>n_name := None, n_parent := None, n_ref := n_ref m\<rparr>"
    by (cases n; cases m) (simp add: same_node_def)
  then show ?thesis using g(3) by auto
qed

text \<open>Deleting a node that has lost its last reference.\<close>

lemma shrinks_delete:
  assumes f1: "nodes f1 = (nodes f)(p \<mapsto> n1)" "nodes f p = Some n" "same_node n n1" "n_lookup n = 0" "p \<notin> U"
    and g: "shrinks (insert p U) f1 g" and f': "\<And>a. a \<noteq> p \<Longrightarrow> nodes f' a = nodes g a" "nodes f' p = None"
    and rest: "remember f' = remember f" "fctr f' = fctr f" "generation f' = generation f" "nbrk f' = nbrk f"
  shows "shrinks U f f'"
proof -
  have "\<exists>m. nodes f a = Some m \<and> same_node m m'" if "nodes f' a = Some m'" for a m'
  proof -
    have "a \<noteq> p" "nodes g a = Some m'" using that f' by (cases "a = p"; simp)+
    then show ?thesis using shrinks_back [OF g, of a m'] f1(1) by simp
  qed
  moreover have "a \<notin> U \<and> n_lookup m = 0" if "nodes f a = Some m" "nodes f' a = None" for a m
  proof (cases "a = p")
    case True
    then show ?thesis using that f1 by simp
  next
    case False
    then have "nodes f1 a = Some m" "nodes g a = None" using that f1(1) f'(1) by simp_all
    then show ?thesis using g by (simp add: shrinks_def)
  qed
  ultimately show ?thesis using rest by (simp add: shrinks_def)
qed

lemma last_reference:
  assumes "heap_ok U K (X(p := Suc (X p))) ns" and "ns p = Some n" and "p \<notin> K" and "n_ref n - 1 = 0"
  shows "kids U ns p = {}" and "n_lookup n = 0" and "n_id n \<noteq> FUSE_ROOT_ID"
proof -
  have "ref_ok U (X(p := Suc (X p))) ns p n" and node: "node_ok U ns p n" and "finite (dom ns)"
    using assms by (auto simp: heap_ok_def)
  then have "card (kids U ns p) = 0" and l: "n_lookup n = 0" using assms(4) by (auto simp: ref_ok_def split: if_splits)
  then show "kids U ns p = {}" using finite_kids [OF \<open>finite (dom ns)\<close>] by simp
  show "n_lookup n = 0" by (fact l)
  then show "n_id n \<noteq> FUSE_ROOT_ID" using node by (auto simp: node_ok_def)
qed

lemma delete_ok:
  assumes inv: "fuse_inv U (insert p K) X f1" and p: "nodes f1 p = Some n1" "p \<notin> U" and kids: "kids U (nodes f1) p = {}"
    and n1: "n_lookup n1 = 0" "n_id n1 \<noteq> FUSE_ROOT_ID"
    and f: "nodes f1 = (nodes f)(p \<mapsto> n1)" "nodes f p = Some n" "same_node n n1"
      "remember f1 = remember f" "fctr f1 = fctr f" "generation f1 = generation f" "nbrk f1 = nbrk f"
    and unref: "\<And>q g. n_parent n1 = Some q \<Longrightarrow> fuse_inv (insert p U) (insert p K) (X(q := Suc (X q))) g \<Longrightarrow>
      nodes g = nodes f1 \<Longrightarrow> entries (name_table g) < entries (name_table f1) \<Longrightarrow>
      \<exists>f'. unref_node e g q = Some f' \<and> fuse_inv (insert p U) (insert p K) X f' \<and> shrinks (insert p U) g f'"
  shows "\<exists>f'. delete_node e f1 p = Some f' \<and> fuse_inv U K X f' \<and> shrinks U f f'"
proof -
  have node: "node_ok U (nodes f1) p n1" using inv p by (simp add: fuse_inv_def heap_ok_def)
  have "\<exists>f2 n2 g. unhash_name e f1 p = Some f2 \<and> fuse_inv U (insert p K) X f2 \<and> nodes f2 p = Some n2 \<and> n_parent n2 = None \<and>
      kids U (nodes f2) p = {} \<and> shrinks (insert p U) f1 g \<and> (\<forall>a. a \<noteq> p \<longrightarrow> nodes f2 a = nodes g a) \<and>
      remember f2 = remember f \<and> fctr f2 = fctr f \<and> generation f2 = generation f \<and> nbrk f2 = nbrk f"
  proof (cases "n_parent n1")
    case None
    then have "n_name n1 = None" using node p(2) n1(2) by (simp add: node_ok_def)
    then have "unhash_name e f1 p = Some f1" using p(1) by (simp add: unhash_name.simps [of e f1 p])
    then show ?thesis using inv p(1) None kids f
      by (intro exI [of _ f1] exI [of _ n1]) (auto intro!: exI [of _ f1])
  next
    case (Some q)
    obtain f2 where f2: "unhash_name e f1 p = Some f2" "fuse_inv U (insert p K) X f2" "unhashed U p f1 f2"
      using inv p(1) Some p(2) n1(2) unref [OF Some] by (rule unhash_step)
    moreover have "kids U (nodes f2) p = {}" using unhashed_kids [OF f2(3), of U p] kids by auto
    moreover obtain g n' where "shrinks (insert p U) f1 g" "nodes f2 = (nodes g)(p \<mapsto> n'\<lparr>n_name := None, n_parent := None\<rparr>)"
        "remember f2 = remember f1" "fctr f2 = fctr f1" "generation f2 = generation f1" "nbrk f2 = nbrk f1"
      using f2(3) by (auto simp: unhashed_def)
    ultimately show ?thesis using f(4-) by (intro exI [of _ f2] exI [of _ "n'\<lparr>n_name := None, n_parent := None\<rparr>"] exI [of _ g]) auto
  qed
  then obtain f2 n2 g where f2: "unhash_name e f1 p = Some f2" "fuse_inv U (insert p K) X f2" "nodes f2 p = Some n2"
      "n_parent n2 = None" "kids U (nodes f2) p = {}" "shrinks (insert p U) f1 g" "\<And>a. a \<noteq> p \<Longrightarrow> nodes f2 a = nodes g a"
      "remember f2 = remember f" "fctr f2 = fctr f" "generation f2 = generation f" "nbrk f2 = nbrk f" by blast
  obtain f3 where f3: "unhash_id e (if lru_enabled f2 then lru_remove p f2 else f2) p = Some f3"
      "fuse_inv U K X (f3\<lparr>nodes := (nodes f3)(p := None)\<rparr>)" "nodes f3 = nodes f2" "remember f3 = remember f2"
      "fctr f3 = fctr f2" "generation f3 = generation f2" "nbrk f3 = nbrk f2"
    using f2(2,3,4) p(2) f2(5) by (rule free)
  have "delete_node e f1 p = Some (f3\<lparr>nodes := (nodes f3)(p := None)\<rparr>)"
    using p(1) node f2(1) f3(1) by (simp add: delete_node.simps [of e f1 p] node_ok_def)
  moreover have "shrinks U f (f3\<lparr>nodes := (nodes f3)(p := None)\<rparr>)"
    using f(1-3) _ p(2) f2(6) by (rule shrinks_delete) (use n1(1) f(3) f2(7-) f3(3-) same_nodeD(5) in auto)
  ultimately show ?thesis using f3(2) by blast
qed

text \<open>
  A reference to \<open>p\<close> is dropped; no node above \<open>p\<close> is unhashed.
\<close>

lemma unref_ok:
  assumes "fuse_inv U K (X(p := Suc (X p))) f" and "K \<subseteq> U" and "p \<in> dom (nodes f)" and "\<forall>u \<in> U. (p, u) \<notin> (up (nodes f))\<^sup>*"
  shows "\<exists>f'. unref_node e f p = Some f' \<and> fuse_inv U K X f' \<and> shrinks U f f'"
  using assms
proof (induction "entries (name_table f)" arbitrary: f U K X p rule: less_induct)
  case less
  obtain n where n: "nodes f p = Some n" using less.prems(3) by auto
  have pU: "p \<notin> U" using less.prems(4) by auto
  then have pK: "p \<notin> K" using less.prems(2) by auto
  have ok: "heap_ok U K (X(p := Suc (X p))) (nodes f)" using less.prems(1) by (simp add: fuse_inv_def)
  then have ref: "ref_ok U (X(p := Suc (X p))) (nodes f) p n" using n pK by (simp add: heap_ok_def)
  let ?n = "n\<lparr>n_ref := n_ref n - 1\<rparr>"
  let ?f = "set_node p ?n f"
  note e = unref_node.simps [of e f p] n
  have root: "n_id n = FUSE_ROOT_ID \<Longrightarrow> 0 < n_lookup n" using ok n by (simp add: heap_ok_def node_ok_def)
  show ?case
  proof (cases "n_ref n - 1 = 0")
    case False
    have "ref_ok U X (nodes f) p ?n" using ref False by (auto simp: ref_ok_def)
    then have "fuse_inv U K X ?f"
      using root by (intro fuse_inv_upd [OF less.prems(1) n]) auto
    moreover have "shrinks U f ?f" using n by (auto simp: shrinks_def)
    ultimately show ?thesis using False ref by (simp add: e ref_ok_def)
  next
    case True
    note last = last_reference [OF ok n pK True]
    have inv: "fuse_inv U (insert p K) X ?f"
      using root by (intro fuse_inv_upd [OF less.prems(1) n]) auto
    have up: "up (nodes ?f) = up (nodes f)" using up_upd [of "nodes f" p n ?n] n by simp
    have "\<exists>f'. delete_node e ?f p = Some f' \<and> fuse_inv U K X f' \<and> shrinks U f f'"
    proof (rule delete_ok [OF inv])
      show "nodes ?f p = Some ?n" "p \<notin> U" "n_lookup ?n = 0" "n_id ?n \<noteq> FUSE_ROOT_ID" "nodes ?f = (nodes f)(p \<mapsto> ?n)"
        "nodes f p = Some n" "same_node n ?n" "remember ?f = remember f" "fctr ?f = fctr f" "generation ?f = generation f" "nbrk ?f = nbrk f"
        using pU last n by simp_all
      show "kids U (nodes ?f) p = {}" using last(1) kids_upd [of "nodes f" p n ?n U] n by simp
      show "\<exists>f'. unref_node e g q = Some f' \<and> fuse_inv (insert p U) (insert p K) X f' \<and> shrinks (insert p U) g f'"
        if q: "n_parent ?n = Some q" and g: "fuse_inv (insert p U) (insert p K) (X(q := Suc (X q))) g" "nodes g = nodes ?f"
          "entries (name_table g) < entries (name_table ?f)" for q g
      proof (rule less.hyps)
        have pq: "(p, q) \<in> up (nodes f)" using n q by (simp add: up_def)
        have "(q, p) \<notin> (up (nodes f))\<^sup>*" using ok pq unfolding heap_ok_def acyclic_def by (meson rtrancl_into_trancl2)
        moreover have "(q, u) \<notin> (up (nodes f))\<^sup>*" if "u \<in> U" for u
          using less.prems(4) that pq by (meson converse_rtrancl_into_rtrancl)
        ultimately show "\<forall>u \<in> insert p U. (q, u) \<notin> (up (nodes g))\<^sup>*" using g(2) up by simp
        have "node_ok U (nodes f) p n" using ok n by (simp add: heap_ok_def)
        then show "q \<in> dom (nodes g)" using q pU g(2) by (auto simp: node_ok_def)
      qed (use g less.prems(2) in auto)
    qed
    then show ?thesis using True ref by (simp add: e ref_ok_def)
  qed
qed

text \<open>Taking away the name of a node, from outside.\<close>

lemma unhash_name_ok:
  assumes inv: "fuse_inv {} {} X f" and a: "nodes f a = Some n" and root: "n_id n \<noteq> FUSE_ROOT_ID"
  obtains f' where "unhash_name e f a = Some f'" and "fuse_inv {} {} X f'" and "unhashed {} a f f'"
proof (cases "n_parent n")
  case None
  have "node_ok {} (nodes f) a n" using inv a by (simp add: fuse_inv_def heap_ok_def)
  then have nm: "n_name n = None" using None root by (simp add: node_ok_def)
  then have "n\<lparr>n_name := None, n_parent := None\<rparr> = n" using None by (cases n) simp
  then have "unhashed {} a f f" unfolding unhashed_def
    by (intro exI [of _ f] exI [of _ n]) (use a in \<open>auto simp: fun_upd_idem\<close>)
  then show ?thesis using that [of f] inv a nm by (simp add: unhash_name.simps [of e f a])
next
  case (Some q)
  have ok: "heap_ok {} {} X (nodes f)" using inv by (simp add: fuse_inv_def)
  have unref: "\<exists>f'. unref_node e g q = Some f' \<and> fuse_inv {a} {} X f' \<and> shrinks {a} g f'"
    if g: "fuse_inv {a} {} (X(q := Suc (X q))) g" "nodes g = nodes f" for g
  proof (rule unref_ok [OF g(1)])
    have "(a, q) \<in> up (nodes f)" using a Some by (simp add: up_def)
    then have "(q, a) \<notin> (up (nodes f))\<^sup>*" using ok unfolding heap_ok_def acyclic_def by (meson rtrancl_into_trancl2)
    then show "\<forall>u \<in> {a}. (q, u) \<notin> (up (nodes g))\<^sup>*" using g(2) by simp
    have "node_ok {} (nodes f) a n" using ok a by (simp add: heap_ok_def)
    then show "q \<in> dom (nodes g)" using Some g(2) by (auto simp: node_ok_def)
  qed simp
  have "a \<notin> {}" by simp
  from inv a Some this root unref show ?thesis by (rule unhash_step) (assumption | rule that)+
qed

end
