(* ===== verification/Fuse_Node_Ops.thy ===== *)
theory Fuse_Node_Ops
  imports Fuse_Node_Inv
begin

text \<open>
  The operations on the nodes of the FUSE library keep the invariant: looking up by number and by name,
  creating, forgetting, unlinking and renaming nodes, and cleaning the list of nodes to be forgotten.
\<close>

section \<open>Searching\<close>

lemma find_id_find: "\<forall>a \<in> set c. ns a \<noteq> None \<Longrightarrow> find_id ns nid c = Some (find (\<lambda>a. n_id (the (ns a)) = nid) c)"
  by (induction c) auto

lemma find_name_find:
  "\<forall>a \<in> set c. \<exists>n p pn nm. ns a = Some n \<and> n_parent n = Some p \<and> ns p = Some pn \<and> n_name n = Some nm \<Longrightarrow>
    find_name ns parent name c = Some (find (\<lambda>a. n_id (the (ns (the (n_parent (the (ns a)))))) = parent \<and>
      n_name (the (ns a)) = Some name) c)"
  by (induction c) fastforce+

lemma find_unique:
  assumes "\<And>a b. a \<in> set c \<Longrightarrow> b \<in> set c \<Longrightarrow> P a \<Longrightarrow> P b \<Longrightarrow> a = b"
  shows "find P c = Some a \<longleftrightarrow> a \<in> set c \<and> P a"
proof
  assume "find P c = Some a"
  then show "a \<in> set c \<and> P a" by (auto simp: find_Some_iff)
next
  assume a: "a \<in> set c \<and> P a"
  then obtain b where "find P c = Some b" by (cases "find P c") (auto simp: find_None_iff)
  moreover have "b \<in> set c \<and> P b" using calculation by (auto simp: find_Some_iff)
  ultimately show "find P c = Some a" using assms a by metis
qed

text \<open>The search by number finds exactly the node with that number.\<close>

lemma get_node_iff:
  assumes "fuse_inv U K X f"
  shows "\<exists>r. get_node_nocheck f nid = Some r \<and> (\<forall>a. r = Some a \<longleftrightarrow> (\<exists>n. nodes f a = Some n \<and> n_id n = nid))"
proof -
  have t: "table_ok (id_raw (nodes f)) (dom (nodes f)) (id_table f)" and ids: "ids_ok (nodes f)"
    using assms by (simp_all add: fuse_inv_def heap_ok_def)
  obtain c where c: "arr (id_table f) (bucket (id_table f) (raw_id nid)) = Some c"
      "set c = members (id_raw (nodes f)) (dom (nodes f)) (id_table f) (bucket (id_table f) (raw_id nid))"
    using t refl by (rule chain_ok)
  have "get_node_nocheck f nid = find_id (nodes f) nid c"
    using c(1) table_hash_ok [OF t] by (simp add: get_node_nocheck_def chain_of_def)
  also have "\<dots> = Some (find (\<lambda>a. n_id (the (nodes f a)) = nid) c)"
    by (rule find_id_find) (auto simp: c(2) members_def)
  finally have g: "get_node_nocheck f nid = Some (find (\<lambda>a. n_id (the (nodes f a)) = nid) c)" .
  have "find (\<lambda>a. n_id (the (nodes f a)) = nid) c = Some a \<longleftrightarrow> a \<in> set c \<and> n_id (the (nodes f a)) = nid" for a
    by (rule find_unique) (use ids in \<open>auto simp: c(2) members_def ids_ok_def\<close>)
  moreover have "a \<in> set c \<and> n_id (the (nodes f a)) = nid \<longleftrightarrow> (\<exists>n. nodes f a = Some n \<and> n_id n = nid)" for a
    by (auto simp: c(2) members_def id_raw_def)
  ultimately show ?thesis using g by simp
qed

lemma get_node_Some:
  assumes "fuse_inv U K X f" and "nodes f a = Some n"
  shows "get_node f (n_id n) = Some a"
proof -
  obtain r where r: "get_node_nocheck f (n_id n) = Some r" "r = Some a \<longleftrightarrow> (\<exists>m. nodes f a = Some m \<and> n_id m = n_id n)"
    using get_node_iff [OF assms(1), of "n_id n"] by blast
  then show ?thesis using assms(2) by (auto simp: get_node_def)
qed

lemma get_node_None:
  assumes "fuse_inv U K X f"
  shows "get_node_nocheck f nid = Some None \<longleftrightarrow> (\<forall>b n. nodes f b = Some n \<longrightarrow> n_id n \<noteq> nid)"
proof -
  obtain r where r: "get_node_nocheck f nid = Some r" "\<forall>a. r = Some a \<longleftrightarrow> (\<exists>n. nodes f a = Some n \<and> n_id n = nid)"
    using get_node_iff [OF assms, of nid] by blast
  show ?thesis
  proof (cases r)
    case None
    then show ?thesis using r by auto
  next
    case (Some a)
    then have "\<exists>n. nodes f a = Some n \<and> n_id n = nid" using r(2) by blast
    then show ?thesis using r(1) Some by auto
  qed
qed

text \<open>The search by parent and name finds exactly the child with that name.\<close>

definition named_child :: "(addr \<rightharpoonup> node) \<Rightarrow> nat \<Rightarrow> string \<Rightarrow> addr \<Rightarrow> bool" where
  "named_child ns parent name a \<longleftrightarrow>
     (\<exists>n p pn. ns a = Some n \<and> n_parent n = Some p \<and> ns p = Some pn \<and> n_id pn = parent \<and> n_name n = Some name)"

lemma named_child_mono:
  assumes "named_child ns d name c"
    and "\<And>b m. ns b = Some m \<Longrightarrow> \<exists>m'. ns' b = Some m' \<and> n_id m' = n_id m \<and> n_parent m' = n_parent m \<and> n_name m' = n_name m"
  shows "named_child ns' d name c"
proof -
  obtain n p pn where n: "ns c = Some n" "n_parent n = Some p" "ns p = Some pn" "n_id pn = d" "n_name n = Some name"
    using assms(1) by (auto simp: named_child_def)
  then obtain n' pn' where "ns' c = Some n'" "n_parent n' = Some p" "n_name n' = Some name" "ns' p = Some pn'" "n_id pn' = d"
    using assms(2) [OF n(1)] assms(2) [OF n(3)] by auto
  then show ?thesis by (auto simp: named_child_def)
qed

lemma named_child_upd:
  assumes "ns a = Some n" and "n_id n' = n_id n" and "n_parent n' = n_parent n" and "n_name n' = n_name n"
  shows "named_child (ns(a \<mapsto> n')) d name c \<longleftrightarrow> named_child ns d name c"
proof
  assume "named_child (ns(a \<mapsto> n')) d name c"
  then show "named_child ns d name c" by (rule named_child_mono) (use assms in \<open>auto split: if_splits\<close>)
next
  assume "named_child ns d name c"
  then show "named_child (ns(a \<mapsto> n')) d name c" by (rule named_child_mono) (use assms in \<open>auto split: if_splits\<close>)
qed

lemma lookup_node_iff:
  assumes "fuse_inv {} K X f"
  shows "\<exists>r. lookup_node f parent name = Some r \<and> (\<forall>a. r = Some a \<longleftrightarrow> named_child (nodes f) parent name a)"
proof -
  let ?ns = "nodes f"
  have t: "table_ok (name_raw ?ns) (linked_nodes ?ns) (name_table f)" and ok: "heap_ok {} K X ?ns"
    using assms by (simp_all add: fuse_inv_def)
  obtain c where c: "arr (name_table f) (bucket (name_table f) (raw_name parent name)) = Some c"
      "set c = members (name_raw ?ns) (linked_nodes ?ns) (name_table f) (bucket (name_table f) (raw_name parent name))"
    using t refl by (rule chain_ok)
  have all: "\<exists>n p pn nm. ?ns a = Some n \<and> n_parent n = Some p \<and> ?ns p = Some pn \<and> n_name n = Some nm \<and>
      name_raw ?ns a = Some (raw_name (n_id pn) nm)" if "a \<in> linked_nodes ?ns" for a
    using that name_raw_ok [OF ok] by (fastforce simp: linked_nodes_def)
  let ?P = "\<lambda>a. n_id (the (?ns (the (n_parent (the (?ns a)))))) = parent \<and> n_name (the (?ns a)) = Some name"
  have "lookup_node f parent name = find_name ?ns parent name c"
    using c(1) table_hash_ok [OF t] by (simp add: lookup_node_def chain_of_def)
  also have "\<dots> = Some (find ?P c)" by (rule find_name_find) (use all in \<open>fastforce simp: c(2) members_def\<close>)
  finally have g: "lookup_node f parent name = Some (find ?P c)" .
  have P: "?P a \<longleftrightarrow> named_child ?ns parent name a" if "a \<in> linked_nodes ?ns" for a
    using all [OF that] by (auto simp: named_child_def)
  have "a = b" if "named_child ?ns parent name a" "named_child ?ns parent name b" for a b
    using that ok unfolding named_child_def heap_ok_def ids_ok_def names_ok_def by (metis empty_iff option.discI)
  then have "find ?P c = Some a \<longleftrightarrow> a \<in> set c \<and> ?P a" for a
    by (intro find_unique) (use P in \<open>auto simp: c(2) members_def\<close>)
  moreover have "a \<in> set c \<and> ?P a \<longleftrightarrow> named_child ?ns parent name a" for a
  proof -
    have "a \<in> linked_nodes ?ns" "name_raw ?ns a = Some (raw_name parent name)" if "named_child ?ns parent name a"
      using that by (auto simp: named_child_def linked_nodes_def name_raw_def)
    then show ?thesis using P by (auto simp: c(2) members_def)
  qed
  ultimately show ?thesis using g by simp
qed

section \<open>Counting lookups\<close>

lemma inc_nlookup_ok:
  assumes inv: "fuse_inv U K X f" and a: "nodes f a = Some n" "a \<notin> K" and l: "n_lookup n + 1 < 2 ^ 64"
  obtains f' r where "inc_nlookup f a = Some f'" and "fuse_inv U K X f'"
    and "f' = set_node a (n\<lparr>n_ref := r, n_lookup := n_lookup n + 1\<rparr>) f"
proof -
  let ?n = "(if n_lookup n = 0 then n\<lparr>n_ref := n_ref n + 1\<rparr> else n)\<lparr>n_lookup := n_lookup n + 1\<rparr>"
  have "ref_ok U X (nodes f) a n" using inv a by (simp add: fuse_inv_def heap_ok_def)
  then have "ref_ok U X (nodes f) a ?n" by (auto simp: ref_ok_def split: if_splits)
  then have "fuse_inv U K X (set_node a ?n f)"
    by (intro fuse_inv_upd [OF inv a(1)]) auto
  moreover have "inc_nlookup f a = Some (set_node a ?n f)" using a l by (simp add: inc_nlookup_def Let_def)
  moreover have "?n = n\<lparr>n_ref := n_ref ?n, n_lookup := n_lookup n + 1\<rparr>" by simp
  ultimately show ?thesis using that by metis
qed

lemma fuse_inv_lru:
  assumes "fuse_inv U K X f" and "distinct xs" and "set xs \<subseteq> dom (nodes f)" and "lru_enabled f \<or> xs = []"
  shows "fuse_inv U K X (f\<lparr>lru_table := xs\<rparr>)"
  using assms by (simp add: fuse_inv_def lru_ok_def lru_enabled_def)

lemma fuse_inv_lru_remove: "fuse_inv U K X f \<Longrightarrow> fuse_inv U K X (lru_remove a f)"
  unfolding lru_remove_def
  by (rule fuse_inv_lru) (use notin_set_remove1 in \<open>auto simp: fuse_inv_def lru_ok_def\<close>)

section \<open>New numbers\<close>

lemma get_node_counter: "get_node_nocheck (f\<lparr>fctr := c, generation := g\<rparr>) = get_node_nocheck f"
  by (simp add: get_node_nocheck_def fun_eq_iff)

text \<open>
  The search for a free number ends when there is one: from the counter on, every number comes up. The
  distance from the counter to the free number decreases.
\<close>

lemma distance:
  assumes "x < m" and "(u + 1) mod m \<noteq> x"
  shows "(x + m - 1 - (u + 1) mod m mod m) mod m < (x + m - 1 - u mod m) mod (m :: nat)"
proof -
  define v where "v = u mod m"
  have m: "0 < m" and v: "v < m" using assms(1) by (simp_all add: v_def)
  have w: "(u + 1) mod m = (if v + 1 = m then 0 else v + 1)" using m by (simp add: v_def mod_Suc)
  show ?thesis
  proof (cases "v + 1 = m")
    case True
    then have "x \<noteq> 0" using assms(2) w by simp
    have "(x + m - 1) mod m = x - 1" using \<open>x \<noteq> 0\<close> assms(1) mod_add_self2 [of "x - 1" m] by simp
    moreover have "(x + m - 1 - v) mod m = x" using True assms(1) by simp
    ultimately show ?thesis using w True \<open>x \<noteq> 0\<close> by (simp add: v_def)
  next
    case False
    then have x: "x \<noteq> v + 1" and v1: "v + 1 < m" using assms(2) w v by auto
    have "(x + m - 1 - (v + 1)) mod m < (x + m - 1 - v) mod m"
    proof (cases "x \<le> v")
      case True
      then show ?thesis using v1 by simp
    next
      case f: False
      then have "(x + m - 1 - (v + 1)) mod m = x - 1 - (v + 1)" "(x + m - 1 - v) mod m = x - 1 - v"
        using x v1 assms(1) mod_add_self2 [of "x - 1 - (v + 1)" m] mod_add_self2 [of "x - 1 - v" m] by simp_all
      then show ?thesis using f x by simp
    qed
    then show ?thesis using w False v1 by (simp add: v_def)
  qed
qed

lemma next_id_step:
  assumes "c = (fctr f + 1) mod 2 ^ 32" and "get_node_nocheck f c = Some r"
  shows "\<exists>g. next_id f = (if c = 0 \<or> c = FUSE_UNKNOWN_INO \<or> r \<noteq> None then next_id (f\<lparr>fctr := c, generation := g\<rparr>)
    else Some (f\<lparr>fctr := c, generation := g\<rparr>))"
proof -
  define g where "g = (if c = 0 then (generation f + 1) mod 2 ^ 32 else generation f)"
  have "next_id f = (if c = 0 \<or> c = FUSE_UNKNOWN_INO then next_id (f\<lparr>fctr := c, generation := g\<rparr>)
      else if r \<noteq> None then next_id (f\<lparr>fctr := c, generation := g\<rparr>) else Some (f\<lparr>fctr := c, generation := g\<rparr>))"
    by (subst next_id.simps) (simp only: Let_def get_node_counter assms(1) [symmetric] assms(2) bind.bind_lunit g_def [symmetric])
  then show ?thesis by (intro exI [of _ g]) auto
qed

lemma next_id_ok:
  assumes "get_node_nocheck f x = Some None" and "0 < x" and "x < FUSE_UNKNOWN_INO" and "\<And>c. get_node_nocheck f c \<noteq> None"
  shows "\<exists>c g. next_id f = Some (f\<lparr>fctr := c, generation := g\<rparr>) \<and> get_node_nocheck f c = Some None \<and>
    0 < c \<and> c < FUSE_UNKNOWN_INO"
  using assms
proof (induction "(x + 2 ^ 32 - 1 - fctr f mod 2 ^ 32) mod 2 ^ 32" arbitrary: f rule: less_induct)
  case less
  define c where "c = (fctr f + 1) mod 2 ^ 32"
  obtain r where r: "get_node_nocheck f c = Some r" using less.prems(4) [of c] by auto
  obtain g where g: "next_id f = (if c = 0 \<or> c = FUSE_UNKNOWN_INO \<or> r \<noteq> None then next_id (f\<lparr>fctr := c, generation := g\<rparr>)
      else Some (f\<lparr>fctr := c, generation := g\<rparr>))"
    using next_id_step [OF c_def r] by blast
  show ?case
  proof (cases "c = 0 \<or> c = FUSE_UNKNOWN_INO \<or> r \<noteq> None")
    case False
    moreover have "c < 2 ^ 32" by (simp add: c_def)
    ultimately show ?thesis using g r by (intro exI [of _ c] exI [of _ g]) (simp add: FUSE_UNKNOWN_INO_def)
  next
    case True
    let ?f = "f\<lparr>fctr := c, generation := g\<rparr>"
    have "\<exists>c' g'. next_id ?f = Some (?f\<lparr>fctr := c', generation := g'\<rparr>) \<and> get_node_nocheck ?f c' = Some None \<and> 0 < c' \<and> c' < FUSE_UNKNOWN_INO"
    proof (rule less.hyps)
      have "c \<noteq> x" using True r less.prems by auto
      moreover have "x < 2 ^ 32" using less.prems(3) by (simp add: FUSE_UNKNOWN_INO_def)
      moreover have "fctr ?f = (fctr f + 1) mod 2 ^ 32" by (simp add: c_def)
      ultimately show "(x + 2 ^ 32 - 1 - fctr ?f mod 2 ^ 32) mod 2 ^ 32 < (x + 2 ^ 32 - 1 - fctr f mod 2 ^ 32) mod 2 ^ 32"
        using distance [of x "2 ^ 32" "fctr f"] by (simp only: c_def simp_thms)
    qed (use less.prems in \<open>simp_all only: get_node_counter not_False_eq_True\<close>)
    then show ?thesis using g True by (simp only: get_node_counter if_True) auto
  qed
qed

section \<open>Giving a node a name\<close>

text \<open>The heap after \<open>hash_name\<close>.\<close>

definition link_node :: "addr \<Rightarrow> node \<Rightarrow> addr \<Rightarrow> node \<Rightarrow> string \<Rightarrow> (addr \<rightharpoonup> node) \<Rightarrow> addr \<rightharpoonup> node" where
  "link_node a n p pn name ns = ns(a \<mapsto> n\<lparr>n_name := Some name, n_parent := Some p\<rparr>, p \<mapsto> pn\<lparr>n_ref := n_ref pn + 1\<rparr>)"

lemma link_node_at:
  assumes "a \<noteq> p"
  shows "link_node a n p pn name ns a = Some (n\<lparr>n_name := Some name, n_parent := Some p\<rparr>)"
    and "link_node a n p pn name ns p = Some (pn\<lparr>n_ref := n_ref pn + 1\<rparr>)"
    and "b \<noteq> a \<Longrightarrow> b \<noteq> p \<Longrightarrow> link_node a n p pn name ns b = ns b"
  using assms by (simp_all add: link_node_def)

lemma link_node_cases:
  assumes "link_node a n p pn name ns b = Some m" and "a \<noteq> p" and "ns p = Some pn"
  shows "b = a \<and> m = n\<lparr>n_name := Some name, n_parent := Some p\<rparr> \<or>
    b \<noteq> a \<and> (\<exists>m0. ns b = Some m0 \<and> m = m0\<lparr>n_ref := n_ref m0 + (if b = p then 1 else 0)\<rparr>)"
  using assms by (auto simp: link_node_def split: if_splits)

lemma link_kids:
  assumes "a \<noteq> p" and "ns p = Some pn" and "ns a = Some n" and "n_parent n = None"
  shows "kids {} (link_node a n p pn name ns) b = (if b = p then insert a (kids {} ns b) else kids {} ns b)"
  using assms by (auto simp: kids_def link_node_def)

lemma link_up:
  assumes "a \<noteq> p" and "ns p = Some pn" and "ns a = Some n" and "n_parent n = None"
  shows "up (link_node a n p pn name ns) = insert (a, p) (up ns)"
  using assms by (auto simp: up_def link_node_def split: if_splits)

lemma link_dom: "ns a = Some n \<Longrightarrow> ns p = Some pn \<Longrightarrow> dom (link_node a n p pn name ns) = dom ns"
  by (auto simp: link_node_def)

lemma link_linked:
  "a \<noteq> p \<Longrightarrow> ns p = Some pn \<Longrightarrow> linked_nodes (link_node a n p pn name ns) = insert a (linked_nodes ns)"
  by (auto simp: linked_nodes_def link_node_def)

lemma heap_ok_link:
  assumes ok: "heap_ok {} {} X ns" and a: "ns a = Some n" "n_parent n = None" "n_id n \<noteq> FUSE_ROOT_ID"
    and p: "ns p = Some pn" "(p, a) \<notin> (up ns)\<^sup>*" and new: "\<And>b. \<not> named_child ns (n_id pn) name b"
  shows "heap_ok {} {} X (link_node a n p pn name ns)"
proof -
  let ?ns = "link_node a n p pn name ns"
  have ap: "a \<noteq> p" using p(2) by auto
  note cases = link_node_cases [of a n p pn name ns, OF _ ap p(1)]
  have "ids_ok ?ns"
  proof -
    have "\<exists>m0. ns b = Some m0 \<and> n_id m0 = n_id m" if "?ns b = Some m" for b m using cases [OF that] a(1) by auto
    then show ?thesis using ok unfolding heap_ok_def ids_ok_def by metis
  qed
  moreover have "names_ok {} ?ns"
  proof -
    have old: "b \<noteq> a \<Longrightarrow> \<exists>m0. ns b = Some m0 \<and> n_parent m = n_parent m0 \<and> n_name m = n_name m0" if "?ns b = Some m" for b m
      using cases [OF that] by auto
    have only: "b = a" if b: "?ns b = Some m" "n_parent m = Some p" "n_name m = Some name" for b m
    proof (rule ccontr)
      assume "b \<noteq> a"
      then have "named_child ns (n_id pn) name b" using old [OF b(1)] b p(1) unfolding named_child_def by metis
      then show False using new by blast
    qed
    have self: "n_parent m = Some p" "n_name m = Some name" if "?ns a = Some m" for m using cases [OF that] by auto
    have "b = c" if b: "?ns b = Some m" "?ns c = Some k" "n_parent m \<noteq> None" "n_parent m = n_parent k" "n_name m = n_name k" for b c m k
    proof (cases "b = a \<or> c = a")
      case True
      then show ?thesis using only [of b m] only [of c k] self b by auto
    next
      case False
      then obtain m0 k0 where "ns b = Some m0" "n_parent m = n_parent m0" "n_name m = n_name m0"
          "ns c = Some k0" "n_parent k = n_parent k0" "n_name k = n_name k0"
        using old [OF b(1)] old [OF b(2)] by blast
      moreover have "names_ok {} ns" using ok by (simp add: heap_ok_def)
      ultimately show ?thesis using b(3-) by (simp add: names_ok_def)
    qed
    then show ?thesis unfolding names_ok_def by blast
  qed
  moreover have "acyclic (up ?ns)" using ok p(2) by (simp add: link_up [of a p ns pn n, OF ap p(1) a(1,2)] heap_ok_def acyclic_insert)
  moreover have "node_ok {} ?ns b m" if bm: "?ns b = Some m" for b m
  proof -
    note d = link_dom [of ns a n p pn name, OF a(1) p(1)]
    obtain m0 where m0: "ns b = Some m0" "n_treelock m = n_treelock m0" "n_id m = n_id m0" "n_lookup m = n_lookup m0"
        "b = a \<and> n_parent m = Some p \<and> n_name m = Some name \<or> n_parent m = n_parent m0 \<and> n_name m = n_name m0"
      using cases [OF bm] a(1) by auto
    have "node_ok {} ns b m0" using ok m0(1) by (simp add: heap_ok_def)
    moreover have "p \<in> dom ns" using p(1) by blast
    moreover have "b = a \<Longrightarrow> m0 = n" using m0(1) a(1) by simp
    ultimately show ?thesis using m0(2-) a(2,3) unfolding node_ok_def d by auto
  qed
  moreover have "ref_ok {} X ?ns b m" if bm: "?ns b = Some m" for b m
  proof -
    obtain m0 where m0: "ns b = Some m0" "n_lookup m = n_lookup m0" "n_ref m = n_ref m0 + (if b = p then 1 else 0)"
      using cases [OF bm] a(1) ap by auto
    have "a \<notin> kids {} ns p" using a by (simp add: kids_def)
    moreover have "finite (kids {} ns p)" using ok by (simp add: heap_ok_def finite_kids)
    moreover have "ref_ok {} X ns b m0" using ok m0 by (simp add: heap_ok_def)
    ultimately show ?thesis using m0 by (auto simp: ref_ok_def link_kids [of a p ns pn n, OF ap p(1) a(1,2)])
  qed
  ultimately show ?thesis using ok link_dom [of ns a n p pn, OF a(1) p(1)] by (simp add: heap_ok_def)
qed

text \<open>The table of names after \<open>hash_name\<close>.\<close>

lemma hash_name_table:
  assumes t: "table_ok (name_raw (nodes f)) (linked_nodes (nodes f)) (name_table f)"
    and a: "nodes f a = Some n" "n_parent n = None" and p: "get_node f (n_id pn) = Some p" "nodes f p = Some pn" "a \<noteq> p"
    and mem: "length name < 32 \<or> name_mem e"
  obtains t' where "hash_name e f a (n_id pn) name = Some (0, f\<lparr>nodes := link_node a n p pn name (nodes f), name_table := t'\<rparr>)"
    and "table_ok (name_raw (link_node a n p pn name (nodes f))) (linked_nodes (link_node a n p pn name (nodes f))) t'"
proof -
  let ?ns = "link_node a n p pn name (nodes f)"
  note at = link_node_at [OF p(3)]
  have "name_raw ?ns b = name_raw (nodes f) b" if b: "b \<in> linked_nodes (nodes f)" for b
  proof -
    have id: "map_option n_id (?ns q) = map_option n_id (nodes f q)" for q using a(1) p(2,3) at by (cases "q = a"; cases "q = p") auto
    have "b \<noteq> a" using b a by (auto simp: linked_nodes_def)
    then have "map_option (\<lambda>m. (n_parent m, n_name m)) (?ns b) = map_option (\<lambda>m. (n_parent m, n_name m)) (nodes f b)"
      using p(2) at by (cases "b = p") auto
    moreover have "name_raw ns b = Option.bind (map_option (\<lambda>m. (n_parent m, n_name m)) (ns b)) (\<lambda>(q, nm).
        Option.bind q (\<lambda>q. Option.bind (map_option n_id (ns q)) (\<lambda>i. map_option (raw_name i) nm)))" for ns
      by (cases "ns b") (auto simp: name_raw_def split: bind_splits)
    ultimately show ?thesis using id by simp
  qed
  then have t1: "table_ok (name_raw ?ns) (linked_nodes (nodes f)) (name_table f)" using t table_ok_hf by blast
  have h: "name_raw ?ns a = Some (raw_name (n_id pn) name)" using at by (simp add: name_raw_def)
  have "a \<notin> linked_nodes (nodes f)" using a by (auto simp: linked_nodes_def)
  then obtain t' where t': "table_insert (realloc_ok e) (name_raw ?ns) (raw_name (n_id pn) name) a (name_table f) = Some t'"
      "table_ok (name_raw ?ns) (insert a (linked_nodes (nodes f))) t'"
    using table_insert_ok [OF t1 h] by blast
  have "hash_name e f a (n_id pn) name = Some (0, f\<lparr>nodes := ?ns, name_table := t'\<rparr>)"
    using t'(1) p a(1) mem by (auto simp: hash_name_def Let_def link_node_def set_node_def)
  then show ?thesis using that t'(2) link_linked [of a p "nodes f" pn n, OF p(3,2)] by simp
qed

section \<open>New nodes\<close>

text \<open>
  Addresses of nodes are below the break, and the root is there.
\<close>

definition session_ok :: "fuse \<Rightarrow> bool" where
  "session_ok f \<longleftrightarrow> fuse_ok f \<and> (\<forall>a \<in> dom (nodes f). a < nbrk f) \<and> (\<exists>a n. nodes f a = Some n \<and> n_id n = FUSE_ROOT_ID)"

lemma session_okD:
  assumes "session_ok f"
  shows "fuse_ok f" and "nodes f (nbrk f) = None" and "nodes f a = Some n \<Longrightarrow> a < nbrk f" and "finite (dom (nodes f))"
    and "\<exists>a n. nodes f a = Some n \<and> n_id n = FUSE_ROOT_ID" and "heap_ok {} {} (\<lambda>a. 0) (nodes f)"
  using assms by (auto simp: session_ok_def fuse_inv_def heap_ok_def dest: bspec [where x = "nbrk f"])

lemma heap_ok_add:
  assumes ok: "heap_ok {} {} X ns" and "ns a = None" and "\<And>b n. ns b = Some n \<Longrightarrow> n_id n \<noteq> n_id m" and "n_parent m = None"
    and "n_name m = None" "n_treelock m = 0" "n_ref m = 1" "0 < n_lookup m" "X a = 0"
  shows "heap_ok {} {} X (ns(a \<mapsto> m))"
proof -
  have p: "n_parent n \<noteq> Some a" if "ns b = Some n" for b n using ok that assms(2) by (fastforce simp: heap_ok_def node_ok_def)
  have kids: "kids {} (ns(a \<mapsto> m)) b = kids {} ns b" for b using assms(2,4) by (auto simp: kids_def)
  have none: "kids {} ns a = {}" using p by (auto simp: kids_def)
  have up: "up (ns(a \<mapsto> m)) = up ns" using assms(2,4) by (auto simp: up_def split: if_splits)
  have "ids_ok (ns(a \<mapsto> m))" using ok assms(3) unfolding heap_ok_def ids_ok_def by (metis fun_upd_apply option.inject)
  moreover have "names_ok {} (ns(a \<mapsto> m))"
    using ok assms(4) unfolding heap_ok_def names_ok_def by (metis fun_upd_apply option.inject)
  moreover have "node_ok {} (ns(a \<mapsto> m)) b n" if "(ns(a \<mapsto> m)) b = Some n" for b n
    using that ok assms by (cases "b = a") (auto simp: heap_ok_def node_ok_def)
  moreover have "ref_ok {} X (ns(a \<mapsto> m)) b n" if "(ns(a \<mapsto> m)) b = Some n" for b n
  proof (cases "b = a")
    case True
    then show ?thesis using that assms(7-) none kids [of a] by (simp add: ref_ok_def del: fun_upd_apply) simp
  next
    case False
    then have "ref_ok {} X ns b n" using ok that by (simp add: heap_ok_def)
    then show ?thesis by (simp add: ref_ok_def kids del: fun_upd_apply)
  qed
  ultimately show ?thesis using ok up by (simp add: heap_ok_def)
qed

lemma get_node_frame:
  assumes inv: "fuse_inv U K X f" and "id_table g = id_table f"
    and "\<And>b n. nodes f b = Some n \<Longrightarrow> \<exists>n'. nodes g b = Some n' \<and> n_id n' = n_id n"
  shows "get_node_nocheck g nid = get_node_nocheck f nid"
proof -
  have t: "table_ok (id_raw (nodes f)) (dom (nodes f)) (id_table f)" using inv by (simp add: fuse_inv_def)
  obtain c where c: "arr (id_table f) (bucket (id_table f) (raw_id nid)) = Some c"
      "set c = members (id_raw (nodes f)) (dom (nodes f)) (id_table f) (bucket (id_table f) (raw_id nid))"
    using t refl by (rule chain_ok)
  have "find_id (nodes g) nid xs = find_id (nodes f) nid xs" if "set xs \<subseteq> dom (nodes f)" for xs
    using that by (induction xs) (use assms(3) in fastforce)+
  moreover have "set c \<subseteq> dom (nodes f)" by (auto simp: c(2) members_def)
  ultimately show ?thesis using c(1) assms(2) table_hash_ok [OF t] by (simp add: get_node_nocheck_def chain_of_def)
qed

lemma free_number:
  assumes "finite (dom ns)" and "card (dom ns) < 2 ^ 32 - 2"
  shows "\<exists>x. 0 < x \<and> x < FUSE_UNKNOWN_INO \<and> (\<forall>b n. ns b = Some n \<longrightarrow> n_id n \<noteq> x)"
proof (rule ccontr)
  let ?I = "(\<lambda>b. n_id (the (ns b))) ` dom ns"
  assume "\<not> ?thesis"
  then have "{0<..<FUSE_UNKNOWN_INO} \<subseteq> ?I" by (force simp: image_iff)
  then have "card {0<..<FUSE_UNKNOWN_INO} \<le> card ?I" using assms(1) by (intro card_mono) auto
  also have "\<dots> \<le> card (dom ns)" using assms(1) by (rule card_image_le)
  finally have "FUSE_UNKNOWN_INO - 1 \<le> card (dom ns)" by (simp only: card_greaterThanLessThan)
  then show False using assms(2) by (simp add: FUSE_UNKNOWN_INO_def)
qed

text \<open>The node that \<open>find_node\<close> creates, before it has a name.\<close>

definition fresh_node :: "fuse \<Rightarrow> nat \<Rightarrow> nat \<Rightarrow> node" where
  "fresh_node f c g = \<lparr>n_id = c, n_gen = g, n_ref = 1, n_parent = None, n_name = None,
     n_lookup = (if remember f \<noteq> 0 then 2 else 1), n_treelock = 0, n_hidden = False, n_forget = 0\<rparr>"

text \<open>A node in the store that gets into both tables.\<close>

lemma new_node_tables:
  assumes ok: "session_ok f" and p: "nodes f p = Some pn" and m: "n_id m = c" "n_parent m = None" "n_lookup m + 1 < 2 ^ 64"
    and m': "m' = (if n_lookup m = 0 then m\<lparr>n_ref := n_ref m + 1\<rparr> else m)\<lparr>n_lookup := n_lookup m + 1\<rparr>"
    and f4: "nodes f4 = (nodes f)(nbrk f \<mapsto> m)" "id_table f4 = id_table f" "name_table f4 = name_table f"
    and mem: "length name < 32 \<or> name_mem e"
  obtains f5 f6 t t' where "hash_name e f4 (nbrk f) (n_id pn) name = Some (0, f5)" and "hash_id e f5 (nbrk f) = Some f6"
    and "inc_nlookup f6 (nbrk f) = Some (f4\<lparr>nodes := link_node (nbrk f) m' p pn name ((nodes f)(nbrk f \<mapsto> m')), id_table := t, name_table := t'\<rparr>)"
    and "table_ok (id_raw (link_node (nbrk f) m' p pn name ((nodes f)(nbrk f \<mapsto> m')))) (insert (nbrk f) (dom (nodes f))) t"
    and "table_ok (name_raw (link_node (nbrk f) m' p pn name ((nodes f)(nbrk f \<mapsto> m'))))
      (linked_nodes (link_node (nbrk f) m' p pn name ((nodes f)(nbrk f \<mapsto> m')))) t'"
proof -
  let ?a = "nbrk f" and ?ns = "(nodes f)(nbrk f \<mapsto> m)"
  let ?l = "link_node ?a m p pn name ?ns" and ?l' = "link_node ?a m' p pn name ((nodes f)(nbrk f \<mapsto> m'))"
  have new: "nodes f ?a = None" and inv: "fuse_ok f" using session_okD [OF ok] by simp_all
  have ap: "?a \<noteq> p" using new p by auto
  have "get_node_nocheck f4 (n_id pn) = get_node_nocheck f (n_id pn)" using inv by (rule get_node_frame) (use f4 new in auto)
  then have gp: "get_node f4 (n_id pn) = Some p" using get_node_Some [OF inv p] by (simp add: get_node_def)
  have "name_raw ?ns b = name_raw (nodes f) b" if lb: "b \<in> linked_nodes (nodes f)" for b
  proof -
    obtain n q where b: "nodes f b = Some n" "n_parent n = Some q" using lb by (auto simp: linked_nodes_def)
    then have "q \<in> dom (nodes f)" using session_okD(6) [OF ok] by (simp add: heap_ok_def node_ok_def)
    then have "b \<noteq> ?a" "q \<noteq> ?a" using b new by auto
    then show ?thesis using b by (simp add: name_raw_def)
  qed
  moreover have "linked_nodes ?ns = linked_nodes (nodes f)" using m(2) new by (auto simp: linked_nodes_def)
  ultimately have "table_ok (name_raw (nodes f4)) (linked_nodes (nodes f4)) (name_table f4)"
    using inv table_ok_hf [of "name_raw (nodes f)"] f4 by (simp add: fuse_inv_def)
  then obtain t' where t': "hash_name e f4 ?a (n_id pn) name = Some (0, f4\<lparr>nodes := link_node ?a m p pn name (nodes f4), name_table := t'\<rparr>)"
      "table_ok (name_raw (link_node ?a m p pn name (nodes f4))) (linked_nodes (link_node ?a m p pn name (nodes f4))) t'"
    by (rule hash_name_table [of f4 ?a m pn p name e]) (use f4 m(2) gp ap p mem in auto)
  let ?f5 = "f4\<lparr>nodes := ?l, name_table := t'\<rparr>"
  note at = link_node_at(1,2) [OF ap, of m pn name ?ns] link_node_at(3) [OF ap, of _ m pn name ?ns]
  have "id_raw ?l b = id_raw (nodes f) b" if "b \<in> dom (nodes f)" for b
    using that p new at ap by (cases "b = ?a"; cases "b = p") (auto simp: id_raw_def)
  then have "table_ok (id_raw ?l) (dom (nodes f)) (id_table f)" using inv table_ok_hf by (auto simp: fuse_inv_def)
  moreover have "id_raw ?l ?a = Some (raw_id c)" using at m(1) by (simp add: id_raw_def)
  ultimately obtain t where t: "table_insert (realloc_ok e) (id_raw ?l) (raw_id c) ?a (id_table f) = Some t"
      "table_ok (id_raw ?l) (insert ?a (dom (nodes f))) t"
    by (rule table_insert_ok [of "id_raw ?l" "dom (nodes f)" "id_table f" ?a "raw_id c" "realloc_ok e"]) (use new in auto)
  have "hash_id e ?f5 ?a = Some (?f5\<lparr>id_table := t\<rparr>)" using t(1) at m(1) f4 by (simp add: hash_id_def)
  moreover have "?l' = ?l(?a \<mapsto> m'\<lparr>n_name := Some name, n_parent := Some p\<rparr>)" using ap by (auto simp: link_node_def)
  then have "inc_nlookup (?f5\<lparr>id_table := t\<rparr>) ?a = Some (f4\<lparr>nodes := ?l', id_table := t, name_table := t'\<rparr>)"
    using at(1) m(3) m' by (cases f4; cases m) (simp add: inc_nlookup_def Let_def set_node_def)
  moreover have raws: "id_raw ?l' = id_raw ?l" "name_raw ?l' = name_raw ?l" "linked_nodes ?l' = linked_nodes ?l"
    unfolding \<open>?l' = _\<close> using at m'
      id_raw_upd [of ?l ?a "m\<lparr>n_name := Some name, n_parent := Some p\<rparr>" "m'\<lparr>n_name := Some name, n_parent := Some p\<rparr>"]
      name_raw_upd [of ?l ?a "m\<lparr>n_name := Some name, n_parent := Some p\<rparr>" "m'\<lparr>n_name := Some name, n_parent := Some p\<rparr>"]
      linked_upd [of ?l ?a "m\<lparr>n_name := Some name, n_parent := Some p\<rparr>" "m'\<lparr>n_name := Some name, n_parent := Some p\<rparr>"] by simp_all
  ultimately show ?thesis using that [of ?f5 "?f5\<lparr>id_table := t\<rparr>" t' t] t'(1,2) t(2) f4(1) by (simp only: raws)
qed

text \<open>
  Creating a node: it succeeds unless there is no memory, and then nothing changes but the counters.
\<close>

definition node_added :: "fuse \<Rightarrow> addr \<Rightarrow> node \<Rightarrow> string \<Rightarrow> ptr \<Rightarrow> fuse \<Rightarrow> bool" where
  "node_added f p pn name r f' \<longleftrightarrow> remember f' = remember f \<and> lru_table f' = lru_table f \<and>
     (case r of None \<Rightarrow> nodes f' = nodes f
      | Some a \<Rightarrow> nodes f a = None \<and> (\<exists>c g. c \<noteq> FUSE_ROOT_ID \<and>
          nodes f' = link_node a (fresh_node f c g) p pn name ((nodes f)(a \<mapsto> fresh_node f c g))))"

lemma session_ok_added:
  assumes ok: "session_ok f" and p: "nodes f p = Some pn" and new: "\<And>b. \<not> named_child (nodes f) (n_id pn) name b"
    and c: "\<And>b n. nodes f b = Some n \<Longrightarrow> n_id n \<noteq> c"
    and f': "nodes f' = link_node (nbrk f) (fresh_node f c g) p pn name ((nodes f)(nbrk f \<mapsto> fresh_node f c g))"
      "nbrk f' = Suc (nbrk f)" "lru_table f' = lru_table f" "remember f' = remember f"
    and t: "table_ok (id_raw (nodes f')) (insert (nbrk f) (dom (nodes f))) (id_table f')"
      "table_ok (name_raw (nodes f')) (linked_nodes (nodes f')) (name_table f')"
  shows "session_ok f'"
proof -
  let ?a = "nbrk f" and ?m = "fresh_node f c g"
  let ?ns = "(nodes f)(?a \<mapsto> ?m)"
  have new_a: "nodes f ?a = None" and inv: "fuse_ok f" and h: "heap_ok {} {} (\<lambda>a. 0) (nodes f)" using session_okD [OF ok] by simp_all
  have ap: "?a \<noteq> p" using new_a p by auto
  obtain r rn where root: "nodes f r = Some rn" "n_id rn = FUSE_ROOT_ID" using session_okD(5) [OF ok] by blast
  have par: "n_parent n \<noteq> Some ?a" if "nodes f b = Some n" for b n
    using h that new_a by (fastforce simp: heap_ok_def node_ok_def)
  have "heap_ok {} {} (\<lambda>a. 0) ?ns"
    using h new_a by (rule heap_ok_add) (use c in \<open>auto simp: fresh_node_def\<close>)
  moreover have "(p, ?a) \<notin> (up ?ns)\<^sup>*"
  proof
    assume "(p, ?a) \<in> (up ?ns)\<^sup>*"
    then show False using ap par by (cases rule: rtranclE) (auto simp: up_def fresh_node_def split: if_splits)
  qed
  moreover have "\<not> named_child ?ns (n_id pn) name b" for b
    using new [of b] par by (auto simp: named_child_def fresh_node_def split: if_splits)
  ultimately have "heap_ok {} {} (\<lambda>a. 0) (nodes f')"
    unfolding f'(1) by (intro heap_ok_link) (use p ap root c in \<open>auto simp: fresh_node_def\<close>)
  moreover have d: "dom (nodes f') = insert ?a (dom (nodes f))" using p by (auto simp: f'(1) link_node_def)
  moreover have "lru_ok f'" using inv d f'(3,4) by (auto simp: fuse_inv_def lru_ok_def lru_enabled_def)
  moreover have "\<exists>n. nodes f' r = Some n \<and> n_id n = FUSE_ROOT_ID"
    using root p new_a by (cases "r = p"; cases "r = ?a") (auto simp: f'(1) link_node_def)
  moreover have "\<forall>b \<in> dom (nodes f'). b < nbrk f'" using ok d f'(2) by (auto simp: session_ok_def less_Suc_eq)
  ultimately show ?thesis using t by (auto simp: session_ok_def fuse_inv_def)
qed

lemma session_ok_counters:
  "session_ok f \<Longrightarrow> session_ok (f\<lparr>fctr := c, generation := g, nbrk := Suc (nbrk f)\<rparr>)"
  by (auto simp: session_ok_def fuse_inv_def lru_ok_def lru_enabled_def less_Suc_eq)

lemma new_node_number:
  assumes ok: "session_ok f" and few: "card (dom (nodes f)) < 2 ^ 32 - 2"
  shows "\<exists>c g. next_id (snd (alloc_node f)) = Some ((snd (alloc_node f))\<lparr>fctr := c, generation := g\<rparr>) \<and>
    (\<forall>b n. nodes f b = Some n \<longrightarrow> n_id n \<noteq> c)"
proof -
  let ?f = "snd (alloc_node f)"
  note inv = session_okD(1) [OF ok] and new = session_okD(2) [OF ok]
  have same: "get_node_nocheck ?f c = get_node_nocheck f c" for c
    using inv by (rule get_node_frame) (use new in \<open>auto simp: alloc_node_def\<close>)
  have "get_node_nocheck ?f c \<noteq> None" for c using get_node_iff [OF inv, of c] same by auto
  moreover obtain x where x: "0 < x" "x < FUSE_UNKNOWN_INO" "\<forall>b n. nodes f b = Some n \<longrightarrow> n_id n \<noteq> x"
    using free_number [OF session_okD(4) [OF ok] few] by blast
  moreover have "get_node_nocheck ?f x = Some None" using get_node_None [OF inv, of x] same x(3) by simp
  ultimately obtain c g where c: "next_id ?f = Some (?f\<lparr>fctr := c, generation := g\<rparr>)" "get_node_nocheck ?f c = Some None"
    using next_id_ok [of ?f x] by blast
  then show ?thesis using get_node_None [OF inv, of c] same [of c] by auto
qed

lemma new_node_ok:
  assumes ok: "session_ok f" and p: "nodes f p = Some pn" and new: "\<And>b. \<not> named_child (nodes f) (n_id pn) name b"
    and few: "card (dom (nodes f)) < 2 ^ 32 - 2"
  obtains r f' where "new_node e f (n_id pn) name = Some (r, f')" and "session_ok f'" and "node_added f p pn name r f'"
    and "node_mem e \<and> (length name < 32 \<or> name_mem e) \<longrightarrow> r \<noteq> None"
proof (cases "node_mem e")
  case False
  then show ?thesis using that [of None f] ok by (simp add: new_node_def node_added_def)
next
  case True
  let ?a = "nbrk f" and ?f = "snd (alloc_node f)"
  obtain c g where c: "next_id ?f = Some (?f\<lparr>fctr := c, generation := g\<rparr>)" "\<And>b n. nodes f b = Some n \<Longrightarrow> n_id n \<noteq> c"
    using new_node_number [OF ok few] by blast
  note a = session_okD(2) [OF ok]
  let ?r = "if remember f \<noteq> 0 then 1 else (0 :: nat)"
  define m where "m = (fresh_node f c g)\<lparr>n_ref := int ?r, n_lookup := ?r\<rparr>"
  define f4 where "f4 = f\<lparr>nodes := (nodes f)(?a \<mapsto> m), fctr := c, generation := g, nbrk := Suc ?a\<rparr>"
  let ?hash = "\<lambda>f5. case f5 of None \<Rightarrow> None | Some (r, f5) \<Rightarrow> if r = - 1 then Some (None, free_node ?a f5)
      else Option.bind (hash_id e f5 ?a) (\<lambda>f6. map_option (Pair (Some ?a)) (inc_nlookup f6 ?a))"
  have e: "new_node e f (n_id pn) name = ?hash (hash_name e f4 ?a (n_id pn) name)"
  proof -
    define f1 where "f1 = ?f"
    have al: "alloc_node f = (?a, f1)" by (simp add: f1_def alloc_node_def)
    have n: "next_id f1 = Some (f1\<lparr>fctr := c, generation := g\<rparr>)" using c(1) by (simp add: f1_def)
    have f2: "nodes (f1\<lparr>fctr := c, generation := g\<rparr>) ?a = Some ((fresh_node f 0 0)\<lparr>n_ref := 0, n_lookup := 0\<rparr>)"
      by (simp add: f1_def alloc_node_def fresh_node_def)
    let ?f3 = "set_node ?a ((fresh_node f 0 0)\<lparr>n_ref := 0, n_lookup := 0, n_id := fctr (f1\<lparr>fctr := c, generation := g\<rparr>),
        n_gen := generation (f1\<lparr>fctr := c, generation := g\<rparr>)\<rparr>) (f1\<lparr>fctr := c, generation := g\<rparr>)"
    have f4: "(if remember ?f3 \<noteq> 0 then inc_nlookup ?f3 ?a else Some ?f3) = Some f4"
      by (simp add: inc_nlookup_def set_node_def alloc_node_def m_def f4_def fresh_node_def f1_def)
    have "new_node e f (n_id pn) name = Option.bind (hash_name e f4 ?a (n_id pn) name)
        (\<lambda>(r, f5). if r = - 1 then Some (None, free_node ?a f5)
          else Option.bind (hash_id e f5 ?a) (\<lambda>f6. Option.bind (inc_nlookup f6 ?a) (\<lambda>f7. Some (Some ?a, f7))))"
      unfolding new_node_def Let_def
      by (simp only: al prod.case n bind.bind_lunit f2 f4 True if_False not_True_eq_False)
    then show ?thesis by (auto split: option.split bind_split)
  qed
  show ?thesis
  proof (cases "length name < 32 \<or> name_mem e")
    case False
    have "get_node f4 (n_id pn) = Some p"
    proof -
      have "get_node_nocheck f4 (n_id pn) = get_node_nocheck f (n_id pn)"
        using session_okD(1) [OF ok] by (rule get_node_frame) (use a in \<open>auto simp: f4_def\<close>)
      then show ?thesis using get_node_Some [OF session_okD(1) [OF ok] p] by (simp add: get_node_def)
    qed
    then have "new_node e f (n_id pn) name = Some (None, free_node ?a (set_node ?a (m\<lparr>n_name := None\<rparr>) f4))"
      using False by (simp add: e hash_name_def f4_def)
    moreover have "free_node ?a (set_node ?a (m\<lparr>n_name := None\<rparr>) f4) = f\<lparr>fctr := c, generation := g, nbrk := Suc ?a\<rparr>"
      using a by (simp add: free_node_def set_node_def f4_def fun_upd_idem)
    ultimately show ?thesis using that [of None "f\<lparr>fctr := c, generation := g, nbrk := Suc ?a\<rparr>"] False session_ok_counters [OF ok]
      by (simp add: node_added_def)
  next
    case mem: True
    let ?m = "fresh_node f c g"
    let ?ns = "link_node ?a ?m p pn name ((nodes f)(?a \<mapsto> ?m))"
    obtain f5 f6 t t' where h: "hash_name e f4 ?a (n_id pn) name = Some (0, f5)" "hash_id e f5 ?a = Some f6"
        "inc_nlookup f6 ?a = Some (f4\<lparr>nodes := ?ns, id_table := t, name_table := t'\<rparr>)"
        "table_ok (id_raw ?ns) (insert ?a (dom (nodes f))) t" "table_ok (name_raw ?ns) (linked_nodes ?ns) t'"
      by (rule new_node_tables [of f p pn m c ?m f4 name e, OF ok p])
         (use mem in \<open>auto simp: m_def f4_def fresh_node_def\<close>)
    let ?f = "f4\<lparr>nodes := ?ns, id_table := t, name_table := t'\<rparr>"
    have "session_ok ?f" using ok p new c(2) by (rule session_ok_added) (use h(4,5) in \<open>simp_all add: f4_def\<close>)
    moreover obtain r rn where "nodes f r = Some rn" "n_id rn = FUSE_ROOT_ID" using session_okD(5) [OF ok] by blast
    then have "c \<noteq> FUSE_ROOT_ID" using c(2) by auto
    then have "node_added f p pn name (Some ?a) ?f" using a by (auto simp: node_added_def f4_def)
    moreover have "new_node e f (n_id pn) name = Some (Some ?a, ?f)" using e h(1-3) by simp
    ultimately show ?thesis using that by blast
  qed
qed

end
