(* ===== verification/Fuse_Requests.thy ===== *)
theory Fuse_Requests
  imports Fuse_Node_Ops
begin

text \<open>
  The requests that change the nodes of the FUSE library: looking up a name, looking up a node again,
  forgetting, removing, renaming and cleaning the list of nodes to be forgotten. Each keeps the invariant
  as long as the kernel keeps its side of the protocol, and no request aborts the program.
\<close>

section \<open>Nodes to be forgotten\<close>

text \<open>The nodes in the list have one lookup left, and the root is not among them.\<close>

definition lru_one :: "fuse \<Rightarrow> bool" where
  "lru_one f \<longleftrightarrow> (\<forall>a \<in> set (lru_table f). \<forall>n. nodes f a = Some n \<longrightarrow> n_lookup n = 1 \<and> n_id n \<noteq> FUSE_ROOT_ID)"

definition nodes_ok :: "fuse \<Rightarrow> bool" where
  "nodes_ok f \<longleftrightarrow> session_ok f \<and> lru_one f"

lemma unhash_id_lru: "unhash_id e f a = Some f' \<Longrightarrow> lru_table f' = lru_table f"
  by (auto simp: unhash_id_def bind_eq_Some_conv split: option.splits)

lemma set_lru_remove: "set (lru_table (lru_remove a f)) \<subseteq> set (lru_table f)"
  by (simp add: lru_remove_def set_remove1_subset)

lemma unref_lru:
  shows "unref_node e f a = Some f' \<Longrightarrow> set (lru_table f') \<subseteq> set (lru_table f)"
    and "delete_node e f a = Some f' \<Longrightarrow> set (lru_table f') \<subseteq> set (lru_table f)"
    and "unhash_name e f a = Some f' \<Longrightarrow> set (lru_table f') \<subseteq> set (lru_table f)"
proof (induction e f a and e f a and e f a arbitrary: f' and f' and f' rule: unref_node_delete_node_unhash_name.induct)
  case (1 e f a)
  then show ?case by (fastforce simp: unref_node.simps [of e f a] bind_eq_Some_conv Let_def split: if_splits)
next
  case (2 e f a)
  obtain n where n: "nodes f a = Some n" "n_treelock n = 0"
    using "2.prems" by (cases "nodes f a") (auto simp: delete_node.simps [of e f a] split: if_split_asm)
  with "2.prems" obtain f1 f2 where f: "unhash_name e f a = Some f1"
      "unhash_id e (if lru_enabled f1 then lru_remove a f1 else f1) a = Some f2" "f' = f2\<lparr>nodes := (nodes f2)(a := None)\<rparr>"
    by (auto simp: delete_node.simps [of e f a] bind_eq_Some_conv)
  have "set (lru_table f1) \<subseteq> set (lru_table f)" using "2.IH" [OF n(1)] n(2) f(1) by simp
  then show ?case using unhash_id_lru [OF f(2)] set_lru_remove [of a f1] f(3) by (auto split: if_splits)
next
  case (3 e f a)
  show ?case
  proof (cases "\<exists>n. nodes f a = Some n \<and> n_name n = None")
    case True
    then show ?thesis using "3.prems" by (auto simp: unhash_name.simps [of e f a])
  next
    case False
    with "3.prems" obtain n nm p pn t f1 where f: "nodes f a = Some n" "n_name n = Some nm" "n_parent n = Some p" "nodes f p = Some pn"
        "table_unlink (raw_name (n_id pn) nm) a (name_table f) = Some (Some t)" "unref_node e (f\<lparr>name_table := t\<rparr>) p = Some f1"
        "lru_table f' = lru_table f1"
      by (auto simp: unhash_name.simps [of e f a] bind_eq_Some_conv split: option.splits)
    have "set (lru_table f1) \<subseteq> set (lru_table (f\<lparr>name_table := t\<rparr>))"
      using "3.IH" [OF f(1,2,3,4,5) refl f(6)] .
    then show ?thesis using f(7) by simp
  qed
qed

text \<open>A change that keeps the numbers and lookups of the remaining nodes of the list.\<close>

lemma lru_one_mono:
  assumes "lru_one f" and "set (lru_table f') \<subseteq> set (lru_table f)"
    and "\<And>a n'. a \<in> set (lru_table f') \<Longrightarrow> nodes f' a = Some n' \<Longrightarrow>
      \<exists>n. nodes f a = Some n \<and> n_lookup n' = n_lookup n \<and> n_id n' = n_id n"
  shows "lru_one f'"
  using assms unfolding lru_one_def by (metis subsetD)

section \<open>Dropping nodes\<close>

text \<open>What is left of a state when references were dropped: no node that the kernel knows is lost.\<close>

definition drops :: "fuse \<Rightarrow> fuse \<Rightarrow> bool" where
  "drops f f' \<longleftrightarrow> (\<forall>b n'. nodes f' b = Some n' \<longrightarrow> (\<exists>n. nodes f b = Some n \<and> n_id n' = n_id n \<and> n_gen n' = n_gen n \<and>
       n_lookup n' = n_lookup n)) \<and>
     (\<forall>b n. nodes f b = Some n \<longrightarrow> 0 < n_lookup n \<longrightarrow> b \<in> dom (nodes f')) \<and>
     set (lru_table f') \<subseteq> set (lru_table f) \<and> remember f' = remember f \<and> nbrk f' = nbrk f"

lemma drops_refl [simp]: "drops f f"
  by (auto simp: drops_def)

lemma drops_back:
  "drops f f' \<Longrightarrow> nodes f' b = Some n' \<Longrightarrow>
    \<exists>n. nodes f b = Some n \<and> n_id n' = n_id n \<and> n_gen n' = n_gen n \<and> n_lookup n' = n_lookup n"
  by (simp add: drops_def)

lemma drops_keep:
  assumes "drops f f'" and b: "nodes f b = Some n" "0 < n_lookup n"
  shows "\<exists>n'. nodes f' b = Some n' \<and> n_id n' = n_id n \<and> n_gen n' = n_gen n \<and> n_lookup n' = n_lookup n"
proof -
  have "b \<in> dom (nodes f')" using assms unfolding drops_def by blast
  then obtain n' where n': "nodes f' b = Some n'" by blast
  then show ?thesis using drops_back [OF assms(1) n'] b(1) by auto
qed

lemma dropsD:
  assumes "drops f f'"
  shows "set (lru_table f') \<subseteq> set (lru_table f)" and "remember f' = remember f" and "nbrk f' = nbrk f"
    and "dom (nodes f') \<subseteq> dom (nodes f)"
  using assms drops_back [OF assms] by (simp_all add: drops_def) blast

lemma drops_trans:
  assumes a: "drops f g" "drops g h"
  shows "drops f h"
proof -
  have "\<exists>n. nodes f b = Some n \<and> n_id n' = n_id n \<and> n_gen n' = n_gen n \<and> n_lookup n' = n_lookup n" if b: "nodes h b = Some n'" for b n'
  proof -
    obtain m where m: "nodes g b = Some m" "n_id n' = n_id m" "n_gen n' = n_gen m" "n_lookup n' = n_lookup m"
      using drops_back [OF a(2) b] by blast
    then show ?thesis using drops_back [OF a(1) m(1)] by simp
  qed
  moreover have "b \<in> dom (nodes h)" if b: "nodes f b = Some n" "0 < n_lookup n" for b n
  proof -
    obtain m where m: "nodes g b = Some m" "n_lookup m = n_lookup n" using drops_keep [OF a(1) b] by blast
    then show ?thesis using drops_keep [OF a(2) m(1)] b(2) by auto
  qed
  ultimately show ?thesis using a by (auto simp: drops_def)
qed

lemma shrinks_drops:
  assumes "shrinks U f f'" and "set (lru_table f') \<subseteq> set (lru_table f)"
  shows "drops f f'"
proof -
  have "\<exists>n. nodes f b = Some n \<and> n_id n' = n_id n \<and> n_gen n' = n_gen n \<and> n_lookup n' = n_lookup n" if b: "nodes f' b = Some n'" for b n'
  proof -
    obtain n where "nodes f b = Some n" "same_node n n'" using shrinks_back [OF assms(1) b] by blast
    then show ?thesis using same_nodeD(1,2,5) by blast
  qed
  moreover have "b \<in> dom (nodes f')" if b: "nodes f b = Some n" "0 < n_lookup n" for b n
    using shrinks_keeps [OF assms(1) b(1)] b(2) by blast
  ultimately show ?thesis using assms by (simp add: drops_def shrinks_def)
qed

lemma unhashed_drops:
  assumes "unhashed U a f f'" and "set (lru_table f') \<subseteq> set (lru_table f)"
  shows "drops f f'"
proof -
  obtain g n where g: "shrinks (insert a U) f g" "nodes g a = Some n" "nodes f' = (nodes g)(a \<mapsto> n\<lparr>n_name := None, n_parent := None\<rparr>)"
      "remember f' = remember f" "nbrk f' = nbrk f" using assms(1) by (auto simp: unhashed_def)
  let ?g = "g\<lparr>lru_table := lru_table f'\<rparr>"
  have "drops f ?g" by (rule shrinks_drops [of "insert a U"]) (use g(1) assms(2) in \<open>simp_all add: shrinks_def\<close>)
  moreover have "drops ?g f'" using g \<open>drops f ?g\<close> by (auto simp: drops_def)
  ultimately show ?thesis by (rule drops_trans)
qed

text \<open>The parts of the invariant that hold while a reference is dropped, with exceptions \<open>D\<close>.\<close>

definition pre_ok :: "addr set \<Rightarrow> fuse \<Rightarrow> bool" where
  "pre_ok D f \<longleftrightarrow> (\<forall>a \<in> dom (nodes f). a < nbrk f) \<and> (\<exists>a n. nodes f a = Some n \<and> n_id n = FUSE_ROOT_ID \<and> 0 < n_lookup n) \<and>
     (\<forall>a \<in> set (lru_table f) - D. \<forall>n. nodes f a = Some n \<longrightarrow> n_lookup n = 1 \<and> n_id n \<noteq> FUSE_ROOT_ID)"

lemma pre_ok_drops:
  assumes pre: "pre_ok D f" and d: "drops f f'"
  shows "pre_ok D f'"
proof -
  obtain r rn where r: "nodes f r = Some rn" "n_id rn = FUSE_ROOT_ID" "0 < n_lookup rn" using pre by (auto simp: pre_ok_def)
  then have "\<exists>r n. nodes f' r = Some n \<and> n_id n = FUSE_ROOT_ID \<and> 0 < n_lookup n" using drops_keep [OF d r(1,3)] r by metis
  moreover have "n_lookup n' = 1 \<and> n_id n' \<noteq> FUSE_ROOT_ID" if b: "b \<in> set (lru_table f') - D" "nodes f' b = Some n'" for b n'
  proof -
    obtain n where n: "nodes f b = Some n" "n_id n' = n_id n" "n_lookup n' = n_lookup n" using drops_back [OF d b(2)] by blast
    have "b \<in> set (lru_table f) - D" using b(1) dropsD(1) [OF d] by blast
    then show ?thesis using pre n unfolding pre_ok_def by metis
  qed
  moreover have "\<forall>a \<in> dom (nodes f'). a < nbrk f'" using pre dropsD(3,4) [OF d] by (auto simp: pre_ok_def)
  ultimately show ?thesis by (auto simp: pre_ok_def)
qed

lemma nodes_ok_iff: "nodes_ok f \<longleftrightarrow> fuse_ok f \<and> pre_ok {} f"
proof -
  have "fuse_ok f \<Longrightarrow> nodes f a = Some n \<Longrightarrow> n_id n = FUSE_ROOT_ID \<Longrightarrow> 0 < n_lookup n" for a n
    by (simp add: fuse_inv_def heap_ok_def node_ok_def)
  then show ?thesis unfolding nodes_ok_def session_ok_def lru_one_def pre_ok_def by auto
qed

lemma pre_ok_set:
  assumes ok: "nodes_ok f" and a: "nodes f a = Some n" and n': "n_id n' = n_id n" "n_id n = FUSE_ROOT_ID \<Longrightarrow> 0 < n_lookup n'"
    and l: "a \<in> set (lru_table f) \<Longrightarrow> a \<notin> D \<Longrightarrow> n_lookup n' = n_lookup n"
  shows "pre_ok D (set_node a n' f)"
proof -
  have pre: "pre_ok {} f" using ok by (simp add: nodes_ok_iff)
  then obtain r rn where r: "nodes f r = Some rn" "n_id rn = FUSE_ROOT_ID" "0 < n_lookup rn" by (auto simp: pre_ok_def)
  have "\<exists>r n. nodes (set_node a n' f) r = Some n \<and> n_id n = FUSE_ROOT_ID \<and> 0 < n_lookup n"
    using r a n' by (intro exI [of _ r]) (cases "r = a"; auto)
  moreover have "b < nbrk f" if "b \<in> dom (nodes (set_node a n' f))" for b
    using that a pre by (cases "b = a") (auto simp: pre_ok_def)
  moreover have "n_lookup m = 1 \<and> n_id m \<noteq> FUSE_ROOT_ID" if "b \<in> set (lru_table f) - D" "nodes (set_node a n' f) b = Some m" for b m
    using that a n' l pre by (cases "b = a") (auto simp: pre_ok_def)
  ultimately show ?thesis by (simp add: pre_ok_def)
qed

lemma nodes_ok_dropped:
  assumes "pre_ok D g" and "drops g f'" and "fuse_ok f'" and "D \<inter> set (lru_table f') = {}"
  shows "nodes_ok f'"
  using pre_ok_drops [OF assms(1,2)] assms(3,4) by (auto simp: nodes_ok_iff pre_ok_def)

section \<open>Finding and forgetting\<close>

text \<open>A node that only changes its counters, times and flags, from outside.\<close>

lemma session_ok_upd:
  assumes "session_ok f" and "nodes f a = Some n" and "n_id n' = n_id n" and "fuse_ok (set_node a n' f)"
  shows "session_ok (set_node a n' f)"
proof -
  obtain r rn where r: "nodes f r = Some rn" "n_id rn = FUSE_ROOT_ID" using session_okD(5) [OF assms(1)] by blast
  have "\<exists>r rn. nodes (set_node a n' f) r = Some rn \<and> n_id rn = FUSE_ROOT_ID"
    using r assms(2,3) by (intro exI [of _ r]) (cases "r = a"; auto)
  moreover have "b < nbrk f" if "b \<in> dom (nodes (set_node a n' f))" for b
    using that assms(1,2) by (cases "b = a") (auto simp: session_ok_def)
  ultimately show ?thesis using assms(4) unfolding session_ok_def by simp
qed

lemma session_ok_lru_remove: "session_ok f \<Longrightarrow> session_ok (lru_remove a f)"
  using fuse_inv_lru_remove [of "{}" "{}" "\<lambda>a. 0" f a] by (auto simp: session_ok_def lru_remove_def)

text \<open>A node that is found counts one more lookup, and leaves the list of nodes to be forgotten.\<close>

lemma found_ok:
  assumes ok: "nodes_ok f" and a: "nodes f a = Some n" "n_lookup n + 1 < 2 ^ 64"
  obtains f' r where "inc_nlookup (if lru_enabled f \<and> n_lookup n = 1 then lru_remove a f else f) a = Some f'" and "nodes_ok f'"
    and "nodes f' = (nodes f)(a \<mapsto> n\<lparr>n_ref := r, n_lookup := n_lookup n + 1\<rparr>)" and "remember f' = remember f"
proof -
  define g where "g = (if lru_enabled f \<and> n_lookup n = 1 then lru_remove a f else f)"
  have g: "session_ok g" "nodes g = nodes f" "set (lru_table g) \<subseteq> set (lru_table f)" "remember g = remember f"
    using ok session_ok_lru_remove set_lru_remove [of a f] by (simp_all add: nodes_ok_def lru_remove_def g_def)
  have "a \<notin> set (lru_table g)"
  proof (cases "lru_enabled f \<and> n_lookup n = 1")
    case True
    moreover have "distinct (lru_table f)" using ok by (simp add: nodes_ok_def session_ok_def fuse_inv_def lru_ok_def)
    ultimately show ?thesis by (simp add: lru_remove_def g_def)
  next
    case False
    then show ?thesis using ok a(1) by (auto simp: nodes_ok_def lru_one_def session_ok_def fuse_inv_def lru_ok_def g_def)
  qed
  obtain f' r where f': "inc_nlookup g a = Some f'" "fuse_ok f'" "f' = set_node a (n\<lparr>n_ref := r, n_lookup := n_lookup n + 1\<rparr>) g"
    by (rule inc_nlookup_ok [OF session_okD(1) [OF g(1)], of a n]) (use g(2) a in auto)
  have "session_ok f'" unfolding f'(3) using g(1) by (rule session_ok_upd) (use g(2) a f' in auto)
  moreover have "lru_one f'" by (rule lru_one_mono [of f]) (use ok g(2,3) f'(3) \<open>a \<notin> set (lru_table g)\<close> in \<open>auto simp: nodes_ok_def split: if_splits\<close>)
  ultimately show ?thesis using that f'(1,3) g(2,4) by (simp add: nodes_ok_def g_def)
qed

text \<open>
  A lookup: the node is there, or is created. The result is the node of that name, and only it and its parent
  change.
\<close>

definition looked_up :: "addr \<Rightarrow> fuse \<Rightarrow> fuse \<Rightarrow> bool" where
  "looked_up a f f' \<longleftrightarrow> (\<forall>b n. nodes f b = Some n \<longrightarrow> (\<exists>n'. nodes f' b = Some n' \<and> n_id n' = n_id n \<and> n_gen n' = n_gen n \<and>
     n_parent n' = n_parent n \<and> n_name n' = n_name n \<and> n_lookup n' = n_lookup n + (if b = a then 1 else 0))) \<and>
     dom (nodes f') = insert a (dom (nodes f)) \<and> remember f' = remember f"

lemma find_again_ok:
  assumes ok: "nodes_ok f" and a: "nodes f a = Some n" "n_lookup n + 1 < 2 ^ 64"
  obtains f' where "find_node e f (n_id n) None = Some (Some a, f')" and "nodes_ok f'" and "looked_up a f f'"
proof -
  have g: "get_node f (n_id n) = Some a" using ok a(1) by (auto simp: nodes_ok_def dest!: session_okD(1) intro: get_node_Some)
  obtain f' r where f': "inc_nlookup (if lru_enabled f \<and> n_lookup n = 1 then lru_remove a f else f) a = Some f'" "nodes_ok f'"
      "nodes f' = (nodes f)(a \<mapsto> n\<lparr>n_ref := r, n_lookup := n_lookup n + 1\<rparr>)" "remember f' = remember f"
    using ok a by (rule found_ok)
  have "find_node e f (n_id n) None = Some (Some a, f')" using g f'(1) a(1) by (simp add: find_node_def)
  moreover have "looked_up a f f'" using a(1) f'(3,4) by (auto simp: looked_up_def)
  ultimately show ?thesis using that f'(2) by blast
qed

lemma find_known_ok:
  assumes ok: "nodes_ok f" and a: "nodes f a = Some n" "n_lookup n + 1 < 2 ^ 64" and c: "named_child (nodes f) parent name a"
  obtains f' where "find_node e f parent (Some name) = Some (Some a, f')" and "nodes_ok f'" and "looked_up a f f'"
proof -
  have "fuse_ok f" using ok by (simp add: nodes_ok_def session_ok_def)
  then have l: "lookup_node f parent name = Some (Some a)" using c lookup_node_iff [of "{}" "\<lambda>a. 0" f parent name] by auto
  obtain f' r where f': "inc_nlookup (if lru_enabled f \<and> n_lookup n = 1 then lru_remove a f else f) a = Some f'" "nodes_ok f'"
      "nodes f' = (nodes f)(a \<mapsto> n\<lparr>n_ref := r, n_lookup := n_lookup n + 1\<rparr>)" "remember f' = remember f"
    using ok a by (rule found_ok)
  have "find_node e f parent (Some name) = Some (Some a, f')" using l f'(1) a(1) by (simp add: find_node_def)
  moreover have "looked_up a f f'" using a(1) f'(3,4) by (auto simp: looked_up_def)
  ultimately show ?thesis using that f'(2) by blast
qed

lemma find_new_ok:
  assumes ok: "nodes_ok f" and p: "nodes f p = Some pn" and new: "\<And>b. \<not> named_child (nodes f) (n_id pn) name b"
    and few: "card (dom (nodes f)) < 2 ^ 32 - 2"
  obtains r f' where "find_node e f (n_id pn) (Some name) = Some (r, f')" and "nodes_ok f'"
    and "case r of None \<Rightarrow> nodes f' = nodes f | Some a \<Rightarrow> looked_up a f f' \<and> named_child (nodes f') (n_id pn) name a"
    and "node_mem e \<and> (length name < 32 \<or> name_mem e) \<longrightarrow> r \<noteq> None" and "remember f' = remember f"
    and "\<And>a. r = Some a \<Longrightarrow> nodes f a = None \<and> (\<exists>m. nodes f' a = Some m \<and> n_lookup m = (if remember f \<noteq> 0 then 2 else 1))"
proof -
  have s: "session_ok f" "fuse_ok f" using ok by (simp_all add: nodes_ok_def session_ok_def)
  obtain x where x: "lookup_node f (n_id pn) name = Some x" "\<forall>a. x = Some a \<longleftrightarrow> named_child (nodes f) (n_id pn) name a"
    using lookup_node_iff [OF s(2), of "n_id pn" name] by blast
  then have "x = None" using new by (cases x) auto
  then have find: "find_node e f (n_id pn) (Some name) = new_node e f (n_id pn) name" using x(1) by (simp add: find_node_def)
  obtain r f' where f': "new_node e f (n_id pn) name = Some (r, f')" "session_ok f'" "node_added f p pn name r f'"
      "node_mem e \<and> (length name < 32 \<or> name_mem e) \<longrightarrow> r \<noteq> None"
    using s(1) p new few by (rule new_node_ok [where e = e])
  have "lru_one f' \<and> (case r of None \<Rightarrow> nodes f' = nodes f | Some a \<Rightarrow> looked_up a f f' \<and> named_child (nodes f') (n_id pn) name a)"
  proof (cases r)
    case None
    then show ?thesis using f'(3) ok by (auto simp: node_added_def nodes_ok_def lru_one_def)
  next
    case (Some a)
    then obtain c g where a: "nodes f a = None" "nodes f' = link_node a (fresh_node f c g) p pn name ((nodes f)(a \<mapsto> fresh_node f c g))"
        "lru_table f' = lru_table f" using f'(3) by (auto simp: node_added_def)
    have ap: "a \<noteq> p" using a(1) p by auto
    have old: "nodes f' b = Some (if b = p then pn\<lparr>n_ref := n_ref pn + 1\<rparr> else n)" if "nodes f b = Some n" for b n
      using that a(1,2) p by (auto simp: link_node_def)
    have "looked_up a f f'" using old a(1,2) p f'(3) by (auto simp: looked_up_def link_node_def node_added_def)
    moreover have "named_child (nodes f') (n_id pn) name a" using a(2) ap by (auto simp: named_child_def link_node_def)
    moreover have "lru_one f'"
    proof (rule lru_one_mono [of f])
      fix b n' assume b: "b \<in> set (lru_table f')" "nodes f' b = Some n'"
      have "b \<in> dom (nodes f)" using b(1) a(3) s(2) by (auto simp: fuse_inv_def lru_ok_def)
      then obtain n where "nodes f b = Some n" by blast
      then show "\<exists>n. nodes f b = Some n \<and> n_lookup n' = n_lookup n \<and> n_id n' = n_id n" using old b(2) p by (cases "b = p") auto
    qed (use ok a(3) in \<open>auto simp: nodes_ok_def\<close>)
    ultimately show ?thesis using Some by simp
  qed
  moreover have "nodes f a = None \<and> (\<exists>m. nodes f' a = Some m \<and> n_lookup m = (if remember f \<noteq> 0 then 2 else 1))" if "r = Some a" for a
    using f'(3) that p by (auto simp: node_added_def link_node_def fresh_node_def)
  moreover have "remember f' = remember f" using f'(3) by (simp add: node_added_def)
  ultimately show ?thesis using that f' find by (simp add: nodes_ok_def)
qed

lemma node_okD:
  assumes "nodes_ok f" and "nodes f a = Some n"
  shows "n_treelock n = 0" and "ref_ok {} (\<lambda>a. 0) (nodes f) a n" and "get_node f (n_id n) = Some a"
    and "n_id n = FUSE_ROOT_ID \<Longrightarrow> n_parent n = None" and "n_id n = FUSE_ROOT_ID \<Longrightarrow> 0 < n_lookup n"
  using assms get_node_Some [of "{}" "{}" "\<lambda>a. 0" f a n] by (auto simp: nodes_ok_iff fuse_inv_def heap_ok_def node_ok_def)

text \<open>Forgetting some lookups of a node, and all of them.\<close>

lemma forget_some_ok:
  assumes ok: "nodes_ok f" and a: "nodes f a = Some n" "n_id n \<noteq> FUSE_ROOT_ID" "a \<notin> set (lru_table f)" and k: "k < n_lookup n"
  obtains f' t where "forget_node e f (n_id n) k = Some (Done f')" and "nodes_ok f'"
    and "nodes f' = (nodes f)(a \<mapsto> n\<lparr>n_lookup := n_lookup n - k, n_forget := t\<rparr>)" and "remember f' = remember f"
proof -
  note d = node_okD [OF ok a(1)]
  let ?n = "\<lambda>t. n\<lparr>n_lookup := n_lookup n - k, n_forget := t\<rparr>"
  let ?f1 = "set_node a (n\<lparr>n_lookup := n_lookup n - k\<rparr>) f"
  have inv: "fuse_ok (set_node a (?n t) f)" for t
    using ok d(2) k by (intro fuse_inv_upd [OF _ a(1)]) (auto simp: nodes_ok_iff ref_ok_def)
  have pre: "pre_ok {} (set_node a (?n t) f)" for t using ok a(1) by (rule pre_ok_set) (use a k in auto)
  note e = forget_node_def d(1,3) a(1,2)
  show ?thesis
  proof (cases "lru_enabled f \<and> n_lookup n - k = 1")
    case True
    let ?f = "(set_node a (?n (now e)) f)\<lparr>lru_table := lru_table f @ [a]\<rparr>"
    have "distinct (lru_table f)" "set (lru_table f) \<subseteq> dom (nodes f)" using ok by (auto simp: nodes_ok_iff fuse_inv_def lru_ok_def)
    then have "fuse_ok ?f" by (intro fuse_inv_lru [OF inv]) (use a True in \<open>auto simp: lru_enabled_def\<close>)
    moreover have "pre_ok {} ?f" using pre [of "now e"] True a(2) by (auto simp: pre_ok_def)
    moreover have "forget_node e f (n_id n) k = Some (Done ?f)"
      using True k a(3) by (simp add: e set_forget_time_def remove1_idem set_node_def)
    ultimately show ?thesis using that [of ?f "now e"] by (simp add: nodes_ok_iff)
  next
    case False
    have "forget_node e f (n_id n) k = Some (Done ?f1)" using False k by (cases "lru_enabled f") (simp_all add: e Let_def)
    moreover have "?n (n_forget n) = n\<lparr>n_lookup := n_lookup n - k\<rparr>" by simp
    ultimately show ?thesis
      by (intro that [of ?f1 "n_forget n"]) (use inv [of "n_forget n"] pre [of "n_forget n"] in \<open>simp_all add: nodes_ok_iff\<close>)
  qed
qed

text \<open>A reference that is dropped when the last lookup is gone.\<close>

lemma last_lookup:
  assumes ok: "nodes_ok f" and a: "nodes f a = Some n" "n_id n \<noteq> FUSE_ROOT_ID" "0 < n_lookup n"
  shows "fuse_inv {} {} ((\<lambda>a. 0)(a := Suc 0)) (set_node a (n\<lparr>n_lookup := 0\<rparr>) f)"
  using ok node_okD(2) [OF ok a(1)] a by (intro fuse_inv_upd [OF _ a(1)]) (auto simp: nodes_ok_iff ref_ok_def)

lemma forget_all_ok:
  assumes ok: "nodes_ok f" and a: "nodes f a = Some n" "n_id n \<noteq> FUSE_ROOT_ID" "a \<notin> set (lru_table f)" "0 < n_lookup n"
  obtains f' where "forget_node e f (n_id n) (n_lookup n) = Some (Done f')" and "nodes_ok f'" and "drops (set_node a (n\<lparr>n_lookup := 0\<rparr>) f) f'"
proof -
  let ?f = "set_node a (n\<lparr>n_lookup := 0\<rparr>) f"
  obtain f' where f': "unref_node e ?f a = Some f'" "fuse_ok f'" "shrinks {} ?f f'"
    using unref_ok [of "{}" "{}" "\<lambda>a. 0" a ?f e] last_lookup [OF ok a(1,2,4)] by auto
  have d: "drops ?f f'" using f'(3) unref_lru(1) [OF f'(1)] by (rule shrinks_drops)
  have "pre_ok {} ?f" using ok a(1) by (rule pre_ok_set) (use a in auto)
  then have "nodes_ok f'" using d f'(2) by (rule nodes_ok_dropped) simp
  then show ?thesis using that f'(1) d node_okD(1,3) [OF ok a(1)] a(1,2) by (simp add: forget_node_def)
qed

section \<open>Removing and renaming\<close>

text \<open>Nodes that the kernel knows stay known.\<close>

definition kept :: "addr set \<Rightarrow> fuse \<Rightarrow> fuse \<Rightarrow> bool" where
  "kept D f f' \<longleftrightarrow> (\<forall>b n. nodes f b = Some n \<longrightarrow> 0 < n_lookup n \<longrightarrow> b \<notin> D \<longrightarrow>
     (\<exists>n'. nodes f' b = Some n' \<and> n_id n' = n_id n \<and> n_gen n' = n_gen n \<and> 0 < n_lookup n'))"

lemma keptD:
  assumes "kept D f f'" and "nodes f b = Some n" and "0 < n_lookup n" and "b \<notin> D"
  obtains n' where "nodes f' b = Some n'" and "n_id n' = n_id n" and "n_gen n' = n_gen n" and "0 < n_lookup n'"
  using assms unfolding kept_def by blast

lemma kept_trans:
  assumes "kept D f g" and "kept D g h"
  shows "kept D f h"
  unfolding kept_def
proof (intro allI impI)
  fix b n
  assume b: "nodes f b = Some n" "0 < n_lookup n" "b \<notin> D"
  obtain m where m: "nodes g b = Some m" "n_id m = n_id n" "n_gen m = n_gen n" "0 < n_lookup m" using assms(1) b by (rule keptD)
  obtain k where "nodes h b = Some k" "n_id k = n_id m" "n_gen k = n_gen m" "0 < n_lookup k" using assms(2) m(1,4) b(3) by (rule keptD)
  then show "\<exists>n'. nodes h b = Some n' \<and> n_id n' = n_id n \<and> n_gen n' = n_gen n \<and> 0 < n_lookup n'" using m(2,3) by auto
qed

lemma drops_kept: "drops f f' \<Longrightarrow> kept D f f'"
  unfolding kept_def using drops_keep by metis

lemma looked_up_kept: "looked_up a f f' \<Longrightarrow> kept D f f'"
  unfolding kept_def looked_up_def by fastforce

lemma set_kept:
  "nodes f a = Some n \<Longrightarrow> n_id n' = n_id n \<Longrightarrow> n_gen n' = n_gen n \<Longrightarrow> 0 < n_lookup n' \<or> a \<in> D \<Longrightarrow> kept D f (set_node a n' f)"
  by (auto simp: kept_def)

text \<open>Taking away the name of a node leaves all other names.\<close>

lemma unhashed_named:
  assumes u: "unhashed {} a f f'" and c: "named_child (nodes f') d name c"
  shows "c \<noteq> a" and "named_child (nodes f) d name c"
proof -
  obtain g n where g: "shrinks {a} f g" "nodes g a = Some n" "nodes f' = (nodes g)(a \<mapsto> n\<lparr>n_name := None, n_parent := None\<rparr>)"
    using u by (auto simp: unhashed_def)
  obtain m p pn where m: "nodes f' c = Some m" "n_parent m = Some p" "nodes f' p = Some pn" "n_id pn = d" "n_name m = Some name"
    using c by (auto simp: named_child_def)
  show ca: "c \<noteq> a" using m(1,2) g(3) by (auto split: if_splits)
  have id: "\<exists>pm. nodes g p = Some pm \<and> n_id pm = d" using m(3,4) g(2,3) by (cases "p = a") auto
  have "nodes g c = Some m" using m(1) ca g(3) by simp
  then have "named_child (nodes g) d name c" using id m(2,5) by (auto simp: named_child_def)
  then obtain p pn where gc: "n_parent m = Some p" "nodes g p = Some pn" "n_id pn = d" "n_name m = Some name"
    using \<open>nodes g c = Some m\<close> by (auto simp: named_child_def)
  obtain m0 where m0: "nodes f c = Some m0" "same_node m0 m" using shrinks_back [OF g(1) \<open>nodes g c = Some m\<close>] by blast
  obtain p0 where p0: "nodes f p = Some p0" "same_node p0 pn" using shrinks_back [OF g(1) gc(2)] by blast
  show "named_child (nodes f) d name c" unfolding named_child_def
    by (intro exI [of _ m0] exI [of _ p] exI [of _ p0]) (use m0 p0 gc same_nodeD(3,4) [OF m0(2)] same_nodeD(1) [OF p0(2)] in simp)
qed

lemma named_child_root: "nodes_ok f \<Longrightarrow> nodes f a = Some n \<Longrightarrow> named_child (nodes f) d name a \<Longrightarrow> n_id n \<noteq> FUSE_ROOT_ID"
  using node_okD(4) by (fastforce simp: named_child_def)

lemma unhash_name_nodes_ok:
  assumes ok: "nodes_ok f" and a: "nodes f a = Some n" "n_id n \<noteq> FUSE_ROOT_ID"
  obtains f' where "unhash_name e f a = Some f'" and "nodes_ok f'" and "unhashed {} a f f'" and "drops f f'"
proof -
  obtain f' where f': "unhash_name e f a = Some f'" "fuse_ok f'" "unhashed {} a f f'"
    by (rule unhash_name_ok [where f = f and X = "\<lambda>a. 0" and e = e, OF _ a]) (use ok in \<open>auto simp: nodes_ok_iff\<close>)
  have d: "drops f f'" using f'(3) unref_lru(3) [OF f'(1)] by (rule unhashed_drops)
  then have "nodes_ok f'" using ok f'(2) by (intro nodes_ok_dropped [of "{}" f]) (auto simp: nodes_ok_iff)
  then show ?thesis using that f' d by blast
qed

text \<open>The state after \<open>unlink_fuse_node\<close>.\<close>

lemma unlink_ok:
  assumes ok: "nodes_ok f" and a: "nodes f a = Some n" "n_id n \<noteq> FUSE_ROOT_ID" and l: "remember f \<noteq> 0 \<Longrightarrow> 1 < n_lookup n"
  obtains f' where "unlink_fuse_node e f a = Some f'" and "nodes_ok f'" and "kept {} f f'" and "up (nodes f') \<subseteq> up (nodes f)"
    and "\<forall>d name c. named_child (nodes f') d name c \<longrightarrow> c \<noteq> a \<and> named_child (nodes f) d name c"
    and "remember f' = remember f" and "remember f = 0 \<longrightarrow> drops f f'"
proof -
  let ?n = "n\<lparr>n_lookup := n_lookup n - (if remember f \<noteq> 0 then 1 else 0)\<rparr>"
  let ?f = "set_node a ?n f"
  have f: "(if remember f \<noteq> 0 then ?f else f) = ?f" using a(1) by (simp add: set_node_def fun_upd_idem)
  have "fuse_ok ?f" using ok l node_okD(2) [OF ok a(1)] by (intro fuse_inv_upd [OF _ a(1)]) (auto simp: nodes_ok_iff ref_ok_def a)
  moreover have "n_lookup ?n = n_lookup n" if "a \<in> set (lru_table f)"
  proof -
    have "n_lookup n = 1" using ok a(1) that by (simp add: nodes_ok_def lru_one_def)
    then have "remember f = 0" using l by fastforce
    then show ?thesis by simp
  qed
  then have "pre_ok {} ?f" using ok a by (intro pre_ok_set) auto
  ultimately have "nodes_ok ?f" by (simp add: nodes_ok_iff)
  then obtain f' where f': "unhash_name e ?f a = Some f'" "nodes_ok f'" "unhashed {} a ?f f'" "drops ?f f'"
    by (rule unhash_name_nodes_ok [where a = a and n = ?n and e = e]) (use a(2) in auto)
  have "unlink_fuse_node e f a = Some f'" using f'(1) f a(1) l by (auto simp: unlink_fuse_node_def split: if_splits)
  moreover have "kept {} f f'"
  proof (cases "0 < n_lookup n")
    case True
    then have "kept {} f ?f" using a(1) l by (intro set_kept) auto
    then show ?thesis using drops_kept [OF f'(4)] kept_trans by blast
  next
    case False
    then have "?f = f" using a(1) by (simp add: set_node_def fun_upd_idem)
    then show ?thesis using drops_kept [OF f'(4)] by simp
  qed
  moreover have "named_child (nodes ?f) d name c \<longleftrightarrow> named_child (nodes f) d name c" for d name c
    using named_child_upd [of "nodes f" a n ?n] a(1) by simp
  then have "c \<noteq> a \<and> named_child (nodes f) d name c" if "named_child (nodes f') d name c" for d name c
    using unhashed_named [OF f'(3) that] by blast
  moreover have "up (nodes f') \<subseteq> up (nodes f)" using unhashed_up [OF f'(3)] up_upd [of "nodes f" a n ?n] a(1) by simp
  moreover have "remember f' = remember f" using dropsD(2) [OF f'(4)] by simp
  moreover have "remember f = 0 \<longrightarrow> drops f f'" using f f'(4) a(1) by (auto simp: set_node_def fun_upd_idem)
  ultimately show ?thesis using that f'(2) by blast
qed

text \<open>A node without a name gets one.\<close>

lemma relink_ok:
  assumes ok: "nodes_ok f" and a: "nodes f a = Some n" "n_parent n = None" "n_name n = None" "n_id n \<noteq> FUSE_ROOT_ID"
    and q: "nodes f q = Some qn" "(q, a) \<notin> (up (nodes f))\<^sup>*" and new: "\<And>b. \<not> named_child (nodes f) (n_id qn) name b"
  obtains r f' where "hash_name e f a (n_id qn) name = Some (r, f')" and "nodes_ok f'" and "kept {} f f'"
    and "length name < 32 \<or> name_mem e \<longrightarrow> r = 0" and "r = 0 \<longrightarrow> named_child (nodes f') (n_id qn) name a" and "r = 0 \<or> r = - 1"
    and "nodes f' a \<noteq> None" and "drops f f'"
proof (cases "length name < 32 \<or> name_mem e")
  case False
  have "n\<lparr>n_name := None\<rparr> = n" using a(3) by (cases n) simp
  then have "hash_name e f a (n_id qn) name = Some (- 1, f)"
    using False node_okD(3) [OF ok q(1)] a(1) by (simp add: hash_name_def set_node_def fun_upd_idem)
  then show ?thesis using that [of "- 1" f] ok False a(1) by (simp add: kept_def)
next
  case True
  let ?ns = "link_node a n q qn name (nodes f)"
  have aq: "a \<noteq> q" using q(2) by auto
  note at = link_node_at [OF aq]
  have inv: "fuse_ok f" using ok by (simp add: nodes_ok_iff)
  obtain t where t: "hash_name e f a (n_id qn) name = Some (0, f\<lparr>nodes := ?ns, name_table := t\<rparr>)" "table_ok (name_raw ?ns) (linked_nodes ?ns) t"
    by (rule hash_name_table [of f a n qn q name e]) (use inv a q(1) node_okD(3) [OF ok q(1)] aq True in \<open>auto simp: fuse_inv_def\<close>)
  let ?f = "f\<lparr>nodes := ?ns, name_table := t\<rparr>"
  have dom: "dom ?ns = dom (nodes f)" using a(1) q(1) by (rule link_dom)
  have same: "\<exists>m. nodes f b = Some m \<and> n_id m' = n_id m \<and> n_gen m' = n_gen m \<and> n_lookup m' = n_lookup m" if b: "?ns b = Some m'" for b m'
    using link_node_cases [of a n q qn name "nodes f" b m', OF b aq q(1)] a(1) by auto
  have "id_raw ?ns = id_raw (nodes f)"
  proof
    fix b
    show "id_raw ?ns b = id_raw (nodes f) b"
    proof (cases "?ns b")
      case None
      then have "nodes f b = None" using dom by (metis domIff)
      then show ?thesis using None by (simp add: id_raw_def)
    next
      case (Some m')
      then show ?thesis using same [OF Some] by (auto simp: id_raw_def)
    qed
  qed
  then have "table_ok (id_raw ?ns) (dom ?ns) (id_table f)" using inv dom by (simp add: fuse_inv_def)
  moreover have "heap_ok {} {} (\<lambda>a. 0) ?ns" using inv a q new by (intro heap_ok_link) (auto simp: fuse_inv_def)
  moreover have "lru_ok ?f" using inv dom by (simp add: fuse_inv_def lru_ok_def lru_enabled_def)
  ultimately have "fuse_ok ?f" using t(2) by (simp add: fuse_inv_def)
  moreover have d: "drops f ?f" using same dom by (auto simp: drops_def)
  ultimately have "nodes_ok ?f" using ok by (intro nodes_ok_dropped [of "{}" f]) (auto simp: nodes_ok_iff)
  moreover have "named_child ?ns (n_id qn) name a" using at(1,2) by (auto simp: named_child_def)
  ultimately show ?thesis using that [of 0 ?f] t(1) d drops_kept [OF d] at(1) by simp
qed

lemma remove_ok:
  assumes ok: "nodes_ok f" and l: "\<And>a n. named_child (nodes f) d name a \<Longrightarrow> nodes f a = Some n \<Longrightarrow> remember f \<noteq> 0 \<Longrightarrow> 1 < n_lookup n"
  obtains f' where "remove_fuse_node e f d name = Some f'" and "nodes_ok f'" and "kept {} f f'" and "\<And>a. \<not> named_child (nodes f') d name a"
    and "remember f = 0 \<longrightarrow> drops f f'"
proof -
  have "fuse_ok f" using ok by (simp add: nodes_ok_iff)
  then obtain r where r: "lookup_node f d name = Some r" "\<And>a. r = Some a \<longleftrightarrow> named_child (nodes f) d name a"
    using lookup_node_iff by blast
  show ?thesis
  proof (cases r)
    case None
    then show ?thesis using that [of f] r ok by (simp add: remove_fuse_node_def kept_def)
  next
    case (Some a)
    then have c: "named_child (nodes f) d name a" using r(2) by blast
    then obtain n where n: "nodes f a = Some n" by (auto simp: named_child_def)
    obtain f' where f': "unlink_fuse_node e f a = Some f'" "nodes_ok f'" "kept {} f f'"
        "\<forall>d name c. named_child (nodes f') d name c \<longrightarrow> c \<noteq> a \<and> named_child (nodes f) d name c" "remember f = 0 \<longrightarrow> drops f f'"
      using ok n named_child_root [OF ok n c] l [OF c n] by (rule unlink_ok [where e = e])
    moreover have "\<not> named_child (nodes f') d name b" for b using f'(4) r(2) [of b] Some by auto
    ultimately show ?thesis using that r(1) Some by (simp add: remove_fuse_node_def)
  qed
qed

text \<open>
  Renaming \<open>a\<close> to a name in the directory \<open>q\<close>, where \<open>b\<close> has that name or nobody has.
\<close>

lemma rename_move_ok:
  assumes ok: "nodes_ok f" and a: "nodes f a = Some n" "n_id n \<noteq> FUSE_ROOT_ID" "0 < n_lookup n"
    and q: "nodes f q = Some qn" "0 < n_lookup qn" "(q, a) \<notin> (up (nodes f))\<^sup>*"
    and f1: "nodes_ok f1" "kept {} f f1" "up (nodes f1) \<subseteq> up (nodes f)" and new: "\<And>c. named_child (nodes f1) (n_id qn) name c \<Longrightarrow> c = a"
  obtains f2 r f3 where "unhash_name e f1 a = Some f2" and "hash_name e f2 a (n_id qn) name = Some (r, f3)" and "nodes_ok f3" and "kept {} f f3"
    and "length name < 32 \<or> name_mem e \<longrightarrow> r = 0" and "r = 0 \<longrightarrow> named_child (nodes f3) (n_id qn) name a" and "r = 0 \<or> r = - 1"
    and "nodes f3 a \<noteq> None" and "drops f1 f3"
proof -
  obtain n1 where n1: "nodes f1 a = Some n1" "n_id n1 = n_id n" "0 < n_lookup n1" using f1(2) a(1,3) by (rule keptD) auto
  obtain f2 where f2: "unhash_name e f1 a = Some f2" "nodes_ok f2" "unhashed {} a f1 f2" "drops f1 f2"
    by (rule unhash_name_nodes_ok [OF f1(1) n1(1), where e = e]) (use n1(2) a(2) in auto)
  have k2: "kept {} f f2" using f1(2) drops_kept [OF f2(4)] by (rule kept_trans)
  obtain q2 where q2: "nodes f2 q = Some q2" "n_id q2 = n_id qn" using k2 q(1,2) by (rule keptD) auto
  obtain x where x: "nodes f2 a = Some (n1\<lparr>n_name := None, n_parent := None, n_ref := x\<rparr>)" using unhashed_self [OF f2(3) n1(1)] by blast
  have up: "(q, a) \<notin> (up (nodes f2))\<^sup>*" using q(3) unhashed_up [OF f2(3)] f1(3) by (meson in_mono rtrancl_mono subset_trans)
  have none: "\<not> named_child (nodes f2) (n_id q2) name b" for b using unhashed_named [OF f2(3)] new q2(2) by metis
  obtain r f3 where f3: "hash_name e f2 a (n_id q2) name = Some (r, f3)" "nodes_ok f3" "kept {} f2 f3"
      "length name < 32 \<or> name_mem e \<longrightarrow> r = 0" "r = 0 \<longrightarrow> named_child (nodes f3) (n_id q2) name a" "r = 0 \<or> r = - 1" "nodes f3 a \<noteq> None" "drops f2 f3"
    by (rule relink_ok [OF f2(2) x _ _ _ q2(1) up none, where e = e]) (use n1(2) a(2) in auto)
  have "kept {} f f3" using k2 f3(3) by (rule kept_trans)
  moreover have "drops f1 f3" using f2(4) f3(8) by (rule drops_trans)
  ultimately show ?thesis using that [OF f2(1)] f3 q2(2) by simp
qed

lemma rename_ok:
  assumes ok: "nodes_ok f" and l: "lookup_node f od on = Some (Some a)" "nodes f a = Some n" "0 < n_lookup n"
    and q: "nodes f q = Some qn" "0 < n_lookup qn" "(q, a) \<notin> (up (nodes f))\<^sup>*"
    and old: "\<And>b m. named_child (nodes f) (n_id qn) nn b \<Longrightarrow> nodes f b = Some m \<Longrightarrow> remember f \<noteq> 0 \<Longrightarrow> 1 < n_lookup m"
  obtains r f' where "rename_node e f od on (n_id qn) nn hide = Some (r, f')" and "nodes_ok f'" and "kept {} f f'"
    and "r = 0 \<longrightarrow> named_child (nodes f') (n_id qn) nn a"
    and "(length nn < 32 \<or> name_mem e) \<and> \<not> hide \<longrightarrow> r = 0" and "remember f = 0 \<longrightarrow> drops f f'"
proof -
  have inv: "fuse_ok f" using ok by (simp add: nodes_ok_iff)
  have c: "named_child (nodes f) od on a" using lookup_node_iff [OF inv, of od on] l(1) by auto
  then have root: "n_id n \<noteq> FUSE_ROOT_ID" using named_child_root [OF ok l(2)] by blast
  obtain x where x: "lookup_node f (n_id qn) nn = Some x" "\<And>b. x = Some b \<longleftrightarrow> named_child (nodes f) (n_id qn) nn b"
    using lookup_node_iff [OF inv, of "n_id qn" nn] by blast
  show ?thesis
  proof (cases "x \<noteq> None \<and> hide")
    case True
    then have "rename_node e f od on (n_id qn) nn hide = Some (- EBUSY, f)" using l(1) x(1) by (simp add: rename_node_def)
    then show ?thesis using that [of "- EBUSY" f] ok True by (simp add: kept_def EBUSY_def)
  next
    case False
    have "\<exists>f1. (case x of None \<Rightarrow> Some f | Some b \<Rightarrow> unlink_fuse_node e f b) = Some f1 \<and> nodes_ok f1 \<and> kept {} f f1 \<and>
        up (nodes f1) \<subseteq> up (nodes f) \<and> (\<forall>c. \<not> named_child (nodes f1) (n_id qn) nn c) \<and> (remember f = 0 \<longrightarrow> drops f f1)"
    proof (cases x)
      case None
      then show ?thesis using ok x(2) by (intro exI [of _ f]) (simp add: kept_def)
    next
      case (Some b)
      then have b: "named_child (nodes f) (n_id qn) nn b" using x(2) by blast
      then obtain m where m: "nodes f b = Some m" by (auto simp: named_child_def)
      obtain f1 where f1: "unlink_fuse_node e f b = Some f1" "nodes_ok f1" "kept {} f f1" "up (nodes f1) \<subseteq> up (nodes f)"
          "\<forall>d name c. named_child (nodes f1) d name c \<longrightarrow> c \<noteq> b \<and> named_child (nodes f) d name c" "remember f = 0 \<longrightarrow> drops f f1"
        using ok m named_child_root [OF ok m b] old [OF b m] by (rule unlink_ok [where e = e])
      have "\<not> named_child (nodes f1) (n_id qn) nn c" for c using f1(5) x(2) [of c] Some by auto
      then show ?thesis using f1 Some by auto
    qed
    then obtain f1 where f1: "(case x of None \<Rightarrow> Some f | Some b \<Rightarrow> unlink_fuse_node e f b) = Some f1" "nodes_ok f1" "kept {} f f1"
        "up (nodes f1) \<subseteq> up (nodes f)" "\<And>c. \<not> named_child (nodes f1) (n_id qn) nn c"
        "remember f = 0 \<longrightarrow> drops f f1" by blast
    obtain f2 r f3 where f3: "unhash_name e f1 a = Some f2" "hash_name e f2 a (n_id qn) nn = Some (r, f3)" "nodes_ok f3" "kept {} f f3"
        "length nn < 32 \<or> name_mem e \<longrightarrow> r = 0" "r = 0 \<longrightarrow> named_child (nodes f3) (n_id qn) nn a" "r = 0 \<or> r = - 1" "nodes f3 a \<noteq> None" "drops f1 f3"
      by (rule rename_move_ok [OF ok l(2) root l(3) q f1(2,3,4), where name = nn and e = e]) (use f1(5) in blast)+
    have d: "remember f = 0 \<longrightarrow> drops f f3" using f1(6) f3(9) drops_trans by blast
    have e: "rename_node e f od on (n_id qn) nn hide = (if r = - 1 then Some (- ENOMEM, f3)
        else if hide then Option.bind (nodes f3 a) (\<lambda>n. Some (0, set_node a (n\<lparr>n_hidden := True\<rparr>) f3)) else Some (0, f3))"
      using l(1) x(1) False f1(1) f3(1,2) by (auto simp: rename_node_def)
    show ?thesis
    proof (cases "r = 0 \<and> hide")
      case True
      obtain m where m: "nodes f3 a = Some m" using f3(8) by blast
      let ?m = "m\<lparr>n_hidden := True\<rparr>"
      note o = node_okD [OF f3(3) m]
      have "fuse_ok (set_node a ?m f3)"
        by (rule fuse_inv_upd [OF _ m, where K = "{}" and X = "\<lambda>a. 0"]) (use f3(3) o in \<open>simp_all add: nodes_ok_iff ref_ok_def\<close>)
      moreover have "pre_ok {} (set_node a ?m f3)" using f3(3) m by (rule pre_ok_set) (use o(5) in simp_all)
      moreover have "drops f3 (set_node a ?m f3)" using m by (auto simp: drops_def)
      then have "remember f = 0 \<longrightarrow> drops f (set_node a ?m f3)" using d drops_trans by blast
      moreover have "kept {} f (set_node a ?m f3)" using f3(4) m unfolding kept_def by fastforce
      moreover have "named_child (nodes (set_node a ?m f3)) (n_id qn) nn a"
        using f3(6) True named_child_upd [of "nodes f3" a m ?m] m by simp
      ultimately show ?thesis using that [of 0 "set_node a ?m f3"] e True m by (simp add: nodes_ok_iff)
    next
      case False
      then show ?thesis using that [of 0 f3] that [of "- ENOMEM" f3] e f3(3-7) d by (auto simp: ENOMEM_def split: if_splits)
    qed
  qed
qed

section \<open>Cleaning\<close>

lemma kept_mono: "kept D f f' \<Longrightarrow> D \<subseteq> D' \<Longrightarrow> kept D' f f'"
  unfolding kept_def by blast

lemma unref_last:
  assumes "unref_node e f a = Some f'" and "nodes f a = Some n" and "n_ref n = 1"
  shows "nodes f' a = None"
proof -
  have "delete_node e (set_node a (n\<lparr>n_ref := 0\<rparr>) f) a = Some f'" using assms by (simp add: unref_node.simps [of e f a] Let_def)
  then show ?thesis by (auto simp: delete_node.simps bind_eq_Some_conv simp del: if_split split: if_split_asm)
qed

text \<open>A node with one lookup and no children is deleted.\<close>

lemma clean_one_ok:
  assumes ok: "nodes_ok f" and a: "nodes f a = Some n" "n_id n \<noteq> FUSE_ROOT_ID" "n_lookup n = 1" "\<not> n_ref n > 1"
  obtains f1 f2 where "unhash_name e (set_node a (n\<lparr>n_lookup := 0\<rparr>) f) a = Some f1" and "unref_node e f1 a = Some f2" and "nodes_ok f2"
    and "drops (set_node a (n\<lparr>n_lookup := 0\<rparr>) f) f2" and "nodes f2 a = None"
proof -
  let ?n = "n\<lparr>n_lookup := 0\<rparr>" and ?X = "(\<lambda>a. 0)(a := Suc 0)"
  let ?g = "set_node a ?n f"
  have "kids {} (nodes f) a = {}"
  proof -
    have "finite (kids {} (nodes f) a)" using ok by (auto simp: nodes_ok_iff fuse_inv_def heap_ok_def intro: finite_kids)
    moreover have "card (kids {} (nodes f) a) = 0" using node_okD(2) [OF ok a(1)] a(3,4) by (simp add: ref_ok_def)
    ultimately show ?thesis by simp
  qed
  moreover have "kids {} (nodes ?g) a = kids {} (nodes f) a" using kids_upd [of "nodes f" a n ?n "{}"] a(1) by simp
  ultimately have kids: "kids {} (nodes ?g) a = {}" by simp
  have inv: "fuse_inv {} {} ?X ?g" using ok a(1,2) by (rule last_lookup) (use a(3) in simp)
  obtain f1 where f1: "unhash_name e ?g a = Some f1" "fuse_inv {} {} ?X f1" "unhashed {} a ?g f1"
    by (rule unhash_name_ok [OF inv, of a ?n, where e = e]) (use a(2) in auto)
  obtain r where r: "nodes f1 a = Some (n\<lparr>n_lookup := 0, n_name := None, n_parent := None, n_ref := r\<rparr>)"
    using unhashed_self [OF f1(3), of ?n] by auto
  have "r = 1"
  proof -
    have "kids {} (nodes f1) a = {}" using unhashed_kids [OF f1(3), of "{}" a] kids by simp
    moreover have "ref_ok {} ?X (nodes f1) a (n\<lparr>n_lookup := 0, n_name := None, n_parent := None, n_ref := r\<rparr>)"
      using f1(2) r unfolding fuse_inv_def heap_ok_def by blast
    ultimately show ?thesis by (simp add: ref_ok_def)
  qed
  obtain f2 where f2: "unref_node e f1 a = Some f2" "fuse_ok f2" "shrinks {} f1 f2"
    using unref_ok [of "{}" "{}" "\<lambda>a. 0" a f1 e] f1(2) r by auto
  have "drops ?g f1" using f1(3) unref_lru(3) [OF f1(1)] by (rule unhashed_drops)
  moreover have "drops f1 f2" using f2(3) unref_lru(1) [OF f2(1)] by (rule shrinks_drops)
  ultimately have d: "drops ?g f2" by (rule drops_trans)
  have gone: "nodes f2 a = None" using f2(1) r by (rule unref_last) (use \<open>r = 1\<close> in simp)
  have "pre_ok {a} ?g" using ok a(1) by (rule pre_ok_set) (use a(2) in auto)
  moreover have "{a} \<inter> set (lru_table f2) = {}" using f2(2) gone by (auto simp: fuse_inv_def lru_ok_def)
  ultimately have "nodes_ok f2" using d f2(2) nodes_ok_dropped by blast
  then show ?thesis using that f1(1) f2(1) d gone by blast
qed

lemma clean_loop_ok:
  assumes "nodes_ok f" and "distinct as" and "\<forall>b \<in> set as. \<exists>n. nodes f b = Some n \<and> n_id n \<noteq> FUSE_ROOT_ID \<and> n_lookup n = 1"
  shows "\<exists>f'. clean_loop e as f = Some f' \<and> nodes_ok f' \<and> kept (set as) f f'"
  using assms
proof (induction as arbitrary: f)
  case Nil
  then show ?case by (simp add: kept_def)
next
  case (Cons a as)
  obtain n where n: "nodes f a = Some n" "n_id n \<noteq> FUSE_ROOT_ID" "n_lookup n = 1" using Cons.prems(3) by auto
  show ?case
  proof (cases "now e - n_forget n \<le> remember f * 1000000000")
    case True
    then show ?thesis using n Cons.prems(1) by (simp add: kept_def)
  next
    case late: False
    show ?thesis
    proof (cases "n_ref n > 1")
      case True
      obtain f' where "clean_loop e as f = Some f'" "nodes_ok f'" "kept (set as) f f'"
        using Cons.IH [of f] Cons.prems by auto
      then show ?thesis using late True n kept_mono [of "set as" f f' "set (a # as)"] by auto
    next
      case False
      let ?g = "set_node a (n\<lparr>n_lookup := 0\<rparr>) f"
      obtain f1 f2 where f2: "unhash_name e ?g a = Some f1" "unref_node e f1 a = Some f2" "nodes_ok f2" "drops ?g f2" "nodes f2 a = None"
        using Cons.prems(1) n False by (rule clean_one_ok [where e = e])
      have "\<exists>m. nodes f2 b = Some m \<and> n_id m \<noteq> FUSE_ROOT_ID \<and> n_lookup m = 1" if b: "b \<in> set as" for b
      proof -
        obtain m where m: "nodes f b = Some m" "n_id m \<noteq> FUSE_ROOT_ID" "n_lookup m = 1" using Cons.prems(3) b by auto
        then have "nodes ?g b = Some m" using b Cons.prems(2) by auto
        then show ?thesis using drops_keep [OF f2(4), of b m] m by auto
      qed
      then obtain f' where f': "clean_loop e as f2 = Some f'" "nodes_ok f'" "kept (set as) f2 f'"
        using Cons.IH [OF f2(3)] Cons.prems(2) by auto
      have "kept (set (a # as)) f ?g" using n(1) by (rule set_kept) auto
      moreover have "kept (set (a # as)) ?g f2" using f2(4) by (rule drops_kept)
      moreover have "kept (set (a # as)) f2 f'" using f'(3) by (rule kept_mono) auto
      ultimately have "kept (set (a # as)) f f'" using kept_trans by blast
      then show ?thesis using f' f2(1,2) late False n by simp
    qed
  qed
qed

lemma clean_ok:
  assumes ok: "nodes_ok f"
  obtains f' where "fuse_clean_cache e f = Some (clean_delay f', f')" and "nodes_ok f'" and "kept (set (lru_table f)) f f'"
    and "remember f = 0 \<longrightarrow> f' = f"
proof -
  have "\<exists>n. nodes f b = Some n \<and> n_id n \<noteq> FUSE_ROOT_ID \<and> n_lookup n = 1" if b: "b \<in> set (lru_table f)" for b
  proof -
    have "b \<in> dom (nodes f)" using ok b by (auto simp: nodes_ok_iff fuse_inv_def lru_ok_def)
    then obtain n where "nodes f b = Some n" by blast
    then show ?thesis using ok b by (auto simp: nodes_ok_def lru_one_def)
  qed
  moreover have "distinct (lru_table f)" using ok by (simp add: nodes_ok_iff fuse_inv_def lru_ok_def)
  ultimately obtain f' where f': "clean_loop e (lru_table f) f = Some f'" "nodes_ok f'" "kept (set (lru_table f)) f f'"
    using clean_loop_ok [OF ok, of "lru_table f" e] by auto
  moreover have "remember f = 0 \<longrightarrow> f' = f" using ok f'(1) by (auto simp: nodes_ok_iff fuse_inv_def lru_ok_def lru_enabled_def)
  ultimately show ?thesis using that by (simp add: fuse_clean_cache_def)
qed

section \<open>The first state\<close>

lemma new_fuse_ok: "\<exists>f. new_fuse e rem = Some f \<and> nodes_ok f \<and> remember f = rem \<and> (\<forall>a n. nodes f a = Some n \<longrightarrow> n_id n = FUSE_ROOT_ID)"
proof -
  let ?r = "\<lparr>n_id = FUSE_ROOT_ID, n_gen = 0, n_ref = 1, n_parent = None, n_name = Some ''/'', n_lookup = 1,
      n_treelock = 0, n_hidden = False, n_forget = 0\<rparr>"
  let ?ns = "[0 \<mapsto> ?r]"
  obtain t where t: "table_insert (realloc_ok e) (id_raw ?ns) (raw_id FUSE_ROOT_ID) 0 node_table_init = Some t" "table_ok (id_raw ?ns) {0} t"
    by (rule table_insert_ok [OF table_ok_init, of "id_raw ?ns" 0 "raw_id FUSE_ROOT_ID" "realloc_ok e"]) (auto simp: id_raw_def)
  let ?f = "\<lparr>nodes = ?ns, name_table = node_table_init, id_table = t, lru_table = [], fctr = 0, generation = 0, remember = rem, nbrk = Suc 0\<rparr>"
  have "new_fuse e rem = Some ?f" using t(1) by (simp add: new_fuse_def alloc_node_def inc_nlookup_def hash_id_def set_node_def Let_def)
  moreover have "kids {} ?ns b = {}" "up ?ns = {}" "linked_nodes ?ns = {}" for b by (auto simp: kids_def up_def linked_nodes_def)
  then have "fuse_ok ?f" using t(2) table_ok_init [of "name_raw ?ns"]
    by (auto simp: fuse_inv_def heap_ok_def ids_ok_def names_ok_def node_ok_def ref_ok_def lru_ok_def acyclic_def split: if_splits)
  then have "nodes_ok ?f" by (auto simp: nodes_ok_iff pre_ok_def)
  ultimately show ?thesis by (intro exI [of _ ?f]) simp
qed

end
