(* ===== verification/Fuse_Node_Props.thy ===== *)
theory Fuse_Node_Props
  imports Runs Fuse_Requests "HOL-Library.Code_Target_Nat"
begin

text \<open>
  The properties of the nodes of the FUSE library, for all sequences of requests: that no request fails when
  the kernel observes its protocol, that both hash tables find exactly what is there, and that nodes live as
  long as the kernel knows them or something below them. The protocol is stated twice: on the counters of the
  library, for every setting of \<open>remember\<close> (\<open>node_may\<close>), and, without \<open>remember\<close>, on the kernel's own account
  of the lookups it was answered and has not forgotten (\<open>kernel_may\<close>).
\<close>

section \<open>Requests\<close>

datatype request =
  Lookup nat string
| Again nat
| Forget nat nat
| Remove nat string
| Rename nat string nat string bool
| Clean

text \<open>A request together with the answers of the allocator and the clock.\<close>

definition node_exec :: "env \<times> request \<Rightarrow> fuse \<Rightarrow> fuse option" where
  "node_exec er f = (case er of (e, r) \<Rightarrow> (case r of
     Lookup d name \<Rightarrow> map_option snd (find_node e f d (Some name))
   | Again d \<Rightarrow> map_option snd (find_node e f d None)
   | Forget d k \<Rightarrow> do { b \<leftarrow> forget_node e f d k; case b of Done f' \<Rightarrow> Some f' | Blocked \<Rightarrow> None }
   | Remove d name \<Rightarrow> remove_fuse_node e f d name
   | Rename od on nd nn hide \<Rightarrow> map_option snd (rename_node e f od on nd nn hide)
   | Clean \<Rightarrow> map_option snd (fuse_clean_cache e f)))"

definition holds_node :: "fuse \<Rightarrow> ptr option \<Rightarrow> (addr \<Rightarrow> node \<Rightarrow> bool) \<Rightarrow> bool" where
  "holds_node f r P = (case r of Some (Some a) \<Rightarrow> (case nodes f a of Some n \<Rightarrow> P a n | None \<Rightarrow> False) | _ \<Rightarrow> False)"

definition may_replace :: "fuse \<Rightarrow> nat \<Rightarrow> string \<Rightarrow> bool" where
  "may_replace f d name = (lookup_node f d name = Some None \<or>
     holds_node f (lookup_node f d name) (\<lambda>a n. remember f \<noteq> 0 \<longrightarrow> 1 < n_lookup n))"

definition node_count :: "fuse \<Rightarrow> nat" where
  "node_count f = length (filter (\<lambda>a. nodes f a \<noteq> None) [0..<nbrk f])"

text \<open>Whether \<open>a\<close> is \<open>q\<close> or above it, looking at most \<open>k\<close> parents up.\<close>

fun climbs :: "nat \<Rightarrow> (addr \<rightharpoonup> node) \<Rightarrow> addr \<Rightarrow> addr \<Rightarrow> bool" where
  "climbs 0 ns q a = (q = a)"
| "climbs (Suc k) ns q a = (q = a \<or> (case ns q of None \<Rightarrow> False
     | Some n \<Rightarrow> (case n_parent n of None \<Rightarrow> False | Some p \<Rightarrow> climbs k ns p a)))"

text \<open>
  What the library relies on, stated on its own counters and for every setting of \<open>remember\<close>. The kernel names
  directories and nodes with lookups left; it does not forget more than it looked up, nor anything of a node in the list of nodes
  to be forgotten; it removes and replaces nodes that, with \<open>remember\<close>,
  have two lookups left; it does not move a directory below itself. Counters
  of lookups stay below \<open>2^64\<close>, and there are numbers left for new nodes.
\<close>

definition node_may :: "env \<times> request \<Rightarrow> fuse \<Rightarrow> bool" where
  "node_may er f = (case snd er of
     Lookup d name \<Rightarrow> holds_node f (get_node_nocheck f d) (\<lambda>a n. 0 < n_lookup n) \<and> node_count f < 2 ^ 32 - 2 \<and>
       (lookup_node f d name = Some None \<or> holds_node f (lookup_node f d name) (\<lambda>a n. n_lookup n + 1 < 2 ^ 64))
   | Again d \<Rightarrow> holds_node f (get_node_nocheck f d) (\<lambda>a n. n_lookup n + 1 < 2 ^ 64)
   | Forget d k \<Rightarrow> d = FUSE_ROOT_ID \<or>
       holds_node f (get_node_nocheck f d) (\<lambda>a n. 0 < n_lookup n \<and> k \<le> n_lookup n \<and> a \<notin> set (lru_table f))
   | Remove d name \<Rightarrow> may_replace f d name
   | Rename od on nd nn hide \<Rightarrow> lookup_node f od on = Some None \<or>
       holds_node f (lookup_node f od on) (\<lambda>a n. 0 < n_lookup n \<and>
         holds_node f (get_node_nocheck f nd) (\<lambda>q qn. 0 < n_lookup qn \<and> \<not> climbs (nbrk f) (nodes f) q a)) \<and> may_replace f nd nn
   | Clean \<Rightarrow> True)"

text \<open>The state after a sequence of requests that observes this.\<close>

definition reaches :: "env \<Rightarrow> int \<Rightarrow> (env \<times> request) list \<Rightarrow> fuse \<Rightarrow> bool" where
  "reaches e rem xs f = (case new_fuse e rem of None \<Rightarrow> False
     | Some f0 \<Rightarrow> all_may node_exec node_may xs f0 \<and> run_ops node_exec xs f0 = Some f)"

section \<open>Every request keeps the invariant\<close>

lemma holds_node_get:
  assumes ok: "nodes_ok f" and "holds_node f (get_node_nocheck f d) P"
  obtains a n where "nodes f a = Some n" and "n_id n = d" and "P a n"
proof -
  obtain a n where a: "get_node_nocheck f d = Some (Some a)" "nodes f a = Some n" "P a n"
    using assms(2) by (auto simp: holds_node_def split: option.splits)
  have "fuse_ok f" using ok by (simp add: nodes_ok_iff)
  then have "n_id n = d" using get_node_iff [of "{}" "{}" "\<lambda>a. 0" f d] a(1,2) by force
  then show ?thesis using that a(2,3) by blast
qed

lemma holds_node_lookup:
  assumes ok: "nodes_ok f" and "holds_node f (lookup_node f d name) P"
  obtains a n where "lookup_node f d name = Some (Some a)" and "nodes f a = Some n" and "named_child (nodes f) d name a" and "P a n"
proof -
  obtain a n where a: "lookup_node f d name = Some (Some a)" "nodes f a = Some n" "P a n"
    using assms(2) by (auto simp: holds_node_def split: option.splits)
  then show ?thesis using that lookup_node_iff [of "{}" "\<lambda>a. 0" f d name] ok by (auto simp: nodes_ok_iff)
qed

lemma may_replaceD:
  assumes ok: "nodes_ok f" and m: "may_replace f d name" and b: "named_child (nodes f) d name b" "nodes f b = Some n"
    and "remember f \<noteq> 0"
  shows "1 < n_lookup n"
proof -
  have "lookup_node f d name = Some (Some b)" using lookup_node_iff [of "{}" "\<lambda>a. 0" f d name] ok b(1) by (auto simp: nodes_ok_iff)
  then show ?thesis using m b(2) assms(5) by (auto simp: may_replace_def holds_node_def)
qed

lemma node_count_card: "nodes_ok f \<Longrightarrow> node_count f = card (dom (nodes f))"
proof -
  assume "nodes_ok f"
  then have "dom (nodes f) = set (filter (\<lambda>a. nodes f a \<noteq> None) [0..<nbrk f])" by (auto simp: nodes_ok_iff pre_ok_def)
  then show ?thesis using distinct_card [of "filter (\<lambda>a. nodes f a \<noteq> None) [0..<nbrk f]"] by (simp add: node_count_def)
qed

lemma climbs_relpow: "(q, a) \<in> up ns ^^ n \<Longrightarrow> n \<le> k \<Longrightarrow> climbs k ns q a"
proof (induction n arbitrary: q k)
  case 0
  then show ?case by (cases k) auto
next
  case (Suc n)
  obtain p where "(q, p) \<in> up ns" "(p, a) \<in> up ns ^^ n" using relpow_Suc_D2 [OF Suc.prems(1)] by blast
  moreover obtain k' where "k = Suc k'" using Suc.prems(2) by (cases k) auto
  ultimately show ?case using Suc by (auto simp: up_def)
qed

lemma climbs_up:
  assumes ok: "nodes_ok f" and "(q, a) \<in> (up (nodes f))\<^sup>*"
  shows "climbs (nbrk f) (nodes f) q a"
proof -
  let ?R = "up (nodes f)"
  have "?R \<subseteq> (\<lambda>b. (b, the (n_parent (the (nodes f b))))) ` dom (nodes f)" by (force simp: up_def image_iff)
  moreover have fin: "finite (dom (nodes f))" using ok by (simp add: nodes_ok_iff fuse_inv_def heap_ok_def)
  ultimately have R: "finite ?R" "card ?R \<le> card (dom (nodes f))"
    using finite_surj [OF fin] surj_card_le [OF fin] by blast+
  have "dom (nodes f) \<subseteq> {..<nbrk f}" using ok by (auto simp: nodes_ok_iff pre_ok_def)
  then have "card (dom (nodes f)) \<le> nbrk f" using card_mono [of "{..<nbrk f}"] by fastforce
  moreover obtain n where "n \<le> card ?R" "(q, a) \<in> ?R ^^ n" using assms(2) rtrancl_finite_eq_relpow [OF R(1)] by auto
  ultimately show ?thesis using R(2) climbs_relpow [of q a n "nodes f" "nbrk f"] by simp
qed

text \<open>The nodes that a request may take away from the kernel.\<close>

definition gives_up :: "request \<Rightarrow> fuse \<Rightarrow> addr set" where
  "gives_up r f = (case r of
     Forget d k \<Rightarrow> {a. \<exists>n. nodes f a = Some n \<and> n_id n = d \<and> n_lookup n = k}
   | Clean \<Rightarrow> set (lru_table f)
   | _ \<Rightarrow> {})"

lemma lookup_exec:
  assumes ok: "nodes_ok f" and m: "node_may (e, Lookup d name) f"
  shows "\<exists>f'. node_exec (e, Lookup d name) f = Some f' \<and> nodes_ok f' \<and> kept {} f f'"
proof (cases "lookup_node f d name = Some None")
  case True
  obtain p pn where p: "nodes f p = Some pn" "n_id pn = d"
    by (rule holds_node_get [OF ok, of d "\<lambda>a n. 0 < n_lookup n"]) (use m in \<open>auto simp: node_may_def\<close>)
  have "\<not> named_child (nodes f) (n_id pn) name b" for b
    using True p(2) lookup_node_iff [of "{}" "\<lambda>a. 0" f d name] ok by (auto simp: nodes_ok_iff)
  moreover have "card (dom (nodes f)) < 2 ^ 32 - 2" using m node_count_card [OF ok] by (simp add: node_may_def)
  ultimately obtain r f' where f': "find_node e f (n_id pn) (Some name) = Some (r, f')" "nodes_ok f'"
      "case r of None \<Rightarrow> nodes f' = nodes f | Some a \<Rightarrow> looked_up a f f' \<and> named_child (nodes f') (n_id pn) name a"
    using ok p(1) find_new_ok [of f p pn name e] by blast
  have "kept {} f f'" using f'(3) by (cases r) (auto simp: kept_def intro!: looked_up_kept [of _ f f' "{}", unfolded kept_def, rule_format])
  then show ?thesis using f' p(2) by (auto simp: node_exec_def)
next
  case False
  obtain a n where a: "nodes f a = Some n" "named_child (nodes f) d name a" "n_lookup n + 1 < 2 ^ 64"
    by (rule holds_node_lookup [OF ok, of d name "\<lambda>a n. n_lookup n + 1 < 2 ^ 64"]) (use m False in \<open>auto simp: node_may_def\<close>)
  obtain f' where "find_node e f d (Some name) = Some (Some a, f')" "nodes_ok f'" "looked_up a f f'"
    using ok a(1,3,2) by (rule find_known_ok [where e = e])
  then show ?thesis using looked_up_kept by (auto simp: node_exec_def)
qed

lemma forget_exec:
  assumes ok: "nodes_ok f" and m: "node_may (e, Forget d k) f"
  shows "\<exists>f'. node_exec (e, Forget d k) f = Some f' \<and> nodes_ok f' \<and> kept (gives_up (Forget d k) f) f f'"
proof (cases "d = FUSE_ROOT_ID")
  case True
  then show ?thesis using ok by (simp add: node_exec_def forget_node_def kept_def)
next
  case False
  obtain a n where a: "nodes f a = Some n" "n_id n = d" "0 < n_lookup n" "k \<le> n_lookup n" "a \<notin> set (lru_table f)"
    by (rule holds_node_get [OF ok, of d "\<lambda>a n. 0 < n_lookup n \<and> k \<le> n_lookup n \<and> a \<notin> set (lru_table f)"])
       (use m False in \<open>auto simp: node_may_def\<close>)
  have root: "n_id n \<noteq> FUSE_ROOT_ID" using a(2) False by simp
  show ?thesis
  proof (cases "k < n_lookup n")
    case True
    obtain f' t where f': "forget_node e f (n_id n) k = Some (Done f')" "nodes_ok f'"
        "nodes f' = (nodes f)(a \<mapsto> n\<lparr>n_lookup := n_lookup n - k, n_forget := t\<rparr>)"
      using ok a(1) root a(5) True by (rule forget_some_ok [where e = e])
    have "kept {} f f'" using a(1) True f'(3) by (auto simp: kept_def)
    then have "kept (gives_up (Forget d k) f) f f'" by (rule kept_mono) simp
    then show ?thesis using f'(1,2) a(2) by (auto simp: node_exec_def)
  next
    case False
    then have k: "k = n_lookup n" using a(4) by simp
    obtain f' where f': "forget_node e f (n_id n) (n_lookup n) = Some (Done f')" "nodes_ok f'" "drops (set_node a (n\<lparr>n_lookup := 0\<rparr>) f) f'"
      using ok a(1) root a(5,3) by (rule forget_all_ok [where e = e])
    have "kept {a} f (set_node a (n\<lparr>n_lookup := 0\<rparr>) f)" using a(1) by (rule set_kept) auto
    then have "kept {a} f f'" using drops_kept [OF f'(3)] kept_trans by blast
    then have "kept (gives_up (Forget d k) f) f f'" by (rule kept_mono) (use a(1,2) k in \<open>auto simp: gives_up_def\<close>)
    then show ?thesis using f'(1,2) a(2) k by (auto simp: node_exec_def)
  qed
qed

lemma rename_exec:
  assumes ok: "nodes_ok f" and m: "node_may (e, Rename od on nd nn hide) f"
  shows "\<exists>f'. node_exec (e, Rename od on nd nn hide) f = Some f' \<and> nodes_ok f' \<and> kept {} f f'"
proof (cases "lookup_node f od on = Some None")
  case True
  obtain x where "lookup_node f nd nn = Some x" using lookup_node_iff [of "{}" "\<lambda>a. 0" f nd nn] ok by (auto simp: nodes_ok_iff)
  then show ?thesis using True ok by (simp add: node_exec_def rename_node_def kept_def)
next
  case False
  let ?Q = "\<lambda>a q qn. 0 < n_lookup qn \<and> \<not> climbs (nbrk f) (nodes f) q a"
  have h: "holds_node f (lookup_node f od on) (\<lambda>a n. 0 < n_lookup n \<and> holds_node f (get_node_nocheck f nd) (?Q a))"
    and r: "may_replace f nd nn" using m False by (auto simp: node_may_def)
  obtain a n where a: "lookup_node f od on = Some (Some a)" "nodes f a = Some n"
      "0 < n_lookup n \<and> holds_node f (get_node_nocheck f nd) (?Q a)"
    using ok h by (rule holds_node_lookup)
  obtain q qn where q: "nodes f q = Some qn" "n_id qn = nd" "?Q a q qn" using ok a(3) by (blast elim: holds_node_get)
  have na: "(q, a) \<notin> (up (nodes f))\<^sup>*" using climbs_up [OF ok] q(3) by blast
  have old: "1 < n_lookup k" if "named_child (nodes f) (n_id qn) nn b" "nodes f b = Some k" "remember f \<noteq> 0" for b k
    using may_replaceD [OF ok r, of b k] that q(2) by simp
  have "0 < n_lookup n" "0 < n_lookup qn" using a(3) q(3) by simp_all
  note rn = rename_ok [OF ok a(1,2) this(1) q(1) this(2) na old, where e = e and hide = hide]
  obtain x f' where "rename_node e f od on (n_id qn) nn hide = Some (x, f')" "nodes_ok f'" "kept {} f f'"
    by (rule rn)
  then show ?thesis using q(2) by (auto simp: node_exec_def)
qed

lemma node_exec_ok:
  assumes ok: "nodes_ok f" and m: "node_may (e, r) f"
  shows "\<exists>f'. node_exec (e, r) f = Some f' \<and> nodes_ok f' \<and> kept (gives_up r f) f f'"
proof (cases r)
  case (Lookup d name)
  then show ?thesis using lookup_exec [OF ok] m by (simp add: gives_up_def)
next
  case (Again d)
  obtain a n where a: "nodes f a = Some n" "n_id n = d" "n_lookup n + 1 < 2 ^ 64"
    by (rule holds_node_get [OF ok, of d "\<lambda>a n. n_lookup n + 1 < 2 ^ 64"]) (use m Again in \<open>auto simp: node_may_def\<close>)
  obtain f' where "find_node e f (n_id n) None = Some (Some a, f')" "nodes_ok f'" "looked_up a f f'"
    using ok a(1,3) by (rule find_again_ok [where e = e])
  then show ?thesis using Again a(2) looked_up_kept by (auto simp: node_exec_def gives_up_def)
next
  case (Forget d k)
  then show ?thesis using forget_exec [OF ok] m by simp
next
  case (Remove d name)
  have r: "may_replace f d name" using m Remove by (simp add: node_may_def)
  obtain f' where "remove_fuse_node e f d name = Some f'" "nodes_ok f'" "kept {} f f'"
    by (rule remove_ok [OF ok, of d name e]) (use may_replaceD [OF ok r] in blast)+
  then show ?thesis using Remove by (auto simp: node_exec_def gives_up_def)
next
  case (Rename od on nd nn hide)
  then show ?thesis using rename_exec [OF ok] m by (simp add: gives_up_def)
next
  case Clean
  obtain f' where "fuse_clean_cache e f = Some (clean_delay f', f')" "nodes_ok f'" "kept (set (lru_table f)) f f'"
    using ok by (rule clean_ok)
  then show ?thesis using Clean by (auto simp: node_exec_def gives_up_def)
qed

interpretation fn: guarded node_exec node_may nodes_ok
proof
  fix f er
  assume "nodes_ok f" "node_may er f"
  then show "\<exists>f'. node_exec er f = Some f' \<and> nodes_ok f'" using node_exec_ok [of f "fst er" "snd er"] by auto
qed

lemma reaches_ok:
  assumes "reaches e rem xs f"
  shows "nodes_ok f"
proof -
  obtain f0 where f0: "new_fuse e rem = Some f0" "nodes_ok f0" using new_fuse_ok by blast
  then have "all_may node_exec node_may xs f0" "run_ops node_exec xs f0 = Some f" using assms by (simp_all add: reaches_def)
  then show ?thesis using fn.run_defined [OF f0(2), of xs] by simp
qed

lemma reachesI:
  assumes "all_may node_exec node_may xs (the (new_fuse e rem))"
  shows "reaches e rem xs (the (run_ops node_exec xs (the (new_fuse e rem))))"
proof -
  obtain f0 where f0: "new_fuse e rem = Some f0" "nodes_ok f0" using new_fuse_ok by blast
  then show ?thesis using fn.run_defined [OF f0(2), of xs] assms by (auto simp: reaches_def)
qed

section \<open>What the kernel knows\<close>

text \<open>
  The kernel's own account, which the library never sees: for every node number, the lookups that the library
  has answered and the kernel has not forgotten. The root is known from the beginning.
\<close>

type_synonym ledger = "nat \<Rightarrow> nat"

definition known :: "ledger \<Rightarrow> nat \<Rightarrow> bool" where
  "known k d \<longleftrightarrow> d = FUSE_ROOT_ID \<or> 0 < k d"

definition answered :: "ptr \<times> fuse \<Rightarrow> ledger \<Rightarrow> ledger \<times> fuse" where
  "answered x k = (case x of (r, f) \<Rightarrow> ((case Option.bind r (nodes f) of None \<Rightarrow> k | Some n \<Rightarrow> k(n_id n := k (n_id n) + 1)), f))"

definition kernel_exec :: "env \<times> request \<Rightarrow> ledger \<times> fuse \<Rightarrow> (ledger \<times> fuse) option" where
  "kernel_exec er kf = (case (er, kf) of ((e, r), (k, f)) \<Rightarrow> (case r of
     Lookup d name \<Rightarrow> map_option (\<lambda>x. answered x k) (find_node e f d (Some name))
   | Again d \<Rightarrow> map_option (\<lambda>x. answered x k) (find_node e f d None)
   | Forget d n \<Rightarrow> map_option (Pair (k(d := k d - n))) (node_exec er f)
   | _ \<Rightarrow> map_option (Pair k) (node_exec er f)))"

text \<open>There are numbers left for new nodes, and no counter of lookups is at its end.\<close>

definition space_left :: "fuse \<Rightarrow> bool" where
  "space_left f \<longleftrightarrow> node_count f < 2 ^ 32 - 2 \<and>
     (\<forall>a \<in> set [0..<nbrk f]. case nodes f a of None \<Rightarrow> True | Some n \<Rightarrow> n_lookup n + 1 < 2 ^ 64)"

text \<open>
  The protocol, by what the kernel knows: it looks names up in directories it knows, and knows what it looks up
  again; it forgets no more lookups of a node than it was answered; it moves what it knows into a directory it
  knows, not below itself. That the library still has the nodes is not part of it.
\<close>

definition kernel_may :: "env \<times> request \<Rightarrow> ledger \<times> fuse \<Rightarrow> bool" where
  "kernel_may er kf = (case (snd er, kf) of (r, (k, f)) \<Rightarrow> (case r of
     Lookup d name \<Rightarrow> known k d \<and> space_left f
   | Again d \<Rightarrow> known k d \<and> space_left f
   | Forget d n \<Rightarrow> 0 < n \<and> n \<le> k d
   | Remove d name \<Rightarrow> True
   | Rename od on nd nn hide \<Rightarrow> known k nd \<and> (case lookup_node f od on of
         Some (Some a) \<Rightarrow> (case nodes f a of None \<Rightarrow> True | Some n \<Rightarrow> known k (n_id n)) \<and>
           (case get_node_nocheck f nd of Some (Some q) \<Rightarrow> \<not> climbs (nbrk f) (nodes f) q a | _ \<Rightarrow> True)
       | _ \<Rightarrow> True)
   | Clean \<Rightarrow> True))"

text \<open>
  Without \<open>remember\<close>, the library's counters agree with the account of the kernel: every node but the root
  counts just the lookups that the kernel holds, and a node of which it holds some is there.
\<close>

definition tally :: "ledger \<Rightarrow> fuse \<Rightarrow> bool" where
  "tally k f \<longleftrightarrow> remember f = 0 \<and> (\<forall>a n. nodes f a = Some n \<longrightarrow> n_id n \<noteq> FUSE_ROOT_ID \<longrightarrow> n_lookup n = k (n_id n)) \<and>
     (\<forall>d. 0 < k d \<longrightarrow> (\<exists>a n. nodes f a = Some n \<and> n_id n = d))"

definition kernel_reaches :: "env \<Rightarrow> (env \<times> request) list \<Rightarrow> ledger \<Rightarrow> fuse \<Rightarrow> bool" where
  "kernel_reaches e xs k f = (case new_fuse e 0 of None \<Rightarrow> False
     | Some f0 \<Rightarrow> all_may kernel_exec kernel_may xs (\<lambda>d. 0, f0) \<and> run_ops kernel_exec xs (\<lambda>d. 0, f0) = Some (k, f))"

lemma tallyD:
  assumes "tally k f" and "nodes_ok f" and "nodes f a = Some n"
  shows "n_id n \<noteq> FUSE_ROOT_ID \<Longrightarrow> n_lookup n = k (n_id n)" and "known k (n_id n) \<longleftrightarrow> 0 < n_lookup n"
proof -
  have k: "n_id n \<noteq> FUSE_ROOT_ID \<longrightarrow> n_lookup n = k (n_id n)" using assms(1,3) unfolding tally_def by blast
  then show "n_id n \<noteq> FUSE_ROOT_ID \<Longrightarrow> n_lookup n = k (n_id n)" by simp
  show "known k (n_id n) \<longleftrightarrow> 0 < n_lookup n"
    using k node_okD(5) [OF assms(2,3)] by (cases "n_id n = FUSE_ROOT_ID") (simp_all add: known_def)
qed

lemma tally_held: "tally k f \<Longrightarrow> 0 < k d \<Longrightarrow> \<exists>a n. nodes f a = Some n \<and> n_id n = d"
  unfolding tally_def by blast

lemma tally_known:
  assumes "tally k f" and ok: "nodes_ok f" and "known k d"
  obtains a n where "nodes f a = Some n" and "n_id n = d" and "0 < n_lookup n"
proof -
  have "\<exists>a n. nodes f a = Some n \<and> n_id n = d"
    using assms tally_held [of k f d] by (cases "d = FUSE_ROOT_ID") (auto simp: known_def nodes_ok_iff pre_ok_def)
  then obtain a n where a: "nodes f a = Some n" "n_id n = d" by blast
  then show ?thesis using that tallyD(2) [OF assms(1) ok a(1)] assms(3) by simp
qed

lemma tally_drops:
  assumes t: "tally k f" and ok: "nodes_ok f" and d: "drops f f'"
  shows "tally k f'"
proof -
  have "\<exists>a n. nodes f' a = Some n \<and> n_id n = d" if pos: "0 < k d" for d
  proof -
    obtain a n where a: "nodes f a = Some n" "n_id n = d" "0 < n_lookup n"
      by (rule tally_known [OF t ok, of d]) (use pos in \<open>simp_all add: known_def\<close>)
    then show ?thesis using drops_keep [OF d a(1,3)] by auto
  qed
  moreover have "n_lookup n = k (n_id n)" if "nodes f' a = Some n" "n_id n \<noteq> FUSE_ROOT_ID" for a n
    using drops_back [OF d that(1)] that(2) tallyD(1) [OF t ok] by auto
  ultimately show ?thesis using t dropsD(2) [OF d] by (auto simp: tally_def)
qed

lemma same_number:
  assumes "nodes_ok f" and "nodes f a = Some n" and "nodes f b = Some m" and "n_id n = n_id m"
  shows "a = b"
  using node_okD(3) [OF assms(1,2)] node_okD(3) [OF assms(1,3)] assms(4) by simp

lemma tally_looked_up:
  assumes t: "tally k f" and ok: "nodes_ok f" "nodes_ok f'" and l: "looked_up a f f'" and m: "nodes f' a = Some m"
    and new: "nodes f a = None \<Longrightarrow> n_lookup m = 1"
  shows "tally (k(n_id m := k (n_id m) + 1)) f'"
proof -
  let ?k = "k(n_id m := k (n_id m) + 1)"
  have old: "\<exists>n'. nodes f' b = Some n' \<and> n_id n' = n_id n \<and> n_lookup n' = n_lookup n + (if b = a then 1 else 0)" if "nodes f b = Some n" for b n
    using l that unfolding looked_up_def by blast
  have self: "n_lookup m = ?k (n_id m)" if root: "n_id m \<noteq> FUSE_ROOT_ID"
  proof (cases "nodes f a")
    case None
    have "k (n_id m) = 0"
    proof (rule ccontr)
      assume "k (n_id m) \<noteq> 0"
      then obtain b n where b: "nodes f b = Some n" "n_id n = n_id m" using tally_held [OF t, of "n_id m"] by auto
      then obtain n' where "nodes f' b = Some n'" "n_id n' = n_id m" using old by metis
      then have "b = a" using same_number [OF ok(2) _ m] by blast
      then show False using b(1) None by simp
    qed
    then show ?thesis using new [OF None] by simp
  next
    case (Some n)
    then show ?thesis using old [OF Some] m root tallyD(1) [OF t ok(1) Some] by simp
  qed
  have other: "n_lookup n' = ?k (n_id n')" if b: "nodes f' b = Some n'" "n_id n' \<noteq> FUSE_ROOT_ID" "b \<noteq> a" for b n'
  proof -
    have "n_id n' \<noteq> n_id m" using same_number [OF ok(2) b(1) m] b(3) by blast
    moreover obtain n where n: "nodes f b = Some n" using l b(1,3) unfolding looked_up_def by blast
    ultimately show ?thesis using old [OF n] b tallyD(1) [OF t ok(1) n] by auto
  qed
  have "n_lookup n' = ?k (n_id n')" if b: "nodes f' b = Some n'" "n_id n' \<noteq> FUSE_ROOT_ID" for b n'
    using self other [OF b] b m by (cases "b = a") auto
  moreover have "\<exists>b n. nodes f' b = Some n \<and> n_id n = d" if pos: "0 < ?k d" for d
  proof (cases "d = n_id m")
    case False
    then obtain b n where "nodes f b = Some n" "n_id n = d" using pos tally_held [OF t, of d] by auto
    then show ?thesis using old by metis
  qed (use m in blast)
  ultimately show ?thesis using t l by (simp add: tally_def looked_up_def)
qed

text \<open>Every request of the protocol is handled, and the counters still agree.\<close>

lemma space_leftD:
  assumes "nodes_ok f" and "space_left f"
  shows "card (dom (nodes f)) < 2 ^ 32 - 2" and "nodes f a = Some n \<Longrightarrow> n_lookup n + 1 < 2 ^ 64"
proof -
  show "card (dom (nodes f)) < 2 ^ 32 - 2" using assms node_count_card by (simp add: space_left_def)
  assume a: "nodes f a = Some n"
  then have "a \<in> set [0..<nbrk f]" using assms(1) by (force simp: nodes_ok_iff pre_ok_def)
  then show "n_lookup n + 1 < 2 ^ 64" using assms(2) a unfolding space_left_def by fastforce
qed

lemma kernel_found:
  assumes "find_node e f d name = Some (Some a, f')" and "nodes_ok f" and "nodes_ok f'" and "looked_up a f f'" and "tally k f"
    and "nodes f a = None \<longrightarrow> (\<exists>m. nodes f' a = Some m \<and> n_lookup m = 1)"
  shows "\<exists>k'. map_option (\<lambda>x. answered x k) (find_node e f d name) = Some (k', f') \<and> nodes_ok f' \<and> tally k' f'"
proof -
  obtain m where m: "nodes f' a = Some m" using assms(4) unfolding looked_up_def by blast
  then show ?thesis using tally_looked_up [OF assms(5,2,3,4) m] assms(1,3,6) by (simp add: answered_def)
qed

lemma kernel_lookup:
  assumes ok: "nodes_ok f" and t: "tally k f" and d: "known k d" and r: "space_left f"
  shows "\<exists>k' f'. kernel_exec (e, Lookup d name) (k, f) = Some (k', f') \<and> nodes_ok f' \<and> tally k' f'"
proof (cases "\<exists>a. named_child (nodes f) d name a")
  case True
  then obtain a n where a: "named_child (nodes f) d name a" "nodes f a = Some n" by (auto simp: named_child_def)
  obtain f' where "find_node e f d (Some name) = Some (Some a, f')" "nodes_ok f'" "looked_up a f f'"
    using ok a(2) space_leftD(2) [OF ok r a(2)] a(1) by (rule find_known_ok [where e = e])
  then show ?thesis using kernel_found [OF _ ok _ _ t, of e d "Some name" a f'] a(2) by (auto simp: kernel_exec_def)
next
  case False
  obtain p pn where p: "nodes f p = Some pn" "n_id pn = d" using t ok d by (rule tally_known)
  obtain r f' where f': "find_node e f (n_id pn) (Some name) = Some (r, f')" "nodes_ok f'"
      "case r of None \<Rightarrow> nodes f' = nodes f | Some a \<Rightarrow> looked_up a f f' \<and> named_child (nodes f') (n_id pn) name a"
      "remember f' = remember f" "\<And>a. r = Some a \<Longrightarrow> nodes f a = None \<and> (\<exists>m. nodes f' a = Some m \<and> n_lookup m = (if remember f \<noteq> 0 then 2 else 1))"
    by (rule find_new_ok [OF ok p(1) _ space_leftD(1) [OF ok r], of name e]) (use False p(2) in blast)+
  show ?thesis
  proof (cases r)
    case None
    then show ?thesis using f' p(2) t by (simp add: kernel_exec_def answered_def tally_def)
  next
    case (Some a)
    have "remember f = 0" using t by (simp add: tally_def)
    then show ?thesis using kernel_found [OF _ ok f'(2) _ t, of e d "Some name" a] f'(1,3,5) p(2) Some by (auto simp: kernel_exec_def)
  qed
qed

lemma kernel_again:
  assumes ok: "nodes_ok f" and t: "tally k f" and d: "known k d" and r: "space_left f"
  shows "\<exists>k' f'. kernel_exec (e, Again d) (k, f) = Some (k', f') \<and> nodes_ok f' \<and> tally k' f'"
proof -
  obtain a n where a: "nodes f a = Some n" "n_id n = d" using t ok d by (rule tally_known)
  obtain f' where "find_node e f (n_id n) None = Some (Some a, f')" "nodes_ok f'" "looked_up a f f'"
    using ok a(1) space_leftD(2) [OF ok r a(1)] by (rule find_again_ok [where e = e])
  then show ?thesis using kernel_found [OF _ ok _ _ t, of e d None a f'] a by (auto simp: kernel_exec_def)
qed

lemma tally_forget:
  assumes t: "tally k f" and ok: "nodes_ok f" and a: "nodes f a = Some n" "n_id n \<noteq> FUSE_ROOT_ID"
    and g: "nodes g = (nodes f)(a \<mapsto> n')" "remember g = remember f" and n': "n_id n' = n_id n" "n_lookup n' = n_lookup n - j"
  shows "tally (k(n_id n := k (n_id n) - j)) g"
proof -
  have "n_lookup m = (k(n_id n := k (n_id n) - j)) (n_id m)" if b: "nodes g b = Some m" "n_id m \<noteq> FUSE_ROOT_ID" for b m
  proof (cases "b = a")
    case True
    then show ?thesis using b(1) g(1) n' tallyD(1) [OF t ok a(1)] a(2) by simp
  next
    case False
    then have m: "nodes f b = Some m" using b(1) g(1) by simp
    then have "n_id m \<noteq> n_id n" using same_number [OF ok m a(1)] False by blast
    then show ?thesis using tallyD(1) [OF t ok m] b(2) by simp
  qed
  moreover have "\<exists>b m. nodes g b = Some m \<and> n_id m = d" if "0 < (k(n_id n := k (n_id n) - j)) d" for d
  proof -
    have "0 < k d" using that by (auto split: if_splits)
    then obtain b m where "nodes f b = Some m" "n_id m = d" using tally_held [OF t] by blast
    then show ?thesis using g(1) n'(1) a(1) by (cases "b = a") auto
  qed
  ultimately show ?thesis using t g(2) by (simp add: tally_def)
qed

lemma tally_root: "tally k f \<Longrightarrow> nodes_ok f \<Longrightarrow> tally (k(FUSE_ROOT_ID := x)) f"
  by (auto simp: tally_def nodes_ok_iff pre_ok_def split: if_splits)

lemma kernel_forget:
  assumes ok: "nodes_ok f" and t: "tally k f" and j: "0 < j" "j \<le> k d"
  shows "\<exists>k' f'. kernel_exec (e, Forget d j) (k, f) = Some (k', f') \<and> nodes_ok f' \<and> tally k' f'"
proof (cases "d = FUSE_ROOT_ID")
  case True
  then show ?thesis using ok t tally_root [OF t ok] by (simp add: kernel_exec_def node_exec_def forget_node_def)
next
  case False
  obtain a n where a: "nodes f a = Some n" "n_id n = d" using tally_held [OF t, of d] j by auto
  then have n: "n_id n \<noteq> FUSE_ROOT_ID" "n_lookup n = k d" using False tallyD(1) [OF t ok a(1)] by simp_all
  have lru: "a \<notin> set (lru_table f)" using t ok by (auto simp: tally_def nodes_ok_iff fuse_inv_def lru_ok_def lru_enabled_def)
  show ?thesis
  proof (cases "j < n_lookup n")
    case True
    obtain f' x where f': "forget_node e f (n_id n) j = Some (Done f')" "nodes_ok f'"
        "nodes f' = (nodes f)(a \<mapsto> n\<lparr>n_lookup := n_lookup n - j, n_forget := x\<rparr>)" "remember f' = remember f"
      using ok a(1) n(1) lru True by (rule forget_some_ok [where e = e])
    have "tally (k(n_id n := k (n_id n) - j)) f'" using t ok a(1) n(1) f'(3,4) by (rule tally_forget) simp_all
    then show ?thesis using f'(1,2) a(2) by (simp add: kernel_exec_def node_exec_def)
  next
    case False
    then have jn: "j = n_lookup n" using n(2) j(2) by simp
    obtain f' where f': "forget_node e f (n_id n) (n_lookup n) = Some (Done f')" "nodes_ok f'" "drops (set_node a (n\<lparr>n_lookup := 0\<rparr>) f) f'"
      by (rule forget_all_ok [OF ok a(1) n(1) lru, of e]) (use j jn in auto)
    let ?g = "set_node a (n\<lparr>n_lookup := 0\<rparr>) f" and ?k = "k(d := k d - j)"
    have g: "tally ?k ?g" using tally_forget [OF t ok a(1) n(1), of ?g "n\<lparr>n_lookup := 0\<rparr>" j] a(2) jn by simp
    have "\<exists>b m. nodes f' b = Some m \<and> n_id m = c" if c: "0 < ?k c" for c
    proof -
      have "c \<noteq> d" using c jn n(2) by auto
      then have "known k c" using c by (simp add: known_def)
      then obtain b m where b: "nodes f b = Some m" "n_id m = c" "0 < n_lookup m" using t ok by (blast elim: tally_known)
      then have "b \<noteq> a" using \<open>c \<noteq> d\<close> a by auto
      then show ?thesis using drops_keep [OF f'(3), of b m] b by auto
    qed
    moreover have "n_lookup m = ?k (n_id m)" if b: "nodes f' b = Some m" "n_id m \<noteq> FUSE_ROOT_ID" for b m
      using drops_back [OF f'(3) b(1)] b(2) g unfolding tally_def by metis
    ultimately have "tally ?k f'" using g dropsD(2) [OF f'(3)] unfolding tally_def by simp
    then show ?thesis using f'(1,2) a(2) jn by (simp add: kernel_exec_def node_exec_def)
  qed
qed

lemma kernel_rename:
  assumes ok: "nodes_ok f" and t: "tally k f" and m: "kernel_may (e, Rename od on nd nn hide) (k, f)"
  shows "\<exists>k' f'. kernel_exec (e, Rename od on nd nn hide) (k, f) = Some (k', f') \<and> nodes_ok f' \<and> tally k' f'"
proof -
  have inv: "fuse_ok f" "remember f = 0" using ok t by (simp_all add: nodes_ok_iff tally_def)
  obtain x where x: "lookup_node f od on = Some x" "\<And>a. x = Some a \<longleftrightarrow> named_child (nodes f) od on a"
    using lookup_node_iff [OF inv(1), of od on] by blast
  obtain y where y: "lookup_node f nd nn = Some y" using lookup_node_iff [OF inv(1), of nd nn] by blast
  show ?thesis
  proof (cases x)
    case None
    then show ?thesis using x(1) y ok t by (simp add: kernel_exec_def node_exec_def rename_node_def)
  next
    case (Some a)
    then obtain n where n: "nodes f a = Some n" using x(2) by (auto simp: named_child_def)
    obtain q qn where q: "nodes f q = Some qn" "n_id qn = nd" "0 < n_lookup qn"
      by (rule tally_known [OF t ok, of nd]) (use m in \<open>simp_all add: kernel_may_def\<close>)
    have "get_node_nocheck f nd = Some (Some q)" using node_okD(3) [OF ok q(1)] q(2) by (auto simp: get_node_def bind_eq_Some_conv)
    then have c: "known k (n_id n)" "\<not> climbs (nbrk f) (nodes f) q a" using m x(1) Some n by (simp_all add: kernel_may_def)
    obtain r f' where f': "rename_node e f od on (n_id qn) nn hide = Some (r, f')" "nodes_ok f'" "remember f = 0 \<longrightarrow> drops f f'"
      by (rule rename_ok [OF ok _ n _ q(1,3), of od on nn e hide])
         (use x(1) Some c tallyD(2) [OF t ok n] climbs_up [OF ok] inv(2) in auto)
    then show ?thesis using q(2) inv(2) tally_drops [OF t ok] by (simp add: kernel_exec_def node_exec_def)
  qed
qed

lemma kernel_step:
  assumes ok: "nodes_ok f" and t: "tally k f" and m: "kernel_may (e, r) (k, f)"
  shows "\<exists>k' f'. kernel_exec (e, r) (k, f) = Some (k', f') \<and> nodes_ok f' \<and> tally k' f'"
proof (cases r)
  case (Lookup d name)
  then show ?thesis using kernel_lookup [OF ok t] m by (simp add: kernel_may_def)
next
  case (Again d)
  then show ?thesis using kernel_again [OF ok t] m by (simp add: kernel_may_def)
next
  case (Forget d j)
  then show ?thesis using kernel_forget [OF ok t] m by (simp add: kernel_may_def)
next
  case (Remove d name)
  have rem: "remember f = 0" using t by (simp add: tally_def)
  obtain f' where "remove_fuse_node e f d name = Some f'" "nodes_ok f'" "remember f = 0 \<longrightarrow> drops f f'"
    by (rule remove_ok [OF ok, of d name e]) (use rem in auto)
  then show ?thesis using Remove rem tally_drops [OF t ok] by (simp add: kernel_exec_def node_exec_def)
next
  case (Rename od on nd nn hide)
  then show ?thesis using kernel_rename [OF ok t] m by simp
next
  case Clean
  obtain f' where "fuse_clean_cache e f = Some (clean_delay f', f')" "remember f = 0 \<longrightarrow> f' = f" using ok by (rule clean_ok)
  then show ?thesis using Clean ok t by (simp add: kernel_exec_def node_exec_def tally_def)
qed

interpretation kn: guarded kernel_exec kernel_may "\<lambda>(k, f). nodes_ok f \<and> tally k f"
proof
  fix s er
  assume "case s of (k, f) \<Rightarrow> nodes_ok f \<and> tally k f" and "kernel_may er s"
  then show "\<exists>s'. kernel_exec er s = Some s' \<and> (case s' of (k, f) \<Rightarrow> nodes_ok f \<and> tally k f)"
    using kernel_step [of "snd s" "fst s" "fst er" "snd er"] by (cases s) auto
qed

lemma kernel_start:
  obtains f0 where "new_fuse e 0 = Some f0" and "nodes_ok f0" and "tally (\<lambda>d. 0) f0"
  using new_fuse_ok [of e 0] by (auto simp: tally_def)

lemma kernel_reaches_ok:
  assumes "kernel_reaches e xs k f"
  shows "nodes_ok f" and "tally k f"
proof -
  obtain f0 where f0: "new_fuse e 0 = Some f0" "nodes_ok f0" "tally (\<lambda>d. 0) f0" by (rule kernel_start)
  then have "all_may kernel_exec kernel_may xs (\<lambda>d. 0, f0)" "run_ops kernel_exec xs (\<lambda>d. 0, f0) = Some (k, f)"
    using assms by (simp_all add: kernel_reaches_def)
  then show "nodes_ok f" "tally k f" using kn.run_defined [of "(\<lambda>d. 0, f0)" xs] f0(2,3) by simp_all
qed

section \<open>Properties\<close>

text \<open>A small run: memory is there, and the clock stands still.\<close>

definition calm :: env where
  "calm = \<lparr>realloc_ok = (\<lambda>k. True), node_mem = True, name_mem = True, now = 0\<rparr>"

definition small_run :: "(env \<times> request) list" where
  "small_run = [(calm, Lookup 1 ''a''), (calm, Lookup 2 ''b''), (calm, Rename 2 ''b'' 1 ''c'' False), (calm, Forget 2 1)]"

definition small_state :: fuse where
  "small_state = the (run_ops node_exec small_run (the (new_fuse calm 0)))"

lemma small_may: "all_may node_exec node_may small_run (the (new_fuse calm 0))"
  by code_simp

lemma small_reaches: "reaches calm 0 small_run small_state"
  unfolding small_state_def using small_may by (rule reachesI)

definition kernel_run :: "(env \<times> request) list" where
  "kernel_run = small_run @ [(calm, Again 3), (calm, Remove 1 ''c''), (calm, Forget 3 1)]"

lemma kernel_run_may: "all_may kernel_exec kernel_may kernel_run (\<lambda>d. 0, the (new_fuse calm 0))"
  by code_simp

text \<open>
  Property C4: without \<open>remember\<close>, the library handles whatever the kernel requests as long as the kernel observes
  the protocol, and that is stated by the account of the kernel alone: no assertion fails, no pointer dangles and
  the search for a new number ends. Afterwards every node that the kernel knows is found by its number, and its
  counter is the number of lookups that the kernel holds. With \<open>remember\<close> the protocol is not enough, see
  \<open>removed_node_cleaned\<close>.
\<close>

theorem requests_defined:
  assumes "all_may kernel_exec kernel_may xs (\<lambda>d. 0, the (new_fuse e 0))"
  shows "\<exists>k f. new_fuse e 0 \<noteq> None \<and> run_ops kernel_exec xs (\<lambda>d. 0, the (new_fuse e 0)) = Some (k, f) \<and>
    (\<forall>d. known k d \<longrightarrow> (\<exists>a n. get_node f d = Some a \<and> nodes f a = Some n \<and> n_id n = d \<and> (d \<noteq> FUSE_ROOT_ID \<longrightarrow> n_lookup n = k d)))"
proof -
  obtain f0 where f0: "new_fuse e 0 = Some f0" "nodes_ok f0" "tally (\<lambda>d. 0) f0" by (rule kernel_start)
  then obtain k f where f: "run_ops kernel_exec xs (\<lambda>d. 0, f0) = Some (k, f)" "nodes_ok f" "tally k f"
    using kn.run_defined [of "(\<lambda>d. 0, f0)" xs] assms by auto
  have "\<exists>a n. get_node f d = Some a \<and> nodes f a = Some n \<and> n_id n = d \<and> (d \<noteq> FUSE_ROOT_ID \<longrightarrow> n_lookup n = k d)" if "known k d" for d
  proof -
    obtain a n where a: "nodes f a = Some n" "n_id n = d" using f(3,2) \<open>known k d\<close> by (rule tally_known)
    then show ?thesis using node_okD(3) [OF f(2) a(1)] tallyD(1) [OF f(3,2) a(1)] by auto
  qed
  then show ?thesis using f0(1) f(1) by auto
qed

theorem requests_defined_witness:
  "\<exists>k f. run_ops kernel_exec kernel_run (\<lambda>d. 0, the (new_fuse calm 0)) = Some (k, f) \<and> (\<exists>a. get_node f FUSE_ROOT_ID = Some a)"
  using requests_defined [OF kernel_run_may] by (auto simp: known_def)

text \<open>
  Property C8: the two hash tables, which grow and shrink one chain at a time, find by number exactly the node
  with that number, and by parent and name exactly the child of that name.
\<close>

theorem lookups_exact:
  assumes "reaches e rem xs f"
  shows "(\<exists>r. get_node_nocheck f d = Some r \<and> (\<forall>a. r = Some a \<longleftrightarrow> (\<exists>n. nodes f a = Some n \<and> n_id n = d))) \<and>
    (\<exists>r. lookup_node f d name = Some r \<and> (\<forall>a. r = Some a \<longleftrightarrow> named_child (nodes f) d name a))"
  using reaches_ok [OF assms] get_node_iff [of "{}" "{}" "\<lambda>a. 0" f d] lookup_node_iff [of "{}" "\<lambda>a. 0" f d name]
  by (simp add: nodes_ok_iff)

theorem lookups_exact_witness:
  "\<exists>r. lookup_node small_state 1 ''c'' = Some r \<and> (\<forall>a. r = Some a \<longleftrightarrow> named_child (nodes small_state) 1 ''c'' a)"
  using lookups_exact [OF small_reaches, of 1 "''c''"] by blast

lemma known_below:
  assumes ok: "nodes_ok f" and "nodes f a = Some n"
  shows "\<exists>b m. (b, a) \<in> (up (nodes f))\<^sup>* \<and> nodes f b = Some m \<and> 0 < n_lookup m"
proof -
  let ?R = "up (nodes f)"
  have "finite (dom (nodes f))" "acyclic ?R" using ok by (simp_all add: nodes_ok_iff fuse_inv_def heap_ok_def)
  moreover have "?R \<subseteq> dom (nodes f) \<times> dom (nodes f)" using ok by (fastforce simp: up_def nodes_ok_iff fuse_inv_def heap_ok_def node_ok_def)
  ultimately have "wf ?R" using finite_subset finite_SigmaI finite_acyclic_wf by metis
  then show ?thesis using assms(2)
  proof (induction a arbitrary: n rule: wf_induct_rule)
    case (less a)
    show ?case
    proof (cases "0 < n_lookup n")
      case True
      then show ?thesis using less.prems by blast
    next
      case False
      then have "kids {} (nodes f) a \<noteq> {}" using node_okD(2) [OF ok less.prems] by (auto simp: ref_ok_def)
      then obtain b m where b: "nodes f b = Some m" "n_parent m = Some a" by (auto simp: kids_def)
      then have "(b, a) \<in> ?R" by (simp add: up_def)
      then show ?thesis using less.IH [OF _ b(1)] rtrancl_into_rtrancl by metis
    qed
  qed
qed

lemma kernel_reachesI:
  assumes "all_may kernel_exec kernel_may xs (\<lambda>d. 0, the (new_fuse e 0))"
    and "run_ops kernel_exec xs (\<lambda>d. 0, the (new_fuse e 0)) = Some (k, f)"
  shows "kernel_reaches e xs k f"
proof -
  obtain f0 where "new_fuse e 0 = Some f0" by (rule kernel_start)
  then show ?thesis using assms by (simp add: kernel_reaches_def)
qed

text \<open>
  Property C16: without \<open>remember\<close>, a node counts one reference for each of its children and one more exactly when
  the kernel knows it, and no node is leaked: at every node in memory, or below it, there is one that the kernel
  has looked up and not forgotten.
\<close>

theorem references_counted:
  assumes "kernel_reaches e xs k f" and "nodes f a = Some n"
  shows "n_ref n = int (card {b. \<exists>m. nodes f b = Some m \<and> n_parent m = Some a}) + (if known k (n_id n) then 1 else 0) \<and>
    (\<exists>b m. (b, a) \<in> (up (nodes f))\<^sup>* \<and> nodes f b = Some m \<and> known k (n_id m))"
proof -
  note ok = kernel_reaches_ok [OF assms(1)]
  obtain b m where b: "(b, a) \<in> (up (nodes f))\<^sup>*" "nodes f b = Some m" "0 < n_lookup m" using known_below [OF ok(1) assms(2)] by blast
  have "n_ref n = int (card {b. \<exists>m. nodes f b = Some m \<and> n_parent m = Some a}) + (if known k (n_id n) then 1 else 0)"
    using node_okD(2) [OF ok(1) assms(2)] tallyD(2) [OF ok(2,1) assms(2)] by (simp add: ref_ok_def kids_def)
  moreover have "known k (n_id m)" using tallyD(2) [OF ok(2,1) b(2)] b(3) by simp
  ultimately show ?thesis using b(1,2) by blast
qed

theorem references_counted_witness:
  "\<exists>k f n. run_ops kernel_exec kernel_run (\<lambda>d. 0, the (new_fuse calm 0)) = Some (k, f) \<and> nodes f 2 = Some n \<and>
    n_ref n = int (card {b. \<exists>m. nodes f b = Some m \<and> n_parent m = Some 2}) + (if known k (n_id n) then 1 else 0)"
proof -
  have "case run_ops kernel_exec kernel_run (\<lambda>d. 0, the (new_fuse calm 0)) of None \<Rightarrow> False | Some (k, f) \<Rightarrow> nodes f 2 \<noteq> None"
    by code_simp
  then obtain k f n where f: "run_ops kernel_exec kernel_run (\<lambda>d. 0, the (new_fuse calm 0)) = Some (k, f)" "nodes f 2 = Some n"
    by (auto split: option.splits)
  then show ?thesis using references_counted [OF kernel_reachesI [OF kernel_run_may f(1)] f(2)] by blast
qed

text \<open>
  Property C20: a request leaves every node with lookups left in place, with its number and generation, except the node whose lookups are all forgotten and, when the cache is cleaned, the nodes of the list of nodes
  to be forgotten.
\<close>

theorem known_nodes_kept:
  assumes "reaches e rem xs f" and "node_may (e', r) f" and "nodes f a = Some n" and "0 < n_lookup n" and "a \<notin> gives_up r f"
  shows "\<exists>f' n'. node_exec (e', r) f = Some f' \<and> nodes f' a = Some n' \<and> n_id n' = n_id n \<and> n_gen n' = n_gen n \<and> 0 < n_lookup n'"
proof -
  obtain f' where "node_exec (e', r) f = Some f'" "kept (gives_up r f) f f'"
    using node_exec_ok [OF reaches_ok [OF assms(1)] assms(2)] by blast
  then show ?thesis using assms(3-5) unfolding kept_def by blast
qed

theorem known_nodes_kept_witness:
  "\<exists>f' n'. node_exec (calm, Remove 1 ''c'') small_state = Some f' \<and> nodes f' 2 = Some n' \<and> 0 < n_lookup n'"
proof -
  have "case nodes small_state 2 of None \<Rightarrow> False | Some n \<Rightarrow> 0 < n_lookup n" by code_simp
  then obtain n where n: "nodes small_state 2 = Some n" "0 < n_lookup n" by (auto split: option.splits)
  have "node_may (calm, Remove 1 ''c'') small_state" by code_simp
  then show ?thesis using known_nodes_kept [OF small_reaches _ n, of calm "Remove 1 ''c''"] by (auto simp: gives_up_def)
qed

text \<open>
  An example: with \<open>remember\<close>, a node that was removed and then forgotten but for one lookup gets into the list
  of nodes to be forgotten, and the next cleaning deletes it although the kernel still holds that lookup: the
  next request for its number aborts the program.
\<close>

lemma removed_node_cleaned:
  "(let f = the (run_ops node_exec [(calm, Lookup 1 ''a''), (calm, Lookup 1 ''a''), (calm, Remove 1 ''a''), (calm, Forget 2 1)]
       (the (new_fuse calm 60)))
    in (case get_node f 2 of None \<Rightarrow> False | Some a \<Rightarrow> map_option n_lookup (nodes f a) = Some 1) \<and>
       (case fuse_clean_cache (calm\<lparr>now := 61 * 10 ^ 9\<rparr>) f of None \<Rightarrow> False | Some (delay, f') \<Rightarrow> get_node f' 2 = None))"
  by code_simp

end
