(* ===== verification/Fuse_Paths.thy ===== *)
theory Fuse_Paths
  imports Fuse_Nodes
begin

text \<open>
  Paths and tree locks of the FUSE library, \<open>fuse-2.9.3/lib/fuse.c\<close>: a path is written from its end into a
  buffer that grows, while the nodes along it are locked for reading and possibly one child for writing;
  requests that find a lock wait in a queue and are tried again when a path is given back. Threads change
  this state one at a time under \<open>f->lock\<close>; a call either returns or leaves an element in the queue, and
  \<open>resume_path\<close> is what its thread does when it is woken up.
\<close>

section \<open>Writing a path\<close>

text \<open>The answers of the allocator, and what new memory holds.\<close>

record penv =
  p_malloc :: bool
  p_realloc :: "nat \<Rightarrow> bool"
  p_junk :: char

text \<open>A buffer and the position \<open>s\<close> in it; \<open>*bufsize\<close> is its length.\<close>

record pbuf =
  pb_mem :: string
  pb_pos :: nat

definition EAGAIN :: int where
  "EAGAIN = 11"

definition ENOENT_fuse :: int where
  "ENOENT_fuse = 2"

definition TREELOCK_WRITE :: int where
  "TREELOCK_WRITE = - 1"

definition TREELOCK_WAIT_OFFSET :: int where
  "TREELOCK_WAIT_OFFSET = INT_MIN"

text \<open>The new size of the buffer; the loop does not end when more than \<open>2^32 - 1\<close> bytes are needed.\<close>

partial_function (option) grow_size :: "nat \<Rightarrow> nat \<Rightarrow> nat option" where
  "grow_size newbufsize need =
     (if newbufsize < need then grow_size (if newbufsize \<ge> 0x80000000 then 0xffffffff else newbufsize * 2) need
      else Some newbufsize)"

declare grow_size.simps [code]

text \<open>The part of \<open>add_name\<close> that makes room for \<open>len\<close> bytes and a slash; \<open>realloc\<close> may fail.\<close>

definition make_room :: "penv \<Rightarrow> pbuf \<Rightarrow> nat \<Rightarrow> pbuf option option" where
  "make_room e b len =
     (if pb_pos b \<le> len then do {
        let bufsize = length (pb_mem b);
        let pathlen = bufsize - pb_pos b;
        newbufsize \<leftarrow> grow_size bufsize (pathlen + len + 1);
        if \<not> p_realloc e newbufsize then Some None
        else let newbuf = pb_mem b @ replicate (newbufsize - bufsize) (p_junk e); s = newbufsize - pathlen
             in Some (Some \<lparr>pb_mem = take s newbuf @ take pathlen (drop (bufsize - pathlen) newbuf), pb_pos = s\<rparr>) }
      else Some (Some b))"

text \<open>\<open>add_name\<close> returns \<open>NULL\<close> when there is no memory. Writing in front of the buffer is undefined.\<close>

definition add_name :: "penv \<Rightarrow> pbuf \<Rightarrow> string \<Rightarrow> pbuf option option" where
  "add_name e b name = do {
     let len = length name;
     r \<leftarrow> make_room e b len;
     case r of
       None \<Rightarrow> Some None
     | Some b1 \<Rightarrow>
         if pb_pos b1 < len + 1 then None
         else let s = pb_pos b1 - len - 1
              in Some (Some \<lparr>pb_mem = take s (pb_mem b1) @ CHR ''/'' # name @ drop (pb_pos b1) (pb_mem b1), pb_pos = s\<rparr>) }"

section \<open>Locking a path\<close>

definition set_treelock :: "addr \<Rightarrow> int \<Rightarrow> fuse \<Rightarrow> fuse option" where
  "set_treelock a t f = do { n \<leftarrow> nodes f a; Some (set_node a (n\<lparr>n_treelock := t\<rparr>) f) }"

text \<open>
  \<open>unlock_path\<close> goes up to \<open>end\<close>, or to the root, or to a node without parent when \<open>end\<close> is \<open>NULL\<close>.
\<close>

partial_function (option) unlock_loop :: "ptr \<Rightarrow> ptr \<Rightarrow> fuse \<Rightarrow> fuse option" where
  "unlock_loop node en f =
     (if node = en then Some f
      else do {
        a \<leftarrow> node;
        n \<leftarrow> nodes f a;
        if n_id n = FUSE_ROOT_ID then Some f
        else if n_treelock n = 0 \<or> n_treelock n = TREELOCK_WAIT_OFFSET \<or> n_treelock n = TREELOCK_WRITE then None
        else do {
          f1 \<leftarrow> set_treelock a (if n_treelock n - 1 = TREELOCK_WAIT_OFFSET then 0 else n_treelock n - 1) f;
          unlock_loop (n_parent n) en f1 } })"

declare unlock_loop.simps [code]

definition unlock_path :: "fuse \<Rightarrow> nat \<Rightarrow> ptr \<Rightarrow> ptr \<Rightarrow> fuse option" where
  "unlock_path f nodeid wnode en = do {
     f1 \<leftarrow> (case wnode of
         None \<Rightarrow> Some f
       | Some w \<Rightarrow> do { n \<leftarrow> nodes f w; if n_treelock n \<noteq> TREELOCK_WRITE then None else set_treelock w 0 f });
     a \<leftarrow> get_node f1 nodeid;
     unlock_loop (Some a) en f1 }"

text \<open>The loop of \<open>try_get_path\<close>: the error and the node it stopped at, or the buffer.\<close>

partial_function (option) path_loop :: "penv \<Rightarrow> bool \<Rightarrow> addr \<Rightarrow> pbuf \<Rightarrow> fuse \<Rightarrow> ((int \<times> addr + pbuf) \<times> fuse) option" where
  "path_loop e need_lock a b f = do {
     n \<leftarrow> nodes f a;
     if n_id n = FUSE_ROOT_ID then Some (Inr b, f)
     else if n_name n = None \<or> n_parent n = None then Some (Inl (- ENOENT_fuse, a), f)
     else do {
       r \<leftarrow> add_name e b (the (n_name n));
       if r = None then Some (Inl (- ENOMEM, a), f)
       else if need_lock then
         if n_treelock n < 0 then Some (Inl (- EAGAIN, a), f)
         else do {
           t \<leftarrow> checked_int (n_treelock n + 1);
           f1 \<leftarrow> set_treelock a t f;
           path_loop e need_lock (the (n_parent n)) (the r) f1 }
       else path_loop e need_lock (the (n_parent n)) (the r) f } }"

declare path_loop.simps [code]

text \<open>
  \<open>try_get_path\<close> gives the error, the path (\<open>*path\<close>), the node locked for writing (\<open>*wnodep\<close>) and the state;
  \<open>wr\<close> says whether \<open>wnodep\<close> is given.
\<close>

definition lock_wnode :: "fuse \<Rightarrow> nat \<Rightarrow> string option \<Rightarrow> (int \<times> ptr \<times> fuse) option" where
  "lock_wnode f nodeid name = do {
     nm \<leftarrow> name;
     wnode \<leftarrow> lookup_node f nodeid nm;
     case wnode of
       None \<Rightarrow> Some (0, None, f)
     | Some w \<Rightarrow> do {
         n \<leftarrow> nodes f w;
         if n_treelock n \<noteq> 0
         then if n_treelock n > 0
              then do { f1 \<leftarrow> set_treelock w (n_treelock n + TREELOCK_WAIT_OFFSET) f; Some (- EAGAIN, None, f1) }
              else Some (- EAGAIN, None, f)
         else do { f1 \<leftarrow> set_treelock w TREELOCK_WRITE f; Some (0, Some w, f1) } } }"

definition NUL :: char where
  "NUL = CHR 0x00"

definition c_text :: "string \<Rightarrow> string" where
  "c_text = takeWhile (\<lambda>c. c \<noteq> NUL)"

definition try_get_path :: "penv \<Rightarrow> fuse \<Rightarrow> nat \<Rightarrow> string option \<Rightarrow> bool \<Rightarrow> bool \<Rightarrow> (int \<times> string option \<times> ptr \<times> fuse) option" where
  "try_get_path e f nodeid name wr need_lock =
     (if \<not> p_malloc e then Some (- ENOMEM, None, None, f)
      else do {
        let b = \<lparr>pb_mem = replicate 255 (p_junk e) @ [NUL], pb_pos = 255\<rparr>;
        r \<leftarrow> (case name of None \<Rightarrow> Some (Some b) | Some nm \<Rightarrow> add_name e b nm);
        case r of
          None \<Rightarrow> Some (- ENOMEM, None, None, f)
        | Some b1 \<Rightarrow>
            if wr \<and> \<not> need_lock then None
            else do {
              (err, wnode, f1) \<leftarrow> (if wr then lock_wnode f nodeid name else Some (0, None, f));
              if err \<noteq> 0 then Some (err, None, None, f1)
              else do {
                a \<leftarrow> get_node f1 nodeid;
                (res, f2) \<leftarrow> path_loop e need_lock a b1 f1;
                case res of
                  Inl (err, node) \<Rightarrow> do {
                    f3 \<leftarrow> (if need_lock then unlock_path f2 nodeid wnode (Some node) else Some f2);
                    Some (err, None, None, f3) }
                | Inr b2 \<Rightarrow>
                    let s = drop (pb_pos b2) (pb_mem b2)
                    in Some (0, Some (if s \<noteq> [] \<and> hd s \<noteq> NUL then c_text s else ''/''), wnode, f2) } } })"

section \<open>The queue\<close>

text \<open>
  An element of the queue. \<open>q_path1\<close> is \<open>None\<close> when \<open>path1\<close> is \<open>NULL\<close>, and else holds \<open>*path1\<close>; likewise the other
  pointers to results. \<open>q_key\<close> tells elements apart, as their addresses do.
\<close>

record lock_queue_element =
  q_key :: nat
  q_nodeid1 :: nat
  q_name1 :: "string option"
  q_path1 :: "string option option"
  q_wnode1 :: "ptr option"
  q_nodeid2 :: nat
  q_name2 :: "string option"
  q_path2 :: "string option option"
  q_wnode2 :: "ptr option"
  q_err :: int
  first_locked :: bool
  second_locked :: bool
  q_done :: bool

text \<open>\<open>p_live\<close> counts the path buffers that are allocated.\<close>

record path_state =
  p_fuse :: fuse
  lockq :: "lock_queue_element list"
  p_live :: int

definition queue_element_unlock :: "fuse \<Rightarrow> lock_queue_element \<Rightarrow> (fuse \<times> lock_queue_element) option" where
  "queue_element_unlock f qe = do {
     f1 \<leftarrow> (if first_locked qe then unlock_path f (q_nodeid1 qe) (Option.bind (q_wnode1 qe) (\<lambda>w. w)) None else Some f);
     f2 \<leftarrow> (if second_locked qe then unlock_path f1 (q_nodeid2 qe) (Option.bind (q_wnode2 qe) (\<lambda>w. w)) None else Some f1);
     Some (f2, qe\<lparr>first_locked := False, second_locked := False\<rparr>) }"

text \<open>The two attempts of \<open>queue_element_wakeup\<close>: the last error, the element, the state and the new buffers.\<close>

definition try_first :: "penv \<Rightarrow> fuse \<Rightarrow> lock_queue_element \<Rightarrow> (int \<times> fuse \<times> lock_queue_element) option" where
  "try_first e f qe =
     (if first_locked qe then Some (0, f, qe)
      else do {
        (err, path, wnode, f1) \<leftarrow> try_get_path e f (q_nodeid1 qe) (q_name1 qe) (q_wnode1 qe \<noteq> None) True;
        Some (err, f1, qe\<lparr>q_path1 := Some path, q_wnode1 := (if q_wnode1 qe \<noteq> None \<and> err = 0 then Some wnode else q_wnode1 qe),
          first_locked := (err = 0)\<rparr>) })"

definition try_second :: "penv \<Rightarrow> fuse \<Rightarrow> lock_queue_element \<Rightarrow> (int \<times> fuse \<times> lock_queue_element) option" where
  "try_second e f qe =
     (if second_locked qe \<or> q_path2 qe = None then Some (0, f, qe)
      else do {
        (err, path, wnode, f1) \<leftarrow> try_get_path e f (q_nodeid2 qe) (q_name2 qe) (q_wnode2 qe \<noteq> None) True;
        Some (err, f1, qe\<lparr>q_path2 := Some path, q_wnode2 := (if q_wnode2 qe \<noteq> None \<and> err = 0 then Some wnode else q_wnode2 qe),
          second_locked := (err = 0)\<rparr>) })"

definition fresh_paths :: "lock_queue_element \<Rightarrow> lock_queue_element \<Rightarrow> int" where
  "fresh_paths qe qe' = (if first_locked qe' \<and> \<not> first_locked qe then 1 else 0) + (if second_locked qe' \<and> \<not> second_locked qe then 1 else 0)"

text \<open>
  An element that only waits for a node to be unlocked (\<open>path1\<close> is \<open>NULL\<close>) is signalled and looks for itself. An element
  that is done is tried again and found locked.
\<close>

definition queue_element_wakeup :: "penv \<Rightarrow> bool \<Rightarrow> fuse \<Rightarrow> lock_queue_element \<Rightarrow> (fuse \<times> lock_queue_element \<times> int) option" where
  "queue_element_wakeup e first f qe =
     (if q_path1 qe = None then do {
        a \<leftarrow> get_node f (q_nodeid1 qe);
        n \<leftarrow> nodes f a;
        Some (f, qe, 0) }
      else do {
        (err1, f1, qe1) \<leftarrow> try_first e f qe;
        if err1 \<noteq> 0 \<and> err1 \<noteq> - EAGAIN then do {
          (f2, qe2) \<leftarrow> queue_element_unlock f1 qe1;
          Some (f2, qe2\<lparr>q_err := err1, q_done := True\<rparr>, fresh_paths qe qe1) }
        else do {
          (err2, f2, qe2) \<leftarrow> try_second e f1 qe1;
          if err2 \<noteq> 0 \<and> err2 \<noteq> - EAGAIN then do {
            (f3, qe3) \<leftarrow> queue_element_unlock f2 qe2;
            Some (f3, qe3\<lparr>q_err := err2, q_done := True\<rparr>, fresh_paths qe qe2) }
          else if first_locked qe2 \<and> (second_locked qe2 \<or> q_path2 qe2 = None)
          then Some (f2, qe2\<lparr>q_err := 0, q_done := True\<rparr>, fresh_paths qe qe2)
          else if \<not> first then do {
            (f3, qe3) \<leftarrow> queue_element_unlock f2 qe2;
            Some (f3, qe3, fresh_paths qe qe2) }
          else Some (f2, qe2, fresh_paths qe qe2) } })"

fun wake_loop :: "penv \<Rightarrow> bool \<Rightarrow> fuse \<Rightarrow> lock_queue_element list \<Rightarrow> (fuse \<times> lock_queue_element list \<times> int) option" where
  "wake_loop e first f [] = Some (f, [], 0)"
| "wake_loop e first f (qe # qes) = do {
     (f1, qe1, k1) \<leftarrow> queue_element_wakeup e first f qe;
     (f2, qes2, k2) \<leftarrow> wake_loop e False f1 qes;
     Some (f2, qe1 # qes2, k1 + k2) }"

definition wake_up_queued :: "penv \<Rightarrow> path_state \<Rightarrow> path_state option" where
  "wake_up_queued e s = do {
     (f1, qes, k) \<leftarrow> wake_loop e True (p_fuse s) (lockq s);
     Some (s\<lparr>p_fuse := f1, lockq := qes, p_live := p_live s + k\<rparr>) }"

definition queue_path :: "path_state \<Rightarrow> lock_queue_element \<Rightarrow> path_state" where
  "queue_path s qe = s\<lparr>lockq := lockq s @ [qe\<lparr>q_done := False, first_locked := False, second_locked := False\<rparr>]\<rparr>"

text \<open>Taking an element out that is not in the queue runs off its end.\<close>

definition dequeue_path :: "path_state \<Rightarrow> nat \<Rightarrow> path_state option" where
  "dequeue_path s key = (if find (\<lambda>q. q_key q = key) (lockq s) = None then None
     else Some (s\<lparr>lockq := filter (\<lambda>q. q_key q \<noteq> key) (lockq s)\<rparr>))"

section \<open>Getting and giving back paths\<close>

definition new_element :: "nat \<Rightarrow> nat \<Rightarrow> string option \<Rightarrow> bool \<Rightarrow> nat \<Rightarrow> string option \<Rightarrow> bool \<Rightarrow> bool \<Rightarrow> lock_queue_element" where
  "new_element key nodeid1 name1 wr1 nodeid2 name2 wr2 two =
     \<lparr>q_key = key, q_nodeid1 = nodeid1, q_name1 = name1, q_path1 = Some None, q_wnode1 = (if wr1 then Some None else None),
      q_nodeid2 = nodeid2, q_name2 = name2, q_path2 = (if two then Some None else None), q_wnode2 = (if wr2 then Some None else None),
      q_err = 0, first_locked = False, second_locked = False, q_done = False\<rparr>"

text \<open>The thread waits in \<open>wait_path\<close> until its element is done.\<close>

definition get_path_common :: "penv \<Rightarrow> path_state \<Rightarrow> nat \<Rightarrow> nat \<Rightarrow> string option \<Rightarrow> bool \<Rightarrow>
    ((int \<times> string option \<times> ptr) blocking \<times> path_state) option" where
  "get_path_common e s key nodeid name wr = do {
     (err, path, wnode, f1) \<leftarrow> try_get_path e (p_fuse s) nodeid name wr True;
     let s1 = s\<lparr>p_fuse := f1, p_live := p_live s + (if err = 0 then 1 else 0)\<rparr>;
     if err = - EAGAIN then Some (Blocked, queue_path s1 (new_element key nodeid name wr 0 None False False))
     else Some (Done (err, path, wnode), s1) }"

definition resume_path :: "path_state \<Rightarrow> nat \<Rightarrow> ((int \<times> lock_queue_element) blocking \<times> path_state) option" where
  "resume_path s key = do {
     qe \<leftarrow> find (\<lambda>q. q_key q = key) (lockq s);
     if \<not> q_done qe then Some (Blocked, s)
     else do { s1 \<leftarrow> dequeue_path s key; Some (Done (q_err qe, qe), s1) } }"

definition get_path :: "penv \<Rightarrow> path_state \<Rightarrow> nat \<Rightarrow> nat \<Rightarrow> ((int \<times> string option \<times> ptr) blocking \<times> path_state) option" where
  "get_path e s key nodeid = get_path_common e s key nodeid None False"

text \<open>With \<open>nullpath_ok\<close>, a node without a path is no error; a call that waited does this when it is resumed.\<close>

definition nullok_err :: "bool \<Rightarrow> int \<Rightarrow> int" where
  "nullok_err nullpath_ok err = (if err = - ENOENT_fuse \<and> nullpath_ok then 0 else err)"

definition get_path_nullok :: "bool \<Rightarrow> bool \<Rightarrow> penv \<Rightarrow> path_state \<Rightarrow> nat \<Rightarrow> nat \<Rightarrow>
    ((int \<times> string option \<times> ptr) blocking \<times> path_state) option" where
  "get_path_nullok nopath nullpath_ok e s key nodeid =
     (if nopath then Some (Done (0, None, None), s)
      else do {
        (r, s1) \<leftarrow> get_path_common e s key nodeid None False;
        Some (case r of Done (err, path, wnode) \<Rightarrow> Done (nullok_err nullpath_ok err, path, wnode) | Blocked \<Rightarrow> Blocked, s1) })"

definition get_path_name :: "penv \<Rightarrow> path_state \<Rightarrow> nat \<Rightarrow> nat \<Rightarrow> string \<Rightarrow> ((int \<times> string option \<times> ptr) blocking \<times> path_state) option" where
  "get_path_name e s key nodeid name = get_path_common e s key nodeid (Some name) False"

definition get_path_wrlock :: "penv \<Rightarrow> path_state \<Rightarrow> nat \<Rightarrow> nat \<Rightarrow> string \<Rightarrow> ((int \<times> string option \<times> ptr) blocking \<times> path_state) option" where
  "get_path_wrlock e s key nodeid name = get_path_common e s key nodeid (Some name) True"

definition try_get_path2 :: "penv \<Rightarrow> fuse \<Rightarrow> nat \<Rightarrow> string option \<Rightarrow> nat \<Rightarrow> string option \<Rightarrow> bool \<Rightarrow> bool \<Rightarrow>
    (int \<times> (string option \<times> ptr) \<times> (string option \<times> ptr) \<times> fuse) option" where
  "try_get_path2 e f nodeid1 name1 nodeid2 name2 wr1 wr2 = do {
     (err, path1, wnode1, f1) \<leftarrow> try_get_path e f nodeid1 name1 wr1 True;
     if err \<noteq> 0 then Some (err, (path1, wnode1), (None, None), f1)
     else do {
       (err, path2, wnode2, f2) \<leftarrow> try_get_path e f1 nodeid2 name2 wr2 True;
       if err \<noteq> 0 then do {
         f3 \<leftarrow> unlock_path f2 nodeid1 wnode1 None;
         Some (err, (path1, wnode1), (path2, wnode2), f3) }
       else Some (0, (path1, wnode1), (path2, wnode2), f2) } }"

definition get_path2 :: "penv \<Rightarrow> path_state \<Rightarrow> nat \<Rightarrow> nat \<Rightarrow> string option \<Rightarrow> nat \<Rightarrow> string option \<Rightarrow> bool \<Rightarrow> bool \<Rightarrow>
    ((int \<times> (string option \<times> ptr) \<times> (string option \<times> ptr)) blocking \<times> path_state) option" where
  "get_path2 e s key nodeid1 name1 nodeid2 name2 wr1 wr2 = do {
     (err, r1, r2, f1) \<leftarrow> try_get_path2 e (p_fuse s) nodeid1 name1 nodeid2 name2 wr1 wr2;
     let s1 = s\<lparr>p_fuse := f1, p_live := p_live s + (if err = 0 then 2 else 0)\<rparr>;
     if err = - EAGAIN then Some (Blocked, queue_path s1 (new_element key nodeid1 name1 wr1 nodeid2 name2 wr2 True))
     else Some (Done (err, r1, r2), s1) }"

definition free_buf :: "string option \<Rightarrow> path_state \<Rightarrow> path_state" where
  "free_buf path s = (if path = None then s else s\<lparr>p_live := p_live s - 1\<rparr>)"

definition free_path_wrlock :: "penv \<Rightarrow> path_state \<Rightarrow> nat \<Rightarrow> ptr \<Rightarrow> string option \<Rightarrow> path_state option" where
  "free_path_wrlock e s nodeid wnode path = do {
     f1 \<leftarrow> unlock_path (p_fuse s) nodeid wnode None;
     let s1 = s\<lparr>p_fuse := f1\<rparr>;
     s2 \<leftarrow> (if lockq s1 \<noteq> [] then wake_up_queued e s1 else Some s1);
     Some (free_buf path s2) }"

definition free_path :: "penv \<Rightarrow> path_state \<Rightarrow> nat \<Rightarrow> string option \<Rightarrow> path_state option" where
  "free_path e s nodeid path = (if path = None then Some s else free_path_wrlock e s nodeid None path)"

definition free_path2 :: "penv \<Rightarrow> path_state \<Rightarrow> nat \<Rightarrow> nat \<Rightarrow> ptr \<Rightarrow> ptr \<Rightarrow> string option \<Rightarrow> string option \<Rightarrow> path_state option" where
  "free_path2 e s nodeid1 nodeid2 wnode1 wnode2 path1 path2 = do {
     f1 \<leftarrow> unlock_path (p_fuse s) nodeid1 wnode1 None;
     f2 \<leftarrow> unlock_path f1 nodeid2 wnode2 None;
     s1 \<leftarrow> wake_up_queued e (s\<lparr>p_fuse := f2\<rparr>);
     Some (free_buf path2 (free_buf path1 s1)) }"

end
