(* ===== verification/Fuse_Path_Locks.thy ===== *)
theory Fuse_Path_Locks
  imports Fuse_Paths Fuse_Requests
begin

text \<open>
  What locking a path does, on a fixed tree of nodes with arbitrary locks: the path that is written, the
  nodes that are locked, and that a failed attempt and a path given back leave no lock behind.
\<close>

section \<open>The buffer\<close>

lemma grow_size_enough:
  assumes "need \<le> 0xffffffff" and "0 < n" and "n \<le> 0xffffffff"
  shows "\<exists>m. grow_size n need = Some m \<and> need \<le> m \<and> n \<le> m \<and> m \<le> 0xffffffff"
  using assms(2,3)
proof (induction "0xffffffff - n" arbitrary: n rule: less_induct)
  case less
  show ?case
  proof (cases "n < need")
    case True
    define k :: nat where "k = (if n \<ge> 0x80000000 then 0xffffffff else n * 2)"
    have n: "n < k" "k \<le> 0xffffffff" using True assms(1) less.prems by (auto simp: k_def)
    then obtain m where "grow_size k need = Some m" "need \<le> m" "k \<le> m" "m \<le> 0xffffffff"
      using less.hyps [of k] by force
    moreover have "grow_size n need = grow_size k need" using True by (subst grow_size.simps) (simp add: k_def)
    ultimately show ?thesis using n(1) by auto
  next
    case False
    then show ?thesis using less.prems by (subst grow_size.simps) simp
  qed
qed

definition buf_ok :: "pbuf \<Rightarrow> bool" where
  "buf_ok b \<longleftrightarrow> pb_pos b < length (pb_mem b) \<and> length (pb_mem b) \<le> 0xffffffff"

definition buf_text :: "pbuf \<Rightarrow> string" where
  "buf_text b = drop (pb_pos b) (pb_mem b)"

definition mem_ok :: "penv \<Rightarrow> bool" where
  "mem_ok e \<longleftrightarrow> p_malloc e \<and> (\<forall>n. p_realloc e n)"

lemma make_room_ok:
  assumes b: "buf_ok b" and e: "\<forall>n. p_realloc e n" and l: "length (buf_text b) + len + 1 \<le> 0xffffffff"
  shows "\<exists>b'. make_room e b len = Some (Some b') \<and> buf_ok b' \<and> buf_text b' = buf_text b \<and> len + 1 \<le> pb_pos b'"
proof (cases "pb_pos b \<le> len")
  case True
  let ?k = "length (pb_mem b) - pb_pos b"
  have "?k + len + 1 \<le> 0xffffffff" "0 < length (pb_mem b)" "length (pb_mem b) \<le> 0xffffffff"
    using b l by (auto simp: buf_ok_def buf_text_def)
  then obtain m where m: "grow_size (length (pb_mem b)) (?k + len + 1) = Some m" "?k + len + 1 \<le> m" "length (pb_mem b) \<le> m" "m \<le> 0xffffffff"
    using grow_size_enough by blast
  have "length (pb_mem b) - ?k = pb_pos b" using b by (simp add: buf_ok_def)
  then show ?thesis using True m e b by (auto simp: make_room_def Let_def buf_ok_def buf_text_def)
next
  case False
  then show ?thesis using b by (simp add: make_room_def)
qed

lemma add_name_ok:
  assumes b: "buf_ok b" and e: "\<forall>n. p_realloc e n" and l: "length (buf_text b) + length name + 1 \<le> 0xffffffff"
  shows "\<exists>b'. add_name e b name = Some (Some b') \<and> buf_ok b' \<and> buf_text b' = CHR ''/'' # name @ buf_text b"
proof -
  obtain b1 where b1: "make_room e b (length name) = Some (Some b1)" "buf_ok b1" "buf_text b1 = buf_text b" "length name + 1 \<le> pb_pos b1"
    using make_room_ok [OF assms] by blast
  let ?s = "pb_pos b1 - length name - 1"
  let ?b = "\<lparr>pb_mem = take ?s (pb_mem b1) @ CHR ''/'' # name @ drop (pb_pos b1) (pb_mem b1), pb_pos = ?s\<rparr>"
  have "add_name e b name = Some (Some ?b)" using b1(1,4) by (simp add: add_name_def Let_def)
  moreover have "buf_ok ?b" using b1(2,4) by (auto simp: buf_ok_def min_def)
  moreover have "buf_text ?b = CHR ''/'' # name @ buf_text b"
  proof -
    have "length (take ?s (pb_mem b1)) = ?s" using b1(2) by (auto simp: buf_ok_def min_def)
    then have "drop ?s (take ?s (pb_mem b1) @ r) = r" for r by (metis append_eq_conv_conj)
    then show ?thesis using b1(3) [symmetric] by (simp add: buf_text_def)
  qed
  ultimately show ?thesis by blast
qed

section \<open>Locks\<close>

text \<open>A tree whose locks are given by a function.\<close>

definition with_locks :: "fuse \<Rightarrow> (addr \<Rightarrow> int) \<Rightarrow> fuse" where
  "with_locks f L = f\<lparr>nodes := (\<lambda>a. map_option (\<lambda>n. n\<lparr>n_treelock := L a\<rparr>) (nodes f a))\<rparr>"

lemma with_locks_at: "nodes (with_locks f L) a = map_option (\<lambda>n. n\<lparr>n_treelock := L a\<rparr>) (nodes f a)"
  by (simp add: with_locks_def)

lemma set_treelock_at: "nodes f a \<noteq> None \<Longrightarrow> set_treelock a t (with_locks f L) = Some (with_locks f (L(a := t)))"
  by (auto simp: set_treelock_def with_locks_def set_node_def fun_eq_iff)

lemma get_node_locks [simp]: "get_node (with_locks f L) = get_node f"
proof -
  have "find_id (nodes (with_locks f L)) nid c = find_id (nodes f) nid c" for nid c
    by (induction c) (auto simp: with_locks_at split: bind_splits)
  then show ?thesis by (simp add: get_node_def get_node_nocheck_def with_locks_def fun_eq_iff)
qed

lemma lookup_node_locks [simp]: "lookup_node (with_locks f L) = lookup_node f"
proof -
  have "find_name (nodes (with_locks f L)) d name c = find_name (nodes f) d name c" for d name c
    by (induction c) (auto simp: with_locks_at split: bind_splits)
  then show ?thesis by (simp add: lookup_node_def with_locks_def fun_eq_iff)
qed

lemma with_locks_self: "with_locks f (\<lambda>a. case nodes f a of None \<Rightarrow> 0 | Some n \<Rightarrow> n_treelock n) = f"
proof -
  have "map_option (\<lambda>n. n\<lparr>n_treelock := (case nodes f a of None \<Rightarrow> 0 | Some n \<Rightarrow> n_treelock n)\<rparr>) (nodes f a) = nodes f a" for a
    by (cases "nodes f a") auto
  then show ?thesis by (simp add: with_locks_def)
qed

text \<open>The nodes from \<open>a\<close> up to, and without, \<open>c\<close>; and up to the root.\<close>

fun upward :: "(addr \<rightharpoonup> node) \<Rightarrow> addr \<Rightarrow> addr list \<Rightarrow> addr \<Rightarrow> bool" where
  "upward ns a [] c = (a = c)"
| "upward ns a (x # xs) c = (x = a \<and> (case ns a of None \<Rightarrow> False
     | Some n \<Rightarrow> n_id n \<noteq> FUSE_ROOT_ID \<and> n_name n \<noteq> None \<and> (case n_parent n of None \<Rightarrow> False | Some p \<Rightarrow> upward ns p xs c)))"

definition root_at :: "(addr \<rightharpoonup> node) \<Rightarrow> addr \<Rightarrow> bool" where
  "root_at ns a = (case ns a of None \<Rightarrow> False | Some n \<Rightarrow> n_id n = FUSE_ROOT_ID)"

definition upchain :: "(addr \<rightharpoonup> node) \<Rightarrow> addr \<Rightarrow> addr list \<Rightarrow> bool" where
  "upchain ns a xs \<longleftrightarrow> (\<exists>c. upward ns a xs c \<and> root_at ns c)"

definition path_text :: "(addr \<rightharpoonup> node) \<Rightarrow> addr list \<Rightarrow> string" where
  "path_text ns xs = concat (map (\<lambda>a. case ns a of None \<Rightarrow> [] | Some n \<Rightarrow> CHR ''/'' # the (n_name n)) (rev xs))"

definition add_locks :: "addr list \<Rightarrow> (addr \<Rightarrow> int) \<Rightarrow> addr \<Rightarrow> int" where
  "add_locks xs L a = (if a \<in> set xs then L a + 1 else L a)"

definition sub_locks :: "addr list \<Rightarrow> (addr \<Rightarrow> int) \<Rightarrow> addr \<Rightarrow> int" where
  "sub_locks xs L a = (if a \<in> set xs then if L a - 1 = TREELOCK_WAIT_OFFSET then 0 else L a - 1 else L a)"

lemma upwardE:
  assumes "upward ns a (x # xs) c"
  obtains n p nm where "x = a" and "ns a = Some n" and "n_id n \<noteq> FUSE_ROOT_ID" and "n_name n = Some nm" and "n_parent n = Some p"
    and "upward ns p xs c"
  using assms by (auto split: option.splits)

lemma upward_up: "upward ns a xs c \<Longrightarrow> b \<in> insert c (set xs) \<Longrightarrow> (a, b) \<in> (up ns)\<^sup>*"
proof (induction xs arbitrary: a)
  case (Cons x xs)
  obtain n p nm where p: "x = a" "ns a = Some n" "n_parent n = Some p" "upward ns p xs c" using Cons.prems(1) by (rule upwardE)
  then have "(a, p) \<in> up ns" by (simp add: up_def)
  then show ?case using Cons.IH [OF p(4)] Cons.prems(2) p(1) by (auto intro: converse_rtrancl_into_rtrancl)
qed simp

lemma upward_distinct:
  assumes "acyclic (up ns)" and "upward ns a xs c"
  shows "distinct xs" and "c \<notin> set xs"
proof -
  have "distinct xs \<and> c \<notin> set xs" using assms(2)
  proof (induction xs arbitrary: a)
    case (Cons x xs)
    obtain n p nm where p: "x = a" "ns a = Some n" "n_parent n = Some p" "upward ns p xs c" using Cons.prems(1) by (rule upwardE)
    have "b \<noteq> a" if b: "b \<in> insert c (set xs)" for b
    proof
      assume "b = a"
      then have "(p, a) \<in> (up ns)\<^sup>*" using upward_up [OF p(4) b] by simp
      moreover have "(a, p) \<in> up ns" using p by (simp add: up_def)
      ultimately show False using assms(1) unfolding acyclic_def by (meson rtrancl_into_trancl2)
    qed
    then show ?case using Cons.IH [OF p(4)] p(1) by auto
  qed simp
  then show "distinct xs" "c \<notin> set xs" by simp_all
qed

lemma upchain_unique:
  assumes "upchain ns a xs" and "upchain ns a ys"
  shows "xs = ys"
proof -
  have "upward ns a xs c \<Longrightarrow> root_at ns c \<Longrightarrow> upward ns a ys d \<Longrightarrow> root_at ns d \<Longrightarrow> xs = ys" for c d
  proof (induction xs arbitrary: a ys)
    case Nil
    then show ?case by (cases ys) (auto simp: root_at_def split: option.splits)
  next
    case (Cons x xs)
    then show ?case by (cases ys) (auto simp: root_at_def split: option.splits)
  qed
  then show ?thesis using assms by (auto simp: upchain_def)
qed

lemma path_text_Cons: "ns a = Some n \<Longrightarrow> n_name n = Some nm \<Longrightarrow> path_text ns (a # xs) = path_text ns xs @ CHR ''/'' # nm"
  by (simp add: path_text_def)

lemma add_locks_Cons: "a \<notin> set xs \<Longrightarrow> add_locks xs (L(a := L a + 1)) = add_locks (a # xs) L"
  by (auto simp: add_locks_def fun_eq_iff)

lemma sub_locks_Cons:
  "a \<notin> set xs \<Longrightarrow> sub_locks xs (L(a := (if L a - 1 = TREELOCK_WAIT_OFFSET then 0 else L a - 1))) = sub_locks (a # xs) L"
  by (auto simp: sub_locks_def fun_eq_iff)

lemma sub_add_locks: "\<forall>x \<in> set xs. 0 \<le> L x \<Longrightarrow> sub_locks xs (add_locks xs L) = L"
  by (auto simp: sub_locks_def add_locks_def fun_eq_iff TREELOCK_WAIT_OFFSET_def INT_MIN_def)

section \<open>The loops\<close>

lemma unlock_loop_end: "unlock_loop en en f = Some f"
  by (subst unlock_loop.simps) simp

lemma unlock_upward:
  assumes "acyclic (up (nodes f))" and "upward (nodes f) a xs c" and "en = Some c \<or> en = None \<and> root_at (nodes f) c"
    and "\<forall>x \<in> set xs. L x \<noteq> 0 \<and> L x \<noteq> TREELOCK_WAIT_OFFSET \<and> L x \<noteq> TREELOCK_WRITE"
  shows "unlock_loop (Some a) en (with_locks f L) = Some (with_locks f (sub_locks xs L))"
  using assms(2,4)
proof (induction xs arbitrary: a L)
  case Nil
  then have "a = c" by simp
  moreover have "unlock_loop (Some c) en (with_locks f L) = Some (with_locks f L)"
    using assms(3) by (subst unlock_loop.simps) (auto simp: root_at_def with_locks_at split: option.splits)
  moreover have "sub_locks [] L = L" by (simp add: sub_locks_def fun_eq_iff)
  ultimately show ?case by simp
next
  case (Cons x xs)
  obtain n p nm where p: "x = a" "nodes f a = Some n" "n_id n \<noteq> FUSE_ROOT_ID" "n_parent n = Some p" "upward (nodes f) p xs c"
    using Cons.prems(1) by (rule upwardE)
  note d = upward_distinct [OF assms(1) Cons.prems(1)]
  let ?t = "if L a - 1 = TREELOCK_WAIT_OFFSET then 0 else L a - 1"
  have ne: "Some a \<noteq> en" using assms(3) d(2) p(1) by auto
  have "unlock_loop (Some a) en (with_locks f L) = Option.bind (set_treelock a ?t (with_locks f L)) (unlock_loop (Some p) en)"
    using Cons.prems(2) p ne by (subst unlock_loop.simps) (simp add: with_locks_at)
  also have "\<dots> = unlock_loop (Some p) en (with_locks f (L(a := ?t)))" using p(2) by (simp add: set_treelock_at)
  also have "\<dots> = Some (with_locks f (sub_locks xs (L(a := ?t))))"
    by (rule Cons.IH [OF p(5)]) (use Cons.prems(2) d(1) p(1) in auto)
  finally show ?case using d(1) p(1) sub_locks_Cons [of a xs L] by simp
qed

text \<open>The path fits the largest buffer.\<close>

definition fits :: "(addr \<rightharpoonup> node) \<Rightarrow> addr \<Rightarrow> nat \<Rightarrow> bool" where
  "fits ns a k \<longleftrightarrow> (\<forall>xs c. upward ns a xs c \<longrightarrow> k + length (path_text ns xs) \<le> 0xffffffff)"

lemma fits_up:
  assumes "fits ns a k" and "ns a = Some n" and "n_id n \<noteq> FUSE_ROOT_ID" and "n_name n = Some nm" and "n_parent n = Some p"
  shows "fits ns p (k + length nm + 1)" and "k + length nm + 1 \<le> 0xffffffff"
proof -
  have b: "k + length (path_text ns xs) + length nm + 1 \<le> 0xffffffff" if "upward ns p xs c" for xs c
  proof -
    have "upward ns a (a # xs) c" using that assms by simp
    then have "k + length (path_text ns (a # xs)) \<le> 0xffffffff" using assms(1) unfolding fits_def by blast
    then show ?thesis by (simp add: path_text_Cons [of ns a n nm xs, OF assms(2,4)])
  qed
  then show "fits ns p (k + length nm + 1)" by (fastforce simp: fits_def)
  show "k + length nm + 1 \<le> 0xffffffff" using b [of "[]" p] by simp
qed

lemma add_name_cases:
  assumes b: "buf_ok b" and l: "length (buf_text b) + length name + 1 \<le> 0xffffffff"
  shows "add_name e b name = Some None \<and> \<not> mem_ok e \<or>
    (\<exists>b'. add_name e b name = Some (Some b') \<and> buf_ok b' \<and> buf_text b' = CHR ''/'' # name @ buf_text b)"
proof -
  let ?e = "e\<lparr>p_realloc := (\<lambda>n. True)\<rparr>"
  obtain b' where b': "add_name ?e b name = Some (Some b')" "buf_ok b'" "buf_text b' = CHR ''/'' # name @ buf_text b"
    using add_name_ok [OF b, of ?e name] l by auto
  obtain b1 where m: "make_room ?e b (length name) = Some (Some b1)" using make_room_ok [OF b, of ?e] l by fastforce
  then have "make_room e b (length name) = Some None \<and> \<not> mem_ok e \<or> make_room e b (length name) = make_room ?e b (length name)"
    by (auto simp: make_room_def mem_ok_def Let_def bind_eq_Some_conv split: if_splits)
  then show ?thesis using b' by (auto simp: add_name_def)
qed

definition stops :: "penv \<Rightarrow> fuse \<Rightarrow> (addr \<Rightarrow> int) \<Rightarrow> int \<Rightarrow> addr \<Rightarrow> bool" where
  "stops e f L err c \<longleftrightarrow> \<not> root_at (nodes f) c \<and>
     (err = - ENOENT_fuse \<and> (\<exists>n. nodes f c = Some n \<and> (n_name n = None \<or> n_parent n = None)) \<or>
      err = - ENOMEM \<and> \<not> mem_ok e \<or> err = - EAGAIN \<and> L c < 0)"

lemma path_loop_outcome:
  assumes tree: "finite (dom (nodes f))" "acyclic (up (nodes f))" "\<forall>a n p. nodes f a = Some n \<longrightarrow> n_parent n = Some p \<longrightarrow> p \<in> dom (nodes f)"
    and L: "\<forall>x. (a, x) \<in> (up (nodes f))\<^sup>* \<longrightarrow> L x < INT_MAX" and "a \<in> dom (nodes f)" and "buf_ok b" and "fits (nodes f) a (length (buf_text b))"
  shows "\<exists>xs c r. upward (nodes f) a xs c \<and> (\<forall>x \<in> set xs. 0 \<le> L x) \<and>
    path_loop e True a b (with_locks f L) = Some (r, with_locks f (add_locks xs L)) \<and>
    (case r of Inr b' \<Rightarrow> root_at (nodes f) c \<and> buf_ok b' \<and> buf_text b' = path_text (nodes f) xs @ buf_text b
     | Inl (err, c') \<Rightarrow> c' = c \<and> stops e f L err c)"
proof -
  have "up (nodes f) \<subseteq> dom (nodes f) \<times> dom (nodes f)" using tree(3) by (fastforce simp: up_def)
  then have "wf ((up (nodes f))\<inverse>)" using tree(1,2) finite_subset finite_SigmaI finite_acyclic_wf_converse by metis
  then show ?thesis using assms(5-) L
  proof (induction a arbitrary: b L rule: wf_induct_rule)
    case (less a)
    obtain n where n: "nodes f a = Some n" using less.prems(1) by blast
    have e: "path_loop e True a b (with_locks f L) = (if n_id n = FUSE_ROOT_ID then Some (Inr b, with_locks f L)
        else if n_name n = None \<or> n_parent n = None then Some (Inl (- ENOENT_fuse, a), with_locks f L)
        else Option.bind (add_name e b (the (n_name n))) (\<lambda>r. if r = None then Some (Inl (- ENOMEM, a), with_locks f L)
          else if L a < 0 then Some (Inl (- EAGAIN, a), with_locks f L)
          else Option.bind (checked_int (L a + 1)) (\<lambda>t. path_loop e True (the (n_parent n)) (the r) (with_locks f (L(a := t))))))"
      using n by (subst path_loop.simps) (simp add: with_locks_at set_treelock_at cong: if_cong)
    have L0: "add_locks [] L = L" by (simp add: add_locks_def fun_eq_iff)
    show ?case
    proof (cases "n_id n = FUSE_ROOT_ID \<or> n_name n = None \<or> n_parent n = None")
      case True
      then have "path_loop e True a b (with_locks f L) =
          Some (if n_id n = FUSE_ROOT_ID then Inr b else Inl (- ENOENT_fuse, a), with_locks f (add_locks [] L))" using e L0 by auto
      then show ?thesis using True n less.prems(2)
        by (intro exI [of _ "[]"] exI [of _ a] exI [of _ "if n_id n = FUSE_ROOT_ID then Inr b else Inl (- ENOENT_fuse, a)"])
           (auto simp: root_at_def stops_def path_text_def)
    next
      case False
      then obtain nm p where p: "n_name n = Some nm" "n_parent n = Some p" "n_id n \<noteq> FUSE_ROOT_ID" by auto
      note fit = fits_up [OF less.prems(3) n p(3,1,2)]
      have root: "\<not> root_at (nodes f) a" using n p(3) by (simp add: root_at_def)
      consider (mem) "add_name e b nm = Some None" "\<not> mem_ok e"
        | (busy) b' where "add_name e b nm = Some (Some b')" "L a < 0"
        | (go) b' where "add_name e b nm = Some (Some b')" "buf_ok b'" "buf_text b' = CHR ''/'' # nm @ buf_text b" "0 \<le> L a"
        using add_name_cases [OF less.prems(2) fit(2), of e] by fastforce
      then show ?thesis
      proof cases
        case mem
        then show ?thesis using e p root L0 by (intro exI [of _ "[]"] exI [of _ a]) (simp add: stops_def)
      next
        case busy
        then show ?thesis using e p root L0 by (intro exI [of _ "[]"] exI [of _ a]) (simp add: stops_def)
      next
        case go
        have pa: "(p, a) \<in> (up (nodes f))\<inverse>" using n p by (simp add: up_def)
        have up: "(a, p) \<in> up (nodes f)" using n p by (simp add: up_def)
        let ?L = "L(a := L a + 1)"
        have int: "checked_int (L a + 1) = Some (L a + 1)"
          using go(4) less.prems(4) [rule_format, of a] by (simp add: int_range_def INT_MIN_def INT_MAX_def)
        have above: "x \<noteq> a \<and> L x < INT_MAX" if "(p, x) \<in> (up (nodes f))\<^sup>*" for x
        proof -
          have "(a, x) \<in> (up (nodes f))\<^sup>+" using up that by (rule rtrancl_into_trancl2)
          then show ?thesis using tree(2) less.prems(4) unfolding acyclic_def by (auto dest: trancl_into_rtrancl)
        qed
        obtain xs c r where r: "upward (nodes f) p xs c" "\<forall>x \<in> set xs. 0 \<le> ?L x"
            "path_loop e True p b' (with_locks f ?L) = Some (r, with_locks f (add_locks xs ?L))"
            "case r of Inr b'' \<Rightarrow> root_at (nodes f) c \<and> buf_ok b'' \<and> buf_text b'' = path_text (nodes f) xs @ buf_text b'
              | Inl (err, c') \<Rightarrow> c' = c \<and> stops e f ?L err c"
        proof -
          have "p \<in> dom (nodes f)" using tree(3) n p(2) by blast
          moreover have "fits (nodes f) p (length (buf_text b'))" using fit(1) go(3) by (simp add: algebra_simps)
          moreover have "\<forall>x. (p, x) \<in> (up (nodes f))\<^sup>* \<longrightarrow> ?L x < INT_MAX" using above by simp
          ultimately show ?thesis using that less.IH [OF pa _ go(2)] by blast
        qed
        have w: "upward (nodes f) a (a # xs) c" using n p r(1) by simp
        note d = upward_distinct [OF tree(2) w]
        have "path_loop e True a b (with_locks f L) = Some (r, with_locks f (add_locks (a # xs) L))"
          using e p go(1,4) int r(3) d(1) add_locks_Cons [of a xs L] by simp
        moreover have "\<forall>x \<in> set (a # xs). 0 \<le> L x" using r(2) d(1) go(4) by (auto split: if_splits)
        moreover have "stops e f L err c" if "stops e f ?L err c" for err using that d(2) by (auto simp: stops_def)
        moreover have "path_text (nodes f) xs @ buf_text b' = path_text (nodes f) (a # xs) @ buf_text b"
          using go(3) by (simp add: path_text_Cons [of "nodes f" a n nm xs, OF n p(1)])
        ultimately show ?thesis using w r(4) by (intro exI [of _ "a # xs"] exI [of _ c] exI [of _ r]) (auto split: sum.splits)
      qed
    qed
  qed
qed

section \<open>Locking a path\<close>

text \<open>The tree, without its locks, is as the requests leave it; paths and names fit the buffer.\<close>

definition paths_ok :: "fuse \<Rightarrow> bool" where
  "paths_ok f \<longleftrightarrow> nodes_ok f \<and> (\<forall>a n nm. nodes f a = Some n \<longrightarrow> n_name n = Some nm \<longrightarrow> NUL \<notin> set nm)"

definition name_fits :: "fuse \<Rightarrow> addr \<Rightarrow> string option \<Rightarrow> bool" where
  "name_fits f a name \<longleftrightarrow> fits (nodes f) a (case name of None \<Rightarrow> 1 | Some nm \<Rightarrow> length nm + 2) \<and>
     (case name of None \<Rightarrow> True | Some nm \<Rightarrow> NUL \<notin> set nm)"

lemma paths_okD:
  assumes "paths_ok f"
  shows "finite (dom (nodes f))" and "acyclic (up (nodes f))" and "nodes f a = Some n \<Longrightarrow> n_parent n = Some p \<Longrightarrow> p \<in> dom (nodes f)"
    and "nodes f a = Some n \<Longrightarrow> get_node f (n_id n) = Some a" and "nodes_ok f"
  using assms node_okD(3) [of f a n] by (auto simp: paths_ok_def nodes_ok_iff fuse_inv_def heap_ok_def node_ok_def)

text \<open>What a successful attempt at the node \<open>a\<close> has locked.\<close>

definition locked :: "addr list \<Rightarrow> ptr \<Rightarrow> (addr \<Rightarrow> int) \<Rightarrow> addr \<Rightarrow> int" where
  "locked xs w L = add_locks xs (case w of None \<Rightarrow> L | Some c \<Rightarrow> L(c := TREELOCK_WRITE))"

definition free_for :: "fuse \<Rightarrow> nat \<Rightarrow> string option \<Rightarrow> bool \<Rightarrow> (addr \<Rightarrow> int) \<Rightarrow> ptr \<Rightarrow> bool" where
  "free_for f nodeid name wr L w \<longleftrightarrow>
     (case w of None \<Rightarrow> wr \<longrightarrow> (\<forall>c. \<not> named_child (nodes f) nodeid (the name) c)
      | Some c \<Rightarrow> wr \<and> named_child (nodes f) nodeid (the name) c \<and> L c = 0)"

lemma named_child_above:
  assumes "paths_ok f" and "nodes f a = Some n" and "named_child (nodes f) (n_id n) nm c"
  shows "(c, a) \<in> up (nodes f)"
proof -
  obtain m p pn where m: "nodes f c = Some m" "n_parent m = Some p" "nodes f p = Some pn" "n_id pn = n_id n" using assms(3) by (auto simp: named_child_def)
  have "ids_ok (nodes f)" using paths_okD(5) [OF assms(1)] by (simp add: nodes_ok_iff fuse_inv_def heap_ok_def)
  then have "p = a" using m(3,4) assms(2) unfolding ids_ok_def by blast
  then show ?thesis using m by (simp add: up_def)
qed

lemma child_not_above:
  assumes "paths_ok f" and "nodes f a = Some n" and "named_child (nodes f) (n_id n) nm c"
  shows "(a, c) \<notin> (up (nodes f))\<^sup>*"
  using named_child_above [OF assms] paths_okD(2) [OF assms(1)] unfolding acyclic_def by (meson rtrancl_into_trancl2)

lemma lock_wnode_outcome:
  assumes "paths_ok f"
  shows "(\<exists>w. lock_wnode (with_locks f L) nodeid (Some nm) = Some (0, w, with_locks f (case w of None \<Rightarrow> L | Some c \<Rightarrow> L(c := TREELOCK_WRITE))) \<and>
      free_for f nodeid (Some nm) True L w) \<or>
    (\<exists>c. named_child (nodes f) nodeid nm c \<and> L c \<noteq> 0 \<and> lock_wnode (with_locks f L) nodeid (Some nm) =
      Some (- EAGAIN, None, with_locks f (if 0 < L c then L(c := L c + TREELOCK_WAIT_OFFSET) else L)))"
proof -
  obtain r where r: "lookup_node f nodeid nm = Some r" "\<forall>c. r = Some c \<longleftrightarrow> named_child (nodes f) nodeid nm c"
    using lookup_node_iff [of "{}" "\<lambda>a. 0" f nodeid nm] paths_okD(5) [OF assms] by (auto simp: nodes_ok_iff)
  show ?thesis
  proof (cases r)
    case None
    then show ?thesis using r by (simp add: lock_wnode_def free_for_def)
  next
    case (Some c)
    then have c: "named_child (nodes f) nodeid nm c" using r(2) by blast
    then obtain m where m: "nodes f c = Some m" by (auto simp: named_child_def)
    show ?thesis
    proof (cases "L c = 0")
      case True
      then show ?thesis using r(1) Some m c
        by (intro disjI1 exI [of _ "Some c"]) (simp add: lock_wnode_def free_for_def with_locks_at set_treelock_at)
    next
      case False
      then show ?thesis using r(1) Some m c
        by (intro disjI2 exI [of _ c]) (simp add: lock_wnode_def with_locks_at set_treelock_at)
    qed
  qed
qed

lemma unlock_path_ok:
  assumes f: "paths_ok f" and a: "nodes f a = Some n" "upward (nodes f) a xs c" and "en = Some c \<or> en = None \<and> root_at (nodes f) c"
    and w: "\<And>v. w = Some v \<Longrightarrow> nodes f v \<noteq> None \<and> L v = TREELOCK_WRITE \<and> v \<notin> set xs"
    and L: "\<forall>x \<in> set xs. L x \<noteq> 0 \<and> L x \<noteq> TREELOCK_WAIT_OFFSET \<and> L x \<noteq> TREELOCK_WRITE"
  shows "unlock_path (with_locks f L) (n_id n) w en =
    Some (with_locks f (sub_locks xs (case w of None \<Rightarrow> L | Some v \<Rightarrow> L(v := 0))))"
proof (cases w)
  case None
  then show ?thesis using unlock_upward [OF paths_okD(2) [OF f] a(2) assms(4) L] paths_okD(4) [OF f a(1)] by (simp add: unlock_path_def)
next
  case (Some v)
  have "nodes f v \<noteq> None" "L v = TREELOCK_WRITE" "v \<notin> set xs" using w [OF Some] by simp_all
  moreover have "unlock_loop (Some a) en (with_locks f (L(v := 0))) = Some (with_locks f (sub_locks xs (L(v := 0))))"
    by (rule unlock_upward [OF paths_okD(2) [OF f] a(2) assms(4)]) (use L w [OF Some] in auto)
  ultimately show ?thesis using Some paths_okD(4) [OF f a(1)] by (auto simp: unlock_path_def with_locks_at set_treelock_at)
qed

definition whole_path :: "(addr \<rightharpoonup> node) \<Rightarrow> addr list \<Rightarrow> string option \<Rightarrow> string" where
  "whole_path ns xs name = (let s = path_text ns xs @ (case name of None \<Rightarrow> [] | Some nm \<Rightarrow> CHR ''/'' # nm) in if s = [] then ''/'' else s)"

lemma path_text_clean:
  assumes "paths_ok f" and "upward (nodes f) a xs c"
  shows "NUL \<notin> set (path_text (nodes f) xs)"
  using assms(2)
proof (induction xs arbitrary: a)
  case (Cons x xs)
  obtain n p nm where p: "x = a" "nodes f a = Some n" "n_name n = Some nm" "upward (nodes f) p xs c" using Cons.prems(1) by (rule upwardE)
  then show ?case using Cons.IH [OF p(4)] assms(1) by (auto simp: path_text_Cons [of "nodes f" a n nm xs, OF p(2,3)] paths_ok_def NUL_def)
qed (simp add: path_text_def)

lemma written_path:
  assumes "NUL \<notin> set s"
  shows "(if s @ [NUL] \<noteq> [] \<and> hd (s @ [NUL]) \<noteq> NUL then c_text (s @ [NUL]) else ''/'') = (if s = [] then ''/'' else s)"
proof -
  have "takeWhile (\<lambda>c. c \<noteq> NUL) (s @ [NUL]) = s" using assms by (induction s) auto
  then show ?thesis using assms by (cases s) (auto simp: c_text_def)
qed

text \<open>The two outcomes of an attempt.\<close>

definition got_path :: "fuse \<Rightarrow> nat \<Rightarrow> string option \<Rightarrow> bool \<Rightarrow> (addr \<Rightarrow> int) \<Rightarrow> addr \<Rightarrow> addr list \<Rightarrow> string option \<Rightarrow> ptr \<Rightarrow> (addr \<Rightarrow> int) \<Rightarrow> bool" where
  "got_path f nodeid name wr L a xs path w L' \<longleftrightarrow> upchain (nodes f) a xs \<and> (\<forall>x \<in> set xs. 0 \<le> L x) \<and> free_for f nodeid name wr L w \<and>
     path = Some (whole_path (nodes f) xs name) \<and> L' = locked xs w L"

definition no_path :: "penv \<Rightarrow> fuse \<Rightarrow> nat \<Rightarrow> string option \<Rightarrow> bool \<Rightarrow> (addr \<Rightarrow> int) \<Rightarrow> addr \<Rightarrow> int \<Rightarrow> (addr \<Rightarrow> int) \<Rightarrow> bool" where
  "no_path e f nodeid name wr L a err L' \<longleftrightarrow>
     (\<exists>xs c. upward (nodes f) a xs c \<and> stops e f L err c) \<and> L' = L \<or>
     err = - ENOMEM \<and> \<not> mem_ok e \<and> L' = L \<or>
     err = - EAGAIN \<and> wr \<and> (\<exists>c. named_child (nodes f) nodeid (the name) c \<and> L c \<noteq> 0 \<and>
       L' = (if 0 < L c then L(c := L c + TREELOCK_WAIT_OFFSET) else L))"

text \<open>The walk up, once the child is locked, and its way back.\<close>

lemma walk_spec:
  assumes f: "paths_ok f" and a: "nodes f a = Some n" and L: "\<And>x. L x < INT_MAX" and w: "free_for f (n_id n) name wr L w"
    and b: "buf_ok b" "fits (nodes f) a (length (buf_text b))" and L1: "L1 = (case w of None \<Rightarrow> L | Some c \<Rightarrow> L(c := TREELOCK_WRITE))"
  shows "(\<exists>xs b'. path_loop e True a b (with_locks f L1) = Some (Inr b', with_locks f (locked xs w L)) \<and> upchain (nodes f) a xs \<and>
      (\<forall>x \<in> set xs. 0 \<le> L x) \<and> buf_text b' = path_text (nodes f) xs @ buf_text b) \<or>
    (\<exists>xs c err f2. path_loop e True a b (with_locks f L1) = Some (Inl (err, c), f2) \<and>
      unlock_path f2 (n_id n) w (Some c) = Some (with_locks f L) \<and> upward (nodes f) a xs c \<and> stops e f L err c)"
proof -
  have L1b: "\<forall>x. (a, x) \<in> (up (nodes f))\<^sup>* \<longrightarrow> L1 x < INT_MAX"
    using L by (auto simp: L1 TREELOCK_WRITE_def INT_MAX_def split: option.splits)
  obtain xs c r where r: "upward (nodes f) a xs c" "\<forall>x \<in> set xs. 0 \<le> L1 x"
      "path_loop e True a b (with_locks f L1) = Some (r, with_locks f (add_locks xs L1))"
      "case r of Inr b' \<Rightarrow> root_at (nodes f) c \<and> buf_ok b' \<and> buf_text b' = path_text (nodes f) xs @ buf_text b
       | Inl (err, c') \<Rightarrow> c' = c \<and> stops e f L1 err c"
  proof -
    have t3: "\<forall>x m p. nodes f x = Some m \<longrightarrow> n_parent m = Some p \<longrightarrow> p \<in> dom (nodes f)" using paths_okD(3) [OF f] by blast
    have "a \<in> dom (nodes f)" using a by blast
    then show ?thesis using that path_loop_outcome [OF paths_okD(1,2) [OF f] t3 L1b _ b, where e = e] by blast
  qed
  have v: "nodes f v \<noteq> None \<and> L v = 0 \<and> v \<noteq> x" if "w = Some v" "(a, x) \<in> (up (nodes f))\<^sup>*" for v x
  proof -
    have nc: "named_child (nodes f) (n_id n) (the name) v" "L v = 0" using w that(1) by (auto simp: free_for_def)
    then show ?thesis using child_not_above [OF f a nc(1)] that(2) by (auto simp: named_child_def)
  qed
  have x: "x \<in> insert c (set xs) \<Longrightarrow> L1 x = L x" for x
    using v upward_up [OF r(1), of x] by (auto simp: L1 split: option.splits)
  show ?thesis
  proof (cases r)
    case (Inr b')
    then show ?thesis using r x by (intro disjI1 exI [of _ xs] exI [of _ b']) (auto simp: upchain_def locked_def L1)
  next
    case (Inl ec)
    then obtain err where ec: "ec = (err, c)" "stops e f L1 err c" using r(4) by (cases ec) auto
    have pos: "0 < add_locks xs L1 y" if "y \<in> set xs" for y using r(2) that by (auto simp: add_locks_def intro: add_nonneg_pos)
    have "unlock_path (with_locks f (add_locks xs L1)) (n_id n) w (Some c) =
        Some (with_locks f (sub_locks xs (case w of None \<Rightarrow> add_locks xs L1 | Some v \<Rightarrow> (add_locks xs L1)(v := 0))))"
    proof (rule unlock_path_ok [OF f a r(1)])
      show "\<forall>y \<in> set xs. add_locks xs L1 y \<noteq> 0 \<and> add_locks xs L1 y \<noteq> TREELOCK_WAIT_OFFSET \<and> add_locks xs L1 y \<noteq> TREELOCK_WRITE"
        using pos by (force simp: TREELOCK_WAIT_OFFSET_def TREELOCK_WRITE_def INT_MIN_def)
      show "nodes f u \<noteq> None \<and> add_locks xs L1 u = TREELOCK_WRITE \<and> u \<notin> set xs" if "w = Some u" for u
        using v [OF that] upward_up [OF r(1)] that by (auto simp: add_locks_def L1)
    qed simp
    also have "sub_locks xs (case w of None \<Rightarrow> add_locks xs L1 | Some v \<Rightarrow> (add_locks xs L1)(v := 0)) = L"
    proof (cases w)
      case None
      then show ?thesis using sub_add_locks [OF r(2)] by (simp add: L1)
    next
      case (Some u)
      have "u \<notin> set xs" "L u = 0" using v [OF Some] upward_up [OF r(1)] by auto
      then have "sub_locks xs ((add_locks xs L1)(u := 0)) = (sub_locks xs (add_locks xs L1))(u := 0)" by (auto simp: sub_locks_def fun_eq_iff)
      also have "\<dots> = L1(u := 0)" by (simp only: sub_add_locks [OF r(2)])
      also have "\<dots> = L" using \<open>L u = 0\<close> by (auto simp: L1 Some)
      finally show ?thesis using Some by simp
    qed
    finally have "unlock_path (with_locks f (add_locks xs L1)) (n_id n) w (Some c) = Some (with_locks f L)" .
    moreover have "stops e f L err c" using ec(2) x by (simp add: stops_def)
    ultimately show ?thesis using r(1,3) Inl ec(1) by (intro disjI2 exI [of _ xs] exI [of _ c] exI [of _ err]) auto
  qed
qed

lemma try_get_path_spec:
  assumes f: "paths_ok f" and a: "nodes f a = Some n" and nf: "name_fits f a name" and L: "\<And>x. L x < INT_MAX" and wr: "wr \<Longrightarrow> name \<noteq> None"
  shows "(\<exists>xs path w L'. try_get_path e (with_locks f L) (n_id n) name wr True = Some (0, path, w, with_locks f L') \<and>
      got_path f (n_id n) name wr L a xs path w L') \<or>
    (\<exists>err L'. err \<noteq> 0 \<and> try_get_path e (with_locks f L) (n_id n) name wr True = Some (err, None, None, with_locks f L') \<and>
      no_path e f (n_id n) name wr L a err L')"
proof (cases "p_malloc e")
  case False
  then show ?thesis by (intro disjI2 exI [of _ "- ENOMEM"] exI [of _ L]) (auto simp: try_get_path_def no_path_def mem_ok_def ENOMEM_def)
next
  case mal: True
  let ?b = "\<lparr>pb_mem = replicate 255 (p_junk e) @ [NUL], pb_pos = 255\<rparr>"
  let ?r = "case name of None \<Rightarrow> Some (Some ?b) | Some nm \<Rightarrow> add_name e ?b nm"
  let ?t = "(case name of None \<Rightarrow> [] | Some nm \<Rightarrow> CHR ''/'' # nm) @ [NUL]"
  have b: "buf_ok ?b" "buf_text ?b = [NUL]" by (simp_all add: buf_ok_def buf_text_def)
  have len: "fits (nodes f) a (length ?t)" using nf by (simp add: name_fits_def split: option.splits)
  then have len1: "length ?t \<le> 0xffffffff" unfolding fits_def by (auto dest!: spec [of _ "[]"])
  consider (mem) "?r = Some None" "\<not> mem_ok e" | (go) b1 where "?r = Some (Some b1)" "buf_ok b1" "buf_text b1 = ?t"
  proof (cases name)
    case None
    then show ?thesis using that(2) b by simp
  next
    case (Some nm)
    then show ?thesis using that add_name_cases [OF b(1), of nm e] b(2) len1 by auto
  qed
  then show ?thesis
  proof cases
    case mem
    then show ?thesis using mal by (intro disjI2 exI [of _ "- ENOMEM"] exI [of _ L]) (simp add: try_get_path_def no_path_def ENOMEM_def)
  next
    case go
    have wnode: "(\<exists>w. (if wr then lock_wnode (with_locks f L) (n_id n) name else Some (0, None, with_locks f L)) =
          Some (0, w, with_locks f (case w of None \<Rightarrow> L | Some c \<Rightarrow> L(c := TREELOCK_WRITE))) \<and> free_for f (n_id n) name wr L w) \<or>
        (\<exists>c. wr \<and> named_child (nodes f) (n_id n) (the name) c \<and> L c \<noteq> 0 \<and> (if wr then lock_wnode (with_locks f L) (n_id n) name else Some (0, None, with_locks f L)) =
          Some (- EAGAIN, None, with_locks f (if 0 < L c then L(c := L c + TREELOCK_WAIT_OFFSET) else L)))"
    proof (cases wr)
      case True
      then obtain nm where "name = Some nm" using wr by blast
      then show ?thesis using lock_wnode_outcome [OF f, of L "n_id n" nm] True by simp
    next
      case False
      then show ?thesis by (intro disjI1 exI [of _ None]) (simp add: free_for_def)
    qed
    then show ?thesis
    proof (elim disjE exE conjE)
      fix c
      assume c: "wr" "named_child (nodes f) (n_id n) (the name) c" "L c \<noteq> 0"
        "(if wr then lock_wnode (with_locks f L) (n_id n) name else Some (0, None, with_locks f L)) =
          Some (- EAGAIN, None, with_locks f (if 0 < L c then L(c := L c + TREELOCK_WAIT_OFFSET) else L))"
      then show ?thesis using mal go(1)
        by (intro disjI2 exI [of _ "- EAGAIN"] exI [of _ "if 0 < L c then L(c := L c + TREELOCK_WAIT_OFFSET) else L"])
           (auto simp: try_get_path_def no_path_def EAGAIN_def)
    next
      fix w
      let ?L1 = "case w of None \<Rightarrow> L | Some c \<Rightarrow> L(c := TREELOCK_WRITE)"
      assume w: "(if wr then lock_wnode (with_locks f L) (n_id n) name else Some (0, None, with_locks f L)) = Some (0, w, with_locks f ?L1)"
        "free_for f (n_id n) name wr L w"
      have e: "try_get_path e (with_locks f L) (n_id n) name wr True = Option.bind (path_loop e True a b1 (with_locks f ?L1)) (\<lambda>(res, f2).
          case res of Inl (err, node) \<Rightarrow> Option.bind (unlock_path f2 (n_id n) w (Some node)) (\<lambda>f3. Some (err, None, None, f3))
          | Inr b2 \<Rightarrow> Some (0, Some (if buf_text b2 \<noteq> [] \<and> hd (buf_text b2) \<noteq> NUL then c_text (buf_text b2) else ''/''), w, f2))"
        using mal go(1) w(1) paths_okD(4) [OF f a] by (simp add: try_get_path_def buf_text_def Let_def cong: sum.case_cong if_cong)
      have "fits (nodes f) a (length (buf_text b1))" using len go(3) by simp
      from walk_spec [OF f a L w(2) go(2) this refl, of e] show ?thesis
      proof (elim disjE exE conjE)
        fix xs b'
        assume x: "path_loop e True a b1 (with_locks f ?L1) = Some (Inr b', with_locks f (locked xs w L))" "upchain (nodes f) a xs"
          "\<forall>x \<in> set xs. 0 \<le> L x" "buf_text b' = path_text (nodes f) xs @ buf_text b1"
        let ?s = "path_text (nodes f) xs @ (case name of None \<Rightarrow> [] | Some nm \<Rightarrow> CHR ''/'' # nm)"
        have clean: "NUL \<notin> set ?s" using x(2) path_text_clean [OF f] nf by (auto simp: upchain_def name_fits_def NUL_def split: option.splits)
        have written: "buf_text b' = ?s @ [NUL]" using x(4) go(3) by simp
        have "(if buf_text b' \<noteq> [] \<and> hd (buf_text b') \<noteq> NUL then c_text (buf_text b') else ''/'') = whole_path (nodes f) xs name"
          unfolding written whole_path_def Let_def by (rule written_path [OF clean])
        then show ?thesis using e x w(2)
          by (intro disjI1 exI [of _ xs] exI [of _ "Some (whole_path (nodes f) xs name)"] exI [of _ w] exI [of _ "locked xs w L"]) (simp add: got_path_def)
      next
        fix xs c err f2
        assume x: "path_loop e True a b1 (with_locks f ?L1) = Some (Inl (err, c), f2)" "unlock_path f2 (n_id n) w (Some c) = Some (with_locks f L)"
          "upward (nodes f) a xs c" "stops e f L err c"
        have "err \<noteq> 0" using x(4) by (auto simp: stops_def ENOENT_fuse_def ENOMEM_def EAGAIN_def)
        then show ?thesis using e x by (intro disjI2 exI [of _ err] exI [of _ L]) (auto simp: no_path_def)
      qed
    qed
  qed
qed

end
