(* ===== verification/Fuse_Path_Run.thy ===== *)
theory Fuse_Path_Run
  imports Fuse_Path_Locks
begin

text \<open>
  Running the path model on concrete inputs: the bytes in front of the position \<open>s\<close> are never read, so that
  the size of the buffer and its text are enough to tell what \<open>try_get_path\<close> does.
\<close>

definition add_text :: "penv \<Rightarrow> nat \<times> string \<Rightarrow> string \<Rightarrow> (nat \<times> string) option option" where
  "add_text e = (\<lambda>(k, t) name. let t' = CHR ''/'' # name @ t in
     if k < length t' then do {
       m \<leftarrow> grow_size k (length t');
       Some (if p_realloc e m then Some (m, t') else None) }
     else Some (Some (k, t')))"

definition buf_view :: "pbuf \<Rightarrow> nat \<times> string" where
  "buf_view b = (length (pb_mem b), buf_text b)"

lemma grow_size_bound: "grow_size n need = Some m \<Longrightarrow> n \<le> 0xffffffff \<Longrightarrow> need \<le> m \<and> n \<le> m \<and> m \<le> 0xffffffff"
proof (induction rule: grow_size.raw_induct [rotated, consumes 1, case_names step])
  case (step g n need m)
  show ?case
  proof (cases "n < need")
    case True
    let ?k = "if n \<ge> 0x80000000 then 0xffffffff else n * 2"
    have "g ?k need = Some m" "n \<le> ?k" "?k \<le> 0xffffffff" using True step(2,3) by (auto simp: if_distrib cong: if_cong)
    then show ?thesis using step(1) [of ?k need m] by auto
  qed (use step in auto)
qed

lemma written_name:
  assumes "buf_ok b1" and "length name + 1 \<le> pb_pos b1" and "s = pb_pos b1 - length name - 1"
  defines "b \<equiv> \<lparr>pb_mem = take s (pb_mem b1) @ CHR ''/'' # name @ drop (pb_pos b1) (pb_mem b1), pb_pos = s\<rparr>"
  shows "length (pb_mem b) = length (pb_mem b1)" and "buf_text b = CHR ''/'' # name @ buf_text b1" and "buf_ok b"
  using assms by (auto simp: buf_ok_def buf_text_def)

lemma add_name_view:
  assumes b: "buf_ok b"
  shows "add_text e (buf_view b) name = map_option (map_option buf_view) (add_name e b name)"
    and "add_name e b name = Some (Some b') \<Longrightarrow> buf_ok b'"
proof -
  let ?n = "length (pb_mem b)" and ?k = "length (pb_mem b) - pb_pos b" and ?l = "length name"
  have t: "length (buf_text b) = ?k" "pb_pos b < ?n" "?n \<le> 0xffffffff" using b by (auto simp: buf_text_def buf_ok_def)
  have wr: "add_name e b name = Some (Some \<lparr>pb_mem = take s (pb_mem b1) @ CHR ''/'' # name @ drop (pb_pos b1) (pb_mem b1), pb_pos = s\<rparr>)"
      "buf_view \<lparr>pb_mem = take s (pb_mem b1) @ CHR ''/'' # name @ drop (pb_pos b1) (pb_mem b1), pb_pos = s\<rparr> =
         (length (pb_mem b1), CHR ''/'' # name @ buf_text b)"
      "buf_ok \<lparr>pb_mem = take s (pb_mem b1) @ CHR ''/'' # name @ drop (pb_pos b1) (pb_mem b1), pb_pos = s\<rparr>"
    if r: "make_room e b ?l = Some (Some b1)" "buf_ok b1" "buf_text b1 = buf_text b" "?l + 1 \<le> pb_pos b1" "s = pb_pos b1 - ?l - 1" for b1 s
    using r(1,4,5) written_name [OF r(2,4,5)] r(3) by (simp_all add: add_name_def Let_def buf_view_def)
  have "add_text e (buf_view b) name = map_option (map_option buf_view) (add_name e b name) \<and>
    (\<forall>b'. add_name e b name = Some (Some b') \<longrightarrow> buf_ok b')"
  proof (cases "pb_pos b \<le> ?l")
    case False
    then have "make_room e b ?l = Some (Some b)" by (simp add: make_room_def)
    note w = wr [OF this b refl _ refl]
    have "add_text e (buf_view b) name = Some (Some (?n, CHR ''/'' # name @ buf_text b))"
      using False t by (auto simp: add_text_def buf_view_def Let_def)
    then show ?thesis using w False by simp
  next
    case True
    have need: "?k + ?l + 1 = length (CHR ''/'' # name @ buf_text b)" "?n < length (CHR ''/'' # name @ buf_text b)" using True t by auto
    show ?thesis
    proof (cases "grow_size ?n (?k + ?l + 1)")
      case None
      then show ?thesis using True need by (simp add: add_text_def buf_view_def Let_def add_name_def make_room_def add.commute)
    next
      case (Some m)
      note m = grow_size_bound [OF Some t(3)]
      show ?thesis
      proof (cases "p_realloc e m")
        case False
        then show ?thesis using Some True need by (simp add: add_text_def buf_view_def Let_def add_name_def make_room_def add.commute)
      next
        case re: True
        define b1 where "b1 = \<lparr>pb_mem = take (m - ?k) (pb_mem b @ replicate (m - ?n) (p_junk e)) @ take ?k (drop (?n - ?k) (pb_mem b @ replicate (m - ?n) (p_junk e))),
          pb_pos = m - ?k\<rparr>"
        have r: "make_room e b ?l = Some (Some b1)" using True Some re by (simp add: make_room_def Let_def b1_def)
        have "?n - ?k = pb_pos b" using t by simp
        then have len: "length (pb_mem b1) = m" "buf_ok b1" "buf_text b1 = buf_text b" "?l + 1 \<le> pb_pos b1"
          using m t True by (auto simp: buf_ok_def buf_text_def b1_def)
        have "add_text e (buf_view b) name = Some (Some (m, CHR ''/'' # name @ buf_text b))"
          using Some need(2) re unfolding need(1) add_text_def buf_view_def Let_def case_prod_conv by (simp only: if_True Option.bind.simps)
        moreover note wr [OF r len(2-4) refl]
        ultimately show ?thesis using len(1) by (simp only: option.map option.inject, blast)
      qed
    qed
  qed
  then show "add_text e (buf_view b) name = map_option (map_option buf_view) (add_name e b name)" "add_name e b name = Some (Some b') \<Longrightarrow> buf_ok b'"
    by auto
qed

partial_function (option) text_loop :: "penv \<Rightarrow> bool \<Rightarrow> addr \<Rightarrow> nat \<times> string \<Rightarrow> fuse \<Rightarrow> ((int \<times> addr + nat \<times> string) \<times> fuse) option" where
  "text_loop e need_lock a b f = do {
     n \<leftarrow> nodes f a;
     if n_id n = FUSE_ROOT_ID then Some (Inr b, f)
     else if n_name n = None \<or> n_parent n = None then Some (Inl (- ENOENT_fuse, a), f)
     else do {
       r \<leftarrow> add_text e b (the (n_name n));
       if r = None then Some (Inl (- ENOMEM, a), f)
       else if need_lock then
         if n_treelock n < 0 then Some (Inl (- EAGAIN, a), f)
         else do {
           t \<leftarrow> checked_int (n_treelock n + 1);
           f1 \<leftarrow> set_treelock a t f;
           text_loop e need_lock (the (n_parent n)) (the r) f1 }
       else text_loop e need_lock (the (n_parent n)) (the r) f } }"

declare text_loop.simps [code]

definition loop_view :: "(int \<times> addr + pbuf) \<times> fuse \<Rightarrow> (int \<times> addr + nat \<times> string) \<times> fuse" where
  "loop_view = (\<lambda>(r, f). (case r of Inl x \<Rightarrow> Inl x | Inr b \<Rightarrow> Inr (buf_view b), f))"

lemma text_loop_of_path: "path_loop e need_lock a b f = Some r \<Longrightarrow> buf_ok b \<Longrightarrow> text_loop e need_lock a (buf_view b) f = Some (loop_view r)"
proof (induction rule: path_loop.raw_induct [rotated, consumes 1, case_names step])
  case (step g e need_lock a b f r)
  note v = add_name_view [OF step(3)]
  obtain r1 r2 where r: "r = (r1, r2)" by (cases r)
  have ih: "buf_view b' = t' \<Longrightarrow> g e need_lock a' b' f' = Some r' \<Longrightarrow> buf_ok b' \<Longrightarrow> text_loop e need_lock a' t' f' = Some (loop_view r')" for a' t' f' r' b'
    using step(1) by blast
  have [simp]: "loop_view (Inr b', f') = (Inr (buf_view b'), f')" "loop_view (Inl x, f') = (Inl x, f')" for b' f' x by (simp_all add: loop_view_def)
  show ?case using ih step(2) v [of e] unfolding r
    by (subst text_loop.simps) (auto split: if_splits Option.bind_splits)
qed

lemma path_loop_of_text: "text_loop e need_lock a t f = Some r \<Longrightarrow> buf_ok b \<Longrightarrow> t = buf_view b \<Longrightarrow> path_loop e need_lock a b f \<noteq> None"
proof (induction arbitrary: b rule: text_loop.raw_induct [rotated, consumes 1, case_names step])
  case (step g e need_lock a t f r)
  note v = add_name_view [OF step(3)]
  obtain r1 r2 where r: "r = (r1, r2)" by (cases r)
  have ih: "buf_view b' = t' \<Longrightarrow> g e need_lock a' t' f' = Some r' \<Longrightarrow> buf_ok b' \<Longrightarrow> path_loop e need_lock a' b' f' \<noteq> None" for a' t' f' r' b'
    using step(1) by blast
  show ?case using ih step(2) v [of e] step(4) unfolding r
    by (subst path_loop.simps) (auto split: if_splits Option.bind_splits)
qed

lemma path_loop_view: "buf_ok b \<Longrightarrow> text_loop e need_lock a (buf_view b) f = map_option loop_view (path_loop e need_lock a b f)"
  using text_loop_of_path [of e need_lock a b f] path_loop_of_text [of e need_lock a "buf_view b" f _ b]
  by (cases "path_loop e need_lock a b f"; cases "text_loop e need_lock a (buf_view b) f") auto

text \<open>An equation for \<open>try_get_path\<close> without the buffer.\<close>

lemma try_get_path_text [code]:
  "try_get_path e f nodeid name wr need_lock =
     (if \<not> p_malloc e then Some (- ENOMEM, None, None, f)
      else do {
        r \<leftarrow> (case name of None \<Rightarrow> Some (Some (256, [NUL])) | Some nm \<Rightarrow> add_text e (256, [NUL]) nm);
        case r of
          None \<Rightarrow> Some (- ENOMEM, None, None, f)
        | Some b1 \<Rightarrow>
            if wr \<and> \<not> need_lock then None
            else do {
              (err, wnode, f1) \<leftarrow> (if wr then lock_wnode f nodeid name else Some (0, None, f));
              if err \<noteq> 0 then Some (err, None, None, f1)
              else do {
                a \<leftarrow> get_node f1 nodeid;
                (res, f2) \<leftarrow> text_loop e need_lock a b1 f1;
                case res of
                  Inl (err, node) \<Rightarrow> do {
                    f3 \<leftarrow> (if need_lock then unlock_path f2 nodeid wnode (Some node) else Some f2);
                    Some (err, None, None, f3) }
                | Inr (k, s) \<Rightarrow> Some (0, Some (if s \<noteq> [] \<and> hd s \<noteq> NUL then c_text s else ''/''), wnode, f2) } } })"
proof -
  let ?b = "\<lparr>pb_mem = replicate 255 (p_junk e) @ [NUL], pb_pos = 255\<rparr>"
  have b: "buf_ok ?b" "buf_view ?b = (256, [NUL])" by (simp_all add: buf_ok_def buf_view_def buf_text_def)
  let ?r = "case name of None \<Rightarrow> Some (Some ?b) | Some nm \<Rightarrow> add_name e ?b nm"
  have r: "(case name of None \<Rightarrow> Some (Some (256, [NUL])) | Some nm \<Rightarrow> add_text e (256, [NUL]) nm) = map_option (map_option buf_view) ?r"
    using add_name_view(1) [OF b(1), of e] b(2) by (simp split: option.splits)
  have ok: "buf_ok b1" if "?r = Some (Some b1)" for b1
    using that add_name_view(2) [OF b(1), of e] b(1) by (auto split: option.splits)
  show ?thesis
  proof (cases "?r = None \<or> ?r = Some None")
    case True
    then show ?thesis unfolding try_get_path_def Let_def r by auto
  next
    case False
    then obtain b1 where b1: "?r = Some (Some b1)" by auto
    have loop: "(do { (res, f2) \<leftarrow> text_loop e need_lock a (buf_view b1) f1;
          case res of
            Inl (err, node) \<Rightarrow> do {
              f3 \<leftarrow> (if need_lock then unlock_path f2 nodeid wnode (Some node) else Some f2);
              Some (err, None, None, f3) }
          | Inr (k, s) \<Rightarrow> Some (0, Some (if s \<noteq> [] \<and> hd s \<noteq> NUL then c_text s else ''/''), wnode, f2) }) =
        (do { (res, f2) \<leftarrow> path_loop e need_lock a b1 f1;
          case res of
            Inl (err, node) \<Rightarrow> do {
              f3 \<leftarrow> (if need_lock then unlock_path f2 nodeid wnode (Some node) else Some f2);
              Some (err, None, None, f3) }
          | Inr b2 \<Rightarrow> Some (0, Some (if drop (pb_pos b2) (pb_mem b2) \<noteq> [] \<and> hd (drop (pb_pos b2) (pb_mem b2)) \<noteq> NUL
              then c_text (drop (pb_pos b2) (pb_mem b2)) else ''/''), wnode, f2) })" for a f1 wnode
      unfolding path_loop_view [OF ok [OF b1]]
      by (cases "path_loop e need_lock a b1 f1") (auto simp: loop_view_def buf_view_def buf_text_def split: sum.splits)
    show ?thesis unfolding try_get_path_def Let_def r b1 by (simp only: option.map option.case Option.bind.simps loop)
  qed
qed

end
