(* ===== verification/Fuse_Path_Held.thy ===== *)
theory Fuse_Path_Held
  imports Fuse_Path_Locks "HOL-Library.Multiset"
begin

text \<open>
  The meaning of the tree locks: every lock counts the paths through its node that somebody holds, or marks
  the one write lock. Getting a path adds to the held ones, giving it back takes it away, and no assertion
  on the way fails.
\<close>

section \<open>Held paths\<close>

text \<open>A held path is a node number and the child locked for writing. The nodes along it:\<close>

fun climb_list :: "nat \<Rightarrow> (addr \<rightharpoonup> node) \<Rightarrow> addr \<Rightarrow> addr list" where
  "climb_list 0 ns a = []"
| "climb_list (Suc k) ns a = (case ns a of None \<Rightarrow> []
     | Some n \<Rightarrow> if n_id n = FUSE_ROOT_ID then [] else a # (case n_parent n of None \<Rightarrow> [] | Some p \<Rightarrow> climb_list k ns p))"

definition chain :: "fuse \<Rightarrow> nat \<Rightarrow> addr list" where
  "chain f d = (case get_node f d of None \<Rightarrow> [] | Some a \<Rightarrow> climb_list (Suc (nbrk f)) (nodes f) a)"

definition connected :: "fuse \<Rightarrow> nat \<Rightarrow> bool" where
  "connected f d \<longleftrightarrow> (\<exists>a n. nodes f a = Some n \<and> n_id n = d \<and> upchain (nodes f) a (chain f d))"

definition reads :: "fuse \<Rightarrow> (nat \<times> ptr) list \<Rightarrow> addr \<Rightarrow> nat" where
  "reads f H x = length (filter (\<lambda>(d, w). x \<in> set (chain f d)) H)"

definition writes :: "(nat \<times> ptr) list \<Rightarrow> addr \<Rightarrow> nat" where
  "writes H x = length (filter (\<lambda>(d, w). w = Some x) H)"

definition lock_means :: "nat \<Rightarrow> nat \<Rightarrow> int \<Rightarrow> bool" where
  "lock_means w r t \<longleftrightarrow> (if w = 0 then t = int r \<or> 0 < r \<and> t = int r + TREELOCK_WAIT_OFFSET else w = 1 \<and> r = 0 \<and> t = TREELOCK_WRITE)"

definition locks_inv :: "fuse \<Rightarrow> (nat \<times> ptr) list \<Rightarrow> (addr \<Rightarrow> int) \<Rightarrow> bool" where
  "locks_inv f H L \<longleftrightarrow> int (length H) < INT_MAX \<and>
     (\<forall>(d, w) \<in> set H. connected f d \<and> (\<forall>v. w = Some v \<longrightarrow> nodes f v \<noteq> None)) \<and>
     (\<forall>x. lock_means (writes H x) (reads f H x) (L x))"

lemma climb_list_upward: "upward ns a xs c \<Longrightarrow> root_at ns c \<Longrightarrow> length xs < k \<Longrightarrow> climb_list k ns a = xs"
proof (induction xs arbitrary: a k)
  case Nil
  then show ?case by (cases k) (auto simp: root_at_def split: option.splits)
next
  case (Cons x xs)
  obtain n p nm where p: "x = a" "ns a = Some n" "n_id n \<noteq> FUSE_ROOT_ID" "n_parent n = Some p" "upward ns p xs c"
    using Cons.prems(1) by (rule upwardE)
  obtain k' where "k = Suc k'" using Cons.prems(3) by (cases k) auto
  then show ?case using Cons.IH [OF p(5) Cons.prems(2), of k'] Cons.prems(3) p by simp
qed

lemma upward_dom: "upward ns a xs c \<Longrightarrow> set xs \<subseteq> dom ns"
proof (induction xs arbitrary: a)
  case (Cons x xs)
  obtain n p nm where p: "x = a" "ns a = Some n" "n_parent n = Some p" "upward ns p xs c" using Cons.prems(1) by (rule upwardE)
  then show ?case using Cons.IH [OF p(4)] by auto
qed simp

lemma upchain_chain:
  assumes f: "paths_ok f" and a: "nodes f a = Some n" "upchain (nodes f) a xs"
  shows "chain f (n_id n) = xs" and "connected f (n_id n)"
proof -
  obtain c where c: "upward (nodes f) a xs c" "root_at (nodes f) c" using a(2) by (auto simp: upchain_def)
  have "distinct xs" using upward_distinct(1) [OF paths_okD(2) [OF f] c(1)] .
  moreover have "set xs \<subseteq> {..<nbrk f}" using upward_dom [OF c(1)] paths_okD(5) [OF f] by (auto simp: nodes_ok_iff pre_ok_def)
  ultimately have "length xs \<le> nbrk f" using card_mono [of "{..<nbrk f}" "set xs"] by (simp add: distinct_card)
  then show ch: "chain f (n_id n) = xs" using climb_list_upward [OF c, of "Suc (nbrk f)"] paths_okD(4) [OF f a(1)]
    by (simp add: chain_def del: climb_list.simps)
  then show "connected f (n_id n)" using a by (auto simp: connected_def)
qed

lemma reads_Cons: "reads f ((d, w) # H) x = (if x \<in> set (chain f d) then Suc (reads f H x) else reads f H x)"
  by (simp add: reads_def)

lemma writes_Cons: "writes ((d, w) # H) x = (if w = Some x then Suc (writes H x) else writes H x)"
  by (simp add: writes_def)

lemma reads_le: "reads f H x \<le> length H"
  by (simp add: reads_def)

lemma reads_mset: "mset H = mset H' \<Longrightarrow> reads f H x = reads f H' x"
  by (simp only: reads_def size_mset [symmetric] mset_filter)

lemma writes_mset: "mset H = mset H' \<Longrightarrow> writes H x = writes H' x"
  by (simp only: writes_def size_mset [symmetric] mset_filter)

lemma locks_inv_mset:
  assumes "locks_inv f H L" and m: "mset H = mset H'"
  shows "locks_inv f H' L"
proof -
  have "length H' = length H" "set H' = set H" using m by (metis mset_eq_length, metis mset_eq_setD)
  moreover have "reads f H' x = reads f H x" "writes H' x = writes H x" for x
    using reads_mset [OF m] writes_mset [OF m] by simp_all
  ultimately show ?thesis using assms(1) by (simp add: locks_inv_def)
qed

lemma locks_inv_node:
  assumes "locks_inv f H L"
  shows "lock_means (writes H x) (reads f H x) (L x)"
    and "int (reads f H x) < INT_MAX"
  using assms reads_le [of f H x] unfolding locks_inv_def by auto

lemma locks_inv_bound:
  assumes "locks_inv f H L"
  shows "L x < INT_MAX"
  using locks_inv_node [OF assms, of x]
  by (auto simp: lock_means_def TREELOCK_WAIT_OFFSET_def TREELOCK_WRITE_def INT_MIN_def INT_MAX_def split: if_splits)

text \<open>The lock of a node that may be read, or that is free.\<close>

lemma locks_inv_at:
  assumes "locks_inv f H L"
  shows "0 \<le> L x \<Longrightarrow> writes H x = 0 \<and> L x = int (reads f H x)"
    and "x \<in> set (chain f d) \<Longrightarrow> (d, w) \<in> set H \<Longrightarrow> writes H x = 0 \<and> 0 < reads f H x"
proof -
  note x = locks_inv_node(1) [OF assms, of x] and r = locks_inv_node(2) [OF assms, of x]
  show "writes H x = 0 \<and> L x = int (reads f H x)" if "0 \<le> L x"
    using x r that by (auto simp: lock_means_def TREELOCK_WAIT_OFFSET_def TREELOCK_WRITE_def INT_MIN_def INT_MAX_def split: if_splits)
  assume "x \<in> set (chain f d)" "(d, w) \<in> set H"
  then have "0 < reads f H x" unfolding reads_def by (auto simp: filter_empty_conv)
  then show "writes H x = 0 \<and> 0 < reads f H x" using x by (auto simp: lock_means_def split: if_splits)
qed

section \<open>Getting a path\<close>

lemma free_for_node:
  assumes f: "paths_ok f" and a: "nodes f a = Some n" and w: "free_for f (n_id n) name wr L (Some v)" and x: "upchain (nodes f) a xs"
  shows "L v = 0" and "nodes f v \<noteq> None" and "v \<notin> set xs"
proof -
  have nc: "named_child (nodes f) (n_id n) (the name) v" and "L v = 0" using w by (auto simp: free_for_def)
  then show "L v = 0" "nodes f v \<noteq> None" by (auto simp: named_child_def)
  obtain c where "upward (nodes f) a xs c" using x by (auto simp: upchain_def)
  then show "v \<notin> set xs" using upward_up [of "nodes f" a xs c v] child_not_above [OF f a nc] by auto
qed

lemma got_path_inv:
  assumes f: "paths_ok f" and inv: "locks_inv f H L" and a: "nodes f a = Some n" and got: "got_path f (n_id n) name wr L a xs path w L'"
    and few: "int (length H) + 1 < INT_MAX"
  shows "locks_inv f ((n_id n, w) # H) L'"
proof -
  have x: "upchain (nodes f) a xs" "\<forall>x \<in> set xs. 0 \<le> L x" "free_for f (n_id n) name wr L w" "L' = locked xs w L"
    using got by (auto simp: got_path_def)
  note ch = upchain_chain [OF f a x(1)]
  have v: "L v = 0 \<and> nodes f v \<noteq> None \<and> v \<notin> set xs" if "w = Some v" for v
    using free_for_node [OF f a _ x(1)] x(3) that by blast
  have "lock_means (writes ((n_id n, w) # H) y) (reads f ((n_id n, w) # H) y) (L' y)" for y
  proof -
    note m = locks_inv_node(1) [OF inv, of y]
    consider "y \<in> set xs" "w \<noteq> Some y" | "y \<notin> set xs" "w = Some y" | "y \<notin> set xs" "w \<noteq> Some y" using v by blast
    then show ?thesis
    proof cases
      case 1
      then have "writes H y = 0 \<and> L y = int (reads f H y)" using locks_inv_at(1) [OF inv] x(2) by blast
      then show ?thesis using 1 by (auto simp: lock_means_def reads_Cons writes_Cons ch x(4) locked_def add_locks_def split: option.splits)
    next
      case 2
      then have "writes H y = 0 \<and> L y = int (reads f H y)" "L y = 0" using locks_inv_at(1) [OF inv, of y] v by auto
      then show ?thesis using 2 by (auto simp: lock_means_def reads_Cons writes_Cons ch x(4) locked_def add_locks_def split: option.splits)
    next
      case 3
      then show ?thesis using m by (auto simp: reads_Cons writes_Cons ch x(4) locked_def add_locks_def split: option.splits)
    qed
  qed
  then show ?thesis using inv few ch(2) v by (auto simp: locks_inv_def)
qed

lemma no_path_inv:
  assumes inv: "locks_inv f H L" and no: "no_path e f d name wr L a err L'"
  shows "locks_inv f H L'"
proof (cases "L' = L")
  case False
  then obtain c where c: "0 < L c" "L' = L(c := L c + TREELOCK_WAIT_OFFSET)" using no by (auto simp: no_path_def split: if_splits)
  then have "writes H c = 0 \<and> L c = int (reads f H c)" using locks_inv_at(1) [OF inv, of c] by simp
  then have "lock_means (writes H c) (reads f H c) (L' c)" using c by (simp add: lock_means_def)
  then have "lock_means (writes H x) (reads f H x) (L' x)" for x using locks_inv_node(1) [OF inv, of x] c(2) by (cases "x = c") auto
  then show ?thesis using inv by (auto simp: locks_inv_def)
qed (use inv in simp)

section \<open>Giving a path back\<close>

lemma remove1_counts:
  assumes "(d, w) \<in> set H"
  shows "reads f H x = (if x \<in> set (chain f d) then Suc (reads f (remove1 (d, w) H) x) else reads f (remove1 (d, w) H) x)"
    and "writes H x = (if w = Some x then Suc (writes (remove1 (d, w) H) x) else writes (remove1 (d, w) H) x)"
proof -
  have m: "mset H = mset ((d, w) # remove1 (d, w) H)" using assms by simp
  show "reads f H x = (if x \<in> set (chain f d) then Suc (reads f (remove1 (d, w) H) x) else reads f (remove1 (d, w) H) x)"
    using reads_mset [OF m, of f x] by (simp only: reads_Cons)
  show "writes H x = (if w = Some x then Suc (writes (remove1 (d, w) H) x) else writes (remove1 (d, w) H) x)"
    using writes_mset [OF m, of x] by (simp only: writes_Cons)
qed

lemma unlock_inv:
  assumes f: "paths_ok f" and inv: "locks_inv f H L" and h: "(d, w) \<in> set H"
  shows "\<exists>L'. unlock_path (with_locks f L) d w None = Some (with_locks f L') \<and> locks_inv f (remove1 (d, w) H) L'"
proof -
  have h2: "connected f d" "\<forall>v. w = Some v \<longrightarrow> nodes f v \<noteq> None" using inv h by (auto simp: locks_inv_def)
  then obtain a n where a: "nodes f a = Some n" "n_id n = d" "upchain (nodes f) a (chain f d)" by (auto simp: connected_def)
  obtain c where c: "upward (nodes f) a (chain f d) c" "root_at (nodes f) c" using a(3) by (auto simp: upchain_def)
  note cnt = remove1_counts [OF h]
  have v: "L v = TREELOCK_WRITE \<and> v \<notin> set (chain f d) \<and> writes H v = 1 \<and> reads f H v = 0" if "w = Some v" for v
    using locks_inv_node(1) [OF inv, of v] cnt(1) [of f v] cnt(2) [of v] that by (auto simp: lock_means_def split: if_splits)
  have x: "L x \<noteq> 0 \<and> L x \<noteq> TREELOCK_WAIT_OFFSET \<and> L x \<noteq> TREELOCK_WRITE \<and> writes H x = 0" if "x \<in> set (chain f d)" for x
  proof -
    have r: "0 < reads f H x" using cnt(1) [of f x] that by simp
    then have w: "writes H x = 0" "L x = int (reads f H x) \<or> L x = int (reads f H x) + TREELOCK_WAIT_OFFSET"
      using locks_inv_node(1) [OF inv, of x] by (auto simp: lock_means_def split: if_splits)
    then show ?thesis using r locks_inv_node(2) [OF inv, of x]
      by (auto simp: TREELOCK_WAIT_OFFSET_def TREELOCK_WRITE_def INT_MIN_def INT_MAX_def)
  qed
  let ?L = "sub_locks (chain f d) (case w of None \<Rightarrow> L | Some v \<Rightarrow> L(v := 0))"
  have "unlock_path (with_locks f L) (n_id n) w None = Some (with_locks f ?L)"
    by (rule unlock_path_ok [OF f a(1) c(1)]) (use c(2) h2(2) v x in auto)
  moreover have "lock_means (writes (remove1 (d, w) H) y) (reads f (remove1 (d, w) H) y) (?L y)" for y
  proof -
    note m = locks_inv_node(1) [OF inv, of y]
    consider "y \<in> set (chain f d)" "w \<noteq> Some y" | "y \<notin> set (chain f d)" "w = Some y" | "y \<notin> set (chain f d)" "w \<noteq> Some y" using v by blast
    then show ?thesis
    proof cases
      case 1
      then have "?L y = (if L y - 1 = TREELOCK_WAIT_OFFSET then 0 else L y - 1)" by (auto simp: sub_locks_def split: option.splits)
      then show ?thesis using 1 m cnt(1) [of f y] cnt(2) [of y] x [of y]
        by (auto simp: lock_means_def TREELOCK_WAIT_OFFSET_def INT_MIN_def split: if_splits)
    next
      case 2
      then show ?thesis using v [of y] cnt(1) [of f y] cnt(2) [of y] by (auto simp: lock_means_def sub_locks_def)
    next
      case 3
      then show ?thesis using m cnt(1) [of f y] cnt(2) [of y] by (auto simp: sub_locks_def split: option.splits)
    qed
  qed
  then have "locks_inv f (remove1 (d, w) H) ?L"
  proof -
    have "\<forall>(b, u) \<in> set (remove1 (d, w) H). connected f b \<and> (\<forall>v. u = Some v \<longrightarrow> nodes f v \<noteq> None)"
      using inv set_remove1_subset [of "(d, w)" H] unfolding locks_inv_def by blast
    moreover have "int (length (remove1 (d, w) H)) < INT_MAX" using inv by (auto simp: locks_inv_def length_remove1)
    ultimately show ?thesis using \<open>\<And>y. lock_means (writes (remove1 (d, w) H) y) (reads f (remove1 (d, w) H) y) (?L y)\<close>
      unfolding locks_inv_def by blast
  qed
  ultimately show ?thesis using a(2) by blast
qed

end
