(* ===== verification/Fuse_Path_Queue.thy ===== *)
theory Fuse_Path_Queue
  imports Runs Fuse_Path_Held
begin

text \<open>
  The queue of requests that wait for a path: waking it up keeps the meaning of the locks, where an element
  of the queue holds the paths it has already locked.
\<close>

section \<open>Elements\<close>

definition q_held :: "lock_queue_element \<Rightarrow> (nat \<times> ptr) list" where
  "q_held qe = (if first_locked qe then [(q_nodeid1 qe, Option.bind (q_wnode1 qe) (\<lambda>w. w))] else []) @
     (if second_locked qe then [(q_nodeid2 qe, Option.bind (q_wnode2 qe) (\<lambda>w. w))] else [])"

text \<open>A request names a known node, and its path fits the buffer.\<close>

definition request_ok :: "fuse \<Rightarrow> nat \<Rightarrow> string option \<Rightarrow> bool \<Rightarrow> bool" where
  "request_ok f d name wr \<longleftrightarrow> (\<exists>a n. nodes f a = Some n \<and> n_id n = d \<and> name_fits f a name) \<and> (wr \<longrightarrow> name \<noteq> None)"

definition elem_ok :: "fuse \<Rightarrow> lock_queue_element \<Rightarrow> bool" where
  "elem_ok f qe \<longleftrightarrow> q_path1 qe \<noteq> None \<and> request_ok f (q_nodeid1 qe) (q_name1 qe) (q_wnode1 qe \<noteq> None) \<and>
     (if q_path2 qe = None then \<not> second_locked qe else request_ok f (q_nodeid2 qe) (q_name2 qe) (q_wnode2 qe \<noteq> None))"

lemma try_request:
  assumes f: "paths_ok f" and inv: "locks_inv f H L" and r: "request_ok f d name wr" and few: "int (length H) + 1 < INT_MAX"
  shows "(\<exists>path w L' a n xs. try_get_path e (with_locks f L) d name wr True = Some (0, path, w, with_locks f L') \<and> locks_inv f ((d, w) # H) L' \<and>
      (w \<noteq> None \<longrightarrow> wr) \<and> nodes f a = Some n \<and> n_id n = d \<and> got_path f d name wr L a xs path w L') \<or>
    (\<exists>err L' a n. err \<noteq> 0 \<and> try_get_path e (with_locks f L) d name wr True = Some (err, None, None, with_locks f L') \<and> locks_inv f H L' \<and>
      nodes f a = Some n \<and> n_id n = d \<and> no_path e f d name wr L a err L')"
proof -
  obtain a n where a: "nodes f a = Some n" "n_id n = d" "name_fits f a name" "wr \<longrightarrow> name \<noteq> None"
    using r by (auto simp: request_ok_def)
  have "L x < INT_MAX" for x using inv by (rule locks_inv_bound)
  then have "(\<exists>xs path w L'. try_get_path e (with_locks f L) (n_id n) name wr True = Some (0, path, w, with_locks f L') \<and>
      got_path f (n_id n) name wr L a xs path w L') \<or>
    (\<exists>err L'. err \<noteq> 0 \<and> try_get_path e (with_locks f L) (n_id n) name wr True = Some (err, None, None, with_locks f L') \<and>
      no_path e f (n_id n) name wr L a err L')"
    using f a by (intro try_get_path_spec) auto
  then show ?thesis
  proof (elim disjE exE conjE)
    fix xs path w L'
    assume g: "try_get_path e (with_locks f L) (n_id n) name wr True = Some (0, path, w, with_locks f L')"
      "got_path f (n_id n) name wr L a xs path w L'"
    have "w \<noteq> None \<longrightarrow> wr" using g(2) by (auto simp: got_path_def free_for_def)
    then show ?thesis using g a got_path_inv [OF f inv a(1) g(2) few] by blast
  next
    fix err L'
    assume g: "err \<noteq> 0" "try_get_path e (with_locks f L) (n_id n) name wr True = Some (err, None, None, with_locks f L')"
      "no_path e f (n_id n) name wr L a err L'"
    then show ?thesis using a no_path_inv [OF inv g(3)] by blast
  qed
qed

lemma q_held_length: "length (q_held qe) \<le> 2"
  by (simp add: q_held_def)

lemma locks_inv_add: "locks_inv f (h # (H @ K)) L \<Longrightarrow> mset (h # K) = mset K' \<Longrightarrow> locks_inv f (H @ K') L"
  by (erule locks_inv_mset) (metis mset.simps(2) mset_append union_mset_add_mset_right)

lemma try_first_ok:
  assumes f: "paths_ok f" and inv: "locks_inv f (H @ q_held qe) L" and q: "elem_ok f qe" and few: "int (length H) + 3 < INT_MAX"
  shows "\<exists>err L' qe'. try_first e (with_locks f L) qe = Some (err, with_locks f L', qe') \<and> locks_inv f (H @ q_held qe') L' \<and> elem_ok f qe' \<and>
    (err = 0 \<longleftrightarrow> first_locked qe') \<and> q_key qe' = q_key qe"
proof (cases "first_locked qe")
  case True
  then show ?thesis using inv q by (intro exI [of _ 0] exI [of _ L] exI [of _ qe]) (simp add: try_first_def)
next
  case False
  let ?wr = "q_wnode1 qe \<noteq> None"
  have r: "request_ok f (q_nodeid1 qe) (q_name1 qe) ?wr" using q by (simp add: elem_ok_def)
  have few1: "int (length (H @ q_held qe)) + 1 < INT_MAX" using few q_held_length [of qe] by simp
  let ?q = "\<lambda>err path wnode. qe\<lparr>q_path1 := Some path, q_wnode1 := (if q_wnode1 qe \<noteq> None \<and> err = (0 :: int) then Some wnode else q_wnode1 qe),
      first_locked := (err = 0)\<rparr>"
  have ok: "elem_ok f (?q err path wnode)" for err path wnode using q by (auto simp: elem_ok_def)
  from try_request [OF f inv r few1, of e] show ?thesis
  proof (elim disjE exE conjE)
    fix path w L'
    assume g: "try_get_path e (with_locks f L) (q_nodeid1 qe) (q_name1 qe) ?wr True = Some (0, path, w, with_locks f L')"
      "locks_inv f ((q_nodeid1 qe, w) # H @ q_held qe) L'" "w \<noteq> None \<longrightarrow> ?wr"
    have "q_held (?q 0 path w) = (q_nodeid1 qe, w) # q_held qe" using False g(3) by (auto simp: q_held_def)
    then have "locks_inv f (H @ q_held (?q 0 path w)) L'" using locks_inv_add [OF g(2)] by simp
    then show ?thesis using g(1) False ok [where err = 0 and path = path and wnode = w]
      by (intro exI [of _ 0] exI [of _ L'] exI [of _ "?q 0 path w"]) (simp add: try_first_def)
  next
    fix err L'
    assume g: "err \<noteq> 0" "try_get_path e (with_locks f L) (q_nodeid1 qe) (q_name1 qe) ?wr True = Some (err, None, None, with_locks f L')"
      "locks_inv f (H @ q_held qe) L'"
    have "q_held (?q err None None) = q_held qe" using False g(1) by (simp add: q_held_def)
    then show ?thesis using g False ok [where err = err and path = None and wnode = None]
      by (intro exI [of _ err] exI [of _ L'] exI [of _ "?q err None None"]) (simp add: try_first_def)
  qed
qed

lemma try_second_ok:
  assumes f: "paths_ok f" and inv: "locks_inv f (H @ q_held qe) L" and q: "elem_ok f qe" and few: "int (length H) + 3 < INT_MAX"
  shows "\<exists>err L' qe'. try_second e (with_locks f L) qe = Some (err, with_locks f L', qe') \<and> locks_inv f (H @ q_held qe') L' \<and> elem_ok f qe' \<and>
    first_locked qe' = first_locked qe \<and> q_key qe' = q_key qe"
proof (cases "second_locked qe \<or> q_path2 qe = None")
  case True
  then show ?thesis using inv q by (intro exI [of _ 0] exI [of _ L] exI [of _ qe]) (simp add: try_second_def)
next
  case False
  let ?wr = "q_wnode2 qe \<noteq> None"
  have r: "request_ok f (q_nodeid2 qe) (q_name2 qe) ?wr" using q False by (auto simp: elem_ok_def)
  have few1: "int (length (H @ q_held qe)) + 1 < INT_MAX" using few q_held_length [of qe] by simp
  let ?q = "\<lambda>err path wnode. qe\<lparr>q_path2 := Some path, q_wnode2 := (if q_wnode2 qe \<noteq> None \<and> err = (0 :: int) then Some wnode else q_wnode2 qe),
      second_locked := (err = 0)\<rparr>"
  have ok: "elem_ok f (?q err path wnode)" for err path wnode using q False by (auto simp: elem_ok_def)
  from try_request [OF f inv r few1, of e] show ?thesis
  proof (elim disjE exE conjE)
    fix path w L'
    assume g: "try_get_path e (with_locks f L) (q_nodeid2 qe) (q_name2 qe) ?wr True = Some (0, path, w, with_locks f L')"
      "locks_inv f ((q_nodeid2 qe, w) # H @ q_held qe) L'" "w \<noteq> None \<longrightarrow> ?wr"
    have "mset (q_held (?q 0 path w)) = mset ((q_nodeid2 qe, w) # q_held qe)" using False g(3) by (auto simp: q_held_def)
    then have "locks_inv f (H @ q_held (?q 0 path w)) L'" using locks_inv_add [OF g(2)] by simp
    then show ?thesis using g(1) False ok [where err = 0 and path = path and wnode = w]
      by (intro exI [of _ 0] exI [of _ L'] exI [of _ "?q 0 path w"]) (auto simp: try_second_def)
  next
    fix err L'
    assume g: "err \<noteq> 0" "try_get_path e (with_locks f L) (q_nodeid2 qe) (q_name2 qe) ?wr True = Some (err, None, None, with_locks f L')"
      "locks_inv f (H @ q_held qe) L'"
    have "q_held (?q err None None) = q_held qe" using False g(1) by (simp add: q_held_def)
    then show ?thesis using g False ok [where err = err and path = None and wnode = None]
      by (intro exI [of _ err] exI [of _ L'] exI [of _ "?q err None None"]) (auto simp: try_second_def)
  qed
qed

lemma unlock_mset:
  assumes "paths_ok f" and "locks_inv f K L" and "mset K = mset ((d, w) # H)"
  shows "\<exists>L'. unlock_path (with_locks f L) d w None = Some (with_locks f L') \<and> locks_inv f H L'"
  using unlock_inv [OF assms(1) locks_inv_mset [OF assms(2,3)], of d w] by simp

lemma queue_element_unlock_ok:
  assumes f: "paths_ok f" and inv: "locks_inv f (H @ q_held qe) L"
  shows "\<exists>L'. queue_element_unlock (with_locks f L) qe = Some (with_locks f L', qe\<lparr>first_locked := False, second_locked := False\<rparr>) \<and> locks_inv f H L'"
proof -
  let ?h1 = "(q_nodeid1 qe, Option.bind (q_wnode1 qe) (\<lambda>w. w))" and ?h2 = "(q_nodeid2 qe, Option.bind (q_wnode2 qe) (\<lambda>w. w))"
  let ?s = "if second_locked qe then [?h2] else []"
  have "\<exists>L1. (if first_locked qe then unlock_path (with_locks f L) (fst ?h1) (snd ?h1) None else Some (with_locks f L)) = Some (with_locks f L1) \<and>
      locks_inv f (H @ ?s) L1"
  proof (cases "first_locked qe")
    case True
    then show ?thesis using unlock_mset [OF f inv, of "fst ?h1" "snd ?h1" "H @ ?s"] by (simp add: q_held_def)
  next
    case False
    then show ?thesis using inv by (intro exI [of _ L]) (simp add: q_held_def)
  qed
  then obtain L1 where L1: "(if first_locked qe then unlock_path (with_locks f L) (fst ?h1) (snd ?h1) None else Some (with_locks f L)) = Some (with_locks f L1)"
      "locks_inv f (H @ ?s) L1" by blast
  have "\<exists>L2. (if second_locked qe then unlock_path (with_locks f L1) (fst ?h2) (snd ?h2) None else Some (with_locks f L1)) = Some (with_locks f L2) \<and>
      locks_inv f H L2"
  proof (cases "second_locked qe")
    case True
    then show ?thesis using unlock_mset [OF f L1(2), of "fst ?h2" "snd ?h2" H] by simp
  next
    case False
    then show ?thesis using L1(2) by (intro exI [of _ L1]) simp
  qed
  then obtain L2 where "(if second_locked qe then unlock_path (with_locks f L1) (fst ?h2) (snd ?h2) None else Some (with_locks f L1)) = Some (with_locks f L2)"
      "locks_inv f H L2" by blast
  then show ?thesis using L1(1) unfolding queue_element_unlock_def
    by (intro exI [of _ L2]) (simp only: fst_conv snd_conv bind.bind_lunit simp_thms)
qed

lemma elem_ok_unlocked: "elem_ok f qe \<Longrightarrow> elem_ok f (qe\<lparr>first_locked := False, second_locked := False\<rparr>)"
  "q_held (qe\<lparr>first_locked := False, second_locked := False\<rparr>) = []"
  by (auto simp: elem_ok_def q_held_def)

lemma elem_done [simp]: "elem_ok f (qe\<lparr>q_err := x, q_done := y\<rparr>) = elem_ok f qe" "q_held (qe\<lparr>q_err := x, q_done := y\<rparr>) = q_held qe"
  by (simp_all add: elem_ok_def q_held_def)

text \<open>Waking up an element.\<close>

lemma queue_element_wakeup_ok:
  assumes f: "paths_ok f" and inv: "locks_inv f (H @ q_held qe) L" and q: "elem_ok f qe" and few: "int (length H) + 3 < INT_MAX"
  shows "\<exists>L' qe' k. queue_element_wakeup e first (with_locks f L) qe = Some (with_locks f L', qe', k) \<and> locks_inv f (H @ q_held qe') L' \<and>
    elem_ok f qe' \<and> q_key qe' = q_key qe"
proof -
  obtain err1 L1 q1 where t1: "try_first e (with_locks f L) qe = Some (err1, with_locks f L1, q1)" "locks_inv f (H @ q_held q1) L1" "elem_ok f q1"
      "q_key q1 = q_key qe"
    using try_first_ok [OF f inv q few, of e] by blast
  obtain err2 L2 q2 where t2: "try_second e (with_locks f L1) q1 = Some (err2, with_locks f L2, q2)" "locks_inv f (H @ q_held q2) L2" "elem_ok f q2"
      "q_key q2 = q_key q1"
    using try_second_ok [OF f t1(2,3) few, of e] by blast
  obtain L3 where u1: "queue_element_unlock (with_locks f L1) q1 = Some (with_locks f L3, q1\<lparr>first_locked := False, second_locked := False\<rparr>)" "locks_inv f H L3"
    using queue_element_unlock_ok [OF f t1(2)] by blast
  obtain L4 where u2: "queue_element_unlock (with_locks f L2) q2 = Some (with_locks f L4, q2\<lparr>first_locked := False, second_locked := False\<rparr>)" "locks_inv f H L4"
    using queue_element_unlock_ok [OF f t2(2)] by blast
  have p: "q_path1 qe \<noteq> None" using q by (simp add: elem_ok_def)
  note e = queue_element_wakeup_def t1(1) t2(1) u1(1) u2(1) p
  consider (bad1) "err1 \<noteq> 0 \<and> err1 \<noteq> - EAGAIN" | (bad2) "\<not> (err1 \<noteq> 0 \<and> err1 \<noteq> - EAGAIN)" "err2 \<noteq> 0 \<and> err2 \<noteq> - EAGAIN"
    | (fin) "\<not> (err1 \<noteq> 0 \<and> err1 \<noteq> - EAGAIN)" "\<not> (err2 \<noteq> 0 \<and> err2 \<noteq> - EAGAIN)" "first_locked q2 \<and> (second_locked q2 \<or> q_path2 q2 = None)"
    | (undo) "\<not> (err1 \<noteq> 0 \<and> err1 \<noteq> - EAGAIN)" "\<not> (err2 \<noteq> 0 \<and> err2 \<noteq> - EAGAIN)" "\<not> (first_locked q2 \<and> (second_locked q2 \<or> q_path2 q2 = None))" "\<not> first"
    | (keep) "\<not> (err1 \<noteq> 0 \<and> err1 \<noteq> - EAGAIN)" "\<not> (err2 \<noteq> 0 \<and> err2 \<noteq> - EAGAIN)" "\<not> (first_locked q2 \<and> (second_locked q2 \<or> q_path2 q2 = None))" "first"
    by argo
  then show ?thesis
  proof cases
    case bad1
    let ?q = "q1\<lparr>first_locked := False, second_locked := False, q_err := err1, q_done := True\<rparr>"
    have "queue_element_wakeup e first (with_locks f L) qe = Some (with_locks f L3, ?q, fresh_paths qe q1)" using bad1 by (simp add: e)
    moreover have "elem_ok f ?q" "q_held ?q = []" using elem_ok_unlocked t1(3) by (simp_all add: q_held_def)
    ultimately show ?thesis using u1(2) t1(4) by (intro exI [of _ L3] exI [of _ ?q] exI [of _ "fresh_paths qe q1"]) simp
  next
    case bad2
    let ?q = "q2\<lparr>first_locked := False, second_locked := False, q_err := err2, q_done := True\<rparr>"
    have "queue_element_wakeup e first (with_locks f L) qe = Some (with_locks f L4, ?q, fresh_paths qe q2)" using bad2 by (auto simp: e)
    moreover have "elem_ok f ?q" "q_held ?q = []" using elem_ok_unlocked t2(3) by (simp_all add: q_held_def)
    ultimately show ?thesis using u2(2) t1(4) t2(4) by (intro exI [of _ L4] exI [of _ ?q] exI [of _ "fresh_paths qe q2"]) simp
  next
    case fin
    have "queue_element_wakeup e first (with_locks f L) qe = Some (with_locks f L2, q2\<lparr>q_err := 0, q_done := True\<rparr>, fresh_paths qe q2)" using fin by (auto simp: e)
    then show ?thesis using t2(2,3,4) t1(4) by (intro exI [of _ L2]) simp
  next
    case undo
    have "queue_element_wakeup e first (with_locks f L) qe = Some (with_locks f L4, q2\<lparr>first_locked := False, second_locked := False\<rparr>, fresh_paths qe q2)"
      using undo by (auto simp: e)
    then show ?thesis using u2(2) t1(4) t2(4) elem_ok_unlocked t2(3) by (intro exI [of _ L4]) simp
  next
    case keep
    have "queue_element_wakeup e first (with_locks f L) qe = Some (with_locks f L2, q2, fresh_paths qe q2)" using keep by (auto simp: e)
    then show ?thesis using t2(2,3,4) t1(4) by (intro exI [of _ L2]) simp
  qed
qed

lemma wake_loop_ok:
  assumes f: "paths_ok f" and "locks_inv f (H @ concat (map q_held qes)) L" and "\<forall>qe \<in> set qes. elem_ok f qe"
    and "int (length H) + 2 * int (length qes) + 1 < INT_MAX"
  shows "\<exists>L' qes' k. wake_loop e first (with_locks f L) qes = Some (with_locks f L', qes', k) \<and> locks_inv f (H @ concat (map q_held qes')) L' \<and>
    (\<forall>qe \<in> set qes'. elem_ok f qe) \<and> map q_key qes' = map q_key qes"
  using assms(2-)
proof (induction qes arbitrary: H L first)
  case Nil
  then show ?case by (intro exI [of _ L]) simp
next
  case (Cons qe qes)
  let ?H = "H @ concat (map q_held qes)"
  have len: "length (concat (map q_held qs)) \<le> 2 * length qs" for qs
    by (induction qs) (auto simp: q_held_length intro: add_mono [OF q_held_length, simplified])
  have "mset (H @ concat (map q_held (qe # qes))) = mset (?H @ q_held qe)" by simp
  with Cons.prems(1) have "locks_inv f (?H @ q_held qe) L" by (rule locks_inv_mset)
  moreover have "int (length ?H) + 3 < INT_MAX" using Cons.prems(3) len [of qes] by simp
  ultimately obtain L1 q1 k1 where 1: "queue_element_wakeup e first (with_locks f L) qe = Some (with_locks f L1, q1, k1)"
      "locks_inv f (?H @ q_held q1) L1" "elem_ok f q1" "q_key q1 = q_key qe"
    using queue_element_wakeup_ok [OF f, of ?H qe L e first] Cons.prems(2) by auto
  have "mset (?H @ q_held q1) = mset ((H @ q_held q1) @ concat (map q_held qes))" by simp
  with 1(2) have "locks_inv f ((H @ q_held q1) @ concat (map q_held qes)) L1" by (rule locks_inv_mset)
  moreover have "int (length (H @ q_held q1)) + 2 * int (length qes) + 1 < INT_MAX" using Cons.prems(3) q_held_length [of q1] by simp
  ultimately obtain L2 q2 k2 where "wake_loop e False (with_locks f L1) qes = Some (with_locks f L2, q2, k2)"
      "locks_inv f ((H @ q_held q1) @ concat (map q_held q2)) L2" "\<forall>qe \<in> set q2. elem_ok f qe" "map q_key q2 = map q_key qes"
    using Cons.IH [of "H @ q_held q1" L1 False] Cons.prems(2) by auto
  then show ?case using 1 by auto
qed

end
