(* ===== verification/Fuse_Path_Props.thy ===== *)
theory Fuse_Path_Props
  imports Fuse_Path_Queue Fuse_Path_Run Fuse_Node_Props
begin

text \<open>
  The properties of paths and tree locks, for all sequences of calls by threads: no assertion fails, a
  child locked for writing is on no other path, the paths are right, and a waiting request gets its turn. The
  tree of nodes stays as it is during a run: requests that change it are in \<open>Fuse_Node_Props\<close>.
\<close>

section \<open>Threads\<close>

text \<open>
  The state together with the paths that threads hold. An element of the queue that is taken out with an
  error should hold nothing; what it does hold is lost, since its thread does not give it back.
\<close>

record path_world =
  pw_state :: path_state
  pw_held :: "(nat \<times> ptr) list"
  pw_lost :: "(nat \<times> ptr) list"

datatype path_op =
  GetPath nat nat "string option" bool
| GetPaths nat nat "string option" bool nat "string option" bool
| FreePath nat ptr
| FreePaths nat ptr nat ptr
| Resume nat

definition path_exec :: "penv \<times> path_op \<Rightarrow> path_world \<Rightarrow> path_world option" where
  "path_exec eo w = (case eo of (e, op) \<Rightarrow> (case op of
     GetPath key d name wr \<Rightarrow> do {
       (r, s) \<leftarrow> get_path_common e (pw_state w) key d name wr;
       Some (w\<lparr>pw_state := s, pw_held := (case r of Done (err, path, wn) \<Rightarrow> (if err = 0 then [(d, wn)] else []) | Blocked \<Rightarrow> []) @ pw_held w\<rparr>) }
   | GetPaths key d1 n1 wr1 d2 n2 wr2 \<Rightarrow> do {
       (r, s) \<leftarrow> get_path2 e (pw_state w) key d1 n1 d2 n2 wr1 wr2;
       Some (w\<lparr>pw_state := s, pw_held := (case r of Done (err, (p1, wn1), (p2, wn2)) \<Rightarrow> (if err = 0 then [(d1, wn1), (d2, wn2)] else [])
         | Blocked \<Rightarrow> []) @ pw_held w\<rparr>) }
   | FreePath d wn \<Rightarrow> do {
       s \<leftarrow> free_path_wrlock e (pw_state w) d wn (Some []);
       Some (w\<lparr>pw_state := s, pw_held := remove1 (d, wn) (pw_held w)\<rparr>) }
   | FreePaths d1 wn1 d2 wn2 \<Rightarrow> do {
       s \<leftarrow> free_path2 e (pw_state w) d1 d2 wn1 wn2 (Some []) (Some []);
       Some (w\<lparr>pw_state := s, pw_held := remove1 (d2, wn2) (remove1 (d1, wn1) (pw_held w))\<rparr>) }
   | Resume key \<Rightarrow> do {
       (r, s) \<leftarrow> resume_path (pw_state w) key;
       Some (case r of Blocked \<Rightarrow> w
         | Done (err, qe) \<Rightarrow> if err = 0 then w\<lparr>pw_state := s, pw_held := q_held qe @ pw_held w\<rparr>
             else w\<lparr>pw_state := s, pw_lost := q_held qe @ pw_lost w\<rparr>) }))"

text \<open>There is room in the buffer for the longest path: even for the names of all nodes in a row.\<close>

definition name_len :: "node option \<Rightarrow> nat" where
  "name_len r = (case r of None \<Rightarrow> 0 | Some n \<Rightarrow> (case n_name n of None \<Rightarrow> 0 | Some nm \<Rightarrow> length nm + 1))"

definition room :: "fuse \<Rightarrow> string option \<Rightarrow> bool" where
  "room f name \<longleftrightarrow> (case name of None \<Rightarrow> 1 | Some nm \<Rightarrow> length nm + 2) + sum_list (map (\<lambda>a. name_len (nodes f a)) [0..<nbrk f]) \<le> 0xffffffff"

definition clean_name :: "string option \<Rightarrow> bool" where
  "clean_name name = (case name of None \<Rightarrow> True | Some nm \<Rightarrow> NUL \<notin> set nm)"

definition clean_names :: "fuse \<Rightarrow> bool" where
  "clean_names f = list_all (\<lambda>a. case nodes f a of None \<Rightarrow> True | Some n \<Rightarrow> clean_name (n_name n)) [0..<nbrk f]"

definition request_may :: "fuse \<Rightarrow> nat \<Rightarrow> string option \<Rightarrow> bool \<Rightarrow> bool" where
  "request_may f d name wr \<longleftrightarrow> holds_node f (get_node_nocheck f d) (\<lambda>a n. True) \<and> room f name \<and> clean_name name \<and> (wr \<longrightarrow> name \<noteq> None)"

definition load :: "path_world \<Rightarrow> int" where
  "load w = int (length (pw_held w)) + int (length (pw_lost w)) + 2 * int (length (lockq (pw_state w)))"

text \<open>
  Threads ask for known nodes under new keys, give back what they hold, and resume elements of the queue.
\<close>

definition path_may :: "fuse \<Rightarrow> penv \<times> path_op \<Rightarrow> path_world \<Rightarrow> bool" where
  "path_may f eo w = (case snd eo of
     GetPath key d name wr \<Rightarrow> request_may f d name wr \<and> key \<notin> set (map q_key (lockq (pw_state w))) \<and> load w + 3 < INT_MAX
   | GetPaths key d1 n1 wr1 d2 n2 wr2 \<Rightarrow> request_may f d1 n1 wr1 \<and> request_may f d2 n2 wr2 \<and>
       key \<notin> set (map q_key (lockq (pw_state w))) \<and> load w + 3 < INT_MAX
   | FreePath d wn \<Rightarrow> (d, wn) \<in> set (pw_held w)
   | FreePaths d1 wn1 d2 wn2 \<Rightarrow> (d1, wn1) \<in> set (pw_held w) \<and> (d2, wn2) \<in> set (remove1 (d1, wn1) (pw_held w))
   | Resume key \<Rightarrow> key \<in> set (map q_key (lockq (pw_state w))))"

definition path_start :: "fuse \<Rightarrow> path_world" where
  "path_start f = \<lparr>pw_state = \<lparr>p_fuse = f, lockq = [], p_live = 0\<rparr>, pw_held = [], pw_lost = []\<rparr>"

section \<open>The invariant\<close>

definition all_held :: "path_world \<Rightarrow> (nat \<times> ptr) list" where
  "all_held w = pw_held w @ pw_lost w @ concat (map q_held (lockq (pw_state w)))"

definition path_inv :: "fuse \<Rightarrow> path_world \<Rightarrow> bool" where
  "path_inv f w \<longleftrightarrow> paths_ok f \<and> (\<exists>L. p_fuse (pw_state w) = with_locks f L \<and> locks_inv f (all_held w) L) \<and>
     (\<forall>qe \<in> set (lockq (pw_state w)). elem_ok f qe) \<and> distinct (map q_key (lockq (pw_state w))) \<and> load w + 1 < INT_MAX"

lemma upward_text_length:
  assumes "upward ns a xs c"
  shows "length (path_text ns xs) = sum_list (map (\<lambda>x. name_len (ns x)) xs)"
  using assms
proof (induction xs arbitrary: a)
  case (Cons x xs)
  obtain n p nm where p: "x = a" "ns a = Some n" "n_name n = Some nm" "upward ns p xs c" using Cons.prems(1) by (rule upwardE)
  then show ?case using Cons.IH [OF p(4)] by (simp add: path_text_Cons [of ns a n nm xs, OF p(2,3)] name_len_def)
qed (simp add: path_text_def)

lemma request_may_ok:
  assumes f: "paths_ok f" and m: "request_may f d name wr"
  shows "request_ok f d name wr"
proof -
  obtain a n where a: "nodes f a = Some n" "n_id n = d"
    by (rule holds_node_get [OF paths_okD(5) [OF f], of d "\<lambda>a n. True"]) (use m in \<open>auto simp: request_may_def\<close>)
  let ?k = "case name of None \<Rightarrow> 1 | Some nm \<Rightarrow> length nm + 2"
  have "?k + length (path_text (nodes f) xs) \<le> 0xffffffff" if x: "upward (nodes f) a xs c" for xs c
  proof -
    have "distinct xs" "set xs \<subseteq> {..<nbrk f}"
      using upward_distinct(1) [OF paths_okD(2) [OF f] x] upward_dom [OF x] paths_okD(5) [OF f] by (auto simp: nodes_ok_iff pre_ok_def)
    then have "sum_list (map (\<lambda>x. name_len (nodes f x)) xs) \<le> sum_list (map (\<lambda>x. name_len (nodes f x)) [0..<nbrk f])"
      by (simp add: sum_list_distinct_conv_sum_set sum_mono2 interv_sum_list_conv_sum_set_nat atLeast0LessThan)
    then show ?thesis using m upward_text_length [OF x] by (auto simp: request_may_def room_def split: option.splits)
  qed
  then have "fits (nodes f) a ?k" by (simp add: fits_def)
  then show ?thesis using a m by (auto simp: request_ok_def request_may_def name_fits_def clean_name_def split: option.splits)
qed

lemma held_length:
  assumes "path_inv f w"
  shows "int (length (all_held w)) \<le> load w"
proof -
  have "length (concat (map q_held qs)) \<le> 2 * length qs" for qs
    by (induction qs) (auto intro: add_mono [OF q_held_length, simplified])
  from this [of "lockq (pw_state w)"] show ?thesis by (simp add: all_held_def load_def)
qed

lemma new_element_ok:
  "request_ok f d name wr \<Longrightarrow> elem_ok f (new_element key d name wr 0 None False False)"
  "request_ok f d name wr \<Longrightarrow> request_ok f d2 name2 wr2 \<Longrightarrow> elem_ok f (new_element key d name wr d2 name2 wr2 True)"
  by (auto simp: elem_ok_def new_element_def request_ok_def)

lemma queue_path_world:
  assumes inv: "path_inv f w" and L: "locks_inv f (all_held w) L'" and q: "elem_ok f qe" "q_key qe \<notin> set (map q_key (lockq (pw_state w)))"
    and load: "load w + 3 < INT_MAX" and s: "s = queue_path ((pw_state w)\<lparr>p_fuse := with_locks f L', p_live := k\<rparr>) qe"
  shows "path_inv f (w\<lparr>pw_state := s\<rparr>)"
proof -
  let ?q = "qe\<lparr>q_done := False, first_locked := False, second_locked := False\<rparr>"
  have "q_held ?q = []" "elem_ok f ?q" using q(1) by (auto simp: q_held_def elem_ok_def)
  then show ?thesis using inv L q(2) load
    by (auto simp: path_inv_def s queue_path_def all_held_def load_def)
qed

lemma get_path_exec:
  assumes inv: "path_inv f w" and m: "path_may f (e, GetPath key d name wr) w"
  shows "\<exists>w'. path_exec (e, GetPath key d name wr) w = Some w' \<and> path_inv f w'"
proof -
  obtain L where L: "p_fuse (pw_state w) = with_locks f L" "locks_inv f (all_held w) L" and f: "paths_ok f" using inv by (auto simp: path_inv_def)
  have r: "request_ok f d name wr" and k: "key \<notin> set (map q_key (lockq (pw_state w)))" "load w + 3 < INT_MAX"
    using m request_may_ok [OF f] by (auto simp: path_may_def)
  have few: "int (length (all_held w)) + 1 < INT_MAX" using held_length [OF inv] k(2) by simp
  from try_request [OF f L(2) r few, of e] show ?thesis
  proof (elim disjE exE conjE)
    fix path wn L'
    assume g: "try_get_path e (with_locks f L) d name wr True = Some (0, path, wn, with_locks f L')" "locks_inv f ((d, wn) # all_held w) L'"
    let ?w = "w\<lparr>pw_state := (pw_state w)\<lparr>p_fuse := with_locks f L', p_live := p_live (pw_state w) + 1\<rparr>, pw_held := (d, wn) # pw_held w\<rparr>"
    have "path_exec (e, GetPath key d name wr) w = Some ?w"
      using g(1) L(1) by (simp add: path_exec_def get_path_common_def EAGAIN_def)
    moreover have "path_inv f ?w" using inv g(2) k(2) by (auto simp: path_inv_def all_held_def load_def)
    ultimately show ?thesis by blast
  next
    fix err L'
    assume g: "err \<noteq> 0" "try_get_path e (with_locks f L) d name wr True = Some (err, None, None, with_locks f L')" "locks_inv f (all_held w) L'"
    let ?s = "(pw_state w)\<lparr>p_fuse := with_locks f L', p_live := p_live (pw_state w)\<rparr>"
    show ?thesis
    proof (cases "err = - EAGAIN")
      case True
      let ?s2 = "queue_path ?s (new_element key d name wr 0 None False False)"
      have "path_exec (e, GetPath key d name wr) w = Some (w\<lparr>pw_state := ?s2\<rparr>)"
        using g(1,2) L(1) True by (simp add: path_exec_def get_path_common_def)
      moreover have "path_inv f (w\<lparr>pw_state := ?s2\<rparr>)"
        by (rule queue_path_world [OF inv g(3) new_element_ok(1) [OF r]]) (use k(1) in \<open>simp add: new_element_def\<close>, rule k(2), rule refl)
      ultimately show ?thesis by blast
    next
      case False
      have "path_exec (e, GetPath key d name wr) w = Some (w\<lparr>pw_state := ?s\<rparr>)"
        using g(1,2) L(1) False by (simp add: path_exec_def get_path_common_def)
      moreover have "path_inv f (w\<lparr>pw_state := ?s\<rparr>)" using inv g(3) by (auto simp: path_inv_def all_held_def load_def)
      ultimately show ?thesis by blast
    qed
  qed
qed

lemma try_get_path2_ok:
  assumes f: "paths_ok f" and inv: "locks_inv f H L" and r: "request_ok f d1 n1 wr1" "request_ok f d2 n2 wr2" and few: "int (length H) + 2 < INT_MAX"
  shows "\<exists>err p1 w1 p2 w2 L'. try_get_path2 e (with_locks f L) d1 n1 d2 n2 wr1 wr2 = Some (err, (p1, w1), (p2, w2), with_locks f L') \<and>
    locks_inv f (if err = 0 then (d1, w1) # (d2, w2) # H else H) L'"
proof -
  have few1: "int (length H) + 1 < INT_MAX" using few by simp
  from try_request [OF f inv r(1) few1, of e] show ?thesis
  proof (elim disjE exE conjE)
    fix path w L1
    assume g: "try_get_path e (with_locks f L) d1 n1 wr1 True = Some (0, path, w, with_locks f L1)" "locks_inv f ((d1, w) # H) L1"
    have few2: "int (length ((d1, w) # H)) + 1 < INT_MAX" using few by simp
    from try_request [OF f g(2) r(2) few2, of e] show ?thesis
    proof (elim disjE exE conjE)
      fix path2 w2 L2
      assume h: "try_get_path e (with_locks f L1) d2 n2 wr2 True = Some (0, path2, w2, with_locks f L2)" "locks_inv f ((d2, w2) # (d1, w) # H) L2"
      have "locks_inv f ((d1, w) # (d2, w2) # H) L2" using h(2) by (rule locks_inv_mset) simp
      then show ?thesis using g(1) h(1) by (simp add: try_get_path2_def) blast
    next
      fix err L2
      assume h: "err \<noteq> 0" "try_get_path e (with_locks f L1) d2 n2 wr2 True = Some (err, None, None, with_locks f L2)" "locks_inv f ((d1, w) # H) L2"
      obtain L3 where "unlock_path (with_locks f L2) d1 w None = Some (with_locks f L3)" "locks_inv f H L3"
        using unlock_mset [OF f h(3) refl] by blast
      then show ?thesis using g(1) h(1,2) by (simp add: try_get_path2_def) blast
    qed
  next
    fix err L1
    assume g: "err \<noteq> 0" "try_get_path e (with_locks f L) d1 n1 wr1 True = Some (err, None, None, with_locks f L1)" "locks_inv f H L1"
    then show ?thesis by (simp add: try_get_path2_def) blast
  qed
qed

lemma get_paths_exec:
  assumes inv: "path_inv f w" and m: "path_may f (e, GetPaths key d1 n1 wr1 d2 n2 wr2) w"
  shows "\<exists>w'. path_exec (e, GetPaths key d1 n1 wr1 d2 n2 wr2) w = Some w' \<and> path_inv f w'"
proof -
  obtain L where L: "p_fuse (pw_state w) = with_locks f L" "locks_inv f (all_held w) L" and f: "paths_ok f" using inv by (auto simp: path_inv_def)
  have r: "request_ok f d1 n1 wr1" "request_ok f d2 n2 wr2" and k: "key \<notin> set (map q_key (lockq (pw_state w)))" "load w + 3 < INT_MAX"
    using m request_may_ok [OF f] by (auto simp: path_may_def)
  have few: "int (length (all_held w)) + 2 < INT_MAX" using held_length [OF inv] k(2) by simp
  obtain err p1 w1 p2 w2 L' where g: "try_get_path2 e (with_locks f L) d1 n1 d2 n2 wr1 wr2 = Some (err, (p1, w1), (p2, w2), with_locks f L')"
      "locks_inv f (if err = 0 then (d1, w1) # (d2, w2) # all_held w else all_held w) L'"
    using try_get_path2_ok [OF f L(2) r few, of e] by blast
  consider "err = 0" | "err = - EAGAIN" | "err \<noteq> 0" "err \<noteq> - EAGAIN" by blast
  then show ?thesis
  proof cases
    case 1
    let ?w = "w\<lparr>pw_state := (pw_state w)\<lparr>p_fuse := with_locks f L', p_live := p_live (pw_state w) + 2\<rparr>, pw_held := (d1, w1) # (d2, w2) # pw_held w\<rparr>"
    have "path_exec (e, GetPaths key d1 n1 wr1 d2 n2 wr2) w = Some ?w" using g(1) L(1) 1 by (simp add: path_exec_def get_path2_def EAGAIN_def)
    moreover have "path_inv f ?w" using inv g(2) k(2) 1 by (auto simp: path_inv_def all_held_def load_def)
    ultimately show ?thesis by blast
  next
    case 2
    let ?s = "queue_path ((pw_state w)\<lparr>p_fuse := with_locks f L', p_live := p_live (pw_state w)\<rparr>) (new_element key d1 n1 wr1 d2 n2 wr2 True)"
    have "path_exec (e, GetPaths key d1 n1 wr1 d2 n2 wr2) w = Some (w\<lparr>pw_state := ?s\<rparr>)"
      using g(1) L(1) 2 by (simp add: path_exec_def get_path2_def EAGAIN_def)
    moreover have "locks_inv f (all_held w) L'" using g(2) 2 by (simp add: EAGAIN_def)
    then have "path_inv f (w\<lparr>pw_state := ?s\<rparr>)"
      by (rule queue_path_world [OF inv _ new_element_ok(2) [OF r]]) (use k(1) in \<open>simp add: new_element_def\<close>, rule k(2), rule refl)
    ultimately show ?thesis by blast
  next
    case 3
    let ?w = "w\<lparr>pw_state := (pw_state w)\<lparr>p_fuse := with_locks f L', p_live := p_live (pw_state w)\<rparr>\<rparr>"
    have "path_exec (e, GetPaths key d1 n1 wr1 d2 n2 wr2) w = Some ?w" using g(1) L(1) 3 by (simp add: path_exec_def get_path2_def)
    moreover have "path_inv f ?w" using inv g(2) 3 by (auto simp: path_inv_def all_held_def load_def)
    ultimately show ?thesis by blast
  qed
qed

text \<open>Waking up the queue after some of the held paths were given back.\<close>

lemma wake_world:
  assumes inv: "path_inv f w" and L: "locks_inv f (H @ pw_lost w @ concat (map q_held (lockq (pw_state w)))) L" and H: "length H \<le> length (pw_held w)"
  shows "\<exists>s'. wake_up_queued e ((pw_state w)\<lparr>p_fuse := with_locks f L\<rparr>) = Some s' \<and> path_inv f (w\<lparr>pw_state := free_buf p (free_buf q s'), pw_held := H\<rparr>)"
proof -
  have f: "paths_ok f" and q: "\<forall>qe \<in> set (lockq (pw_state w)). elem_ok f qe" and d: "distinct (map q_key (lockq (pw_state w)))"
    and load: "load w + 1 < INT_MAX" using inv by (auto simp: path_inv_def)
  have "int (length (H @ pw_lost w)) + 2 * int (length (lockq (pw_state w))) + 1 < INT_MAX" using load H by (simp add: load_def)
  then obtain L' qes k where k: "wake_loop e True (with_locks f L) (lockq (pw_state w)) = Some (with_locks f L', qes, k)"
      "locks_inv f ((H @ pw_lost w) @ concat (map q_held qes)) L'" "\<forall>qe \<in> set qes. elem_ok f qe" "map q_key qes = map q_key (lockq (pw_state w))"
    using wake_loop_ok [OF f, of "H @ pw_lost w" "lockq (pw_state w)" L e True] L q by auto
  let ?s = "(pw_state w)\<lparr>p_fuse := with_locks f L', lockq := qes, p_live := p_live (pw_state w) + k\<rparr>"
  have "wake_up_queued e ((pw_state w)\<lparr>p_fuse := with_locks f L\<rparr>) = Some ?s" using k(1) by (simp add: wake_up_queued_def)
  moreover have "length qes = length (lockq (pw_state w))" using arg_cong [OF k(4), of length] by simp
  then have "path_inv f (w\<lparr>pw_state := free_buf p (free_buf q ?s), pw_held := H\<rparr>)"
    using k(2,3) f load H d k(4) by (auto simp: path_inv_def all_held_def load_def free_buf_def)
  ultimately show ?thesis by blast
qed

lemma free_path_exec:
  assumes inv: "path_inv f w" and m: "path_may f (e, FreePath d wn) w"
  shows "\<exists>w'. path_exec (e, FreePath d wn) w = Some w' \<and> path_inv f w'"
proof -
  obtain L where L: "p_fuse (pw_state w) = with_locks f L" "locks_inv f (all_held w) L" and f: "paths_ok f" using inv by (auto simp: path_inv_def)
  let ?H = "remove1 (d, wn) (pw_held w)" and ?r = "pw_lost w @ concat (map q_held (lockq (pw_state w)))"
  have h: "(d, wn) \<in> set (pw_held w)" using m by (simp add: path_may_def)
  then have "mset (all_held w) = mset ((d, wn) # (?H @ ?r))" by (simp add: all_held_def)
  then obtain L' where L': "unlock_path (with_locks f L) d wn None = Some (with_locks f L')" "locks_inv f (?H @ ?r) L'"
    using unlock_mset [OF f L(2)] by blast
  have len: "length ?H \<le> length (pw_held w)" by (simp add: length_remove1)
  obtain s where s: "wake_up_queued e ((pw_state w)\<lparr>p_fuse := with_locks f L'\<rparr>) = Some s"
      "path_inv f (w\<lparr>pw_state := free_buf (Some []) (free_buf None s), pw_held := ?H\<rparr>)"
    using wake_world [OF inv L'(2) len, of e "Some []" None] by blast
  show ?thesis
  proof (cases "lockq (pw_state w) = []")
    case True
    then have "s = (pw_state w)\<lparr>p_fuse := with_locks f L'\<rparr>" using s(1) by (cases "pw_state w") (simp add: wake_up_queued_def)
    then show ?thesis using L(1) L'(1) s True by (simp add: path_exec_def free_path_wrlock_def free_buf_def)
  next
    case False
    then show ?thesis using L(1) L'(1) s by (simp add: path_exec_def free_path_wrlock_def free_buf_def)
  qed
qed

lemma free_paths_exec:
  assumes inv: "path_inv f w" and m: "path_may f (e, FreePaths d1 wn1 d2 wn2) w"
  shows "\<exists>w'. path_exec (e, FreePaths d1 wn1 d2 wn2) w = Some w' \<and> path_inv f w'"
proof -
  obtain L where L: "p_fuse (pw_state w) = with_locks f L" "locks_inv f (all_held w) L" and f: "paths_ok f" using inv by (auto simp: path_inv_def)
  let ?H1 = "remove1 (d1, wn1) (pw_held w)" and ?r = "pw_lost w @ concat (map q_held (lockq (pw_state w)))"
  let ?H2 = "remove1 (d2, wn2) ?H1"
  have h: "(d1, wn1) \<in> set (pw_held w)" "(d2, wn2) \<in> set ?H1" using m by (simp_all add: path_may_def)
  then have "mset (all_held w) = mset ((d1, wn1) # (?H1 @ ?r))" by (simp add: all_held_def)
  then obtain L1 where L1: "unlock_path (with_locks f L) d1 wn1 None = Some (with_locks f L1)" "locks_inv f (?H1 @ ?r) L1"
    using unlock_mset [OF f L(2)] by blast
  have "mset ?H1 = mset ((d2, wn2) # ?H2)"
    using insert_DiffM [of "(d2, wn2)" "mset ?H1"] h(2) unfolding mset.simps mset_remove1 [of "(d2, wn2)"] set_mset_mset by simp
  then have "mset (?H1 @ ?r) = mset ((d2, wn2) # (?H2 @ ?r))" by (simp only: mset_append mset.simps union_mset_add_mset_left)
  then obtain L2 where L2: "unlock_path (with_locks f L1) d2 wn2 None = Some (with_locks f L2)" "locks_inv f (?H2 @ ?r) L2"
    using unlock_mset [OF f L1(2)] by blast
  have len: "length ?H2 \<le> length (pw_held w)" by (simp add: length_remove1)
  obtain s where "wake_up_queued e ((pw_state w)\<lparr>p_fuse := with_locks f L2\<rparr>) = Some s"
      "path_inv f (w\<lparr>pw_state := free_buf (Some []) (free_buf (Some []) s), pw_held := ?H2\<rparr>)"
    using wake_world [OF inv L2(2) len, of e "Some []" "Some []"] by blast
  then show ?thesis using L(1) L1(1) L2(1) by (simp add: path_exec_def free_path2_def)
qed

lemma resume_exec:
  assumes inv: "path_inv f w" and m: "path_may f (e, Resume key) w"
  shows "\<exists>w'. path_exec (e, Resume key) w = Some w' \<and> path_inv f w'"
proof -
  let ?q = "lockq (pw_state w)"
  obtain qe where qe: "find (\<lambda>q. q_key q = key) ?q = Some qe" "qe \<in> set ?q" "q_key qe = key"
  proof -
    have "find (\<lambda>q. q_key q = key) ?q \<noteq> None" using m by (auto simp: path_may_def find_None_iff)
    then obtain qe where found: "find (\<lambda>q. q_key q = key) ?q = Some qe" by blast
    have "\<exists>i < length ?q. q_key (?q ! i) = key \<and> qe = ?q ! i" using found unfolding find_Some_iff by blast
    then show ?thesis using that [OF found] by auto
  qed
  show ?thesis
  proof (cases "q_done qe")
    case False
    then show ?thesis using qe(1) inv by (simp add: path_exec_def resume_path_def)
  next
    case True
    let ?q' = "filter (\<lambda>q. q_key q \<noteq> key) ?q"
    let ?s = "(pw_state w)\<lparr>lockq := ?q'\<rparr>"
    have d: "distinct (map q_key ?q)" using inv by (simp add: path_inv_def)
    have split: "mset (concat (map q_held ?q)) = mset (q_held qe) + mset (concat (map q_held ?q'))" "length ?q = Suc (length ?q')"
    proof -
      obtain xs ys where q: "?q = xs @ qe # ys" using qe(2) by (meson split_list)
      have "key \<notin> q_key ` set xs" "key \<notin> q_key ` set ys" using d q qe(3) by auto
      then have "filter (\<lambda>q. q_key q \<noteq> key) xs = xs" "filter (\<lambda>q. q_key q \<noteq> key) ys = ys" by (auto simp: filter_id_conv)
      then have "?q' = xs @ ys" using q qe(3) by simp
      then show "mset (concat (map q_held ?q)) = mset (q_held qe) + mset (concat (map q_held ?q'))" "length ?q = Suc (length ?q')"
        using q by simp_all
    qed
    let ?w = "if q_err qe = 0 then w\<lparr>pw_state := ?s, pw_held := q_held qe @ pw_held w\<rparr> else w\<lparr>pw_state := ?s, pw_lost := q_held qe @ pw_lost w\<rparr>"
    have "path_exec (e, Resume key) w = Some ?w" using True qe(1) by (simp add: path_exec_def resume_path_def dequeue_path_def)
    moreover have "mset (all_held w) = mset (all_held ?w)" using split(1) by (simp add: all_held_def)
    moreover have "load ?w \<le> load w" using split(2) q_held_length [of qe] by (simp add: load_def)
    moreover have "p_fuse (pw_state ?w) = p_fuse (pw_state w)" "lockq (pw_state ?w) = ?q'" by simp_all
    moreover have "distinct (map q_key ?q')" using d by (rule distinct_map_filter)
    ultimately show ?thesis using inv locks_inv_mset unfolding path_inv_def by fastforce
  qed
qed

interpretation pw: guarded path_exec "path_may f" "path_inv f" for f
proof
  fix w eo
  assume "path_inv f w" "path_may f eo w"
  then show "\<exists>w'. path_exec eo w = Some w' \<and> path_inv f w'"
    using get_path_exec get_paths_exec free_path_exec free_paths_exec resume_exec by (cases eo; cases "snd eo") auto
qed

lemma path_start_inv:
  assumes "nodes_ok f" and "clean_names f"
  shows "path_inv f (path_start f)"
proof -
  have p: "paths_ok f" unfolding paths_ok_def
  proof (intro conjI allI impI)
    fix a n nm
    assume a: "nodes f a = Some n" "n_name n = Some nm"
    then have "a \<in> set [0..<nbrk f]" using assms(1) by (auto simp: nodes_ok_iff pre_ok_def)
    then have "case nodes f a of None \<Rightarrow> True | Some n \<Rightarrow> clean_name (n_name n)" using assms(2) unfolding clean_names_def list_all_iff by blast
    then show "NUL \<notin> set nm" using a by (simp add: clean_name_def)
  qed (rule assms(1))
  have "with_locks f (\<lambda>a. 0) = f"
  proof -
    have "map_option (\<lambda>n. n\<lparr>n_treelock := 0\<rparr>) (nodes f a) = nodes f a" for a
      using node_okD(1) [OF assms(1), of a] by (cases "nodes f a") auto
    then show ?thesis by (simp add: with_locks_def)
  qed
  then show ?thesis using p
    by (auto simp: path_inv_def path_start_def all_held_def load_def locks_inv_def lock_means_def reads_def writes_def INT_MAX_def intro!: exI [of _ "\<lambda>a. 0"])
qed


section \<open>What a request finds\<close>

text \<open>States that threads reach while the tree of nodes is \<open>f\<close>.\<close>

definition threads_reach :: "fuse \<Rightarrow> (penv \<times> path_op) list \<Rightarrow> path_world \<Rightarrow> bool" where
  "threads_reach f ops w \<longleftrightarrow> clean_names f \<and> all_may path_exec (path_may f) ops (path_start f) \<and> run_ops path_exec ops (path_start f) = Some w"

lemma threads_inv:
  assumes "reaches e rem xs f" and "threads_reach f ops w"
  shows "path_inv f w"
proof -
  have "path_inv f (path_start f)" using path_start_inv [OF reaches_ok [OF assms(1)]] assms(2) by (simp add: threads_reach_def)
  then show ?thesis using pw.run_defined [of f "path_start f" ops] assms(2) by (auto simp: threads_reach_def)
qed

lemma upward_upchain:
  assumes "upward ns a xs c" and "upchain ns a ys"
  shows "\<exists>zs. upchain ns c zs"
proof -
  obtain r where r: "upward ns a ys r" "root_at ns r" using assms(2) by (auto simp: upchain_def)
  have "upward ns a ys r \<Longrightarrow> \<exists>zs. upward ns c zs r" using assms(1)
  proof (induction xs arbitrary: a ys)
    case (Cons x xs)
    obtain n p nm where p: "x = a" "ns a = Some n" "n_id n \<noteq> FUSE_ROOT_ID" "n_parent n = Some p" "upward ns p xs c" using Cons.prems(2) by (rule upwardE)
    show ?case
    proof (cases ys)
      case Nil
      then show ?thesis using Cons.prems(1) r(2) p by (simp add: root_at_def)
    next
      case (Cons y zs)
      then have "upward ns p zs r" using Cons.prems(1) p by simp
      then show ?thesis using Cons.IH p(5) by blast
    qed
  qed auto
  then show ?thesis using r by (auto simp: upchain_def)
qed

lemma connected_goes_on:
  assumes f: "paths_ok f" and a: "nodes f a = Some n" and c: "connected f (n_id n)" and u: "upward (nodes f) a xs c'" "\<not> root_at (nodes f) c'"
  shows "\<exists>m. nodes f c' = Some m \<and> n_name m \<noteq> None \<and> n_parent m \<noteq> None"
proof -
  obtain b m where b: "nodes f b = Some m" "n_id m = n_id n" "upchain (nodes f) b (chain f (n_id n))" using c by (auto simp: connected_def)
  have "b = a" using paths_okD(4) [OF f b(1)] paths_okD(4) [OF f a] b(2) by simp
  then obtain zs where "upchain (nodes f) c' zs" using upward_upchain [OF u(1)] b(3) by blast
  then obtain r where z: "upward (nodes f) c' zs r" "root_at (nodes f) r" by (auto simp: upchain_def)
  then obtain y ys where "zs = y # ys" using u(2) by (cases zs) auto
  then show ?thesis using z(1) by (auto split: option.splits)
qed

lemma no_locks:
  assumes "locks_inv f [] L"
  shows "L x = 0"
  using locks_inv_node(1) [OF assms, of x] by (simp add: lock_means_def reads_def writes_def)

text \<open>
  The nodes that a request is about: those on the way from its node up, and the child to be locked for writing;
  and the nodes that a held path locks.
\<close>

definition in_way :: "fuse \<Rightarrow> nat \<Rightarrow> string option \<Rightarrow> bool \<Rightarrow> addr \<Rightarrow> bool" where
  "in_way f d name wr v \<longleftrightarrow> (\<exists>a n. nodes f a = Some n \<and> n_id n = d \<and> (a, v) \<in> (up (nodes f))\<^sup>*) \<or>
     wr \<and> named_child (nodes f) d (the name) v"

definition locks_node :: "fuse \<Rightarrow> nat \<times> ptr \<Rightarrow> addr \<Rightarrow> bool" where
  "locks_node f h v \<longleftrightarrow> v \<in> set (chain f (fst h)) \<or> snd h = Some v"

lemma locked_by:
  assumes "locks_inv f H L" and "L v \<noteq> 0"
  shows "\<exists>h \<in> set H. locks_node f h v"
proof -
  have "writes H v \<noteq> 0 \<or> reads f H v \<noteq> 0" using locks_inv_node(1) [OF assms(1), of v] assms(2) by (auto simp: lock_means_def split: if_splits)
  then have "(\<exists>h \<in> set H. snd h = Some v) \<or> (\<exists>h \<in> set H. v \<in> set (chain f (fst h)))"
    by (simp add: writes_def reads_def filter_empty_conv case_prod_unfold)
  then show ?thesis unfolding locks_node_def by blast
qed

text \<open>An attempt fails for one of three reasons.\<close>

lemma no_path_lock:
  assumes f: "paths_ok f" and a: "nodes f a = Some n" and no: "no_path e f (n_id n) name wr L a err L'"
  shows "err = - ENOENT_fuse \<and> \<not> connected f (n_id n) \<or> err = - ENOMEM \<and> \<not> mem_ok e \<or>
    err = - EAGAIN \<and> ((\<exists>xs c. upward (nodes f) a xs c \<and> \<not> root_at (nodes f) c \<and> L c < 0) \<or>
      wr \<and> (\<exists>c. named_child (nodes f) (n_id n) (the name) c \<and> L c \<noteq> 0))"
  using no connected_goes_on [OF f a] unfolding no_path_def stops_def by fastforce

lemma no_path_reason:
  assumes f: "paths_ok f" and inv: "locks_inv f H L" and a: "nodes f a = Some n" and no: "no_path e f (n_id n) name wr L a err L'"
  shows "err = - ENOENT_fuse \<and> \<not> connected f (n_id n) \<or> err = - ENOMEM \<and> \<not> mem_ok e \<or>
    err = - EAGAIN \<and> (\<exists>v. in_way f (n_id n) name wr v \<and> (\<exists>h \<in> set H. locks_node f h v))"
proof -
  have "\<exists>v. in_way f (n_id n) name wr v \<and> (\<exists>h \<in> set H. locks_node f h v)"
    if lk: "(\<exists>xs c. upward (nodes f) a xs c \<and> \<not> root_at (nodes f) c \<and> L c < 0) \<or> wr \<and> (\<exists>c. named_child (nodes f) (n_id n) (the name) c \<and> L c \<noteq> 0)"
  proof -
    obtain v where "in_way f (n_id n) name wr v" "L v \<noteq> 0"
      using lk a upward_up [of "nodes f" a] unfolding in_way_def by (metis insertI1 less_irrefl)
    then show ?thesis using locked_by [OF inv] by blast
  qed
  then show ?thesis using no_path_lock [OF f a no] by blast
qed

lemma got_path_chain:
  assumes "paths_ok f" and "nodes f a = Some n" and "got_path f (n_id n) name wr L a xs path w L'"
  shows "connected f (n_id n) \<and> path = Some (whole_path (nodes f) (chain f (n_id n)) name) \<and>
    (if wr then \<forall>v. w = Some v \<longleftrightarrow> named_child (nodes f) (n_id n) (the name) v else w = None)"
proof -
  have u: "named_child (nodes f) (n_id n) nm v \<Longrightarrow> named_child (nodes f) (n_id n) nm v' \<Longrightarrow> v = v'" for nm v v'
    using lookup_node_iff [of "{}" "\<lambda>a. 0" f "n_id n" nm] paths_okD(5) [OF assms(1)] unfolding nodes_ok_iff by (metis option.inject)
  have "upchain (nodes f) a xs" "path = Some (whole_path (nodes f) xs name)" "free_for f (n_id n) name wr L w"
    using assms(3) by (auto simp: got_path_def)
  then show ?thesis using upchain_chain [OF assms(1,2)] u by (auto simp: free_for_def split: option.splits)
qed

section \<open>Requests for one path\<close>

text \<open>As long as no thread asks for two paths, an element of the queue holds a path only when it is done without error.\<close>

definition one_path :: "path_op \<Rightarrow> bool" where
  "one_path op = (case op of GetPaths key d1 n1 wr1 d2 n2 wr2 \<Rightarrow> False | _ \<Rightarrow> True)"

definition single_ok :: "lock_queue_element \<Rightarrow> bool" where
  "single_ok qe \<longleftrightarrow> q_path2 qe = None \<and> \<not> second_locked qe \<and> (first_locked qe \<longrightarrow> q_err qe = 0)"

definition nothing_lost :: "path_world \<Rightarrow> bool" where
  "nothing_lost w \<longleftrightarrow> pw_lost w = [] \<and> list_all single_ok (lockq (pw_state w))"

lemma queue_element_unlock_flags:
  "queue_element_unlock f qe = Some (f', qe') \<Longrightarrow> qe' = qe\<lparr>first_locked := False, second_locked := False\<rparr>"
  by (auto simp: queue_element_unlock_def split: Option.bind_splits)

lemma single_wakeup:
  assumes q: "queue_element_wakeup e first f qe = Some (f', qe', k)" and s: "single_ok qe"
  shows "single_ok qe'"
proof (cases "q_path1 qe = None")
  case True
  then show ?thesis using q s by (auto simp: queue_element_wakeup_def split: Option.bind_splits)
next
  case False
  obtain err1 f1 q1 where t: "try_first e f qe = Some (err1, f1, q1)"
    using q False by (auto simp: queue_element_wakeup_def split: Option.bind_splits)
  have q1: "q_path2 q1 = None" "\<not> second_locked q1" "first_locked qe \<longrightarrow> q1 = qe" "q_err q1 = q_err qe" "err1 = 0 \<longleftrightarrow> first_locked q1"
    using t s by (auto simp: try_first_def single_ok_def split: Option.bind_splits if_splits)
  have "try_second e f1 q1 = Some (0, f1, q1)" using q1(1) by (simp add: try_second_def)
  then show ?thesis using q False t q1
    by (auto simp: queue_element_wakeup_def single_ok_def EAGAIN_def dest!: queue_element_unlock_flags split: Option.bind_splits if_splits)
qed

lemma single_wake_loop: "wake_loop e first f qes = Some (f', qes', k) \<Longrightarrow> list_all single_ok qes \<Longrightarrow> list_all single_ok qes'"
proof (induction qes arbitrary: first f f' qes' k)
  case (Cons qe qes)
  obtain f1 q1 k1 q2 k2 where w: "queue_element_wakeup e first f qe = Some (f1, q1, k1)" "wake_loop e False f1 qes = Some (f', q2, k2)" "qes' = q1 # q2"
    using Cons.prems(1) by (auto split: Option.bind_splits)
  have "single_ok q1" using single_wakeup [OF w(1)] Cons.prems(2) by simp
  then show ?case using w Cons.IH [OF w(2)] Cons.prems(2) by simp
qed simp

lemma single_wake_up: "wake_up_queued e s = Some s' \<Longrightarrow> list_all single_ok (lockq s) \<Longrightarrow> list_all single_ok (lockq s')"
  by (auto simp: wake_up_queued_def dest: single_wake_loop split: Option.bind_splits)

lemma nothing_lost_step:
  assumes x: "path_exec (e, op) w = Some w'" and w: "nothing_lost w" and op: "one_path op"
  shows "nothing_lost w'"
proof (cases op)
  case (GetPath key d name wr)
  then show ?thesis using x w
    by (auto simp: path_exec_def get_path_common_def Let_def nothing_lost_def queue_path_def new_element_def single_ok_def split: Option.bind_splits if_splits)
next
  case (FreePath d wn)
  then show ?thesis using x w
    by (auto simp: path_exec_def free_path_wrlock_def Let_def nothing_lost_def free_buf_def dest: single_wake_up split: Option.bind_splits if_splits)
next
  case (FreePaths d1 wn1 d2 wn2)
  then show ?thesis using x w
    by (auto simp: path_exec_def free_path2_def nothing_lost_def free_buf_def dest: single_wake_up split: Option.bind_splits if_splits)
next
  case (Resume key)
  show ?thesis
  proof (cases "find (\<lambda>q. q_key q = key) (lockq (pw_state w))")
    case (Some qe)
    then have "qe \<in> set (lockq (pw_state w))" by (auto simp: find_Some_iff)
    then have "single_ok qe" using w by (auto simp: nothing_lost_def list_all_iff)
    then show ?thesis using x w Resume Some
      by (auto simp: path_exec_def resume_path_def dequeue_path_def nothing_lost_def single_ok_def q_held_def list_all_iff split: Option.bind_splits if_splits)
  qed (use x Resume in \<open>simp add: path_exec_def resume_path_def\<close>)
qed (use op in \<open>simp add: one_path_def\<close>)

lemma nothing_lost_run: "run_ops path_exec ops w = Some w' \<Longrightarrow> nothing_lost w \<Longrightarrow> list_all (\<lambda>eo. one_path (snd eo)) ops \<Longrightarrow> nothing_lost w'"
  by (induction ops arbitrary: w) (auto split: Option.bind_splits dest: nothing_lost_step)

section \<open>A small tree\<close>

definition easy :: penv where
  "easy = \<lparr>p_malloc = True, p_realloc = (\<lambda>n. True), p_junk = CHR ''x''\<rparr>"

definition hard :: penv where
  "hard = easy\<lparr>p_malloc := False\<rparr>"

text \<open>The directory \<open>a\<close> (number 2) with \<open>b\<close> (3), and \<open>c\<close> (4) beside it.\<close>

definition tree_run :: "(env \<times> request) list" where
  "tree_run = [(calm, Lookup 1 ''a''), (calm, Lookup 2 ''b''), (calm, Lookup 1 ''c'')]"

definition tree_state :: fuse where
  "tree_state = the (run_ops node_exec tree_run (the (new_fuse calm 0)))"

lemma tree_reaches: "reaches calm 0 tree_run tree_state"
proof -
  have "all_may node_exec node_may tree_run (the (new_fuse calm 0))" by code_simp
  then show ?thesis unfolding tree_state_def by (rule reachesI)
qed

text \<open>One thread holds \<open>/a\<close> for writing, and another waits for \<open>/a/b\<close>.\<close>

definition wait_run :: "(penv \<times> path_op) list" where
  "wait_run = [(easy, GetPath 0 1 (Some ''a'') True), (easy, GetPath 1 3 None False)]"

definition wait_world :: path_world where
  "wait_world = the (run_ops path_exec wait_run (path_start tree_state))"

lemma wait_reach: "threads_reach tree_state wait_run wait_world"
proof -
  have "clean_names tree_state" "all_may path_exec (path_may tree_state) wait_run (path_start tree_state)"
    "run_ops path_exec wait_run (path_start tree_state) \<noteq> None" by code_simp+
  then show ?thesis by (auto simp: threads_reach_def wait_world_def)
qed

section \<open>Properties\<close>

text \<open>
  Property C2: however threads take and give back paths of a tree of nodes that stays as it is, as long as they give
  back what they hold, every call
  returns or waits in the queue: no lock assertion fails, no counter overflows, no buffer is written outside
  its bounds, and every loop ends.
\<close>

theorem paths_defined:
  assumes "reaches e rem xs f" and "clean_names f" and "all_may path_exec (path_may f) ops (path_start f)"
  shows "\<exists>w. run_ops path_exec ops (path_start f) = Some w"
  using pw.run_defined [OF path_start_inv [OF reaches_ok [OF assms(1)] assms(2)] assms(3)] by blast

theorem paths_defined_witness: "\<exists>w. run_ops path_exec wait_run (path_start tree_state) = Some w"
proof -
  have "clean_names tree_state" "all_may path_exec (path_may tree_state) wait_run (path_start tree_state)" by code_simp+
  then show ?thesis by (rule paths_defined [OF tree_reaches])
qed

text \<open>
  Property C3: in such a run, a node that one thread has locked for writing lies on the path of no thread, and no other
  thread has locked it for writing.
\<close>

theorem write_lock_exclusive:
  assumes "reaches e rem xs f" and "threads_reach f ops w"
    and "i < length (pw_held w)" and "snd (pw_held w ! i) = Some v" and "j < length (pw_held w)"
  shows "v \<notin> set (chain f (fst (pw_held w ! j))) \<and> (snd (pw_held w ! j) = Some v \<longrightarrow> j = i)"
proof -
  obtain L where L: "locks_inv f (all_held w) L" using threads_inv [OF assms(1,2)] by (auto simp: path_inv_def)
  note m = locks_inv_node(1) [OF L, of v]
  have hold: "pw_held w ! k \<in> set (all_held w)" if "k < length (pw_held w)" for k using that by (simp add: all_held_def)
  have "writes (all_held w) v \<noteq> 0" using hold [OF assms(3)] assms(4) by (auto simp: writes_def filter_empty_conv case_prod_unfold)
  then have m: "writes (all_held w) v = 1" "reads f (all_held w) v = 0" using m by (auto simp: lock_means_def split: if_splits)
  let ?K = "{k. k < length (pw_held w) \<and> snd (pw_held w ! k) = Some v}"
  have "card ?K \<le> 1" using m(1) by (auto simp: writes_def all_held_def length_filter_conv_card case_prod_unfold)
  then have "snd (pw_held w ! j) = Some v \<longrightarrow> j = i" using assms(3-5) card_le_Suc0_iff_eq [of ?K] by auto
  then show ?thesis using m(2) hold [OF assms(5)] by (auto simp: reads_def filter_empty_conv case_prod_unfold)
qed

theorem write_lock_exclusive_witness: "1 \<notin> set (chain tree_state (fst (pw_held wait_world ! 0)))"
proof -
  have "0 < length (pw_held wait_world) \<and> snd (pw_held wait_world ! 0) = Some 1" by code_simp
  then show ?thesis using write_lock_exclusive [OF tree_reaches wait_reach, of 0 1 0] by blast
qed

text \<open>
  Property C17: a thread that asks for the path of a known node gets the names of the nodes from the root down,
  in one string, together with the named child if it is to be locked for writing. The request fails only
  when the node is cut off from the root or memory runs out. It waits only when a node on its way to the root, or
  the child to be locked, is locked, be it by a path that a thread holds, by an element of the queue, or by a
  lock that was lost; and no lock is lost as long as no thread has asked for two paths (see \<open>lost_lock\<close>).
\<close>

theorem get_path_outcome:
  assumes "reaches e rem xs f" and "threads_reach f ops w" and "path_may f (m, GetPath key d name wr) w"
  shows "\<exists>r s. get_path_common m (pw_state w) key d name wr = Some (r, s) \<and> (case r of
     Done (err, path, wn) \<Rightarrow>
       if err = 0 then connected f d \<and> path = Some (whole_path (nodes f) (chain f d) name) \<and>
         (if wr then \<forall>v. wn = Some v \<longleftrightarrow> named_child (nodes f) d (the name) v else wn = None)
       else err = - ENOENT_fuse \<and> \<not> connected f d \<or> err = - ENOMEM \<and> \<not> mem_ok m
   | Blocked \<Rightarrow> \<exists>v. in_way f d name wr v \<and>
       (\<exists>h \<in> set (pw_held w) \<union> set (pw_lost w) \<union> (\<Union>qe \<in> set (lockq (pw_state w)). set (q_held qe)). locks_node f h v)) \<and>
     (list_all (\<lambda>eo. one_path (snd eo)) ops \<longrightarrow> pw_lost w = [])"
proof -
  have lost: "list_all (\<lambda>eo. one_path (snd eo)) ops \<longrightarrow> pw_lost w = []"
    using nothing_lost_run [of ops "path_start f" w] assms(2) by (auto simp: threads_reach_def nothing_lost_def path_start_def)
  have set: "set (all_held w) = set (pw_held w) \<union> set (pw_lost w) \<union> (\<Union>qe \<in> set (lockq (pw_state w)). set (q_held qe))"
    by (auto simp: all_held_def)
  have inv: "path_inv f w" using threads_inv [OF assms(1,2)] .
  obtain L where L: "p_fuse (pw_state w) = with_locks f L" "locks_inv f (all_held w) L" and f: "paths_ok f" using inv by (auto simp: path_inv_def)
  have r: "request_ok f d name wr" and k: "load w + 3 < INT_MAX" using assms(3) request_may_ok [OF f] by (auto simp: path_may_def)
  have few: "int (length (all_held w)) + 1 < INT_MAX" using held_length [OF inv] k by simp
  from try_request [OF f L(2) r few, of m] show ?thesis
  proof (elim disjE exE conjE)
    fix path wn L' a n ys
    assume g: "try_get_path m (with_locks f L) d name wr True = Some (0, path, wn, with_locks f L')"
      and a: "nodes f a = Some n" "n_id n = d" "got_path f d name wr L a ys path wn L'"
    show ?thesis using got_path_chain [OF f a(1), of name wr L ys path wn L'] a g L(1) lost by (simp add: get_path_common_def EAGAIN_def)
  next
    fix err L' a n
    assume g: "err \<noteq> 0" "try_get_path m (with_locks f L) d name wr True = Some (err, None, None, with_locks f L')"
      and a: "nodes f a = Some n" "n_id n = d" "no_path m f d name wr L a err L'"
    have "err = - ENOENT_fuse \<and> \<not> connected f d \<or> err = - ENOMEM \<and> \<not> mem_ok m \<or>
        err = - EAGAIN \<and> (\<exists>v. in_way f d name wr v \<and> (\<exists>h \<in> set (all_held w). locks_node f h v))"
      using no_path_reason [OF f L(2) a(1)] a(2,3) by blast
    then show ?thesis using g L(1) lost unfolding set
      by (cases "err = - EAGAIN") (auto simp: get_path_common_def Let_def EAGAIN_def ENOENT_fuse_def ENOMEM_def)
  qed
qed

theorem get_path_outcome_witness:
  "\<exists>path wn s. get_path_common easy (pw_state (path_start tree_state)) 0 3 (Some ''x'') True = Some (Done (0, path, wn), s) \<and> path = Some ''/a/b/x''"
proof -
  let ?w = "path_start tree_state"
  have t: "threads_reach tree_state [] ?w" using wait_reach by (simp add: threads_reach_def)
  have m: "path_may tree_state (easy, GetPath 0 3 (Some ''x'') True) ?w" by code_simp
  have p: "whole_path (nodes tree_state) (chain tree_state 3) (Some ''x'') = ''/a/b/x''" by code_simp
  have c: "case get_path_common easy (pw_state ?w) 0 3 (Some ''x'') True of Some (Done (err, _), _) \<Rightarrow> err = 0 | _ \<Rightarrow> False" by code_simp
  obtain err path wn s where "get_path_common easy (pw_state ?w) 0 3 (Some ''x'') True = Some (Done (err, path, wn), s)" "err = 0"
    using c by (auto split: option.splits blocking.splits)
  then show ?thesis using get_path_outcome [OF tree_reaches t m] p by auto
qed

text \<open>
  The two paths of a request that can not be locked together: the child of one to be locked for writing lies on
  the other, or is the child of both.
\<close>

definition clash :: "fuse \<Rightarrow> lock_queue_element \<Rightarrow> bool" where
  "clash f qe \<longleftrightarrow> (\<exists>v. q_wnode1 qe \<noteq> None \<and> named_child (nodes f) (q_nodeid1 qe) (the (q_name1 qe)) v \<and> v \<in> set (chain f (q_nodeid2 qe)) \<or>
     q_wnode2 qe \<noteq> None \<and> named_child (nodes f) (q_nodeid2 qe) (the (q_name2 qe)) v \<and>
       (v \<in> set (chain f (q_nodeid1 qe)) \<or> q_wnode1 qe \<noteq> None \<and> named_child (nodes f) (q_nodeid1 qe) (the (q_name1 qe)) v))"

lemma upward_on_chain: "upward ns a xs c \<Longrightarrow> upward ns a ys r \<Longrightarrow> root_at ns r \<Longrightarrow> \<not> root_at ns c \<Longrightarrow> c \<in> set ys"
proof (induction xs arbitrary: a ys)
  case Nil
  then show ?case by (cases ys) auto
next
  case (Cons x xs)
  obtain n p nm where p: "ns a = Some n" "n_id n \<noteq> FUSE_ROOT_ID" "n_parent n = Some p" "upward ns p xs c" using Cons.prems(1) by (rule upwardE)
  then obtain y zs where "ys = y # zs" using Cons.prems(2,3) by (cases ys) (auto simp: root_at_def)
  moreover have "upward ns p zs r" using Cons.prems(2) p calculation by simp
  ultimately show ?case using Cons.IH [OF p(4)] Cons.prems(3,4) by simp
qed

lemma connected_on_chain:
  assumes f: "paths_ok f" and a: "nodes f a = Some n" and c: "connected f (n_id n)" and u: "upward (nodes f) a xs v" "\<not> root_at (nodes f) v"
  shows "v \<in> set (chain f (n_id n))"
proof -
  obtain b m where b: "nodes f b = Some m" "n_id m = n_id n" "upchain (nodes f) b (chain f (n_id n))" using c by (auto simp: connected_def)
  have "b = a" using paths_okD(4) [OF f b(1)] paths_okD(4) [OF f a] b(2) by simp
  then show ?thesis using b(3) upward_on_chain [OF u(1) _ _ u(2)] by (auto simp: upchain_def)
qed

lemma locked_alone:
  assumes "\<And>x. L x = 0"
  shows "locked xs w L v < 0 \<Longrightarrow> w = Some v" and "locked xs w L v \<noteq> 0 \<Longrightarrow> v \<in> set xs \<or> w = Some v"
  using assms by (auto simp: locked_def add_locks_def split: option.splits if_splits)

text \<open>An attempt for a connected node, with memory, when no lock is in the way.\<close>

lemma request_served:
  assumes f: "paths_ok f" and L: "locks_inv f H L" and r: "request_ok f d name wr" and few: "int (length H) + 1 < INT_MAX"
    and c: "connected f d" and m: "mem_ok m" and clear: "\<And>v. L v < 0 \<Longrightarrow> v \<notin> set (chain f d)"
      "\<And>v. wr \<Longrightarrow> named_child (nodes f) d (the name) v \<Longrightarrow> L v = 0"
  obtains w where "try_get_path m (with_locks f L) d name wr True =
      Some (0, Some (whole_path (nodes f) (chain f d) name), w, with_locks f (locked (chain f d) w L))"
    and "locks_inv f ((d, w) # H) (locked (chain f d) w L)" and "\<And>v. w = Some v \<Longrightarrow> wr \<and> named_child (nodes f) d (the name) v"
  using try_request [OF f L r few, of m]
proof (elim disjE exE conjE)
  fix path w L' a n xs
  assume g: "try_get_path m (with_locks f L) d name wr True = Some (0, path, w, with_locks f L')" "locks_inv f ((d, w) # H) L'"
    and a: "nodes f a = Some n" "n_id n = d" "got_path f d name wr L a xs path w L'"
  have p: "path = Some (whole_path (nodes f) (chain f d) name)" "if wr then \<forall>v. w = Some v \<longleftrightarrow> named_child (nodes f) d (the name) v else w = None"
    using got_path_chain [OF f a(1)] a(2,3) by metis+
  have u: "upchain (nodes f) a xs" "L' = locked xs w L" using a(3) by (simp_all add: got_path_def)
  have x: "L' = locked (chain f d) w L" using upchain_chain(1) [OF f a(1) u(1)] u(2) a(2) by simp
  show ?thesis
  proof (rule that [of w])
    show "try_get_path m (with_locks f L) d name wr True =
        Some (0, Some (whole_path (nodes f) (chain f d) name), w, with_locks f (locked (chain f d) w L))" using g(1) p(1) x by simp
    show "locks_inv f ((d, w) # H) (locked (chain f d) w L)" using g(2) x by simp
    show "wr \<and> named_child (nodes f) d (the name) v" if "w = Some v" for v using p(2) that by (simp split: if_splits)
  qed
next
  fix err L' a n
  assume a: "nodes f a = Some n" "n_id n = d" "no_path m f d name wr L a err L'"
  have "\<not> (\<exists>xs v. upward (nodes f) a xs v \<and> \<not> root_at (nodes f) v \<and> L v < 0)"
    using clear(1) connected_on_chain [OF f a(1)] c a(2) by blast
  then show ?thesis using no_path_lock [OF f a(1), of m name wr L err L'] a(2,3) c m clear(2) by blast
qed

text \<open>The first element of the queue, when nothing is locked any more.\<close>

lemma head_done:
  assumes f: "paths_ok f" and L: "locks_inv f [] L" and q: "elem_ok f qe" "\<not> first_locked qe" "\<not> second_locked qe"
    and c: "connected f (q_nodeid1 qe)" and two: "q_path2 qe \<noteq> None \<Longrightarrow> connected f (q_nodeid2 qe) \<and> \<not> clash f qe" and m: "mem_ok m"
  shows "\<exists>f' qe' k. queue_element_wakeup m True (with_locks f L) qe = Some (f', qe', k) \<and> q_key qe' = q_key qe \<and> q_done qe' \<and> q_err qe' = 0 \<and>
    q_path1 qe' = Some (Some (whole_path (nodes f) (chain f (q_nodeid1 qe)) (q_name1 qe))) \<and>
    (q_path2 qe \<noteq> None \<longrightarrow> q_path2 qe' = Some (Some (whole_path (nodes f) (chain f (q_nodeid2 qe)) (q_name2 qe))))"
proof -
  let ?d1 = "q_nodeid1 qe" and ?wr1 = "q_wnode1 qe \<noteq> None" and ?d2 = "q_nodeid2 qe" and ?wr2 = "q_wnode2 qe \<noteq> None"
  have r: "request_ok f ?d1 (q_name1 qe) ?wr1" and p: "q_path1 qe \<noteq> None" using q(1) by (auto simp: elem_ok_def)
  have few: "int (length ([] :: (nat \<times> ptr) list)) + 1 < INT_MAX" by (simp add: INT_MAX_def)
  note z = no_locks [OF L]
  obtain w1 where g1: "try_get_path m (with_locks f L) ?d1 (q_name1 qe) ?wr1 True =
        Some (0, Some (whole_path (nodes f) (chain f ?d1) (q_name1 qe)), w1, with_locks f (locked (chain f ?d1) w1 L))"
      "locks_inv f [(?d1, w1)] (locked (chain f ?d1) w1 L)" "\<And>v. w1 = Some v \<Longrightarrow> ?wr1 \<and> named_child (nodes f) ?d1 (the (q_name1 qe)) v"
    by (rule request_served [OF f L r few c m]) (use z in auto)
  show ?thesis
  proof (cases "q_path2 qe")
    case None
    then show ?thesis using g1(1) q(2) p by (cases "q_path1 qe") (simp_all add: queue_element_wakeup_def try_first_def try_second_def)
  next
    case (Some p2)
    let ?L = "locked (chain f ?d1) w1 L"
    have r2: "request_ok f ?d2 (q_name2 qe) ?wr2" using q(1) Some by (simp add: elem_ok_def)
    have few2: "int (length [(?d1, w1)]) + 1 < INT_MAX" by (simp add: INT_MAX_def)
    have nc: "connected f ?d2" "\<not> clash f qe" using two Some by simp_all
    have s1: "v \<notin> set (chain f ?d2)" if "?L v < 0" for v
      using locked_alone(1) [OF z that] g1(3) nc(2) unfolding clash_def by blast
    have s2: "?L v = 0" if v: "?wr2" "named_child (nodes f) ?d2 (the (q_name2 qe)) v" for v
    proof (rule ccontr)
      assume "?L v \<noteq> 0"
      then have "v \<in> set (chain f ?d1) \<or> w1 = Some v" by (rule locked_alone(2) [OF z])
      then show False using v g1(3) nc(2) unfolding clash_def by blast
    qed
    obtain w2 L2 where g2: "try_get_path m (with_locks f ?L) ?d2 (q_name2 qe) ?wr2 True =
        Some (0, Some (whole_path (nodes f) (chain f ?d2) (q_name2 qe)), w2, with_locks f L2)"
      by (rule request_served [OF f g1(2) r2 few2 nc(1) m s1 s2])
    show ?thesis using g1(1) g2 q(2,3) p Some by (cases "q_path1 qe") (simp_all add: queue_element_wakeup_def try_first_def try_second_def)
  qed
qed


text \<open>One thread holds \<open>/c\<close> for writing, and another waits for \<open>/a/b\<close> and \<open>/c\<close>.\<close>

definition both_run :: "(penv \<times> path_op) list" where
  "both_run = [(easy, GetPath 0 1 (Some ''c'') True), (easy, GetPaths 1 3 None False 4 None False)]"

definition both_world :: path_world where
  "both_world = the (run_ops path_exec both_run (path_start tree_state))"

lemma both_reach: "threads_reach tree_state both_run both_world"
proof -
  have "clean_names tree_state" "all_may path_exec (path_may tree_state) both_run (path_start tree_state)"
    "run_ops path_exec both_run (path_start tree_state) \<noteq> None" by code_simp+
  then show ?thesis by (auto simp: threads_reach_def both_world_def)
qed

lemma tree_connected: "connected tree_state 3" "connected tree_state 4"
proof -
  have "case nodes tree_state 2 of None \<Rightarrow> False | Some n \<Rightarrow> n_id n = 3 \<and> upward (nodes tree_state) 2 (chain tree_state 3) 0 \<and> root_at (nodes tree_state) 0"
    "case nodes tree_state 3 of None \<Rightarrow> False | Some n \<Rightarrow> n_id n = 4 \<and> upward (nodes tree_state) 3 (chain tree_state 4) 0 \<and> root_at (nodes tree_state) 0"
    by code_simp+
  then show "connected tree_state 3" "connected tree_state 4" unfolding connected_def upchain_def by (auto split: option.splits)
qed


text \<open>
  An example: a request for two paths with a common node \<open>/a\<close>, first in the queue, has got one path and waits for
  the other; a request to lock \<open>/a\<close> for writing then closes \<open>/a\<close> to all readers. When the last thread gives back its
  path, both requests wait for each other, and no thread holds anything that it could give back.
\<close>

definition stuck_run :: "(penv \<times> path_op) list" where
  "stuck_run = [(easy, GetPath 0 2 (Some ''b'') True), (easy, GetPath 1 4 None False), (easy, GetPaths 2 2 None False 3 None False),
     (easy, FreePath 4 None), (easy, GetPath 3 1 (Some ''a'') True), (easy, FreePath 2 (Some 2))]"

lemma half_locked:
  "all_may path_exec (path_may tree_state) stuck_run (path_start tree_state) \<and>
   map_option (\<lambda>w. (pw_held w, pw_lost w, map q_done (lockq (pw_state w)))) (run_ops path_exec stuck_run (path_start tree_state)) =
     Some ([], [], [False, False])"
  by (rule conjI; code_simp)

text \<open>
  An example: a request for two paths that failed for want of memory, and that is tried again by another
  thread before its own thread runs, may lock one of its paths and then be taken out of the queue with the
  error: no thread holds the lock, and none will give it back.
\<close>

definition lost_run :: "(penv \<times> path_op) list" where
  "lost_run = [(easy, GetPath 0 1 (Some ''a'') True), (easy, GetPath 1 1 (Some ''c'') True), (easy, GetPath 2 1 None False),
     (easy, GetPaths 3 4 None False 3 None False), (hard, FreePath 1 None), (easy, FreePath 1 (Some 3)), (easy, Resume 3)]"

lemma lost_lock:
  "all_may path_exec (path_may tree_state) lost_run (path_start tree_state) \<and>
   map_option pw_lost (run_ops path_exec lost_run (path_start tree_state)) = Some [(4, None)]"
  by (rule conjI; code_simp)

text \<open>
  A request in the middle of the queue that gets only one of its two paths gives the lock back and keeps the
  buffer; the next attempt allocates another one.
\<close>

definition leak_run :: "(penv \<times> path_op) list" where
  "leak_run = [(easy, GetPath 0 1 (Some ''a'') True), (easy, GetPath 1 1 None False), (easy, GetPath 2 3 None False),
     (easy, GetPaths 3 4 None False 3 None False), (easy, FreePath 1 None), (easy, FreePath 1 (Some 1)),
     (easy, Resume 2), (easy, Resume 3), (easy, FreePaths 4 None 3 None), (easy, FreePath 3 None)]"

lemma leaked_buffer:
  "all_may path_exec (path_may tree_state) leak_run (path_start tree_state) \<and>
   map_option (\<lambda>w. (pw_held w, lockq (pw_state w), p_live (pw_state w))) (run_ops path_exec leak_run (path_start tree_state)) = Some ([], [], 1)"
  by (rule conjI; code_simp)

end
