(* ===== verification/Fuse_Ops.thy ===== *)
theory Fuse_Ops
  imports Ramdisk Fuse_Buffer
begin

text \<open>
  The calls of a file system from the FUSE library, \<open>fuse_fs_getattr\<close> to \<open>fuse_fs_fallocate\<close> in
  \<open>fuse-2.9.3/lib/fuse.c\<close>. A file system is a record of optional operations with a user data pointer; each call
  makes that pointer the private data of the context, so that stacked file systems find their own. File
  systems use the present interface (\<open>fs->compat\<close> is 0); debugging output is not modelled, and the \<open>filler\<close> of a
  listing takes every entry.
\<close>

section \<open>Data\<close>

type_synonym cpath = "string option"

record file_info =
  fi_flags :: int
  fi_fh :: nat

record timespec =
  tv_sec :: int
  tv_nsec :: int

record c_flock =
  l_type :: int
  l_whence :: int
  l_start :: int
  l_len :: int
  l_pid :: int

text \<open>What \<open>filler\<close> is given for an entry: a \<open>stat\<close>, or one that is zero but for \<open>st_mode\<close> and \<open>st_ino\<close>.\<close>

datatype attrs = Attr stat | ModeIno int nat

text \<open>
  The state that calls work on: the private data of the context, the memory with the next free address, the
  answers of \<open>malloc\<close> with the number of calls so far, and the state of the file systems themselves.
\<close>

record ('u, 's) fworld =
  private_data :: 'u
  fmem :: memory
  fbrk :: nat
  falloc :: "nat \<Rightarrow> bool"
  fcalls :: nat
  fsys :: 's

type_synonym ('w, 'r) act = "'w \<Rightarrow> ('r \<times> 'w) option"

definition fmalloc :: "nat \<Rightarrow> ('u, 's) fworld \<Rightarrow> nat option \<times> ('u, 's) fworld" where
  "fmalloc n w = (if falloc w (fcalls w) then (Some (fbrk w), w\<lparr>fbrk := fbrk w + n, fcalls := fcalls w + 1\<rparr>)
     else (None, w\<lparr>fcalls := fcalls w + 1\<rparr>))"

text \<open>
  The operations of a file system. Paths may be \<open>NULL\<close>; results that C stores through pointers are returned, and
  buffers are addresses.
\<close>

record 'w fuse_operations =
  op_getattr :: "(cpath \<Rightarrow> ('w, int \<times> stat option) act) option"
  op_fgetattr :: "(cpath \<Rightarrow> file_info \<Rightarrow> ('w, int \<times> stat option) act) option"
  op_access :: "(cpath \<Rightarrow> int \<Rightarrow> ('w, int) act) option"
  op_readlink :: "(cpath \<Rightarrow> nat \<Rightarrow> nat \<Rightarrow> ('w, int) act) option"
  op_opendir :: "(cpath \<Rightarrow> file_info \<Rightarrow> ('w, int \<times> file_info) act) option"
  op_readdir :: "(cpath \<Rightarrow> int \<Rightarrow> file_info \<Rightarrow> ('w, int \<times> (string \<times> attrs) list) act) option"
  op_releasedir :: "(cpath \<Rightarrow> file_info \<Rightarrow> ('w, int) act) option"
  op_mknod :: "(cpath \<Rightarrow> nat \<Rightarrow> nat \<Rightarrow> ('w, int) act) option"
  op_mkdir :: "(cpath \<Rightarrow> nat \<Rightarrow> ('w, int) act) option"
  op_unlink :: "(cpath \<Rightarrow> ('w, int) act) option"
  op_rmdir :: "(cpath \<Rightarrow> ('w, int) act) option"
  op_symlink :: "(string \<Rightarrow> cpath \<Rightarrow> ('w, int) act) option"
  op_rename :: "(cpath \<Rightarrow> cpath \<Rightarrow> ('w, int) act) option"
  op_link :: "(cpath \<Rightarrow> cpath \<Rightarrow> ('w, int) act) option"
  op_chmod :: "(cpath \<Rightarrow> nat \<Rightarrow> ('w, int) act) option"
  op_chown :: "(cpath \<Rightarrow> nat \<Rightarrow> nat \<Rightarrow> ('w, int) act) option"
  op_truncate :: "(cpath \<Rightarrow> int \<Rightarrow> ('w, int) act) option"
  op_ftruncate :: "(cpath \<Rightarrow> int \<Rightarrow> file_info \<Rightarrow> ('w, int) act) option"
  op_utimens :: "(cpath \<Rightarrow> (timespec \<times> timespec) \<Rightarrow> ('w, int) act) option"
  op_create :: "(cpath \<Rightarrow> nat \<Rightarrow> file_info \<Rightarrow> ('w, int \<times> file_info) act) option"
  op_open :: "(cpath \<Rightarrow> file_info \<Rightarrow> ('w, int \<times> file_info) act) option"
  op_read_buf :: "(cpath \<Rightarrow> nat \<Rightarrow> int \<Rightarrow> file_info \<Rightarrow> ('w, int \<times> fuse_bufvec option) act) option"
  op_write_buf :: "(cpath \<Rightarrow> fuse_bufvec \<Rightarrow> int \<Rightarrow> file_info \<Rightarrow> ('w, int) act) option"
  op_statfs :: "(cpath \<Rightarrow> ('w, int \<times> statvfs option) act) option"
  op_flush :: "(cpath \<Rightarrow> file_info \<Rightarrow> ('w, int) act) option"
  op_release :: "(cpath \<Rightarrow> file_info \<Rightarrow> ('w, int) act) option"
  op_fsync :: "(cpath \<Rightarrow> int \<Rightarrow> file_info \<Rightarrow> ('w, int) act) option"
  op_fsyncdir :: "(cpath \<Rightarrow> int \<Rightarrow> file_info \<Rightarrow> ('w, int) act) option"
  op_setxattr :: "(cpath \<Rightarrow> string \<Rightarrow> nat \<Rightarrow> nat \<Rightarrow> int \<Rightarrow> ('w, int) act) option"
  op_getxattr :: "(cpath \<Rightarrow> string \<Rightarrow> nat \<Rightarrow> nat \<Rightarrow> ('w, int) act) option"
  op_listxattr :: "(cpath \<Rightarrow> nat \<Rightarrow> nat \<Rightarrow> ('w, int) act) option"
  op_removexattr :: "(cpath \<Rightarrow> string \<Rightarrow> ('w, int) act) option"
  op_lock :: "(cpath \<Rightarrow> file_info \<Rightarrow> int \<Rightarrow> c_flock \<Rightarrow> ('w, int \<times> c_flock) act) option"
  op_flock :: "(cpath \<Rightarrow> file_info \<Rightarrow> int \<Rightarrow> ('w, int) act) option"
  op_bmap :: "(cpath \<Rightarrow> nat \<Rightarrow> nat \<Rightarrow> ('w, int \<times> nat) act) option"
  op_ioctl :: "(cpath \<Rightarrow> int \<Rightarrow> nat \<Rightarrow> file_info \<Rightarrow> nat \<Rightarrow> nat \<Rightarrow> ('w, int) act) option"
  op_poll :: "(cpath \<Rightarrow> file_info \<Rightarrow> (nat option) \<Rightarrow> nat \<Rightarrow> ('w, int \<times> nat) act) option"
  op_fallocate :: "(cpath \<Rightarrow> int \<Rightarrow> int \<Rightarrow> int \<Rightarrow> file_info \<Rightarrow> ('w, int) act) option"
  op_getdir :: "(cpath \<Rightarrow> ('w, int \<times> (string \<times> int \<times> nat) list) act) option"
  op_utime :: "(cpath \<Rightarrow> int \<Rightarrow> int \<Rightarrow> ('w, int) act) option"
  op_read :: "(cpath \<Rightarrow> nat \<Rightarrow> nat \<Rightarrow> int \<Rightarrow> file_info \<Rightarrow> ('w, int) act) option"
  op_write :: "(cpath \<Rightarrow> nat \<Rightarrow> nat \<Rightarrow> int \<Rightarrow> file_info \<Rightarrow> ('w, int) act) option"

record ('u, 's) fuse_fs =
  fs_op :: "('u, 's) fworld fuse_operations"
  fs_user_data :: 'u

definition enter :: "('u, 's) fuse_fs \<Rightarrow> ('u, 's) fworld \<Rightarrow> ('u, 's) fworld" where
  "enter fs w = w\<lparr>private_data := fs_user_data fs\<rparr>"

section \<open>Calls\<close>

definition fuse_fs_getattr :: "('u, 's) fuse_fs \<Rightarrow> cpath \<Rightarrow> (('u, 's) fworld, int \<times> stat option) act" where
  "fuse_fs_getattr fs path w = (let w1 = enter fs w in case op_getattr (fs_op fs) of
     Some f \<Rightarrow> f path w1
   | None \<Rightarrow> Some ((- ENOSYS, None), w1))"

definition fuse_fs_fgetattr :: "('u, 's) fuse_fs \<Rightarrow> cpath \<Rightarrow> file_info \<Rightarrow> (('u, 's) fworld, int \<times> stat option) act" where
  "fuse_fs_fgetattr fs path fi w = (let w1 = enter fs w in case (op_fgetattr (fs_op fs), op_getattr (fs_op fs)) of
     (Some f, _) \<Rightarrow> f path fi w1
   | (None, Some f) \<Rightarrow> if path \<noteq> None then f path w1 else Some ((- ENOSYS, None), w1)
   | (None, None) \<Rightarrow> Some ((- ENOSYS, None), w1))"

definition fuse_fs_rename :: "('u, 's) fuse_fs \<Rightarrow> cpath \<Rightarrow> cpath \<Rightarrow> (('u, 's) fworld, int) act" where
  "fuse_fs_rename fs oldpath newpath w = (let w1 = enter fs w in case op_rename (fs_op fs) of
     Some f \<Rightarrow> f oldpath newpath w1
   | None \<Rightarrow> Some (- ENOSYS, w1))"

definition fuse_fs_unlink :: "('u, 's) fuse_fs \<Rightarrow> cpath \<Rightarrow> (('u, 's) fworld, int) act" where
  "fuse_fs_unlink fs path w = (let w1 = enter fs w in case op_unlink (fs_op fs) of
     Some f \<Rightarrow> f path w1
   | None \<Rightarrow> Some (- ENOSYS, w1))"

definition fuse_fs_rmdir :: "('u, 's) fuse_fs \<Rightarrow> cpath \<Rightarrow> (('u, 's) fworld, int) act" where
  "fuse_fs_rmdir fs path w = (let w1 = enter fs w in case op_rmdir (fs_op fs) of
     Some f \<Rightarrow> f path w1
   | None \<Rightarrow> Some (- ENOSYS, w1))"

definition fuse_fs_symlink :: "('u, 's) fuse_fs \<Rightarrow> string \<Rightarrow> cpath \<Rightarrow> (('u, 's) fworld, int) act" where
  "fuse_fs_symlink fs linkname path w = (let w1 = enter fs w in case op_symlink (fs_op fs) of
     Some f \<Rightarrow> f linkname path w1
   | None \<Rightarrow> Some (- ENOSYS, w1))"

definition fuse_fs_link :: "('u, 's) fuse_fs \<Rightarrow> cpath \<Rightarrow> cpath \<Rightarrow> (('u, 's) fworld, int) act" where
  "fuse_fs_link fs oldpath newpath w = (let w1 = enter fs w in case op_link (fs_op fs) of
     Some f \<Rightarrow> f oldpath newpath w1
   | None \<Rightarrow> Some (- ENOSYS, w1))"

definition fuse_fs_release :: "('u, 's) fuse_fs \<Rightarrow> cpath \<Rightarrow> file_info \<Rightarrow> (('u, 's) fworld, int) act" where
  "fuse_fs_release fs path fi w = (let w1 = enter fs w in case op_release (fs_op fs) of
     Some f \<Rightarrow> f path fi w1
   | None \<Rightarrow> Some (0, w1))"

definition fuse_fs_opendir :: "('u, 's) fuse_fs \<Rightarrow> cpath \<Rightarrow> file_info \<Rightarrow> (('u, 's) fworld, int \<times> file_info) act" where
  "fuse_fs_opendir fs path fi w = (let w1 = enter fs w in case op_opendir (fs_op fs) of
     Some f \<Rightarrow> f path fi w1
   | None \<Rightarrow> Some ((0, fi), w1))"

definition fuse_fs_open :: "('u, 's) fuse_fs \<Rightarrow> cpath \<Rightarrow> file_info \<Rightarrow> (('u, 's) fworld, int \<times> file_info) act" where
  "fuse_fs_open fs path fi w = (let w1 = enter fs w in case op_open (fs_op fs) of
     Some f \<Rightarrow> f path fi w1
   | None \<Rightarrow> Some ((0, fi), w1))"

definition mem_bufvec :: "nat \<Rightarrow> nat \<Rightarrow> fuse_bufvec" where
  "mem_bufvec mem sz = (FUSE_BUFVEC_INIT sz)\<lparr>vec_buf := [\<lparr>buf_size = sz, buf_flags = 0, buf_mem = mem, buf_fd = - 1, buf_pos = 0\<rparr>]\<rparr>"

text \<open>Without \<open>read_buf\<close> a vector and its memory are allocated, and \<open>read\<close> fills it.\<close>

definition fuse_fs_read_buf :: "('u, 's) fuse_fs \<Rightarrow> cpath \<Rightarrow> nat \<Rightarrow> int \<Rightarrow> file_info \<Rightarrow> (('u, 's) fworld, int \<times> fuse_bufvec option) act" where
  "fuse_fs_read_buf fs path sz off fi w = (let w1 = enter fs w in case (op_read_buf (fs_op fs), op_read (fs_op fs)) of
     (Some f, _) \<Rightarrow> do {
       ((res, buf), w2) \<leftarrow> f path sz off fi w1;
       Some ((if res < 0 then res else 0, buf), w2) }
   | (None, Some f) \<Rightarrow>
       (case fmalloc 0 w1 of (None, w2) \<Rightarrow> Some ((- ENOMEM, None), w2) | (Some _, w2) \<Rightarrow>
       (case fmalloc sz w2 of (None, w3) \<Rightarrow> Some ((- ENOMEM, None), w3) | (Some mem, w3) \<Rightarrow> do {
          (res, w4) \<leftarrow> f path mem sz off fi w3;
          Some (if res < 0 then (res, Some (mem_bufvec mem sz)) else (0, Some (mem_bufvec mem (nat res))), w4) }))
   | (None, None) \<Rightarrow> Some ((- ENOSYS, None), w1))"

text \<open>\<open>fuse_fs_read\<close> copies the bytes to \<open>mem\<close>; the number of bytes is converted to an \<open>int\<close>.\<close>

definition fuse_fs_read :: "'s sysio \<Rightarrow> ('u, 's) fuse_fs \<Rightarrow> cpath \<Rightarrow> nat \<Rightarrow> nat \<Rightarrow> int \<Rightarrow> file_info \<Rightarrow> (('u, 's) fworld, int) act" where
  "fuse_fs_read io fs path mem sz off fi w = do {
     ((res, buf), w1) \<leftarrow> fuse_fs_read_buf fs path sz off fi w;
     if res = 0 then do {
       b \<leftarrow> buf;
       (n, _, _, m, s) \<leftarrow> fuse_buf_copy io False (mem_bufvec mem sz) b 0 (fmem w1, fsys w1);
       Some (int32 n, w1\<lparr>fmem := m, fsys := s\<rparr>) }
     else Some (res, w1) }"

text \<open>Several buffers, or a descriptor, are collected in memory for a file system with \<open>write\<close> only.\<close>

definition write_flat :: "'s sysio \<Rightarrow> (cpath \<Rightarrow> nat \<Rightarrow> nat \<Rightarrow> int \<Rightarrow> file_info \<Rightarrow> (('u, 's) fworld, int) act) \<Rightarrow> cpath \<Rightarrow> fuse_bufvec \<Rightarrow> int \<Rightarrow> file_info \<Rightarrow> (('u, 's) fworld, int) act" where
  "write_flat io wr path buf off fi w = (case fmalloc (fuse_buf_size buf) w of
     (None, w1) \<Rightarrow> Some (- ENOMEM, w1)
   | (Some mem, w1) \<Rightarrow> do {
       (n, _, _, m, s) \<leftarrow> fuse_buf_copy io False (mem_bufvec mem (fuse_buf_size buf)) buf 0 (fmem w1, fsys w1);
       let w2 = w1\<lparr>fmem := m, fsys := s\<rparr>;
       if int32 n \<le> 0 then Some (int32 n, w2)
       else wr path mem (nat (int32 n)) off fi w2 })"

definition fuse_fs_write_buf :: "'s sysio \<Rightarrow> ('u, 's) fuse_fs \<Rightarrow> cpath \<Rightarrow> fuse_bufvec \<Rightarrow> int \<Rightarrow> file_info \<Rightarrow> (('u, 's) fworld, int) act" where
  "fuse_fs_write_buf io fs path buf off fi w = (let w1 = enter fs w in
     if op_write_buf (fs_op fs) = None \<and> op_write (fs_op fs) = None then Some (- ENOSYS, w1)
     else if vec_idx buf \<noteq> 0 \<or> vec_off buf \<noteq> 0 then None
     else case op_write_buf (fs_op fs) of
       Some f \<Rightarrow> f path buf off fi w1
     | None \<Rightarrow>
         (case vec_buf buf of
            [b] \<Rightarrow> if \<not> has_flag (buf_flags b) FUSE_BUF_IS_FD
              then the (op_write (fs_op fs)) path (buf_mem b) (buf_size b) off fi w1
              else write_flat io (the (op_write (fs_op fs))) path buf off fi w1
          | _ \<Rightarrow> write_flat io (the (op_write (fs_op fs))) path buf off fi w1))"

definition fuse_fs_write :: "'s sysio \<Rightarrow> ('u, 's) fuse_fs \<Rightarrow> cpath \<Rightarrow> nat \<Rightarrow> nat \<Rightarrow> int \<Rightarrow> file_info \<Rightarrow> (('u, 's) fworld, int) act" where
  "fuse_fs_write io fs path mem sz off fi w = fuse_fs_write_buf io fs path (mem_bufvec mem sz) off fi w"

definition fuse_fs_fsync :: "('u, 's) fuse_fs \<Rightarrow> cpath \<Rightarrow> int \<Rightarrow> file_info \<Rightarrow> (('u, 's) fworld, int) act" where
  "fuse_fs_fsync fs path datasync fi w = (let w1 = enter fs w in case op_fsync (fs_op fs) of
     Some f \<Rightarrow> f path datasync fi w1
   | None \<Rightarrow> Some (- ENOSYS, w1))"

definition fuse_fs_fsyncdir :: "('u, 's) fuse_fs \<Rightarrow> cpath \<Rightarrow> int \<Rightarrow> file_info \<Rightarrow> (('u, 's) fworld, int) act" where
  "fuse_fs_fsyncdir fs path datasync fi w = (let w1 = enter fs w in case op_fsyncdir (fs_op fs) of
     Some f \<Rightarrow> f path datasync fi w1
   | None \<Rightarrow> Some (- ENOSYS, w1))"

definition fuse_fs_flush :: "('u, 's) fuse_fs \<Rightarrow> cpath \<Rightarrow> file_info \<Rightarrow> (('u, 's) fworld, int) act" where
  "fuse_fs_flush fs path fi w = (let w1 = enter fs w in case op_flush (fs_op fs) of
     Some f \<Rightarrow> f path fi w1
   | None \<Rightarrow> Some (- ENOSYS, w1))"

text \<open>Without \<open>statfs\<close> only two members of the result are set; the others are those of the caller, zeroes here.\<close>

definition default_statvfs :: statvfs where
  "default_statvfs = \<lparr>f_namemax = 255, f_frsize = 0, f_bsize = 512, f_blocks = 0, f_bavail = 0, f_bfree = 0\<rparr>"

definition fuse_fs_statfs :: "('u, 's) fuse_fs \<Rightarrow> cpath \<Rightarrow> (('u, 's) fworld, int \<times> statvfs option) act" where
  "fuse_fs_statfs fs path w = (let w1 = enter fs w in case op_statfs (fs_op fs) of
     Some f \<Rightarrow> f path w1
   | None \<Rightarrow> Some ((0, Some default_statvfs), w1))"

definition fuse_fs_releasedir :: "('u, 's) fuse_fs \<Rightarrow> cpath \<Rightarrow> file_info \<Rightarrow> (('u, 's) fworld, int) act" where
  "fuse_fs_releasedir fs path fi w = (let w1 = enter fs w in case op_releasedir (fs_op fs) of
     Some f \<Rightarrow> f path fi w1
   | None \<Rightarrow> Some (0, w1))"

definition fill_dir_old :: "string \<times> int \<times> nat \<Rightarrow> string \<times> attrs" where
  "fill_dir_old = (\<lambda>(name, type, ino). (name, ModeIno (type * 4096) ino))"

text \<open>\<open>filler\<close> takes every entry.\<close>

definition fuse_fs_readdir :: "('u, 's) fuse_fs \<Rightarrow> cpath \<Rightarrow> int \<Rightarrow> file_info \<Rightarrow> (('u, 's) fworld, int \<times> (string \<times> attrs) list) act" where
  "fuse_fs_readdir fs path off fi w = (let w1 = enter fs w in case (op_readdir (fs_op fs), op_getdir (fs_op fs)) of
     (Some f, _) \<Rightarrow> f path off fi w1
   | (None, Some f) \<Rightarrow> do {
       ((err, entries), w2) \<leftarrow> f path w1;
       Some ((err, map fill_dir_old entries), w2) }
   | (None, None) \<Rightarrow> Some ((- ENOSYS, []), w1))"

definition fuse_fs_create :: "('u, 's) fuse_fs \<Rightarrow> cpath \<Rightarrow> nat \<Rightarrow> file_info \<Rightarrow> (('u, 's) fworld, int \<times> file_info) act" where
  "fuse_fs_create fs path mode fi w = (let w1 = enter fs w in case op_create (fs_op fs) of
     Some f \<Rightarrow> f path mode fi w1
   | None \<Rightarrow> Some ((- ENOSYS, fi), w1))"

definition fuse_fs_lock_call :: "('u, 's) fuse_fs \<Rightarrow> cpath \<Rightarrow> file_info \<Rightarrow> int \<Rightarrow> c_flock \<Rightarrow> (('u, 's) fworld, int \<times> c_flock) act" where
  "fuse_fs_lock_call fs path fi cmd lock w = (let w1 = enter fs w in case op_lock (fs_op fs) of
     Some f \<Rightarrow> f path fi cmd lock w1
   | None \<Rightarrow> Some ((- ENOSYS, lock), w1))"

definition fuse_fs_flock :: "('u, 's) fuse_fs \<Rightarrow> cpath \<Rightarrow> file_info \<Rightarrow> int \<Rightarrow> (('u, 's) fworld, int) act" where
  "fuse_fs_flock fs path fi op w = (let w1 = enter fs w in case op_flock (fs_op fs) of
     Some f \<Rightarrow> f path fi op w1
   | None \<Rightarrow> Some (- ENOSYS, w1))"

definition fuse_fs_chown :: "('u, 's) fuse_fs \<Rightarrow> cpath \<Rightarrow> nat \<Rightarrow> nat \<Rightarrow> (('u, 's) fworld, int) act" where
  "fuse_fs_chown fs path uid gid w = (let w1 = enter fs w in case op_chown (fs_op fs) of
     Some f \<Rightarrow> f path uid gid w1
   | None \<Rightarrow> Some (- ENOSYS, w1))"

definition fuse_fs_truncate :: "('u, 's) fuse_fs \<Rightarrow> cpath \<Rightarrow> int \<Rightarrow> (('u, 's) fworld, int) act" where
  "fuse_fs_truncate fs path sz w = (let w1 = enter fs w in case op_truncate (fs_op fs) of
     Some f \<Rightarrow> f path sz w1
   | None \<Rightarrow> Some (- ENOSYS, w1))"

definition fuse_fs_ftruncate :: "('u, 's) fuse_fs \<Rightarrow> cpath \<Rightarrow> int \<Rightarrow> file_info \<Rightarrow> (('u, 's) fworld, int) act" where
  "fuse_fs_ftruncate fs path sz fi w = (let w1 = enter fs w in case (op_ftruncate (fs_op fs), op_truncate (fs_op fs)) of
     (Some f, _) \<Rightarrow> f path sz fi w1
   | (None, Some f) \<Rightarrow> if path \<noteq> None then f path sz w1 else Some (- ENOSYS, w1)
   | (None, None) \<Rightarrow> Some (- ENOSYS, w1))"

definition fuse_fs_utimens :: "('u, 's) fuse_fs \<Rightarrow> cpath \<Rightarrow> (timespec \<times> timespec) \<Rightarrow> (('u, 's) fworld, int) act" where
  "fuse_fs_utimens fs path tv w = (let w1 = enter fs w in case (op_utimens (fs_op fs), op_utime (fs_op fs)) of
     (Some f, _) \<Rightarrow> f path tv w1
   | (None, Some f) \<Rightarrow> f path (tv_sec (fst tv)) (tv_sec (snd tv)) w1
   | (None, None) \<Rightarrow> Some (- ENOSYS, w1))"

definition fuse_fs_access :: "('u, 's) fuse_fs \<Rightarrow> cpath \<Rightarrow> int \<Rightarrow> (('u, 's) fworld, int) act" where
  "fuse_fs_access fs path amask w = (let w1 = enter fs w in case op_access (fs_op fs) of
     Some f \<Rightarrow> f path amask w1
   | None \<Rightarrow> Some (- ENOSYS, w1))"

definition fuse_fs_readlink :: "('u, 's) fuse_fs \<Rightarrow> cpath \<Rightarrow> nat \<Rightarrow> nat \<Rightarrow> (('u, 's) fworld, int) act" where
  "fuse_fs_readlink fs path buf sz w = (let w1 = enter fs w in case op_readlink (fs_op fs) of
     Some f \<Rightarrow> f path buf sz w1
   | None \<Rightarrow> Some (- ENOSYS, w1))"

definition fuse_fs_mknod :: "('u, 's) fuse_fs \<Rightarrow> cpath \<Rightarrow> nat \<Rightarrow> nat \<Rightarrow> (('u, 's) fworld, int) act" where
  "fuse_fs_mknod fs path mode rdev w = (let w1 = enter fs w in case op_mknod (fs_op fs) of
     Some f \<Rightarrow> f path mode rdev w1
   | None \<Rightarrow> Some (- ENOSYS, w1))"

definition fuse_fs_mkdir :: "('u, 's) fuse_fs \<Rightarrow> cpath \<Rightarrow> nat \<Rightarrow> (('u, 's) fworld, int) act" where
  "fuse_fs_mkdir fs path mode w = (let w1 = enter fs w in case op_mkdir (fs_op fs) of
     Some f \<Rightarrow> f path mode w1
   | None \<Rightarrow> Some (- ENOSYS, w1))"

definition fuse_fs_setxattr :: "('u, 's) fuse_fs \<Rightarrow> cpath \<Rightarrow> string \<Rightarrow> nat \<Rightarrow> nat \<Rightarrow> int \<Rightarrow> (('u, 's) fworld, int) act" where
  "fuse_fs_setxattr fs path name value sz flags w = (let w1 = enter fs w in case op_setxattr (fs_op fs) of
     Some f \<Rightarrow> f path name value sz flags w1
   | None \<Rightarrow> Some (- ENOSYS, w1))"

definition fuse_fs_getxattr :: "('u, 's) fuse_fs \<Rightarrow> cpath \<Rightarrow> string \<Rightarrow> nat \<Rightarrow> nat \<Rightarrow> (('u, 's) fworld, int) act" where
  "fuse_fs_getxattr fs path name value sz w = (let w1 = enter fs w in case op_getxattr (fs_op fs) of
     Some f \<Rightarrow> f path name value sz w1
   | None \<Rightarrow> Some (- ENOSYS, w1))"

definition fuse_fs_listxattr :: "('u, 's) fuse_fs \<Rightarrow> cpath \<Rightarrow> nat \<Rightarrow> nat \<Rightarrow> (('u, 's) fworld, int) act" where
  "fuse_fs_listxattr fs path lst sz w = (let w1 = enter fs w in case op_listxattr (fs_op fs) of
     Some f \<Rightarrow> f path lst sz w1
   | None \<Rightarrow> Some (- ENOSYS, w1))"

definition fuse_fs_bmap :: "('u, 's) fuse_fs \<Rightarrow> cpath \<Rightarrow> nat \<Rightarrow> nat \<Rightarrow> (('u, 's) fworld, int \<times> nat) act" where
  "fuse_fs_bmap fs path blocksize idx w = (let w1 = enter fs w in case op_bmap (fs_op fs) of
     Some f \<Rightarrow> f path blocksize idx w1
   | None \<Rightarrow> Some ((- ENOSYS, idx), w1))"

definition fuse_fs_removexattr :: "('u, 's) fuse_fs \<Rightarrow> cpath \<Rightarrow> string \<Rightarrow> (('u, 's) fworld, int) act" where
  "fuse_fs_removexattr fs path name w = (let w1 = enter fs w in case op_removexattr (fs_op fs) of
     Some f \<Rightarrow> f path name w1
   | None \<Rightarrow> Some (- ENOSYS, w1))"

definition fuse_fs_ioctl :: "('u, 's) fuse_fs \<Rightarrow> cpath \<Rightarrow> int \<Rightarrow> nat \<Rightarrow> file_info \<Rightarrow> nat \<Rightarrow> nat \<Rightarrow> (('u, 's) fworld, int) act" where
  "fuse_fs_ioctl fs path cmd arg fi flags data w = (let w1 = enter fs w in case op_ioctl (fs_op fs) of
     Some f \<Rightarrow> f path cmd arg fi flags data w1
   | None \<Rightarrow> Some (- ENOSYS, w1))"

definition fuse_fs_poll :: "('u, 's) fuse_fs \<Rightarrow> cpath \<Rightarrow> file_info \<Rightarrow> (nat option) \<Rightarrow> nat \<Rightarrow> (('u, 's) fworld, int \<times> nat) act" where
  "fuse_fs_poll fs path fi ph idx w = (let w1 = enter fs w in case op_poll (fs_op fs) of
     Some f \<Rightarrow> f path fi ph idx w1
   | None \<Rightarrow> Some ((- ENOSYS, idx), w1))"

definition fuse_fs_fallocate :: "('u, 's) fuse_fs \<Rightarrow> cpath \<Rightarrow> int \<Rightarrow> int \<Rightarrow> int \<Rightarrow> file_info \<Rightarrow> (('u, 's) fworld, int) act" where
  "fuse_fs_fallocate fs path mode off len fi w = (let w1 = enter fs w in case op_fallocate (fs_op fs) of
     Some f \<Rightarrow> f path mode off len fi w1
   | None \<Rightarrow> Some (- ENOSYS, w1))"

definition fuse_fs_chmod :: "('u, 's) fuse_fs \<Rightarrow> cpath \<Rightarrow> nat \<Rightarrow> (('u, 's) fworld, int) act" where
  "fuse_fs_chmod fs path mode w = (let w1 = enter fs w in case op_chmod (fs_op fs) of
     Some f \<Rightarrow> f path mode w1
   | None \<Rightarrow> Some (- ENOSYS, w1))"

end
