(* ===== verification/Fuse_Subdir.thy ===== *)
theory Fuse_Subdir
  imports Fuse_Ops
begin

text \<open>
  The module \<open>subdir\<close> of the FUSE library, \<open>fuse-2.9.3/lib/modules/subdir.c\<close>, a file system that is stacked on
  another one and puts a base directory in front of all paths. Absolute symbolic links that stay inside the
  base directory can be made relative.
\<close>

section \<open>Paths\<close>

text \<open>\<open>nxt\<close>, the file system below (\<open>d->next\<close>), is an argument of the operations.\<close>

record subdir =
  sd_base :: string
  sd_baselen :: nat
  sd_rellinks :: bool

text \<open>The user data of file systems: of this module, or of others.\<close>

datatype 'x udata = Sub subdir | App 'x

type_synonym ('x, 's) sworld = "('x udata, 's) fworld"

definition subdir_get :: "('x, 's) sworld \<Rightarrow> subdir option" where
  "subdir_get w = (case private_data w of Sub d \<Rightarrow> Some d | App _ \<Rightarrow> None)"

text \<open>The length of the new path is an \<open>unsigned\<close>; writing behind the allocated bytes is undefined.\<close>

definition subdir_addpath :: "subdir \<Rightarrow> cpath \<Rightarrow> (('x, 's) sworld, int \<times> cpath) act" where
  "subdir_addpath d path w = (case path of
     None \<Rightarrow> Some ((0, None), w)
   | Some p \<Rightarrow>
       let newlen = (sd_baselen d + length p) mod 2 ^ 32 in
       (case fmalloc ((newlen + 2) mod 2 ^ 32) w of
          (None, w1) \<Rightarrow> Some ((- ENOMEM, None), w1)
        | (Some _, w1) \<Rightarrow>
            let p1 = (if p \<noteq> [] \<and> hd p = CHR ''/'' then tl p else p);
                newpath = sd_base d @ p1
            in if (newlen + 2) mod 2 ^ 32 < length newpath + 1 then None
               else Some ((0, Some (if newpath = [] then ''.'' else newpath)), w1)))"

definition subdir_getattr :: "('x udata, 's) fuse_fs \<Rightarrow> cpath \<Rightarrow> (('x, 's) sworld, int \<times> stat option) act" where
  "subdir_getattr nxt path w = do {
     d \<leftarrow> subdir_get w;
     ((err, newpath), w1) \<leftarrow> subdir_addpath d path w;
     if err \<noteq> 0 then Some ((err, None), w1) else fuse_fs_getattr nxt newpath w1 }"

definition subdir_fgetattr :: "('x udata, 's) fuse_fs \<Rightarrow> cpath \<Rightarrow> file_info \<Rightarrow> (('x, 's) sworld, int \<times> stat option) act" where
  "subdir_fgetattr nxt path fi w = do {
     d \<leftarrow> subdir_get w;
     ((err, newpath), w1) \<leftarrow> subdir_addpath d path w;
     if err \<noteq> 0 then Some ((err, None), w1) else fuse_fs_fgetattr nxt newpath fi w1 }"

definition subdir_access :: "('x udata, 's) fuse_fs \<Rightarrow> cpath \<Rightarrow> int \<Rightarrow> (('x, 's) sworld, int) act" where
  "subdir_access nxt path amask w = do {
     d \<leftarrow> subdir_get w;
     ((err, newpath), w1) \<leftarrow> subdir_addpath d path w;
     if err \<noteq> 0 then Some (err, w1) else fuse_fs_access nxt newpath amask w1 }"

section \<open>Links\<close>

text \<open>Pointers into strings are the rest of the string; \<open>NUL\<close> ends it.\<close>

definition skip_slashes :: "string \<Rightarrow> string" where
  "skip_slashes = dropWhile (\<lambda>c. c = CHR ''/'')"

definition skip_name :: "string \<Rightarrow> string" where
  "skip_name = dropWhile (\<lambda>c. c \<noteq> CHR ''/'')"

lemma skip_shorter: "length (skip_slashes p) \<le> length p" "length (skip_name p) \<le> length p"
  by (simp_all add: skip_slashes_def skip_name_def length_dropWhile_le)

lemma skip_name_less: "p \<noteq> [] \<Longrightarrow> hd p \<noteq> CHR ''/'' \<Longrightarrow> length (skip_name p) < length p"
  by (cases p) (auto simp: skip_name_def intro: le_less_trans [OF length_dropWhile_le])

lemma skip_less: "p \<noteq> [] \<Longrightarrow> hd p = CHR ''/'' \<Longrightarrow> length (skip_slashes p) < length p"
  by (cases p) (auto simp: skip_slashes_def intro: le_less_trans [OF length_dropWhile_le])

text \<open>The loop of \<open>count_components\<close>, at the start of a name or at the end.\<close>

function comp_loop :: "string \<Rightarrow> nat" where
  "comp_loop p = (if p = [] then 0 else 1 + comp_loop (skip_slashes (skip_name p)))"
  by pat_completeness auto
termination
proof (relation "measure length")
  fix p :: string
  assume p: "p \<noteq> []"
  show "(skip_slashes (skip_name p), p) \<in> measure length"
  proof (cases "hd p = CHR ''/''")
    case True
    then have "skip_name p = p" using p by (cases p) (simp_all add: skip_name_def)
    then show ?thesis using skip_less [OF p True] by simp
  next
    case False
    then show ?thesis using le_less_trans [OF skip_shorter(1) skip_name_less [OF p]] by simp
  qed
qed simp

declare comp_loop.simps [simp del]

definition count_components :: "string \<Rightarrow> nat" where
  "count_components p = comp_loop (skip_slashes p)"

fun same_name :: "string \<Rightarrow> string \<Rightarrow> string \<times> string" where
  "same_name (a # s) (b # t) = (if a = b \<and> a \<noteq> CHR ''/'' then same_name s t else (a # s, b # t))"
| "same_name s t = (s, t)"

definition go_on :: "string \<Rightarrow> string \<Rightarrow> bool" where
  "go_on s t \<longleftrightarrow> s \<noteq> [] \<and> t \<noteq> [] \<and> hd s = hd t \<or> s = [] \<and> t \<noteq> [] \<and> hd t = CHR ''/'' \<or> s \<noteq> [] \<and> hd s = CHR ''/'' \<and> t = []"

lemma same_name_shorter: "same_name s t = (s', t') \<Longrightarrow> length s' \<le> length s \<and> length t' \<le> length t"
  by (induction s t rule: same_name.induct) (auto split: if_splits)

lemma same_name_stops: "same_name s t = (s', t') \<Longrightarrow> s' \<noteq> [] \<Longrightarrow> t' \<noteq> [] \<Longrightarrow> hd s' = hd t' \<Longrightarrow> hd s' = CHR ''/''"
  by (induction s t rule: same_name.induct) (auto split: if_splits)

lemma go_on_progress:
  assumes n: "same_name s t = (s1, t1)" and go: "go_on s1 t1"
  shows "length (skip_slashes s1) + length (skip_slashes t1) < length s1 + length t1"
proof -
  have "(s1 = [] \<or> hd s1 = CHR ''/'') \<and> (t1 = [] \<or> hd t1 = CHR ''/'') \<and> (s1 \<noteq> [] \<or> t1 \<noteq> [])"
    using go same_name_stops [OF n] by (auto simp: go_on_def)
  then show ?thesis using skip_less [of s1] skip_less [of t1] skip_shorter(1) [of s1] skip_shorter(1) [of t1] by (cases "s1 = []"; cases "t1 = []") auto
qed

text \<open>The loop of \<open>strip_common\<close>, from the position where slashes are skipped.\<close>

function strip_common :: "string \<Rightarrow> string \<Rightarrow> string \<times> string" where
  "strip_common s0 t0 =
     (let s = skip_slashes s0; t = skip_slashes t0; (s1, t1) = same_name s t
      in if go_on s1 t1 then strip_common s1 t1 else (s, t))"
  by pat_completeness auto
termination
proof (relation "measure (\<lambda>(s, t). length (skip_slashes s) + length (skip_slashes t))")
  fix s0 t0 s t x s1 t1
  assume st: "s = skip_slashes s0" "t = skip_slashes t0" and x: "x = same_name s t" "(s1, t1) = x" and go: "go_on s1 t1"
  have n: "same_name s t = (s1, t1)" using x by simp
  then show "((s1, t1), s0, t0) \<in> measure (\<lambda>(s, t). length (skip_slashes s) + length (skip_slashes t))"
    using same_name_shorter [OF n] go_on_progress [OF n go] st by auto
qed simp

declare strip_common.simps [simp del]

text \<open>
  \<open>transform_symlink\<close> on the \<open>sz\<close> bytes at \<open>buf\<close>, where the link is stored with its \<open>NUL\<close>; a link without
  one is read past its end.
\<close>

definition c_string :: "memory \<Rightarrow> nat \<Rightarrow> nat \<Rightarrow> string option" where
  "c_string m a n = (let s = mem_get m a n in if CHR 0x00 \<in> set s then Some (takeWhile (\<lambda>c. c \<noteq> CHR 0x00) s) else None)"

fun put_dotdots :: "nat \<Rightarrow> nat \<Rightarrow> memory \<Rightarrow> memory" where
  "put_dotdots s 0 m = m"
| "put_dotdots s (Suc k) m = put_dotdots (s + 3) k (mem_put m s ''../'')"

definition transform_symlink :: "subdir \<Rightarrow> cpath \<Rightarrow> nat \<Rightarrow> nat \<Rightarrow> memory \<Rightarrow> memory option" where
  "transform_symlink d path buf sz m =
     (if m buf \<noteq> CHR ''/'' \<or> sd_base d = [] \<or> hd (sd_base d) \<noteq> CHR ''/'' then Some m
     else do {
       link \<leftarrow> c_string m buf sz;
       start \<leftarrow> path;
       let (l, p) = strip_common link start;
       let pos = length link - length l;
       let n = count_components p;
       if pos < sd_baselen d \<or> n = 0 then Some m
       else do {
         let dotdots = n - 1;
         let llen = length l;
         if sz < dotdots * 3 + llen + 2 then Some m
         else do {
           let s = buf + dotdots * 3;
           let m1 = (if llen \<noteq> 0 then memmove m s (buf + pos) (llen + 1)
                     else if dotdots = 0 then mem_put m s [CHR ''.'', CHR 0x00]
                     else mem_put m s [CHR 0x00]);
           Some (put_dotdots buf dotdots m1) } } })"

section \<open>Operations\<close>

definition subdir_readlink :: "('x udata, 's) fuse_fs \<Rightarrow> cpath \<Rightarrow> nat \<Rightarrow> nat \<Rightarrow> (('x, 's) sworld, int) act" where
  "subdir_readlink nxt path buf sz w = do {
     d \<leftarrow> subdir_get w;
     ((err, newpath), w1) \<leftarrow> subdir_addpath d path w;
     if err \<noteq> 0 then Some (err, w1)
     else do {
       (err, w2) \<leftarrow> fuse_fs_readlink nxt newpath buf sz w1;
       if err = 0 \<and> sd_rellinks d then do {
         m \<leftarrow> transform_symlink d newpath buf sz (fmem w2);
         Some (err, w2\<lparr>fmem := m\<rparr>) }
       else Some (err, w2) } }"

definition subdir_opendir :: "('x udata, 's) fuse_fs \<Rightarrow> cpath \<Rightarrow> file_info \<Rightarrow> (('x, 's) sworld, int \<times> file_info) act" where
  "subdir_opendir nxt path fi w = do {
     d \<leftarrow> subdir_get w;
     ((err, newpath), w1) \<leftarrow> subdir_addpath d path w;
     if err \<noteq> 0 then Some ((err, fi), w1) else fuse_fs_opendir nxt newpath fi w1 }"

definition subdir_readdir :: "('x udata, 's) fuse_fs \<Rightarrow> cpath \<Rightarrow> int \<Rightarrow> file_info \<Rightarrow> (('x, 's) sworld, int \<times> (string \<times> attrs) list) act" where
  "subdir_readdir nxt path off fi w = do {
     d \<leftarrow> subdir_get w;
     ((err, newpath), w1) \<leftarrow> subdir_addpath d path w;
     if err \<noteq> 0 then Some ((err, []), w1) else fuse_fs_readdir nxt newpath off fi w1 }"

definition subdir_releasedir :: "('x udata, 's) fuse_fs \<Rightarrow> cpath \<Rightarrow> file_info \<Rightarrow> (('x, 's) sworld, int) act" where
  "subdir_releasedir nxt path fi w = do {
     d \<leftarrow> subdir_get w;
     ((err, newpath), w1) \<leftarrow> subdir_addpath d path w;
     if err \<noteq> 0 then Some (err, w1) else fuse_fs_releasedir nxt newpath fi w1 }"

definition subdir_mknod :: "('x udata, 's) fuse_fs \<Rightarrow> cpath \<Rightarrow> nat \<Rightarrow> nat \<Rightarrow> (('x, 's) sworld, int) act" where
  "subdir_mknod nxt path mode rdev w = do {
     d \<leftarrow> subdir_get w;
     ((err, newpath), w1) \<leftarrow> subdir_addpath d path w;
     if err \<noteq> 0 then Some (err, w1) else fuse_fs_mknod nxt newpath mode rdev w1 }"

definition subdir_mkdir :: "('x udata, 's) fuse_fs \<Rightarrow> cpath \<Rightarrow> nat \<Rightarrow> (('x, 's) sworld, int) act" where
  "subdir_mkdir nxt path mode w = do {
     d \<leftarrow> subdir_get w;
     ((err, newpath), w1) \<leftarrow> subdir_addpath d path w;
     if err \<noteq> 0 then Some (err, w1) else fuse_fs_mkdir nxt newpath mode w1 }"

definition subdir_unlink :: "('x udata, 's) fuse_fs \<Rightarrow> cpath \<Rightarrow> (('x, 's) sworld, int) act" where
  "subdir_unlink nxt path w = do {
     d \<leftarrow> subdir_get w;
     ((err, newpath), w1) \<leftarrow> subdir_addpath d path w;
     if err \<noteq> 0 then Some (err, w1) else fuse_fs_unlink nxt newpath w1 }"

definition subdir_rmdir :: "('x udata, 's) fuse_fs \<Rightarrow> cpath \<Rightarrow> (('x, 's) sworld, int) act" where
  "subdir_rmdir nxt path w = do {
     d \<leftarrow> subdir_get w;
     ((err, newpath), w1) \<leftarrow> subdir_addpath d path w;
     if err \<noteq> 0 then Some (err, w1) else fuse_fs_rmdir nxt newpath w1 }"

definition subdir_symlink :: "('x udata, 's) fuse_fs \<Rightarrow> string \<Rightarrow> cpath \<Rightarrow> (('x, 's) sworld, int) act" where
  "subdir_symlink nxt linkname path w = do {
     d \<leftarrow> subdir_get w;
     ((err, newpath), w1) \<leftarrow> subdir_addpath d path w;
     if err \<noteq> 0 then Some (err, w1) else fuse_fs_symlink nxt linkname newpath w1 }"

definition subdir_rename :: "('x udata, 's) fuse_fs \<Rightarrow> cpath \<Rightarrow> cpath \<Rightarrow> (('x, 's) sworld, int) act" where
  "subdir_rename nxt oldpath newpath w = do {
     d \<leftarrow> subdir_get w;
     ((err, newfrom), w1) \<leftarrow> subdir_addpath d oldpath w;
     if err \<noteq> 0 then Some (err, w1)
     else do {
       ((err, newto), w2) \<leftarrow> subdir_addpath d newpath w1;
       if err \<noteq> 0 then Some (err, w2) else fuse_fs_rename nxt newfrom newto w2 } }"

definition subdir_link :: "('x udata, 's) fuse_fs \<Rightarrow> cpath \<Rightarrow> cpath \<Rightarrow> (('x, 's) sworld, int) act" where
  "subdir_link nxt oldpath newpath w = do {
     d \<leftarrow> subdir_get w;
     ((err, newfrom), w1) \<leftarrow> subdir_addpath d oldpath w;
     if err \<noteq> 0 then Some (err, w1)
     else do {
       ((err, newto), w2) \<leftarrow> subdir_addpath d newpath w1;
       if err \<noteq> 0 then Some (err, w2) else fuse_fs_link nxt newfrom newto w2 } }"

definition subdir_chmod :: "('x udata, 's) fuse_fs \<Rightarrow> cpath \<Rightarrow> nat \<Rightarrow> (('x, 's) sworld, int) act" where
  "subdir_chmod nxt path mode w = do {
     d \<leftarrow> subdir_get w;
     ((err, newpath), w1) \<leftarrow> subdir_addpath d path w;
     if err \<noteq> 0 then Some (err, w1) else fuse_fs_chmod nxt newpath mode w1 }"

definition subdir_chown :: "('x udata, 's) fuse_fs \<Rightarrow> cpath \<Rightarrow> nat \<Rightarrow> nat \<Rightarrow> (('x, 's) sworld, int) act" where
  "subdir_chown nxt path uid gid w = do {
     d \<leftarrow> subdir_get w;
     ((err, newpath), w1) \<leftarrow> subdir_addpath d path w;
     if err \<noteq> 0 then Some (err, w1) else fuse_fs_chown nxt newpath uid gid w1 }"

definition subdir_truncate :: "('x udata, 's) fuse_fs \<Rightarrow> cpath \<Rightarrow> int \<Rightarrow> (('x, 's) sworld, int) act" where
  "subdir_truncate nxt path sz w = do {
     d \<leftarrow> subdir_get w;
     ((err, newpath), w1) \<leftarrow> subdir_addpath d path w;
     if err \<noteq> 0 then Some (err, w1) else fuse_fs_truncate nxt newpath sz w1 }"

definition subdir_ftruncate :: "('x udata, 's) fuse_fs \<Rightarrow> cpath \<Rightarrow> int \<Rightarrow> file_info \<Rightarrow> (('x, 's) sworld, int) act" where
  "subdir_ftruncate nxt path sz fi w = do {
     d \<leftarrow> subdir_get w;
     ((err, newpath), w1) \<leftarrow> subdir_addpath d path w;
     if err \<noteq> 0 then Some (err, w1) else fuse_fs_ftruncate nxt newpath sz fi w1 }"

definition subdir_utimens :: "('x udata, 's) fuse_fs \<Rightarrow> cpath \<Rightarrow> (timespec \<times> timespec) \<Rightarrow> (('x, 's) sworld, int) act" where
  "subdir_utimens nxt path tv w = do {
     d \<leftarrow> subdir_get w;
     ((err, newpath), w1) \<leftarrow> subdir_addpath d path w;
     if err \<noteq> 0 then Some (err, w1) else fuse_fs_utimens nxt newpath tv w1 }"

definition subdir_create :: "('x udata, 's) fuse_fs \<Rightarrow> cpath \<Rightarrow> nat \<Rightarrow> file_info \<Rightarrow> (('x, 's) sworld, int \<times> file_info) act" where
  "subdir_create nxt path mode fi w = do {
     d \<leftarrow> subdir_get w;
     ((err, newpath), w1) \<leftarrow> subdir_addpath d path w;
     if err \<noteq> 0 then Some ((err, fi), w1) else fuse_fs_create nxt newpath mode fi w1 }"

definition subdir_open :: "('x udata, 's) fuse_fs \<Rightarrow> cpath \<Rightarrow> file_info \<Rightarrow> (('x, 's) sworld, int \<times> file_info) act" where
  "subdir_open nxt path fi w = do {
     d \<leftarrow> subdir_get w;
     ((err, newpath), w1) \<leftarrow> subdir_addpath d path w;
     if err \<noteq> 0 then Some ((err, fi), w1) else fuse_fs_open nxt newpath fi w1 }"

definition subdir_read_buf :: "('x udata, 's) fuse_fs \<Rightarrow> cpath \<Rightarrow> nat \<Rightarrow> int \<Rightarrow> file_info \<Rightarrow> (('x, 's) sworld, int \<times> fuse_bufvec option) act" where
  "subdir_read_buf nxt path sz off fi w = do {
     d \<leftarrow> subdir_get w;
     ((err, newpath), w1) \<leftarrow> subdir_addpath d path w;
     if err \<noteq> 0 then Some ((err, None), w1) else fuse_fs_read_buf nxt newpath sz off fi w1 }"

definition subdir_write_buf :: "'s sysio \<Rightarrow> ('x udata, 's) fuse_fs \<Rightarrow> cpath \<Rightarrow> fuse_bufvec \<Rightarrow> int \<Rightarrow> file_info \<Rightarrow> (('x, 's) sworld, int) act" where
  "subdir_write_buf io nxt path buf off fi w = do {
     d \<leftarrow> subdir_get w;
     ((err, newpath), w1) \<leftarrow> subdir_addpath d path w;
     if err \<noteq> 0 then Some (err, w1) else fuse_fs_write_buf io nxt newpath buf off fi w1 }"

definition subdir_statfs :: "('x udata, 's) fuse_fs \<Rightarrow> cpath \<Rightarrow> (('x, 's) sworld, int \<times> statvfs option) act" where
  "subdir_statfs nxt path w = do {
     d \<leftarrow> subdir_get w;
     ((err, newpath), w1) \<leftarrow> subdir_addpath d path w;
     if err \<noteq> 0 then Some ((err, None), w1) else fuse_fs_statfs nxt newpath w1 }"

definition subdir_flush :: "('x udata, 's) fuse_fs \<Rightarrow> cpath \<Rightarrow> file_info \<Rightarrow> (('x, 's) sworld, int) act" where
  "subdir_flush nxt path fi w = do {
     d \<leftarrow> subdir_get w;
     ((err, newpath), w1) \<leftarrow> subdir_addpath d path w;
     if err \<noteq> 0 then Some (err, w1) else fuse_fs_flush nxt newpath fi w1 }"

definition subdir_release :: "('x udata, 's) fuse_fs \<Rightarrow> cpath \<Rightarrow> file_info \<Rightarrow> (('x, 's) sworld, int) act" where
  "subdir_release nxt path fi w = do {
     d \<leftarrow> subdir_get w;
     ((err, newpath), w1) \<leftarrow> subdir_addpath d path w;
     if err \<noteq> 0 then Some (err, w1) else fuse_fs_release nxt newpath fi w1 }"

definition subdir_fsync :: "('x udata, 's) fuse_fs \<Rightarrow> cpath \<Rightarrow> int \<Rightarrow> file_info \<Rightarrow> (('x, 's) sworld, int) act" where
  "subdir_fsync nxt path datasync fi w = do {
     d \<leftarrow> subdir_get w;
     ((err, newpath), w1) \<leftarrow> subdir_addpath d path w;
     if err \<noteq> 0 then Some (err, w1) else fuse_fs_fsync nxt newpath datasync fi w1 }"

definition subdir_fsyncdir :: "('x udata, 's) fuse_fs \<Rightarrow> cpath \<Rightarrow> int \<Rightarrow> file_info \<Rightarrow> (('x, 's) sworld, int) act" where
  "subdir_fsyncdir nxt path datasync fi w = do {
     d \<leftarrow> subdir_get w;
     ((err, newpath), w1) \<leftarrow> subdir_addpath d path w;
     if err \<noteq> 0 then Some (err, w1) else fuse_fs_fsyncdir nxt newpath datasync fi w1 }"

definition subdir_setxattr :: "('x udata, 's) fuse_fs \<Rightarrow> cpath \<Rightarrow> string \<Rightarrow> nat \<Rightarrow> nat \<Rightarrow> int \<Rightarrow> (('x, 's) sworld, int) act" where
  "subdir_setxattr nxt path name value sz flags w = do {
     d \<leftarrow> subdir_get w;
     ((err, newpath), w1) \<leftarrow> subdir_addpath d path w;
     if err \<noteq> 0 then Some (err, w1) else fuse_fs_setxattr nxt newpath name value sz flags w1 }"

definition subdir_getxattr :: "('x udata, 's) fuse_fs \<Rightarrow> cpath \<Rightarrow> string \<Rightarrow> nat \<Rightarrow> nat \<Rightarrow> (('x, 's) sworld, int) act" where
  "subdir_getxattr nxt path name value sz w = do {
     d \<leftarrow> subdir_get w;
     ((err, newpath), w1) \<leftarrow> subdir_addpath d path w;
     if err \<noteq> 0 then Some (err, w1) else fuse_fs_getxattr nxt newpath name value sz w1 }"

definition subdir_listxattr :: "('x udata, 's) fuse_fs \<Rightarrow> cpath \<Rightarrow> nat \<Rightarrow> nat \<Rightarrow> (('x, 's) sworld, int) act" where
  "subdir_listxattr nxt path lst sz w = do {
     d \<leftarrow> subdir_get w;
     ((err, newpath), w1) \<leftarrow> subdir_addpath d path w;
     if err \<noteq> 0 then Some (err, w1) else fuse_fs_listxattr nxt newpath lst sz w1 }"

definition subdir_removexattr :: "('x udata, 's) fuse_fs \<Rightarrow> cpath \<Rightarrow> string \<Rightarrow> (('x, 's) sworld, int) act" where
  "subdir_removexattr nxt path name w = do {
     d \<leftarrow> subdir_get w;
     ((err, newpath), w1) \<leftarrow> subdir_addpath d path w;
     if err \<noteq> 0 then Some (err, w1) else fuse_fs_removexattr nxt newpath name w1 }"

definition subdir_lock :: "('x udata, 's) fuse_fs \<Rightarrow> cpath \<Rightarrow> file_info \<Rightarrow> int \<Rightarrow> c_flock \<Rightarrow> (('x, 's) sworld, int \<times> c_flock) act" where
  "subdir_lock nxt path fi cmd lock w = do {
     d \<leftarrow> subdir_get w;
     ((err, newpath), w1) \<leftarrow> subdir_addpath d path w;
     if err \<noteq> 0 then Some ((err, lock), w1) else fuse_fs_lock_call nxt newpath fi cmd lock w1 }"

definition subdir_flock :: "('x udata, 's) fuse_fs \<Rightarrow> cpath \<Rightarrow> file_info \<Rightarrow> int \<Rightarrow> (('x, 's) sworld, int) act" where
  "subdir_flock nxt path fi op w = do {
     d \<leftarrow> subdir_get w;
     ((err, newpath), w1) \<leftarrow> subdir_addpath d path w;
     if err \<noteq> 0 then Some (err, w1) else fuse_fs_flock nxt newpath fi op w1 }"

definition subdir_bmap :: "('x udata, 's) fuse_fs \<Rightarrow> cpath \<Rightarrow> nat \<Rightarrow> nat \<Rightarrow> (('x, 's) sworld, int \<times> nat) act" where
  "subdir_bmap nxt path blocksize idx w = do {
     d \<leftarrow> subdir_get w;
     ((err, newpath), w1) \<leftarrow> subdir_addpath d path w;
     if err \<noteq> 0 then Some ((err, idx), w1) else fuse_fs_bmap nxt newpath blocksize idx w1 }"

definition subdir_oper :: "'s sysio \<Rightarrow> ('x udata, 's) fuse_fs \<Rightarrow> ('x, 's) sworld fuse_operations" where
  "subdir_oper io nxt = \<lparr>
     op_getattr = Some (subdir_getattr nxt),
     op_fgetattr = Some (subdir_fgetattr nxt),
     op_access = Some (subdir_access nxt),
     op_readlink = Some (subdir_readlink nxt),
     op_opendir = Some (subdir_opendir nxt),
     op_readdir = Some (subdir_readdir nxt),
     op_releasedir = Some (subdir_releasedir nxt),
     op_mknod = Some (subdir_mknod nxt),
     op_mkdir = Some (subdir_mkdir nxt),
     op_unlink = Some (subdir_unlink nxt),
     op_rmdir = Some (subdir_rmdir nxt),
     op_symlink = Some (subdir_symlink nxt),
     op_rename = Some (subdir_rename nxt),
     op_link = Some (subdir_link nxt),
     op_chmod = Some (subdir_chmod nxt),
     op_chown = Some (subdir_chown nxt),
     op_truncate = Some (subdir_truncate nxt),
     op_ftruncate = Some (subdir_ftruncate nxt),
     op_utimens = Some (subdir_utimens nxt),
     op_create = Some (subdir_create nxt),
     op_open = Some (subdir_open nxt),
     op_read_buf = Some (subdir_read_buf nxt),
     op_write_buf = Some (subdir_write_buf io nxt),
     op_statfs = Some (subdir_statfs nxt),
     op_flush = Some (subdir_flush nxt),
     op_release = Some (subdir_release nxt),
     op_fsync = Some (subdir_fsync nxt),
     op_fsyncdir = Some (subdir_fsyncdir nxt),
     op_setxattr = Some (subdir_setxattr nxt),
     op_getxattr = Some (subdir_getxattr nxt),
     op_listxattr = Some (subdir_listxattr nxt),
     op_removexattr = Some (subdir_removexattr nxt),
     op_lock = Some (subdir_lock nxt),
     op_flock = Some (subdir_flock nxt),
     op_bmap = Some (subdir_bmap nxt),
     op_ioctl = None,
     op_poll = None,
     op_fallocate = None,
     op_getdir = None,
     op_utime = None,
     op_read = None,
     op_write = None\<rparr>"

text \<open>
  \<open>subdir_new\<close>: \<open>opts\<close> is what \<open>fuse_opt_parse\<close> has stored, \<open>None\<close> if it failed; \<open>nxts\<close> is the array \<open>next\<close> of file systems up to
  its \<open>NULL\<close>. The first \<open>malloc\<close> is for the structure, then one for a base without final slash, then one in \<open>fuse_fs_new\<close>.
\<close>

definition fuse_fs_new :: "('x, 's) sworld fuse_operations \<Rightarrow> 'x udata \<Rightarrow> ('x, 's) sworld \<Rightarrow> ('x udata, 's) fuse_fs option \<times> ('x, 's) sworld" where
  "fuse_fs_new ops data w = (case fmalloc 0 w of (None, w1) \<Rightarrow> (None, w1) | (Some _, w1) \<Rightarrow> (Some \<lparr>fs_op = ops, fs_user_data = data\<rparr>, w1))"

definition add_slash :: "string \<Rightarrow> ('x, 's) sworld \<Rightarrow> string option \<times> ('x, 's) sworld" where
  "add_slash base w = (if base \<noteq> [] \<and> last base \<noteq> CHR ''/''
     then (case fmalloc (length base + 2) w of (None, w1) \<Rightarrow> (None, w1) | (Some _, w1) \<Rightarrow> (Some (base @ ''/''), w1))
     else (Some base, w))"

definition subdir_new :: "'s sysio \<Rightarrow> (string option \<times> bool) option \<Rightarrow> ('x udata, 's) fuse_fs list \<Rightarrow> ('x, 's) sworld \<Rightarrow>
    ('x udata, 's) fuse_fs option \<times> ('x, 's) sworld" where
  "subdir_new io opts nxts w = (case fmalloc 0 w of
     (None, w1) \<Rightarrow> (None, w1)
   | (Some _, w1) \<Rightarrow> (case (opts, nxts) of
       (Some (Some base, rellinks), [fs]) \<Rightarrow> (case add_slash base w1 of
         (None, w2) \<Rightarrow> (None, w2)
       | (Some b, w2) \<Rightarrow> fuse_fs_new (subdir_oper io fs) (Sub \<lparr>sd_base = b, sd_baselen = length b, sd_rellinks = rellinks\<rparr>) w2)
     | _ \<Rightarrow> (None, w1)))"

end
