(* ===== verification/Fuse_Links.thy ===== *)
theory Fuse_Links
  imports Fuse_Subdir
begin

text \<open>
  What \<open>transform_symlink\<close> of the module \<open>subdir\<close> means: paths as lists of names, the loops over strings as
  operations on these lists, and the new link as a follow from the directory of the link.
\<close>

section \<open>Names of a path\<close>

fun parts :: "string \<Rightarrow> string list" where
  "parts [] = [[]]"
| "parts (c # s) = (if c = CHR ''/'' then [] # parts s else (c # hd (parts s)) # tl (parts s))"

definition comps :: "string \<Rightarrow> string list" where
  "comps p = filter (\<lambda>x. x \<noteq> []) (parts p)"

lemma parts_nonempty [simp]: "parts p \<noteq> []"
  by (cases p) auto

lemma comps_Nil [simp]: "comps [] = []"
  by (simp add: comps_def)

lemma comps_slash [simp]: "comps (CHR ''/'' # p) = comps p"
  by (simp add: comps_def)

lemma comps_skip [simp]: "comps (skip_slashes p) = comps p"
  by (induction p) (auto simp: skip_slashes_def)

text \<open>The position behind a name: at the end or at a slash.\<close>

definition at_end :: "string \<Rightarrow> bool" where
  "at_end p \<longleftrightarrow> p = [] \<or> hd p = CHR ''/''"

lemma parts_at_end: "at_end p \<Longrightarrow> hd (parts p) = [] \<and> filter (\<lambda>x. x \<noteq> []) (tl (parts p)) = comps p"
  by (cases p) (auto simp: at_end_def comps_def)

lemma parts_name: "CHR ''/'' \<notin> set u \<Longrightarrow> parts (u @ p) = (u @ hd (parts p)) # tl (parts p)"
  by (induction u) auto

lemma comps_name: "CHR ''/'' \<notin> set u \<Longrightarrow> at_end p \<Longrightarrow> comps (u @ p) = (if u = [] then [] else [u]) @ comps p"
  using parts_at_end [of p] by (auto simp: comps_def parts_name)

lemma comps_append_slash: "comps (p @ CHR ''/'' # q) = comps p @ comps q"
proof (induction p)
  case (Cons c p)
  have "parts ((c # p) @ CHR ''/'' # q) = parts (c # p) @ parts q" for c p
  proof (induction p arbitrary: c)
    case (Cons d p)
    then show ?case by (cases "c = CHR ''/''") (auto simp: hd_append2 tl_append2)
  qed simp
  then show ?case by (simp add: comps_def del: parts.simps)
qed simp

lemma name_split:
  obtains u where "p = u @ skip_name p" and "CHR ''/'' \<notin> set u" and "at_end (skip_name p)"
proof
  show "p = takeWhile (\<lambda>c. c \<noteq> CHR ''/'') p @ skip_name p" by (simp add: skip_name_def)
  show "CHR ''/'' \<notin> set (takeWhile (\<lambda>c. c \<noteq> CHR ''/'') p)" by (auto dest: set_takeWhileD)
  show "at_end (skip_name p)" using hd_dropWhile [of "\<lambda>c. c \<noteq> CHR ''/''" p] by (auto simp: at_end_def skip_name_def)
qed

lemma skip_slashes_hd: "skip_slashes p = [] \<or> hd (skip_slashes p) \<noteq> CHR ''/''"
  using hd_dropWhile [of "\<lambda>c. c = CHR ''/''" p] by (auto simp: skip_slashes_def)

lemma comp_loop_comps: "p = [] \<or> hd p \<noteq> CHR ''/'' \<Longrightarrow> comp_loop p = length (comps p)"
proof (induction p rule: comp_loop.induct)
  case (1 p)
  show ?case
  proof (cases "p = []")
    case True
    then show ?thesis by (subst comp_loop.simps) simp
  next
    case False
    obtain u where u: "p = u @ skip_name p" "CHR ''/'' \<notin> set u" "at_end (skip_name p)" by (rule name_split)
    have "u \<noteq> []" using u 1(2) False by (metis append_Nil at_end_def)
    then have "comps p = u # comps (skip_name p)" using comps_name [OF u(2,3)] u(1) by simp
    then show ?thesis using 1(1) [OF False] skip_slashes_hd False by (subst comp_loop.simps) simp
  qed
qed

lemma count_components_comps: "count_components p = length (comps p)"
  using comp_loop_comps [of "skip_slashes p"] skip_slashes_hd by (simp add: count_components_def)

lemma same_name_split: "same_name s t = (s1, t1) \<Longrightarrow> \<exists>u. s = u @ s1 \<and> t = u @ t1 \<and> CHR ''/'' \<notin> set u"
proof (induction s t rule: same_name.induct)
  case (1 a s b t)
  show ?case
  proof (cases "a = b \<and> a \<noteq> CHR ''/''")
    case True
    then obtain u where "s = u @ s1 \<and> t = u @ t1 \<and> CHR ''/'' \<notin> set u" using 1 by auto
    then show ?thesis using True by (intro exI [of _ "a # u"]) auto
  qed (use 1 in auto)
qed auto

lemma comps_slashes: "set a \<subseteq> {CHR ''/''} \<Longrightarrow> comps (a @ p) = comps p"
  by (induction a) auto

lemma slashes_split:
  obtains a where "p = a @ skip_slashes p" and "set a \<subseteq> {CHR ''/''}"
  by (rule that [of "takeWhile (\<lambda>c. c = CHR ''/'') p"]) (auto simp: skip_slashes_def dest: set_takeWhileD)

text \<open>Both strings lose the same names in front.\<close>

lemma strip_common_comps:
  "strip_common s0 t0 = (s, t) \<Longrightarrow> (s = [] \<or> hd s \<noteq> CHR ''/'') \<and> (t = [] \<or> hd t \<noteq> CHR ''/'') \<and>
    (\<exists>u v. s0 = u @ s \<and> t0 = v @ t \<and> comps u = comps v \<and> comps s0 = comps u @ comps s \<and> comps t0 = comps u @ comps t)"
proof (induction s0 t0 arbitrary: s t rule: strip_common.induct)
  case (1 s0 t0)
  let ?s = "skip_slashes s0" and ?t = "skip_slashes t0"
  obtain s1 t1 where n: "same_name ?s ?t = (s1, t1)" by (cases "same_name ?s ?t")
  obtain a where a: "s0 = a @ ?s" "set a \<subseteq> {CHR ''/''}" by (rule slashes_split)
  obtain b where b: "t0 = b @ ?t" "set b \<subseteq> {CHR ''/''}" by (rule slashes_split)
  have ab: "comps a = []" "comps b = []" using comps_slashes [OF a(2), of "[]"] comps_slashes [OF b(2), of "[]"] by simp_all
  show ?case
  proof (cases "go_on s1 t1")
    case False
    then have st: "s = ?s" "t = ?t" using 1(2) n by (simp_all add: strip_common.simps [of s0 t0])
    then have "s0 = a @ s \<and> t0 = b @ t \<and> comps a = comps b \<and> comps s0 = comps a @ comps s \<and> comps t0 = comps a @ comps t"
      using a(1) b(1) ab by simp
    then show ?thesis using skip_slashes_hd [of s0] skip_slashes_hd [of t0] st by metis
  next
    case True
    then have "strip_common s1 t1 = (s, t)" using 1(2) n by (simp add: strip_common.simps [of s0 t0])
    then have hd: "s = [] \<or> hd s \<noteq> CHR ''/''" "t = [] \<or> hd t \<noteq> CHR ''/''" and
        "\<exists>u v. s1 = u @ s \<and> t1 = v @ t \<and> comps u = comps v \<and> comps s1 = comps u @ comps s \<and> comps t1 = comps u @ comps t"
      using 1(1) [OF refl refl n [symmetric] refl True] by blast+
    then obtain u v where c: "s1 = u @ s" "t1 = v @ t" "comps u = comps v" "comps s1 = comps u @ comps s" "comps t1 = comps u @ comps t" by blast
    obtain w where w: "?s = w @ s1" "?t = w @ t1" "CHR ''/'' \<notin> set w" using same_name_split [OF n] by blast
    have e: "at_end s1" "at_end t1" using True same_name_stops [OF n] by (auto simp: go_on_def at_end_def)
    have eu: "at_end u" "at_end v" using e hd c(1,2) by (cases u; cases v; auto simp: at_end_def)+
    let ?w = "if w = [] then [] else [w]"
    have "comps (a @ w @ u) = ?w @ comps u" "comps (b @ w @ v) = ?w @ comps v"
      using comps_slashes [OF a(2)] comps_slashes [OF b(2)] comps_name [OF w(3) eu(1)] comps_name [OF w(3) eu(2)] by simp_all
    moreover have "comps s0 = ?w @ comps s1" "comps t0 = ?w @ comps t1"
      using comps_name [OF w(3) e(1)] comps_name [OF w(3) e(2)] comps_skip [of s0] comps_skip [of t0] w(1,2) by simp_all
    moreover have "s0 = (a @ w @ u) @ s" "t0 = (b @ w @ v) @ t" using a(1) b(1) w(1,2) c(1,2) by simp_all
    ultimately have "s0 = (a @ w @ u) @ s \<and> t0 = (b @ w @ v) @ t \<and> comps (a @ w @ u) = comps (b @ w @ v) \<and>
        comps s0 = comps (a @ w @ u) @ comps s \<and> comps t0 = comps (a @ w @ u) @ comps t"
      using c(3-5) by simp
    then show ?thesis using hd by blast
  qed
qed

section \<open>Walking along a link\<close>

fun follow :: "string list \<Rightarrow> string list \<Rightarrow> string list" where
  "follow d [] = d"
| "follow d (x # xs) = follow (if x = ''.'' then d else if x = ''..'' then butlast d else d @ [x]) xs"

lemma follow_append: "follow d (xs @ ys) = follow (follow d xs) ys"
  by (induction xs arbitrary: d) auto

lemma follow_plain: "''.'' \<notin> set xs \<Longrightarrow> ''..'' \<notin> set xs \<Longrightarrow> follow d xs = d @ xs"
  by (induction xs arbitrary: d) auto

lemma follow_up: "follow (c @ xs) (replicate (length xs) ''..'') = c"
  by (induction xs arbitrary: c rule: rev_induct) (auto simp: butlast_append)

section \<open>The new link\<close>

fun dotdots_text :: "nat \<Rightarrow> string" where
  "dotdots_text 0 = []"
| "dotdots_text (Suc k) = ''../'' @ dotdots_text k"

lemma length_dotdots [simp]: "length (dotdots_text k) = 3 * k"
  by (induction k) auto

lemma comps_dotdots: "comps (dotdots_text k @ l) = replicate k ''..'' @ comps l"
proof (induction k)
  case (Suc k)
  have "dotdots_text (Suc k) @ l = ''..'' @ CHR ''/'' # (dotdots_text k @ l)" by simp
  then have "comps (dotdots_text (Suc k) @ l) = comps ''..'' @ comps (dotdots_text k @ l)" by (simp only: comps_append_slash)
  also have "comps ''..'' = [''..'']" by (simp add: comps_def)
  finally show ?case using Suc by simp
qed simp

lemma mem_put_append: "mem_put m s (x @ y) = mem_put (mem_put m s x) (s + length x) y"
  using upt_add_eq_append [of s "s + length x" "length y"] by (simp add: mem_put_def mem_store_append add.assoc)

lemma put_dotdots_eq: "put_dotdots s k m = mem_put m s (dotdots_text k)"
proof (induction k arbitrary: s m)
  case (Suc k)
  then show ?case using mem_put_append [of m s "''../''" "dotdots_text k"] by (simp add: numeral_3_eq_3)
qed (simp add: mem_put_def)

lemma mem_get_put: "mem_get (mem_put m a bs) a (length bs) = bs"
  by (simp add: mem_get_def mem_put_def mem_store_same)

lemma mem_get_other: "a + n \<le> b \<or> b + length bs \<le> a \<Longrightarrow> mem_get (mem_put m b bs) a n = mem_get m a n"
  unfolding mem_get_def mem_put_def by (rule mem_store_map_other) auto

lemma mem_get_append: "mem_get m a (j + k) = mem_get m a j @ mem_get m (a + j) k"
  using upt_add_eq_append [of a "a + j" k] by (simp add: mem_get_def add.assoc)

lemma mem_get_drop: "drop j (mem_get m a n) = mem_get m (a + j) (n - j)"
  by (cases "j \<le> n") (simp_all add: mem_get_def drop_map)

lemma c_stringI:
  assumes "mem_get m a (length t + 1) = t @ [CHR 0x00]" and "CHR 0x00 \<notin> set t" and "length t < n"
  shows "c_string m a n = Some t"
proof -
  have "mem_get m a n = t @ CHR 0x00 # mem_get m (a + (length t + 1)) (n - (length t + 1))"
    using mem_get_append [of m a "length t + 1" "n - (length t + 1)"] assms by simp
  moreover have "takeWhile (\<lambda>c. c \<noteq> CHR 0x00) (t @ CHR 0x00 # r) = t" for r using assms(2) by (subst takeWhile_append2) auto
  ultimately show ?thesis by (simp add: c_string_def)
qed

lemma c_stringD:
  assumes "c_string m a n = Some t"
  shows "mem_get m a (length t + 1) = t @ [CHR 0x00]" and "CHR 0x00 \<notin> set t" and "length t < n"
proof -
  let ?s = "mem_get m a n"
  have t: "t = takeWhile (\<lambda>c. c \<noteq> CHR 0x00) ?s" and z: "CHR 0x00 \<in> set ?s" using assms by (auto simp: c_string_def Let_def split: if_splits)
  then have d: "dropWhile (\<lambda>c. c \<noteq> CHR 0x00) ?s \<noteq> []" by simp
  then obtain r where r: "dropWhile (\<lambda>c. c \<noteq> CHR 0x00) ?s = CHR 0x00 # r"
    using hd_dropWhile [of "\<lambda>c. c \<noteq> CHR 0x00" ?s] by (cases "dropWhile (\<lambda>c. c \<noteq> CHR 0x00) ?s") auto
  then have s: "?s = t @ CHR 0x00 # r" using t by (metis takeWhile_dropWhile_id)
  then show n: "length t < n" using arg_cong [OF s, of length] length_mem_get [of m a n] by (simp del: length_mem_get)
  have "take (length t + 1) ?s = mem_get m a (length t + 1)" using n by (simp add: mem_get_def take_map)
  then show "mem_get m a (length t + 1) = t @ [CHR 0x00]" using s by simp
  show "CHR 0x00 \<notin> set t" using t by (auto dest: set_takeWhileD)
qed

text \<open>The text that replaces a link, and the whole operation on strings.\<close>

definition relative :: "nat \<Rightarrow> string \<Rightarrow> string" where
  "relative k l = (if k = 0 \<and> l = [] then ''.'' else dotdots_text k @ l)"

definition new_link :: "subdir \<Rightarrow> string \<Rightarrow> nat \<Rightarrow> string \<Rightarrow> string" where
  "new_link d path sz link =
     (if link = [] \<or> hd link \<noteq> CHR ''/'' \<or> sd_base d = [] \<or> hd (sd_base d) \<noteq> CHR ''/'' then link
      else case strip_common link path of (l, p) \<Rightarrow>
        if length link - length l < sd_baselen d \<or> comps p = [] \<or> sz < (length (comps p) - 1) * 3 + length l + 2 then link
        else relative (length (comps p) - 1) l)"

lemma put_relative:
  assumes l: "CHR 0x00 \<notin> set l" and src: "mem_get m src (length l + 1) = l @ [CHR 0x00]" and sz: "k * 3 + length l + 2 \<le> sz"
  shows "c_string (put_dotdots buf k (if length l \<noteq> 0 then memmove m (buf + k * 3) src (length l + 1)
     else if k = 0 then mem_put m (buf + k * 3) [CHR ''.'', CHR 0x00] else mem_put m (buf + k * 3) [CHR 0x00])) buf sz = Some (relative k l)"
proof -
  have dots: "CHR 0x00 \<notin> set (dotdots_text k)" by (induction k) auto
  have both: "mem_get (mem_put (mem_put m (buf + k * 3) t) buf (dotdots_text k)) buf (length (dotdots_text k) + length t) = dotdots_text k @ t" for t
    unfolding mem_get_append using mem_get_put [of "mem_put m (buf + k * 3) t" buf "dotdots_text k"] mem_get_put [of m "buf + k * 3" t]
    by (simp add: mem_get_other mult.commute)
  show ?thesis
  proof (cases "k = 0 \<and> l = []")
    case True
    then have "mem_get (mem_put m buf [CHR ''.'', CHR 0x00]) buf 2 = [CHR ''.'', CHR 0x00]" using mem_get_put [of m buf "[CHR ''.'', CHR 0x00]"] by (simp add: numeral_2_eq_2)
    then show ?thesis using True sz by (intro c_stringI) (simp_all add: relative_def numeral_2_eq_2)
  next
    case False
    let ?m = "mem_put (mem_put m (buf + k * 3) (l @ [CHR 0x00])) buf (dotdots_text k)"
    have "c_string ?m buf sz = Some (dotdots_text k @ l)"
      by (rule c_stringI) (use both [of "l @ [CHR 0x00]"] l dots sz in \<open>simp_all add: add.assoc\<close>)
    then show ?thesis using False src by (auto simp: put_dotdots_eq relative_def memmove_def)
  qed
qed

lemma transform_symlink_text:
  assumes c: "c_string m buf sz = Some link"
  shows "\<exists>m'. transform_symlink d (Some path) buf sz m = Some m' \<and> c_string m' buf sz = Some (new_link d path sz link)"
proof -
  note link = c_stringD [OF c]
  have first: "m buf = hd (link @ [CHR 0x00])" using arg_cong [OF link(1), of hd] by (simp add: mem_get_def upt_rec)
  show ?thesis
  proof (cases "link = [] \<or> hd link \<noteq> CHR ''/'' \<or> sd_base d = [] \<or> hd (sd_base d) \<noteq> CHR ''/''")
    case True
    then have "m buf \<noteq> CHR ''/'' \<or> sd_base d = [] \<or> hd (sd_base d) \<noteq> CHR ''/''" using first by (cases link) auto
    then show ?thesis using True c by (simp add: transform_symlink_def new_link_def)
  next
    case False
    then have slash: "m buf = CHR ''/''" using first by (cases link) auto
    obtain l p where lp: "strip_common link path = (l, p)" by (cases "strip_common link path")
    then obtain u where u: "link = u @ l" using strip_common_comps [OF lp] by blast
    let ?pos = "length link - length l" and ?k = "length (comps p) - 1"
    have l: "CHR 0x00 \<notin> set l" "mem_get m (buf + ?pos) (length l + 1) = l @ [CHR 0x00]"
      using link(1,2) u mem_get_drop [of ?pos m buf "length link + 1"] by auto
    show ?thesis
    proof (cases "?pos < sd_baselen d \<or> comps p = [] \<or> sz < ?k * 3 + length l + 2")
      case True
      then show ?thesis using False slash lp c by (auto simp: transform_symlink_def new_link_def count_components_comps Let_def)
    next
      case go: False
      then have "?k * 3 + length l + 2 \<le> sz" by simp
      note r = put_relative [OF l this, of buf]
      have "new_link d path sz link = relative ?k l" using False lp go by (simp add: new_link_def)
      moreover have "transform_symlink d (Some path) buf sz m = Some (put_dotdots buf ?k (if length l \<noteq> 0 then memmove m (buf + ?k * 3) (buf + ?pos) (length l + 1)
         else if ?k = 0 then mem_put m (buf + ?k * 3) [CHR ''.'', CHR 0x00] else mem_put m (buf + ?k * 3) [CHR 0x00]))"
        using False slash lp c go by (simp add: transform_symlink_def count_components_comps Let_def)
      ultimately show ?thesis using r by simp
    qed
  qed
qed

section \<open>Links inside the base directory\<close>

definition weight :: "string list \<Rightarrow> nat" where
  "weight xs = sum_list (map (\<lambda>x. length x + 1) xs)"

fun single_slashes :: "string \<Rightarrow> bool" where
  "single_slashes (a # b # s) = (\<not> (a = CHR ''/'' \<and> b = CHR ''/'') \<and> single_slashes (b # s))"
| "single_slashes s = True"

lemma comps_Cons:
  assumes "c \<noteq> CHR ''/''"
  shows "comps (c # u) = (if at_end u then [c] # comps u else (c # hd (comps u)) # tl (comps u))" and "at_end u \<or> comps u \<noteq> []"
proof -
  have "hd (parts u) \<noteq> []" if "\<not> at_end u" using that by (cases u) (auto simp: at_end_def)
  then have "\<not> at_end u \<Longrightarrow> comps u = hd (parts u) # filter (\<lambda>x. x \<noteq> []) (tl (parts u))" by (cases "parts u") (auto simp: comps_def)
  then show "comps (c # u) = (if at_end u then [c] # comps u else (c # hd (comps u)) # tl (comps u))" "at_end u \<or> comps u \<noteq> []"
    using assms comps_name [of "[c]" u] by (auto simp: comps_def)
qed

lemma weight_Cons: "c \<noteq> CHR ''/'' \<Longrightarrow> weight (comps (c # u)) = weight (comps u) + (if at_end u then 2 else 1)"
  using comps_Cons [of c u] by (cases "comps u") (auto simp: weight_def)

lemma single_length: "single_slashes u \<Longrightarrow> length u \<le> weight (comps u) + (if u \<noteq> [] \<and> hd u = CHR ''/'' then 1 else 0)"
proof (induction u rule: single_slashes.induct)
  case (1 a b s)
  then show ?case using weight_Cons [of a "b # s"] by (cases "a = CHR ''/''"; cases "b = CHR ''/''") (auto simp: at_end_def)
qed (auto simp: weight_def comps_def)

lemma slashed_length: "q \<noteq> [] \<Longrightarrow> last q = CHR ''/'' \<Longrightarrow> weight (comps q) + (if hd q = CHR ''/'' then 1 else 0) \<le> length q"
proof (induction q)
  case (Cons c q)
  show ?case
  proof (cases "q = []")
    case True
    then show ?thesis using Cons by (simp add: weight_def)
  next
    case False
    then have "weight (comps q) + (if hd q = CHR ''/'' then 1 else 0) \<le> length q" using Cons by auto
    then show ?thesis using False by (cases "c = CHR ''/''") (auto simp: weight_Cons at_end_def)
  qed
qed simp

lemma single_prefix: "single_slashes (u @ v) \<Longrightarrow> single_slashes u"
proof (induction u rule: single_slashes.induct)
  case (1 a b s)
  then show ?case by auto
qed auto

lemma weight_append [simp]: "weight (xs @ ys) = weight xs + weight ys"
  by (simp add: weight_def)

lemma weight_pos: "xs \<noteq> [] \<Longrightarrow> 0 < weight xs"
  by (cases xs) (auto simp: weight_def)

definition subdir_ok :: "subdir \<Rightarrow> bool" where
  "subdir_ok d \<longleftrightarrow> sd_baselen d = length (sd_base d) \<and> (sd_base d \<noteq> [] \<longrightarrow> last (sd_base d) = CHR ''/'')"

lemma common_covers_base:
  assumes d: "subdir_ok d" "sd_base d \<noteq> []" "hd (sd_base d) = CHR ''/''" and path: "path = sd_base d @ rel"
    and lp: "strip_common link path = (l, p)" and len: "sd_baselen d \<le> length link - length l" and link: "single_slashes link"
  shows "\<exists>c. comps link = comps (sd_base d) @ c @ comps l \<and> comps rel = c @ comps p"
proof -
  let ?b = "sd_base d"
  obtain u v where u: "link = u @ l" "path = v @ p" "comps u = comps v" "comps link = comps u @ comps l" "comps path = comps u @ comps p"
    using strip_common_comps [OF lp] by blast
  have b: "?b = butlast ?b @ [CHR ''/'']" using d by (metis append_butlast_last_id subdir_ok_def)
  then have "path = butlast ?b @ CHR ''/'' # rel" using path by (metis append.assoc append_Cons append_Nil)
  moreover have "comps ?b = comps (butlast ?b)" using b comps_append_slash [of "butlast ?b" "[]"] by simp
  ultimately have cp: "comps path = comps ?b @ comps rel" using comps_append_slash [of "butlast ?b" rel] by simp
  have lb: "weight (comps ?b) + 1 \<le> length ?b" using slashed_length [of ?b] d by (simp add: subdir_ok_def)
  have lu: "length u \<le> weight (comps u) + 1" using single_length [OF single_prefix [of u l]] link u(1) by (auto split: if_splits)
  have "length ?b \<le> length u" using len d(1) u(1) by (simp add: subdir_ok_def)
  then have w: "weight (comps ?b) \<le> weight (comps u)" using lb lu by simp
  obtain c where "comps u = comps ?b @ c \<and> comps rel = c @ comps p \<or> comps ?b = comps u @ c \<and> comps p = c @ comps rel"
    using u(5) cp by (metis append_eq_append_conv2)
  then show ?thesis
  proof (elim disjE conjE)
    assume "comps ?b = comps u @ c" "comps p = c @ comps rel"
    moreover from this have "c = []" using w weight_pos [of c] by fastforce
    ultimately show ?thesis using u(4) by (intro exI [of _ "[]"]) simp
  qed (use u(4) in auto)
qed

section \<open>Properties\<close>

definition resolve :: "string list \<Rightarrow> string \<Rightarrow> string list" where
  "resolve dir link = follow (if link \<noteq> [] \<and> hd link = CHR ''/'' then [] else dir) (comps link)"

lemma relative_resolve:
  assumes l: "l = [] \<or> hd l \<noteq> CHR ''/''" and xs: "''.'' \<notin> set c" "''..'' \<notin> set c"
  shows "resolve (c @ xs) (relative (length xs) l) = follow [] (c @ comps l)"
proof -
  have "follow [] (c @ comps l) = follow c (comps l)" using xs by (simp add: follow_append follow_plain)
  moreover have "\<not> (relative (length xs) l \<noteq> [] \<and> hd (relative (length xs) l) = CHR ''/'')"
    using l by (cases xs) (auto simp: relative_def)
  moreover have "follow (c @ xs) (comps (relative (length xs) l)) = follow c (comps l)"
  proof (cases "xs = [] \<and> l = []")
    case True
    then show ?thesis by (simp add: relative_def comps_def)
  next
    case False
    then show ?thesis by (auto simp: relative_def comps_dotdots follow_append follow_up)
  qed
  ultimately show ?thesis by (auto simp: resolve_def)
qed

text \<open>
  Property C21: with \<open>rellinks\<close> an absolute symbolic link may be replaced by a relative one in the buffer of the
  caller, within its bounds and ended by a \<open>NUL\<close>; seen from the directory that the link is in, it leads to the
  same place.
\<close>

theorem rellink_same_target:
  assumes "c_string m buf sz = Some link" and "''.'' \<notin> set (comps path)" and "''..'' \<notin> set (comps path)"
  shows "\<exists>m' link'. transform_symlink d (Some path) buf sz m = Some m' \<and> c_string m' buf sz = Some link' \<and>
    resolve (butlast (comps path)) link' = resolve (butlast (comps path)) link"
proof -
  obtain l p where lp: "strip_common link path = (l, p)" by (cases "strip_common link path")
  then obtain u where u: "l = [] \<or> hd l \<noteq> CHR ''/''" "comps link = comps u @ comps l" "comps path = comps u @ comps p"
    using strip_common_comps [OF lp] by blast
  have "resolve (butlast (comps path)) (new_link d path sz link) = resolve (butlast (comps path)) link"
  proof (cases "new_link d path sz link = link")
    case False
    then have n: "new_link d path sz link = relative (length (comps p) - 1) l" "link \<noteq> []" "hd link = CHR ''/''" "comps p \<noteq> []"
      using lp by (auto simp: new_link_def split: if_splits)
    have "butlast (comps path) = comps u @ butlast (comps p)" using u(3) n(4) by (simp add: butlast_append)
    moreover have "''.'' \<notin> set (comps u)" "''..'' \<notin> set (comps u)" using assms(2,3) u(3) by auto
    ultimately have "resolve (butlast (comps path)) (new_link d path sz link) = follow [] (comps u @ comps l)"
      using relative_resolve [OF u(1), of "comps u" "butlast (comps p)"] n(1) by simp
    then show ?thesis using u(2) n(2,3) by (simp add: resolve_def)
  qed simp
  then show ?thesis using transform_symlink_text [OF assms(1), of d path] by blast
qed

definition link_memory :: memory where
  "link_memory = mem_put (\<lambda>_. CHR ''x'') 100 (''/home/ann/b/c'' @ [CHR 0x00])"

theorem rellink_same_target_witness:
  "\<exists>m' link'. transform_symlink \<lparr>sd_base = ''/home/'', sd_baselen = 6, sd_rellinks = True\<rparr> (Some ''/home/ann/d/e'') 100 64 link_memory = Some m' \<and>
    c_string m' 100 64 = Some link' \<and> resolve (butlast (comps ''/home/ann/d/e'')) link' = resolve (butlast (comps ''/home/ann/d/e'')) ''/home/ann/b/c''"
proof -
  have "c_string link_memory 100 64 = Some ''/home/ann/b/c''" by code_simp
  moreover have "''.'' \<notin> set (comps ''/home/ann/d/e'')" "''..'' \<notin> set (comps ''/home/ann/d/e'')" by code_simp+
  ultimately show ?thesis by (rule rellink_same_target)
qed



text \<open>
  Repeated slashes defeat the test whether a link leads into the base directory, which compares
  lengths. A link to \<open>/x\<close>, outside of the base directory \<open>/home\<close>, becomes \<open>../x\<close> in the root of the mounted file system.
\<close>

lemma rellink_escapes:
  "map_option (\<lambda>m'. c_string m' 100 64) (transform_symlink \<lparr>sd_base = ''/home/'', sd_baselen = 6, sd_rellinks = True\<rparr> (Some ''/home/y'') 100 64
     (mem_put (\<lambda>_. CHR ''x'') 100 (''//////x'' @ [CHR 0x00]))) = Some (Some ''../x'')"
  by code_simp

end
