(* ===== verification/Fuse_Stack.thy ===== *)
theory Fuse_Stack
  imports Fuse_Subdir Fuse_Links Ram_Props
begin

text \<open>
  File systems on top of each other: a call of the module \<open>subdir\<close> is the same call of the file system below
  with the base directory in front of its paths, and the RAM disk under it is written and read through the
  library.
\<close>

section \<open>Calls as data\<close>

datatype fs_call =
  C_getattr cpath
| C_fgetattr cpath file_info
| C_access cpath int
| C_readlink cpath nat nat
| C_opendir cpath file_info
| C_readdir cpath int file_info
| C_releasedir cpath file_info
| C_mknod cpath nat nat
| C_mkdir cpath nat
| C_unlink cpath
| C_rmdir cpath
| C_symlink string cpath
| C_rename cpath cpath
| C_link cpath cpath
| C_chmod cpath nat
| C_chown cpath nat nat
| C_truncate cpath int
| C_ftruncate cpath int file_info
| C_utimens cpath "timespec \<times> timespec"
| C_create cpath nat file_info
| C_open cpath file_info
| C_read_buf cpath nat int file_info
| C_write_buf cpath fuse_bufvec int file_info
| C_statfs cpath
| C_flush cpath file_info
| C_release cpath file_info
| C_fsync cpath int file_info
| C_fsyncdir cpath int file_info
| C_setxattr cpath string nat nat int
| C_getxattr cpath string nat nat
| C_listxattr cpath nat nat
| C_removexattr cpath string
| C_lock cpath file_info int c_flock
| C_flock cpath file_info int
| C_bmap cpath nat nat
| C_ioctl cpath int nat file_info nat nat
| C_poll cpath file_info "nat option" nat
| C_fallocate cpath int int int file_info

datatype fs_reply =
  R_int int
| R_stat "int \<times> stat option"
| R_fi "int \<times> file_info"
| R_dir "int \<times> (string \<times> attrs) list"
| R_vec "int \<times> fuse_bufvec option"
| R_statfs "int \<times> statvfs option"
| R_lock "int \<times> c_flock"
| R_idx "int \<times> nat"

definition reply :: "('r \<Rightarrow> fs_reply) \<Rightarrow> ('r \<times> 'w) option \<Rightarrow> (fs_reply \<times> 'w) option" where
  "reply f = map_option (\<lambda>(r, w). (f r, w))"

fun fs_do :: "'s sysio \<Rightarrow> ('u, 's) fuse_fs \<Rightarrow> fs_call \<Rightarrow> (('u, 's) fworld, fs_reply) act" where
  "fs_do io fs (C_getattr path) w = reply R_stat (fuse_fs_getattr fs path w)"
| "fs_do io fs (C_fgetattr path fi) w = reply R_stat (fuse_fs_fgetattr fs path fi w)"
| "fs_do io fs (C_access path amask) w = reply R_int (fuse_fs_access fs path amask w)"
| "fs_do io fs (C_readlink path buf sz) w = reply R_int (fuse_fs_readlink fs path buf sz w)"
| "fs_do io fs (C_opendir path fi) w = reply R_fi (fuse_fs_opendir fs path fi w)"
| "fs_do io fs (C_readdir path off fi) w = reply R_dir (fuse_fs_readdir fs path off fi w)"
| "fs_do io fs (C_releasedir path fi) w = reply R_int (fuse_fs_releasedir fs path fi w)"
| "fs_do io fs (C_mknod path mode rdev) w = reply R_int (fuse_fs_mknod fs path mode rdev w)"
| "fs_do io fs (C_mkdir path mode) w = reply R_int (fuse_fs_mkdir fs path mode w)"
| "fs_do io fs (C_unlink path) w = reply R_int (fuse_fs_unlink fs path w)"
| "fs_do io fs (C_rmdir path) w = reply R_int (fuse_fs_rmdir fs path w)"
| "fs_do io fs (C_symlink linkname path) w = reply R_int (fuse_fs_symlink fs linkname path w)"
| "fs_do io fs (C_rename oldpath newpath) w = reply R_int (fuse_fs_rename fs oldpath newpath w)"
| "fs_do io fs (C_link oldpath newpath) w = reply R_int (fuse_fs_link fs oldpath newpath w)"
| "fs_do io fs (C_chmod path mode) w = reply R_int (fuse_fs_chmod fs path mode w)"
| "fs_do io fs (C_chown path uid gid) w = reply R_int (fuse_fs_chown fs path uid gid w)"
| "fs_do io fs (C_truncate path sz) w = reply R_int (fuse_fs_truncate fs path sz w)"
| "fs_do io fs (C_ftruncate path sz fi) w = reply R_int (fuse_fs_ftruncate fs path sz fi w)"
| "fs_do io fs (C_utimens path tv) w = reply R_int (fuse_fs_utimens fs path tv w)"
| "fs_do io fs (C_create path mode fi) w = reply R_fi (fuse_fs_create fs path mode fi w)"
| "fs_do io fs (C_open path fi) w = reply R_fi (fuse_fs_open fs path fi w)"
| "fs_do io fs (C_read_buf path sz off fi) w = reply R_vec (fuse_fs_read_buf fs path sz off fi w)"
| "fs_do io fs (C_write_buf path buf off fi) w = reply R_int (fuse_fs_write_buf io fs path buf off fi w)"
| "fs_do io fs (C_statfs path) w = reply R_statfs (fuse_fs_statfs fs path w)"
| "fs_do io fs (C_flush path fi) w = reply R_int (fuse_fs_flush fs path fi w)"
| "fs_do io fs (C_release path fi) w = reply R_int (fuse_fs_release fs path fi w)"
| "fs_do io fs (C_fsync path datasync fi) w = reply R_int (fuse_fs_fsync fs path datasync fi w)"
| "fs_do io fs (C_fsyncdir path datasync fi) w = reply R_int (fuse_fs_fsyncdir fs path datasync fi w)"
| "fs_do io fs (C_setxattr path name value sz flags) w = reply R_int (fuse_fs_setxattr fs path name value sz flags w)"
| "fs_do io fs (C_getxattr path name value sz) w = reply R_int (fuse_fs_getxattr fs path name value sz w)"
| "fs_do io fs (C_listxattr path lst sz) w = reply R_int (fuse_fs_listxattr fs path lst sz w)"
| "fs_do io fs (C_removexattr path name) w = reply R_int (fuse_fs_removexattr fs path name w)"
| "fs_do io fs (C_lock path fi cmd lock) w = reply R_lock (fuse_fs_lock_call fs path fi cmd lock w)"
| "fs_do io fs (C_flock path fi op) w = reply R_int (fuse_fs_flock fs path fi op w)"
| "fs_do io fs (C_bmap path blocksize idx) w = reply R_idx (fuse_fs_bmap fs path blocksize idx w)"
| "fs_do io fs (C_ioctl path cmd arg fi flags data) w = reply R_int (fuse_fs_ioctl fs path cmd arg fi flags data w)"
| "fs_do io fs (C_poll path fi ph idx) w = reply R_idx (fuse_fs_poll fs path fi ph idx w)"
| "fs_do io fs (C_fallocate path mode off len fi) w = reply R_int (fuse_fs_fallocate fs path mode off len fi w)"

text \<open>The path that the file system below gets.\<close>

definition based :: "subdir \<Rightarrow> cpath \<Rightarrow> cpath" where
  "based d = map_option (\<lambda>p. let q = sd_base d @ (if p \<noteq> [] \<and> hd p = CHR ''/'' then tl p else p) in if q = [] then ''.'' else q)"

fun redirect :: "subdir \<Rightarrow> fs_call \<Rightarrow> fs_call" where
  "redirect d (C_getattr path) = C_getattr (based d path)"
| "redirect d (C_fgetattr path fi) = C_fgetattr (based d path) fi"
| "redirect d (C_access path amask) = C_access (based d path) amask"
| "redirect d (C_readlink path buf sz) = C_readlink (based d path) buf sz"
| "redirect d (C_opendir path fi) = C_opendir (based d path) fi"
| "redirect d (C_readdir path off fi) = C_readdir (based d path) off fi"
| "redirect d (C_releasedir path fi) = C_releasedir (based d path) fi"
| "redirect d (C_mknod path mode rdev) = C_mknod (based d path) mode rdev"
| "redirect d (C_mkdir path mode) = C_mkdir (based d path) mode"
| "redirect d (C_unlink path) = C_unlink (based d path)"
| "redirect d (C_rmdir path) = C_rmdir (based d path)"
| "redirect d (C_symlink linkname path) = C_symlink linkname (based d path)"
| "redirect d (C_rename oldpath newpath) = C_rename (based d oldpath) (based d newpath)"
| "redirect d (C_link oldpath newpath) = C_link (based d oldpath) (based d newpath)"
| "redirect d (C_chmod path mode) = C_chmod (based d path) mode"
| "redirect d (C_chown path uid gid) = C_chown (based d path) uid gid"
| "redirect d (C_truncate path sz) = C_truncate (based d path) sz"
| "redirect d (C_ftruncate path sz fi) = C_ftruncate (based d path) sz fi"
| "redirect d (C_utimens path tv) = C_utimens (based d path) tv"
| "redirect d (C_create path mode fi) = C_create (based d path) mode fi"
| "redirect d (C_open path fi) = C_open (based d path) fi"
| "redirect d (C_read_buf path sz off fi) = C_read_buf (based d path) sz off fi"
| "redirect d (C_write_buf path buf off fi) = C_write_buf (based d path) buf off fi"
| "redirect d (C_statfs path) = C_statfs (based d path)"
| "redirect d (C_flush path fi) = C_flush (based d path) fi"
| "redirect d (C_release path fi) = C_release (based d path) fi"
| "redirect d (C_fsync path datasync fi) = C_fsync (based d path) datasync fi"
| "redirect d (C_fsyncdir path datasync fi) = C_fsyncdir (based d path) datasync fi"
| "redirect d (C_setxattr path name value sz flags) = C_setxattr (based d path) name value sz flags"
| "redirect d (C_getxattr path name value sz) = C_getxattr (based d path) name value sz"
| "redirect d (C_listxattr path lst sz) = C_listxattr (based d path) lst sz"
| "redirect d (C_removexattr path name) = C_removexattr (based d path) name"
| "redirect d (C_lock path fi cmd lock) = C_lock (based d path) fi cmd lock"
| "redirect d (C_flock path fi op) = C_flock (based d path) fi op"
| "redirect d (C_bmap path blocksize idx) = C_bmap (based d path) blocksize idx"
| "redirect d (C_ioctl path cmd arg fi flags data) = C_ioctl (based d path) cmd arg fi flags data"
| "redirect d (C_poll path fi ph idx) = C_poll (based d path) fi ph idx"
| "redirect d (C_fallocate path mode off len fi) = C_fallocate (based d path) mode off len fi"

fun call_paths :: "fs_call \<Rightarrow> cpath list" where
  "call_paths (C_getattr path) = [path]"
| "call_paths (C_fgetattr path fi) = [path]"
| "call_paths (C_access path amask) = [path]"
| "call_paths (C_readlink path buf sz) = [path]"
| "call_paths (C_opendir path fi) = [path]"
| "call_paths (C_readdir path off fi) = [path]"
| "call_paths (C_releasedir path fi) = [path]"
| "call_paths (C_mknod path mode rdev) = [path]"
| "call_paths (C_mkdir path mode) = [path]"
| "call_paths (C_unlink path) = [path]"
| "call_paths (C_rmdir path) = [path]"
| "call_paths (C_symlink linkname path) = [path]"
| "call_paths (C_rename oldpath newpath) = [oldpath, newpath]"
| "call_paths (C_link oldpath newpath) = [oldpath, newpath]"
| "call_paths (C_chmod path mode) = [path]"
| "call_paths (C_chown path uid gid) = [path]"
| "call_paths (C_truncate path sz) = [path]"
| "call_paths (C_ftruncate path sz fi) = [path]"
| "call_paths (C_utimens path tv) = [path]"
| "call_paths (C_create path mode fi) = [path]"
| "call_paths (C_open path fi) = [path]"
| "call_paths (C_read_buf path sz off fi) = [path]"
| "call_paths (C_write_buf path buf off fi) = [path]"
| "call_paths (C_statfs path) = [path]"
| "call_paths (C_flush path fi) = [path]"
| "call_paths (C_release path fi) = [path]"
| "call_paths (C_fsync path datasync fi) = [path]"
| "call_paths (C_fsyncdir path datasync fi) = [path]"
| "call_paths (C_setxattr path name value sz flags) = [path]"
| "call_paths (C_getxattr path name value sz) = [path]"
| "call_paths (C_listxattr path lst sz) = [path]"
| "call_paths (C_removexattr path name) = [path]"
| "call_paths (C_lock path fi cmd lock) = [path]"
| "call_paths (C_flock path fi op) = [path]"
| "call_paths (C_bmap path blocksize idx) = [path]"
| "call_paths (C_ioctl path cmd arg fi flags data) = [path]"
| "call_paths (C_poll path fi ph idx) = [path]"
| "call_paths (C_fallocate path mode off len fi) = [path]"

text \<open>
  \<open>subdir\<close> has no \<open>ioctl\<close>, \<open>poll\<close> and \<open>fallocate\<close>. A vector to be written begins at its start, as the library asserts; the
  result of \<open>readlink\<close> is the one of the file system below unless links are made relative.
\<close>

definition forwarded :: "subdir \<Rightarrow> fs_call \<Rightarrow> bool" where
  "forwarded d c = (case c of
     C_ioctl _ _ _ _ _ _ \<Rightarrow> False
   | C_poll _ _ _ _ \<Rightarrow> False
   | C_fallocate _ _ _ _ _ \<Rightarrow> False
   | C_write_buf _ buf _ _ \<Rightarrow> vec_idx buf = 0 \<and> vec_off buf = 0
   | C_readlink _ _ _ \<Rightarrow> \<not> sd_rellinks d
   | _ \<Rightarrow> True)"

definition short_path :: "subdir \<Rightarrow> cpath \<Rightarrow> bool" where
  "short_path d path = (case path of None \<Rightarrow> True | Some p \<Rightarrow> length (sd_base d) + length p + 2 < 2 ^ 32)"

definition took_path :: "subdir \<Rightarrow> cpath \<Rightarrow> ('u, 's) fworld \<Rightarrow> ('u, 's) fworld" where
  "took_path d path w = (case path of None \<Rightarrow> w | Some p \<Rightarrow> w\<lparr>fbrk := fbrk w + (length (sd_base d) + length p + 2), fcalls := fcalls w + 1\<rparr>)"

definition subdir_fs :: "'s sysio \<Rightarrow> subdir \<Rightarrow> ('x udata, 's) fuse_fs \<Rightarrow> ('x udata, 's) fuse_fs" where
  "subdir_fs io d nxt = \<lparr>fs_op = subdir_oper io nxt, fs_user_data = Sub d\<rparr>"

definition has_memory :: "('u, 's) fworld \<Rightarrow> bool" where
  "has_memory w \<longleftrightarrow> (\<forall>i. falloc w i)"

lemma subdir_addpath_ok:
  assumes "subdir_ok d" and "short_path d path" and "has_memory w"
  shows "subdir_addpath d path w = Some ((0, based d path), took_path d path w)"
proof (cases path)
  case (Some p)
  let ?q = "sd_base d @ (if p \<noteq> [] \<and> hd p = CHR ''/'' then tl p else p)"
  have "(sd_baselen d + length p) mod 2 ^ 32 = length (sd_base d) + length p" "(length (sd_base d) + length p + 2) mod 2 ^ 32 = length (sd_base d) + length p + 2"
    using assms(1,2) Some by (auto simp: subdir_ok_def short_path_def)
  moreover have "length ?q + 1 \<le> length (sd_base d) + length p + 2" by auto
  ultimately show ?thesis using Some assms(3)
    by (simp add: subdir_addpath_def fmalloc_def has_memory_def based_def took_path_def Let_def)
qed (simp add: subdir_addpath_def based_def took_path_def)

lemma enter_twice [simp]: "enter fs (w\<lparr>private_data := u\<rparr>) = enter fs w" "enter fs (enter fs' w) = enter fs w"
  by (simp_all add: enter_def)

lemma took_path_enter: "enter fs (took_path d path (enter fs' w)) = enter fs (took_path d path w)"
  by (cases path) (simp_all add: took_path_def enter_def)

lemmas call_defs =
  fuse_fs_getattr_def fuse_fs_fgetattr_def fuse_fs_access_def fuse_fs_readlink_def fuse_fs_opendir_def
  fuse_fs_readdir_def fuse_fs_releasedir_def fuse_fs_mknod_def fuse_fs_mkdir_def fuse_fs_unlink_def
  fuse_fs_rmdir_def fuse_fs_symlink_def fuse_fs_rename_def fuse_fs_link_def fuse_fs_chmod_def fuse_fs_chown_def
  fuse_fs_truncate_def fuse_fs_ftruncate_def fuse_fs_utimens_def fuse_fs_create_def fuse_fs_open_def
  fuse_fs_statfs_def fuse_fs_flush_def fuse_fs_release_def fuse_fs_fsync_def fuse_fs_fsyncdir_def
  fuse_fs_setxattr_def fuse_fs_getxattr_def fuse_fs_listxattr_def fuse_fs_removexattr_def fuse_fs_lock_call_def
  fuse_fs_flock_def fuse_fs_bmap_def fuse_fs_ioctl_def fuse_fs_poll_def fuse_fs_fallocate_def

lemmas subdir_defs =
  subdir_getattr_def subdir_fgetattr_def subdir_access_def subdir_readlink_def subdir_opendir_def subdir_readdir_def
  subdir_releasedir_def subdir_mknod_def subdir_mkdir_def subdir_unlink_def subdir_rmdir_def subdir_symlink_def
  subdir_rename_def subdir_link_def subdir_chmod_def subdir_chown_def subdir_truncate_def subdir_ftruncate_def
  subdir_utimens_def subdir_create_def subdir_open_def subdir_read_buf_def subdir_write_buf_def subdir_statfs_def
  subdir_flush_def subdir_release_def subdir_fsync_def subdir_fsyncdir_def subdir_setxattr_def subdir_getxattr_def
  subdir_listxattr_def subdir_removexattr_def subdir_lock_def subdir_flock_def subdir_bmap_def subdir_oper_def

definition took_paths :: "subdir \<Rightarrow> fs_call \<Rightarrow> ('u, 's) fworld \<Rightarrow> ('u, 's) fworld" where
  "took_paths d c w = fold (took_path d) (call_paths c) w"

lemma has_memory_enter [simp]: "has_memory (enter fs w) = has_memory w" "has_memory (took_path d path w) = has_memory w"
  by (auto simp: has_memory_def enter_def took_path_def split: option.splits)

text \<open>A call depends on the state only through what it is after the private data are set.\<close>

lemma fs_do_enter: "fs_do io fs c (enter fs' w) = fs_do io fs c w"
  by (cases c) (simp_all add: call_defs fuse_fs_read_buf_def fuse_fs_write_buf_def)

lemma fs_do_took: "fs_do io fs c (took_path d path (enter fs' w)) = fs_do io fs c (took_path d path w)"
proof -
  have "took_path d path (enter fs' w) = enter fs' (took_path d path w)" by (cases path) (simp_all add: took_path_def enter_def)
  then show ?thesis by (simp add: fs_do_enter)
qed

lemma took_path_commute: "took_path d path (enter fs w) = enter fs (took_path d path w)"
  by (cases path) (simp_all add: took_path_def enter_def)

lemma subdir_get_enter [simp]: "subdir_get (enter (subdir_fs io d nxt) w) = Some d"
  by (simp add: subdir_get_def enter_def subdir_fs_def)

lemma read_buf_result: "fuse_fs_read_buf fs path sz off fi w = Some ((res, buf), w') \<Longrightarrow> res \<le> 0"
  by (auto simp: fuse_fs_read_buf_def Let_def ENOMEM_def ENOSYS_def split: option.splits prod.splits if_splits Option.bind_splits)

lemma read_buf_enter: "fuse_fs_read_buf fs path sz off fi (enter fs' w) = fuse_fs_read_buf fs path sz off fi w"
  by (simp add: fuse_fs_read_buf_def)

lemma write_buf_enter: "fuse_fs_write_buf io fs path buf off fi (enter fs' w) = fuse_fs_write_buf io fs path buf off fi w"
  by (simp add: fuse_fs_write_buf_def)

lemma subdir_call:
  assumes "subdir_ok d" and "forwarded d c" and "list_all (short_path d) (call_paths c)" and "has_memory w"
  shows "fs_do io (subdir_fs io d nxt) c w = fs_do io nxt (redirect d c) (took_paths d c w)"
proof -
  let ?w = "enter (subdir_fs io d nxt) w"
  let ?fs = "subdir_fs io d nxt"
  have add: "subdir_addpath d path ?w = Some ((0, based d path), enter ?fs (took_path d path w))" if "short_path d path" for path
    using subdir_addpath_ok [OF assms(1) that, of ?w] assms(4) by (simp add: took_path_commute)
  have add2: "subdir_addpath d path' (enter ?fs (took_path d path w)) = Some ((0, based d path'), enter ?fs (took_path d path' (took_path d path w)))"
    if "short_path d path'" for path path'
    using subdir_addpath_ok [OF assms(1) that, of "enter ?fs (took_path d path w)"] assms(4) by (simp add: took_path_commute)
  have op: "fs_op (subdir_fs io d nxt) = subdir_oper io nxt" by (simp add: subdir_fs_def)
  show ?thesis
  proof (cases c)
    case (C_read_buf path sz off fi)
    have "fuse_fs_read_buf (subdir_fs io d nxt) path sz off fi w = fuse_fs_read_buf nxt (based d path) sz off fi (took_path d path w)"
    proof -
      have "fuse_fs_read_buf (subdir_fs io d nxt) path sz off fi w =
          (do { ((res, buf), w2) \<leftarrow> fuse_fs_read_buf nxt (based d path) sz off fi (took_path d path w); Some ((if res < 0 then res else 0, buf), w2) })"
        using assms(3) add C_read_buf read_buf_enter [of nxt "based d path" sz off fi "subdir_fs io d nxt"]
        by (simp add: fuse_fs_read_buf_def [of "subdir_fs io d nxt"] op subdir_oper_def subdir_read_buf_def)
      also have "\<dots> = fuse_fs_read_buf nxt (based d path) sz off fi (took_path d path w)"
        using read_buf_result by (cases "fuse_fs_read_buf nxt (based d path) sz off fi (took_path d path w)") fastforce+
      finally show ?thesis .
    qed
    then show ?thesis using C_read_buf by (simp add: took_paths_def)
  next
    case (C_write_buf path buf off fi)
    then show ?thesis using assms add write_buf_enter [of io nxt "based d path" buf off fi "subdir_fs io d nxt"]
      by (simp add: fuse_fs_write_buf_def [of io "subdir_fs io d nxt"] op subdir_oper_def subdir_write_buf_def took_paths_def forwarded_def)
  qed (use assms add add2 in \<open>simp_all add: call_defs op subdir_defs took_paths_def forwarded_def\<close>)
qed

lemma reply_eq: "reply R_int x = reply R_int x' \<longleftrightarrow> x = x'" "reply R_vec y = reply R_vec y' \<longleftrightarrow> y = y'"
  by (cases x; cases x'; cases y; cases y'; auto simp: reply_def)+

lemma subdir_write: "subdir_ok d \<Longrightarrow> short_path d path \<Longrightarrow> has_memory w \<Longrightarrow>
    fuse_fs_write io (subdir_fs io d nxt) path mem sz off fi w = fuse_fs_write io nxt (based d path) mem sz off fi (took_path d path w)"
  using subdir_call [of d "C_write_buf path (mem_bufvec mem sz) off fi" w io nxt]
  by (simp add: fuse_fs_write_def forwarded_def took_paths_def mem_bufvec_def FUSE_BUFVEC_INIT_def reply_eq)

lemma subdir_read: "subdir_ok d \<Longrightarrow> short_path d path \<Longrightarrow> has_memory w \<Longrightarrow>
    fuse_fs_read io (subdir_fs io d nxt) path mem sz off fi w = fuse_fs_read io nxt (based d path) mem sz off fi (took_path d path w)"
  using subdir_call [of d "C_read_buf path sz off fi" w io nxt] by (simp add: fuse_fs_read_def forwarded_def took_paths_def reply_eq)

text \<open>What \<open>subdir_new\<close> returns has a base directory with a final slash and its right length.\<close>

lemma subdir_new_ok:
  assumes "subdir_new io opts nxts w = (Some fs, w')"
  shows "\<exists>d nxt. nxts = [nxt] \<and> fs = subdir_fs io d nxt \<and> subdir_ok d"
  using assms
  by (auto simp: subdir_new_def add_slash_def fuse_fs_new_def subdir_fs_def subdir_ok_def split: option.splits prod.splits list.splits if_splits)

section \<open>The RAM disk\<close>

text \<open>
  The operations of \<open>hw4/ramdisk.c\<close> as the library calls them, at the time \<open>now\<close>; \<open>junk\<close> is what new memory holds. A
  buffer has the size that is passed with it.
\<close>

definition ram_operations :: "int \<Rightarrow> dptr \<Rightarrow> ('u, ramdisk) fworld fuse_operations" where
  "ram_operations now junk = \<lparr>
     op_getattr = Some (\<lambda>path w. do { (r, st) \<leftarrow> rd_getattr now (fsys w) path; Some ((r, st), w) }),
     op_fgetattr = Some (\<lambda>path fi w. do { (r, st) \<leftarrow> rd_fgetattr now (fsys w) path; Some ((r, st), w) }),
     op_access = Some (\<lambda>path amask w. Some (rd_access path, w)),
     op_readlink = None,
     op_opendir = Some (\<lambda>path fi w. do { r \<leftarrow> rd_opendir (fsys w) path; Some ((r, fi), w) }),
     op_readdir = Some (\<lambda>path off fi w. do { (r, es) \<leftarrow> rd_readdir now (fsys w) path; Some ((r, map (\<lambda>(n, st). (n, Attr st)) es), w) }),
     op_releasedir = None,
     op_mknod = None,
     op_mkdir = Some (\<lambda>path mode w. do { (r, s) \<leftarrow> rd_mkdir junk (fsys w) path; Some (r, w\<lparr>fsys := s\<rparr>) }),
     op_unlink = Some (\<lambda>path w. do { (r, s) \<leftarrow> rd_unlink (fsys w) path; Some (r, w\<lparr>fsys := s\<rparr>) }),
     op_rmdir = Some (\<lambda>path w. do { (r, s) \<leftarrow> rd_rmdir (fsys w) path; Some (r, w\<lparr>fsys := s\<rparr>) }),
     op_symlink = None,
     op_rename = Some (\<lambda>oldpath newpath w. Some (rd_rename oldpath newpath, w)),
     op_link = None,
     op_chmod = None,
     op_chown = None,
     op_truncate = None,
     op_ftruncate = None,
     op_utimens = Some (\<lambda>path tv w. Some (rd_utimens path, w)),
     op_create = Some (\<lambda>path mode fi w. do { (r, s) \<leftarrow> rd_create junk (fsys w) path; Some ((r, fi), w\<lparr>fsys := s\<rparr>) }),
     op_open = Some (\<lambda>path fi w. do { (r, s) \<leftarrow> rd_open (fsys w) path (fi_flags fi); Some ((r, fi), w\<lparr>fsys := s\<rparr>) }),
     op_read_buf = None,
     op_write_buf = None,
     op_statfs = Some (\<lambda>path w. do { (r, st) \<leftarrow> rd_statfs (fsys w); Some ((r, Some st), w) }),
     op_flush = Some (\<lambda>path fi w. do { r \<leftarrow> rd_flush (fsys w) path; Some (r, w) }),
     op_release = None,
     op_fsync = None,
     op_fsyncdir = None,
     op_setxattr = None,
     op_getxattr = None,
     op_listxattr = None,
     op_removexattr = None,
     op_lock = None,
     op_flock = None,
     op_bmap = None,
     op_ioctl = None,
     op_poll = None,
     op_fallocate = None,
     op_getdir = None,
     op_utime = None,
     op_read = Some (\<lambda>path mem sz off fi w. do { (r, bs) \<leftarrow> rd_read (fsys w) path sz sz off; Some (r, w\<lparr>fmem := mem_put (fmem w) mem bs\<rparr>) }),
     op_write = Some (\<lambda>path mem sz off fi w. do { (r, s) \<leftarrow> rd_write (fsys w) path (mem_get (fmem w) mem sz) off; Some (r, w\<lparr>fsys := s\<rparr>) })\<rparr>"

definition ram_fs :: "int \<Rightarrow> dptr \<Rightarrow> 'u \<Rightarrow> ('u, ramdisk) fuse_fs" where
  "ram_fs now junk u = \<lparr>fs_op = ram_operations now junk, fs_user_data = u\<rparr>"

lemma ram_write:
  "fuse_fs_write io (ram_fs now junk u) path mem sz off fi w =
     (do { (r, s) \<leftarrow> rd_write (fsys w) path (mem_get (fmem w) mem sz) off; Some (r, w\<lparr>private_data := u, fsys := s\<rparr>) })"
  by (simp add: fuse_fs_write_def fuse_fs_write_buf_def ram_fs_def ram_operations_def mem_bufvec_def FUSE_BUFVEC_INIT_def has_flag_def enter_def)

lemma mem_bufvec_addrs:
  "vec_addrs (mem_bufvec a n) = [a ..< a + n]" "all_mem (mem_bufvec a n)" "vec_ok (mem_bufvec a n)"
  by (simp_all add: vec_addrs_def mem_bufvec_def FUSE_BUFVEC_INIT_def buf_addrs_def all_mem_def has_flag_def vec_ok_def fuse_bufvec_current_def)

lemma ram_read:
  assumes "has_memory w" and r: "rd_read (fsys w) path sz sz off = Some (r, bs)" and "0 \<le> r" "nat r \<le> sz" "r \<le> INT_MAX"
    and "dst + sz \<le> fbrk w"
  shows "\<exists>w'. fuse_fs_read io (ram_fs now junk u) path dst sz off fi w = Some (r, w') \<and> fsys w' = fsys w \<and>
    mem_get (fmem w') dst (nat r) = mem_get (mem_put (fmem w) (fbrk w) bs) (fbrk w) (nat r)"
proof -
  let ?m = "mem_put (fmem w) (fbrk w) bs"
  let ?w = "w\<lparr>private_data := u, fmem := ?m, fbrk := fbrk w + sz, fcalls := fcalls w + 2\<rparr>"
  have buf: "fuse_fs_read_buf (ram_fs now junk u) path sz off fi w = Some ((0, Some (mem_bufvec (fbrk w) (nat r))), ?w)"
    using assms(1-3) by (simp add: fuse_fs_read_buf_def ram_fs_def ram_operations_def enter_def fmalloc_def has_memory_def)
  obtain dv sv where copy: "fuse_buf_copy io False (mem_bufvec dst sz) (mem_bufvec (fbrk w) (nat r)) 0 (?m, fsys w) =
      Some (int (nat r), dv, sv, mem_store ?m (take (nat r) [dst ..< dst + sz]) (map ?m (take (nat r) [fbrk w ..< fbrk w + nat r])), fsys w)"
    using copy_loop_mem [of "mem_bufvec dst sz" "mem_bufvec (fbrk w) (nat r)" "nat r" io 0 0 ?m "fsys w"] assms(4,6)
    by (auto simp: fuse_buf_copy_def mem_bufvec_addrs)
  let ?m' = "mem_store ?m [dst ..< dst + nat r] (map ?m [fbrk w ..< fbrk w + nat r])"
  have "fuse_fs_read io (ram_fs now junk u) path dst sz off fi w = Some (r, ?w\<lparr>fmem := ?m'\<rparr>)"
    using buf copy assms(3-5) by (simp add: fuse_fs_read_def int32_id int_range_def INT_MIN_def)
  moreover have "mem_get ?m' dst (nat r) = mem_get ?m (fbrk w) (nat r)" by (simp add: mem_get_def mem_store_same)
  ultimately show ?thesis by (intro exI [of _ "?w\<lparr>fmem := ?m'\<rparr>"]) simp
qed

lemma based_path:
  assumes "bs \<noteq> []" and "sd_base d = path_of bs @ ''/''"
  shows "based d (Some (path_of (ds @ [n]))) = Some (path_of (bs @ ds @ [n]))"
proof -
  have "path_of (bs @ ds @ [n]) = path_of bs @ path_of (ds @ [n])" using assms(1) by (simp add: path_of_def)
  moreover have "path_of (ds @ [n]) \<noteq> []" "hd (path_of (ds @ [n])) = CHR ''/''" by (cases ds; simp add: path_of_def)+
  ultimately have "path_of (bs @ ds @ [n]) = (path_of bs @ ''/'') @ tl (path_of (ds @ [n]))" by (cases "path_of (ds @ [n])") simp_all
  then show ?thesis using assms(2) \<open>path_of (ds @ [n]) \<noteq> []\<close> \<open>hd (path_of (ds @ [n])) = CHR ''/''\<close> by (simp add: based_def Let_def)
qed

definition stack_world :: "(unit udata, ramdisk) fworld" where
  "stack_world = \<lparr>private_data = App (), fmem = text_memory, fbrk = 1000, falloc = (\<lambda>i. True), fcalls = 0, fsys = demo_disk\<rparr>"

definition stack_subdir :: subdir where
  "stack_subdir = \<lparr>sd_base = ''/d/'', sd_baselen = 3, sd_rellinks = False\<rparr>"

definition no_io :: "ramdisk sysio" where
  "no_io = \<lparr>sys_write = (\<lambda>fd bs k. (Inl 9, k)), sys_pwrite = (\<lambda>fd bs p k. (Inl 9, k)), sys_read = (\<lambda>fd n k. (Inl 9, k)),
     sys_pread = (\<lambda>fd n p k. (Inl 9, k)), sys_splice = None, stack_buf = 0\<rparr>"

lemma stack_facts: "subdir_ok stack_subdir" "has_memory stack_world" "fsys stack_world = demo_disk"
  by (simp_all add: subdir_ok_def stack_subdir_def has_memory_def stack_world_def)

section \<open>Properties\<close>

text \<open>
  Property C9: a call to a file system under the module \<open>subdir\<close> does what the same call does to the file system
  below with the base directory in front of every path, and gives the same answer. Each layer finds its
  own private data. The calls that the module does not pass on (\<open>ioctl\<close>, \<open>poll\<close>, \<open>fallocate\<close>) and \<open>readlink\<close> with relative
  links are excluded, and there is memory for the longer paths.
\<close>

theorem subdir_redirects:
  assumes "subdir_ok d" and "forwarded d c" and "list_all (short_path d) (call_paths c)" and "has_memory w"
  shows "fs_do io (subdir_fs io d nxt) c w = fs_do io nxt (redirect d c) (took_paths d c w)"
  using assms by (rule subdir_call)

theorem subdir_redirects_witness:
  "fs_do no_io (subdir_fs no_io stack_subdir (ram_fs 0 NullPtr (App ()))) (C_getattr (Some ''/f'')) stack_world =
   fs_do no_io (ram_fs 0 NullPtr (App ())) (C_getattr (Some ''/d/f'')) (took_paths stack_subdir (C_getattr (Some ''/f'')) stack_world)"
proof -
  have "redirect stack_subdir (C_getattr (Some ''/f'')) = C_getattr (Some ''/d/f'')" by code_simp
  moreover have "forwarded stack_subdir (C_getattr (Some ''/f''))" "list_all (short_path stack_subdir) (call_paths (C_getattr (Some ''/f'')))"
    by (simp_all add: forwarded_def short_path_def stack_subdir_def)
  ultimately show ?thesis using subdir_redirects [OF stack_facts(1) _ _ stack_facts(2), of "C_getattr (Some ''/f'')" no_io "ram_fs 0 NullPtr (App ())"] by simp
qed

text \<open>
  Property C14: what a program writes to a file at the end of a path it reads back, through the library, the module
  \<open>subdir\<close> and the RAM disk: if a file ends with the bytes written, and a larger buffer is offered, these bytes are
  returned in it.
\<close>

theorem stack_write_read:
  fixes w :: "('x udata, ramdisk) fworld"
  assumes "subdir_ok d" and "bs \<noteq> []" and "sd_base d = path_of bs @ ''/''" and "short_path d (Some (path_of (ds @ [n])))" and "has_memory w"
    and "rd_inv (fsys w)" and "list_all good_name (bs @ ds @ [n])" and "view (fsys w) (bs @ ds @ [n]) = Some (File x)"
    and "CHR 0x00 \<notin> set x" and "off \<le> length x" and "length x \<le> off + len" and "0 < len" and "len < sz"
    and "int (off + sz) \<le> INT_MAX" and "current_bytes (fsys w) + int (off + len - length x) \<le> max_bytes (fsys w)"
    and "dst + sz \<le> fbrk w" and fs: "fs = subdir_fs io d (ram_fs now junk (App u))"
  shows "\<exists>w1 w2. fuse_fs_write io fs (Some (path_of (ds @ [n]))) src len (int off) fi w = Some (int len, w1) \<and>
    fuse_fs_read io fs (Some (path_of (ds @ [n]))) dst sz (int off) fi w1 = Some (int len, w2) \<and>
    mem_get (fmem w2) dst len = mem_get (fmem w) src len"
proof -
  let ?p = "Some (path_of (ds @ [n]))" and ?q = "Some (path_of ((bs @ ds) @ [n]))" and ?data = "mem_get (fmem w) src len"
  have q: "based d ?p = ?q" using based_path [OF assms(2,3)] by simp
  have g: "\<forall>m \<in> set ((bs @ ds) @ [n]). good_name m" and v: "view (fsys w) ((bs @ ds) @ [n]) = Some (File x)"
    using assms(7,8) by (simp_all add: list_all_iff)
  obtain pa a where pa: "dir_at (heap (fsys w)) (rd_root (fsys w)) (bs @ ds) = Some pa" "child (heap (fsys w)) pa n = Some a"
    using file_entry [OF assms(6) v] by blast
  have b: "int (off + length ?data) \<le> INT_MAX" using assms(13,14) by simp
  have quota: "0 < int (off + length ?data - length x) \<longrightarrow> current_bytes (fsys w) + int (off + length ?data - length x) \<le> max_bytes (fsys w)"
    using assms(15) by (simp only: length_mem_get simp_thms)
  obtain s where s: "rd_write (fsys w) ?q ?data (int off) = Some (int len, s)" "rd_inv s" "view s ((bs @ ds) @ [n]) = Some (File (overwrite x off ?data))"
    using write_core [OF assms(6) g pa v assms(10) b refl quota] kept_id [of "off + length ?data" x] assms(9) by auto
  let ?w1 = "(took_path d ?p w)\<lparr>private_data := App u, fsys := s\<rparr>"
  have m: "fmem (took_path d ?p w) = fmem w" "fsys (took_path d ?p w) = fsys w" "fbrk w \<le> fbrk (took_path d ?p w)" for w :: "('x udata, ramdisk) fworld"
    by (simp_all add: took_path_def)
  have wr: "fuse_fs_write io fs ?p src len (int off) fi w = Some (int len, ?w1)"
    using s(1) by (simp add: fs subdir_write [OF assms(1,4,5)] q ram_write m)
  have len: "length (overwrite x off ?data) = off + len" using length_overwrite [OF assms(10), of ?data] assms(11) by simp
  have dr: "take len (drop off (overwrite x off ?data)) = ?data" using assms(10) by (simp add: overwrite_def)
  have rd: "rd_read s ?q sz sz (int off) = Some (int len, ?data @ [CHR 0x00])"
    using read_at [OF s(2) g s(3) assms(14), of sz] len dr assms(12,13) by (simp add: Let_def)
  have hm: "has_memory ?w1" "has_memory (took_path d ?p ?w1)" using assms(5) by (simp_all add: has_memory_def took_path_def)
  obtain w2 where w2: "fuse_fs_read io (ram_fs now junk (App u)) ?q dst sz (int off) fi (took_path d ?p ?w1) = Some (int len, w2)"
      "mem_get (fmem w2) dst len = mem_get (mem_put (fmem w) (fbrk (took_path d ?p ?w1)) (?data @ [CHR 0x00])) (fbrk (took_path d ?p ?w1)) len"
    using ram_read [OF hm(2), of ?q sz "int off" "int len" "?data @ [CHR 0x00]" dst io now junk "App u" fi] rd assms(13,14,16) m(3) [of w] m(3) [of ?w1] m
    by (auto simp: took_path_def)
  have "mem_get (fmem w2) dst len = ?data"
    using w2(2) mem_get_put [of "fmem w" "fbrk (took_path d ?p ?w1)" "?data @ [CHR 0x00]"]
      mem_get_append [of "mem_put (fmem w) (fbrk (took_path d ?p ?w1)) (?data @ [CHR 0x00])" "fbrk (took_path d ?p ?w1)" len 1] by simp
  moreover have "fuse_fs_read io fs ?p dst sz (int off) fi ?w1 = Some (int len, w2)"
    using w2(1) by (simp add: fs subdir_read [OF assms(1,4) hm(1)] q)
  ultimately show ?thesis using wr by blast
qed

theorem stack_write_read_witness:
  "\<exists>w1 w2. fuse_fs_write no_io (subdir_fs no_io stack_subdir (ram_fs 0 NullPtr (App ()))) (Some (path_of ([] @ [''f'']))) 10 6 (int 5) \<lparr>fi_flags = 0, fi_fh = 0\<rparr> stack_world =
      Some (int 6, w1) \<and>
    fuse_fs_read no_io (subdir_fs no_io stack_subdir (ram_fs 0 NullPtr (App ()))) (Some (path_of ([] @ [''f'']))) 40 9 (int 5) \<lparr>fi_flags = 0, fi_fh = 0\<rparr> w1 =
      Some (int 6, w2) \<and>
    mem_get (fmem w2) 40 6 = mem_get (fmem stack_world) 10 6"
proof (rule stack_write_read [where bs = "[''d'']" and x = "''hello''", OF stack_facts(1) _ _ _ stack_facts(2)])
  show "rd_inv (fsys stack_world)" "view (fsys stack_world) ([''d''] @ [] @ [''f'']) = Some (File ''hello'')"
    using demo_inv demo_view(2) by (simp_all add: stack_facts(3))
qed (simp_all add: stack_subdir_def stack_world_def path_of_def short_path_def good_name_def INT_MAX_def demo_disk_def)

text \<open>
  Property C40: the library and the RAM disk do not fit together. The library allocates exactly the number of bytes that
  are to be read, and \<open>rd_read\<close> stores a \<open>NUL\<close> behind them: every read that lies inside a file writes behind
  the allocated memory.
\<close>

theorem ram_read_overruns:
  assumes "rd_inv (fsys w)" and "list_all good_name (ds @ [n])" and "view (fsys w) (ds @ [n]) = Some (File x)" and "has_memory w"
    and "0 < sz" and "off + sz \<le> length x" and "int (off + sz) \<le> INT_MAX"
  shows "fuse_fs_read io (ram_fs now junk u) (Some (path_of (ds @ [n]))) dst sz (int off) fi w = None"
proof -
  have "\<forall>m \<in> set (ds @ [n]). good_name m" using assms(2) by (simp add: list_all_iff)
  then have "rd_read (fsys w) (Some (path_of (ds @ [n]))) sz sz (int off) = None"
    using read_at [OF assms(1) _ assms(3,7), of sz] assms(5,6) by (simp add: Let_def)
  then show ?thesis using assms(4)
    by (simp add: fuse_fs_read_def fuse_fs_read_buf_def ram_fs_def ram_operations_def enter_def fmalloc_def has_memory_def)
qed

theorem ram_read_overruns_witness:
  "fuse_fs_read no_io (ram_fs 0 NullPtr (App ())) (Some (path_of ([''d''] @ [''f'']))) 40 4 (int 1) \<lparr>fi_flags = 0, fi_fh = 0\<rparr> stack_world = None"
  by (rule ram_read_overruns [where x = "''hello''"])
    (use demo_inv demo_view(2) demo_names stack_facts(2) in \<open>simp_all add: stack_facts(3) INT_MAX_def\<close>)

end
