(* ===== verification/Fuse_Iconv.thy ===== *)
theory Fuse_Iconv
  imports Fuse_Subdir
begin

text \<open>
  The module \<open>iconv\<close> of the FUSE library, \<open>fuse-2.9.3/lib/modules/iconv.c\<close>, a stacked file system that converts the
  names of files between two encodings. The library function \<open>iconv\<close> is a parameter that works on the state of the
  system, where its conversion descriptors are; the module's own record is the library with the file system below.
  Entries of a directory are converted when the file system below has listed them.
\<close>

section \<open>Conversion\<close>

text \<open>
  An answer of \<open>iconv\<close>: all of the input was converted, there was no room for more, or the input is invalid. It says how
  many bytes were consumed, and which bytes were written. The flag selects \<open>ic->fromfs\<close> or \<open>ic->tofs\<close>.
\<close>

datatype iconv_answer = Converted | TooBig | Invalid

record 's iconv_lib =
  ic_conv :: "bool \<Rightarrow> string \<Rightarrow> nat \<Rightarrow> 's \<Rightarrow> (iconv_answer \<times> nat \<times> string) \<times> 's"
  ic_reset :: "bool \<Rightarrow> 's \<Rightarrow> 's"

definition EILSEQ :: int where
  "EILSEQ = 84"

text \<open>
  The loop of \<open>iconv_convpath\<close>: the rest of the path, the room left and the bytes written so far; the result is the
  new path or an error. It may run forever.
\<close>

partial_function (option) conv_loop :: "'s iconv_lib \<Rightarrow> bool \<Rightarrow> string \<Rightarrow> nat \<Rightarrow> string \<Rightarrow> ('u, 's) fworld \<Rightarrow> ((int + string) \<times> ('u, 's) fworld) option" where
  "conv_loop lib fromfs path plen acc w =
     (case ic_conv lib fromfs path plen (fsys w) of ((ans, n, bs), s) \<Rightarrow>
        let w1 = w\<lparr>fsys := s\<rparr>; path1 = drop n path; plen1 = plen - length bs in
        (case ans of
           Converted \<Rightarrow> Some (Inr (acc @ bs), w1)
         | Invalid \<Rightarrow> Some (Inl (- EILSEQ), w1\<lparr>fsys := ic_reset lib fromfs s\<rparr>)
         | TooBig \<Rightarrow>
             let inc = (length path1 + 1) * 4 in
             (case fmalloc inc w1 of
                (None, w2) \<Rightarrow> Some (Inl (- ENOMEM), w2\<lparr>fsys := ic_reset lib fromfs s\<rparr>)
              | (Some _, w2) \<Rightarrow> conv_loop lib fromfs path1 (plen1 + inc) (acc @ bs) w2)))"

declare conv_loop.simps [code]

definition iconv_convpath :: "'s iconv_lib \<Rightarrow> cpath \<Rightarrow> bool \<Rightarrow> (('u, 's) fworld, int \<times> cpath) act" where
  "iconv_convpath lib path fromfs w = (case path of
     None \<Rightarrow> Some ((0, None), w)
   | Some p \<Rightarrow> (case fmalloc (length p * 4 + 1) w of
       (None, w1) \<Rightarrow> Some ((- ENOMEM, None), w1)
     | (Some _, w1) \<Rightarrow> do {
         (r, w2) \<leftarrow> conv_loop lib fromfs p (length p * 4) [] w1;
         Some (case r of Inl err \<Rightarrow> (err, None) | Inr new \<Rightarrow> (0, Some (takeWhile (\<lambda>c. c \<noteq> CHR 0x00) new)), w2) }))"

section \<open>Operations\<close>

text \<open>\<open>iconv_dir_fill\<close> leaves out a name that cannot be converted.\<close>

fun iconv_dir_fill :: "'s iconv_lib \<Rightarrow> (string \<times> attrs) list \<Rightarrow> (('u, 's) fworld, (string \<times> attrs) list) act" where
  "iconv_dir_fill lib [] w = Some ([], w)"
| "iconv_dir_fill lib ((name, st) # es) w = do {
     ((err, newname), w1) \<leftarrow> iconv_convpath lib (Some name) True w;
     (rest, w2) \<leftarrow> iconv_dir_fill lib es w1;
     Some (if err = 0 then (the newname, st) # rest else rest, w2) }"

text \<open>\<open>strncpy\<close> of the new link, and a \<open>NUL\<close> in the last byte.\<close>

definition store_link :: "nat \<Rightarrow> nat \<Rightarrow> string \<Rightarrow> memory \<Rightarrow> memory" where
  "store_link buf sz link m = mem_put (mem_put m buf (take (sz - 1) (link @ replicate (sz - 1) (CHR 0x00)))) (buf + (sz - 1)) [CHR 0x00]"

definition iconv_getattr :: "'s iconv_lib \<Rightarrow> ('u, 's) fuse_fs \<Rightarrow> cpath \<Rightarrow> (('u, 's) fworld, int \<times> stat option) act" where
  "iconv_getattr lib nxt path w = do {
     ((err, newpath), w1) \<leftarrow> iconv_convpath lib path False w;
     if err \<noteq> 0 then Some ((err, None), w1) else fuse_fs_getattr nxt newpath w1 }"

definition iconv_fgetattr :: "'s iconv_lib \<Rightarrow> ('u, 's) fuse_fs \<Rightarrow> cpath \<Rightarrow> file_info \<Rightarrow> (('u, 's) fworld, int \<times> stat option) act" where
  "iconv_fgetattr lib nxt path fi w = do {
     ((err, newpath), w1) \<leftarrow> iconv_convpath lib path False w;
     if err \<noteq> 0 then Some ((err, None), w1) else fuse_fs_fgetattr nxt newpath fi w1 }"

definition iconv_access :: "'s iconv_lib \<Rightarrow> ('u, 's) fuse_fs \<Rightarrow> cpath \<Rightarrow> int \<Rightarrow> (('u, 's) fworld, int) act" where
  "iconv_access lib nxt path amask w = do {
     ((err, newpath), w1) \<leftarrow> iconv_convpath lib path False w;
     if err \<noteq> 0 then Some (err, w1) else fuse_fs_access nxt newpath amask w1 }"

definition iconv_readlink :: "'s iconv_lib \<Rightarrow> ('u, 's) fuse_fs \<Rightarrow> cpath \<Rightarrow> nat \<Rightarrow> nat \<Rightarrow> (('u, 's) fworld, int) act" where
  "iconv_readlink lib nxt path buf sz w = do {
     ((err, newpath), w1) \<leftarrow> iconv_convpath lib path False w;
     if err \<noteq> 0 then Some (err, w1)
     else do {
       (err, w2) \<leftarrow> fuse_fs_readlink nxt newpath buf sz w1;
       if err \<noteq> 0 then Some (err, w2)
       else do {
         link \<leftarrow> c_string (fmem w2) buf sz;
         ((err, newlink), w3) \<leftarrow> iconv_convpath lib (Some link) True w2;
         if err \<noteq> 0 then Some (err, w3)
         else Some (0, w3\<lparr>fmem := store_link buf sz (the newlink) (fmem w3)\<rparr>) } } }"

definition iconv_opendir :: "'s iconv_lib \<Rightarrow> ('u, 's) fuse_fs \<Rightarrow> cpath \<Rightarrow> file_info \<Rightarrow> (('u, 's) fworld, int \<times> file_info) act" where
  "iconv_opendir lib nxt path fi w = do {
     ((err, newpath), w1) \<leftarrow> iconv_convpath lib path False w;
     if err \<noteq> 0 then Some ((err, fi), w1) else fuse_fs_opendir nxt newpath fi w1 }"

definition iconv_readdir :: "'s iconv_lib \<Rightarrow> ('u, 's) fuse_fs \<Rightarrow> cpath \<Rightarrow> int \<Rightarrow> file_info \<Rightarrow> (('u, 's) fworld, int \<times> (string \<times> attrs) list) act" where
  "iconv_readdir lib nxt path off fi w = do {
     ((err, newpath), w1) \<leftarrow> iconv_convpath lib path False w;
     if err \<noteq> 0 then Some ((err, []), w1)
     else do {
       ((err, es), w2) \<leftarrow> fuse_fs_readdir nxt newpath off fi w1;
       (es1, w3) \<leftarrow> iconv_dir_fill lib es w2;
       Some ((err, es1), w3) } }"

definition iconv_releasedir :: "'s iconv_lib \<Rightarrow> ('u, 's) fuse_fs \<Rightarrow> cpath \<Rightarrow> file_info \<Rightarrow> (('u, 's) fworld, int) act" where
  "iconv_releasedir lib nxt path fi w = do {
     ((err, newpath), w1) \<leftarrow> iconv_convpath lib path False w;
     if err \<noteq> 0 then Some (err, w1) else fuse_fs_releasedir nxt newpath fi w1 }"

definition iconv_mknod :: "'s iconv_lib \<Rightarrow> ('u, 's) fuse_fs \<Rightarrow> cpath \<Rightarrow> nat \<Rightarrow> nat \<Rightarrow> (('u, 's) fworld, int) act" where
  "iconv_mknod lib nxt path mode rdev w = do {
     ((err, newpath), w1) \<leftarrow> iconv_convpath lib path False w;
     if err \<noteq> 0 then Some (err, w1) else fuse_fs_mknod nxt newpath mode rdev w1 }"

definition iconv_mkdir :: "'s iconv_lib \<Rightarrow> ('u, 's) fuse_fs \<Rightarrow> cpath \<Rightarrow> nat \<Rightarrow> (('u, 's) fworld, int) act" where
  "iconv_mkdir lib nxt path mode w = do {
     ((err, newpath), w1) \<leftarrow> iconv_convpath lib path False w;
     if err \<noteq> 0 then Some (err, w1) else fuse_fs_mkdir nxt newpath mode w1 }"

definition iconv_unlink :: "'s iconv_lib \<Rightarrow> ('u, 's) fuse_fs \<Rightarrow> cpath \<Rightarrow> (('u, 's) fworld, int) act" where
  "iconv_unlink lib nxt path w = do {
     ((err, newpath), w1) \<leftarrow> iconv_convpath lib path False w;
     if err \<noteq> 0 then Some (err, w1) else fuse_fs_unlink nxt newpath w1 }"

definition iconv_rmdir :: "'s iconv_lib \<Rightarrow> ('u, 's) fuse_fs \<Rightarrow> cpath \<Rightarrow> (('u, 's) fworld, int) act" where
  "iconv_rmdir lib nxt path w = do {
     ((err, newpath), w1) \<leftarrow> iconv_convpath lib path False w;
     if err \<noteq> 0 then Some (err, w1) else fuse_fs_rmdir nxt newpath w1 }"

definition iconv_symlink :: "'s iconv_lib \<Rightarrow> ('u, 's) fuse_fs \<Rightarrow> string \<Rightarrow> cpath \<Rightarrow> (('u, 's) fworld, int) act" where
  "iconv_symlink lib nxt linkname path w = do {
     ((err, newfrom), w1) \<leftarrow> iconv_convpath lib (Some linkname) False w;
     if err \<noteq> 0 then Some (err, w1)
     else do {
       ((err, newto), w2) \<leftarrow> iconv_convpath lib path False w1;
       if err \<noteq> 0 then Some (err, w2) else fuse_fs_symlink nxt (the newfrom) newto w2 } }"

definition iconv_rename :: "'s iconv_lib \<Rightarrow> ('u, 's) fuse_fs \<Rightarrow> cpath \<Rightarrow> cpath \<Rightarrow> (('u, 's) fworld, int) act" where
  "iconv_rename lib nxt oldpath newpath w = do {
     ((err, newfrom), w1) \<leftarrow> iconv_convpath lib (oldpath) False w;
     if err \<noteq> 0 then Some (err, w1)
     else do {
       ((err, newto), w2) \<leftarrow> iconv_convpath lib newpath False w1;
       if err \<noteq> 0 then Some (err, w2) else fuse_fs_rename nxt newfrom newto w2 } }"

definition iconv_link :: "'s iconv_lib \<Rightarrow> ('u, 's) fuse_fs \<Rightarrow> cpath \<Rightarrow> cpath \<Rightarrow> (('u, 's) fworld, int) act" where
  "iconv_link lib nxt oldpath newpath w = do {
     ((err, newfrom), w1) \<leftarrow> iconv_convpath lib (oldpath) False w;
     if err \<noteq> 0 then Some (err, w1)
     else do {
       ((err, newto), w2) \<leftarrow> iconv_convpath lib newpath False w1;
       if err \<noteq> 0 then Some (err, w2) else fuse_fs_link nxt newfrom newto w2 } }"

definition iconv_chmod :: "'s iconv_lib \<Rightarrow> ('u, 's) fuse_fs \<Rightarrow> cpath \<Rightarrow> nat \<Rightarrow> (('u, 's) fworld, int) act" where
  "iconv_chmod lib nxt path mode w = do {
     ((err, newpath), w1) \<leftarrow> iconv_convpath lib path False w;
     if err \<noteq> 0 then Some (err, w1) else fuse_fs_chmod nxt newpath mode w1 }"

definition iconv_chown :: "'s iconv_lib \<Rightarrow> ('u, 's) fuse_fs \<Rightarrow> cpath \<Rightarrow> nat \<Rightarrow> nat \<Rightarrow> (('u, 's) fworld, int) act" where
  "iconv_chown lib nxt path uid gid w = do {
     ((err, newpath), w1) \<leftarrow> iconv_convpath lib path False w;
     if err \<noteq> 0 then Some (err, w1) else fuse_fs_chown nxt newpath uid gid w1 }"

definition iconv_truncate :: "'s iconv_lib \<Rightarrow> ('u, 's) fuse_fs \<Rightarrow> cpath \<Rightarrow> int \<Rightarrow> (('u, 's) fworld, int) act" where
  "iconv_truncate lib nxt path sz w = do {
     ((err, newpath), w1) \<leftarrow> iconv_convpath lib path False w;
     if err \<noteq> 0 then Some (err, w1) else fuse_fs_truncate nxt newpath sz w1 }"

definition iconv_ftruncate :: "'s iconv_lib \<Rightarrow> ('u, 's) fuse_fs \<Rightarrow> cpath \<Rightarrow> int \<Rightarrow> file_info \<Rightarrow> (('u, 's) fworld, int) act" where
  "iconv_ftruncate lib nxt path sz fi w = do {
     ((err, newpath), w1) \<leftarrow> iconv_convpath lib path False w;
     if err \<noteq> 0 then Some (err, w1) else fuse_fs_ftruncate nxt newpath sz fi w1 }"

definition iconv_utimens :: "'s iconv_lib \<Rightarrow> ('u, 's) fuse_fs \<Rightarrow> cpath \<Rightarrow> (timespec \<times> timespec) \<Rightarrow> (('u, 's) fworld, int) act" where
  "iconv_utimens lib nxt path tv w = do {
     ((err, newpath), w1) \<leftarrow> iconv_convpath lib path False w;
     if err \<noteq> 0 then Some (err, w1) else fuse_fs_utimens nxt newpath tv w1 }"

definition iconv_create :: "'s iconv_lib \<Rightarrow> ('u, 's) fuse_fs \<Rightarrow> cpath \<Rightarrow> nat \<Rightarrow> file_info \<Rightarrow> (('u, 's) fworld, int \<times> file_info) act" where
  "iconv_create lib nxt path mode fi w = do {
     ((err, newpath), w1) \<leftarrow> iconv_convpath lib path False w;
     if err \<noteq> 0 then Some ((err, fi), w1) else fuse_fs_create nxt newpath mode fi w1 }"

definition iconv_open_file :: "'s iconv_lib \<Rightarrow> ('u, 's) fuse_fs \<Rightarrow> cpath \<Rightarrow> file_info \<Rightarrow> (('u, 's) fworld, int \<times> file_info) act" where
  "iconv_open_file lib nxt path fi w = do {
     ((err, newpath), w1) \<leftarrow> iconv_convpath lib path False w;
     if err \<noteq> 0 then Some ((err, fi), w1) else fuse_fs_open nxt newpath fi w1 }"

definition iconv_read_buf :: "'s iconv_lib \<Rightarrow> ('u, 's) fuse_fs \<Rightarrow> cpath \<Rightarrow> nat \<Rightarrow> int \<Rightarrow> file_info \<Rightarrow> (('u, 's) fworld, int \<times> fuse_bufvec option) act" where
  "iconv_read_buf lib nxt path sz off fi w = do {
     ((err, newpath), w1) \<leftarrow> iconv_convpath lib path False w;
     if err \<noteq> 0 then Some ((err, None), w1) else fuse_fs_read_buf nxt newpath sz off fi w1 }"

definition iconv_write_buf :: "'s sysio \<Rightarrow> 's iconv_lib \<Rightarrow> ('u, 's) fuse_fs \<Rightarrow> cpath \<Rightarrow> fuse_bufvec \<Rightarrow> int \<Rightarrow> file_info \<Rightarrow> (('u, 's) fworld, int) act" where
  "iconv_write_buf io lib nxt path buf off fi w = do {
     ((err, newpath), w1) \<leftarrow> iconv_convpath lib path False w;
     if err \<noteq> 0 then Some (err, w1) else fuse_fs_write_buf io nxt newpath buf off fi w1 }"

definition iconv_statfs :: "'s iconv_lib \<Rightarrow> ('u, 's) fuse_fs \<Rightarrow> cpath \<Rightarrow> (('u, 's) fworld, int \<times> statvfs option) act" where
  "iconv_statfs lib nxt path w = do {
     ((err, newpath), w1) \<leftarrow> iconv_convpath lib path False w;
     if err \<noteq> 0 then Some ((err, None), w1) else fuse_fs_statfs nxt newpath w1 }"

definition iconv_flush :: "'s iconv_lib \<Rightarrow> ('u, 's) fuse_fs \<Rightarrow> cpath \<Rightarrow> file_info \<Rightarrow> (('u, 's) fworld, int) act" where
  "iconv_flush lib nxt path fi w = do {
     ((err, newpath), w1) \<leftarrow> iconv_convpath lib path False w;
     if err \<noteq> 0 then Some (err, w1) else fuse_fs_flush nxt newpath fi w1 }"

definition iconv_release :: "'s iconv_lib \<Rightarrow> ('u, 's) fuse_fs \<Rightarrow> cpath \<Rightarrow> file_info \<Rightarrow> (('u, 's) fworld, int) act" where
  "iconv_release lib nxt path fi w = do {
     ((err, newpath), w1) \<leftarrow> iconv_convpath lib path False w;
     if err \<noteq> 0 then Some (err, w1) else fuse_fs_release nxt newpath fi w1 }"

definition iconv_fsync :: "'s iconv_lib \<Rightarrow> ('u, 's) fuse_fs \<Rightarrow> cpath \<Rightarrow> int \<Rightarrow> file_info \<Rightarrow> (('u, 's) fworld, int) act" where
  "iconv_fsync lib nxt path datasync fi w = do {
     ((err, newpath), w1) \<leftarrow> iconv_convpath lib path False w;
     if err \<noteq> 0 then Some (err, w1) else fuse_fs_fsync nxt newpath datasync fi w1 }"

definition iconv_fsyncdir :: "'s iconv_lib \<Rightarrow> ('u, 's) fuse_fs \<Rightarrow> cpath \<Rightarrow> int \<Rightarrow> file_info \<Rightarrow> (('u, 's) fworld, int) act" where
  "iconv_fsyncdir lib nxt path datasync fi w = do {
     ((err, newpath), w1) \<leftarrow> iconv_convpath lib path False w;
     if err \<noteq> 0 then Some (err, w1) else fuse_fs_fsyncdir nxt newpath datasync fi w1 }"

definition iconv_setxattr :: "'s iconv_lib \<Rightarrow> ('u, 's) fuse_fs \<Rightarrow> cpath \<Rightarrow> string \<Rightarrow> nat \<Rightarrow> nat \<Rightarrow> int \<Rightarrow> (('u, 's) fworld, int) act" where
  "iconv_setxattr lib nxt path name value sz flags w = do {
     ((err, newpath), w1) \<leftarrow> iconv_convpath lib path False w;
     if err \<noteq> 0 then Some (err, w1) else fuse_fs_setxattr nxt newpath name value sz flags w1 }"

definition iconv_getxattr :: "'s iconv_lib \<Rightarrow> ('u, 's) fuse_fs \<Rightarrow> cpath \<Rightarrow> string \<Rightarrow> nat \<Rightarrow> nat \<Rightarrow> (('u, 's) fworld, int) act" where
  "iconv_getxattr lib nxt path name value sz w = do {
     ((err, newpath), w1) \<leftarrow> iconv_convpath lib path False w;
     if err \<noteq> 0 then Some (err, w1) else fuse_fs_getxattr nxt newpath name value sz w1 }"

definition iconv_listxattr :: "'s iconv_lib \<Rightarrow> ('u, 's) fuse_fs \<Rightarrow> cpath \<Rightarrow> nat \<Rightarrow> nat \<Rightarrow> (('u, 's) fworld, int) act" where
  "iconv_listxattr lib nxt path lst sz w = do {
     ((err, newpath), w1) \<leftarrow> iconv_convpath lib path False w;
     if err \<noteq> 0 then Some (err, w1) else fuse_fs_listxattr nxt newpath lst sz w1 }"

definition iconv_removexattr :: "'s iconv_lib \<Rightarrow> ('u, 's) fuse_fs \<Rightarrow> cpath \<Rightarrow> string \<Rightarrow> (('u, 's) fworld, int) act" where
  "iconv_removexattr lib nxt path name w = do {
     ((err, newpath), w1) \<leftarrow> iconv_convpath lib path False w;
     if err \<noteq> 0 then Some (err, w1) else fuse_fs_removexattr nxt newpath name w1 }"

definition iconv_lock :: "'s iconv_lib \<Rightarrow> ('u, 's) fuse_fs \<Rightarrow> cpath \<Rightarrow> file_info \<Rightarrow> int \<Rightarrow> c_flock \<Rightarrow> (('u, 's) fworld, int \<times> c_flock) act" where
  "iconv_lock lib nxt path fi cmd lock w = do {
     ((err, newpath), w1) \<leftarrow> iconv_convpath lib path False w;
     if err \<noteq> 0 then Some ((err, lock), w1) else fuse_fs_lock_call nxt newpath fi cmd lock w1 }"

definition iconv_flock :: "'s iconv_lib \<Rightarrow> ('u, 's) fuse_fs \<Rightarrow> cpath \<Rightarrow> file_info \<Rightarrow> int \<Rightarrow> (('u, 's) fworld, int) act" where
  "iconv_flock lib nxt path fi op w = do {
     ((err, newpath), w1) \<leftarrow> iconv_convpath lib path False w;
     if err \<noteq> 0 then Some (err, w1) else fuse_fs_flock nxt newpath fi op w1 }"

definition iconv_bmap :: "'s iconv_lib \<Rightarrow> ('u, 's) fuse_fs \<Rightarrow> cpath \<Rightarrow> nat \<Rightarrow> nat \<Rightarrow> (('u, 's) fworld, int \<times> nat) act" where
  "iconv_bmap lib nxt path blocksize idx w = do {
     ((err, newpath), w1) \<leftarrow> iconv_convpath lib path False w;
     if err \<noteq> 0 then Some ((err, idx), w1) else fuse_fs_bmap nxt newpath blocksize idx w1 }"

definition iconv_oper :: "'s sysio \<Rightarrow> 's iconv_lib \<Rightarrow> ('u, 's) fuse_fs \<Rightarrow> ('u, 's) fworld fuse_operations" where
  "iconv_oper io lib nxt = \<lparr>
     op_getattr = Some (iconv_getattr lib nxt),
     op_fgetattr = Some (iconv_fgetattr lib nxt),
     op_access = Some (iconv_access lib nxt),
     op_readlink = Some (iconv_readlink lib nxt),
     op_opendir = Some (iconv_opendir lib nxt),
     op_readdir = Some (iconv_readdir lib nxt),
     op_releasedir = Some (iconv_releasedir lib nxt),
     op_mknod = Some (iconv_mknod lib nxt),
     op_mkdir = Some (iconv_mkdir lib nxt),
     op_unlink = Some (iconv_unlink lib nxt),
     op_rmdir = Some (iconv_rmdir lib nxt),
     op_symlink = Some (iconv_symlink lib nxt),
     op_rename = Some (iconv_rename lib nxt),
     op_link = Some (iconv_link lib nxt),
     op_chmod = Some (iconv_chmod lib nxt),
     op_chown = Some (iconv_chown lib nxt),
     op_truncate = Some (iconv_truncate lib nxt),
     op_ftruncate = Some (iconv_ftruncate lib nxt),
     op_utimens = Some (iconv_utimens lib nxt),
     op_create = Some (iconv_create lib nxt),
     op_open = Some (iconv_open_file lib nxt),
     op_read_buf = Some (iconv_read_buf lib nxt),
     op_write_buf = Some (iconv_write_buf io lib nxt),
     op_statfs = Some (iconv_statfs lib nxt),
     op_flush = Some (iconv_flush lib nxt),
     op_release = Some (iconv_release lib nxt),
     op_fsync = Some (iconv_fsync lib nxt),
     op_fsyncdir = Some (iconv_fsyncdir lib nxt),
     op_setxattr = Some (iconv_setxattr lib nxt),
     op_getxattr = Some (iconv_getxattr lib nxt),
     op_listxattr = Some (iconv_listxattr lib nxt),
     op_removexattr = Some (iconv_removexattr lib nxt),
     op_lock = Some (iconv_lock lib nxt),
     op_flock = Some (iconv_flock lib nxt),
     op_bmap = Some (iconv_bmap lib nxt),
     op_ioctl = None,
     op_poll = None,
     op_fallocate = None,
     op_getdir = None,
     op_utime = None,
     op_read = None,
     op_write = None\<rparr>"

text \<open>
  \<open>iconv_new\<close>: \<open>codes\<close> is what parsing the options stores in \<open>from_code\<close> and \<open>to_code\<close>, or that it fails, and \<open>can_open\<close> says
  for which pairs of encodings \<open>iconv_open\<close> returns a descriptor. What the second call returns is not looked at: the
  test behind it names the first descriptor again. The locale is not modelled.
\<close>

definition iconv_new :: "'s sysio \<Rightarrow> 's iconv_lib \<Rightarrow> (string option \<times> string option) option \<Rightarrow> (string \<Rightarrow> string \<Rightarrow> bool) \<Rightarrow> 'u \<Rightarrow>
    ('u, 's) fuse_fs list \<Rightarrow> ('u, 's) fworld \<Rightarrow> ('u, 's) fuse_fs option \<times> ('u, 's) fworld" where
  "iconv_new io lib codes can_open ic nxt w = (case fmalloc 0 w of
     (None, w1) \<Rightarrow> (None, w1)
   | (Some _, w1) \<Rightarrow> (case codes of
       None \<Rightarrow> (None, w1)
     | Some (from_code, to_code) \<Rightarrow>
         if length nxt \<noteq> 1 then (None, w1)
         else
           let from = case_option ''UTF-8'' id from_code; to = case_option [] id to_code;
             tofs = can_open from to in
           if \<not> tofs then (None, w1)
           else let fromfs = can_open to from in
             if \<not> tofs then (None, w1)
             else (case fmalloc 0 w1 of
                 (None, w2) \<Rightarrow> (None, w2)
               | (Some _, w2) \<Rightarrow> (Some \<lparr>fs_op = iconv_oper io lib (hd nxt), fs_user_data = ic\<rparr>, w2))))"

end
