(* ===== verification/Fuse_Iconv_Props.thy ===== *)
theory Fuse_Iconv_Props
  imports Fuse_Iconv Fuse_Stack
begin

text \<open>
  What the module \<open>iconv\<close> promises, given what the \<open>iconv\<close> library promises: names are converted completely or not
  at all, a call reaches the file system below with converted names only, and listings are converted back.
\<close>

section \<open>Contract of the conversion library\<close>

text \<open>
  \<open>cv fromfs p s\<close> is the conversion of a whole name and the state it leaves. A call converts a name completely, or
  stops because there is no room for the next character, after a part of it, or reports that the name is
  invalid. No character takes more than 16 bytes (\<open>MB_LEN_MAX\<close>).
\<close>

type_synonym 's conversion = "bool \<Rightarrow> string \<Rightarrow> 's \<Rightarrow> (string \<times> 's) option"

definition iconv_contract :: "'s iconv_lib \<Rightarrow> 's conversion \<Rightarrow> bool" where
  "iconv_contract lib cv \<longleftrightarrow> (\<forall>f p room s ans n bs s'. ic_conv lib f p room s = ((ans, n, bs), s') \<longrightarrow>
     n \<le> length p \<and> length bs \<le> room \<and>
     (case ans of
        Converted \<Rightarrow> n = length p \<and> cv f p s = Some (bs, s')
      | Invalid \<Rightarrow> cv f p s = None
      | TooBig \<Rightarrow> (if n = 0 then room < 16 \<and> bs = [] else True) \<and>
          cv f p s = map_option (\<lambda>(b, t). (bs @ b, t)) (cv f (drop n p) s')))"

lemma contractD:
  assumes "iconv_contract lib cv" and "ic_conv lib f p room s = ((ans, n, bs), s')"
  shows "n \<le> length p" "length bs \<le> room" "ans = Converted \<Longrightarrow> n = length p \<and> cv f p s = Some (bs, s')" "ans = Invalid \<Longrightarrow> cv f p s = None"
    "ans = TooBig \<Longrightarrow> n = 0 \<Longrightarrow> room < 16 \<and> bs = []" "ans = TooBig \<Longrightarrow> cv f p s = map_option (\<lambda>(b, t). (bs @ b, t)) (cv f (drop n p) s')"
  using assms unfolding iconv_contract_def by (cases ans; force)+

text \<open>A library without state between calls: the encodings have no shift sequences.\<close>

definition stateless :: "'s iconv_lib \<Rightarrow> bool" where
  "stateless lib \<longleftrightarrow> (\<forall>f p room s. snd (ic_conv lib f p room s) = s) \<and> (\<forall>f s. ic_reset lib f s = s)"

lemma statelessD: "stateless lib \<Longrightarrow> ic_conv lib f p room s = (x, s') \<Longrightarrow> s' = s" "stateless lib \<Longrightarrow> ic_reset lib f s = s"
  by (metis snd_conv stateless_def)+

section \<open>Conversion of a name\<close>

text \<open>What a call leaves as it is while it takes memory.\<close>

definition only_took :: "('u, 's) fworld \<Rightarrow> ('u, 's) fworld \<Rightarrow> bool" where
  "only_took w w' \<longleftrightarrow> fmem w' = fmem w \<and> falloc w' = falloc w \<and> private_data w' = private_data w \<and> fbrk w \<le> fbrk w'"

lemma only_took_refl [simp]: "only_took w w"
  by (simp add: only_took_def)

lemma only_took_trans [trans]: "only_took w w1 \<Longrightarrow> only_took w1 w2 \<Longrightarrow> only_took w w2"
  by (simp add: only_took_def)

lemma only_took_upd [simp]: "only_took w (w1\<lparr>fsys := s\<rparr>) = only_took w w1" "only_took (w\<lparr>fsys := s\<rparr>) w1 = only_took w w1"
  by (simp_all add: only_took_def)

lemma only_took_fmalloc: "fmalloc n w = (a, w') \<Longrightarrow> only_took w w' \<and> fsys w' = fsys w \<and> (has_memory w \<longrightarrow> a \<noteq> None)"
  by (auto simp: fmalloc_def only_took_def has_memory_def split: if_splits)

lemma only_tookD: "only_took w w' \<Longrightarrow> fmem w' = fmem w \<and> falloc w' = falloc w \<and> private_data w' = private_data w \<and> (has_memory w' \<longleftrightarrow> has_memory w)"
  by (simp add: only_took_def has_memory_def)

text \<open>The outcome of a conversion, with \<open>out\<close> the conversion of the rest.\<close>

definition conv_outcome :: "(string \<times> 's) option \<Rightarrow> string \<Rightarrow> ('u, 's) fworld \<Rightarrow> (int + string) \<Rightarrow> ('u, 's) fworld \<Rightarrow> bool" where
  "conv_outcome out acc w r w' \<longleftrightarrow> only_took w w' \<and> (r = Inl (- ENOMEM) \<and> \<not> has_memory w \<or>
     (case out of None \<Rightarrow> r = Inl (- EILSEQ) | Some (b, s) \<Rightarrow> r = Inr (acc @ b) \<and> fsys w' = s))"

lemma conv_outcome_step:
  assumes "conv_outcome out (acc @ bs) w2 r w'" and "only_took w w2"
  shows "conv_outcome (map_option (\<lambda>(b, t). (bs @ b, t)) out) acc w r w'"
  using assms only_took_trans [OF assms(2)] only_tookD [OF assms(2)] by (auto simp: conv_outcome_def split: option.splits)

text \<open>The loop ends: a round consumes a part of the name or there is more room than before, and 16 bytes are enough.\<close>

lemma conv_loop_outcome:
  assumes "iconv_contract lib cv"
  shows "\<exists>r w'. conv_loop lib f p room acc w = Some (r, w') \<and> conv_outcome (cv f p (fsys w)) acc w r w' \<and> (stateless lib \<longrightarrow> fsys w' = fsys w)"
proof (induction "(length p, 16 - room)" arbitrary: p room acc w rule: wf_induct_rule [OF wf_lex_prod [OF wf_less_than wf_less_than]])
  case 1
  obtain ans n bs s where c: "ic_conv lib f p room (fsys w) = ((ans, n, bs), s)" by (metis prod_cases3 surj_pair)
  note d = contractD [OF assms c]
  have st: "s = fsys w" "ic_reset lib f s = fsys w" if "stateless lib" using statelessD [OF that] c by auto
  show ?case
  proof (cases ans)
    case Converted
    then show ?thesis using c d(3) st by (simp add: conv_loop.simps [of lib f p] conv_outcome_def)
  next
    case Invalid
    then show ?thesis using c d(4) st by (simp add: conv_loop.simps [of lib f p] conv_outcome_def)
  next
    case TooBig
    define w1 where "w1 = w\<lparr>fsys := s\<rparr>"
    define inc where "inc = (length (drop n p) + 1) * 4"
    obtain a w2 where m: "fmalloc inc w1 = (a, w2)" by force
    have w2: "only_took w w2" "fsys w2 = s" "has_memory w \<Longrightarrow> a \<noteq> None"
      using only_took_fmalloc [OF m] only_took_trans [of w w1 w2] by (simp_all add: w1_def has_memory_def)
    show ?thesis
    proof (cases a)
      case None
      then show ?thesis using c m w2 st TooBig
        by (intro exI conjI [rotated]) (auto simp: conv_loop.simps [of lib f p] conv_outcome_def w1_def inc_def Let_def)
    next
      case (Some b)
      have "((length (drop n p), 16 - (room - length bs + inc)), (length p, 16 - room)) \<in> less_than <*lex*> less_than"
        using d(1) d(5) [OF TooBig] by (cases "n = 0") (auto simp: inc_def)
      then obtain r w' where ih: "conv_loop lib f (drop n p) (room - length bs + inc) (acc @ bs) w2 = Some (r, w')"
          "conv_outcome (cv f (drop n p) (fsys w2)) (acc @ bs) w2 r w'" "stateless lib \<longrightarrow> fsys w' = fsys w2"
        using 1 by blast
      have "conv_loop lib f p room acc w = Some (r, w')"
        using c m TooBig Some ih(1) by (simp add: conv_loop.simps [of lib f p] w1_def inc_def Let_def)
      then show ?thesis using conv_outcome_step [OF ih(2) w2(1)] d(6) [OF TooBig] w2(2) ih(3) st by auto
    qed
  qed
qed

text \<open>A C string ends at the first \<open>NUL\<close>.\<close>

definition c_cut :: "string \<Rightarrow> string" where
  "c_cut = takeWhile (\<lambda>c. c \<noteq> CHR 0x00)"

definition path_outcome :: "'s conversion \<Rightarrow> bool \<Rightarrow> cpath \<Rightarrow> ('u, 's) fworld \<Rightarrow> int \<times> cpath \<Rightarrow> ('u, 's) fworld \<Rightarrow> bool" where
  "path_outcome cv f path w r w' \<longleftrightarrow> only_took w w' \<and> (case path of
     None \<Rightarrow> r = (0, None) \<and> w' = w
   | Some p \<Rightarrow> r = (- ENOMEM, None) \<and> \<not> has_memory w \<or>
       (case cv f p (fsys w) of None \<Rightarrow> r = (- EILSEQ, None) | Some (q, s) \<Rightarrow> r = (0, Some (c_cut q)) \<and> fsys w' = s))"

lemma convpath_outcome:
  assumes "iconv_contract lib cv"
  shows "\<exists>r w'. iconv_convpath lib path f w = Some (r, w') \<and> path_outcome cv f path w r w' \<and> (stateless lib \<longrightarrow> fsys w' = fsys w)"
proof (cases path)
  case None
  then show ?thesis by (simp add: iconv_convpath_def path_outcome_def)
next
  case (Some p)
  obtain a w1 where m: "fmalloc (length p * 4 + 1) w = (a, w1)" by force
  note w1 = only_took_fmalloc [OF m]
  obtain r w' where l: "conv_loop lib f p (length p * 4) [] w1 = Some (r, w')" "conv_outcome (cv f p (fsys w1)) [] w1 r w'" "stateless lib \<longrightarrow> fsys w' = fsys w1"
    using conv_loop_outcome [OF assms] by blast
  show ?thesis
  proof (cases a)
    case None
    then show ?thesis using Some m w1 by (intro exI conjI [rotated]) (auto simp: iconv_convpath_def path_outcome_def)
  next
    case (Some b)
    then have "iconv_convpath lib path f w = Some ((case r of Inl err \<Rightarrow> (err, None) | Inr new \<Rightarrow> (0, Some (c_cut new))), w')"
      using \<open>path = Some p\<close> m l(1) by (simp add: iconv_convpath_def c_cut_def [abs_def] split: sum.splits)
    then show ?thesis using l(2,3) w1 only_tookD [of w w1] only_took_trans [of w w1 w'] \<open>path = Some p\<close>
      by (auto simp: path_outcome_def conv_outcome_def split: option.splits)
  qed
qed

section \<open>Calls\<close>

text \<open>The names of a call are its paths, and the contents of a new link as well.\<close>

definition call_names :: "fs_call \<Rightarrow> cpath list" where
  "call_names c = (case c of C_symlink linkname path \<Rightarrow> [Some linkname, path] | _ \<Rightarrow> call_paths c)"

fun put_names :: "fs_call \<Rightarrow> cpath list \<Rightarrow> fs_call" where
  "put_names (C_getattr path) ns = C_getattr (ns ! 0)"
| "put_names (C_fgetattr path fi) ns = C_fgetattr (ns ! 0) fi"
| "put_names (C_access path amask) ns = C_access (ns ! 0) amask"
| "put_names (C_readlink path buf sz) ns = C_readlink (ns ! 0) buf sz"
| "put_names (C_opendir path fi) ns = C_opendir (ns ! 0) fi"
| "put_names (C_readdir path off fi) ns = C_readdir (ns ! 0) off fi"
| "put_names (C_releasedir path fi) ns = C_releasedir (ns ! 0) fi"
| "put_names (C_mknod path mode rdev) ns = C_mknod (ns ! 0) mode rdev"
| "put_names (C_mkdir path mode) ns = C_mkdir (ns ! 0) mode"
| "put_names (C_unlink path) ns = C_unlink (ns ! 0)"
| "put_names (C_rmdir path) ns = C_rmdir (ns ! 0)"
| "put_names (C_symlink linkname path) ns = C_symlink (the (ns ! 0)) (ns ! 1)"
| "put_names (C_rename oldpath newpath) ns = C_rename (ns ! 0) (ns ! 1)"
| "put_names (C_link oldpath newpath) ns = C_link (ns ! 0) (ns ! 1)"
| "put_names (C_chmod path mode) ns = C_chmod (ns ! 0) mode"
| "put_names (C_chown path uid gid) ns = C_chown (ns ! 0) uid gid"
| "put_names (C_truncate path sz) ns = C_truncate (ns ! 0) sz"
| "put_names (C_ftruncate path sz fi) ns = C_ftruncate (ns ! 0) sz fi"
| "put_names (C_utimens path tv) ns = C_utimens (ns ! 0) tv"
| "put_names (C_create path mode fi) ns = C_create (ns ! 0) mode fi"
| "put_names (C_open path fi) ns = C_open (ns ! 0) fi"
| "put_names (C_read_buf path sz off fi) ns = C_read_buf (ns ! 0) sz off fi"
| "put_names (C_write_buf path buf off fi) ns = C_write_buf (ns ! 0) buf off fi"
| "put_names (C_statfs path) ns = C_statfs (ns ! 0)"
| "put_names (C_flush path fi) ns = C_flush (ns ! 0) fi"
| "put_names (C_release path fi) ns = C_release (ns ! 0) fi"
| "put_names (C_fsync path datasync fi) ns = C_fsync (ns ! 0) datasync fi"
| "put_names (C_fsyncdir path datasync fi) ns = C_fsyncdir (ns ! 0) datasync fi"
| "put_names (C_setxattr path name value sz flags) ns = C_setxattr (ns ! 0) name value sz flags"
| "put_names (C_getxattr path name value sz) ns = C_getxattr (ns ! 0) name value sz"
| "put_names (C_listxattr path lst sz) ns = C_listxattr (ns ! 0) lst sz"
| "put_names (C_removexattr path name) ns = C_removexattr (ns ! 0) name"
| "put_names (C_lock path fi cmd lock) ns = C_lock (ns ! 0) fi cmd lock"
| "put_names (C_flock path fi op) ns = C_flock (ns ! 0) fi op"
| "put_names (C_bmap path blocksize idx) ns = C_bmap (ns ! 0) blocksize idx"
| "put_names (C_ioctl path cmd arg fi flags data) ns = C_ioctl (ns ! 0) cmd arg fi flags data"
| "put_names (C_poll path fi ph idx) ns = C_poll (ns ! 0) fi ph idx"
| "put_names (C_fallocate path mode off len fi) ns = C_fallocate (ns ! 0) mode off len fi"

text \<open>The conversion of names one after the other; \<open>NULL\<close> is not converted.\<close>

fun conv_names :: "'s conversion \<Rightarrow> cpath list \<Rightarrow> 's \<Rightarrow> (cpath list \<times> 's) option" where
  "conv_names cv [] s = Some ([], s)"
| "conv_names cv (None # ns) s = do { (qs, t) \<leftarrow> conv_names cv ns s; Some (None # qs, t) }"
| "conv_names cv (Some p # ns) s = do { (q, t) \<leftarrow> cv False p s; (qs, u) \<leftarrow> conv_names cv ns t; Some (Some (c_cut q) # qs, u) }"

text \<open>
  The calls whose result contains no name. The module has no \<open>ioctl\<close>, \<open>poll\<close> and \<open>fallocate\<close>; a vector to be written begins
  at its start, as the library asserts.
\<close>

definition nameless :: "fs_call \<Rightarrow> bool" where
  "nameless c = (case c of
     C_ioctl _ _ _ _ _ _ \<Rightarrow> False
   | C_poll _ _ _ _ \<Rightarrow> False
   | C_fallocate _ _ _ _ _ \<Rightarrow> False
   | C_readlink _ _ _ \<Rightarrow> False
   | C_readdir _ _ _ \<Rightarrow> False
   | C_write_buf _ buf _ _ \<Rightarrow> vec_idx buf = 0 \<and> vec_off buf = 0
   | _ \<Rightarrow> True)"

fun reply_code :: "fs_reply \<Rightarrow> int" where
  "reply_code (R_int r) = r"
| "reply_code (R_stat r) = fst r"
| "reply_code (R_fi r) = fst r"
| "reply_code (R_dir r) = fst r"
| "reply_code (R_vec r) = fst r"
| "reply_code (R_statfs r) = fst r"
| "reply_code (R_lock r) = fst r"
| "reply_code (R_idx r) = fst r"

definition iconv_fs :: "'s sysio \<Rightarrow> 's iconv_lib \<Rightarrow> 'u \<Rightarrow> ('u, 's) fuse_fs \<Rightarrow> ('u, 's) fuse_fs" where
  "iconv_fs io lib ic nxt = \<lparr>fs_op = iconv_oper io lib nxt, fs_user_data = ic\<rparr>"

lemmas iconv_defs =
  iconv_getattr_def iconv_fgetattr_def iconv_access_def iconv_readlink_def iconv_opendir_def
  iconv_readdir_def iconv_releasedir_def iconv_mknod_def iconv_mkdir_def iconv_unlink_def
  iconv_rmdir_def iconv_symlink_def iconv_rename_def iconv_link_def iconv_chmod_def
  iconv_chown_def iconv_truncate_def iconv_ftruncate_def iconv_utimens_def iconv_create_def
  iconv_open_file_def iconv_statfs_def iconv_flush_def
  iconv_release_def iconv_fsync_def iconv_fsyncdir_def iconv_setxattr_def iconv_getxattr_def
  iconv_listxattr_def iconv_removexattr_def iconv_lock_def iconv_flock_def iconv_bmap_def
 

text \<open>The entries of the table.\<close>

lemma iconv_ops:
  "op_getattr (iconv_oper io lib nxt) = Some (iconv_getattr lib nxt)"
  "op_fgetattr (iconv_oper io lib nxt) = Some (iconv_fgetattr lib nxt)"
  "op_access (iconv_oper io lib nxt) = Some (iconv_access lib nxt)"
  "op_readlink (iconv_oper io lib nxt) = Some (iconv_readlink lib nxt)"
  "op_opendir (iconv_oper io lib nxt) = Some (iconv_opendir lib nxt)"
  "op_readdir (iconv_oper io lib nxt) = Some (iconv_readdir lib nxt)"
  "op_releasedir (iconv_oper io lib nxt) = Some (iconv_releasedir lib nxt)"
  "op_mknod (iconv_oper io lib nxt) = Some (iconv_mknod lib nxt)"
  "op_mkdir (iconv_oper io lib nxt) = Some (iconv_mkdir lib nxt)"
  "op_unlink (iconv_oper io lib nxt) = Some (iconv_unlink lib nxt)"
  "op_rmdir (iconv_oper io lib nxt) = Some (iconv_rmdir lib nxt)"
  "op_symlink (iconv_oper io lib nxt) = Some (iconv_symlink lib nxt)"
  "op_rename (iconv_oper io lib nxt) = Some (iconv_rename lib nxt)"
  "op_link (iconv_oper io lib nxt) = Some (iconv_link lib nxt)"
  "op_chmod (iconv_oper io lib nxt) = Some (iconv_chmod lib nxt)"
  "op_chown (iconv_oper io lib nxt) = Some (iconv_chown lib nxt)"
  "op_truncate (iconv_oper io lib nxt) = Some (iconv_truncate lib nxt)"
  "op_ftruncate (iconv_oper io lib nxt) = Some (iconv_ftruncate lib nxt)"
  "op_utimens (iconv_oper io lib nxt) = Some (iconv_utimens lib nxt)"
  "op_create (iconv_oper io lib nxt) = Some (iconv_create lib nxt)"
  "op_open (iconv_oper io lib nxt) = Some (iconv_open_file lib nxt)"
  "op_read_buf (iconv_oper io lib nxt) = Some (iconv_read_buf lib nxt)"
  "op_write_buf (iconv_oper io lib nxt) = Some (iconv_write_buf io lib nxt)"
  "op_statfs (iconv_oper io lib nxt) = Some (iconv_statfs lib nxt)"
  "op_flush (iconv_oper io lib nxt) = Some (iconv_flush lib nxt)"
  "op_release (iconv_oper io lib nxt) = Some (iconv_release lib nxt)"
  "op_fsync (iconv_oper io lib nxt) = Some (iconv_fsync lib nxt)"
  "op_fsyncdir (iconv_oper io lib nxt) = Some (iconv_fsyncdir lib nxt)"
  "op_setxattr (iconv_oper io lib nxt) = Some (iconv_setxattr lib nxt)"
  "op_getxattr (iconv_oper io lib nxt) = Some (iconv_getxattr lib nxt)"
  "op_listxattr (iconv_oper io lib nxt) = Some (iconv_listxattr lib nxt)"
  "op_removexattr (iconv_oper io lib nxt) = Some (iconv_removexattr lib nxt)"
  "op_lock (iconv_oper io lib nxt) = Some (iconv_lock lib nxt)"
  "op_flock (iconv_oper io lib nxt) = Some (iconv_flock lib nxt)"
  "op_bmap (iconv_oper io lib nxt) = Some (iconv_bmap lib nxt)"
  by (simp_all add: iconv_oper_def)

lemma enter_only_took: "only_took (enter fs w) w' \<Longrightarrow> enter fs w' = w'"
  by (simp add: only_took_def enter_def)

text \<open>A name that can be converted, with memory for it.\<close>

lemma convpath_ok:
  assumes "iconv_contract lib cv" and "has_memory w" and "conv_names cv (path # ns) (fsys w) = Some (qs, t)"
  shows "\<exists>q w'. iconv_convpath lib path False w = Some ((0, q), w') \<and> only_took w w' \<and> qs = q # tl qs \<and> conv_names cv ns (fsys w') = Some (tl qs, t)"
  using convpath_outcome [OF assms(1), of path False w] assms(2,3)
  by (cases path) (auto simp: path_outcome_def split: Option.bind_splits option.splits)

text \<open>A name that cannot be converted.\<close>

lemma convpath_fails:
  assumes "iconv_contract lib cv" and "has_memory w" and "conv_names cv (path # ns) (fsys w) = None"
  shows "\<exists>err q w'. iconv_convpath lib path False w = Some ((err, q), w') \<and> only_took w w' \<and>
    (err = - EILSEQ \<or> err = 0 \<and> conv_names cv ns (fsys w') = None)"
  using convpath_outcome [OF assms(1), of path False w] assms(2,3)
  by (cases path) (auto simp: path_outcome_def split: Option.bind_splits option.splits)

lemma iconv_call:
  assumes "iconv_contract lib cv" and "nameless c" and "has_memory w" and "conv_names cv (call_names c) (fsys w) = Some (ns, s)"
  shows "\<exists>w'. fs_do io (iconv_fs io lib ic nxt) c w = fs_do io nxt (put_names c ns) w' \<and> fsys w' = s \<and> only_took (enter (iconv_fs io lib ic nxt) w) w'"
proof -
  let ?fs = "iconv_fs io lib ic nxt"
  have op: "fs_op ?fs = iconv_oper io lib nxt" by (simp add: iconv_fs_def)
  have w: "has_memory (enter ?fs w)" "fsys (enter ?fs w) = fsys w" using assms(3) by (simp, simp add: enter_def)
  have one: "\<exists>q w'. iconv_convpath lib path False (enter ?fs w) = Some ((0, q), w') \<and> only_took (enter ?fs w) w' \<and> ns = [q] \<and> fsys w' = s"
    if "call_names c = [path]" for path
    using convpath_ok [OF assms(1) w(1), of path "[]" ns s] assms(4) w(2) that by auto
  have two: "\<exists>q w1 q' w'. iconv_convpath lib path False (enter ?fs w) = Some ((0, q), w1) \<and> iconv_convpath lib path' False w1 = Some ((0, q'), w') \<and>
      only_took (enter ?fs w) w' \<and> ns = [q, q'] \<and> fsys w' = s"
    if n: "call_names c = [path, path']" for path path'
  proof -
    obtain q w1 where 1: "iconv_convpath lib path False (enter ?fs w) = Some ((0, q), w1)" "only_took (enter ?fs w) w1" "ns = q # tl ns" "conv_names cv [path'] (fsys w1) = Some (tl ns, s)"
      using convpath_ok [OF assms(1) w(1), of path "[path']" ns s] assms(4) w(2) n by auto
    have "has_memory w1" using only_tookD [OF 1(2)] w(1) by blast
    from convpath_ok [OF assms(1) this 1(4)] 1 show ?thesis using only_took_trans by (metis (no_types, lifting) conv_names.simps(1) option.inject prod.inject)
  qed
  show ?thesis
  proof (cases c)
    case (C_read_buf path sz off fi)
    then obtain q w' where q: "iconv_convpath lib path False (enter ?fs w) = Some ((0, q), w')" "only_took (enter ?fs w) w'" "ns = [q]" "fsys w' = s"
      using one [of path] by (auto simp: call_names_def)
    have "fuse_fs_read_buf ?fs path sz off fi w =
        (do { ((res, buf), w2) \<leftarrow> fuse_fs_read_buf nxt q sz off fi w'; Some ((if res < 0 then res else 0, buf), w2) })"
      using q(1) by (simp add: fuse_fs_read_buf_def [of ?fs] op iconv_ops iconv_read_buf_def)
    also have "\<dots> = fuse_fs_read_buf nxt q sz off fi w'"
      using read_buf_result by (cases "fuse_fs_read_buf nxt q sz off fi w'") fastforce+
    finally show ?thesis using C_read_buf q by auto
  next
    case (C_write_buf path buf off fi)
    then show ?thesis using one [of path] assms(2)
      by (auto simp: call_names_def nameless_def fuse_fs_write_buf_def [of io ?fs] op iconv_ops iconv_write_buf_def)
  next
    case (C_symlink linkname path)
    then show ?thesis using two [of "Some linkname" path] by (auto simp: fuse_fs_symlink_def [of ?fs] op iconv_ops iconv_symlink_def call_names_def)
  next
    case (C_rename linkname path)
    then show ?thesis using two by (auto simp: call_defs [of ?fs] op iconv_ops iconv_defs call_names_def)
  next
    case (C_link linkname path)
    then show ?thesis using two by (auto simp: call_defs [of ?fs] op iconv_ops iconv_defs call_names_def)
  qed (use assms(2) one in \<open>auto simp: nameless_def call_defs [of ?fs] op iconv_ops iconv_defs call_names_def\<close>)
qed

text \<open>A name that is not valid ends the call before the file system below is reached.\<close>

lemma iconv_call_fails:
  assumes "iconv_contract lib cv" and "nameless c" and "has_memory w" and "conv_names cv (call_names c) (fsys w) = None"
  shows "\<exists>r w'. (\<forall>nxt. fs_do io (iconv_fs io lib ic nxt) c w = Some (r, w')) \<and> reply_code r = - EILSEQ"
proof -
  define fs where "fs = iconv_fs io lib ic"
  define v where "v = w\<lparr>private_data := ic\<rparr>"
  have op: "fs_op (fs nxt) = iconv_oper io lib nxt" "enter (fs nxt) w = v" for nxt by (simp_all add: fs_def iconv_fs_def v_def enter_def)
  have w: "has_memory v" "fsys v = fsys w" using assms(3) by (simp_all add: v_def has_memory_def)
  have one: "\<exists>q w'. iconv_convpath lib path False v = Some ((- EILSEQ, q), w')"
    if "call_names c = [path]" for path
    using convpath_fails [OF assms(1) w(1), of path "[]"] assms(4) w(2) that by auto
  have two: "\<exists>err q w1 q' w'. iconv_convpath lib path False v = Some ((err, q), w1) \<and> (err = - EILSEQ \<or> err = 0 \<and> iconv_convpath lib path' False w1 = Some ((- EILSEQ, q'), w'))"
    if n: "call_names c = [path, path']" for path path'
  proof -
    obtain err q w1 where 1: "iconv_convpath lib path False v = Some ((err, q), w1)" "only_took v w1" "err = - EILSEQ \<or> err = 0 \<and> conv_names cv [path'] (fsys w1) = None"
      using convpath_fails [OF assms(1) w(1), of path "[path']"] assms(4) w(2) n by auto
    have "has_memory w1" using only_tookD [OF 1(2)] w(1) by blast
    from convpath_fails [OF assms(1) this, of path' "[]"] 1 show ?thesis by auto
  qed
  have e: "EILSEQ \<noteq> 0" "0 < EILSEQ" by (simp_all add: EILSEQ_def)
  have "\<exists>r w'. (\<forall>nxt. fs_do io (fs nxt) c w = Some (r, w')) \<and> reply_code r = - EILSEQ"
  proof (cases c)
    case (C_read_buf path sz off fi)
    then show ?thesis using one [of path] e by (auto simp: call_names_def fuse_fs_read_buf_def op iconv_ops iconv_read_buf_def reply_def)
  next
    case (C_write_buf path buf off fi)
    then show ?thesis using one [of path] e assms(2)
      by (auto simp: call_names_def nameless_def fuse_fs_write_buf_def op iconv_ops iconv_write_buf_def reply_def)
  next
    case (C_symlink linkname path)
    then show ?thesis using two [of "Some linkname" path] e by (auto simp: call_defs op iconv_ops iconv_defs call_names_def reply_def)
  next
    case (C_rename linkname path)
    then show ?thesis using two e by (auto simp: call_defs op iconv_ops iconv_defs call_names_def reply_def)
  next
    case (C_link linkname path)
    then show ?thesis using two e by (auto simp: call_defs op iconv_ops iconv_defs call_names_def reply_def)
  qed (use assms(2) one e in \<open>auto simp: nameless_def call_defs op iconv_ops iconv_defs call_names_def reply_def\<close>)
  then show ?thesis by (simp add: fs_def)
qed

section \<open>Listings\<close>

text \<open>The entries whose names can be converted, in their order.\<close>

definition visible :: "'s conversion \<Rightarrow> 's \<Rightarrow> (string \<times> attrs) list \<Rightarrow> (string \<times> attrs) list" where
  "visible cv s es = List.map_filter (\<lambda>(name, st). map_option (\<lambda>(q, _). (c_cut q, st)) (cv True name s)) es"

lemma dir_fill_visible:
  assumes "iconv_contract lib cv" and "stateless lib" and "has_memory w"
  shows "\<exists>w'. iconv_dir_fill lib es w = Some (visible cv (fsys w) es, w') \<and> only_took w w' \<and> fsys w' = fsys w"
  using assms(3)
proof (induction es arbitrary: w)
  case Nil
  then show ?case by (simp add: visible_def List.map_filter_simps)
next
  case (Cons e es)
  obtain name st where e: "e = (name, st)" by force
  obtain err q w1 where c: "iconv_convpath lib (Some name) True w = Some ((err, q), w1)" "path_outcome cv True (Some name) w (err, q) w1" "fsys w1 = fsys w"
    using convpath_outcome [OF assms(1), of "Some name" True w] assms(2) by auto
  have w1: "only_took w w1" "fsys w1 = fsys w" using c(2,3) by (simp_all add: path_outcome_def)
  have "has_memory w1" using only_tookD [OF w1(1)] Cons.prems by blast
  then obtain w2 where w2: "iconv_dir_fill lib es w1 = Some (visible cv (fsys w1) es, w2)" "only_took w1 w2" "fsys w2 = fsys w1"
    using Cons.IH by blast
  have "iconv_dir_fill lib (e # es) w = Some (visible cv (fsys w) (e # es), w2)"
    using c(2) w2(1) w1(2) Cons.prems
    by (auto simp: e c(1) path_outcome_def visible_def List.map_filter_simps EILSEQ_def split: option.splits)
  then show ?case using w1 w2 only_took_trans by auto
qed

section \<open>Two encodings\<close>

text \<open>Latin-1 names on a file system with UTF-8 names: the next character of a name, the bytes it takes and its conversion.\<close>

definition utf8_char :: "char \<Rightarrow> string" where
  "utf8_char c = (let n = of_char c :: nat in if n < 128 then [c] else [char_of (192 + n div 64), char_of (128 + n mod 64)])"

definition next_char :: "bool \<Rightarrow> string \<Rightarrow> (nat \<times> string) option" where
  "next_char f p = (case p of
     [] \<Rightarrow> None
   | c # cs \<Rightarrow> let n = of_char c :: nat in
       if \<not> f then Some (1, utf8_char c)
       else if n < 128 then Some (1, [c])
       else if n = 194 \<or> n = 195 then (case cs of
           [] \<Rightarrow> None
         | d # _ \<Rightarrow> let m = of_char d :: nat in if 128 \<le> m \<and> m < 192 then Some (2, [char_of ((n - 192) * 64 + (m - 128))]) else None)
       else None)"

lemma next_char_bounds: "next_char f p = Some (n, bs) \<Longrightarrow> 0 < n \<and> n \<le> length p \<and> length bs \<le> 2"
  by (auto simp: next_char_def utf8_char_def Let_def split: list.splits if_splits)

function latin_conv :: "bool \<Rightarrow> string \<Rightarrow> nat \<Rightarrow> iconv_answer \<times> nat \<times> string" where
  "latin_conv f p room = (if p = [] then (Converted, 0, []) else (case next_char f p of
     None \<Rightarrow> (Invalid, 0, [])
   | Some (n, bs) \<Rightarrow> if room < length bs then (TooBig, 0, [])
       else (case latin_conv f (drop n p) (room - length bs) of (ans, m, cs) \<Rightarrow> (ans, n + m, bs @ cs))))"
  by pat_completeness auto
termination by (relation "measure (\<lambda>(f, p, room). length p)") (auto dest!: next_char_bounds)

function latin_name :: "bool \<Rightarrow> string \<Rightarrow> string option" where
  "latin_name f p = (if p = [] then Some [] else do { (n, bs) \<leftarrow> next_char f p; q \<leftarrow> latin_name f (drop n p); Some (bs @ q) })"
  by pat_completeness auto
termination by (relation "measure (\<lambda>(f, p). length p)") (auto dest!: next_char_bounds)

declare latin_conv.simps [simp del] latin_name.simps [simp del]

definition latin_lib :: "'s iconv_lib" where
  "latin_lib = \<lparr>ic_conv = \<lambda>f p room s. (latin_conv f p room, s), ic_reset = \<lambda>f s. s\<rparr>"

definition latin :: "'s conversion" where
  "latin f p s = map_option (\<lambda>q. (q, s)) (latin_name f p)"

lemma latin_conv_name:
  assumes "latin_conv f p room = (ans, n, bs)"
  shows "n \<le> length p \<and> length bs \<le> room \<and> (case ans of
       Converted \<Rightarrow> n = length p \<and> latin_name f p = Some bs
     | Invalid \<Rightarrow> latin_name f p = None
     | TooBig \<Rightarrow> (if n = 0 then room < 2 \<and> bs = [] else True) \<and> latin_name f p = map_option (\<lambda>b. bs @ b) (latin_name f (drop n p)))"
  using assms
proof (induction f p room arbitrary: ans n bs rule: latin_conv.induct)
  case (1 f p room)
  show ?case
  proof (cases "p = []")
    case True
    then show ?thesis using 1(2) by (auto simp: latin_conv.simps [of f "[]"] latin_name.simps [of f "[]"])
  next
    case ne: False
    show ?thesis
    proof (cases "next_char f p")
      case None
      then show ?thesis using 1(2) ne by (auto simp: latin_conv.simps [of f p] latin_name.simps [of f p])
    next
      case (Some kcs)
      then obtain k cs where k: "p \<noteq> []" "next_char f p = Some (k, cs)" using ne by (cases kcs) auto
      note b = next_char_bounds [OF k(2)]
      obtain ans' m ds where l: "latin_conv f (drop k p) (room - length cs) = (ans', m, ds)" by (metis prod_cases3)
      show ?thesis
      proof (cases "room < length cs")
        case True
        then show ?thesis using 1(2) k b by (cases "latin_name f p") (auto simp: latin_conv.simps [of f p])
      next
        case False
        note ih = 1(1) [OF k(1,2) refl False l]
        have r: "ans = ans'" "n = k + m" "bs = cs @ ds" using 1(2) k l False by (auto simp: latin_conv.simps [of f p])
        show ?thesis using ih b False k unfolding r
          by (cases ans') (auto simp: latin_name.simps [of f p] add.commute option.map_comp comp_def split: Option.bind_splits)
      qed
    qed
  qed
qed

lemma latin_contract: "iconv_contract latin_lib latin"
  unfolding iconv_contract_def
proof (intro allI impI)
  fix f p room ans n bs and s s' :: 's
  assume "ic_conv latin_lib f p room s = ((ans, n, bs), s')"
  then have c: "latin_conv f p room = (ans, n, bs)" and s: "s' = s" by (simp_all add: latin_lib_def)
  show "n \<le> length p \<and> length bs \<le> room \<and> (case ans of Converted \<Rightarrow> n = length p \<and> latin f p s = Some (bs, s') | Invalid \<Rightarrow> latin f p s = None
      | TooBig \<Rightarrow> (if n = 0 then room < 16 \<and> bs = [] else True) \<and> latin f p s = map_option (\<lambda>(b, t). (bs @ b, t)) (latin f (drop n p) s'))"
    unfolding s using latin_conv_name [OF c] by (cases ans; cases "n = 0"; simp add: latin_def option.map_comp comp_def)
qed

lemma latin_stateless: "stateless latin_lib"
  by (simp add: stateless_def latin_lib_def)

text \<open>A RAM disk whose root has two entries, the second with a name that is not UTF-8.\<close>

definition latin_entry :: "string \<Rightarrow> rd_file" where
  "latin_entry name = demo_file\<lparr>fname := name, fpath := ''/'', fparent := Some 0\<rparr>"

definition latin_disk :: ramdisk where
  "latin_disk = demo_disk\<lparr>heap := [0 \<mapsto> demo_root\<lparr>ffiles := [1, 2]\<rparr>, 1 \<mapsto> latin_entry [CHR 0xC3, CHR 0xA9], 2 \<mapsto> latin_entry [CHR 0xFF]]\<rparr>"

definition latin_world :: "(unit udata, ramdisk) fworld" where
  "latin_world = stack_world\<lparr>fsys := latin_disk\<rparr>"

definition latin_list :: "(string \<times> attrs) list" where
  "latin_list = map (\<lambda>(n, st). (n, Attr st)) (snd (the (rd_readdir 0 latin_disk (Some ''/''))))"

lemma latin_bytes: "latin_name False [CHR 0xE9] = Some [CHR 0xC3, CHR 0xA9]" "latin_name False ''/'' = Some ''/''"
  by code_simp+

lemma latin_memory: "has_memory latin_world"
  by (simp add: has_memory_def latin_world_def stack_world_def)

section \<open>Properties\<close>

text \<open>
  Property C26: \<open>iconv_convpath\<close> returns for every name, whatever \<open>malloc\<close> answers: with the conversion of the whole name,
  or \<open>EILSEQ\<close> if the name is not valid, or \<open>ENOMEM\<close> only when memory is refused. The loop ends although the room
  grows by a fixed rule and the library may stop in the middle of a name.
\<close>

theorem iconv_convpath_total:
  assumes "iconv_contract lib cv"
  shows "\<exists>r w'. iconv_convpath lib (Some p) f w = Some (r, w') \<and> fmem w' = fmem w \<and>
    (r = (- ENOMEM, None) \<and> \<not> has_memory w \<or>
     (case cv f p (fsys w) of None \<Rightarrow> r = (- EILSEQ, None) | Some (q, s) \<Rightarrow> r = (0, Some (c_cut q)) \<and> fsys w' = s))"
  using convpath_outcome [OF assms, of "Some p" f w] by (auto simp: path_outcome_def only_took_def)

theorem iconv_convpath_total_witness:
  "\<exists>w'. iconv_convpath latin_lib (Some [CHR 0xE9]) False latin_world = Some ((0, Some [CHR 0xC3, CHR 0xA9]), w')"
proof -
  have "latin False [CHR 0xE9] (fsys latin_world) = Some ([CHR 0xC3, CHR 0xA9], fsys latin_world)"
    using latin_bytes by (simp add: latin_def)
  then show ?thesis
    using iconv_convpath_total [OF latin_contract, of "[CHR 0xE9]" False latin_world] latin_memory by (auto simp: c_cut_def)
qed

text \<open>
  Property C22: a call to a file system under the module \<open>iconv\<close>, other than one whose result has names in it, is the same
  call of the file system below with all names converted; if a name cannot be converted, the call fails with
  \<open>EILSEQ\<close> and the file system below has no part in it.
\<close>

theorem iconv_redirects:
  assumes "iconv_contract lib cv" and "nameless c" and "has_memory w"
  shows "case conv_names cv (call_names c) (fsys w) of
      Some (ns, s) \<Rightarrow> \<exists>w'. fs_do io (iconv_fs io lib ic nxt) c w = fs_do io nxt (put_names c ns) w' \<and> fsys w' = s \<and> fmem w' = fmem w
    | None \<Rightarrow> \<exists>r w'. (\<forall>below. fs_do io (iconv_fs io lib ic below) c w = Some (r, w')) \<and> reply_code r = - EILSEQ"
proof (cases "conv_names cv (call_names c) (fsys w)")
  case None
  then show ?thesis using iconv_call_fails [OF assms] by simp
next
  case (Some p)
  then obtain ns s where p: "conv_names cv (call_names c) (fsys w) = Some (ns, s)" by (cases p) simp
  from iconv_call [OF assms p] show ?thesis by (force simp: p only_took_def enter_def)
qed

theorem iconv_redirects_witness:
  "\<exists>w'. fs_do no_io (iconv_fs no_io latin_lib (App ()) (ram_fs 0 NullPtr (App ()))) (C_mkdir (Some [CHR 0xE9]) 7) latin_world =
     fs_do no_io (ram_fs 0 NullPtr (App ())) (C_mkdir (Some [CHR 0xC3, CHR 0xA9]) 7) w' \<and> fsys w' = latin_disk"
proof -
  have "conv_names latin (call_names (C_mkdir (Some [CHR 0xE9]) 7)) (fsys latin_world) = Some ([Some [CHR 0xC3, CHR 0xA9]], latin_disk)"
    using latin_bytes by (simp add: call_names_def latin_def c_cut_def latin_world_def)
  moreover have "nameless (C_mkdir (Some [CHR 0xE9]) 7)" by (simp add: nameless_def)
  ultimately show ?thesis
    using iconv_redirects [OF latin_contract _ latin_memory, of "C_mkdir (Some [CHR 0xE9]) 7" no_io "App ()" "ram_fs 0 NullPtr (App ())"] by auto
qed

text \<open>
  Property C30: a listing through the module has the entries of the file system below in their order, with their names
  converted back; entries whose names are not valid are left out, and they do not make the listing fail.
\<close>

theorem iconv_listing:
  assumes "iconv_contract lib cv" and "stateless lib" and "has_memory w" and "cv False p (fsys w) = Some (q, fsys w)"
    and "\<And>w1. fmem w1 = fmem w \<Longrightarrow> fsys w1 = fsys w \<Longrightarrow> has_memory w1 \<Longrightarrow>
      \<exists>w2. fuse_fs_readdir nxt (Some (c_cut q)) off fi w1 = Some ((err, es), w2) \<and> has_memory w2 \<and> fsys w2 = s"
  shows "\<exists>w'. fuse_fs_readdir (iconv_fs io lib ic nxt) (Some p) off fi w = Some ((err, visible cv s es), w') \<and> fsys w' = s"
proof -
  let ?v = "enter (iconv_fs io lib ic nxt) w"
  have v: "fsys ?v = fsys w" "fmem ?v = fmem w" "has_memory ?v" using assms(3) by (simp_all add: enter_def has_memory_def)
  obtain w1 where c: "iconv_convpath lib (Some p) False ?v = Some ((0, Some (c_cut q)), w1)" "only_took ?v w1" "fsys w1 = fsys w"
    using convpath_outcome [OF assms(1), of "Some p" False ?v] v assms(4) by (auto simp: path_outcome_def)
  then obtain w2 where w2: "fuse_fs_readdir nxt (Some (c_cut q)) off fi w1 = Some ((err, es), w2)" "has_memory w2" "fsys w2 = s"
    using assms(5) [of w1] only_tookD [OF c(2)] v by auto
  obtain w3 where "iconv_dir_fill lib es w2 = Some (visible cv s es, w3)" "fsys w3 = s"
    using dir_fill_visible [OF assms(1,2) w2(2)] w2(3) by blast
  moreover have "fs_op (iconv_fs io lib ic nxt) = iconv_oper io lib nxt" by (simp add: iconv_fs_def)
  ultimately show ?thesis using c(1) w2(1) by (simp add: fuse_fs_readdir_def [of "iconv_fs io lib ic nxt"] iconv_ops iconv_readdir_def)
qed

theorem iconv_listing_witness:
  "\<exists>es w'. fuse_fs_readdir (iconv_fs no_io latin_lib (App ()) (ram_fs 0 NullPtr (App ()))) (Some ''/'') 0 \<lparr>fi_flags = 0, fi_fh = 0\<rparr> latin_world = Some ((0, es), w') \<and>
     map fst latin_list = [[CHR 0xC3, CHR 0xA9], [CHR 0xFF]] \<and> map fst es = [[CHR 0xE9]]"
proof -
  obtain es where l: "rd_readdir 0 latin_disk (Some ''/'') = Some (0, es)"
  proof -
    have "map_option fst (rd_readdir 0 latin_disk (Some ''/'')) = Some 0" by code_simp
    then show ?thesis using that by (cases "rd_readdir 0 latin_disk (Some ''/'')") auto
  qed
  have q: "latin False ''/'' (fsys latin_world) = Some (''/'', fsys latin_world)" using latin_bytes by (simp add: latin_def)
  have "\<exists>w2. fuse_fs_readdir (ram_fs 0 NullPtr (App ())) (Some (c_cut ''/'')) 0 \<lparr>fi_flags = 0, fi_fh = 0\<rparr> w1 = Some ((0, latin_list), w2) \<and>
      has_memory w2 \<and> fsys w2 = latin_disk" if "fsys w1 = fsys latin_world" "has_memory w1" for w1 :: "(unit udata, ramdisk) fworld"
    using that l by (simp add: fuse_fs_readdir_def ram_fs_def ram_operations_def enter_def c_cut_def latin_world_def latin_list_def has_memory_def)
  from iconv_listing [OF latin_contract latin_stateless latin_memory q this]
  obtain w' where "fuse_fs_readdir (iconv_fs no_io latin_lib (App ()) (ram_fs 0 NullPtr (App ()))) (Some ''/'') 0 \<lparr>fi_flags = 0, fi_fh = 0\<rparr> latin_world =
      Some ((0, visible latin latin_disk latin_list), w')" by blast
  moreover have "map fst latin_list = [[CHR 0xC3, CHR 0xA9], [CHR 0xFF]]" "map fst (visible latin () latin_list) = [[CHR 0xE9]]" by code_simp+
  moreover have "visible latin latin_disk es = visible latin () es" for es by (simp add: visible_def latin_def option.map_comp comp_def)
  ultimately show ?thesis by auto
qed

text \<open>
  The module is installed although names cannot be converted back, because the second descriptor is not tested.
\<close>

lemma iconv_new_unchecked:
  assumes "has_memory w" and "can_open from to" and "\<not> can_open to from"
  shows "fst (iconv_new io lib (Some (Some from, Some to)) can_open ic [nxt] w) = Some (iconv_fs io lib ic nxt)"
  using assms by (simp add: iconv_new_def fmalloc_def has_memory_def iconv_fs_def)

end
