(* ===== verification/Spec2Isabelle.thy ===== *)
theory Spec2Isabelle
  imports Prelude C_Lib Thread_Queue Thread_Sched Thread_Inv Thread_Refine Thread_Props Thread_Clients
    Shell_Lexer Shell_Parser Shell_Roundtrip Shell_Builtins Shell_Exec
    Potato_Utils Potato_Game Talk
    Ram_Utils Ram_Files Ramdisk Ram_Inv Ram_Refine Ram_Ops Ram_Props
    Runs Fuse_Opt Fuse_Buffer Fuse_Locks
    Fuse_Table Fuse_Nodes Fuse_Node_Inv Fuse_Node_Ops Fuse_Requests Fuse_Node_Props
    Fuse_Paths Fuse_Path_Locks Fuse_Path_Run Fuse_Path_Held Fuse_Path_Queue Fuse_Path_Props
    Fuse_Ops Fuse_Subdir Fuse_Links Fuse_Stack
    Fuse_Iconv Fuse_Iconv_Props
begin

text \<open>
  A verification of the programs of an operating systems course: a user-level thread library (\<open>src/hw1\<close>), a
  shell (\<open>src/hw2\<close>), a distributed game over sockets (\<open>src/hw3\<close>), a file system in memory (\<open>src/hw4\<close>), and
  parts of the FUSE library the file system is linked with (\<open>src/hw4/install/fuse-2.9.3\<close>).

  \<^bold>\<open>Conventions.\<close> C functions are HOL functions on explicit states, all of them executable. A result of type
  \<open>'a option\<close> is \<open>None\<close> exactly where C has no defined behaviour: a \<open>NULL\<close> or dangling pointer, a failed
  assertion, a write outside an array, a signed overflow. What a program reports to its caller or by its exit
  status is an ordinary value. Services of the system (context switches apart, which are modelled) and of other
  libraries are parameters: the process and file calls of the shell, the resolver and sockets of the game, \<open>time\<close>
  and \<open>rand\<close>, the reading and writing calls of the FUSE buffers, the option processing function of a FUSE program.
  Theories \<open>Prelude\<close> (machine integers, optional results, lists, the collections of simplification rules) and \<open>C_Lib\<close>
  (\<open>atoi\<close>, decimal notation, \<open>strtok\<close>, remainders) are shared.

  \<^bold>\<open>Threads (\<open>hw1/queue.h\<close>, \<open>hw1/mythread.c\<close>).\<close>
  \<^item> \<open>Thread_Queue\<close>: the linked queues, as a store of nodes with next pointers; every operation computes the list
    operation on the represented list. Loops along the pointers have the number of allocated addresses as fuel,
    which no list of cells exceeds. A locale states what the scheduler needs of a queue and is interpreted on
    the linked queues.
  \<^item> \<open>Thread_Sched\<close>: the state of the library (current thread, ready and blocked queues, semaphores, contexts) and
    one function per operation, ending in a switch to another thread or to the process.
  \<^item> \<open>Thread_Inv\<close>, \<open>Thread_Refine\<close>, \<open>Thread_Props\<close>: the invariant of all reachable states, the abstract machine on
    lists of thread numbers and the refinement, and the properties: every valid call is defined, no thread is in
    two queues, scheduling is first come first served, exits wake joined parents, the meaning of the counters.
  \<^item> \<open>Thread_Clients\<close>: the programs \<open>one\<close>, \<open>ping\<close>, \<open>passing\<close>, \<open>tree\<close> and \<open>fib\<close> of \<open>hw1/tests\<close> as clients whose bodies
    are sequences of library calls; they reproduce the recorded outputs, and \<open>ping\<close> alternates for every \<open>n\<close>. A
    run takes a number of steps as fuel; \<open>ping\<close> with \<open>n\<close> rounds ends within \<open>4 n + 7\<close> steps.

  \<^bold>\<open>Shell (\<open>hw2/parse.c\<close>, \<open>list.c\<close>, \<open>ush.c\<close>, \<open>main.c\<close>).\<close>
  \<^item> \<open>Shell_Lexer\<close>, \<open>Shell_Parser\<close>: \<open>nextToken\<close> with its word buffer of fixed size, and the recursive parser that
    builds pipes of commands; both total functions of the input, by the length of the input.
  \<^item> \<open>Shell_Roundtrip\<close>: well-formedness of what the parser returns, and parsing of a written-out line.
  \<^item> \<open>Shell_Builtins\<close>: the builtin commands on an environment and a current directory, the search of the path.
  \<^item> \<open>Shell_Exec\<close>: pipes, redirections, forks and waiting on tables of descriptors; the plumbing of a pipeline and
    the evaluation of commands.

  \<^bold>\<open>Game (\<open>hw3\<close>).\<close> \<open>Potato_Utils\<close> models \<open>utils.c\<close>, \<open>Potato_Game\<close> the master and the players with their messages.
  The network delivers a message in pieces of its choice: \<open>read_message\<close> returns the lines of a message exactly if no line
  is cut, and under that condition the potato makes exactly the requested number of hops along the ring. The game is run
  by rounds: a round is one message handled by one player. \<open>Talk\<close> models the two example programs \<open>speak.c\<close> and \<open>listen.c\<close>.

  \<^bold>\<open>RAM disk (\<open>hw4/ramdisk.c\<close>, \<open>utils.c\<close>).\<close>
  \<^item> \<open>Ram_Utils\<close>, \<open>Ram_Files\<close>, \<open>Ramdisk\<close>: paths, files and directories as objects of a store, each directory with its
    list of entries, and one function per FUSE operation, with the accounting of bytes.
  \<^item> \<open>Ram_Inv\<close>, \<open>Ram_Refine\<close>, \<open>Ram_Ops\<close>, \<open>Ram_Props\<close>: the store is a tree of directories; the abstract file system is a
    map from paths to directories and contents; the interpretation of the locale \<open>simulation\<close> of theory \<open>Runs\<close>,
    which states when one machine implements another, gives the refinement of all sequences of operations. What \<open>malloc\<close>
    leaves in fresh memory is a parameter: \<open>create_rd_file\<close> does not set the data pointer, so the abstract state records
    for each object whether it was set, and removing one whose pointer was not is undefined unless memory was zero. A
    file that grows loses what follows its first \<open>NUL\<close>, in the specification as well.

  \<^bold>\<open>FUSE library.\<close> \<open>Fuse_Opt\<close> models \<open>lib/fuse_opt.c\<close>: the parser returns on every argument vector; its loop takes one
  argument per round, so the number of arguments is enough fuel. \<open>Fuse_Buffer\<close> models \<open>lib/buffer.c\<close>: copying between
  vectors of memory areas and descriptors; the loops end because every round transfers a byte or uses up a buffer.
  \<open>Fuse_Locks\<close> models the record locks of \<open>lib/fuse.c\<close>: the list of locks of a node implements a map from owners and
  bytes to locks (a second interpretation of \<open>simulation\<close>), and the search for conflicts is exact.
  \<^item> \<open>Fuse_Table\<close>: the linear hash tables of \<open>lib/fuse.c\<close>, which split and merge one chain at a time.
  \<^item> \<open>Fuse_Nodes\<close>: the nodes that stand for files known to the kernel, with lookup and reference counters, creation,
    forgetting, unlinking, renaming and cleaning. Dropping a reference climbs along the parents and takes an entry out
    of the table of names in each round; the search for a new number may run forever when all are in use, and is
    proved to end when one is free.
  \<^item> \<open>Fuse_Node_Inv\<close>, \<open>Fuse_Node_Ops\<close>, \<open>Fuse_Requests\<close>: the invariant (a forest, exact counters, both tables exact) and its
    preservation by every operation.
  \<^item> \<open>Fuse_Node_Props\<close>: the protocol of the kernel as the condition of the locale \<open>guarded\<close> of theory \<open>Runs\<close>, whose
    interpretations show that no sequence of requests fails. Without \<open>remember\<close> the protocol is stated by an account that
    the kernel keeps of its lookups, and the counters of the library are shown to agree with it: no leaks, no known node
    missing. With \<open>remember\<close> the library frees a node the kernel knows (\<open>removed_node_cleaned\<close>), and the protocol is stated
    on the counters of the library.
  \<^item> \<open>Fuse_Paths\<close>: the paths of nodes, written from the end into a buffer that grows, with the locks along them and the
    queue of waiting requests (\<open>try_get_path\<close> to \<open>free_path2\<close> in \<open>lib/fuse.c\<close>). The loops end because the nodes form a
    forest, which the invariant of the nodes says.
  \<^item> \<open>Fuse_Path_Locks\<close>, \<open>Fuse_Path_Held\<close>, \<open>Fuse_Path_Queue\<close>: what one attempt does, the meaning of the lock counters in
    terms of the paths that are held, and the queue. \<open>Fuse_Path_Run\<close> gives an equation for \<open>try_get_path\<close> without its
    buffer, by which concrete runs are evaluated.
  \<^item> \<open>Fuse_Path_Props\<close>: threads that get, wait for and give back paths, as a further interpretation of \<open>guarded\<close>: no
    assertion fails, write locks exclude each other, paths are right, the first request of the queue is served. The tree
    of nodes stays as it is meanwhile. Requests for two paths can lose a lock (\<open>lost_lock\<close>) or wait for each other
    (\<open>half_locked\<close>).
  \<^item> \<open>Fuse_Ops\<close>: the calls of a file system from the library (\<open>fuse_fs_getattr\<close> and the others of \<open>lib/fuse.c\<close>) over a
    record of optional operations; the private data of the context, memory and the answers of \<open>malloc\<close> are in the state.
  \<^item> \<open>Fuse_Subdir\<close>, \<open>Fuse_Links\<close>: the module \<open>lib/modules/subdir.c\<close>, which redirects paths to a base directory, and the
    meaning of the relative links it makes.
  \<^item> \<open>Fuse_Stack\<close>: the module on top of any file system is that file system with the base directory in front of all
    paths; the RAM disk of \<open>hw4\<close> under the module and the library returns what was written, and its reads overrun
    the memory that the library allocates.

  \<^item> \<open>Fuse_Iconv\<close>, \<open>Fuse_Iconv_Props\<close>: the module \<open>lib/modules/iconv.c\<close>, which converts names. The \<open>iconv\<close> library is a
    parameter whose contract is the hypothesis \<open>iconv_contract\<close>; conversion between Latin-1 and UTF-8 satisfies it. The
    loop that converts a name is a partial function and is proved to end, because a round consumes a part of the name or
    starts with more room; calls are redirected with converted names, and listings are converted back.

  \<^bold>\<open>Not modelled.\<close> The rest of the FUSE library, which is third-party code: in \<open>fuse.c\<close>
  the handlers of requests that combine nodes, paths and calls, options, interrupts and the interfaces of older versions,
  \<open>fuse_lowlevel.c\<close> and the headers of the kernel protocol, sessions, channels and
  threads, mounting and its helper programs, and the example file systems. In
  the repository's own programs: printing of interface addresses in \<open>hw3/utils.c\<close>, the client
  \<open>hw1/tests/talkie.c\<close>, which prints its shared buffer before anything is written there, the test programs under \<open>hw2/grades\<close> and the benchmark
  \<open>hw4/tests/postmark-1.51.c\<close>. Allocation always succeeds, except for locks, nodes
  and paths and in the modules of the FUSE library, where its answers are parameters. Calls that change the nodes and
  threads that hold paths are not interleaved with each other; the \<open>filler\<close> of a listing takes every entry.
\<close>

end
